(* ===== verification/Prelude.thy ===== *)
theory Prelude
  imports Main "HOL-Library.Word"
begin

text \<open>
  Shared ground of the development: the types that name bytes and byte
  sequences, the little-endian reading of a byte sequence as a number, and the
  generic list, option and arithmetic lemmas that the component theories use.
  The collections \<open>stream_simps\<close>, \<open>stream_inv\<close> and \<open>log_simps\<close> gather the
  facts each layer exports to the layer above it.
\<close>

section \<open>Collections and types\<close>

named_theorems stream_simps "what the operations of a byte stream do to its content"
named_theorems stream_inv "which operations of a byte stream keep its invariant"
named_theorems log_simps "facts of the record and log layer used by its clients"

type_synonym byte = "8 word"
type_synonym bytes = "byte list"

text \<open>
  The C++ code aborts the process when a \<open>CHECK\<close> fails or a \<open>LOG_FATAL\<close> is
  reached. Such a run is the value \<open>None\<close> of an option result. \<open>DCHECK\<close>s are
  compiled out of release builds and are not part of the model.
\<close>

section \<open>Bits of a byte\<close>

lemma byte_eqI:
  fixes a b :: byte
  assumes "bit a 0 = bit b 0" "bit a 1 = bit b 1" "bit a 2 = bit b 2" "bit a 3 = bit b 3"
    "bit a 4 = bit b 4" "bit a 5 = bit b 5" "bit a 6 = bit b 6" "bit a 7 = bit b 7"
  shows "a = b"
proof (rule bit_word_eqI)
  fix n assume "n < LENGTH(8)"
  then have "n \<in> {0, 1, 2, 3, 4, 5, 6, 7}" by auto
  with assms show "bit a n = bit b n" by auto
qed

lemma byte_no_bit [simp]: "8 \<le> n \<Longrightarrow> \<not> bit (a :: byte) n"
  by (rule impossible_bit) simp

section \<open>Numbers as little-endian byte sequences\<close>

primrec le_bytes :: "nat \<Rightarrow> nat \<Rightarrow> bytes" where
  "le_bytes 0 v = []"
| "le_bytes (Suc n) v = of_nat (v mod 256) # le_bytes n (v div 256)"

primrec le_value :: "bytes \<Rightarrow> nat" where
  "le_value [] = 0"
| "le_value (b # bs) = unat b + 256 * le_value bs"

lemma length_le_bytes [simp]: "length (le_bytes n v) = n"
  by (induction n arbitrary: v) auto

lemma unat_byte_less [simp]: "unat (b :: byte) < 256"
proof -
  have "unat b < 2 ^ LENGTH(8)" by (rule unsigned_less)
  then show ?thesis by simp
qed

lemma unat_of_nat_byte [simp]: "unat (of_nat (v mod 256) :: byte) = v mod 256"
  by (simp add: unat_of_nat)

lemma le_value_le_bytes: "le_value (le_bytes n v) = v mod 256 ^ n"
proof (induction n arbitrary: v)
  case (Suc n)
  then show ?case by (simp add: mod_mult2_eq)
qed simp

lemma le_bytes_le_value: "le_bytes (length bs) (le_value bs) = bs"
proof (induction bs)
  case (Cons b bs)
  have "(unat b + 256 * le_value bs) mod 256 = unat b"
    and "(unat b + 256 * le_value bs) div 256 = le_value bs"
    by simp_all
  with Cons show ?case by simp
qed simp

lemma le_value_less: "le_value bs < 256 ^ length bs"
proof (induction bs)
  case (Cons b bs)
  then have "Suc (le_value bs) \<le> 256 ^ length bs" by simp
  then have "256 * Suc (le_value bs) \<le> 256 * 256 ^ length bs" by (rule mult_le_mono2)
  moreover have "unat b < 256" by (rule unat_byte_less)
  ultimately show ?case by (simp del: unat_byte_less)
qed simp

lemma le_bytes_inject:
  assumes "le_bytes n u = le_bytes n v" and "u < 256 ^ n" and "v < 256 ^ n"
  shows "u = v"
proof -
  from assms(1) have "u mod 256 ^ n = v mod 256 ^ n"
    by (metis le_value_le_bytes)
  with assms(2,3) show ?thesis by simp
qed

section \<open>Lists\<close>

lemma take_drop_append_id: "take n xs @ drop n xs @ ys = xs @ ys"
  by (metis append_assoc append_take_drop_id)

lemma drop_min_length: "drop (min n (length xs)) xs = drop n xs"
  by (simp add: min_def)

lemma take_min_length: "take (min n (length xs)) xs = take n xs"
  by (simp add: min_def)

lemma drop_eq_Cons_nth: "i < length xs \<Longrightarrow> drop i xs = xs ! i # drop (Suc i) xs"
  by (simp add: Cons_nth_drop_Suc)

lemma concat_map_Nil: "\<forall>x \<in> set xs. f x = [] \<Longrightarrow> concat (map f xs) = []"
  by (induction xs) auto

lemma length_concat_map: "length (concat (map f xs)) = sum_list (map (\<lambda>x. length (f x)) xs)"
  by (induction xs) auto

lemma list_update_last: "xs \<noteq> [] \<Longrightarrow> xs[length xs - 1 := y] = butlast xs @ [y]"
  by (cases xs rule: rev_cases) auto

lemma butlast_memD: "x \<in> set (butlast xs) \<Longrightarrow> x \<in> set xs \<and> hd (butlast xs) = hd xs"
  by (cases xs) (auto dest: in_set_butlastD split: if_splits)

lemma hd_butlast: "butlast xs \<noteq> [] \<Longrightarrow> hd (butlast xs) = hd xs"
  by (cases xs) auto

lemma sorted_nth_ge_count:
  fixes xs :: "'a::linorder list"
  assumes "sorted xs" and "k < length xs"
  shows "length xs - k \<le> length (filter (\<lambda>x. xs ! k \<le> x) xs)"
proof -
  have "filter (\<lambda>x. xs ! k \<le> x) (drop k xs) = drop k xs"
    using assms by (auto simp: filter_id_conv in_set_conv_nth sorted_nth_mono)
  then have "length (drop k xs) \<le> length (filter (\<lambda>x. xs ! k \<le> x) (take k xs @ drop k xs))"
    by (simp only: filter_append length_append)
  then show ?thesis by simp
qed

end
