(* ===== verification/NumStreaming.thy ===== *)
theory NumStreaming
  imports Prelude
begin

text \<open>
  Model of \<open>io/num_streaming.h\<close>: writing and reading fixed-width numbers on a
  byte stream in a given byte order (the class template \<open>BaseNumStreamer<R, W>\<close>).
  The template is generic in the stream classes, so each operation takes the
  stream's own \<open>ReadBuffer\<close>, \<open>Peek\<close> or \<open>WriteBuffer\<close> as an argument; the locale
  \<open>byte_stream\<close> states what the template relies on, and the round trips are
  proved once inside it.

  A number in memory is its sequence of bytes (lowest address first). The byte
  order of the machine (\<open>common::kByteOrder\<close>, fixed at compile time) is the
  argument \<open>ho\<close> of every operation. A read that returns fewer bytes than asked is
  the result \<open>None\<close>: the code then either aborts (\<open>success == NULL\<close>) or sets
  \<open>*success\<close> to false and returns an unspecified value. Floating-point numbers are
  moved as their 4 or 8 byte patterns.
\<close>

section \<open>Definitions\<close>

subsection \<open>Byte order and numbers in memory\<close>

datatype ByteOrder = BIGENDIAN | LILENDIAN | PDPENDIAN | UNKNOWNENDIAN

text \<open>
  The machine's own order is \<open>LILENDIAN\<close> or \<open>BIGENDIAN\<close> (any other value of
  \<open>kByteOrder\<close> is a compile-time error), so \<open>ho\<close> not little-endian means big-endian.
\<close>

definition scalar_mem :: "ByteOrder \<Rightarrow> nat \<Rightarrow> nat \<Rightarrow> bytes" where
  "scalar_mem ho n v = (if ho = LILENDIAN then le_bytes n v else rev (le_bytes n v))"

definition scalar_value :: "ByteOrder \<Rightarrow> bytes \<Rightarrow> nat" where
  "scalar_value ho mem = (if ho = LILENDIAN then le_value mem else le_value (rev mem))"

record uint24 =
  data0 :: byte
  data1 :: byte
  data2 :: byte

definition uint24_of_int32 :: "ByteOrder \<Rightarrow> 32 word \<Rightarrow> uint24" where
  "uint24_of_int32 ho x =
     (if ho = LILENDIAN
      then \<lparr>data0 = of_nat (unat x mod 256), data1 = of_nat (unat x div 256 mod 256),
             data2 = of_nat (unat x div 65536 mod 256)\<rparr>
      else \<lparr>data0 = of_nat (unat x div 65536 mod 256), data1 = of_nat (unat x div 256 mod 256),
             data2 = of_nat (unat x mod 256)\<rparr>)"

definition uint32_of_uint24 :: "uint24 \<Rightarrow> 32 word" where
  "uint32_of_uint24 d = of_nat (unat (data0 d) + 256 * unat (data1 d) + 65536 * unat (data2 d))"

definition uint24_mem :: "uint24 \<Rightarrow> bytes" where
  "uint24_mem d = [data0 d, data1 d, data2 d]"

fun uint24_of_mem :: "bytes \<Rightarrow> uint24 option" where
  "uint24_of_mem [a, b, c] = Some \<lparr>data0 = a, data1 = b, data2 = c\<rparr>"
| "uint24_of_mem _ = None"

function SwapBytes_loop :: "nat \<Rightarrow> nat \<Rightarrow> bytes \<Rightarrow> bytes" where
  "SwapBytes_loop p1 p2 data =
     (if p1 < p2 then SwapBytes_loop (Suc p1) (p2 - 1) (data[p1 := data ! p2, p2 := data ! p1])
      else data)"
  by pat_completeness auto
termination
  by (relation "measure (\<lambda>(p1, p2, data). p2 - p1)") auto

definition SwapBytes :: "bytes \<Rightarrow> bytes" where
  "SwapBytes data = SwapBytes_loop 0 (length data - 1) data"

declare SwapBytes_loop.simps [simp del]

subsection \<open>Reading\<close>

definition ReadNumber ::
    "ByteOrder \<Rightarrow> ('s \<Rightarrow> nat \<Rightarrow> bytes \<times> 's) \<Rightarrow> ByteOrder \<Rightarrow> nat \<Rightarrow> 's \<Rightarrow> bytes option \<times> 's" where
  "ReadNumber ho rd order n s =
     (let (mem, s') = rd s n
      in (if length mem = n then Some (if ho \<noteq> order then SwapBytes mem else mem) else None, s'))"

definition PeekNumber ::
    "ByteOrder \<Rightarrow> ('s \<Rightarrow> nat \<Rightarrow> bytes) \<Rightarrow> ByteOrder \<Rightarrow> nat \<Rightarrow> 's \<Rightarrow> bytes option" where
  "PeekNumber ho pk order n s =
     (let mem = pk s n
      in if length mem = n then Some (if ho \<noteq> order then SwapBytes mem else mem) else None)"

definition ReadScalar where
  "ReadScalar ho rd order n s =
     (case ReadNumber ho rd order n s of (r, s') \<Rightarrow> (map_option (scalar_value ho) r, s'))"

definition PeekScalar where
  "PeekScalar ho pk order n s = map_option (scalar_value ho) (PeekNumber ho pk order n s)"

definition ReadByte :: "ByteOrder \<Rightarrow> ('s \<Rightarrow> nat \<Rightarrow> bytes \<times> 's) \<Rightarrow> 's \<Rightarrow> byte option \<times> 's" where
  "ReadByte ho rd s = apfst (map_option of_nat) (ReadScalar ho rd ho 1 s)"

definition ReadInt16 ::
    "ByteOrder \<Rightarrow> ('s \<Rightarrow> nat \<Rightarrow> bytes \<times> 's) \<Rightarrow> ByteOrder \<Rightarrow> 's \<Rightarrow> 16 word option \<times> 's" where
  "ReadInt16 ho rd order s = apfst (map_option of_nat) (ReadScalar ho rd order 2 s)"

definition ReadUInt24 ::
    "ByteOrder \<Rightarrow> ('s \<Rightarrow> nat \<Rightarrow> bytes \<times> 's) \<Rightarrow> ByteOrder \<Rightarrow> 's \<Rightarrow> 32 word option \<times> 's" where
  "ReadUInt24 ho rd order s =
     (case ReadNumber ho rd order 3 s of
        (r, s') \<Rightarrow> (map_option uint32_of_uint24 (Option.bind r uint24_of_mem), s'))"

definition ReadInt32 ::
    "ByteOrder \<Rightarrow> ('s \<Rightarrow> nat \<Rightarrow> bytes \<times> 's) \<Rightarrow> ByteOrder \<Rightarrow> 's \<Rightarrow> 32 word option \<times> 's" where
  "ReadInt32 ho rd order s = apfst (map_option of_nat) (ReadScalar ho rd order 4 s)"

definition ReadInt64 ::
    "ByteOrder \<Rightarrow> ('s \<Rightarrow> nat \<Rightarrow> bytes \<times> 's) \<Rightarrow> ByteOrder \<Rightarrow> 's \<Rightarrow> 64 word option \<times> 's" where
  "ReadInt64 ho rd order s = apfst (map_option of_nat) (ReadScalar ho rd order 8 s)"

definition PeekByte :: "ByteOrder \<Rightarrow> ('s \<Rightarrow> nat \<Rightarrow> bytes) \<Rightarrow> 's \<Rightarrow> byte option" where
  "PeekByte ho pk s = map_option of_nat (PeekScalar ho pk ho 1 s)"

definition PeekInt16 ::
    "ByteOrder \<Rightarrow> ('s \<Rightarrow> nat \<Rightarrow> bytes) \<Rightarrow> ByteOrder \<Rightarrow> 's \<Rightarrow> 16 word option" where
  "PeekInt16 ho pk order s = map_option of_nat (PeekScalar ho pk order 2 s)"

definition PeekUInt24 ::
    "ByteOrder \<Rightarrow> ('s \<Rightarrow> nat \<Rightarrow> bytes) \<Rightarrow> ByteOrder \<Rightarrow> 's \<Rightarrow> 32 word option" where
  "PeekUInt24 ho pk order s =
     map_option uint32_of_uint24 (Option.bind (PeekNumber ho pk order 3 s) uint24_of_mem)"

definition PeekInt32 ::
    "ByteOrder \<Rightarrow> ('s \<Rightarrow> nat \<Rightarrow> bytes) \<Rightarrow> ByteOrder \<Rightarrow> 's \<Rightarrow> 32 word option" where
  "PeekInt32 ho pk order s = map_option of_nat (PeekScalar ho pk order 4 s)"

definition PeekInt64 ::
    "ByteOrder \<Rightarrow> ('s \<Rightarrow> nat \<Rightarrow> bytes) \<Rightarrow> ByteOrder \<Rightarrow> 's \<Rightarrow> 64 word option" where
  "PeekInt64 ho pk order s = map_option of_nat (PeekScalar ho pk order 8 s)"

subsection \<open>Writing\<close>

definition WriteNumber ::
    "ByteOrder \<Rightarrow> ('s \<Rightarrow> bytes \<Rightarrow> (nat \<times> 's) option) \<Rightarrow> ByteOrder \<Rightarrow> bytes \<Rightarrow> 's \<Rightarrow> (nat \<times> 's) option" where
  "WriteNumber ho wr order mem s = wr s (if ho \<noteq> order then SwapBytes mem else mem)"

definition WriteByte :: "ByteOrder \<Rightarrow> ('s \<Rightarrow> bytes \<Rightarrow> (nat \<times> 's) option) \<Rightarrow> byte \<Rightarrow> 's \<Rightarrow> (nat \<times> 's) option" where
  "WriteByte ho wr v s = WriteNumber ho wr ho (scalar_mem ho 1 (unat v)) s"

definition WriteInt16 ::
    "ByteOrder \<Rightarrow> ('s \<Rightarrow> bytes \<Rightarrow> (nat \<times> 's) option) \<Rightarrow> ByteOrder \<Rightarrow> 16 word \<Rightarrow> 's \<Rightarrow> (nat \<times> 's) option" where
  "WriteInt16 ho wr order v s = WriteNumber ho wr order (scalar_mem ho 2 (unat v)) s"

definition WriteUInt24 ::
    "ByteOrder \<Rightarrow> ('s \<Rightarrow> bytes \<Rightarrow> (nat \<times> 's) option) \<Rightarrow> ByteOrder \<Rightarrow> 32 word \<Rightarrow> 's \<Rightarrow> (nat \<times> 's) option" where
  "WriteUInt24 ho wr order v s = WriteNumber ho wr order (uint24_mem (uint24_of_int32 ho v)) s"

definition WriteInt32 ::
    "ByteOrder \<Rightarrow> ('s \<Rightarrow> bytes \<Rightarrow> (nat \<times> 's) option) \<Rightarrow> ByteOrder \<Rightarrow> 32 word \<Rightarrow> 's \<Rightarrow> (nat \<times> 's) option" where
  "WriteInt32 ho wr order v s = WriteNumber ho wr order (scalar_mem ho 4 (unat v)) s"

definition WriteInt64 ::
    "ByteOrder \<Rightarrow> ('s \<Rightarrow> bytes \<Rightarrow> (nat \<times> 's) option) \<Rightarrow> ByteOrder \<Rightarrow> 64 word \<Rightarrow> 's \<Rightarrow> (nat \<times> 's) option" where
  "WriteInt64 ho wr order v s = WriteNumber ho wr order (scalar_mem ho 8 (unat v)) s"

section \<open>The byte swap reverses the bytes\<close>

lemma length_SwapBytes_loop [simp]: "length (SwapBytes_loop p1 p2 data) = length data"
  by (induction p1 p2 data rule: SwapBytes_loop.induct) (subst SwapBytes_loop.simps, simp)

lemma nth_SwapBytes_loop:
  "p2 < length data \<Longrightarrow> i < length data \<Longrightarrow>
   SwapBytes_loop p1 p2 data ! i = (if p1 \<le> i \<and> i \<le> p2 then data ! (p1 + p2 - i) else data ! i)"
proof (induction p1 p2 data rule: SwapBytes_loop.induct)
  case (1 p1 p2 data)
  show ?case
  proof (cases "p1 < p2")
    case True
    with 1 show ?thesis
      by (subst SwapBytes_loop.simps) (auto simp: nth_list_update)
  next
    case False
    with 1 show ?thesis
      by (subst SwapBytes_loop.simps) (cases "i = p1"; force)
  qed
qed

lemma SwapBytes_rev: "SwapBytes data = rev data"
proof (cases "data = []")
  case True
  then show ?thesis by (simp add: SwapBytes_def SwapBytes_loop.simps)
next
  case False
  show ?thesis
  proof (rule nth_equalityI)
    fix i assume "i < length (SwapBytes data)"
    then have "i < length data" by (simp add: SwapBytes_def)
    with False show "SwapBytes data ! i = rev data ! i"
      by (auto simp: SwapBytes_def nth_SwapBytes_loop rev_nth)
  qed (simp add: SwapBytes_def)
qed

section \<open>The stream interface and the round trips over it\<close>

locale byte_stream =
  fixes content :: "'s \<Rightarrow> bytes"
    and inv :: "'s \<Rightarrow> bool"
    and rd :: "'s \<Rightarrow> nat \<Rightarrow> bytes \<times> 's"
    and pk :: "'s \<Rightarrow> nat \<Rightarrow> bytes"
    and wr :: "'s \<Rightarrow> bytes \<Rightarrow> (nat \<times> 's) option"
  assumes rd_bytes: "inv s \<Longrightarrow> fst (rd s n) = take n (content s)"
    and rd_content: "inv s \<Longrightarrow> content (snd (rd s n)) = drop n (content s)"
    and rd_inv: "inv s \<Longrightarrow> inv (snd (rd s n))"
    and pk_bytes: "inv s \<Longrightarrow> pk s n = take n (content s)"
    and wr_spec: "inv s \<Longrightarrow>
      \<exists>s'. wr s bs = Some (length bs, s') \<and> content s' = content s @ bs \<and> inv s'"
begin

lemma WriteNumber_content:
  assumes "inv s"
  shows "\<exists>s'. WriteNumber ho wr order mem s = Some (length mem, s') \<and> inv s' \<and>
           content s' = content s @ (if ho \<noteq> order then rev mem else mem)"
  using wr_spec [OF assms, of "if ho \<noteq> order then rev mem else mem"]
  by (auto simp: WriteNumber_def SwapBytes_rev)

lemma ReadNumber_content:
  assumes "inv s" and "content s = (if ho \<noteq> order then rev mem else mem) @ rest"
  shows "fst (ReadNumber ho rd order (length mem) s) = Some mem"
    and "content (snd (ReadNumber ho rd order (length mem) s)) = rest"
    and "inv (snd (ReadNumber ho rd order (length mem) s))"
  using rd_bytes [OF assms(1), of "length mem"] rd_content [OF assms(1), of "length mem"]
    rd_inv [OF assms(1), of "length mem"] assms(2)
  by (auto simp: ReadNumber_def SwapBytes_rev split_beta split: if_splits)

lemma ReadNumber_short:
  assumes "inv s" and "length (content s) < n"
  shows "fst (ReadNumber ho rd order n s) = None"
  using rd_bytes [OF assms(1), of n] assms(2) by (auto simp: ReadNumber_def split_beta)

lemma PeekNumber_ReadNumber:
  assumes "inv s"
  shows "PeekNumber ho pk order n s = fst (ReadNumber ho rd order n s)"
  using rd_bytes [OF assms, of n] pk_bytes [OF assms, of n]
  by (simp add: PeekNumber_def ReadNumber_def Let_def split_beta)

lemma write_read_number:
  assumes "inv s" and "content s = []"
  shows "\<exists>s' s''. WriteNumber ho wr order mem s = Some (length mem, s') \<and>
           ReadNumber ho rd order (length mem) s' = (Some mem, s'') \<and> content s'' = [] \<and> inv s''"
proof -
  obtain s' where s': "WriteNumber ho wr order mem s = Some (length mem, s')" "inv s'"
      "content s' = (if ho \<noteq> order then rev mem else mem) @ []"
    using WriteNumber_content [OF assms(1), of ho order mem] assms(2) by auto
  with ReadNumber_content [OF s'(2,3)] show ?thesis by (metis prod.collapse)
qed

end

lemma length_scalar_mem [simp]: "length (scalar_mem ho n v) = n"
  by (simp add: scalar_mem_def)

lemma scalar_value_mem: "scalar_value ho (scalar_mem ho n v) = v mod 256 ^ n"
  by (simp add: scalar_value_def scalar_mem_def le_value_le_bytes)

lemma uint24_of_mem_uint24_mem [simp]: "uint24_of_mem (uint24_mem d) = Some d"
  by (simp add: uint24_mem_def)

lemma length_uint24_mem [simp]: "length (uint24_mem d) = 3"
  by (simp add: uint24_mem_def)

lemma nat_split_3_bytes:
  "(v::nat) mod 256 + 256 * (v div 256 mod 256) + 65536 * (v div 65536 mod 256) = v mod 16777216"
proof -
  have "v mod (256 * 65536) = 256 * (v div 256 mod 65536) + v mod 256"
    by (rule mod_mult2_eq)
  moreover have "v div 256 mod (256 * 256) = 256 * (v div 256 div 256 mod 256) + v div 256 mod 256"
    by (rule mod_mult2_eq)
  moreover have "v div 256 div 256 = v div 65536" by (simp add: div_mult2_eq [symmetric])
  ultimately show ?thesis by simp
qed

lemma uint32_of_uint24_of_int32_le:
  "uint32_of_uint24 (uint24_of_int32 LILENDIAN x) = of_nat (unat x mod 16777216)"
  by (simp add: uint32_of_uint24_def uint24_of_int32_def nat_split_3_bytes)

text \<open>What each writer puts on the wire, whatever the machine's own order is.\<close>

definition machine_order :: "ByteOrder \<Rightarrow> bool" where
  "machine_order ho \<longleftrightarrow> ho = LILENDIAN \<or> ho = BIGENDIAN"

lemma wire_bigendian:
  "machine_order ho \<Longrightarrow>
   (if ho \<noteq> BIGENDIAN then rev (scalar_mem ho n v) else scalar_mem ho n v) = rev (le_bytes n v)"
  by (auto simp: scalar_mem_def machine_order_def)

lemma wire_lilendian:
  "(if ho \<noteq> LILENDIAN then rev (scalar_mem ho n v) else scalar_mem ho n v) = le_bytes n v"
  by (simp add: scalar_mem_def)

end
