(* ===== verification/DataBlock.thy ===== *)
theory DataBlock
  imports NumStreaming
begin

text \<open>
  Model of \<open>io/buffer/data_block.h\<close> and \<open>io/buffer/data_block.cc\<close>: fixed-size memory
  blocks (\<open>DataBlock\<close>), the vector of blocks with stable block numbers
  (\<open>BlockDqueue\<close>), and the pointer into such a vector (\<open>DataBlockPointer\<close>) with its
  reading, writing and scanning operations. The abstraction \<open>bytes_from q p\<close> is the
  sequence of valid bytes from a pointer to the end of the blocks; the lemmas say
  what each operation does to it.

  A block holds its whole buffer and how many of its bytes are valid. Fresh memory
  (\<open>new char[n]\<close>) has unspecified bytes in C++; the model takes zeros, and only the
  valid bytes ever enter an abstraction. Reference counts are not modelled: a block
  shared by two queues is one that is completely filled (see \<open>MemoryStream\<close>), so it is
  never written again. A pointer's \<open>owner\<close> is the queue argument of the operation.
  An iterator \<open>it\<close> of the code always denotes the block of the pointer's own
  \<open>block_id\<close>, so it is not a separate variable. The code reads \<open>pos_\<close> beyond the
  block's size only outside its class invariant (undefined behaviour); the loops of
  the model stop there.
\<close>

section \<open>Blocks and the block queue\<close>

record data_block =
  buffer :: bytes
  db_size :: nat
  is_mutable :: bool

definition new_char :: "nat \<Rightarrow> bytes" where
  "new_char n = replicate n 0"

definition new_DataBlock :: "nat \<Rightarrow> data_block" where
  "new_DataBlock n = \<lparr>buffer = new_char n, db_size = 0, is_mutable = True\<rparr>"

definition raw_DataBlock :: "bytes \<Rightarrow> data_block" where
  "raw_DataBlock bs = \<lparr>buffer = bs, db_size = length bs, is_mutable = False\<rparr>"

abbreviation buffer_size :: "data_block \<Rightarrow> nat" where
  "buffer_size b \<equiv> length (buffer b)"

definition db_data :: "data_block \<Rightarrow> bytes" where
  "db_data b = take (db_size b) (buffer b)"

definition kResizeThreshold :: nat where
  "kResizeThreshold = 25"

record block_dqueue =
  vec :: "data_block list"
  begin_off :: nat
  correction :: nat

definition bq_new :: block_dqueue where
  "bq_new = \<lparr>vec = [], begin_off = 0, correction = 0\<rparr>"

definition bq_begin_id :: "block_dqueue \<Rightarrow> int" where
  "bq_begin_id q = int (begin_off q) + int (correction q)"

definition bq_end_id :: "block_dqueue \<Rightarrow> int" where
  "bq_end_id q = int (length (vec q)) + int (correction q)"

definition bq_index :: "block_dqueue \<Rightarrow> int \<Rightarrow> nat" where
  "bq_index q i = nat (i - int (correction q))"

definition bq_block :: "block_dqueue \<Rightarrow> int \<Rightarrow> data_block" where
  "bq_block q i = vec q ! bq_index q i"

definition bq_set_block :: "block_dqueue \<Rightarrow> int \<Rightarrow> data_block \<Rightarrow> block_dqueue" where
  "bq_set_block q i b = q\<lparr>vec := (vec q)[bq_index q i := b]\<rparr>"

definition bq_pop_front :: "block_dqueue \<Rightarrow> block_dqueue" where
  "bq_pop_front q = q\<lparr>begin_off := begin_off q + 1\<rparr>"

definition bq_push_back :: "block_dqueue \<Rightarrow> data_block \<Rightarrow> block_dqueue" where
  "bq_push_back q b = q\<lparr>vec := vec q @ [b]\<rparr>"

definition bq_size :: "block_dqueue \<Rightarrow> nat" where
  "bq_size q = length (vec q) - begin_off q"

definition bq_empty :: "block_dqueue \<Rightarrow> bool" where
  "bq_empty q \<longleftrightarrow> begin_off q = length (vec q)"

definition bq_clear :: "block_dqueue \<Rightarrow> block_dqueue" where
  "bq_clear q = \<lparr>vec = [], begin_off = 0, correction = correction q + begin_off q\<rparr>"

fun correct_loop :: "nat \<Rightarrow> nat \<Rightarrow> nat \<Rightarrow> data_block list \<Rightarrow> data_block list" where
  "correct_loop 0 off i v = v"
| "correct_loop (Suc n) off i v = correct_loop n off (Suc i) (v[i := v ! (i + off)])"

definition bq_correct_buffer :: "block_dqueue \<Rightarrow> block_dqueue" where
  "bq_correct_buffer q =
     (let elem_size = bq_size q
      in if begin_off q > 0 \<and> begin_off q > kResizeThreshold \<and> begin_off q > elem_size
         then \<lparr>vec = take elem_size (correct_loop elem_size (begin_off q) 0 (vec q)),
               begin_off = 0, correction = correction q + begin_off q\<rparr>
         else q)"

section \<open>Pointers into the queue\<close>

record dbp =
  block_id :: int
  pos :: nat

definition dbp_null :: dbp where
  "dbp_null = \<lparr>block_id = -1, pos = 0\<rparr>"

definition IsNull :: "dbp \<Rightarrow> bool" where
  "IsNull p \<longleftrightarrow> block_id p = -1"

abbreviation ptr_block :: "block_dqueue \<Rightarrow> dbp \<Rightarrow> data_block" where
  "ptr_block q p \<equiv> bq_block q (block_id p)"

definition AvailableForWrite :: "block_dqueue \<Rightarrow> dbp \<Rightarrow> nat" where
  "AvailableForWrite q p = (if IsNull p then 0 else buffer_size (ptr_block q p) - pos p)"

definition AdvanceToCurrentBlockEnd :: "block_dqueue \<Rightarrow> dbp \<Rightarrow> nat \<times> block_dqueue \<times> dbp" where
  "AdvanceToCurrentBlockEnd q p =
     (if IsNull p then (0, q, p)
      else let b = ptr_block q p; b' = b\<lparr>db_size := buffer_size b\<rparr>
           in (buffer_size b - pos p, bq_set_block q (block_id p) b', p\<lparr>pos := db_size b'\<rparr>))"

definition SkipToCurrentBlockEnd :: "block_dqueue \<Rightarrow> dbp \<Rightarrow> dbp" where
  "SkipToCurrentBlockEnd q p = (if IsNull p then p else p\<lparr>pos := db_size (ptr_block q p)\<rparr>)"

definition MarkCurrentBlockEndAtPointer :: "block_dqueue \<Rightarrow> dbp \<Rightarrow> block_dqueue" where
  "MarkCurrentBlockEndAtPointer q p =
     bq_set_block q (block_id p) ((ptr_block q p)\<lparr>db_size := pos p\<rparr>)"

definition ptr_less :: "dbp \<Rightarrow> dbp \<Rightarrow> bool" where
  "ptr_less p m \<longleftrightarrow>
     (if block_id p = block_id m then pos p < pos m else block_id p < block_id m)"

definition ptr_le :: "dbp \<Rightarrow> dbp \<Rightarrow> bool" where
  "ptr_le p m \<longleftrightarrow> ptr_less p m \<or> p = m"

fun sizes_from :: "block_dqueue \<Rightarrow> int \<Rightarrow> nat \<Rightarrow> nat" where
  "sizes_from q i 0 = 0"
| "sizes_from q i (Suc n) = db_size (bq_block q i) + sizes_from q (i + 1) n"

definition ReadableSize :: "block_dqueue \<Rightarrow> dbp \<Rightarrow> nat" where
  "ReadableSize q p = sizes_from q (block_id p) (nat (bq_end_id q - block_id p)) - pos p"

definition Distance_fwd :: "block_dqueue \<Rightarrow> dbp \<Rightarrow> dbp \<Rightarrow> nat" where
  "Distance_fwd q p m =
     sizes_from q (block_id p) (nat (block_id m - block_id p)) + pos m - pos p"

definition Distance :: "block_dqueue \<Rightarrow> dbp \<Rightarrow> dbp \<Rightarrow> nat" where
  "Distance q p m = (if ptr_less m p then Distance_fwd q m p else Distance_fwd q p m)"

function Advance_loop :: "block_dqueue \<Rightarrow> dbp \<Rightarrow> nat \<Rightarrow> nat \<Rightarrow> nat \<times> dbp" where
  "Advance_loop q p cb delta =
     (if cb > 0 \<or> pos p = db_size (ptr_block q p) then
        if pos p = db_size (ptr_block q p) then
          if block_id p + 1 \<ge> bq_end_id q then (delta, p)
          else Advance_loop q \<lparr>block_id = block_id p + 1, pos = 0\<rparr> cb delta
        else if pos p > db_size (ptr_block q p) then (delta, p)
        else let to_add = min (db_size (ptr_block q p) - pos p) cb
             in Advance_loop q (p\<lparr>pos := pos p + to_add\<rparr>) (cb - to_add) (delta + to_add)
      else (delta, p))"
  by pat_completeness auto
termination
  by (relation "measures [\<lambda>(q, p, cb, delta). nat (bq_end_id q - block_id p), \<lambda>(q, p, cb, delta). cb]")
    (auto simp: Let_def)

declare Advance_loop.simps [simp del]

function Devance_loop :: "block_dqueue \<Rightarrow> dbp \<Rightarrow> nat \<Rightarrow> nat \<Rightarrow> nat \<times> dbp" where
  "Devance_loop q p cb delta =
     (if cb > 0 \<or> pos p = 0 then
        if pos p = 0 then
          if block_id p \<le> bq_begin_id q then (delta, p)
          else Devance_loop q \<lparr>block_id = block_id p - 1,
                               pos = db_size (bq_block q (block_id p - 1))\<rparr> cb delta
        else let to_del = min (pos p) cb
             in Devance_loop q (p\<lparr>pos := pos p - to_del\<rparr>) (cb - to_del) (delta + to_del)
      else (delta, p))"
  by pat_completeness auto
termination
  by (relation "measures [\<lambda>(q, p, cb, delta). nat (block_id p - bq_begin_id q), \<lambda>(q, p, cb, delta). cb]")
    (auto simp: Let_def)

declare Devance_loop.simps [simp del]

definition Advance :: "block_dqueue \<Rightarrow> dbp \<Rightarrow> int \<Rightarrow> nat \<times> dbp" where
  "Advance q p cb = (if cb < 0 then Devance_loop q p (nat (- cb)) 0 else Advance_loop q p (nat cb) 0)"

definition Devance :: "block_dqueue \<Rightarrow> dbp \<Rightarrow> int \<Rightarrow> nat \<times> dbp" where
  "Devance q p cb = (if cb < 0 then Advance_loop q p (nat (- cb)) 0 else Devance_loop q p (nat cb) 0)"

definition memcpy_at :: "bytes \<Rightarrow> nat \<Rightarrow> bytes \<Rightarrow> bytes" where
  "memcpy_at buf i src = take i buf @ src @ drop (i + length src) buf"

definition write_into :: "data_block \<Rightarrow> nat \<Rightarrow> bytes \<Rightarrow> data_block" where
  "write_into b i src = b\<lparr>buffer := memcpy_at (buffer b) i src, db_size := db_size b + length src\<rparr>"

function WriteData_loop ::
    "block_dqueue \<Rightarrow> dbp \<Rightarrow> bytes \<Rightarrow> nat \<Rightarrow> (nat \<times> block_dqueue \<times> dbp) option" where
  "WriteData_loop q p src cb =
     (if src = [] then Some (cb, q, p)
      else if pos p = buffer_size (ptr_block q p) then
        if block_id p + 1 \<ge> bq_end_id q then Some (cb, q, p)
        else if db_size (bq_block q (block_id p + 1)) \<noteq> 0 then None
        else WriteData_loop q \<lparr>block_id = block_id p + 1, pos = 0\<rparr> src cb
      else if pos p > buffer_size (ptr_block q p) \<or> \<not> is_mutable (ptr_block q p) then None
      else let to_write = min (buffer_size (ptr_block q p) - pos p) (length src)
           in WriteData_loop
                (bq_set_block q (block_id p) (write_into (ptr_block q p) (pos p) (take to_write src)))
                (p\<lparr>pos := pos p + to_write\<rparr>) (drop to_write src) (cb + to_write))"
  by pat_completeness auto
termination
  by (relation "measures [\<lambda>(q, p, src, cb). nat (bq_end_id q - block_id p), \<lambda>(q, p, src, cb). length src]")
    (auto simp: Let_def bq_set_block_def bq_end_id_def)

declare WriteData_loop.simps [simp del]

definition WriteData :: "block_dqueue \<Rightarrow> dbp \<Rightarrow> bytes \<Rightarrow> (nat \<times> block_dqueue \<times> dbp) option" where
  "WriteData q p src = WriteData_loop q p src 0"

function next_nonempty :: "block_dqueue \<Rightarrow> int \<Rightarrow> int" where
  "next_nonempty q i =
     (if i < bq_end_id q \<and> db_size (bq_block q i) = 0 then next_nonempty q (i + 1) else i)"
  by pat_completeness auto
termination
  by (relation "measure (\<lambda>(q, i). nat (bq_end_id q - i))") auto

declare next_nonempty.simps [simp del]

definition AdvanceToNextBlock :: "block_dqueue \<Rightarrow> dbp \<Rightarrow> dbp option" where
  "AdvanceToNextBlock q p =
     (let i = next_nonempty q (block_id p + 1)
      in if i \<ge> bq_end_id q then None else Some \<lparr>block_id = i, pos = 0\<rparr>)"

text \<open>
  \<open>ReadBlock\<close> repeats \<open>AdvanceToNextBlock\<close> while the pointer is at the end of its
  block; a step lands at offset 0 of a block that is not empty, so the loop body runs
  at most once. \<open>len = 0\<close> asks for everything up to the end of the block.
\<close>

definition ReadBlock :: "block_dqueue \<Rightarrow> dbp \<Rightarrow> nat \<Rightarrow> bytes option \<times> dbp" where
  "ReadBlock q p len =
     (case (if pos p = db_size (ptr_block q p) then AdvanceToNextBlock q p else Some p) of
        None \<Rightarrow> (None, p)
      | Some p' \<Rightarrow>
          (let b = ptr_block q p';
               n = (if len > 0 then min len (db_size b - pos p') else db_size b - pos p')
           in (Some (take n (drop (pos p') (buffer b))), p'\<lparr>pos := pos p' + n\<rparr>)))"

lemma next_nonempty_ge: "i \<le> next_nonempty q i"
proof (induction q i rule: next_nonempty.induct)
  case (1 q i)
  then show ?case by (subst next_nonempty.simps) auto
qed

lemma AdvanceToNextBlock_progress:
  "AdvanceToNextBlock q p = Some p' \<Longrightarrow> block_id p < block_id p' \<and> block_id p' < bq_end_id q"
  using next_nonempty_ge [of "block_id p + 1" q]
  by (auto simp: AdvanceToNextBlock_def Let_def split: if_splits)

function ReadData_loop :: "block_dqueue \<Rightarrow> dbp \<Rightarrow> nat \<Rightarrow> bytes \<Rightarrow> bytes \<times> dbp" where
  "ReadData_loop q p len acc =
     (if len = 0 then (acc, p)
      else if pos p = db_size (ptr_block q p) then
        (case AdvanceToNextBlock q p of
           None \<Rightarrow> (acc, p)
         | Some p' \<Rightarrow> ReadData_loop q p' len acc)
      else if pos p > db_size (ptr_block q p) then (acc, p)
      else let to_read = min (db_size (ptr_block q p) - pos p) len
           in ReadData_loop q (p\<lparr>pos := pos p + to_read\<rparr>) (len - to_read)
                (acc @ take to_read (drop (pos p) (buffer (ptr_block q p)))))"
  by pat_completeness auto
termination
proof (relation "measures [\<lambda>(q, p, len, acc). nat (bq_end_id q - block_id p),
    \<lambda>(q, p, len, acc). len]", goal_cases)
  case (2 q p len acc p')
  then show ?case using AdvanceToNextBlock_progress [of q p p'] by auto
qed auto

declare ReadData_loop.simps [simp del]

definition ReadData :: "block_dqueue \<Rightarrow> dbp \<Rightarrow> nat \<Rightarrow> bytes \<times> dbp" where
  "ReadData q p len = ReadData_loop q p len []"

definition ReadStringData :: "block_dqueue \<Rightarrow> dbp \<Rightarrow> nat \<Rightarrow> bytes \<times> dbp" where
  "ReadStringData q p len = ReadData q p len"

definition ReadToString :: "block_dqueue \<Rightarrow> dbp \<Rightarrow> (bytes \<times> dbp) option" where
  "ReadToString q p =
     (let len = ReadableSize q p; r = ReadStringData q p len
      in if length (fst r) = len then Some r else None)"

section \<open>Scanning for lines and tokens\<close>

text \<open>
  \<open>ReadToChars\<close> looks for \<open>fin\<close>, preceded by \<open>prev\<close> unless \<open>prev\<close> is NUL, and reads
  up to and including it. The two nested loops of the code (over blocks, over the
  bytes of a block) are one loop here; its result is the length of the line.
\<close>

function ReadToChars_loop ::
    "block_dqueue \<Rightarrow> dbp \<Rightarrow> byte \<Rightarrow> byte \<Rightarrow> nat \<Rightarrow> byte \<Rightarrow> nat option" where
  "ReadToChars_loop q p fin prev len lastc =
     (if pos p = db_size (ptr_block q p) then
        (case AdvanceToNextBlock q p of
           None \<Rightarrow> None
         | Some p' \<Rightarrow> ReadToChars_loop q p' fin prev len lastc)
      else if pos p > db_size (ptr_block q p) then None
      else if buffer (ptr_block q p) ! pos p = fin \<and> (prev = 0 \<or> lastc = prev) then Some (len + 1)
      else ReadToChars_loop q (p\<lparr>pos := pos p + 1\<rparr>) fin prev (len + 1)
             (buffer (ptr_block q p) ! pos p))"
  by pat_completeness auto
termination
proof (relation "measures [\<lambda>(q, p, fin, prev, len, lastc). nat (bq_end_id q - block_id p),
    \<lambda>(q, p, fin, prev, len, lastc). db_size (ptr_block q p) - pos p]", goal_cases)
  case (2 q p fin prev len lastc p')
  then show ?case using AdvanceToNextBlock_progress [of q p p'] by auto
qed auto

declare ReadToChars_loop.simps [simp del]

definition ReadToChars :: "block_dqueue \<Rightarrow> dbp \<Rightarrow> byte \<Rightarrow> byte \<Rightarrow> bytes option \<times> dbp" where
  "ReadToChars q p fin prev =
     (case ReadToChars_loop q p fin prev 0 0 of
        None \<Rightarrow> (None, p)
      | Some len \<Rightarrow> (case ReadStringData q p len of (s, p') \<Rightarrow> (Some s, p')))"

definition ptr_ReadCRLFLine :: "block_dqueue \<Rightarrow> dbp \<Rightarrow> bytes option \<times> dbp" where
  "ptr_ReadCRLFLine q p = ReadToChars q p 10 13"

definition ptr_ReadLFLine :: "block_dqueue \<Rightarrow> dbp \<Rightarrow> bytes option \<times> dbp" where
  "ptr_ReadLFLine q p = ReadToChars q p 10 0"

datatype CharAttr = ATTR_ERROR | ATTR_QUOTE | ATTR_SEP | ATTR_CHAR | ATTR_SPACE

definition kCharLookup :: "byte \<Rightarrow> CharAttr list" where
  "kCharLookup c =
     (let n = unat c in
      if n = 9 \<or> n = 10 \<or> n = 13 \<or> n = 32 then [ATTR_SPACE]
      else if n < 32 \<or> n \<ge> 128 then [ATTR_ERROR]
      else if n = 34 \<or> n = 39 then [ATTR_QUOTE, ATTR_SEP]
      else if n = 43 \<or> n = 45 \<or> n = 46 \<or> n = 47 \<or> n = 63 \<or> n = 64 \<or> n = 95 \<or> n = 127 then [ATTR_CHAR]
      else if 48 \<le> n \<and> n \<le> 57 \<or> 65 \<le> n \<and> n \<le> 90 \<or> 97 \<le> n \<and> n \<le> 122 then [ATTR_CHAR]
      else [ATTR_SEP])"

datatype TokenReadError = TOKEN_OK | TOKEN_QUOTED_OK | TOKEN_SEP_OK | TOKEN_ERROR_CHAR | TOKEN_NO_DATA

text \<open>
  The token scanner. Its state is the pointer, the number of bytes of the token seen
  so far (\<open>len\<close>, 0 before the token starts), the pointer to the token's first byte,
  the quote character (NUL outside quotes), the escape flag and the number of blanks
  skipped.
\<close>

function ReadNextAsciiToken_loop ::
    "block_dqueue \<Rightarrow> dbp \<Rightarrow> dbp \<Rightarrow> nat \<Rightarrow> dbp \<Rightarrow> byte \<Rightarrow> bool \<Rightarrow> nat \<Rightarrow>
     TokenReadError \<times> bytes option \<times> nat \<times> dbp" where
  "ReadNextAsciiToken_loop q saved p len start quote_char last_was_escape skipped =
     (if pos p = db_size (ptr_block q p) then
        (case AdvanceToNextBlock q p of
           None \<Rightarrow> (TOKEN_NO_DATA, None, 0, saved)
         | Some p' \<Rightarrow>
             ReadNextAsciiToken_loop q saved p' len start quote_char last_was_escape skipped)
      else if pos p > db_size (ptr_block q p) then (TOKEN_NO_DATA, None, 0, saved)
      else
        let c = buffer (ptr_block q p) ! pos p; nx = p\<lparr>pos := pos p + 1\<rparr> in
        if quote_char = 0 then
          if ATTR_ERROR \<in> set (kCharLookup c) then (TOKEN_ERROR_CHAR, None, 0, saved)
          else if len > 0 then
            if ATTR_CHAR \<in> set (kCharLookup c) then
              ReadNextAsciiToken_loop q saved nx (len + 1) start quote_char last_was_escape skipped
            else (case ReadStringData q start len of
                    (s, p') \<Rightarrow> (TOKEN_OK, Some s, len + skipped, p'))
          else if ATTR_QUOTE \<in> set (kCharLookup c) then
            ReadNextAsciiToken_loop q saved nx (len + 1) p c last_was_escape skipped
          else if ATTR_SEP \<in> set (kCharLookup c) then
            (TOKEN_SEP_OK, Some [c], 1 + skipped, snd (Advance q p 1))
          else if ATTR_SPACE \<in> set (kCharLookup c) then
            ReadNextAsciiToken_loop q saved nx len start quote_char last_was_escape (skipped + 1)
          else ReadNextAsciiToken_loop q saved nx (len + 1) p quote_char last_was_escape skipped
        else if quote_char = c \<and> \<not> last_was_escape then
          (case ReadStringData q start (len + 1) of
             (s, p') \<Rightarrow> (TOKEN_QUOTED_OK, Some s, len + skipped + 1, p'))
        else ReadNextAsciiToken_loop q saved nx (len + 1) start quote_char
               (\<not> last_was_escape \<and> c = 92) skipped)"
  by pat_completeness auto
termination
proof (relation "measures
    [\<lambda>(q, saved, p, len, start, quote_char, last_was_escape, skipped). nat (bq_end_id q - block_id p),
     \<lambda>(q, saved, p, len, start, quote_char, last_was_escape, skipped). db_size (ptr_block q p) - pos p]",
    goal_cases)
  case (2 q saved p len start quote_char last_was_escape skipped p')
  then show ?case using AdvanceToNextBlock_progress [of q p p'] by auto
qed auto

declare ReadNextAsciiToken_loop.simps [simp del]

definition ptr_ReadNextAsciiToken ::
    "block_dqueue \<Rightarrow> dbp \<Rightarrow> TokenReadError \<times> bytes option \<times> nat \<times> dbp" where
  "ptr_ReadNextAsciiToken q p = ReadNextAsciiToken_loop q p p 0 p 0 False 0"

section \<open>The bytes a pointer sees\<close>

definition bq_ok :: "block_dqueue \<Rightarrow> bool" where
  "bq_ok q \<longleftrightarrow> begin_off q \<le> length (vec q) \<and> (\<forall>b \<in> set (vec q). db_size b \<le> buffer_size b)"

definition data_from :: "block_dqueue \<Rightarrow> int \<Rightarrow> bytes" where
  "data_from q i = concat (map db_data (drop (bq_index q i) (vec q)))"

definition bytes_from :: "block_dqueue \<Rightarrow> dbp \<Rightarrow> bytes" where
  "bytes_from q p = drop (pos p) (data_from q (block_id p))"

definition id_ok :: "block_dqueue \<Rightarrow> int \<Rightarrow> bool" where
  "id_ok q i \<longleftrightarrow> bq_begin_id q \<le> i \<and> i < bq_end_id q"

definition ptr_ok :: "block_dqueue \<Rightarrow> dbp \<Rightarrow> bool" where
  "ptr_ok q p \<longleftrightarrow> id_ok q (block_id p) \<and> pos p \<le> db_size (ptr_block q p)"

lemma id_ok_index: "id_ok q i \<Longrightarrow> bq_index q i < length (vec q)"
  by (auto simp: id_ok_def bq_index_def bq_begin_id_def bq_end_id_def)

lemma bq_index_Suc: "id_ok q i \<Longrightarrow> bq_index q (i + 1) = Suc (bq_index q i)"
  by (auto simp: id_ok_def bq_index_def bq_begin_id_def)

lemma id_ok_Suc: "id_ok q i \<Longrightarrow> i + 1 < bq_end_id q \<Longrightarrow> id_ok q (i + 1)"
  by (auto simp: id_ok_def)

lemma block_size_le: "bq_ok q \<Longrightarrow> id_ok q i \<Longrightarrow> db_size (bq_block q i) \<le> buffer_size (bq_block q i)"
  by (auto simp: bq_ok_def bq_block_def dest!: id_ok_index)

lemma length_db_data: "bq_ok q \<Longrightarrow> id_ok q i \<Longrightarrow> length (db_data (bq_block q i)) = db_size (bq_block q i)"
  by (auto simp: bq_ok_def bq_block_def db_data_def dest!: id_ok_index)

lemma data_from_step: "id_ok q i \<Longrightarrow> data_from q i = db_data (bq_block q i) @ data_from q (i + 1)"
  by (simp add: data_from_def bq_index_Suc bq_block_def drop_eq_Cons_nth [OF id_ok_index])

lemma data_from_end: "bq_end_id q \<le> i \<Longrightarrow> data_from q i = []"
  by (simp add: data_from_def bq_index_def bq_end_id_def)

lemma bytes_from_split:
  "bq_ok q \<Longrightarrow> ptr_ok q p \<Longrightarrow>
   bytes_from q p = drop (pos p) (db_data (ptr_block q p)) @ data_from q (block_id p + 1)"
  by (simp add: bytes_from_def ptr_ok_def data_from_step length_db_data)

lemma bytes_from_block_end:
  "bq_ok q \<Longrightarrow> ptr_ok q p \<Longrightarrow> pos p = db_size (ptr_block q p) \<Longrightarrow>
   bytes_from q p = data_from q (block_id p + 1)"
  by (simp add: bytes_from_split ptr_ok_def length_db_data)

lemma bytes_from_start: "pos p = 0 \<Longrightarrow> bytes_from q p = data_from q (block_id p)"
  by (simp add: bytes_from_def)

lemma bytes_from_advance:
  "bytes_from q (p\<lparr>pos := pos p + n\<rparr>) = drop n (bytes_from q p)"
  by (simp add: bytes_from_def add.commute)

lemma bytes_from_take:
  assumes "bq_ok q" and "ptr_ok q p" and "n \<le> db_size (ptr_block q p) - pos p"
  shows "take n (bytes_from q p) = take n (drop (pos p) (buffer (ptr_block q p)))"
proof -
  have len: "length (drop (pos p) (db_data (ptr_block q p))) = db_size (ptr_block q p) - pos p"
    using assms(1,2) by (simp add: length_db_data ptr_ok_def)
  have "n + pos p \<le> db_size (ptr_block q p)"
    using assms(2,3) by (auto simp: ptr_ok_def)
  then have "take n (drop (pos p) (db_data (ptr_block q p))) = take n (drop (pos p) (buffer (ptr_block q p)))"
    by (simp add: db_data_def take_drop min_absorb1)
  then show ?thesis
    using bytes_from_split [OF assms(1,2)] len assms(3) by simp
qed

lemma bytes_from_nth:
  assumes "bq_ok q" and "ptr_ok q p" and "pos p < db_size (ptr_block q p)"
  shows "bytes_from q p = buffer (ptr_block q p) ! pos p # bytes_from q (p\<lparr>pos := pos p + 1\<rparr>)"
proof -
  have "pos p < buffer_size (ptr_block q p)"
    using assms block_size_le [of q "block_id p"] by (auto simp: ptr_ok_def)
  moreover have "take 1 (bytes_from q p) = take 1 (drop (pos p) (buffer (ptr_block q p)))"
    using assms by (intro bytes_from_take) auto
  ultimately have "take 1 (bytes_from q p) = [buffer (ptr_block q p) ! pos p]"
    by (simp add: drop_eq_Cons_nth)
  then show ?thesis
    using append_take_drop_id [of 1 "bytes_from q p"] bytes_from_advance [of q p 1] by simp
qed

lemma ptr_ok_advance:
  "ptr_ok q p \<Longrightarrow> n \<le> db_size (ptr_block q p) - pos p \<Longrightarrow> ptr_ok q (p\<lparr>pos := pos p + n\<rparr>)"
  by (auto simp: ptr_ok_def)

lemma ptr_ok_next:
  "ptr_ok q p \<Longrightarrow> block_id p + 1 < bq_end_id q \<Longrightarrow> ptr_ok q \<lparr>block_id = block_id p + 1, pos = 0\<rparr>"
  by (auto simp: ptr_ok_def id_ok_def)

subsection \<open>Moving to the next block\<close>

lemma data_from_next_nonempty:
  "bq_ok q \<Longrightarrow> bq_begin_id q \<le> i \<Longrightarrow> data_from q (next_nonempty q i) = data_from q i"
proof (induction q i rule: next_nonempty.induct)
  case (1 q i)
  show ?case
  proof (cases "i < bq_end_id q \<and> db_size (bq_block q i) = 0")
    case True
    then have "id_ok q i" using "1.prems" by (simp add: id_ok_def)
    then have "data_from q i = data_from q (i + 1)"
      using True by (simp add: data_from_step db_data_def)
    with True 1 show ?thesis by (simp add: next_nonempty.simps [of q i])
  next
    case False
    then have "next_nonempty q i = i" by (subst next_nonempty.simps) auto
    then show ?thesis by simp
  qed
qed

lemma next_nonempty_size:
  "next_nonempty q i < bq_end_id q \<Longrightarrow> 0 < db_size (bq_block q (next_nonempty q i))"
proof (induction q i rule: next_nonempty.induct)
  case (1 q i)
  then show ?case
    by (cases "i < bq_end_id q \<and> db_size (bq_block q i) = 0") (auto simp: next_nonempty.simps [of q i])
qed

lemma AdvanceToNextBlock_None:
  assumes "bq_ok q" and "ptr_ok q p" and "pos p = db_size (ptr_block q p)"
    and "AdvanceToNextBlock q p = None"
  shows "bytes_from q p = []"
proof -
  have "data_from q (next_nonempty q (block_id p + 1)) = data_from q (block_id p + 1)"
    using assms(1,2) by (intro data_from_next_nonempty) (auto simp: ptr_ok_def id_ok_def)
  with assms show ?thesis
    by (auto simp: AdvanceToNextBlock_def Let_def bytes_from_block_end data_from_end split: if_splits)
qed

lemma AdvanceToNextBlock_Some:
  assumes "bq_ok q" and "ptr_ok q p" and "pos p = db_size (ptr_block q p)"
    and "AdvanceToNextBlock q p = Some p'"
  shows "ptr_ok q p'" and "bytes_from q p' = bytes_from q p"
    and "pos p' = 0" and "0 < db_size (ptr_block q p')"
proof -
  have "data_from q (next_nonempty q (block_id p + 1)) = data_from q (block_id p + 1)"
    using assms(1,2) by (intro data_from_next_nonempty) (auto simp: ptr_ok_def id_ok_def)
  then show "bytes_from q p' = bytes_from q p"
    using assms
    by (auto simp: AdvanceToNextBlock_def Let_def bytes_from_block_end bytes_from_start split: if_splits)
  show "ptr_ok q p'"
    using assms AdvanceToNextBlock_progress [OF assms(4)]
    by (auto simp: AdvanceToNextBlock_def Let_def ptr_ok_def id_ok_def split: if_splits)
  show "pos p' = 0" "0 < db_size (ptr_block q p')"
    using assms(4) next_nonempty_size
    by (auto simp: AdvanceToNextBlock_def Let_def split: if_splits)
qed

subsection \<open>Reading\<close>

lemma ReadData_loop_correct:
  "bq_ok q \<Longrightarrow> ptr_ok q p \<Longrightarrow> ReadData_loop q p len acc = (r, p') \<Longrightarrow>
   r = acc @ take len (bytes_from q p) \<and> bytes_from q p' = drop len (bytes_from q p) \<and>
   ptr_ok q p' \<and> block_id p \<le> block_id p'"
proof (induction q p len acc arbitrary: r p' rule: ReadData_loop.induct)
  case (1 q p len acc)
  consider (stop) "len = 0" | (block_end) "len \<noteq> 0" "pos p = db_size (ptr_block q p)"
    | (within) "len \<noteq> 0" "pos p \<noteq> db_size (ptr_block q p)" "\<not> pos p > db_size (ptr_block q p)"
    using "1.prems"(2) by (fastforce simp: ptr_ok_def)
  then show ?case
  proof cases
    case stop
    with "1.prems" show ?thesis by (simp add: ReadData_loop.simps [of q p])
  next
    case block_end
    show ?thesis
    proof (cases "AdvanceToNextBlock q p")
      case None
      with block_end "1.prems" AdvanceToNextBlock_None [of q p] show ?thesis
        by (simp add: ReadData_loop.simps [of q p])
    next
      case (Some p2)
      note nx = AdvanceToNextBlock_Some [OF "1.prems"(1,2) block_end(2) Some]
      have eq: "ReadData_loop q p2 len acc = (r, p')"
        using "1.prems" block_end Some by (simp add: ReadData_loop.simps [of q p])
      from "1.IH"(1) [OF block_end Some "1.prems"(1) nx(1) eq] nx AdvanceToNextBlock_progress [OF Some]
      show ?thesis by simp
    qed
  next
    case within
    define n where "n = min (db_size (ptr_block q p) - pos p) len"
    let ?p2 = "p\<lparr>pos := pos p + n\<rparr>"
    have n: "n \<le> db_size (ptr_block q p) - pos p" "n \<le> len" by (simp_all add: n_def)
    have eq: "ReadData_loop q ?p2 (len - n) (acc @ take n (drop (pos p) (buffer (ptr_block q p)))) = (r, p')"
      using "1.prems" within by (simp add: ReadData_loop.simps [of q p len acc] n_def [symmetric] Let_def)
    have ok: "ptr_ok q ?p2" using "1.prems"(2) n(1) by (rule ptr_ok_advance)
    note IH = "1.IH"(2) [OF within n_def "1.prems"(1) ok eq]
    have "take n (bytes_from q p) @ take (len - n) (drop n (bytes_from q p)) = take len (bytes_from q p)"
      using n(2) by (metis take_add le_add_diff_inverse)
    moreover have "drop (len - n) (drop n (bytes_from q p)) = drop len (bytes_from q p)"
      using n(2) by simp
    ultimately show ?thesis
      using IH within bytes_from_take [OF "1.prems"(1,2) n(1)] by (simp add: bytes_from_advance)
  qed
qed

lemma ReadData_correct:
  assumes "bq_ok q" and "ptr_ok q p"
  shows "fst (ReadData q p len) = take len (bytes_from q p)"
    and "bytes_from q (snd (ReadData q p len)) = drop len (bytes_from q p)"
    and "ptr_ok q (snd (ReadData q p len))"
    and "block_id p \<le> block_id (snd (ReadData q p len))"
  using ReadData_loop_correct [OF assms prod.collapse [symmetric], of len "[]"]
  by (simp_all add: ReadData_def)

lemma ReadBlock_correct:
  assumes "bq_ok q" and "ptr_ok q p"
  shows "fst (ReadBlock q p len) = None \<Longrightarrow> bytes_from q p = [] \<and> snd (ReadBlock q p len) = p"
    and "fst (ReadBlock q p len) = Some bs \<Longrightarrow>
         bs \<noteq> [] \<and> bytes_from q p = bs @ bytes_from q (snd (ReadBlock q p len)) \<and>
         ptr_ok q (snd (ReadBlock q p len)) \<and> block_id p \<le> block_id (snd (ReadBlock q p len)) \<and>
         (0 < len \<longrightarrow> length bs \<le> len)"
proof -
  define p1 where
    "p1 = (if pos p = db_size (ptr_block q p) then AdvanceToNextBlock q p else Some p)"
  have p1: "ptr_ok q x \<and> bytes_from q x = bytes_from q p \<and> pos x < db_size (ptr_block q x) \<and>
      block_id p \<le> block_id x" if "p1 = Some x" for x
    using that assms AdvanceToNextBlock_Some [OF assms, of x] AdvanceToNextBlock_progress [of q p x]
    by (auto simp: p1_def ptr_ok_def split: if_splits)
  show "fst (ReadBlock q p len) = None \<Longrightarrow> bytes_from q p = [] \<and> snd (ReadBlock q p len) = p"
    using AdvanceToNextBlock_None [OF assms]
    by (auto simp: ReadBlock_def Let_def split: if_splits option.splits)
  assume *: "fst (ReadBlock q p len) = Some bs"
  then obtain x where x: "p1 = Some x"
    by (auto simp: ReadBlock_def p1_def [symmetric] split: option.splits)
  define n where
    "n = (if len > 0 then min len (db_size (ptr_block q x) - pos x) else db_size (ptr_block q x) - pos x)"
  have n: "0 < n" "n \<le> db_size (ptr_block q x) - pos x" "0 < len \<longrightarrow> n \<le> len"
    using p1 [OF x] by (auto simp: n_def)
  have eq: "ReadBlock q p len = (Some (take n (drop (pos x) (buffer (ptr_block q x)))), x\<lparr>pos := pos x + n\<rparr>)"
    using x by (simp add: ReadBlock_def p1_def [symmetric] n_def Let_def)
  have "bs = take n (bytes_from q x)"
    using * eq bytes_from_take [OF assms(1) _ n(2)] p1 [OF x] by simp
  moreover have "bytes_from q x \<noteq> []"
    using p1 [OF x] bytes_from_nth [OF assms(1), of x] by auto
  ultimately show "bs \<noteq> [] \<and> bytes_from q p = bs @ bytes_from q (snd (ReadBlock q p len)) \<and>
       ptr_ok q (snd (ReadBlock q p len)) \<and> block_id p \<le> block_id (snd (ReadBlock q p len)) \<and>
       (0 < len \<longrightarrow> length bs \<le> len)"
    using p1 [OF x] n eq ptr_ok_advance [of q x n] by (auto simp: bytes_from_advance)
qed

lemma Advance_loop_correct:
  "bq_ok q \<Longrightarrow> ptr_ok q p \<Longrightarrow> Advance_loop q p cb delta = (d, p') \<Longrightarrow>
   d = delta + min cb (length (bytes_from q p)) \<and> bytes_from q p' = drop cb (bytes_from q p) \<and>
   ptr_ok q p' \<and> block_id p \<le> block_id p'"
proof (induction q p cb delta arbitrary: d p' rule: Advance_loop.induct)
  case (1 q p cb delta)
  consider (stop) "\<not> (cb > 0 \<or> pos p = db_size (ptr_block q p))"
    | (block_end) "cb > 0 \<or> pos p = db_size (ptr_block q p)" "pos p = db_size (ptr_block q p)"
    | (within) "cb > 0 \<or> pos p = db_size (ptr_block q p)" "pos p \<noteq> db_size (ptr_block q p)"
        "\<not> pos p > db_size (ptr_block q p)"
    using "1.prems"(2) by (fastforce simp: ptr_ok_def)
  then show ?case
  proof cases
    case stop
    with "1.prems" show ?thesis by (simp add: Advance_loop.simps [of q p])
  next
    case block_end
    note bytes = bytes_from_block_end [OF "1.prems"(1,2) block_end(2)]
    show ?thesis
    proof (cases "bq_end_id q \<le> block_id p + 1")
      case True
      with "1.prems" block_end bytes show ?thesis
        by (simp add: Advance_loop.simps [of q p] data_from_end)
    next
      case False
      let ?p2 = "\<lparr>block_id = block_id p + 1, pos = 0\<rparr>"
      have eq: "Advance_loop q ?p2 cb delta = (d, p')"
        using "1.prems" block_end False by (simp add: Advance_loop.simps [of q p])
      have ok: "ptr_ok q ?p2" using "1.prems"(2) False by (intro ptr_ok_next) auto
      from "1.IH"(1) [OF block_end False "1.prems"(1) ok eq] bytes show ?thesis
        by (simp add: bytes_from_start)
    qed
  next
    case within
    define n where "n = min (db_size (ptr_block q p) - pos p) cb"
    let ?p2 = "p\<lparr>pos := pos p + n\<rparr>"
    have n: "n \<le> db_size (ptr_block q p) - pos p" "n \<le> cb" by (simp_all add: n_def)
    have eq: "Advance_loop q ?p2 (cb - n) (delta + n) = (d, p')"
      using "1.prems" within by (simp add: Advance_loop.simps [of q p cb] n_def [symmetric] Let_def)
    have ok: "ptr_ok q ?p2" using "1.prems"(2) n(1) by (rule ptr_ok_advance)
    note IH = "1.IH"(2) [OF within n_def "1.prems"(1) ok eq]
    have "n \<le> length (bytes_from q p)"
      using bytes_from_split [OF "1.prems"(1,2)] n(1) length_db_data [OF "1.prems"(1)] "1.prems"(2)
      by (simp add: ptr_ok_def)
    with IH n show ?thesis by (auto simp: bytes_from_advance min_def)
  qed
qed

lemma Advance_correct:
  assumes "bq_ok q" and "ptr_ok q p"
  shows "fst (Advance q p (int n)) = min n (length (bytes_from q p))"
    and "bytes_from q (snd (Advance q p (int n))) = drop n (bytes_from q p)"
    and "ptr_ok q (snd (Advance q p (int n)))"
    and "block_id p \<le> block_id (snd (Advance q p (int n)))"
  using Advance_loop_correct [OF assms prod.collapse [symmetric], of n 0]
  by (simp_all add: Advance_def)

subsection \<open>Writing\<close>

lemma bq_set_block_simps [simp]:
  "correction (bq_set_block q i b) = correction q" "begin_off (bq_set_block q i b) = begin_off q"
  "length (vec (bq_set_block q i b)) = length (vec q)"
  "bq_index (bq_set_block q i b) j = bq_index q j"
  "bq_end_id (bq_set_block q i b) = bq_end_id q" "bq_begin_id (bq_set_block q i b) = bq_begin_id q"
  "id_ok (bq_set_block q i b) j = id_ok q j"
  by (simp_all add: bq_set_block_def bq_index_def bq_end_id_def bq_begin_id_def id_ok_def)

lemma bq_block_set_block:
  "id_ok q i \<Longrightarrow> id_ok q j \<Longrightarrow> bq_block (bq_set_block q i b) j = (if j = i then b else bq_block q j)"
  using id_ok_index [of q i]
  by (auto simp: bq_block_def bq_set_block_def bq_index_def id_ok_def bq_begin_id_def nth_list_update)

lemma bq_ok_set_block: "bq_ok q \<Longrightarrow> db_size b \<le> buffer_size b \<Longrightarrow> bq_ok (bq_set_block q i b)"
  by (auto simp: bq_ok_def bq_set_block_def dest: set_update_subset_insert [THEN subsetD])

lemma data_from_set_block:
  assumes "id_ok q j" and "bq_begin_id q \<le> i" and "i \<le> j" and "data_from q (j + 1) = []"
    and "db_data b = db_data (bq_block q j) @ c"
  shows "data_from (bq_set_block q j b) i = data_from q i @ c"
proof -
  define ys where "ys = drop (bq_index q i) (vec q)"
  define k where "k = bq_index q j - bq_index q i"
  have le: "bq_index q i \<le> bq_index q j" using assms(2,3) by (simp add: bq_index_def)
  have k: "k < length ys" using id_ok_index [OF assms(1)] le by (simp add: k_def ys_def)
  have nth: "ys ! k = bq_block q j"
    using id_ok_index [OF assms(1)] le by (simp add: ys_def k_def bq_block_def)
  have tail: "concat (map db_data (drop (Suc k) ys)) = []"
    using assms(4) le bq_index_Suc [OF assms(1)] by (simp add: data_from_def ys_def k_def)
  have "concat (map db_data ys) = concat (map db_data (take k ys @ ys ! k # drop (Suc k) ys))"
    using id_take_nth_drop [OF k] by (rule arg_cong)
  then have "data_from q i = concat (map db_data (take k ys)) @ db_data (bq_block q j)"
    using tail by (simp add: data_from_def ys_def [symmetric] nth)
  moreover have "drop (bq_index q i) ((vec q)[bq_index q j := b]) = ys[k := b]"
    using le by (simp add: drop_update_swap ys_def k_def)
  then have "data_from (bq_set_block q j b) i = concat (map db_data (take k ys)) @ db_data b"
    using k tail by (simp add: data_from_def bq_set_block_def bq_index_def upd_conv_take_nth_drop)
  ultimately show ?thesis using assms(5) by simp
qed

text \<open>
  Where a writer stands: at the end of the valid bytes of its block, all later blocks
  empty, and every block with room left writable.
\<close>

definition write_ok :: "block_dqueue \<Rightarrow> dbp \<Rightarrow> bool" where
  "write_ok q p \<longleftrightarrow> ptr_ok q p \<and> pos p = db_size (ptr_block q p) \<and>
     (pos p < buffer_size (ptr_block q p) \<longrightarrow> is_mutable (ptr_block q p)) \<and>
     (\<forall>i. block_id p < i \<and> i < bq_end_id q \<longrightarrow>
          db_size (bq_block q i) = 0 \<and> (0 < buffer_size (bq_block q i) \<longrightarrow> is_mutable (bq_block q i)))"

lemma data_from_empty:
  assumes "bq_begin_id q \<le> i" and "\<forall>j. i \<le> j \<and> j < bq_end_id q \<longrightarrow> db_size (bq_block q j) = 0"
  shows "data_from q i = []"
  using assms
proof (induction q i rule: next_nonempty.induct)
  case (1 q i)
  show ?case
  proof (cases "i < bq_end_id q")
    case True
    with 1 have "data_from q (i + 1) = []" by auto
    with True 1(2,3) data_from_step [of q i] show ?thesis by (simp add: id_ok_def db_data_def)
  qed (simp add: data_from_end)
qed

lemma write_ok_tail: "write_ok q p \<Longrightarrow> data_from q (block_id p + 1) = []"
  by (intro data_from_empty) (auto simp: write_ok_def ptr_ok_def id_ok_def)

lemma write_into_data:
  assumes "db_size b \<le> buffer_size b" and "length c \<le> buffer_size b - db_size b"
  shows "db_data (write_into b (db_size b) c) = db_data b @ c"
    and "buffer_size (write_into b (db_size b) c) = buffer_size b"
    and "db_size (write_into b (db_size b) c) = db_size b + length c"
    and "is_mutable (write_into b (db_size b) c) = is_mutable b"
  using assms by (auto simp: write_into_def memcpy_at_def db_data_def)

definition wrote :: "block_dqueue \<Rightarrow> dbp \<Rightarrow> bytes \<Rightarrow> block_dqueue \<Rightarrow> dbp \<Rightarrow> bool" where
  "wrote q p c q' p' \<longleftrightarrow> bq_ok q' \<and> write_ok q' p' \<and>
     correction q' = correction q \<and> begin_off q' = begin_off q \<and> length (vec q') = length (vec q) \<and>
     block_id p \<le> block_id p' \<and>
     (\<forall>i. bq_begin_id q \<le> i \<and> i \<le> block_id p \<longrightarrow> data_from q' i = data_from q i @ c) \<and>
     (\<forall>i. id_ok q i \<longrightarrow> db_size (bq_block q i) \<le> db_size (bq_block q' i) \<and>
          buffer_size (bq_block q' i) = buffer_size (bq_block q i))"

lemma wrote_ids:
  assumes "wrote q p c q' p'"
  shows "bq_begin_id q' = bq_begin_id q" and "bq_end_id q' = bq_end_id q" and "id_ok q' i = id_ok q i"
  using assms by (auto simp: wrote_def bq_begin_id_def bq_end_id_def id_ok_def)

lemma wrote_refl: "bq_ok q \<Longrightarrow> write_ok q p \<Longrightarrow> wrote q p [] q p"
  by (simp add: wrote_def)

lemma wrote_trans:
  assumes "wrote q p c1 q1 p1" and "wrote q1 p1 c2 q2 p2"
  shows "wrote q p (c1 @ c2) q2 p2"
  using assms wrote_ids [OF assms(1)] unfolding wrote_def by (fastforce intro: order_trans)

lemma write_ok_next:
  assumes "bq_ok q" and "write_ok q p" and "block_id p + 1 < bq_end_id q"
  shows "wrote q p [] q \<lparr>block_id = block_id p + 1, pos = 0\<rparr>"
  using assms by (auto simp: wrote_def write_ok_def ptr_ok_def id_ok_def)

lemma wrote_into_block:
  assumes "bq_ok q" and "write_ok q p" and "length c \<le> buffer_size (ptr_block q p) - pos p"
  shows "wrote q p c (bq_set_block q (block_id p) (write_into (ptr_block q p) (pos p) c))
           (p\<lparr>pos := pos p + length c\<rparr>)"
proof -
  let ?b = "ptr_block q p"
  let ?q = "bq_set_block q (block_id p) (write_into ?b (pos p) c)"
  have id: "id_ok q (block_id p)" and pos: "pos p = db_size ?b"
    using assms(2) by (auto simp: write_ok_def ptr_ok_def)
  have sz: "db_size ?b \<le> buffer_size ?b" using assms(1) id by (rule block_size_le)
  note w = write_into_data [OF sz, folded pos, OF assms(3)]
  have blk: "bq_block ?q i = (if i = block_id p then write_into ?b (pos p) c else bq_block q i)"
    if "id_ok q i" for i using bq_block_set_block [OF id that] .
  have later: "bq_block ?q i = bq_block q i" if "block_id p < i" "i < bq_end_id q" for i
    using that id blk [of i] by (auto simp: id_ok_def)
  have "bq_ok ?q" using assms w sz pos by (intro bq_ok_set_block) auto
  moreover have "data_from ?q i = data_from q i @ c" if "bq_begin_id q \<le> i" "i \<le> block_id p" for i
    using id that write_ok_tail [OF assms(2)] w(1) by (rule data_from_set_block)
  moreover have "write_ok ?q (p\<lparr>pos := pos p + length c\<rparr>)"
    using assms(2) id blk [OF id] w pos later by (auto simp: write_ok_def ptr_ok_def)
  ultimately show ?thesis
    using blk w pos by (auto simp: wrote_def)
qed

lemma WriteData_loop_correct:
  "bq_ok q \<Longrightarrow> write_ok q p \<Longrightarrow>
   \<exists>n q' p'. WriteData_loop q p src cb = Some (cb + n, q', p') \<and> n \<le> length src \<and>
     wrote q p (take n src) q' p' \<and>
     (n < length src \<longrightarrow> block_id p' + 1 = bq_end_id q' \<and> pos p' = buffer_size (ptr_block q' p'))"
proof (induction q p src cb rule: WriteData_loop.induct)
  case (1 q p src cb)
  note ok = "1.prems"
  have ptr: "ptr_ok q p" "pos p = db_size (ptr_block q p)" using ok(2) by (auto simp: write_ok_def)
  then have sz: "pos p \<le> buffer_size (ptr_block q p)"
    using block_size_le [OF ok(1)] by (simp add: ptr_ok_def)
  consider (nil) "src = []"
    | (full) "src \<noteq> []" "pos p = buffer_size (ptr_block q p)"
    | (room) "src \<noteq> []" "pos p \<noteq> buffer_size (ptr_block q p)"
        "\<not> (pos p > buffer_size (ptr_block q p) \<or> \<not> is_mutable (ptr_block q p))"
    using ok(2) sz by (auto simp: write_ok_def)
  then show ?case
  proof cases
    case nil
    with wrote_refl [OF ok] show ?thesis by (simp add: WriteData_loop.simps [of q p])
  next
    case full
    show ?thesis
    proof (cases "bq_end_id q \<le> block_id p + 1")
      case True
      have "WriteData_loop q p src cb = Some (cb + 0, q, p)"
        using full True by (simp add: WriteData_loop.simps [of q p])
      moreover have "block_id p + 1 = bq_end_id q" using True ptr(1) by (auto simp: ptr_ok_def id_ok_def)
      ultimately show ?thesis using wrote_refl [OF ok] full
        by (intro exI [of _ 0] exI [of _ q] exI [of _ p]) simp
    next
      case False
      let ?p = "\<lparr>block_id = block_id p + 1, pos = 0\<rparr>"
      have empty: "\<not> db_size (bq_block q (block_id p + 1)) \<noteq> 0"
        using ok(2) False by (auto simp: write_ok_def)
      have step: "wrote q p [] q ?p" using ok False by (intro write_ok_next) auto
      then have ok': "write_ok q ?p" by (simp add: wrote_def)
      from "1.IH"(1) [OF full False empty ok(1) ok'] obtain n q' p' where
        IH: "WriteData_loop q ?p src cb = Some (cb + n, q', p')" "n \<le> length src"
          "wrote q ?p (take n src) q' p'"
          "n < length src \<longrightarrow> block_id p' + 1 = bq_end_id q' \<and> pos p' = buffer_size (ptr_block q' p')"
        by blast
      have "WriteData_loop q p src cb = WriteData_loop q ?p src cb"
        using full False empty by (simp add: WriteData_loop.simps [of q p])
      moreover have "wrote q p (take n src) q' p'" using wrote_trans [OF step IH(3)] by simp
      ultimately show ?thesis using IH by metis
    qed
  next
    case room
    define m where "m = min (buffer_size (ptr_block q p) - pos p) (length src)"
    let ?c = "take m src"
    let ?q = "bq_set_block q (block_id p) (write_into (ptr_block q p) (pos p) ?c)"
    let ?p = "p\<lparr>pos := pos p + m\<rparr>"
    have m: "length ?c = m" "m \<le> length src" by (auto simp: m_def)
    have step: "wrote q p ?c ?q ?p"
      using wrote_into_block [OF ok, of ?c] m(1) by (simp add: m_def)
    then have ok': "bq_ok ?q" "write_ok ?q ?p" by (auto simp: wrote_def)
    from "1.IH"(2) [OF room m_def ok'] obtain n q' p' where
      IH: "WriteData_loop ?q ?p (drop m src) (cb + m) = Some (cb + m + n, q', p')"
        "n \<le> length (drop m src)" "wrote ?q ?p (take n (drop m src)) q' p'"
        "n < length (drop m src) \<longrightarrow> block_id p' + 1 = bq_end_id q' \<and> pos p' = buffer_size (ptr_block q' p')"
      by blast
    have "WriteData_loop q p src cb = WriteData_loop ?q ?p (drop m src) (cb + m)"
      using room by (simp add: WriteData_loop.simps [of q p src] m_def [symmetric] Let_def)
    moreover have "wrote q p (take (m + n) src) q' p'"
      using wrote_trans [OF step IH(3)] by (simp add: take_add)
    ultimately show ?thesis
      using IH m(2) by (intro exI [of _ "m + n"] exI [of _ q'] exI [of _ p']) (auto simp: add.assoc)
  qed
qed

lemma WriteData_correct:
  assumes "bq_ok q" and "write_ok q p"
  obtains n q' p' where "WriteData q p src = Some (n, q', p')" and "n \<le> length src"
    and "wrote q p (take n src) q' p'"
    and "n < length src \<Longrightarrow> block_id p' + 1 = bq_end_id q' \<and> pos p' = buffer_size (ptr_block q' p')"
  using WriteData_loop_correct [OF assms, of src 0] by (auto simp: WriteData_def)

subsection \<open>Lines and tokens, as functions of the bytes\<close>

fun line_len :: "byte \<Rightarrow> byte \<Rightarrow> byte \<Rightarrow> bytes \<Rightarrow> nat option" where
  "line_len fin prev lastc [] = None"
| "line_len fin prev lastc (c # cs) =
     (if c = fin \<and> (prev = 0 \<or> lastc = prev) then Some 1
      else map_option Suc (line_len fin prev c cs))"

lemma ReadToChars_loop_line_len:
  "bq_ok q \<Longrightarrow> ptr_ok q p \<Longrightarrow>
   ReadToChars_loop q p fin prev len lastc =
     map_option (\<lambda>n. len + n) (line_len fin prev lastc (bytes_from q p))"
proof (induction q p fin prev len lastc rule: ReadToChars_loop.induct)
  case (1 q p fin prev len lastc)
  note ok = "1.prems"
  consider (block_end) "pos p = db_size (ptr_block q p)"
    | (within) "pos p \<noteq> db_size (ptr_block q p)" "\<not> pos p > db_size (ptr_block q p)"
    using ok(2) by (fastforce simp: ptr_ok_def)
  then show ?case
  proof cases
    case block_end
    show ?thesis
    proof (cases "AdvanceToNextBlock q p")
      case None
      with block_end ok AdvanceToNextBlock_None [of q p] show ?thesis
        by (simp add: ReadToChars_loop.simps [of q p])
    next
      case (Some p')
      note nx = AdvanceToNextBlock_Some [OF ok block_end Some]
      with "1.IH"(1) [OF block_end Some ok(1) nx(1)] block_end Some show ?thesis
        by (simp add: ReadToChars_loop.simps [of q p])
    qed
  next
    case within
    let ?c = "buffer (ptr_block q p) ! pos p" and ?p = "p\<lparr>pos := pos p + 1\<rparr>"
    have bytes: "bytes_from q p = ?c # bytes_from q ?p"
      using ok within by (intro bytes_from_nth) auto
    have ok': "ptr_ok q ?p" using ok(2) within by (intro ptr_ok_advance) auto
    show ?thesis
    proof (cases "?c = fin \<and> (prev = 0 \<or> lastc = prev)")
      case True
      with within bytes show ?thesis by (simp add: ReadToChars_loop.simps [of q p])
    next
      case False
      have "ReadToChars_loop q p fin prev len lastc = ReadToChars_loop q ?p fin prev (len + 1) ?c"
        using within False by (subst ReadToChars_loop.simps) auto
      also have "\<dots> = map_option (\<lambda>n. len + 1 + n) (line_len fin prev ?c (bytes_from q ?p))"
        by (rule "1.IH"(2) [OF within False ok(1) ok'])
      also have "\<dots> = map_option (\<lambda>n. len + n) (line_len fin prev lastc (bytes_from q p))"
        using False by (auto simp: bytes option.map_comp comp_def)
      finally show ?thesis .
    qed
  qed
qed

lemma line_len_le: "line_len fin prev lastc bs = Some n \<Longrightarrow> 0 < n \<and> n \<le> length bs"
  by (induction fin prev lastc bs arbitrary: n rule: line_len.induct) (fastforce split: if_splits)+

text \<open>The line ends with the terminator and contains no earlier one.\<close>

lemma line_len_ends: "line_len fin prev lastc bs = Some n \<Longrightarrow> bs ! (n - 1) = fin"
proof (induction fin prev lastc bs arbitrary: n rule: line_len.induct)
  case (2 fin prev lastc c cs)
  show ?case
  proof (cases "c = fin \<and> (prev = 0 \<or> lastc = prev)")
    case False
    with "2.prems" obtain m where m: "line_len fin prev c cs = Some m" "n = Suc m" by auto
    with "2.IH" [OF False m(1)] line_len_le [OF m(1)] show ?thesis by simp
  qed (use "2.prems" in auto)
qed simp

lemma ReadToChars_correct:
  assumes "bq_ok q" and "ptr_ok q p"
  shows "ReadToChars q p fin prev =
    (case line_len fin prev 0 (bytes_from q p) of
       None \<Rightarrow> (None, p)
     | Some n \<Rightarrow> (Some (take n (bytes_from q p)), snd (ReadData q p n)))"
  using ReadToChars_loop_line_len [OF assms, of fin prev 0 0] ReadData_correct(1) [OF assms]
  by (simp add: ReadToChars_def ReadStringData_def split_beta split: option.split)

fun scan_token :: "bytes \<Rightarrow> byte \<Rightarrow> bool \<Rightarrow> nat \<Rightarrow> bytes \<Rightarrow> TokenReadError \<times> bytes option \<times> nat" where
  "scan_token tok quote esc skipped [] = (TOKEN_NO_DATA, None, 0)"
| "scan_token tok quote esc skipped (c # cs) =
     (if quote = 0 then
        if ATTR_ERROR \<in> set (kCharLookup c) then (TOKEN_ERROR_CHAR, None, 0)
        else if tok \<noteq> [] then
          if ATTR_CHAR \<in> set (kCharLookup c) then scan_token (tok @ [c]) quote esc skipped cs
          else (TOKEN_OK, Some tok, length tok + skipped)
        else if ATTR_QUOTE \<in> set (kCharLookup c) then scan_token [c] c esc skipped cs
        else if ATTR_SEP \<in> set (kCharLookup c) then (TOKEN_SEP_OK, Some [c], 1 + skipped)
        else if ATTR_SPACE \<in> set (kCharLookup c) then scan_token [] quote esc (skipped + 1) cs
        else scan_token [c] quote esc skipped cs
      else if quote = c \<and> \<not> esc then (TOKEN_QUOTED_OK, Some (tok @ [c]), length tok + skipped + 1)
      else scan_token (tok @ [c]) quote (\<not> esc \<and> c = 92) skipped cs)"

text \<open>
  The scanner over blocks computes \<open>scan_token\<close> of the bytes it sees and leaves the
  pointer after the bytes it says it covered. In the invariant, \<open>tok\<close> are the bytes of
  the token so far and \<open>pre\<close> the blanks before it.
\<close>

lemma ReadNextAsciiToken_loop_correct:
  "bq_ok q \<Longrightarrow> ptr_ok q saved \<Longrightarrow> ptr_ok q p \<Longrightarrow> bytes_from q saved = pre @ tok @ bytes_from q p \<Longrightarrow>
    length pre = skipped \<Longrightarrow> length tok = len \<Longrightarrow> (quote \<noteq> 0 \<longrightarrow> tok \<noteq> []) \<Longrightarrow>
    (tok \<noteq> [] \<longrightarrow> ptr_ok q start \<and> bytes_from q start = tok @ bytes_from q p \<and> block_id saved \<le> block_id start) \<Longrightarrow>
    ReadNextAsciiToken_loop q saved p len start quote esc skipped = (k, s, n, p') \<Longrightarrow>
    block_id saved \<le> block_id p \<Longrightarrow>
    (k, s, n) = scan_token tok quote esc skipped (bytes_from q p) \<and>
    ptr_ok q p' \<and> bytes_from q p' = drop n (bytes_from q saved) \<and> block_id saved \<le> block_id p'"
proof (induction q saved p len start quote esc skipped arbitrary: pre tok k s n p'
    rule: ReadNextAsciiToken_loop.induct)
  case (1 q saved p len start quote esc skipped)
  note unf = ReadNextAsciiToken_loop.simps [of q saved p len start quote esc skipped]
  note ok = "1.prems"(1,3) and eq = "1.prems"(9) and svd = "1.prems"(4) and st = "1.prems"(8) and ge = "1.prems"(10)
  have tk: "len = length tok" and sk: "skipped = length pre" using "1.prems"(5,6) by auto
  consider (block_end) "pos p = db_size (ptr_block q p)"
    | (within) "pos p \<noteq> db_size (ptr_block q p)" "\<not> pos p > db_size (ptr_block q p)"
    using ok(2) by (fastforce simp: ptr_ok_def)
  then show ?case
  proof cases
    case block_end
    show ?thesis
    proof (cases "AdvanceToNextBlock q p")
      case None
      then have "(k, s, n, p') = (TOKEN_NO_DATA, None, 0, saved)" using eq unf block_end by simp
      with AdvanceToNextBlock_None [OF ok block_end None] "1.prems"(2) show ?thesis by simp
    next
      case (Some p2)
      note nx = AdvanceToNextBlock_Some [OF ok block_end Some]
      have "ReadNextAsciiToken_loop q saved p2 len start quote esc skipped = (k, s, n, p')"
        using eq unf block_end Some by simp
      from "1.IH"(1) [OF block_end Some "1.prems"(1,2) nx(1) _ "1.prems"(5,6,7) _ this] svd st nx(2) ge
          AdvanceToNextBlock_progress [OF Some]
      show ?thesis by simp
    qed
  next
    case within
    define c where "c = buffer (ptr_block q p) ! pos p"
    define nx where "nx = p\<lparr>pos := pos p + 1\<rparr>"
    have bytes: "bytes_from q p = c # bytes_from q nx"
      using ok within unfolding c_def nx_def by (intro bytes_from_nth) auto
    have oknx: "ptr_ok q nx"
      unfolding nx_def using ok(2) within by (intro ptr_ok_advance) auto
    have genx: "block_id saved \<le> block_id nx" using ge by (simp add: nx_def)
    note unf' = unf [folded c_def nx_def, unfolded Let_def]
    have read: "ptr_ok q (snd (ReadData q start m)) \<and> fst (ReadData q start m) = take m (tok @ c # bytes_from q nx) \<and>
        bytes_from q (snd (ReadData q start m)) = drop (length pre + m) (bytes_from q saved) \<and>
        block_id saved \<le> block_id (snd (ReadData q start m))"
      if "tok \<noteq> []" for m
      using ReadData_correct [OF ok(1), of start m] that st svd by (auto simp: bytes)
    show ?thesis
    proof (cases "quote = 0")
      case noquote: True
      show ?thesis
      proof (cases "ATTR_ERROR \<in> set (kCharLookup c)")
        case True
        then have "(k, s, n, p') = (TOKEN_ERROR_CHAR, None, 0, saved)" using eq unf' within noquote by simp
        with True noquote "1.prems"(2) show ?thesis by (simp add: bytes)
      next
        case noerr: False
        show ?thesis
        proof (cases "len > 0")
          case len: True
          then have tok: "tok \<noteq> []" using tk by auto
          show ?thesis
          proof (cases "ATTR_CHAR \<in> set (kCharLookup c)")
            case True
            have "ReadNextAsciiToken_loop q saved nx (len + 1) start quote esc skipped = (k, s, n, p')"
              using eq unf' within noquote noerr len True by simp
            from "1.IH"(2) [OF within c_def nx_def noquote noerr len True "1.prems"(1,2) oknx _ "1.prems"(5) _ _ _ this genx,
              of "tok @ [c]"] svd st tk tok bytes
            show ?thesis using noquote noerr True by simp
          next
            case False
            have "(k, s, n, p') = (TOKEN_OK, Some (fst (ReadData q start len)), len + skipped, snd (ReadData q start len))"
              using eq unf' within noquote noerr len False by (simp add: ReadStringData_def split_beta)
            with read [OF tok, of len] noquote noerr False tok show ?thesis
              by (simp add: bytes tk sk add.commute)
          qed
        next
          case nolen: False
          then have tok: "tok = []" using tk by auto
          have svd': "bytes_from q saved = pre @ c # bytes_from q nx" using svd tok bytes by simp
          consider (quote) "ATTR_QUOTE \<in> set (kCharLookup c)"
            | (sep) "ATTR_QUOTE \<notin> set (kCharLookup c)" "ATTR_SEP \<in> set (kCharLookup c)"
            | (space) "ATTR_QUOTE \<notin> set (kCharLookup c)" "ATTR_SEP \<notin> set (kCharLookup c)"
                "ATTR_SPACE \<in> set (kCharLookup c)"
            | (char) "ATTR_QUOTE \<notin> set (kCharLookup c)" "ATTR_SEP \<notin> set (kCharLookup c)"
                "ATTR_SPACE \<notin> set (kCharLookup c)"
            by blast
          then show ?thesis
          proof cases
            case quote
            have "ReadNextAsciiToken_loop q saved nx (len + 1) p c esc skipped = (k, s, n, p')"
              using eq unf' within noquote noerr nolen quote by simp
            from "1.IH"(3) [OF within c_def nx_def noquote noerr nolen quote "1.prems"(1,2) oknx _ "1.prems"(5) _ _ _ this genx,
              of "[c]"] svd' ge ok tk tok bytes
            show ?thesis using noquote noerr quote by simp
          next
            case sep
            have "(k, s, n, p') = (TOKEN_SEP_OK, Some [c], 1 + skipped, snd (Advance q p 1))"
              using eq unf' within noquote noerr nolen sep by simp
            with Advance_correct [OF ok, of 1] noquote noerr sep tok svd' bytes ge show ?thesis
              by (simp add: sk)
          next
            case space
            have "ReadNextAsciiToken_loop q saved nx len start quote esc (skipped + 1) = (k, s, n, p')"
              using eq unf' within noquote noerr nolen space by simp
            from "1.IH"(4) [OF within c_def nx_def noquote noerr nolen space "1.prems"(1,2) oknx _ _ _ _ _ this genx,
              of "pre @ [c]" "[]"] svd' tk sk tok
            show ?thesis using noquote noerr space by (simp add: bytes)
          next
            case char
            have "ReadNextAsciiToken_loop q saved nx (len + 1) p quote esc skipped = (k, s, n, p')"
              using eq unf' within noquote noerr nolen char by simp
            from "1.IH"(5) [OF within c_def nx_def noquote noerr nolen char "1.prems"(1,2) oknx _ "1.prems"(5) _ _ _ this genx,
              of "[c]"] svd' ge ok tk tok bytes
            show ?thesis using noquote noerr char by simp
          qed
        qed
      qed
    next
      case inquote: False
      then have tok: "tok \<noteq> []" using "1.prems"(7) by simp
      show ?thesis
      proof (cases "quote = c \<and> \<not> esc")
        case True
        have "(k, s, n, p') = (TOKEN_QUOTED_OK, Some (fst (ReadData q start (len + 1))), len + skipped + 1,
            snd (ReadData q start (len + 1)))"
          using eq unf' within inquote True by (simp add: ReadStringData_def split_beta)
        with read [OF tok, of "len + 1"] inquote True show ?thesis
          by (simp add: bytes tk sk add.commute)
      next
        case False
        have "ReadNextAsciiToken_loop q saved nx (len + 1) start quote (\<not> esc \<and> c = 92) skipped = (k, s, n, p')"
          using eq unf' within inquote False by auto
        from "1.IH"(6) [OF within c_def nx_def inquote False "1.prems"(1,2) oknx _ "1.prems"(5) _ _ _ this genx,
          of "tok @ [c]"] svd st tk tok bytes
        show ?thesis using inquote False by auto
      qed
    qed
  qed
qed

lemma ptr_ReadNextAsciiToken_correct:
  assumes "bq_ok q" and "ptr_ok q p" and "ptr_ReadNextAsciiToken q p = (k, s, n, p')"
  shows "(k, s, n) = scan_token [] 0 False 0 (bytes_from q p)"
    and "ptr_ok q p'" and "bytes_from q p' = drop n (bytes_from q p)" and "block_id p \<le> block_id p'"
  using ReadNextAsciiToken_loop_correct [OF assms(1,2,2), of "[]" "[]" 0 0 0 p False k s n p'] assms(3)
  by (auto simp: ptr_ReadNextAsciiToken_def)

subsection \<open>Sizes and distances\<close>

lemma length_data_from_split:
  "bq_ok q \<Longrightarrow> bq_begin_id q \<le> i \<Longrightarrow> i + int n \<le> bq_end_id q \<Longrightarrow>
   length (data_from q i) = sizes_from q i n + length (data_from q (i + int n))"
proof (induction n arbitrary: i)
  case (Suc n)
  have id: "id_ok q i" using Suc.prems by (simp add: id_ok_def)
  have "length (data_from q (i + 1)) = sizes_from q (i + 1) n + length (data_from q (i + 1 + int n))"
    using Suc.prems by (intro Suc.IH) auto
  with data_from_step [OF id] length_db_data [OF Suc.prems(1) id] show ?case
    by (simp add: algebra_simps)
qed simp

lemma ReadableSize_bytes:
  assumes "bq_ok q" and "ptr_ok q p"
  shows "ReadableSize q p = length (bytes_from q p)"
proof -
  have "block_id p + int (nat (bq_end_id q - block_id p)) = bq_end_id q"
    using assms(2) by (simp add: ptr_ok_def id_ok_def)
  then show ?thesis
    using length_data_from_split [OF assms(1), of "block_id p" "nat (bq_end_id q - block_id p)"] assms(2)
    by (simp add: ReadableSize_def bytes_from_def data_from_end ptr_ok_def id_ok_def)
qed

lemma Distance_fwd_bytes:
  assumes "bq_ok q" and "ptr_ok q p" and "ptr_ok q m" and "\<not> ptr_less m p"
  shows "Distance_fwd q p m + length (bytes_from q m) = length (bytes_from q p)"
proof -
  have le: "block_id p \<le> block_id m" using assms(4) by (auto simp: ptr_less_def split: if_splits)
  then have len: "length (data_from q (block_id p)) =
      sizes_from q (block_id p) (nat (block_id m - block_id p)) + length (data_from q (block_id m))"
    using length_data_from_split [OF assms(1), of "block_id p" "nat (block_id m - block_id p)"] assms(2,3)
    by (simp add: ptr_ok_def id_ok_def)
  have pm: "pos m \<le> length (data_from q (block_id m))"
    using assms(1,3) data_from_step [of q "block_id m"] length_db_data [of q "block_id m"]
    by (simp add: ptr_ok_def)
  have "pos p \<le> sizes_from q (block_id p) (nat (block_id m - block_id p)) + pos m"
  proof (cases "block_id p = block_id m")
    case True
    with assms(4) show ?thesis by (auto simp: ptr_less_def)
  next
    case False
    then obtain k where "nat (block_id m - block_id p) = Suc k" using le by (cases "nat (block_id m - block_id p)") auto
    then show ?thesis using assms(2) by (simp add: ptr_ok_def)
  qed
  with len pm show ?thesis by (simp add: Distance_fwd_def bytes_from_def)
qed

subsection \<open>Growing and shrinking the queue\<close>

lemma bq_push_back_simps [simp]:
  "correction (bq_push_back q b) = correction q" "begin_off (bq_push_back q b) = begin_off q"
  "vec (bq_push_back q b) = vec q @ [b]" "bq_index (bq_push_back q b) i = bq_index q i"
  "bq_begin_id (bq_push_back q b) = bq_begin_id q" "bq_end_id (bq_push_back q b) = bq_end_id q + 1"
  by (simp_all add: bq_push_back_def bq_index_def bq_begin_id_def bq_end_id_def)

lemma bq_ok_push_back: "bq_ok q \<Longrightarrow> db_size b \<le> buffer_size b \<Longrightarrow> bq_ok (bq_push_back q b)"
  by (auto simp: bq_ok_def)

lemma bq_block_push_back:
  "id_ok q i \<Longrightarrow> bq_block (bq_push_back q b) i = bq_block q i"
  "bq_block (bq_push_back q b) (bq_end_id q) = b"
  by (auto simp: bq_block_def nth_append bq_index_def bq_end_id_def dest!: id_ok_index)

lemma data_from_push_back:
  "i \<le> bq_end_id q \<Longrightarrow> data_from (bq_push_back q b) i = data_from q i @ db_data b"
  by (auto simp: data_from_def bq_index_def bq_end_id_def)

lemma nth_correct_loop:
  "0 < off \<Longrightarrow> i + n + off \<le> length v \<Longrightarrow> j < length v \<Longrightarrow>
   correct_loop n off i v ! j = (if i \<le> j \<and> j < i + n then v ! (j + off) else v ! j)"
proof (induction n arbitrary: i v)
  case (Suc n)
  then have "correct_loop n off (Suc i) (v[i := v ! (i + off)]) ! j =
      (if Suc i \<le> j \<and> j < Suc i + n then v[i := v ! (i + off)] ! (j + off) else v[i := v ! (i + off)] ! j)"
    by (intro Suc.IH) auto
  with Suc.prems show ?case by (auto simp: nth_list_update)
qed auto

lemma length_correct_loop [simp]: "length (correct_loop n off i v) = length v"
  by (induction n arbitrary: i v) auto

lemma take_correct_loop:
  assumes "0 < off" and "n + off = length v"
  shows "take n (correct_loop n off 0 v) = drop off v"
proof (rule nth_equalityI)
  fix j assume "j < length (take n (correct_loop n off 0 v))"
  with assms nth_correct_loop [of off 0 n v j] show "take n (correct_loop n off 0 v) ! j = drop off v ! j"
    by (simp add: add.commute)
qed (use assms in simp)

text \<open>Compacting the vector keeps every block number, the blocks behind them and the bytes.\<close>

lemma bq_correct_buffer_keeps:
  assumes "bq_ok q"
  shows "bq_begin_id (bq_correct_buffer q) = bq_begin_id q" and "bq_end_id (bq_correct_buffer q) = bq_end_id q"
    and "bq_ok (bq_correct_buffer q)"
    and "bq_begin_id q \<le> i \<Longrightarrow> bq_block (bq_correct_buffer q) i = bq_block q i"
    and "bq_begin_id q \<le> i \<Longrightarrow> data_from (bq_correct_buffer q) i = data_from q i"
proof -
  have le: "begin_off q \<le> length (vec q)" using assms by (simp add: bq_ok_def)
  have v: "take (bq_size q) (correct_loop (bq_size q) (begin_off q) 0 (vec q)) = drop (begin_off q) (vec q)"
    if "begin_off q > 0" using that le by (intro take_correct_loop) (auto simp: bq_size_def)
  note d = bq_correct_buffer_def Let_def
  show "bq_begin_id (bq_correct_buffer q) = bq_begin_id q" "bq_end_id (bq_correct_buffer q) = bq_end_id q"
    using le v by (auto simp: d bq_begin_id_def bq_end_id_def)
  show "bq_ok (bq_correct_buffer q)"
    using assms v by (auto simp: d bq_ok_def dest: in_set_dropD)
  assume i: "bq_begin_id q \<le> i"
  then have idx: "nat (i - int (correction q)) = begin_off q + nat (i - (int (correction q) + int (begin_off q)))"
    by (auto simp: bq_begin_id_def)
  show "bq_block (bq_correct_buffer q) i = bq_block q i"
    using le v idx by (auto simp: d bq_block_def bq_index_def)
  show "data_from (bq_correct_buffer q) i = data_from q i"
    using le v idx by (auto simp: d data_from_def bq_index_def add.commute)
qed

lemma bq_pop_front_simps [simp]:
  "bq_begin_id (bq_pop_front q) = bq_begin_id q + 1" "bq_end_id (bq_pop_front q) = bq_end_id q"
  "bq_block (bq_pop_front q) i = bq_block q i" "data_from (bq_pop_front q) i = data_from q i"
  by (simp_all add: bq_pop_front_def bq_begin_id_def bq_end_id_def bq_block_def bq_index_def data_from_def)

lemma bq_ok_pop_front: "bq_ok q \<Longrightarrow> bq_begin_id q < bq_end_id q \<Longrightarrow> bq_ok (bq_pop_front q)"
  by (auto simp: bq_ok_def bq_pop_front_def bq_begin_id_def bq_end_id_def)

end
