(* ===== verification/MemoryStream.thy ===== *)
theory MemoryStream
  imports DataBlock
begin

text \<open>
  Model of \<open>io/buffer/memory_stream.h\<close> and \<open>io/buffer/memory_stream.cc\<close>: a byte
  queue kept as a list of memory blocks with a read pointer, a write pointer, a
  scratch pointer and a stack of markers. Every operation of the class that changes
  its state is a function on the record \<open>memory_stream\<close>; the result is an option
  where a \<open>CHECK\<close> can fail. The refinement lemmas say what each operation does to
  the abstraction \<open>ms_content\<close>, the bytes from the read pointer to the end, under the
  invariant \<open>ms_ok\<close>, which every operation keeps; the interpretation \<open>ms\<close> of the
  locale \<open>byte_stream\<close> makes the stream usable by the number codecs.

  \<open>AppendStream\<close> passes a completely filled block of one stream to another one by
  reference. Such a block is never written again (writers only fill unused space), so
  sharing it and copying it are the same thing, and the model copies it. The two
  streams of an append are different objects.
\<close>

section \<open>State and operations\<close>

record memory_stream =
  block_size :: nat
  blocks :: block_dqueue
  read_pointer :: dbp
  write_pointer :: dbp
  scratch_pointer :: dbp
  markers :: "(nat \<times> dbp) list"
  invalid_markers_size :: bool
  ms_size :: nat

definition ms_new :: "nat \<Rightarrow> memory_stream option" where
  "ms_new bsz =
     (if bsz > 0 then
        Some \<lparr>block_size = bsz, blocks = bq_new, read_pointer = dbp_null, write_pointer = dbp_null,
              scratch_pointer = dbp_null, markers = [], invalid_markers_size = False, ms_size = 0\<rparr>
      else None)"

abbreviation MarkerIsSet :: "memory_stream \<Rightarrow> bool" where
  "MarkerIsSet s \<equiv> markers s \<noteq> []"

definition IsEmpty :: "memory_stream \<Rightarrow> bool" where
  "IsEmpty s \<longleftrightarrow> ms_size s = 0"

definition ms_Clear :: "memory_stream \<Rightarrow> memory_stream option" where
  "ms_Clear s =
     (if MarkerIsSet s then None
      else Some (s\<lparr>read_pointer := dbp_null, write_pointer := dbp_null,
                   blocks := bq_clear (blocks s), ms_size := 0\<rparr>))"

definition ms_AppendBlock :: "memory_stream \<Rightarrow> data_block \<Rightarrow> memory_stream" where
  "ms_AppendBlock s b =
     (let q = bq_push_back (blocks s) b
      in s\<lparr>blocks := q, invalid_markers_size := True,
           write_pointer := \<lparr>block_id = bq_end_id q - 1, pos = db_size b\<rparr>,
           ms_size := ms_size s + db_size b\<rparr>)"

definition ms_AppendRaw :: "memory_stream \<Rightarrow> bytes \<Rightarrow> memory_stream option" where
  "ms_AppendRaw s bs = (if bs = [] then None else Some (ms_AppendBlock s (raw_DataBlock bs)))"

definition GetReadPointer :: "memory_stream \<Rightarrow> dbp" where
  "GetReadPointer s =
     (if IsNull (read_pointer s) \<and> \<not> IsNull (write_pointer s)
      then \<lparr>block_id = bq_begin_id (blocks s), pos = pos (read_pointer s)\<rparr>
      else read_pointer s)"

definition MaybeInitReadPointer :: "memory_stream \<Rightarrow> bool \<times> memory_stream" where
  "MaybeInitReadPointer s =
     (if IsNull (read_pointer s) then
        if IsNull (write_pointer s) then (False, s)
        else (True, s\<lparr>read_pointer := (read_pointer s)\<lparr>block_id := bq_begin_id (blocks s)\<rparr>\<rparr>)
      else (True, s))"

function dispose_loop :: "(nat \<times> dbp) list \<Rightarrow> dbp \<Rightarrow> block_dqueue \<Rightarrow> block_dqueue" where
  "dispose_loop mk rp q =
     (if bq_begin_id q < block_id rp \<and> bq_begin_id q < bq_end_id q \<and>
         (mk = [] \<or> bq_begin_id q < block_id (snd (hd mk)))
      then dispose_loop mk rp (bq_pop_front q) else q)"
  by pat_completeness auto
termination
  by (relation "measure (\<lambda>(mk, rp, q). nat (bq_end_id q - bq_begin_id q))") auto

declare dispose_loop.simps [simp del]

definition MaybeDisposeBlocks :: "memory_stream \<Rightarrow> memory_stream" where
  "MaybeDisposeBlocks s =
     s\<lparr>blocks := bq_correct_buffer (dispose_loop (markers s) (read_pointer s) (blocks s))\<rparr>"

definition ms_ReadNext :: "memory_stream \<Rightarrow> (bytes option \<times> memory_stream) option" where
  "ms_ReadNext s =
     (if \<not> IsNull (scratch_pointer s) then None
      else case MaybeInitReadPointer s of
        (False, s1) \<Rightarrow> Some (None, s1)
      | (True, s1) \<Rightarrow>
          let s2 = MaybeDisposeBlocks s1 in
          (case ReadBlock (blocks s2) (read_pointer s2) 0 of
             (None, p) \<Rightarrow> Some (None, s2\<lparr>read_pointer := p\<rparr>)
           | (Some bs, p) \<Rightarrow>
               Some (Some bs, s2\<lparr>read_pointer := p, ms_size := ms_size s2 - length bs\<rparr>)))"

function writev_loop ::
    "block_dqueue \<Rightarrow> dbp \<Rightarrow> nat \<Rightarrow> nat \<Rightarrow> bytes list \<Rightarrow> dbp \<times> nat \<times> bytes list" where
  "writev_loop q p sz max_size v =
     (if max_size > 0 then
        (case ReadBlock q p 0 of
           (None, p') \<Rightarrow> (p', sz, v)
         | (Some bs, p') \<Rightarrow>
             if bs = [] then (p', sz, v)
             else writev_loop q p' (sz - length bs)
                    (if length bs > max_size then 0 else max_size - length bs) (v @ [bs]))
      else (p, sz, v))"
  by pat_completeness auto
termination
  by (relation "measure (\<lambda>(q, p, sz, max_size, v). max_size)") auto

declare writev_loop.simps [simp del]

definition ms_ReadForWritev ::
    "memory_stream \<Rightarrow> nat \<Rightarrow> (bytes list \<times> nat \<times> memory_stream) option" where
  "ms_ReadForWritev s max_size =
     (if \<not> IsNull (scratch_pointer s) then None
      else case MaybeInitReadPointer s of
        (False, s1) \<Rightarrow> Some ([], 0, s1)
      | (True, s1) \<Rightarrow>
          let s2 = MaybeDisposeBlocks s1 in
          (case writev_loop (blocks s2) (read_pointer s2) (ms_size s2) max_size [] of
             (p, sz, v) \<Rightarrow>
               Some (v, sum_list (map length v), s2\<lparr>read_pointer := p, ms_size := sz\<rparr>)))"

definition ms_GetScratchSpace :: "memory_stream \<Rightarrow> (nat \<times> memory_stream) option" where
  "ms_GetScratchSpace s =
     (if \<not> IsNull (scratch_pointer s) then None
      else
        let s1 = (if IsNull (write_pointer s) \<or> AvailableForWrite (blocks s) (write_pointer s) = 0
                  then let q = bq_push_back (blocks s) (new_DataBlock (block_size s))
                       in s\<lparr>blocks := q, write_pointer := \<lparr>block_id = bq_end_id q - 1, pos = 0\<rparr>\<rparr>
                  else s)
        in (case AdvanceToCurrentBlockEnd (blocks s1) (write_pointer s1) of
              (n, q, p) \<Rightarrow>
                Some (n, s1\<lparr>invalid_markers_size := True, scratch_pointer := write_pointer s1,
                            blocks := q, write_pointer := p\<rparr>)))"

text \<open>What the caller of \<open>GetScratchSpace\<close> does with the returned buffer: it stores bytes there.\<close>

definition ms_fill_scratch :: "memory_stream \<Rightarrow> bytes \<Rightarrow> memory_stream" where
  "ms_fill_scratch s bs =
     (let p = scratch_pointer s; b = ptr_block (blocks s) p
      in s\<lparr>blocks := bq_set_block (blocks s) (block_id p)
                      (b\<lparr>buffer := memcpy_at (buffer b) (pos p) bs\<rparr>)\<rparr>)"

definition ms_ConfirmScratch :: "memory_stream \<Rightarrow> nat \<Rightarrow> memory_stream option" where
  "ms_ConfirmScratch s n =
     (if IsNull (scratch_pointer s) then None
      else let p = snd (Advance (blocks s) (scratch_pointer s) (int n))
           in Some (s\<lparr>invalid_markers_size := True, write_pointer := p,
                      blocks := MarkCurrentBlockEndAtPointer (blocks s) p,
                      scratch_pointer := dbp_null, ms_size := ms_size s + n\<rparr>))"

definition ms_ReadInternal :: "memory_stream \<Rightarrow> nat \<Rightarrow> bool \<Rightarrow> bytes \<times> memory_stream" where
  "ms_ReadInternal s len dispose =
     (if len = 0 then ([], s)
      else case MaybeInitReadPointer s of
        (False, s1) \<Rightarrow> ([], s1)
      | (True, s1) \<Rightarrow>
          (case ReadData (blocks s1) (read_pointer s1) len of
             (bs, p) \<Rightarrow>
               let s2 = s1\<lparr>read_pointer := p, ms_size := ms_size s1 - length bs\<rparr>
               in (bs, if dispose then MaybeDisposeBlocks s2 else s2)))"

definition ms_Read :: "memory_stream \<Rightarrow> nat \<Rightarrow> bytes \<times> memory_stream" where
  "ms_Read s len = ms_ReadInternal s len True"

definition ms_Peek :: "memory_stream \<Rightarrow> nat \<Rightarrow> bytes" where
  "ms_Peek s len =
     (if IsNull (GetReadPointer s) then [] else fst (ReadData (blocks s) (GetReadPointer s) len))"

definition ms_Skip :: "memory_stream \<Rightarrow> nat \<Rightarrow> nat \<times> memory_stream" where
  "ms_Skip s len =
     (case MaybeInitReadPointer s of
        (False, s1) \<Rightarrow> (0, s1)
      | (True, s1) \<Rightarrow>
          (case Advance (blocks s1) (read_pointer s1) (int len) of
             (cb, p) \<Rightarrow>
               (cb, MaybeDisposeBlocks (s1\<lparr>read_pointer := p, ms_size := ms_size s1 - cb\<rparr>))))"

definition ms_ReadString :: "memory_stream \<Rightarrow> int \<Rightarrow> bytes \<times> memory_stream" where
  "ms_ReadString s len = ms_Read s (if len < 0 then ms_size s else nat len)"

partial_function (option) write_loop :: "memory_stream \<Rightarrow> bytes \<Rightarrow> memory_stream option" where
  "write_loop s src =
     (if src = [] then Some s
      else Option.bind (WriteData (blocks s) (write_pointer s) src) (\<lambda>(delta, q, p).
        let s1 = s\<lparr>blocks := q, write_pointer := p, ms_size := ms_size s + delta\<rparr>;
            rest = drop delta src
        in write_loop
             (if rest \<noteq> []
              then s1\<lparr>blocks := bq_push_back q (new_DataBlock (max (length rest) (block_size s)))\<rparr>
              else s1) rest))"

definition ms_Write :: "memory_stream \<Rightarrow> bytes \<Rightarrow> (nat \<times> memory_stream) option" where
  "ms_Write s src =
     (let s0 = s\<lparr>invalid_markers_size := True\<rparr>;
          s1 = (if IsNull (write_pointer s)
                then s0\<lparr>blocks := bq_push_back (blocks s) (new_DataBlock (max (length src) (block_size s))),
                        write_pointer := \<lparr>block_id = bq_begin_id (blocks s), pos = 0\<rparr>\<rparr>
                else s0)
      in map_option (\<lambda>s2. (length src, s2)) (write_loop s1 src))"

definition ms_AppendNewBlock ::
    "memory_stream \<Rightarrow> data_block \<Rightarrow> nat \<Rightarrow> nat \<Rightarrow> memory_stream option" where
  "ms_AppendNewBlock s b pos_begin pos_end =
     (if pos_end - pos_begin > 0
      then map_option snd (ms_Write s (take (pos_end - pos_begin) (drop pos_begin (buffer b))))
      else Some s)"

function append_loop :: "memory_stream \<Rightarrow> block_dqueue \<Rightarrow> dbp \<Rightarrow> dbp \<Rightarrow> memory_stream option" where
  "append_loop s q b e =
     (if block_id b \<le> block_id e then
        let blk = ptr_block q b;
            pos_end = (if block_id b = block_id e then pos e else db_size blk)
        in (case (if pos b < pos_end then
                    if pos b = 0 \<and> pos_end = buffer_size blk then Some (ms_AppendBlock s blk)
                    else ms_AppendNewBlock s blk (pos b) pos_end
                  else Some s) of
              None \<Rightarrow> None
            | Some s1 \<Rightarrow> append_loop s1 q \<lparr>block_id = block_id b + 1, pos = 0\<rparr> e)
      else Some s)"
  by pat_completeness auto
termination
  by (relation "measure (\<lambda>(s, q, b, e). nat (block_id e + 1 - block_id b))") auto

declare append_loop.simps [simp del]

definition ms_AppendBetween ::
    "memory_stream \<Rightarrow> block_dqueue \<Rightarrow> dbp \<Rightarrow> dbp \<Rightarrow> memory_stream option" where
  "ms_AppendBetween s q b e =
     map_option (\<lambda>s1. s1\<lparr>write_pointer := SkipToCurrentBlockEnd (blocks s1) (write_pointer s1)\<rparr>)
       (if ptr_less b e then append_loop s q b e else Some s)"

definition ms_AppendStreamNonDestructive ::
    "memory_stream \<Rightarrow> memory_stream \<Rightarrow> int \<Rightarrow> memory_stream option" where
  "ms_AppendStreamNonDestructive s buf sz =
     (let b = GetReadPointer buf in
      if IsNull b then Some s
      else let e = (if sz \<ge> 0
                    then snd (Advance (blocks buf) b (int (min (nat sz) (ms_size buf))))
                    else write_pointer buf)
           in if IsEmpty buf then Some s else ms_AppendBetween s (blocks buf) b e)"

definition ms_AppendStream ::
    "memory_stream \<Rightarrow> memory_stream \<Rightarrow> int \<Rightarrow> (memory_stream \<times> memory_stream) option" where
  "ms_AppendStream s buf sz =
     map_option
       (\<lambda>s1. (s1, snd (ms_Skip buf (if sz \<ge> 0 \<and> nat sz < ms_size buf then nat sz else ms_size buf))))
       (ms_AppendStreamNonDestructive s buf sz)"

definition ms_MarkerSet :: "memory_stream \<Rightarrow> memory_stream" where
  "ms_MarkerSet s =
     s\<lparr>invalid_markers_size := (if markers s = [] then False else invalid_markers_size s),
       markers := markers s @ [(ms_size s, read_pointer s)]\<rparr>"

definition ms_MarkerRestore :: "memory_stream \<Rightarrow> memory_stream option" where
  "ms_MarkerRestore s =
     (if markers s = [] then None
      else let (n, m) = last (markers s);
               s1 = s\<lparr>read_pointer := m\<rparr>;
               s2 = (if invalid_markers_size s
                     then let t = snd (MaybeInitReadPointer s1)
                          in t\<lparr>ms_size := Distance (blocks t) (read_pointer t) (write_pointer t)\<rparr>
                     else s1\<lparr>ms_size := n\<rparr>)
           in Some (s2\<lparr>markers := butlast (markers s)\<rparr>))"

definition ms_MarkerClear :: "memory_stream \<Rightarrow> memory_stream option" where
  "ms_MarkerClear s =
     (if markers s = [] then None
      else Some (MaybeDisposeBlocks (s\<lparr>markers := butlast (markers s)\<rparr>)))"

definition read_line_by ::
    "(block_dqueue \<Rightarrow> dbp \<Rightarrow> bytes option \<times> dbp) \<Rightarrow> memory_stream \<Rightarrow> bytes option \<times> memory_stream" where
  "read_line_by rl s =
     (case MaybeInitReadPointer s of
        (False, s1) \<Rightarrow> (None, s1)
      | (True, s1) \<Rightarrow>
          (case rl (blocks s1) (read_pointer s1) of
             (Some l, p) \<Rightarrow> (Some l, s1\<lparr>read_pointer := p, ms_size := ms_size s1 - length l\<rparr>)
           | (None, p) \<Rightarrow> (None, s1\<lparr>read_pointer := p\<rparr>)))"

definition ms_ReadCRLFLine :: "memory_stream \<Rightarrow> bytes option \<times> memory_stream" where
  "ms_ReadCRLFLine = read_line_by ptr_ReadCRLFLine"

definition ms_ReadLFLine :: "memory_stream \<Rightarrow> bytes option \<times> memory_stream" where
  "ms_ReadLFLine = read_line_by ptr_ReadLFLine"

definition strip_crlf :: "bytes \<Rightarrow> bytes" where
  "strip_crlf l = rev (dropWhile (\<lambda>c. c = 10 \<or> c = 13) (rev l))"

definition ms_ReadLine :: "memory_stream \<Rightarrow> bytes option \<times> memory_stream" where
  "ms_ReadLine s = apfst (map_option strip_crlf) (ms_ReadCRLFLine s)"

definition ms_ReadNextAsciiToken :: "memory_stream \<Rightarrow> TokenReadError \<times> bytes option \<times> memory_stream" where
  "ms_ReadNextAsciiToken s =
     (case MaybeInitReadPointer s of
        (False, s1) \<Rightarrow> (TOKEN_NO_DATA, None, s1)
      | (True, s1) \<Rightarrow>
          (case ptr_ReadNextAsciiToken (blocks s1) (read_pointer s1) of
             (k, tok, n, p) \<Rightarrow> (k, tok, s1\<lparr>read_pointer := p, ms_size := ms_size s1 - n\<rparr>)))"

text \<open>
  \<open>Equals\<close> reads both streams in pieces of 128 bytes between a \<open>MarkerSet\<close> and a
  \<open>MarkerRestore\<close>; it stops at the first difference or when both are exhausted.
\<close>

partial_function (option) equals_loop ::
    "memory_stream \<Rightarrow> memory_stream \<Rightarrow> (bool \<times> memory_stream \<times> memory_stream) option" where
  "equals_loop a b =
     (case ms_Read a 128 of (abuf, a1) \<Rightarrow>
      if length abuf \<noteq> 128 \<and> \<not> IsEmpty a1 then None
      else case ms_Read b 128 of (bbuf, b1) \<Rightarrow>
        if length bbuf \<noteq> 128 \<and> \<not> IsEmpty b1 then None
        else if abuf \<noteq> bbuf then Some (False, a1, b1)
        else if abuf = [] then Some (True, a1, b1)
        else equals_loop a1 b1)"

definition ms_Equals ::
    "memory_stream \<Rightarrow> memory_stream \<Rightarrow> (bool \<times> memory_stream \<times> memory_stream) option" where
  "ms_Equals a b =
     (if ms_size a \<noteq> ms_size b then Some (False, a, b)
      else Option.bind (equals_loop (ms_MarkerSet a) (ms_MarkerSet b)) (\<lambda>(r, a1, b1).
             Option.bind (ms_MarkerRestore a1) (\<lambda>a2.
               map_option (\<lambda>b2. (r, a2, b2)) (ms_MarkerRestore b1))))"

section \<open>Content and invariant\<close>

definition ptr_content :: "block_dqueue \<Rightarrow> dbp \<Rightarrow> bytes" where
  "ptr_content q p = (if IsNull p then data_from q (bq_begin_id q) else bytes_from q p)"

definition ms_content :: "memory_stream \<Rightarrow> bytes" where
  "ms_content s = ptr_content (blocks s) (read_pointer s)"

definition ptr_valid :: "block_dqueue \<Rightarrow> dbp \<Rightarrow> bool" where
  "ptr_valid q p \<longleftrightarrow> (if IsNull p then pos p = 0 else ptr_ok q p)"

definition write_end_ok :: "memory_stream \<Rightarrow> bool" where
  "write_end_ok s \<longleftrightarrow>
     (if IsNull (write_pointer s)
      then bq_begin_id (blocks s) = bq_end_id (blocks s) \<and> IsNull (read_pointer s) \<and>
           pos (write_pointer s) = 0 \<and> (\<forall>m \<in> set (markers s). IsNull (snd m))
      else write_ok (blocks s) (write_pointer s) \<and>
           block_id (write_pointer s) + 1 = bq_end_id (blocks s))"

definition markers_ok :: "memory_stream \<Rightarrow> bool" where
  "markers_ok s \<longleftrightarrow>
     (markers s \<noteq> [] \<longrightarrow> block_id (snd (hd (markers s))) \<le> block_id (read_pointer s)) \<and>
     (\<forall>m \<in> set (markers s). ptr_valid (blocks s) (snd m) \<and> block_id (snd (hd (markers s))) \<le> block_id (snd m) \<and>
     (\<not> invalid_markers_size s \<longrightarrow> fst m = length (ptr_content (blocks s) (snd m))))"

definition ms_ok :: "memory_stream \<Rightarrow> bool" where
  "ms_ok s \<longleftrightarrow> 0 < block_size s \<and> bq_ok (blocks s) \<and> IsNull (scratch_pointer s) \<and>
     ptr_valid (blocks s) (read_pointer s) \<and> write_end_ok s \<and> markers_ok s \<and>
     ms_size s = length (ms_content s)"

lemmas ms_ok_defs = ms_ok_def write_end_ok_def markers_ok_def

text \<open>The contents the markers would restore, oldest marker first.\<close>

definition marker_contents :: "memory_stream \<Rightarrow> bytes list" where
  "marker_contents s = map (\<lambda>m. ptr_content (blocks s) (snd m)) (markers s)"

lemma marker_contents_Nil [simp]: "marker_contents s = [] \<longleftrightarrow> markers s = []"
  by (simp add: marker_contents_def)

lemma begin_id_nonneg: "0 \<le> bq_begin_id q"
  by (simp add: bq_begin_id_def)

lemma ptr_ok_not_null: "ptr_ok q p \<Longrightarrow> \<not> IsNull p"
  using begin_id_nonneg [of q] by (auto simp: ptr_ok_def id_ok_def IsNull_def)

lemma ptr_validI: "ptr_ok q p \<Longrightarrow> ptr_valid q p"
  by (simp add: ptr_valid_def ptr_ok_not_null)

lemma ptr_content_ok: "ptr_ok q p \<Longrightarrow> ptr_content q p = bytes_from q p"
  by (simp add: ptr_content_def ptr_ok_not_null)

lemma dbp_null_simps [simp]: "IsNull dbp_null" "pos dbp_null = 0"
  by (simp_all add: dbp_null_def IsNull_def)

subsection \<open>A fresh and a cleared stream\<close>

lemma ms_new_ok: "ms_new n = Some s \<Longrightarrow> ms_ok s \<and> ms_content s = [] \<and> markers s = []"
  by (auto simp: ms_new_def ms_ok_defs ptr_valid_def ms_content_def ptr_content_def bq_new_def bq_ok_def
      bq_begin_id_def bq_end_id_def data_from_def split: if_splits)

lemma ms_new_Some: "0 < n \<Longrightarrow> \<exists>s. ms_new n = Some s"
  by (simp add: ms_new_def)

lemma ms_Clear_ok:
  assumes "ms_ok s" and "markers s = []"
  obtains s' where "ms_Clear s = Some s'" and "ms_ok s'" and "ms_content s' = []" and "markers s' = []"
proof -
  let ?s = "s\<lparr>read_pointer := dbp_null, write_pointer := dbp_null, blocks := bq_clear (blocks s), ms_size := 0\<rparr>"
  have "ms_ok ?s" "ms_content ?s = []"
    using assms by (auto simp: ms_ok_defs ptr_valid_def ms_content_def ptr_content_def bq_clear_def bq_ok_def
      bq_begin_id_def bq_end_id_def data_from_def)
  with assms that [of ?s] show ?thesis by (simp add: ms_Clear_def)
qed

subsection \<open>The read pointer\<close>

lemma ptr_content_init:
  "IsNull p \<Longrightarrow> pos p = 0 \<Longrightarrow> bytes_from q (p\<lparr>block_id := bq_begin_id q\<rparr>) = ptr_content q p"
  by (simp add: ptr_content_def bytes_from_def)

lemma ptr_ok_init:
  "bq_begin_id q < bq_end_id q \<Longrightarrow> pos p = 0 \<Longrightarrow> ptr_ok q (p\<lparr>block_id := bq_begin_id q\<rparr>)"
  by (simp add: ptr_ok_def id_ok_def)

lemma MaybeInit_False:
  "ms_ok s \<Longrightarrow> MaybeInitReadPointer s = (False, s') \<Longrightarrow> s' = s \<and> ms_content s = []"
  by (auto simp: MaybeInitReadPointer_def ms_ok_defs ms_content_def ptr_content_def data_from_end
      split: if_splits)

lemma MaybeInit_True:
  assumes "ms_ok s" and "MaybeInitReadPointer s = (True, s')"
  shows "ms_ok s'" and "ms_content s' = ms_content s" and "ptr_ok (blocks s') (read_pointer s')"
    and "blocks s' = blocks s" and "marker_contents s' = marker_contents s" and "ms_size s' = ms_size s"
    and "write_pointer s' = write_pointer s" and "ms_content s' = bytes_from (blocks s') (read_pointer s')"
    and "\<not> IsNull (write_pointer s')"
proof -
  have s': "s' = s\<lparr>read_pointer := read_pointer s'\<rparr>"
    and rp: "read_pointer s' = (if IsNull (read_pointer s)
      then (read_pointer s)\<lparr>block_id := bq_begin_id (blocks s)\<rparr> else read_pointer s)"
    and w: "\<not> IsNull (write_pointer s)"
    using assms by (auto simp: MaybeInitReadPointer_def ms_ok_defs split: if_splits)
  have lt: "bq_begin_id (blocks s) < bq_end_id (blocks s)"
    using assms(1) w by (auto simp: ms_ok_defs write_ok_def ptr_ok_def id_ok_def)
  have ok: "ptr_ok (blocks s) (read_pointer s')"
    using assms(1) rp lt by (auto simp: ms_ok_def ptr_valid_def intro: ptr_ok_init split: if_splits)
  have same: "ptr_content (blocks s) (read_pointer s') = ptr_content (blocks s) (read_pointer s)"
    using rp ptr_content_ok [OF ok] assms(1) by (auto simp: ms_ok_def ptr_valid_def ptr_content_init)
  show "ptr_ok (blocks s') (read_pointer s')" using ok by (subst s') simp
  show "blocks s' = blocks s" "marker_contents s' = marker_contents s" "ms_size s' = ms_size s"
    "write_pointer s' = write_pointer s" "\<not> IsNull (write_pointer s')"
    using w by (subst s', simp add: marker_contents_def)+
  show "ms_content s' = ms_content s" by (subst s') (simp add: ms_content_def same)
  then show "ms_content s' = bytes_from (blocks s') (read_pointer s')"
    using ptr_content_ok [OF ok] same by (subst (2 3) s') (simp add: ms_content_def)
  have "block_id (read_pointer s) \<le> block_id (read_pointer s')"
    using rp begin_id_nonneg [of "blocks s"] by (auto simp: IsNull_def)
  then have "ms_ok (s\<lparr>read_pointer := read_pointer s'\<rparr>)"
    using assms(1) w ok same ptr_validI [OF ok] by (auto simp: ms_ok_defs ms_content_def)
  then show "ms_ok s'" by (subst s')
qed

lemma GetReadPointer_content:
  assumes "ms_ok s"
  shows "IsNull (GetReadPointer s) \<Longrightarrow> ms_content s = []"
    and "\<not> IsNull (GetReadPointer s) \<Longrightarrow> ptr_ok (blocks s) (GetReadPointer s) \<and>
           bytes_from (blocks s) (GetReadPointer s) = ms_content s \<and> \<not> IsNull (write_pointer s)"
proof -
  show "IsNull (GetReadPointer s) \<Longrightarrow> ms_content s = []"
    using assms begin_id_nonneg [of "blocks s"]
    by (auto simp: GetReadPointer_def ms_ok_defs ms_content_def ptr_content_def data_from_end IsNull_def
        split: if_splits)
  assume nn: "\<not> IsNull (GetReadPointer s)"
  show "ptr_ok (blocks s) (GetReadPointer s) \<and>
        bytes_from (blocks s) (GetReadPointer s) = ms_content s \<and> \<not> IsNull (write_pointer s)"
  proof (cases "IsNull (read_pointer s)")
    case True
    with nn have w: "\<not> IsNull (write_pointer s)" by (auto simp: GetReadPointer_def)
    with assms True show ?thesis
      by (auto simp: GetReadPointer_def ms_ok_defs ptr_valid_def ptr_ok_def id_ok_def write_ok_def
          ms_content_def ptr_content_def bytes_from_def)
  next
    case False
    with assms show ?thesis
      by (auto simp: GetReadPointer_def ms_ok_defs ptr_valid_def ms_content_def ptr_content_def split: if_splits)
  qed
qed

subsection \<open>Disposing of consumed blocks\<close>

lemma dispose_loop_keeps:
  "bq_ok q \<Longrightarrow>
   bq_ok (dispose_loop mk rp q) \<and> bq_end_id (dispose_loop mk rp q) = bq_end_id q \<and>
   bq_block (dispose_loop mk rp q) = bq_block q \<and> data_from (dispose_loop mk rp q) = data_from q \<and>
   (bq_begin_id (dispose_loop mk rp q) = bq_begin_id q \<or>
    bq_begin_id q \<le> bq_begin_id (dispose_loop mk rp q) \<and>
    bq_begin_id (dispose_loop mk rp q) \<le> block_id rp \<and>
    (mk = [] \<or> bq_begin_id (dispose_loop mk rp q) \<le> block_id (snd (hd mk))))"
proof (induction mk rp q rule: dispose_loop.induct)
  case (1 mk rp q)
  show ?case
  proof (cases "bq_begin_id q < block_id rp \<and> bq_begin_id q < bq_end_id q \<and>
      (mk = [] \<or> bq_begin_id q < block_id (snd (hd mk)))")
    case True
    then have "dispose_loop mk rp q = dispose_loop mk rp (bq_pop_front q)"
      by (subst dispose_loop.simps) simp
    moreover have "bq_block (bq_pop_front q) = bq_block q" "data_from (bq_pop_front q) = data_from q"
      by auto
    moreover have "bq_ok (bq_pop_front q)" using True "1.prems" by (intro bq_ok_pop_front) auto
    ultimately show ?thesis using "1.IH" [OF True] True by auto
  next
    case False
    then have "dispose_loop mk rp q = q" by (subst dispose_loop.simps) auto
    with "1.prems" show ?thesis by simp
  qed
qed

lemma ptr_ok_cong:
  "ptr_ok q p \<Longrightarrow> bq_begin_id q' \<le> block_id p \<Longrightarrow> bq_end_id q' = bq_end_id q \<Longrightarrow>
   bq_block q' (block_id p) = bq_block q (block_id p) \<Longrightarrow> ptr_ok q' p"
  by (simp add: ptr_ok_def id_ok_def)

text \<open>
  A queue that only lost blocks before the read pointer and before the first marker
  serves all pointers as before.
\<close>

definition trimmed :: "(nat \<times> dbp) list \<Rightarrow> dbp \<Rightarrow> block_dqueue \<Rightarrow> block_dqueue \<Rightarrow> bool" where
  "trimmed mk rp q q' \<longleftrightarrow> bq_ok q' \<and> bq_end_id q' = bq_end_id q \<and> bq_begin_id q \<le> bq_begin_id q' \<and>
     (\<forall>i. bq_begin_id q' \<le> i \<longrightarrow> bq_block q' i = bq_block q i \<and> data_from q' i = data_from q i) \<and>
     (bq_begin_id q' = bq_begin_id q \<or> bq_begin_id q' \<le> block_id rp \<and>
      (mk = [] \<or> bq_begin_id q' \<le> block_id (snd (hd mk))))"

lemma trimmed_dispose:
  assumes "bq_ok q"
  shows "trimmed mk rp q (bq_correct_buffer (dispose_loop mk rp q))"
proof -
  let ?d = "dispose_loop mk rp q"
  have d: "bq_ok ?d" "bq_end_id ?d = bq_end_id q" "bq_block ?d = bq_block q" "data_from ?d = data_from q"
      "bq_begin_id ?d = bq_begin_id q \<or> bq_begin_id q \<le> bq_begin_id ?d \<and> bq_begin_id ?d \<le> block_id rp \<and>
       (mk = [] \<or> bq_begin_id ?d \<le> block_id (snd (hd mk)))"
    using dispose_loop_keeps [OF assms, of mk rp] by blast+
  note c = bq_correct_buffer_keeps [OF d(1)]
  show ?thesis
    unfolding trimmed_def using c d by auto
qed

lemma trimmedD:
  assumes "trimmed mk rp q q'"
  shows "bq_ok q'" and "bq_end_id q' = bq_end_id q" and "bq_begin_id q \<le> bq_begin_id q'"
    and "bq_begin_id q' \<le> i \<Longrightarrow> bq_block q' i = bq_block q i"
    and "bq_begin_id q' \<le> i \<Longrightarrow> data_from q' i = data_from q i"
    and "bq_begin_id q' = bq_begin_id q \<or> bq_begin_id q' \<le> block_id rp \<and>
      (mk = [] \<or> bq_begin_id q' \<le> block_id (snd (hd mk)))"
  using assms unfolding trimmed_def by blast+

definition kept_by :: "(nat \<times> dbp) list \<Rightarrow> dbp \<Rightarrow> dbp \<Rightarrow> bool" where
  "kept_by mk rp p \<longleftrightarrow> block_id rp \<le> block_id p \<or> mk \<noteq> [] \<and> block_id (snd (hd mk)) \<le> block_id p"

lemma trimmed_begin_le:
  assumes "trimmed mk rp q q'" and "bq_begin_id q \<le> block_id p" and "kept_by mk rp p"
  shows "bq_begin_id q' \<le> block_id p"
  using trimmedD(6) [OF assms(1)] assms(2,3) unfolding kept_by_def by linarith

lemma trimmed_ptr_ok:
  assumes "trimmed mk rp q q'" and "ptr_ok q p" and "kept_by mk rp p"
  shows "ptr_ok q' p" and "bytes_from q' p = bytes_from q p"
proof -
  have le: "bq_begin_id q' \<le> block_id p"
    using assms(2) by (intro trimmed_begin_le [OF assms(1) _ assms(3)]) (simp add: ptr_ok_def id_ok_def)
  note t = trimmedD [OF assms(1)]
  show "ptr_ok q' p" using assms(2) le t(2) t(4) [OF le] by (rule ptr_ok_cong)
  show "bytes_from q' p = bytes_from q p" using t(5) [OF le] by (simp add: bytes_from_def)
qed

lemma trimmed_valid:
  assumes "trimmed mk rp q q'" and "ptr_valid q p" and "kept_by mk rp p"
  shows "ptr_valid q' p \<and> ptr_content q' p = ptr_content q p"
proof (cases "IsNull p")
  case True
  then have "block_id p = -1" by (simp add: IsNull_def)
  then have "bq_begin_id q' = bq_begin_id q"
    using trimmedD(6) [OF assms(1)] assms(3) begin_id_nonneg [of q'] unfolding kept_by_def by linarith
  with True assms(2) trimmedD(5) [OF assms(1), of "bq_begin_id q'"] show ?thesis
    by (simp add: ptr_valid_def ptr_content_def)
next
  case False
  with assms trimmed_ptr_ok [OF assms(1) _ assms(3)] show ?thesis
    by (auto simp: ptr_valid_def ptr_content_def)
qed

lemma trimmed_write_ok:
  assumes "trimmed mk rp q q'" and "write_ok q p" and "block_id p + 1 = bq_end_id q"
    and "block_id rp \<le> block_id p"
  shows "write_ok q' p"
proof -
  have ptr: "ptr_ok q' p"
    using assms(2,4) by (intro trimmed_ptr_ok(1) [OF assms(1)]) (auto simp: write_ok_def kept_by_def)
  then have "bq_block q' (block_id p) = bq_block q (block_id p)"
    by (intro trimmedD(4) [OF assms(1)]) (simp add: ptr_ok_def id_ok_def)
  with ptr show ?thesis
    using assms(2,3) trimmedD(2) [OF assms(1)] by (auto simp: write_ok_def)
qed

lemma ms_ok_trimmed:
  assumes ok: "ms_ok s" and tr: "trimmed (markers s) (read_pointer s) (blocks s) q'"
  shows "ms_ok (s\<lparr>blocks := q'\<rparr>)" and "ms_content (s\<lparr>blocks := q'\<rparr>) = ms_content s"
    and "marker_contents (s\<lparr>blocks := q'\<rparr>) = marker_contents s"
proof -
  note t = trimmedD [OF tr]
  have rd: "ptr_valid q' (read_pointer s) \<and> ptr_content q' (read_pointer s) = ptr_content (blocks s) (read_pointer s)"
    using ok by (intro trimmed_valid [OF tr]) (auto simp: ms_ok_def kept_by_def)
  then show "ms_content (s\<lparr>blocks := q'\<rparr>) = ms_content s" by (simp add: ms_content_def)
  have mk: "ptr_valid q' (snd m) \<and> ptr_content q' (snd m) = ptr_content (blocks s) (snd m)"
    if "m \<in> set (markers s)" for m
    using ok that by (intro trimmed_valid [OF tr]) (auto simp: ms_ok_defs kept_by_def)
  then show "marker_contents (s\<lparr>blocks := q'\<rparr>) = marker_contents s" by (simp add: marker_contents_def)
  have rp: "block_id (read_pointer s) \<le> block_id (write_pointer s)" if "\<not> IsNull (write_pointer s)"
    using ok that begin_id_nonneg [of "blocks s"]
    by (auto simp: ms_ok_defs ptr_valid_def ptr_ok_def id_ok_def IsNull_def write_ok_def split: if_splits)
  have wr: "write_end_ok (s\<lparr>blocks := q'\<rparr>)"
  proof (cases "IsNull (write_pointer s)")
    case True
    then have "block_id (read_pointer s) = -1" "bq_begin_id (blocks s) = bq_end_id (blocks s)"
      "pos (write_pointer s) = 0" "\<forall>m \<in> set (markers s). IsNull (snd m)" using ok by (auto simp: ms_ok_defs IsNull_def)
    moreover from this have "bq_begin_id q' = bq_begin_id (blocks s)"
      using t(6) begin_id_nonneg [of q'] by linarith
    ultimately show ?thesis using True t(2) by (simp add: write_end_ok_def IsNull_def)
  next
    case False
    with ok rp t(2) trimmed_write_ok [OF tr, of "write_pointer s"] show ?thesis
      by (simp add: ms_ok_defs)
  qed
  show "ms_ok (s\<lparr>blocks := q'\<rparr>)"
    using ok rd mk wr t(1) by (auto simp: ms_ok_def markers_ok_def ms_content_def)
qed

lemma MaybeDisposeBlocks_ok:
  assumes "ms_ok s"
  shows "ms_ok (MaybeDisposeBlocks s)" and "ms_content (MaybeDisposeBlocks s) = ms_content s"
    and "marker_contents (MaybeDisposeBlocks s) = marker_contents s"
    and "ptr_ok (blocks s) (read_pointer s) \<Longrightarrow>
         ptr_ok (blocks (MaybeDisposeBlocks s)) (read_pointer (MaybeDisposeBlocks s))"
proof -
  have tr: "trimmed (markers s) (read_pointer s) (blocks s)
      (bq_correct_buffer (dispose_loop (markers s) (read_pointer s) (blocks s)))"
    using assms by (intro trimmed_dispose) (simp add: ms_ok_def)
  show "ms_ok (MaybeDisposeBlocks s)" "ms_content (MaybeDisposeBlocks s) = ms_content s"
    "marker_contents (MaybeDisposeBlocks s) = marker_contents s"
    using ms_ok_trimmed [OF assms tr] by (simp_all add: MaybeDisposeBlocks_def)
  show "ptr_ok (blocks s) (read_pointer s) \<Longrightarrow>
         ptr_ok (blocks (MaybeDisposeBlocks s)) (read_pointer (MaybeDisposeBlocks s))"
    using trimmed_ptr_ok [OF tr] by (simp add: MaybeDisposeBlocks_def kept_by_def)
qed

subsection \<open>Reading\<close>

lemma ms_ok_move_read:
  assumes "ms_ok s" and "ptr_ok (blocks s) p" and "\<not> IsNull (write_pointer s)"
    and "bytes_from (blocks s) p = drop n (ms_content s)"
    and "sz = ms_size s - min n (ms_size s)" and "block_id (read_pointer s) \<le> block_id p"
  shows "ms_ok (s\<lparr>read_pointer := p, ms_size := sz\<rparr>)"
    and "ms_content (s\<lparr>read_pointer := p, ms_size := sz\<rparr>) = drop n (ms_content s)"
    and "marker_contents (s\<lparr>read_pointer := p, ms_size := sz\<rparr>) = marker_contents s"
  using assms ptr_content_ok [OF assms(2)] ptr_validI [OF assms(2)]
  by (auto simp: ms_ok_defs ms_content_def marker_contents_def)

lemma ms_Read_correct:
  assumes "ms_ok s"
  shows "fst (ms_Read s n) = take n (ms_content s)"
    and "ms_content (snd (ms_Read s n)) = drop n (ms_content s)"
    and "ms_ok (snd (ms_Read s n))" and "marker_contents (snd (ms_Read s n)) = marker_contents s"
proof -
  have "fst (ms_Read s n) = take n (ms_content s) \<and> ms_content (snd (ms_Read s n)) = drop n (ms_content s) \<and>
      ms_ok (snd (ms_Read s n)) \<and> marker_contents (snd (ms_Read s n)) = marker_contents s"
  proof (cases "n = 0")
    case True
    with assms show ?thesis by (simp add: ms_Read_def ms_ReadInternal_def)
  next
    case n: False
    obtain b s1 where init: "MaybeInitReadPointer s = (b, s1)" by force
    show ?thesis
    proof (cases b)
      case False
      with init n MaybeInit_False [OF assms, of s1] assms show ?thesis
        by (simp add: ms_Read_def ms_ReadInternal_def)
    next
      case True
      then have init': "MaybeInitReadPointer s = (True, s1)" using init by simp
      note i = MaybeInit_True [OF assms init']
      have q: "bq_ok (blocks s1)" using i(1) by (simp add: ms_ok_def)
      note r = ReadData_correct [OF q i(3), of n]
      let ?p = "snd (ReadData (blocks s1) (read_pointer s1) n)"
      let ?s2 = "s1\<lparr>read_pointer := ?p, ms_size := ms_size s1 - length (fst (ReadData (blocks s1) (read_pointer s1) n))\<rparr>"
      have "ms_size s1 = length (ms_content s1)" using i(1) by (simp add: ms_ok_def)
      then have s2: "ms_ok ?s2" "ms_content ?s2 = drop n (ms_content s1)" "marker_contents ?s2 = marker_contents s1"
        using ms_ok_move_read [OF i(1) r(3) i(9), of n] r i(8) by (simp_all add: min.commute)
      have "ms_Read s n = (fst (ReadData (blocks s1) (read_pointer s1) n), MaybeDisposeBlocks ?s2)"
        using init True n by (simp add: ms_Read_def ms_ReadInternal_def split_beta)
      with MaybeDisposeBlocks_ok [OF s2(1)] s2(2,3) r(1) i(2,5,8) show ?thesis by simp
    qed
  qed
  then show "fst (ms_Read s n) = take n (ms_content s)"
    and "ms_content (snd (ms_Read s n)) = drop n (ms_content s)"
    and "ms_ok (snd (ms_Read s n))" and "marker_contents (snd (ms_Read s n)) = marker_contents s"
    by auto
qed

lemma ms_Peek_correct: "ms_ok s \<Longrightarrow> ms_Peek s n = take n (ms_content s)"
  using GetReadPointer_content [of s] ReadData_correct(1) [of "blocks s" "GetReadPointer s" n]
  by (auto simp: ms_Peek_def ms_ok_def)

lemma ms_Skip_correct:
  assumes "ms_ok s"
  shows "fst (ms_Skip s n) = min n (length (ms_content s))"
    and "ms_content (snd (ms_Skip s n)) = drop n (ms_content s)"
    and "ms_ok (snd (ms_Skip s n))" and "marker_contents (snd (ms_Skip s n)) = marker_contents s"
proof -
  obtain b s1 where init: "MaybeInitReadPointer s = (b, s1)" by force
  have "fst (ms_Skip s n) = min n (length (ms_content s)) \<and> ms_content (snd (ms_Skip s n)) = drop n (ms_content s) \<and>
      ms_ok (snd (ms_Skip s n)) \<and> marker_contents (snd (ms_Skip s n)) = marker_contents s"
  proof (cases b)
    case False
    with init MaybeInit_False [OF assms, of s1] assms show ?thesis by (simp add: ms_Skip_def)
  next
    case True
    then have init': "MaybeInitReadPointer s = (True, s1)" using init by simp
    note i = MaybeInit_True [OF assms init']
    have q: "bq_ok (blocks s1)" using i(1) by (simp add: ms_ok_def)
    note r = Advance_correct [OF q i(3), of n]
    let ?s2 = "s1\<lparr>read_pointer := snd (Advance (blocks s1) (read_pointer s1) (int n)),
      ms_size := ms_size s1 - fst (Advance (blocks s1) (read_pointer s1) (int n))\<rparr>"
    have "ms_size s1 = length (ms_content s1)" using i(1) by (simp add: ms_ok_def)
    then have s2: "ms_ok ?s2" "ms_content ?s2 = drop n (ms_content s1)" "marker_contents ?s2 = marker_contents s1"
      using ms_ok_move_read [OF i(1) r(3) i(9), of n] r i(8) by simp_all
    have "ms_Skip s n = (fst (Advance (blocks s1) (read_pointer s1) (int n)), MaybeDisposeBlocks ?s2)"
      using init True by (simp add: ms_Skip_def split_beta)
    with MaybeDisposeBlocks_ok [OF s2(1)] s2(2,3) r(1) i(2,5,8) show ?thesis by simp
  qed
  then show "fst (ms_Skip s n) = min n (length (ms_content s))"
    and "ms_content (snd (ms_Skip s n)) = drop n (ms_content s)"
    and "ms_ok (snd (ms_Skip s n))" and "marker_contents (snd (ms_Skip s n)) = marker_contents s"
    by auto
qed

subsection \<open>Writing\<close>

definition grew :: "block_dqueue \<Rightarrow> bytes \<Rightarrow> block_dqueue \<Rightarrow> dbp \<Rightarrow> bool" where
  "grew q c q' p' \<longleftrightarrow> bq_ok q' \<and> write_ok q' p' \<and> block_id p' + 1 = bq_end_id q' \<and>
     bq_begin_id q' = bq_begin_id q \<and> bq_end_id q \<le> bq_end_id q' \<and>
     (\<forall>i. bq_begin_id q \<le> i \<and> (i < bq_end_id q \<or> i = bq_begin_id q) \<longrightarrow> data_from q' i = data_from q i @ c) \<and>
     (\<forall>i. id_ok q i \<longrightarrow> db_size (bq_block q i) \<le> db_size (bq_block q' i))"

lemma grewD:
  assumes "grew q c q' p'"
  shows "bq_ok q'" and "write_ok q' p'" and "block_id p' + 1 = bq_end_id q'"
    and "bq_begin_id q' = bq_begin_id q" and "bq_end_id q \<le> bq_end_id q'"
    and "bq_begin_id q \<le> i \<Longrightarrow> i < bq_end_id q \<or> i = bq_begin_id q \<Longrightarrow> data_from q' i = data_from q i @ c"
    and "id_ok q i \<Longrightarrow> db_size (bq_block q i) \<le> db_size (bq_block q' i)"
  using assms unfolding grew_def by blast+

lemma grew_trans:
  assumes "grew q c q1 p1" and "grew q1 c' q2 p2"
  shows "grew q (c @ c') q2 p2"
proof -
  note a = grewD [OF assms(1)] and b = grewD [OF assms(2)]
  have "data_from q2 i = data_from q i @ c @ c'"
    if "bq_begin_id q \<le> i" "i < bq_end_id q \<or> i = bq_begin_id q" for i
    using a(6) [OF that] b(6) [of i] that a(4,5) by auto
  moreover have "db_size (bq_block q i) \<le> db_size (bq_block q2 i)" if "id_ok q i" for i
    using a(7) [OF that] b(7) [of i] that a(4,5) by (auto simp: id_ok_def)
  ultimately show ?thesis using a b by (auto simp: grew_def)
qed

lemma ptr_valid_grew:
  assumes "grew q c q' p'" and "bq_ok q" and "ptr_valid q p"
  shows "ptr_valid q' p" and "ptr_content q' p = ptr_content q p @ c"
proof -
  note g = grewD [OF assms(1)]
  show "ptr_valid q' p"
    using assms(3) g(4,5) g(7) [of "block_id p"] by (auto simp: ptr_valid_def ptr_ok_def id_ok_def split: if_splits)
  show "ptr_content q' p = ptr_content q p @ c"
  proof (cases "IsNull p")
    case True
    then show ?thesis using g(4) g(6) [of "bq_begin_id q"] by (simp add: ptr_content_def)
  next
    case False
    then have ok: "ptr_ok q p" using assms(3) by (simp add: ptr_valid_def)
    then have "data_from q' (block_id p) = data_from q (block_id p) @ c"
      by (intro g(6)) (auto simp: ptr_ok_def id_ok_def)
    moreover have "pos p \<le> length (data_from q (block_id p))"
      using ok data_from_step [of q "block_id p"] length_db_data [OF assms(2), of "block_id p"]
      by (simp add: ptr_ok_def)
    ultimately show ?thesis using False by (simp add: ptr_content_def bytes_from_def)
  qed
qed

lemma ms_ok_grew:
  assumes ok: "ms_ok s" and g: "grew (blocks s) c q' p'"
  defines "s' \<equiv> s\<lparr>blocks := q', write_pointer := p', ms_size := ms_size s + length c, invalid_markers_size := True\<rparr>"
  shows "ms_ok s'" and "ms_content s' = ms_content s @ c"
    and "marker_contents s' = map (\<lambda>x. x @ c) (marker_contents s)"
proof -
  have q: "bq_ok (blocks s)" using ok by (simp add: ms_ok_def)
  have rd: "ptr_valid q' (read_pointer s)" "ptr_content q' (read_pointer s) = ms_content s @ c"
    using ptr_valid_grew [OF g q] ok by (auto simp: ms_ok_def ms_content_def)
  have mk: "ptr_valid q' (snd m)" "ptr_content q' (snd m) = ptr_content (blocks s) (snd m) @ c"
    if "m \<in> set (markers s)" for m
    using ptr_valid_grew [OF g q] ok that by (auto simp: ms_ok_def markers_ok_def)
  have "\<not> IsNull p'" using grewD(2) [OF g] by (intro ptr_ok_not_null [of q']) (simp add: write_ok_def)
  then show "ms_ok s'"
    using ok rd mk grewD(1-3) [OF g] by (auto simp: s'_def ms_ok_defs ms_content_def)
  show "ms_content s' = ms_content s @ c" using rd by (simp add: s'_def ms_content_def)
  show "marker_contents s' = map (\<lambda>x. x @ c) (marker_contents s)"
    using mk by (auto simp: s'_def marker_contents_def)
qed

lemma grew_push_back:
  assumes "bq_ok q" and "db_size b = buffer_size b \<or> is_mutable b" and "db_size b \<le> buffer_size b"
  shows "grew q (db_data b) (bq_push_back q b) \<lparr>block_id = bq_end_id (bq_push_back q b) - 1, pos = db_size b\<rparr>"
proof -
  have le: "bq_begin_id q \<le> bq_end_id q" using assms(1) by (auto simp: bq_ok_def bq_begin_id_def bq_end_id_def)
  have "data_from (bq_push_back q b) i = data_from q i @ db_data b"
    if "bq_begin_id q \<le> i" "i < bq_end_id q \<or> i = bq_begin_id q" for i
    using that le by (intro data_from_push_back) auto
  moreover have "bq_block (bq_push_back q b) i = bq_block q i" if "id_ok q i" for i
    using that by (rule bq_block_push_back)
  moreover have "write_ok (bq_push_back q b) \<lparr>block_id = bq_end_id q, pos = db_size b\<rparr>"
    using assms le by (auto simp: write_ok_def ptr_ok_def id_ok_def bq_block_push_back(2))
  ultimately show ?thesis
    using assms by (auto simp: grew_def bq_ok_push_back)
qed

lemma ms_AppendBlock_correct:
  assumes "ms_ok s" and "db_size b = buffer_size b"
  shows "ms_ok (ms_AppendBlock s b)" and "ms_content (ms_AppendBlock s b) = ms_content s @ db_data b"
    and "marker_contents (ms_AppendBlock s b) = map (\<lambda>x. x @ db_data b) (marker_contents s)"
proof -
  have q: "bq_ok (blocks s)" using assms(1) by (simp add: ms_ok_def)
  note g = grew_push_back [OF q, of b]
  have "ms_AppendBlock s b = s\<lparr>blocks := bq_push_back (blocks s) b,
      write_pointer := \<lparr>block_id = bq_end_id (bq_push_back (blocks s) b) - 1, pos = db_size b\<rparr>,
      ms_size := ms_size s + length (db_data b), invalid_markers_size := True\<rparr>"
    using assms(2) by (simp add: ms_AppendBlock_def db_data_def Let_def)
  then show "ms_ok (ms_AppendBlock s b)" "ms_content (ms_AppendBlock s b) = ms_content s @ db_data b"
    "marker_contents (ms_AppendBlock s b) = map (\<lambda>x. x @ db_data b) (marker_contents s)"
    using ms_ok_grew [OF assms(1) g] assms(2) by simp_all
qed

lemma grew_wrote:
  assumes "wrote q p c q' p'" and "block_id p + 1 = bq_end_id q" and "id_ok q (block_id p)"
  shows "grew q c q' p'"
proof -
  have "block_id p' + 1 = bq_end_id q'"
    using assms wrote_ids [OF assms(1)] by (auto simp: wrote_def write_ok_def ptr_ok_def id_ok_def)
  moreover have "data_from q' i = data_from q i @ c"
    if "bq_begin_id q \<le> i" "i < bq_end_id q \<or> i = bq_begin_id q" for i
    using that assms unfolding wrote_def id_ok_def by auto
  ultimately show ?thesis
    using assms(1) wrote_ids [OF assms(1)] by (auto simp: grew_def wrote_def)
qed

text \<open>After a fresh block of sufficient size was added, the rest of the bytes fits.\<close>

lemma WriteData_fits:
  assumes "bq_ok q" and "write_ok q p" and "block_id p + 2 = bq_end_id q"
    and "pos p = buffer_size (ptr_block q p)" and "src \<noteq> []"
    and "length src \<le> buffer_size (bq_block q (block_id p + 1))"
  obtains q' p' where "WriteData q p src = Some (length src, q', p')" and "wrote q p src q' p'"
    and "block_id p' + 1 = bq_end_id q'"
proof -
  obtain n q' p' where w: "WriteData q p src = Some (n, q', p')" "n \<le> length src"
      "wrote q p (take n src) q' p'"
      "n < length src \<Longrightarrow> block_id p' + 1 = bq_end_id q' \<and> pos p' = buffer_size (ptr_block q' p')"
    by (rule WriteData_correct [OF assms(1,2)]) blast
  have id: "id_ok q (block_id p)" "id_ok q (block_id p + 1)"
    using assms(2,3) by (auto simp: write_ok_def ptr_ok_def id_ok_def)
  note ids = wrote_ids [OF w(3)]
  have id': "id_ok q' (block_id p)" "id_ok q' (block_id p + 1)" using id ids(3) by auto
  have ok': "bq_ok q'" "write_ok q' p'" using w(3) by (auto simp: wrote_def)
  have end_empty: "data_from r (block_id p + 2) = []" if "bq_end_id r = bq_end_id q" for r
    using that assms(3) by (simp add: data_from_end)
  have len: "length (data_from r (block_id p)) =
      db_size (bq_block r (block_id p)) + db_size (bq_block r (block_id p + 1))"
    if "bq_ok r" "id_ok r (block_id p)" "id_ok r (block_id p + 1)" "bq_end_id r = bq_end_id q" for r
    using data_from_step [OF that(2)] data_from_step [OF that(3)] that end_empty [OF that(4)]
    by (simp add: length_db_data add.assoc)
  have "data_from q' (block_id p) = data_from q (block_id p) @ take n src"
    using w(3) id unfolding wrote_def id_ok_def by auto
  then have sum: "db_size (bq_block q' (block_id p)) + db_size (bq_block q' (block_id p + 1)) =
      db_size (bq_block q (block_id p)) + db_size (bq_block q (block_id p + 1)) + n"
    using len [OF assms(1) id] len [OF ok'(1) id' ids(2)] w(2) by (auto dest: arg_cong [of _ _ length])
  have full: "db_size (bq_block q (block_id p)) = buffer_size (bq_block q (block_id p))"
    and fresh: "db_size (bq_block q (block_id p + 1)) = 0"
    using assms(2,3,4) by (auto simp: write_ok_def)
  have same: "db_size (bq_block q' (block_id p)) = db_size (bq_block q (block_id p))"
    using w(3) id full block_size_le [OF ok'(1) id'(1)] unfolding wrote_def by (metis le_antisym)
  then have n: "n = db_size (bq_block q' (block_id p + 1))" using sum fresh by simp
  have le: "block_id p' = block_id p \<or> block_id p' = block_id p + 1"
    using w(3) assms(3) ids by (auto simp: wrote_def write_ok_def ptr_ok_def id_ok_def)
  have all: "n = length src"
  proof (rule ccontr)
    assume "n \<noteq> length src"
    with w(2,4) have last: "block_id p' + 1 = bq_end_id q'" "pos p' = buffer_size (ptr_block q' p')" by auto
    then have "block_id p' = block_id p + 1" using assms(3) ids by auto
    then have "n = buffer_size (bq_block q (block_id p + 1))"
      using last(2) n ok'(2) w(3) id(2) unfolding write_ok_def wrote_def by auto
    with assms(6) w(2) \<open>n \<noteq> length src\<close> show False by simp
  qed
  have "block_id p' = block_id p + 1"
  proof (rule ccontr)
    assume "\<not> ?thesis"
    then have "block_id p' = block_id p" using le by blast
    then have "db_size (bq_block q' (block_id p + 1)) = 0"
      using ok'(2) assms(3) ids(2) by (auto simp: write_ok_def)
    with n all assms(5) show False by simp
  qed
  then show ?thesis using that [of q' p'] w(1,3) all assms(3) ids by simp
qed

lemma write_ok_push_back:
  assumes "bq_ok q" and "write_ok q p" and "db_size b = 0" and "is_mutable b"
  shows "write_ok (bq_push_back q b) p"
proof -
  have id: "id_ok q (block_id p)" using assms(2) by (auto simp: write_ok_def ptr_ok_def)
  have blk: "bq_block (bq_push_back q b) i = (if i = bq_end_id q then b else bq_block q i)"
    if "block_id p \<le> i" "i < bq_end_id q + 1" for i
    using that id bq_block_push_back [of q] by (auto simp: id_ok_def)
  then have "bq_block (bq_push_back q b) (block_id p) = bq_block q (block_id p)"
    using id by (auto simp: id_ok_def)
  with assms id blk show ?thesis
    by (auto simp: write_ok_def ptr_ok_def id_ok_def)
qed

lemma new_DataBlock_simps [simp]:
  "db_size (new_DataBlock n) = 0" "is_mutable (new_DataBlock n)" "buffer_size (new_DataBlock n) = n"
  "db_data (new_DataBlock n) = []"
  by (simp_all add: new_DataBlock_def new_char_def db_data_def)

lemma write_loop_correct:
  assumes "bq_ok (blocks s)" and "write_ok (blocks s) (write_pointer s)"
    and "block_id (write_pointer s) + 1 = bq_end_id (blocks s)"
  shows "\<exists>q' p'. write_loop s src = Some (s\<lparr>blocks := q', write_pointer := p',
           ms_size := ms_size s + length src\<rparr>) \<and> grew (blocks s) src q' p'"
proof (cases "src = []")
  case True
  have "grew (blocks s) [] (blocks s) (write_pointer s)" using assms by (simp add: grew_def)
  with True show ?thesis
    by (intro exI [of _ "blocks s"] exI [of _ "write_pointer s"]) (simp add: write_loop.simps)
next
  case ne: False
  let ?q = "blocks s" and ?p = "write_pointer s"
  have id: "id_ok ?q (block_id ?p)" using assms(2) by (auto simp: write_ok_def ptr_ok_def)
  obtain n q1 p1 where w: "WriteData ?q ?p src = Some (n, q1, p1)" "n \<le> length src"
      "wrote ?q ?p (take n src) q1 p1"
      "n < length src \<Longrightarrow> block_id p1 + 1 = bq_end_id q1 \<and> pos p1 = buffer_size (ptr_block q1 p1)"
    by (rule WriteData_correct [OF assms(1,2)]) blast
  have g1: "grew ?q (take n src) q1 p1" using w(3) assms(3) id by (rule grew_wrote)
  show ?thesis
  proof (cases "n = length src")
    case True
    have "write_loop s src = Some (s\<lparr>blocks := q1, write_pointer := p1, ms_size := ms_size s + length src\<rparr>)"
      using ne w(1) True by (simp add: write_loop.simps [of s src] write_loop.simps [of _ "[]"])
    with g1 True show ?thesis by auto
  next
    case False
    then have last: "block_id p1 + 1 = bq_end_id q1" "pos p1 = buffer_size (ptr_block q1 p1)"
      using w(2,4) by auto
    let ?b = "new_DataBlock (max (length (drop n src)) (block_size s))"
    let ?q2 = "bq_push_back q1 ?b"
    have ok1: "bq_ok q1" "write_ok q1 p1" using g1 by (auto simp: grew_def)
    have rest: "drop n src \<noteq> []" using False w(2) by simp
    have blk: "ptr_block ?q2 p1 = ptr_block q1 p1" "bq_block ?q2 (block_id p1 + 1) = ?b"
      using ok1(2) last(1) bq_block_push_back [of q1] by (auto simp: write_ok_def ptr_ok_def)
    obtain q3 p3 where w3: "WriteData ?q2 p1 (drop n src) = Some (length (drop n src), q3, p3)"
        "wrote ?q2 p1 (drop n src) q3 p3" "block_id p3 + 1 = bq_end_id q3"
      by (rule WriteData_fits [of ?q2 p1 "drop n src"])
        (use ok1 last blk rest in \<open>simp_all add: bq_ok_push_back write_ok_push_back\<close>)
    have g3: "grew q1 (drop n src) q3 p3"
    proof -
      have pre: "data_from q3 i = data_from q1 i @ drop n src"
        if "bq_begin_id q1 \<le> i" "i < bq_end_id q1 \<or> i = bq_begin_id q1" for i
        using that w3(2) last(1) ok1(2) data_from_push_back [of i q1 ?b]
        unfolding wrote_def by (auto simp: write_ok_def ptr_ok_def id_ok_def)
      have sz: "db_size (bq_block q1 i) \<le> db_size (bq_block q3 i)" if "id_ok q1 i" for i
        using that w3(2) bq_block_push_back(1) [OF that, of ?b] unfolding wrote_def
        by (auto simp: id_ok_def)
      show ?thesis
        using pre sz w3 wrote_ids [OF w3(2)] by (auto simp: grew_def wrote_def)
    qed
    have "write_loop s src = Some (s\<lparr>blocks := q3, write_pointer := p3, ms_size := ms_size s + length src\<rparr>)"
      using ne w(1,2) rest w3(1)
      by (simp add: write_loop.simps [of s src] write_loop.simps [of _ "drop n src"] write_loop.simps [of _ "[]"])
    with grew_trans [OF g1 g3] show ?thesis by auto
  qed
qed

text \<open>The first write allocates a block; the stream is as before, but has a write pointer.\<close>

lemma ms_ok_first_block:
  fixes n :: nat
  assumes ok: "ms_ok s" and w: "IsNull (write_pointer s)"
  defines "s' \<equiv> s\<lparr>invalid_markers_size := True, blocks := bq_push_back (blocks s) (new_DataBlock n),
    write_pointer := \<lparr>block_id = bq_begin_id (blocks s), pos = 0\<rparr>\<rparr>"
  shows "ms_ok s'" and "ms_content s' = ms_content s" and "marker_contents s' = marker_contents s"
proof -
  have q: "bq_ok (blocks s)" and be: "bq_begin_id (blocks s) = bq_end_id (blocks s)"
    using ok w by (auto simp: ms_ok_defs)
  have "s' = s\<lparr>blocks := bq_push_back (blocks s) (new_DataBlock n),
      write_pointer := \<lparr>block_id = bq_end_id (bq_push_back (blocks s) (new_DataBlock n)) - 1,
        pos = db_size (new_DataBlock n)\<rparr>,
      ms_size := ms_size s + length [], invalid_markers_size := True\<rparr>"
    by (simp add: s'_def be)
  then show "ms_ok s'" "ms_content s' = ms_content s" "marker_contents s' = marker_contents s"
    using ms_ok_grew [OF ok, of "[]"] grew_push_back [OF q, of "new_DataBlock n"] by simp_all
qed

lemma ms_Write_correct:
  assumes "ms_ok s"
  obtains s' where "ms_Write s bs = Some (length bs, s')" and "ms_ok s'"
    and "ms_content s' = ms_content s @ bs"
    and "marker_contents s' = map (\<lambda>x. x @ bs) (marker_contents s)" and "block_size s' = block_size s"
proof -
  define s1 where "s1 = (if IsNull (write_pointer s)
      then s\<lparr>invalid_markers_size := True,
             blocks := bq_push_back (blocks s) (new_DataBlock (max (length bs) (block_size s))),
             write_pointer := \<lparr>block_id = bq_begin_id (blocks s), pos = 0\<rparr>\<rparr>
      else s\<lparr>invalid_markers_size := True\<rparr>)"
  have s1: "ms_ok s1" "ms_content s1 = ms_content s" "marker_contents s1 = marker_contents s"
      "invalid_markers_size s1" "\<not> IsNull (write_pointer s1)" "block_size s1 = block_size s"
    using ms_ok_first_block [OF assms] assms begin_id_nonneg [of "blocks s"]
    by (auto simp: s1_def ms_ok_defs ms_content_def marker_contents_def IsNull_def)
  have "bq_ok (blocks s1)" "write_ok (blocks s1) (write_pointer s1)"
      "block_id (write_pointer s1) + 1 = bq_end_id (blocks s1)"
    using s1 by (auto simp: ms_ok_defs)
  from write_loop_correct [OF this, of bs] obtain q' p' where
    wl: "write_loop s1 bs = Some (s1\<lparr>blocks := q', write_pointer := p', ms_size := ms_size s1 + length bs\<rparr>)"
    and g: "grew (blocks s1) bs q' p'" by blast
  let ?s' = "s1\<lparr>blocks := q', write_pointer := p', ms_size := ms_size s1 + length bs\<rparr>"
  have "?s' = ?s'\<lparr>invalid_markers_size := True\<rparr>" using s1(4) by simp
  then have "ms_ok ?s'" "ms_content ?s' = ms_content s @ bs"
      "marker_contents ?s' = map (\<lambda>x. x @ bs) (marker_contents s)"
    using ms_ok_grew [OF s1(1) g] s1(2,3) by simp_all
  moreover have "ms_Write s bs = Some (length bs, ?s')"
    using wl by (simp add: ms_Write_def s1_def Let_def)
  ultimately show ?thesis using that s1(6) by simp
qed

interpretation ms: byte_stream ms_content ms_ok ms_Read ms_Peek ms_Write
proof
  fix s bs assume "ms_ok s"
  then show "\<exists>s'. ms_Write s bs = Some (length bs, s') \<and> ms_content s' = ms_content s @ bs \<and> ms_ok s'"
    by (rule ms_Write_correct [of s bs]) blast
qed (simp_all add: ms_Read_correct ms_Peek_correct)

subsection \<open>Appending one stream to another\<close>

lemma ms_AppendNewBlock_correct:
  assumes "ms_ok s"
  obtains s' where "ms_AppendNewBlock s b i j = Some s'" and "ms_ok s'"
    and "ms_content s' = ms_content s @ take (j - i) (drop i (buffer b))"
    and "marker_contents s' = map (\<lambda>x. x @ take (j - i) (drop i (buffer b))) (marker_contents s)"
proof (cases "j - i > 0")
  case True
  then show ?thesis
    by (rule_tac ms_Write_correct [OF assms, of "take (j - i) (drop i (buffer b))"])
      (use that in \<open>simp add: ms_AppendNewBlock_def\<close>)
next
  case False
  with assms that [of s] show ?thesis by (simp add: ms_AppendNewBlock_def)
qed

text \<open>
  The loop over the source's blocks appends exactly the bytes between its two pointers:
  those seen from the first one, less those seen from the second one.
\<close>

lemma append_loop_correct:
  "ms_ok s \<Longrightarrow> bq_ok q \<Longrightarrow> ptr_ok q e \<Longrightarrow> ptr_ok q b \<or> block_id b = block_id e + 1 \<Longrightarrow>
   (block_id b = block_id e \<longrightarrow> pos b \<le> pos e) \<Longrightarrow> block_id b \<le> block_id e + 1 \<Longrightarrow>
   \<exists>s' c. append_loop s q b e = Some s' \<and> ms_ok s' \<and> ms_content s' = ms_content s @ c \<and>
     marker_contents s' = map (\<lambda>x. x @ c) (marker_contents s) \<and>
     (if block_id b \<le> block_id e then bytes_from q b = c @ bytes_from q e else c = [])"
proof (induction s q b e rule: append_loop.induct)
  case (1 s q b e)
  show ?case
  proof (cases "block_id b \<le> block_id e")
    case False
    with "1.prems" show ?thesis
      by (intro exI [of _ s] exI [of _ "[]"]) (simp add: append_loop.simps [of s q b e])
  next
    case True
    then have b: "ptr_ok q b" using "1.prems"(4) by auto
    define pe where "pe = (if block_id b = block_id e then pos e else db_size (ptr_block q b))"
    define c1 where "c1 = take (pe - pos b) (drop (pos b) (buffer (ptr_block q b)))"
    let ?b2 = "\<lparr>block_id = block_id b + 1, pos = 0\<rparr>"
    have pe: "pos b \<le> pe" "pe \<le> db_size (ptr_block q b)"
      using "1.prems"(3,5) b by (auto simp: pe_def ptr_ok_def)
    have c1: "c1 = take (pe - pos b) (bytes_from q b)"
      using bytes_from_take [OF "1.prems"(2) b, of "pe - pos b"] pe by (simp add: c1_def)
    have body: "\<exists>s1. (if pos b < pe then
           if pos b = 0 \<and> pe = buffer_size (ptr_block q b) then Some (ms_AppendBlock s (ptr_block q b))
           else ms_AppendNewBlock s (ptr_block q b) (pos b) pe
         else Some s) = Some s1 \<and> ms_ok s1 \<and> ms_content s1 = ms_content s @ c1 \<and>
         marker_contents s1 = map (\<lambda>x. x @ c1) (marker_contents s)"
    proof -
      consider (none) "\<not> pos b < pe" | (whole) "pos b < pe" "pos b = 0 \<and> pe = buffer_size (ptr_block q b)"
        | (part) "pos b < pe" "\<not> (pos b = 0 \<and> pe = buffer_size (ptr_block q b))" by blast
      then show ?thesis
      proof cases
        case none
        then show ?thesis using "1.prems"(1) by (simp add: c1_def)
      next
        case whole
        have "db_size (ptr_block q b) \<le> buffer_size (ptr_block q b)"
          using block_size_le [OF "1.prems"(2)] b by (simp add: ptr_ok_def)
        then have full: "db_size (ptr_block q b) = buffer_size (ptr_block q b)" using pe(2) whole(2) by simp
        then have "c1 = db_data (ptr_block q b)" using whole(2) by (simp add: c1_def db_data_def)
        with whole ms_AppendBlock_correct [OF "1.prems"(1) full] show ?thesis by simp
      next
        case part
        then show ?thesis
          by (rule_tac ms_AppendNewBlock_correct [OF "1.prems"(1), of "ptr_block q b" "pos b" pe])
            (auto simp: c1_def)
      qed
    qed
    then obtain s1 where s1: "(if pos b < pe then
           if pos b = 0 \<and> pe = buffer_size (ptr_block q b) then Some (ms_AppendBlock s (ptr_block q b))
           else ms_AppendNewBlock s (ptr_block q b) (pos b) pe
         else Some s) = Some s1" "ms_ok s1" "ms_content s1 = ms_content s @ c1"
         "marker_contents s1 = map (\<lambda>x. x @ c1) (marker_contents s)" by blast
    have step: "append_loop s q b e = append_loop s1 q ?b2 e"
      by (subst append_loop.simps)
        (simp only: True if_True Let_def pe_def [symmetric] s1(1) option.case)
    have b2: "ptr_ok q ?b2 \<or> block_id ?b2 = block_id e + 1" "block_id ?b2 \<le> block_id e + 1"
      using b True "1.prems"(3) by (auto simp: ptr_ok_def id_ok_def)
    have nz: "block_id ?b2 = block_id e \<longrightarrow> pos ?b2 \<le> pos e" by simp
    from "1.IH" [OF True refl pe_def s1(1) s1(2) "1.prems"(2,3) b2(1) nz b2(2)]
    obtain s' c2 where IH: "append_loop s1 q ?b2 e = Some s'" "ms_ok s'" "ms_content s' = ms_content s1 @ c2"
        "marker_contents s' = map (\<lambda>x. x @ c2) (marker_contents s1)"
        "if block_id ?b2 \<le> block_id e then bytes_from q ?b2 = c2 @ bytes_from q e else c2 = []"
      by blast
    have bytes: "bytes_from q b = c1 @ c2 @ bytes_from q e"
    proof (cases "block_id b = block_id e")
      case same: True
      then have "bytes_from q e = drop (pe - pos b) (bytes_from q b)"
        using pe(1) by (simp add: bytes_from_def pe_def)
      with IH(5) same c1 show ?thesis by simp
    next
      case diff: False
      then have "pe = db_size (ptr_block q b)" by (simp add: pe_def)
      then have "bytes_from q b = c1 @ bytes_from q ?b2"
        using bytes_from_split [OF "1.prems"(2) b] c1 b length_db_data [OF "1.prems"(2), of "block_id b"]
        by (simp add: ptr_ok_def bytes_from_start)
      with IH(5) diff True show ?thesis by auto
    qed
    show ?thesis
      using step IH(1,2,3,4) s1(3,4) True bytes
      by (intro exI [of _ s'] exI [of _ "c1 @ c2"]) simp
  qed
qed

lemma SkipToCurrentBlockEnd_id:
  "ms_ok s \<Longrightarrow> s\<lparr>write_pointer := SkipToCurrentBlockEnd (blocks s) (write_pointer s)\<rparr> = s"
  by (auto simp: SkipToCurrentBlockEnd_def ms_ok_defs write_ok_def)

lemma ms_AppendBetween_correct:
  assumes "ms_ok s" and "bq_ok q" and "ptr_ok q b" and "ptr_ok q e" and "ptr_less b e \<or> b = e"
  obtains s' c where "ms_AppendBetween s q b e = Some s'" and "ms_ok s'" and "ms_content s' = ms_content s @ c"
    and "marker_contents s' = map (\<lambda>x. x @ c) (marker_contents s)" and "bytes_from q b = c @ bytes_from q e"
proof (cases "ptr_less b e")
  case True
  then have le: "block_id b \<le> block_id e" "block_id b = block_id e \<longrightarrow> pos b \<le> pos e"
    by (auto simp: ptr_less_def split: if_splits)
  from append_loop_correct [OF assms(1,2,4) disjI1 [OF assms(3)] le(2)] le(1)
  obtain s' c where l: "append_loop s q b e = Some s'" "ms_ok s'" "ms_content s' = ms_content s @ c"
      "marker_contents s' = map (\<lambda>x. x @ c) (marker_contents s)" "bytes_from q b = c @ bytes_from q e" by auto
  have "ms_AppendBetween s q b e = Some s'"
    using True l(1) SkipToCurrentBlockEnd_id [OF l(2)] by (simp add: ms_AppendBetween_def)
  then show ?thesis using that l(2-5) by blast
next
  case False
  have "ms_AppendBetween s q b e = Some s"
    using False SkipToCurrentBlockEnd_id [OF assms(1)] by (simp add: ms_AppendBetween_def)
  then show ?thesis using that [of s "[]"] False assms(1,5) by auto
qed

lemma ptr_ok_le_write:
  assumes "ptr_ok q p" and "write_ok q w" and "block_id w + 1 = bq_end_id q"
  shows "ptr_less p w \<or> p = w"
  using assms by (cases p; cases w) (auto simp: ptr_ok_def id_ok_def write_ok_def ptr_less_def)

lemma Advance_le: "ptr_ok q b \<Longrightarrow> bq_ok q \<Longrightarrow> ptr_less b (snd (Advance q b (int n))) \<or> b = snd (Advance q b (int n))"
proof -
  have loop: "Advance_loop q p cb d = (r, p') \<Longrightarrow> ptr_less p p' \<or> p = p'" for q p cb d r p'
  proof (induction q p cb d arbitrary: r p' rule: Advance_loop.induct)
    case (1 q p cb d)
    note unf = Advance_loop.simps [of q p cb d]
    show ?case
    proof (cases "Advance_loop q p cb d = (d, p)")
      case False
      consider (nx) "cb > 0 \<or> pos p = db_size (ptr_block q p)" "pos p = db_size (ptr_block q p)"
          "\<not> bq_end_id q \<le> block_id p + 1"
        | (within) "cb > 0 \<or> pos p = db_size (ptr_block q p)" "pos p \<noteq> db_size (ptr_block q p)"
          "\<not> pos p > db_size (ptr_block q p)"
        using False unf by (auto split: if_splits)
      then show ?thesis
      proof cases
        case nx
        then have "Advance_loop q \<lparr>block_id = block_id p + 1, pos = 0\<rparr> cb d = (r, p')"
          using "1.prems" unf by simp
        from "1.IH"(1) [OF nx this] show ?thesis by (auto simp: ptr_less_def split: if_splits)
      next
        case within
        define n where "n = min (db_size (ptr_block q p) - pos p) cb"
        have "Advance_loop q (p\<lparr>pos := pos p + n\<rparr>) (cb - n) (d + n) = (r, p')"
          using "1.prems" unf within by (simp add: n_def Let_def)
        moreover have "0 < n" using within by (auto simp: n_def)
        ultimately have "ptr_less (p\<lparr>pos := pos p + n\<rparr>) p' \<or> p\<lparr>pos := pos p + n\<rparr> = p'"
          using "1.IH"(2) [OF within n_def] by blast
        with \<open>0 < n\<close> show ?thesis by (auto simp: ptr_less_def split: if_splits)
      qed
    qed (use "1.prems" in auto)
  qed
  show ?thesis using loop [of q b n 0] by (cases "Advance_loop q b n 0") (auto simp: Advance_def)
qed

lemma ms_AppendStreamNonDestructive_correct:
  fixes sz :: int
  assumes s: "ms_ok s" and buf: "ms_ok buf"
  defines "c \<equiv> (if sz < 0 then ms_content buf else take (nat sz) (ms_content buf))"
  obtains s' where "ms_AppendStreamNonDestructive s buf sz = Some s'" and "ms_ok s'"
    and "ms_content s' = ms_content s @ c"
    and "marker_contents s' = map (\<lambda>x. x @ c) (marker_contents s)"
proof (cases "IsNull (GetReadPointer buf) \<or> IsEmpty buf")
  case True
  then have "ms_content buf = []"
    using GetReadPointer_content(1) [OF buf] buf by (auto simp: IsEmpty_def ms_ok_def)
  then have "c = []" by (simp add: c_def)
  with that [of s] s True show ?thesis
    by (auto simp: ms_AppendStreamNonDestructive_def Let_def)
next
  case False
  let ?b = "GetReadPointer buf" and ?q = "blocks buf"
  define e where "e = (if sz \<ge> 0 then snd (Advance ?q ?b (int (min (nat sz) (ms_size buf)))) else write_pointer buf)"
  have b: "ptr_ok ?q ?b" "bytes_from ?q ?b = ms_content buf" "\<not> IsNull (write_pointer buf)"
    using GetReadPointer_content(2) [OF buf] False by auto
  have q: "bq_ok ?q" "ms_size buf = length (ms_content buf)" using buf by (auto simp: ms_ok_def)
  have w: "write_ok ?q (write_pointer buf)" "block_id (write_pointer buf) + 1 = bq_end_id ?q"
    using buf b(3) by (auto simp: ms_ok_defs)
  have wend: "bytes_from ?q (write_pointer buf) = []"
    using bytes_from_block_end [OF q(1), of "write_pointer buf"] w by (simp add: write_ok_def data_from_end)
  have e: "ptr_ok ?q e" "ptr_less ?b e \<or> ?b = e"
    using Advance_correct(3) [OF q(1) b(1)] Advance_le [OF b(1) q(1)] w ptr_ok_le_write [OF b(1) w]
    by (auto simp: e_def write_ok_def)
  have ebytes: "ms_content buf = c @ bytes_from ?q e"
    using Advance_correct(2) [OF q(1) b(1)] b(2) wend q(2)
    by (auto simp: e_def c_def min_def)
  obtain s' c' where r: "ms_AppendBetween s ?q ?b e = Some s'" "ms_ok s'" "ms_content s' = ms_content s @ c'"
      "marker_contents s' = map (\<lambda>x. x @ c') (marker_contents s)" "bytes_from ?q ?b = c' @ bytes_from ?q e"
    by (rule ms_AppendBetween_correct [OF s q(1) b(1) e])
  have "c' = c" using r(5) ebytes b(2) by simp
  with r that [of s'] False show ?thesis
    by (simp add: ms_AppendStreamNonDestructive_def e_def Let_def)
qed

lemma ms_AppendStream_correct:
  fixes sz :: int
  assumes s: "ms_ok s" and buf: "ms_ok buf"
  defines "n \<equiv> (if sz < 0 then length (ms_content buf) else nat sz)"
  obtains s' buf' where "ms_AppendStream s buf sz = Some (s', buf')" and "ms_ok s'" and "ms_ok buf'"
    and "ms_content s' = ms_content s @ take n (ms_content buf)"
    and "ms_content buf' = drop n (ms_content buf)"
    and "marker_contents s' = map (\<lambda>x. x @ take n (ms_content buf)) (marker_contents s)"
    and "marker_contents buf' = marker_contents buf"
proof -
  let ?m = "if sz \<ge> 0 \<and> nat sz < ms_size buf then nat sz else ms_size buf"
  have sz: "ms_size buf = length (ms_content buf)" using buf by (simp add: ms_ok_def)
  have d: "drop ?m (ms_content buf) = drop n (ms_content buf)" using sz by (auto simp: n_def)
  have t: "(if sz < 0 then ms_content buf else take (nat sz) (ms_content buf)) = take n (ms_content buf)"
    by (simp add: n_def)
  obtain s' where r: "ms_AppendStreamNonDestructive s buf sz = Some s'" "ms_ok s'"
      "ms_content s' = ms_content s @ take n (ms_content buf)"
      "marker_contents s' = map (\<lambda>x. x @ take n (ms_content buf)) (marker_contents s)"
    by (rule ms_AppendStreamNonDestructive_correct [OF s buf, of sz]) (simp only: t)
  show ?thesis
    by (rule that [of s' "snd (ms_Skip buf ?m)"])
      (use r ms_Skip_correct [OF buf, of ?m] d in \<open>simp_all add: ms_AppendStream_def\<close>)
qed

subsection \<open>Markers\<close>

lemma ms_MarkerSet_correct:
  assumes "ms_ok s"
  shows "ms_ok (ms_MarkerSet s)" and "ms_content (ms_MarkerSet s) = ms_content s"
    and "marker_contents (ms_MarkerSet s) = marker_contents s @ [ms_content s]"
proof -
  show "ms_content (ms_MarkerSet s) = ms_content s" by (simp add: ms_MarkerSet_def ms_content_def)
  show "marker_contents (ms_MarkerSet s) = marker_contents s @ [ms_content s]"
    by (simp add: ms_MarkerSet_def marker_contents_def ms_content_def)
  show "ms_ok (ms_MarkerSet s)"
    using assms by (auto simp: ms_MarkerSet_def ms_ok_defs ms_content_def ptr_content_def hd_append)
qed

lemma Distance_to_write:
  assumes "ms_ok s" and "ptr_ok (blocks s) (read_pointer s)"
  shows "Distance (blocks s) (read_pointer s) (write_pointer s) = length (ms_content s)"
proof -
  have nn: "\<not> IsNull (write_pointer s)" using assms by (auto simp: ms_ok_defs dest: ptr_ok_not_null)
  then have w: "write_ok (blocks s) (write_pointer s)" "block_id (write_pointer s) + 1 = bq_end_id (blocks s)"
    and q: "bq_ok (blocks s)" using assms(1) by (auto simp: ms_ok_defs)
  have nl: "\<not> ptr_less (write_pointer s) (read_pointer s)"
    using ptr_ok_le_write [OF assms(2) w] by (auto simp: ptr_less_def split: if_splits)
  have "bytes_from (blocks s) (write_pointer s) = []"
    using bytes_from_block_end [OF q, of "write_pointer s"] w by (simp add: write_ok_def data_from_end)
  with Distance_fwd_bytes [OF q assms(2) _ nl] w(1) nl ptr_content_ok [OF assms(2)] show ?thesis
    by (simp add: Distance_def write_ok_def ms_content_def)
qed

lemma markers_ok_butlast:
  assumes "ms_ok s" and "markers s \<noteq> []" and "block_id (snd (hd (markers s))) \<le> block_id m"
  shows "markers_ok (s\<lparr>read_pointer := m, ms_size := n, markers := butlast (markers s)\<rparr>)"
proof -
  have hd: "hd (butlast (markers s)) = hd (markers s)" if "butlast (markers s) \<noteq> []"
    using that by (rule hd_butlast)
  have "x \<in> set (markers s)" "butlast (markers s) \<noteq> []" if "x \<in> set (butlast (markers s))" for x
    using that by (auto dest: in_set_butlastD)
  moreover have "\<forall>x \<in> set (markers s). ptr_valid (blocks s) (snd x) \<and>
      block_id (snd (hd (markers s))) \<le> block_id (snd x) \<and>
      (\<not> invalid_markers_size s \<longrightarrow> fst x = length (ptr_content (blocks s) (snd x)))"
    using assms(1) by (simp add: ms_ok_def markers_ok_def)
  ultimately have "\<forall>x \<in> set (butlast (markers s)). ptr_valid (blocks s) (snd x) \<and>
      block_id (snd (hd (butlast (markers s)))) \<le> block_id (snd x) \<and>
      (\<not> invalid_markers_size s \<longrightarrow> fst x = length (ptr_content (blocks s) (snd x)))"
    using hd by metis
  with assms(3) hd show ?thesis by (simp add: markers_ok_def)
qed

lemma write_end_ok_butlast:
  assumes "ms_ok s" and "IsNull (write_pointer s) \<Longrightarrow> IsNull m"
  shows "write_end_ok (s\<lparr>read_pointer := m, ms_size := n, markers := butlast (markers s)\<rparr>)"
proof -
  have "\<forall>x \<in> set (butlast (markers s)). IsNull (snd x)" if "\<forall>x \<in> set (markers s). IsNull (snd x)"
    using that in_set_butlastD [of _ "markers s"] by blast
  with assms show ?thesis by (simp add: ms_ok_def write_end_ok_def split: if_splits)
qed

lemma ms_MarkerRestore_correct:
  assumes ok: "ms_ok s" and "markers s \<noteq> []"
  obtains s' where "ms_MarkerRestore s = Some s'" and "ms_ok s'"
    and "ms_content s' = last (marker_contents s)" and "marker_contents s' = butlast (marker_contents s)"
proof -
  obtain n m where nm: "last (markers s) = (n, m)" by force
  have last: "(n, m) \<in> set (markers s)" using nm assms(2) by (metis last_in_set)
  define c where "c = ptr_content (blocks s) m"
  let ?t = "s\<lparr>read_pointer := m, ms_size := length c, markers := butlast (markers s)\<rparr>"
  have mok: "ptr_valid (blocks s) m" "block_id (snd (hd (markers s))) \<le> block_id m"
      "\<not> invalid_markers_size s \<Longrightarrow> n = length c" "IsNull (write_pointer s) \<Longrightarrow> IsNull m"
    using ok last by (auto simp: ms_ok_defs c_def)
  have t: "ms_ok ?t" "ms_content ?t = c"
    using ok mok markers_ok_butlast [OF ok assms(2) mok(2)] write_end_ok_butlast [OF ok mok(4)]
    by (simp_all add: ms_ok_def ms_content_def c_def)
  have res: "marker_contents x = butlast (marker_contents s)"
    if "blocks x = blocks s" "markers x = butlast (markers s)" for x
    using that by (simp add: marker_contents_def map_butlast)
  have c: "c = last (marker_contents s)" using nm assms(2) by (simp add: c_def marker_contents_def last_map)
  show ?thesis
  proof (cases "invalid_markers_size s")
    case False
    then have "ms_MarkerRestore s = Some ?t" using assms(2) nm mok(3) by (simp add: ms_MarkerRestore_def)
    with t c res that show ?thesis by simp
  next
    case True
    let ?s1 = "s\<lparr>read_pointer := m\<rparr>"
    obtain b u where init: "MaybeInitReadPointer ?t = (b, u)" by force
    have mi: "MaybeInitReadPointer ?s1 =
        (b, u\<lparr>ms_size := ms_size s, markers := markers s\<rparr>)"
      using init by (auto simp: MaybeInitReadPointer_def split: if_splits)
    have u: "blocks u = blocks s" "markers u = butlast (markers s)" "write_pointer u = write_pointer s"
      using init by (auto simp: MaybeInitReadPointer_def split: if_splits)
    have ok_u: "ms_ok u" "ms_content u = c" "ms_size u = length c"
      using MaybeInit_True [OF t(1), of u] MaybeInit_False [OF t(1), of u] init t by (cases b; auto)+
    have dist: "Distance (blocks u) (read_pointer u) (write_pointer u) = length c"
    proof (cases b)
      case True
      with init have "ptr_ok (blocks u) (read_pointer u)" using MaybeInit_True [OF t(1), of u] by simp
      from Distance_to_write [OF ok_u(1) this] ok_u(2) show ?thesis by simp
    next
      case False
      with init MaybeInit_False [OF t(1), of u] have "u = ?t" "c = []" using t(2) by auto
      moreover have "IsNull m" "IsNull (write_pointer s)"
        using init False by (auto simp: MaybeInitReadPointer_def split: if_splits)
      ultimately show ?thesis using mok(1) ok
        by (simp add: ms_ok_defs Distance_def Distance_fwd_def ptr_less_def IsNull_def ptr_valid_def) 
    qed
    have "ms_MarkerRestore s = Some u"
      using assms(2) nm True mi dist ok_u(3) u by (simp add: ms_MarkerRestore_def Let_def)
    with ok_u c res [of u] u that show ?thesis by simp
  qed
qed

lemma ms_MarkerClear_correct:
  assumes ok: "ms_ok s" and "markers s \<noteq> []"
  obtains s' where "ms_MarkerClear s = Some s'" and "ms_ok s'"
    and "ms_content s' = ms_content s" and "marker_contents s' = butlast (marker_contents s)"
proof -
  let ?t = "s\<lparr>markers := butlast (markers s)\<rparr>"
  have t: "ms_ok ?t" "ms_content ?t = ms_content s"
    using ok assms(2) markers_ok_butlast [OF ok assms(2), of "read_pointer s" "ms_size s"]
      write_end_ok_butlast [OF ok, of "read_pointer s" "ms_size s"]
    by (auto simp: ms_ok_defs ms_content_def)
  have m: "marker_contents ?t = butlast (marker_contents s)" by (simp add: marker_contents_def map_butlast)
  show ?thesis
    using that [of "MaybeDisposeBlocks ?t"] MaybeDisposeBlocks_ok [OF t(1)] t(2) m assms(2)
    by (simp add: ms_MarkerClear_def)
qed

end
