(* ===== verification/MemoryStreamScan.thy ===== *)
theory MemoryStreamScan
  imports MemoryStream
begin

text \<open>
  The remaining readers of \<open>io::MemoryStream\<close> (\<open>src/whisperlib/io/buffer/memory_stream.cc\<close>):
  pieces (\<open>ReadNext\<close>, \<open>ReadForWritev\<close>), lines, tokens, the scratch space protocol and
  \<open>Equals\<close>. Each is characterised by what it does to the content of the stream.
\<close>

section \<open>Pieces\<close>

lemma ms_ReadNext_correct:
  assumes ok: "ms_ok s"
  obtains r s' where "ms_ReadNext s = Some (r, s')" and "ms_ok s'"
    and "marker_contents s' = marker_contents s"
    and "case r of None \<Rightarrow> ms_content s = [] \<and> ms_content s' = []
         | Some bs \<Rightarrow> bs \<noteq> [] \<and> ms_content s = bs @ ms_content s'"
proof -
  have sc: "IsNull (scratch_pointer s)" using ok by (simp add: ms_ok_def)
  obtain b s1 where init: "MaybeInitReadPointer s = (b, s1)" by force
  show ?thesis
  proof (cases b)
    case False
    with init MaybeInit_False [OF ok, of s1] ok sc that [of None s] show ?thesis
      by (simp add: ms_ReadNext_def)
  next
    case True
    then have init': "MaybeInitReadPointer s = (True, s1)" using init by simp
    note i = MaybeInit_True [OF ok init']
    define s2 where "s2 = MaybeDisposeBlocks s1"
    have s2: "ms_ok s2" "ms_content s2 = ms_content s" "marker_contents s2 = marker_contents s"
        "ptr_ok (blocks s2) (read_pointer s2)" "\<not> IsNull (write_pointer s2)"
      using MaybeDisposeBlocks_ok [OF i(1)] i by (simp_all add: s2_def MaybeDisposeBlocks_def)
    have q: "bq_ok (blocks s2)" and sz: "ms_size s2 = length (ms_content s2)"
      and c: "bytes_from (blocks s2) (read_pointer s2) = ms_content s2"
      using s2(1) ptr_content_ok [OF s2(4)] by (simp_all add: ms_ok_def ms_content_def)
    note rb = ReadBlock_correct [OF q s2(4), of 0]
    obtain r p where r: "ReadBlock (blocks s2) (read_pointer s2) 0 = (r, p)" by force
    show ?thesis
    proof (cases r)
      case None
      then have "p = read_pointer s2" "ms_content s2 = []" using rb(1) r c by auto
      then show ?thesis using that [of None s2] s2 r None init' sc
        by (simp add: ms_ReadNext_def s2_def [symmetric])
    next
      case (Some bs)
      then have bs: "bs \<noteq> []" "ms_content s2 = bs @ bytes_from (blocks s2) p" "ptr_ok (blocks s2) p"
          "block_id (read_pointer s2) \<le> block_id p" using rb(2) [of bs] r c by auto
      then have "bytes_from (blocks s2) p = drop (length bs) (ms_content s2)" by simp
      note m = ms_ok_move_read [OF s2(1) bs(3) s2(5) this, of "ms_size s2 - length bs"]
      show ?thesis
        by (rule that [of "Some bs" "s2\<lparr>read_pointer := p, ms_size := ms_size s2 - length bs\<rparr>"])
          (use m bs s2 r Some init' sc sz in \<open>simp_all add: ms_ReadNext_def s2_def [symmetric]\<close>)
    qed
  qed
qed

lemma writev_loop_correct:
  "bq_ok q \<Longrightarrow> ptr_ok q p \<Longrightarrow> writev_loop q p sz m v = (p', sz', v') \<Longrightarrow>
   \<exists>w. v' = v @ w \<and> bytes_from q p = concat w @ bytes_from q p' \<and> ptr_ok q p' \<and>
     block_id p \<le> block_id p' \<and> sz' = sz - length (concat w) \<and>
     (length (concat w) < m \<longrightarrow> bytes_from q p' = [])"
proof (induction q p sz m v arbitrary: p' sz' v' rule: writev_loop.induct)
  case (1 q p sz m v)
  obtain r p1 where r: "ReadBlock q p 0 = (r, p1)" by force
  note rb = ReadBlock_correct [OF "1.prems"(1,2), of 0]
  show ?case
  proof (cases "m > 0 \<and> r \<noteq> None")
    case False
    then show ?thesis using "1.prems" rb(1) r
      by (intro exI [of _ "[]"]) (auto simp: writev_loop.simps [of q p sz m v] split: if_splits)
  next
    case True
    then obtain bs where bs: "r = Some bs" by auto
    then have b: "bs \<noteq> []" "bytes_from q p = bs @ bytes_from q p1" "ptr_ok q p1" "block_id p \<le> block_id p1"
      using rb(2) [of bs] r by auto
    let ?m = "if length bs > m then 0 else m - length bs"
    have "writev_loop q p1 (sz - length bs) ?m (v @ [bs]) = (p', sz', v')"
      using "1.prems"(3) True r bs b(1) by (simp add: writev_loop.simps [of q p sz m v])
    from "1.IH" [OF _ r [symmetric] bs b(1) "1.prems"(1) b(3) this] True obtain w where
      "v' = (v @ [bs]) @ w" "bytes_from q p1 = concat w @ bytes_from q p'" "ptr_ok q p'"
      "block_id p1 \<le> block_id p'" "sz' = sz - length bs - length (concat w)"
      "length (concat w) < ?m \<longrightarrow> bytes_from q p' = []" by auto
    then show ?thesis using b by (intro exI [of _ "bs # w"]) (auto split: if_splits)
  qed
qed

lemma ms_ReadForWritev_correct:
  assumes ok: "ms_ok s"
  obtains v s' where "ms_ReadForWritev s m = Some (v, length (concat v), s')" and "ms_ok s'"
    and "marker_contents s' = marker_contents s" and "ms_content s = concat v @ ms_content s'"
    and "length (concat v) < m \<Longrightarrow> ms_content s' = []"
proof -
  have sc: "IsNull (scratch_pointer s)" using ok by (simp add: ms_ok_def)
  obtain b s1 where init: "MaybeInitReadPointer s = (b, s1)" by force
  show ?thesis
  proof (cases b)
    case False
    with init MaybeInit_False [OF ok, of s1] ok sc that [of "[]" s] show ?thesis
      by (simp add: ms_ReadForWritev_def)
  next
    case True
    then have init': "MaybeInitReadPointer s = (True, s1)" using init by simp
    note i = MaybeInit_True [OF ok init']
    define s2 where "s2 = MaybeDisposeBlocks s1"
    have s2: "ms_ok s2" "ms_content s2 = ms_content s" "marker_contents s2 = marker_contents s"
        "ptr_ok (blocks s2) (read_pointer s2)" "\<not> IsNull (write_pointer s2)"
      using MaybeDisposeBlocks_ok [OF i(1)] i by (simp_all add: s2_def MaybeDisposeBlocks_def)
    have q: "bq_ok (blocks s2)" and sz: "ms_size s2 = length (ms_content s2)"
      and c: "bytes_from (blocks s2) (read_pointer s2) = ms_content s2"
      using s2(1) ptr_content_ok [OF s2(4)] by (simp_all add: ms_ok_def ms_content_def)
    obtain p z v where w: "writev_loop (blocks s2) (read_pointer s2) (ms_size s2) m [] = (p, z, v)"
      by (metis prod_cases3)
    from writev_loop_correct [OF q s2(4) w] c have v:
      "ms_content s2 = concat v @ bytes_from (blocks s2) p" "ptr_ok (blocks s2) p"
      "block_id (read_pointer s2) \<le> block_id p" "z = ms_size s2 - length (concat v)"
      "length (concat v) < m \<longrightarrow> bytes_from (blocks s2) p = []" by auto
    then have d: "bytes_from (blocks s2) p = drop (length (concat v)) (ms_content s2)" by simp
    note mv = ms_ok_move_read [OF s2(1) v(2) s2(5) d, of z]
    show ?thesis
      by (rule that [of v "s2\<lparr>read_pointer := p, ms_size := z\<rparr>"])
        (use mv v s2 w init' sc sz in \<open>simp_all add: ms_ReadForWritev_def s2_def [symmetric] length_concat\<close>)
  qed
qed

section \<open>Lines and tokens\<close>

lemma diff_min: "(m::nat) - n = m - min n m"
  by simp

lemma read_line_by_correct:
  fixes fin prev :: byte
  assumes ok: "ms_ok s"
  defines "rl \<equiv> \<lambda>q p. ReadToChars q p fin prev"
  shows "ms_ok (snd (read_line_by rl s)) \<and> marker_contents (snd (read_line_by rl s)) = marker_contents s \<and>
    (case line_len fin prev 0 (ms_content s) of
       None \<Rightarrow> fst (read_line_by rl s) = None \<and> ms_content (snd (read_line_by rl s)) = ms_content s
     | Some n \<Rightarrow> fst (read_line_by rl s) = Some (take n (ms_content s)) \<and>
         ms_content (snd (read_line_by rl s)) = drop n (ms_content s))"
proof -
  obtain b s1 where init: "MaybeInitReadPointer s = (b, s1)" by force
  show ?thesis
  proof (cases b)
    case False
    with init MaybeInit_False [OF ok, of s1] ok show ?thesis by (simp add: read_line_by_def)
  next
    case True
    then have init': "MaybeInitReadPointer s = (True, s1)" using init by simp
    note i = MaybeInit_True [OF ok init']
    have q: "bq_ok (blocks s1)" and sz: "ms_size s1 = length (ms_content s1)"
      and c: "bytes_from (blocks s1) (read_pointer s1) = ms_content s"
      using i by (simp_all add: ms_ok_def)
    note rd = ReadToChars_correct [OF q i(3), of fin prev]
    show ?thesis
    proof (cases "line_len fin prev 0 (ms_content s)")
      case None
      with rd c i init' show ?thesis by (simp add: read_line_by_def rl_def)
    next
      case (Some n)
      note d = ReadData_correct [OF q i(3), of n] and n = line_len_le [OF Some]
      have "bytes_from (blocks s1) (snd (ReadData (blocks s1) (read_pointer s1) n)) = drop n (ms_content s1)"
        using d i(8) by simp
      note mv = ms_ok_move_read [OF i(1) d(3) i(9) this, of "ms_size s1 - n"]
      have "read_line_by rl s = (Some (take n (ms_content s)),
          s1\<lparr>read_pointer := snd (ReadData (blocks s1) (read_pointer s1) n), ms_size := ms_size s1 - n\<rparr>)"
        using rd c Some init' n by (simp add: read_line_by_def rl_def)
      with mv d n i sz Some show ?thesis by simp
    qed
  qed
qed

lemma read_line_by_eq:
  "ms_ReadLFLine = read_line_by (\<lambda>q p. ReadToChars q p 10 0)"
  "ms_ReadCRLFLine = read_line_by (\<lambda>q p. ReadToChars q p 10 13)"
  by (simp_all add: ms_ReadLFLine_def ms_ReadCRLFLine_def ptr_ReadLFLine_def [abs_def] ptr_ReadCRLFLine_def [abs_def])

lemmas ms_ReadLFLine_correct = read_line_by_correct [of _ 10 0, folded read_line_by_eq]
lemmas ms_ReadCRLFLine_correct = read_line_by_correct [of _ 10 13, folded read_line_by_eq]

lemma ms_ReadNextAsciiToken_correct:
  assumes ok: "ms_ok s"
  obtains k tok n s' where "scan_token [] 0 False 0 (ms_content s) = (k, tok, n)"
    and "ms_ReadNextAsciiToken s = (k, tok, s')" and "ms_ok s'"
    and "ms_content s' = drop n (ms_content s)" and "marker_contents s' = marker_contents s"
proof -
  obtain b s1 where init: "MaybeInitReadPointer s = (b, s1)" by force
  show ?thesis
  proof (cases b)
    case False
    with init MaybeInit_False [OF ok, of s1] ok that [of TOKEN_NO_DATA None 0 s] show ?thesis
      by (simp add: ms_ReadNextAsciiToken_def)
  next
    case True
    then have init': "MaybeInitReadPointer s = (True, s1)" using init by simp
    note i = MaybeInit_True [OF ok init']
    have q: "bq_ok (blocks s1)" and sz: "ms_size s1 = length (ms_content s1)"
      using i by (simp_all add: ms_ok_def)
    obtain k tok n p where t: "ptr_ReadNextAsciiToken (blocks s1) (read_pointer s1) = (k, tok, n, p)"
      by (metis prod_cases4)
    note d = ptr_ReadNextAsciiToken_correct [OF q i(3) t]
    have "bytes_from (blocks s1) p = drop n (ms_content s1)" using d i(8) by simp
    note mv = ms_ok_move_read [OF i(1) d(2) i(9) this _ d(4), of "ms_size s1 - n", OF diff_min]
    show ?thesis
      by (rule that [of k tok n "s1\<lparr>read_pointer := p, ms_size := ms_size s1 - n\<rparr>"])
        (use mv d i t init' sz in \<open>simp_all add: ms_ReadNextAsciiToken_def\<close>)
  qed
qed

section \<open>The scratch space\<close>

text \<open>
  \<open>GetScratchSpace\<close> hands out the free tail of the last block, the caller stores bytes
  there and \<open>ConfirmScratch\<close> says how many; together they are a write of these bytes.
\<close>

lemma Advance_in_block:
  assumes "n \<le> db_size (ptr_block q p) - pos p" and "pos p \<le> db_size (ptr_block q p)"
    and "block_id p + 1 \<ge> bq_end_id q"
  shows "snd (Advance q p (int n)) = p\<lparr>pos := pos p + n\<rparr>"
proof -
  have stop: "Advance_loop q (p\<lparr>pos := pos p + n\<rparr>) 0 d = (d, p\<lparr>pos := pos p + n\<rparr>)" for d
    using assms(3) by (simp add: Advance_loop.simps)
  show ?thesis
  proof (cases "n = 0")
    case True
    then show ?thesis using stop [of 0] by (simp add: Advance_def)
  next
    case False
    then have "pos p < db_size (ptr_block q p)" using assms(1) by simp
    with False have "Advance_loop q p n 0 = Advance_loop q (p\<lparr>pos := pos p + n\<rparr>) 0 n"
      using assms by (subst Advance_loop.simps) (simp add: min_absorb2 Let_def)
    with stop [of n] show ?thesis by (simp add: Advance_def)
  qed
qed

lemma bq_set_block_twice: "bq_set_block (bq_set_block q i a) i b = bq_set_block q i b"
  by (simp add: bq_set_block_def bq_index_def)

definition scratch_base :: "memory_stream \<Rightarrow> memory_stream" where
  "scratch_base s =
     (if IsNull (write_pointer s) \<or> AvailableForWrite (blocks s) (write_pointer s) = 0
      then let q = bq_push_back (blocks s) (new_DataBlock (block_size s))
           in s\<lparr>blocks := q, write_pointer := \<lparr>block_id = bq_end_id q - 1, pos = 0\<rparr>\<rparr>
      else s)"

lemma scratch_base_correct:
  assumes ok: "ms_ok s"
  shows "ms_ok ((scratch_base s)\<lparr>invalid_markers_size := True\<rparr>)"
    and "ms_content (scratch_base s) = ms_content s"
    and "marker_contents (scratch_base s) = marker_contents s"
    and "\<not> IsNull (write_pointer (scratch_base s))"
    and "0 < AvailableForWrite (blocks (scratch_base s)) (write_pointer (scratch_base s))"
proof -
  have q: "bq_ok (blocks s)" and bs: "0 < block_size s" using ok by (simp_all add: ms_ok_def)
  let ?q = "bq_push_back (blocks s) (new_DataBlock (block_size s))"
  have e: "bq_end_id ?q = bq_end_id (blocks s) + 1" "0 \<le> bq_end_id (blocks s)"
    using q begin_id_nonneg [of "blocks s"] by (auto simp: bq_ok_def bq_begin_id_def bq_end_id_def bq_push_back_def)
  have blk: "bq_block ?q (bq_end_id (blocks s)) = new_DataBlock (block_size s)"
    using q by (simp add: bq_block_push_back(2))
  note g = ms_ok_grew [OF ok grew_push_back [OF q, of "new_DataBlock (block_size s)"]]
  have same: "ms_ok (s\<lparr>invalid_markers_size := True\<rparr>)"
    using ok by (auto simp: ms_ok_defs ms_content_def)
  have cs: "ms_content (x\<lparr>invalid_markers_size := b\<rparr>) = ms_content x"
    "marker_contents (x\<lparr>invalid_markers_size := b\<rparr>) = marker_contents x" for x b
    by (simp_all add: ms_content_def marker_contents_def)
  show "ms_ok ((scratch_base s)\<lparr>invalid_markers_size := True\<rparr>)"
    using same g(1) by (simp add: scratch_base_def Let_def)
  show "ms_content (scratch_base s) = ms_content s" "marker_contents (scratch_base s) = marker_contents s"
    using g(2,3) by (simp_all add: scratch_base_def Let_def ms_content_def marker_contents_def)
  show "\<not> IsNull (write_pointer (scratch_base s))"
    "0 < AvailableForWrite (blocks (scratch_base s)) (write_pointer (scratch_base s))"
    using e blk bs by (auto simp: scratch_base_def Let_def IsNull_def AvailableForWrite_def)
qed

lemma ms_scratch_correct:
  assumes ok: "ms_ok s"
  obtains n s1 where "ms_GetScratchSpace s = Some (n, s1)" and "0 < n"
    and "\<And>bs. length bs \<le> n \<Longrightarrow> \<exists>s2. ms_ConfirmScratch (ms_fill_scratch s1 bs) (length bs) = Some s2 \<and>
           ms_ok s2 \<and> ms_content s2 = ms_content s @ bs \<and>
           marker_contents s2 = map (\<lambda>x. x @ bs) (marker_contents s)"
proof -
  define t where "t = (scratch_base s)\<lparr>invalid_markers_size := True\<rparr>"
  define q p where "q = blocks t" and "p = write_pointer t"
  note b = scratch_base_correct [OF ok]
  have t: "ms_ok t" "ms_content t = ms_content s" "marker_contents t = marker_contents s"
      "\<not> IsNull p" "0 < AvailableForWrite q p"
    using b by (simp_all add: t_def q_def p_def ms_content_def marker_contents_def)
  have q: "bq_ok q" and w: "write_ok q p" "block_id p + 1 = bq_end_id q"
    using t(1,4) by (auto simp: ms_ok_defs q_def p_def)
  have id: "id_ok q (block_id p)" and pe: "pos p = db_size (ptr_block q p)"
    using w by (auto simp: write_ok_def ptr_ok_def)
  define n where "n = buffer_size (ptr_block q p) - pos p"
  let ?full = "(ptr_block q p)\<lparr>db_size := buffer_size (ptr_block q p)\<rparr>"
  define s1 where "s1 = t\<lparr>scratch_pointer := p, blocks := bq_set_block q (block_id p) ?full,
    write_pointer := p\<lparr>pos := buffer_size (ptr_block q p)\<rparr>\<rparr>"
  have sc: "IsNull (scratch_pointer s)" using ok by (simp add: ms_ok_def)
  have get: "ms_GetScratchSpace s = Some (n, s1)"
    using sc t(4) by (simp add: ms_GetScratchSpace_def scratch_base_def [symmetric] AdvanceToCurrentBlockEnd_def
        Let_def s1_def n_def t_def q_def p_def)
  have n0: "0 < n" using t(4,5) by (simp add: n_def AvailableForWrite_def)
  have conf: "\<exists>s2. ms_ConfirmScratch (ms_fill_scratch s1 bs) (length bs) = Some s2 \<and>
           ms_ok s2 \<and> ms_content s2 = ms_content s @ bs \<and>
           marker_contents s2 = map (\<lambda>x. x @ bs) (marker_contents s)" if len: "length bs \<le> n" for bs
  proof -
    let ?p' = "p\<lparr>pos := pos p + length bs\<rparr>"
    let ?q' = "bq_set_block q (block_id p) (write_into (ptr_block q p) (pos p) bs)"
    let ?c = "?full\<lparr>buffer := memcpy_at (buffer (ptr_block q p)) (pos p) bs\<rparr>"
    have fill: "ms_fill_scratch s1 bs = s1\<lparr>blocks := bq_set_block q (block_id p) ?c\<rparr>"
      using id by (simp add: ms_fill_scratch_def s1_def bq_block_set_block bq_set_block_twice Let_def)
    have blk: "ptr_block (bq_set_block q (block_id p) ?c) p = ?c" using id by (simp add: bq_block_set_block)
    have "db_size (ptr_block q p) \<le> buffer_size (ptr_block q p)" using block_size_le [OF q id] .
    then have adv: "snd (Advance (bq_set_block q (block_id p) ?c) p (int (length bs))) = ?p'"
      using len blk w(2) pe by (intro Advance_in_block) (auto simp: n_def)
    have mark: "MarkCurrentBlockEndAtPointer (bq_set_block q (block_id p) ?c) ?p' = ?q'"
      using blk pe by (simp add: MarkCurrentBlockEndAtPointer_def bq_set_block_twice write_into_def)
    have g: "grew q bs ?q' ?p'"
      using len w id by (intro grew_wrote [OF wrote_into_block [OF q w(1)]]) (simp_all add: n_def)
    note gr = ms_ok_grew [OF t(1) g [unfolded q_def], folded q_def]
    have "ms_ConfirmScratch (ms_fill_scratch s1 bs) (length bs) =
        Some (t\<lparr>blocks := ?q', write_pointer := ?p', ms_size := ms_size t + length bs, invalid_markers_size := True,
          scratch_pointer := dbp_null\<rparr>)"
      using t(4) adv mark unfolding fill by (simp add: ms_ConfirmScratch_def s1_def Let_def)
    moreover have "ms_ok x \<Longrightarrow> ms_ok (x\<lparr>scratch_pointer := dbp_null\<rparr>)"
        "ms_content (x\<lparr>scratch_pointer := dbp_null\<rparr>) = ms_content x"
        "marker_contents (x\<lparr>scratch_pointer := dbp_null\<rparr>) = marker_contents x" for x
      by (simp_all add: ms_ok_defs ms_content_def marker_contents_def)
    ultimately show ?thesis using gr t(2,3) by simp
  qed
  from that [OF get n0 conf] show ?thesis .
qed

section \<open>Comparison\<close>

lemma equals_loop_correct:
  assumes "ms_ok a" and "ms_ok b"
  shows "\<exists>r a' b'. equals_loop a b = Some (r, a', b') \<and> (r \<longleftrightarrow> ms_content a = ms_content b) \<and>
    ms_ok a' \<and> ms_ok b' \<and> marker_contents a' = marker_contents a \<and> marker_contents b' = marker_contents b"
  using assms
proof (induction "length (ms_content a)" arbitrary: a b rule: less_induct)
  case less
  note ra = ms_Read_correct [OF less.prems(1), of 128] and rb = ms_Read_correct [OF less.prems(2), of 128]
  let ?a1 = "snd (ms_Read a 128)" and ?b1 = "snd (ms_Read b 128)"
  let ?x = "fst (ms_Read a 128)" and ?y = "fst (ms_Read b 128)"
  have guard: "\<not> (length ?x \<noteq> 128 \<and> \<not> IsEmpty ?a1)" "\<not> (length ?y \<noteq> 128 \<and> \<not> IsEmpty ?b1)"
    using ra rb by (auto simp: ms_ok_def IsEmpty_def)
  have step: "equals_loop a b = (if ?x \<noteq> ?y then Some (False, ?a1, ?b1)
      else if ?x = [] then Some (True, ?a1, ?b1) else equals_loop ?a1 ?b1)"
    by (subst equals_loop.simps) (simp only: split_beta guard if_False)
  have eq: "ms_content a = ?x @ ms_content ?a1" "ms_content b = ?y @ ms_content ?b1" using ra rb by simp_all
  show ?case
  proof (cases "?x = ?y \<and> ?x \<noteq> []")
    case True
    have "length (ms_content a) = length ?x + length (ms_content ?a1)"
      using arg_cong [OF eq(1), of length] by simp
    with True have "length (ms_content ?a1) < length (ms_content a)" by auto
    from less.hyps [OF this ra(3) rb(3)] obtain r a' b' where
      ih: "equals_loop ?a1 ?b1 = Some (r, a', b')" "r \<longleftrightarrow> ms_content ?a1 = ms_content ?b1" "ms_ok a'" "ms_ok b'"
        "marker_contents a' = marker_contents ?a1" "marker_contents b' = marker_contents ?b1" by blast
    have "ms_content a = ms_content b \<longleftrightarrow> ms_content ?a1 = ms_content ?b1"
      using True eq by (metis same_append_eq)
    moreover have "equals_loop a b = equals_loop ?a1 ?b1" using True step by auto
    ultimately show ?thesis using ih ra(4) rb(4) by simp
  next
    case False
    have "equals_loop a b = Some (?x = ?y, ?a1, ?b1)" using False step by auto
    moreover have "?x = ?y \<longleftrightarrow> ms_content a = ms_content b"
    proof
      assume "?x = ?y"
      then have "?x = []" "?y = []" using False by auto
      then show "ms_content a = ms_content b" using ra(1) rb(1) by simp
    qed (simp add: ra(1) rb(1))
    ultimately show ?thesis using ra(3,4) rb(3,4) by blast
  qed
qed

lemma ms_Equals_correct:
  assumes a: "ms_ok a" and b: "ms_ok b"
  obtains a' b' where "ms_Equals a b = Some (ms_content a = ms_content b, a', b')"
    and "ms_ok a'" and "ms_ok b'" and "ms_content a' = ms_content a" and "ms_content b' = ms_content b"
    and "marker_contents a' = marker_contents a" and "marker_contents b' = marker_contents b"
proof (cases "ms_size a = ms_size b")
  case False
  then have "ms_content a \<noteq> ms_content b" using a b by (auto simp: ms_ok_def)
  with False that [of a b] a b show ?thesis by (simp add: ms_Equals_def)
next
  case True
  note ma = ms_MarkerSet_correct [OF a] and mb = ms_MarkerSet_correct [OF b]
  from equals_loop_correct [OF ma(1) mb(1)] obtain a1 b1 where
    el: "equals_loop (ms_MarkerSet a) (ms_MarkerSet b) = Some (ms_content a = ms_content b, a1, b1)"
    and ok1: "ms_ok a1" "ms_ok b1"
    and mc: "marker_contents a1 = marker_contents a @ [ms_content a]"
      "marker_contents b1 = marker_contents b @ [ms_content b]"
    using ma mb by auto
  then have "markers a1 \<noteq> []" "markers b1 \<noteq> []" by (metis marker_contents_Nil snoc_eq_iff_butlast)+
  then obtain a2 b2 where "ms_MarkerRestore a1 = Some a2" "ms_MarkerRestore b1 = Some b2"
      "ms_ok a2" "ms_ok b2" "ms_content a2 = ms_content a" "ms_content b2 = ms_content b"
      "marker_contents a2 = marker_contents a" "marker_contents b2 = marker_contents b"
    using ms_MarkerRestore_correct [OF ok1(1)] ms_MarkerRestore_correct [OF ok1(2)] mc
    by (metis butlast_snoc last_snoc)
  with el True that show ?thesis by (simp add: ms_Equals_def)
qed

end
