(* ===== verification/StreamProps.thy ===== *)
theory StreamProps
  imports MemoryStreamScan
begin

text \<open>
  What \<open>io::MemoryStream\<close> and \<open>BaseNumStreamer\<close> promise their clients. The stream is
  compared, over arbitrary sequences of calls, with an abstract stream that is just a
  byte sequence and a stack of saved byte sequences (the markers); the locale
  \<open>marked_stream\<close> extends the \<open>byte_stream\<close> interface by the markers and is interpreted
  on the model of the class; the numbers written by the streamer are read back.
\<close>

section \<open>The abstract stream\<close>

datatype ms_op =
    OpWrite bytes | OpAppendRaw bytes | OpRead nat | OpPeek nat | OpSkip nat | OpReadString int
  | OpMarkerSet | OpMarkerRestore | OpMarkerClear | OpClear
  | OpReadLFLine | OpReadCRLFLine | OpReadLine | OpReadNextAsciiToken | OpEquals bytes

datatype ms_out =
    OutUnit | OutBytes bytes | OutCount nat | OutLine "bytes option"
  | OutToken TokenReadError "bytes option" | OutBool bool

text \<open>
  One call on the modelled class. \<open>OpEquals\<close> compares with another stream, which is
  filled with the given bytes first.
\<close>

definition ms_equals_bytes :: "memory_stream \<Rightarrow> bytes \<Rightarrow> (bool \<times> memory_stream) option" where
  "ms_equals_bytes s bs =
     Option.bind (ms_new 128) (\<lambda>t.
       Option.bind (ms_Write t bs) (\<lambda>(n, t1).
         map_option (\<lambda>(r, s1, t2). (r, s1)) (ms_Equals s t1)))"

fun ms_exec :: "ms_op \<Rightarrow> memory_stream \<Rightarrow> (ms_out \<times> memory_stream) option" where
  "ms_exec (OpWrite bs) s = map_option (apfst OutCount) (ms_Write s bs)"
| "ms_exec (OpAppendRaw bs) s = map_option (Pair OutUnit) (ms_AppendRaw s bs)"
| "ms_exec (OpRead n) s = Some (apfst OutBytes (ms_Read s n))"
| "ms_exec (OpPeek n) s = Some (OutBytes (ms_Peek s n), s)"
| "ms_exec (OpSkip n) s = Some (apfst OutCount (ms_Skip s n))"
| "ms_exec (OpReadString n) s = Some (apfst OutBytes (ms_ReadString s n))"
| "ms_exec OpMarkerSet s = Some (OutUnit, ms_MarkerSet s)"
| "ms_exec OpMarkerRestore s = map_option (Pair OutUnit) (ms_MarkerRestore s)"
| "ms_exec OpMarkerClear s = map_option (Pair OutUnit) (ms_MarkerClear s)"
| "ms_exec OpClear s = map_option (Pair OutUnit) (ms_Clear s)"
| "ms_exec OpReadLFLine s = Some (apfst OutLine (ms_ReadLFLine s))"
| "ms_exec OpReadCRLFLine s = Some (apfst OutLine (ms_ReadCRLFLine s))"
| "ms_exec OpReadLine s = Some (apfst OutLine (ms_ReadLine s))"
| "ms_exec OpReadNextAsciiToken s =
     (case ms_ReadNextAsciiToken s of (k, tok, s') \<Rightarrow> Some (OutToken k tok, s'))"
| "ms_exec (OpEquals bs) s = map_option (apfst OutBool) (ms_equals_bytes s bs)"

text \<open>
  The same call on the abstract stream: the unread bytes and the bytes every marker would
  restore, newest marker last. Writing appends to both.
\<close>

definition spec_line :: "byte \<Rightarrow> bytes \<Rightarrow> bytes option \<times> bytes" where
  "spec_line prev c =
     (case line_len 10 prev 0 c of None \<Rightarrow> (None, c) | Some n \<Rightarrow> (Some (take n c), drop n c))"

fun spec_exec :: "ms_op \<Rightarrow> bytes \<times> bytes list \<Rightarrow> (ms_out \<times> bytes \<times> bytes list) option" where
  "spec_exec (OpWrite bs) (c, m) = Some (OutCount (length bs), c @ bs, map (\<lambda>x. x @ bs) m)"
| "spec_exec (OpAppendRaw bs) (c, m) =
     (if bs = [] then None else Some (OutUnit, c @ bs, map (\<lambda>x. x @ bs) m))"
| "spec_exec (OpRead n) (c, m) = Some (OutBytes (take n c), drop n c, m)"
| "spec_exec (OpPeek n) (c, m) = Some (OutBytes (take n c), c, m)"
| "spec_exec (OpSkip n) (c, m) = Some (OutCount (min n (length c)), drop n c, m)"
| "spec_exec (OpReadString n) (c, m) =
     (if n < 0 then Some (OutBytes c, [], m) else Some (OutBytes (take (nat n) c), drop (nat n) c, m))"
| "spec_exec OpMarkerSet (c, m) = Some (OutUnit, c, m @ [c])"
| "spec_exec OpMarkerRestore (c, m) = (if m = [] then None else Some (OutUnit, last m, butlast m))"
| "spec_exec OpMarkerClear (c, m) = (if m = [] then None else Some (OutUnit, c, butlast m))"
| "spec_exec OpClear (c, m) = (if m = [] then Some (OutUnit, [], []) else None)"
| "spec_exec OpReadLFLine (c, m) = (case spec_line 0 c of (l, c') \<Rightarrow> Some (OutLine l, c', m))"
| "spec_exec OpReadCRLFLine (c, m) = (case spec_line 13 c of (l, c') \<Rightarrow> Some (OutLine l, c', m))"
| "spec_exec OpReadLine (c, m) =
     (case spec_line 13 c of (l, c') \<Rightarrow> Some (OutLine (map_option strip_crlf l), c', m))"
| "spec_exec OpReadNextAsciiToken (c, m) =
     (case scan_token [] 0 False 0 c of (k, tok, n) \<Rightarrow> Some (OutToken k tok, drop n c, m))"
| "spec_exec (OpEquals bs) (c, m) = Some (OutBool (c = bs), c, m)"

fun run_ops :: "('op \<Rightarrow> 's \<Rightarrow> ('out \<times> 's) option) \<Rightarrow> 'op list \<Rightarrow> 's \<Rightarrow> ('out list \<times> 's) option" where
  "run_ops ex [] s = Some ([], s)"
| "run_ops ex (op # ops) s =
     Option.bind (ex op s) (\<lambda>(r, s1). map_option (apfst (Cons r)) (run_ops ex ops s1))"

definition ms_abs :: "memory_stream \<Rightarrow> bytes \<times> bytes list" where
  "ms_abs s = (ms_content s, marker_contents s)"

section \<open>Every call refines the abstract one\<close>

definition refines :: "(ms_out \<times> memory_stream) option \<Rightarrow> (ms_out \<times> bytes \<times> bytes list) option \<Rightarrow> bool" where
  "refines x y \<longleftrightarrow> map_option (apsnd ms_abs) x = y \<and> (\<forall>r s. x = Some (r, s) \<longrightarrow> ms_ok s)"

lemma refinesI: "x = Some (r, s) \<Longrightarrow> ms_ok s \<Longrightarrow> y = Some (r, ms_abs s) \<Longrightarrow> refines x y"
  by (simp add: refines_def)

lemma refines_apfst:
  "ms_ok (snd x) \<Longrightarrow> y = Some (f (fst x), ms_abs (snd x)) \<Longrightarrow> refines (Some (apfst f x)) y"
  by (cases x) (simp add: refines_def)

lemma refines_None [simp]: "refines None None"
  by (simp add: refines_def)

lemma ms_ReadString_correct:
  assumes "ms_ok s"
  shows "fst (ms_ReadString s n) = (if n < 0 then ms_content s else take (nat n) (ms_content s))"
    and "ms_content (snd (ms_ReadString s n)) = (if n < 0 then [] else drop (nat n) (ms_content s))"
    and "ms_ok (snd (ms_ReadString s n))" and "marker_contents (snd (ms_ReadString s n)) = marker_contents s"
  using ms_Read_correct [OF assms] assms by (simp_all add: ms_ReadString_def ms_ok_def)

lemma ms_AppendRaw_correct:
  assumes "ms_ok s" and "bs \<noteq> []"
  obtains s' where "ms_AppendRaw s bs = Some s'" and "ms_ok s'" and "ms_content s' = ms_content s @ bs"
    and "marker_contents s' = map (\<lambda>x. x @ bs) (marker_contents s)"
  using ms_AppendBlock_correct [OF assms(1), of "raw_DataBlock bs"] assms(2)
  by (simp add: ms_AppendRaw_def raw_DataBlock_def db_data_def)

lemma read_line_spec:
  fixes prev :: byte
  assumes "ms_ok s" and "f = read_line_by (\<lambda>q p. ReadToChars q p 10 prev)"
  shows "ms_ok (snd (f s))" and "marker_contents (snd (f s)) = marker_contents s"
    and "(fst (f s), ms_content (snd (f s))) = spec_line prev (ms_content s)"
  using read_line_by_correct [OF assms(1), of 10 prev] assms(2)
  by (auto simp: spec_line_def split: option.splits)

lemma ms_equals_bytes_correct:
  assumes "ms_ok s"
  obtains s' where "ms_equals_bytes s bs = Some (ms_content s = bs, s')" and "ms_ok s'"
    and "ms_content s' = ms_content s" and "marker_contents s' = marker_contents s"
proof -
  obtain t where t: "ms_new 128 = Some t" using ms_new_Some [of 128] by auto
  note t' = ms_new_ok [OF t]
  then obtain t1 where t1: "ms_Write t bs = Some (length bs, t1)" "ms_ok t1" "ms_content t1 = bs"
    using ms_Write_correct [of t bs] by auto
  from ms_Equals_correct [OF assms t1(2)] obtain s' t2 where
    "ms_Equals s t1 = Some (ms_content s = ms_content t1, s', t2)" "ms_ok s'"
    "ms_content s' = ms_content s" "marker_contents s' = marker_contents s" by metis
  with t t1 that show ?thesis by (simp add: ms_equals_bytes_def)
qed

lemma ms_exec_lines:
  assumes "ms_ok s"
  shows "refines (ms_exec OpReadLFLine s) (spec_exec OpReadLFLine (ms_abs s))"
    and "refines (ms_exec OpReadCRLFLine s) (spec_exec OpReadCRLFLine (ms_abs s))"
    and "refines (ms_exec OpReadLine s) (spec_exec OpReadLine (ms_abs s))"
proof -
  note lf = read_line_spec [OF assms read_line_by_eq(1)] and crlf = read_line_spec [OF assms read_line_by_eq(2)]
  show "refines (ms_exec OpReadLFLine s) (spec_exec OpReadLFLine (ms_abs s))"
    using lf by (auto intro!: refines_apfst simp: ms_abs_def split: prod.splits)
  show "refines (ms_exec OpReadCRLFLine s) (spec_exec OpReadCRLFLine (ms_abs s))"
    using crlf by (auto intro!: refines_apfst simp: ms_abs_def split: prod.splits)
  show "refines (ms_exec OpReadLine s) (spec_exec OpReadLine (ms_abs s))"
    using crlf by (auto intro!: refines_apfst simp: ms_abs_def ms_ReadLine_def split: prod.splits)
qed

lemma ms_exec_refines:
  assumes ok: "ms_ok s"
  shows "refines (ms_exec op s) (spec_exec op (ms_abs s))"
proof (cases op)
  case (OpWrite bs)
  obtain s' where "ms_Write s bs = Some (length bs, s')" "ms_ok s'" "ms_content s' = ms_content s @ bs"
      "marker_contents s' = map (\<lambda>x. x @ bs) (marker_contents s)"
    using ms_Write_correct [OF ok, of bs] by metis
  with OpWrite show ?thesis by (simp add: refines_def ms_abs_def)
next
  case (OpAppendRaw bs)
  show ?thesis
  proof (cases "bs = []")
    case False
    then obtain s' where "ms_AppendRaw s bs = Some s'" "ms_ok s'" "ms_content s' = ms_content s @ bs"
        "marker_contents s' = map (\<lambda>x. x @ bs) (marker_contents s)"
      using ms_AppendRaw_correct [OF ok, of bs] by metis
    with False OpAppendRaw show ?thesis by (simp add: refines_def ms_abs_def)
  qed (simp add: OpAppendRaw ms_AppendRaw_def ms_abs_def)
next
  case (OpRead n)
  then show ?thesis using ms_Read_correct [OF ok, of n] by (simp add: refines_apfst ms_abs_def)
next
  case (OpPeek n)
  then show ?thesis using ms_Peek_correct [OF ok, of n] ok by (simp add: refines_def ms_abs_def)
next
  case (OpSkip n)
  then show ?thesis using ms_Skip_correct [OF ok, of n] by (simp add: refines_apfst ms_abs_def)
next
  case (OpReadString n)
  then show ?thesis using ms_ReadString_correct [OF ok, of n] by (simp add: refines_apfst ms_abs_def)
next
  case OpMarkerSet
  then show ?thesis using ms_MarkerSet_correct [OF ok] by (simp add: refines_def ms_abs_def)
next
  case OpMarkerRestore
  show ?thesis
  proof (cases "markers s = []")
    case False
    then obtain s' where "ms_MarkerRestore s = Some s'" "ms_ok s'" "ms_content s' = last (marker_contents s)"
        "marker_contents s' = butlast (marker_contents s)"
      using ms_MarkerRestore_correct [OF ok] by metis
    with False OpMarkerRestore show ?thesis by (simp add: refines_def ms_abs_def)
  qed (simp add: OpMarkerRestore ms_MarkerRestore_def ms_abs_def)
next
  case OpMarkerClear
  show ?thesis
  proof (cases "markers s = []")
    case False
    then obtain s' where "ms_MarkerClear s = Some s'" "ms_ok s'" "ms_content s' = ms_content s"
        "marker_contents s' = butlast (marker_contents s)"
      using ms_MarkerClear_correct [OF ok] by metis
    with False OpMarkerClear show ?thesis by (simp add: refines_def ms_abs_def)
  qed (simp add: OpMarkerClear ms_MarkerClear_def ms_abs_def)
next
  case OpClear
  show ?thesis
  proof (cases "markers s = []")
    case True
    from ms_Clear_ok [OF ok True] obtain s' where
      "ms_Clear s = Some s'" "ms_ok s'" "ms_content s' = []" "markers s' = []" by metis
    with OpClear True show ?thesis by (simp add: refines_def ms_abs_def)
  qed (simp add: OpClear refines_def ms_abs_def ms_Clear_def)
next
  case OpReadNextAsciiToken
  from ms_ReadNextAsciiToken_correct [OF ok] obtain k tok n s' where
    "scan_token [] 0 False 0 (ms_content s) = (k, tok, n)" "ms_ReadNextAsciiToken s = (k, tok, s')"
    "ms_ok s'" "ms_content s' = drop n (ms_content s)" "marker_contents s' = marker_contents s" by metis
  with OpReadNextAsciiToken show ?thesis by (simp add: refines_def ms_abs_def)
next
  case (OpEquals bs)
  obtain s' where "ms_equals_bytes s bs = Some (ms_content s = bs, s')" "ms_ok s'"
      "ms_content s' = ms_content s" "marker_contents s' = marker_contents s"
    using ms_equals_bytes_correct [OF ok, of bs] by metis
  with OpEquals show ?thesis by (simp add: refines_def ms_abs_def)
qed (use ms_exec_lines [OF ok] in simp_all)

lemma run_ops_refines:
  assumes "ms_ok s"
  shows "map_option (apsnd ms_abs) (run_ops ms_exec ops s) = run_ops spec_exec ops (ms_abs s) \<and>
    (\<forall>r t. run_ops ms_exec ops s = Some (r, t) \<longrightarrow> ms_ok t)"
  using assms
proof (induction ops arbitrary: s)
  case (Cons op ops)
  note st = ms_exec_refines [OF Cons.prems, of op]
  show ?case
  proof (cases "ms_exec op s")
    case None
    then have "spec_exec op (ms_abs s) = None" using st by (simp add: refines_def)
    then show ?thesis using None by simp
  next
    case (Some p)
    obtain r t where p: "p = (r, t)" by force
    have "ms_ok t" "spec_exec op (ms_abs s) = Some (r, ms_abs t)"
      using st Some p by (auto simp: refines_def)
    moreover from this(1) Cons.IH [of t]
    have ih: "run_ops spec_exec ops (ms_abs t) = map_option (apsnd ms_abs) (run_ops ms_exec ops t)"
      and "\<forall>r t'. run_ops ms_exec ops t = Some (r, t') \<longrightarrow> ms_ok t'" by auto
    ultimately show ?thesis using Some p
      by (auto simp: ih option.map_comp o_def apfst_def apsnd_def map_prod_def split_beta)
  qed
qed simp


definition demo_ops :: "ms_op list" where
  "demo_ops = [OpWrite [1, 2, 3, 4, 5], OpMarkerSet, OpRead 3, OpWrite [6], OpMarkerRestore, OpRead 10]"


section \<open>Markers\<close>

text \<open>
  The interface the look-ahead parsers of the library use: set a marker, read, and either
  restore the marker or drop it.
\<close>

locale marked_stream = byte_stream content inv rd pk wr
  for content :: "'s \<Rightarrow> bytes" and inv and rd and pk and wr +
  fixes saved :: "'s \<Rightarrow> bytes list"
    and mset :: "'s \<Rightarrow> 's" and mrestore :: "'s \<Rightarrow> 's option" and mclear :: "'s \<Rightarrow> 's option"
  assumes rd_saved: "inv s \<Longrightarrow> saved (snd (rd s n)) = saved s"
    and wr_saved: "inv s \<Longrightarrow> wr s bs = Some (k, s') \<Longrightarrow> saved s' = map (\<lambda>x. x @ bs) (saved s)"
    and mset_spec: "inv s \<Longrightarrow> inv (mset s) \<and> content (mset s) = content s \<and> saved (mset s) = saved s @ [content s]"
    and mrestore_spec: "inv s \<Longrightarrow> saved s \<noteq> [] \<Longrightarrow>
      \<exists>s'. mrestore s = Some s' \<and> inv s' \<and> content s' = last (saved s) \<and> saved s' = butlast (saved s)"
    and mclear_spec: "inv s \<Longrightarrow> saved s \<noteq> [] \<Longrightarrow>
      \<exists>s'. mclear s = Some s' \<and> inv s' \<and> content s' = content s \<and> saved s' = butlast (saved s)"
begin

lemma reads_saved:
  "inv s \<Longrightarrow> inv (foldl (\<lambda>t n. snd (rd t n)) s ns) \<and> saved (foldl (\<lambda>t n. snd (rd t n)) s ns) = saved s \<and>
   content (foldl (\<lambda>t n. snd (rd t n)) s ns) = drop (sum_list ns) (content s)"
  by (induction ns arbitrary: s) (simp_all add: rd_inv rd_saved rd_content add.commute)

lemma look_ahead:
  assumes "inv s"
  obtains s1 s2 s3 where "foldl (\<lambda>t n. snd (rd t n)) (mset s) ns = s1"
    and "wr s1 bs = Some (length bs, s2)" and "mrestore s2 = Some s3" and "inv s3"
    and "content s3 = content s @ bs" and "saved s3 = map (\<lambda>x. x @ bs) (saved s)"
proof -
  define s1 where "s1 = foldl (\<lambda>t n. snd (rd t n)) (mset s) ns"
  have s1: "inv s1" "saved s1 = saved s @ [content s]"
    using reads_saved [of "mset s" ns] mset_spec [OF assms] by (simp_all add: s1_def)
  obtain s2 where s2: "wr s1 bs = Some (length bs, s2)" "inv s2" using wr_spec [OF s1(1), of bs] by auto
  then have "saved s2 = map (\<lambda>x. x @ bs) (saved s) @ [content s @ bs]"
    using wr_saved [OF s1(1), of bs "length bs" s2] s1(2) by simp
  with mrestore_spec [OF s2(2)] that [OF s1_def [symmetric] s2(1)] show ?thesis by auto
qed

lemma commit:
  assumes "inv s"
  obtains s1 s2 where "foldl (\<lambda>t n. snd (rd t n)) (mset s) ns = s1"
    and "mclear s1 = Some s2" and "inv s2"
    and "content s2 = drop (sum_list ns) (content s)" and "saved s2 = saved s"
proof -
  define s1 where "s1 = foldl (\<lambda>t n. snd (rd t n)) (mset s) ns"
  have s1: "inv s1" "saved s1 = saved s @ [content s]" "content s1 = drop (sum_list ns) (content s)"
    using reads_saved [of "mset s" ns] mset_spec [OF assms] by (simp_all add: s1_def)
  then obtain s2 where "mclear s1 = Some s2" "inv s2" "content s2 = content s1" "saved s2 = saved s"
    using mclear_spec [OF s1(1)] by auto
  with that [OF s1_def [symmetric]] s1 show ?thesis by simp
qed

end

interpretation mk: marked_stream ms_content ms_ok ms_Read ms_Peek ms_Write
  marker_contents ms_MarkerSet ms_MarkerRestore ms_MarkerClear
proof unfold_locales
  fix s n bs k s'
  show "ms_ok s \<Longrightarrow> marker_contents (snd (ms_Read s n)) = marker_contents s" by (rule ms_Read_correct(4))
  show "ms_ok s \<Longrightarrow> ms_Write s bs = Some (k, s') \<Longrightarrow> marker_contents s' = map (\<lambda>x. x @ bs) (marker_contents s)"
    using ms_Write_correct [of s bs] by (metis option.inject prod.inject)
  show "ms_ok s \<Longrightarrow> ms_ok (ms_MarkerSet s) \<and> ms_content (ms_MarkerSet s) = ms_content s \<and>
      marker_contents (ms_MarkerSet s) = marker_contents s @ [ms_content s]"
    by (simp add: ms_MarkerSet_correct)
  show "ms_ok s \<Longrightarrow> marker_contents s \<noteq> [] \<Longrightarrow> \<exists>s'. ms_MarkerRestore s = Some s' \<and> ms_ok s' \<and>
      ms_content s' = last (marker_contents s) \<and> marker_contents s' = butlast (marker_contents s)"
    using ms_MarkerRestore_correct [of s] by (metis marker_contents_Nil)
  show "ms_ok s \<Longrightarrow> marker_contents s \<noteq> [] \<Longrightarrow> \<exists>s'. ms_MarkerClear s = Some s' \<and> ms_ok s' \<and>
      ms_content s' = ms_content s \<and> marker_contents s' = butlast (marker_contents s)"
    using ms_MarkerClear_correct [of s] by (metis marker_contents_Nil)
qed

text \<open>A stream that holds given bytes; it exists for every block size.\<close>

lemma ms_holding: "\<exists>s. ms_ok s \<and> ms_content s = bs \<and> marker_contents s = []"
proof -
  obtain s0 where "ms_new 4 = Some s0" using ms_new_Some [of 4] by auto
  note s0 = ms_new_ok [OF this]
  then obtain s where "ms_ok s" "ms_content s = bs" "marker_contents s = map (\<lambda>x. x @ bs) (marker_contents s0)"
    using ms_Write_correct [of s0 bs] by (metis append_Nil)
  with s0 show ?thesis by (auto simp: marker_contents_def)
qed

text \<open>Look-ahead is undone by the marker. Setting a marker, reading any
  number of pieces, then writing more bytes and restoring the marker leaves a well-formed
  stream whose content is the original one followed by the bytes written, even though
  reading disposes blocks and writing makes the saved sizes stale.\<close>

theorem marker_restores_reads:
  assumes "ms_ok s"
  shows "\<exists>s2 s3. ms_Write (foldl (\<lambda>t n. snd (ms_Read t n)) (ms_MarkerSet s) ns) bs = Some (length bs, s2) \<and>
    ms_MarkerRestore s2 = Some s3 \<and> ms_ok s3 \<and> ms_content s3 = ms_content s @ bs \<and>
    marker_contents s3 = map (\<lambda>x. x @ bs) (marker_contents s)"
  using mk.look_ahead [OF assms, of ns bs] by metis

theorem marker_restores_reads_witness:
  "\<exists>s s2 s3. ms_ok s \<and> ms_content s = [1, 2, 3] \<and>
    ms_Write (foldl (\<lambda>t n. snd (ms_Read t n)) (ms_MarkerSet s) [1, 1]) [4] = Some (1, s2) \<and>
    ms_MarkerRestore s2 = Some s3 \<and> ms_content s3 = [1, 2, 3, 4]"
proof -
  obtain s where s: "ms_ok s" "ms_content s = [1, 2, 3]" using ms_holding [of "[1, 2, 3]"] by auto
  with marker_restores_reads [OF s(1), of "[1, 1]" "[4]"] show ?thesis by auto
qed

section \<open>Moving bytes between streams\<close>

text \<open>\<open>AppendStream(buf, size)\<close> moves the first \<open>size\<close> bytes of \<open>buf\<close> (all of them
  when \<open>size\<close> is negative) to the end of the stream and out of \<open>buf\<close>: nothing is lost or
  duplicated, both streams stay well-formed, saved markers of the source still restore its
  old content and saved markers of the target see the bytes appended.\<close>

theorem AppendStream_moves:
  assumes "ms_ok s" and "ms_ok buf"
  shows "\<exists>s' buf'. ms_AppendStream s buf sz = Some (s', buf') \<and> ms_ok s' \<and> ms_ok buf' \<and>
    ms_content s' @ ms_content buf' = ms_content s @ ms_content buf \<and>
    length (ms_content s') = length (ms_content s) +
      (if sz < 0 then length (ms_content buf) else min (nat sz) (length (ms_content buf))) \<and>
    marker_contents buf' = marker_contents buf \<and>
    map (\<lambda>x. x @ ms_content buf') (marker_contents s') = map (\<lambda>x. x @ ms_content buf) (marker_contents s)"
proof -
  let ?n = "if sz < 0 then length (ms_content buf) else nat sz"
  obtain s' buf' where "ms_AppendStream s buf sz = Some (s', buf')" "ms_ok s'" "ms_ok buf'"
    "ms_content s' = ms_content s @ take ?n (ms_content buf)" "ms_content buf' = drop ?n (ms_content buf)"
    "marker_contents s' = map (\<lambda>x. x @ take ?n (ms_content buf)) (marker_contents s)"
    "marker_contents buf' = marker_contents buf"
    using ms_AppendStream_correct [OF assms, of sz] by metis
  then show ?thesis by (intro exI conjI) (assumption | simp add: min.commute)+
qed

theorem AppendStream_moves_witness:
  "\<exists>s buf s' buf'. ms_content s = [1] \<and> ms_content buf = [2, 3, 4] \<and>
    ms_AppendStream s buf 2 = Some (s', buf') \<and> length (ms_content s') = 3 \<and>
    ms_content s' @ ms_content buf' = [1, 2, 3, 4]"
proof -
  obtain s buf where s: "ms_ok s" "ms_content s = [1]" and b: "ms_ok buf" "ms_content buf = [2, 3, 4]"
    using ms_holding [of "[1]"] ms_holding [of "[2, 3, 4]"] by metis
  from AppendStream_moves [OF s(1) b(1), of 2] obtain s' buf' where
    "ms_AppendStream s buf 2 = Some (s', buf')" "ms_content s' @ ms_content buf' = [1, 2, 3, 4]"
    "length (ms_content s') = 3" using s b by auto
  with s(2) b(2) show ?thesis by blast
qed

text \<open>\<open>ReadForWritev\<close> and \<open>ReadNext\<close> hand out whole pieces in stream order: the
  vectors concatenate to the bytes that leave the stream, the size reported is their total
  length, and fewer than the bytes asked for are returned only when the stream is exhausted.\<close>

theorem ReadForWritev_prefix:
  assumes "ms_ok s"
  shows "\<exists>v s'. ms_ReadForWritev s m = Some (v, length (concat v), s') \<and> ms_ok s' \<and>
    ms_content s = concat v @ ms_content s' \<and> (length (concat v) < m \<longrightarrow> ms_content s' = []) \<and>
    marker_contents s' = marker_contents s"
  using ms_ReadForWritev_correct [OF assms, of m] by metis

theorem ReadForWritev_prefix_witness:
  "\<exists>s v s'. ms_content s = [1, 2, 3] \<and> ms_ReadForWritev s 10 = Some (v, 3, s') \<and>
     concat v = [1, 2, 3] \<and> ms_content s' = []"
proof -
  obtain s where s: "ms_ok s" "ms_content s = [1, 2, 3]" using ms_holding [of "[1, 2, 3]"] by auto
  from ReadForWritev_prefix [OF s(1), of 10] obtain v s' where
    v: "ms_ReadForWritev s 10 = Some (v, length (concat v), s')" "[1, 2, 3] = concat v @ ms_content s'"
      "length (concat v) < 10 \<longrightarrow> ms_content s' = []" using s(2) by auto
  have "length (concat v) \<le> 3" using arg_cong [OF v(2), of length] by simp
  then have "ms_content s' = []" "concat v = [1, 2, 3]" using v(2,3) by auto
  with v(1) s(2) show ?thesis by (metis length_Cons list.size(3) numeral_3_eq_3)
qed

text \<open>The scratch protocol is a write. \<open>GetScratchSpace\<close> always offers at least one
  byte; whatever up to that many bytes the caller stores there, \<open>ConfirmScratch\<close> of their
  number appends exactly them, for the content and for every saved marker.\<close>

theorem scratch_is_write:
  assumes "ms_ok s"
  shows "\<exists>n s1. ms_GetScratchSpace s = Some (n, s1) \<and> 0 < n \<and>
    (\<forall>bs. length bs \<le> n \<longrightarrow>
       (\<exists>s2. ms_ConfirmScratch (ms_fill_scratch s1 bs) (length bs) = Some s2 \<and> ms_ok s2 \<and>
          ms_content s2 = ms_content s @ bs \<and>
          marker_contents s2 = map (\<lambda>x. x @ bs) (marker_contents s)))"
  using ms_scratch_correct [OF assms] by metis

theorem scratch_is_write_witness:
  "\<exists>s n s1 s2. ms_content s = [1] \<and> ms_GetScratchSpace s = Some (n, s1) \<and>
     ms_ConfirmScratch (ms_fill_scratch s1 [7]) 1 = Some s2 \<and> ms_content s2 = [1, 7]"
proof -
  obtain s where s: "ms_ok s" "ms_content s = [1]" using ms_holding [of "[1]"] by auto
  from scratch_is_write [OF s(1)] obtain n s1 where
    n: "ms_GetScratchSpace s = Some (n, s1)" "0 < n" and
    c: "\<forall>bs. length bs \<le> n \<longrightarrow> (\<exists>s2. ms_ConfirmScratch (ms_fill_scratch s1 bs) (length bs) = Some s2 \<and>
      ms_ok s2 \<and> ms_content s2 = ms_content s @ bs \<and> marker_contents s2 = map (\<lambda>x. x @ bs) (marker_contents s))"
    by auto
  from c [rule_format, of "[7]"] n s show ?thesis by auto
qed

section \<open>Lines\<close>

lemma line_len_crlf:
  assumes "10 \<notin> set l" and "13 \<notin> set l"
  shows "line_len 10 13 c (l @ [13, 10] @ rest) = Some (length l + 2)"
  using assms by (induction l arbitrary: c) auto

lemma strip_crlf_line:
  assumes "10 \<notin> set l" and "13 \<notin> set l"
  shows "strip_crlf (l @ [13, 10]) = l"
proof -
  have "\<forall>x \<in> set (rev l). \<not> (x = 10 \<or> x = 13)" using assms by auto
  then have "dropWhile (\<lambda>c. c = 10 \<or> c = 13) (rev l) = rev l"
    by (cases "rev l") simp_all
  then show ?thesis by (simp add: strip_crlf_def)
qed

text \<open>A line written with a CR LF after it is read back by \<open>ReadLine\<close> without its line
  end, wherever the block boundaries fall, and the bytes behind the line stay unread.\<close>

theorem ReadLine_roundtrip:
  assumes "ms_ok s" and "ms_content s = l @ [13, 10] @ rest" and "10 \<notin> set l" and "13 \<notin> set l"
  shows "\<exists>s'. ms_ReadLine s = (Some l, s') \<and> ms_ok s' \<and> ms_content s' = rest"
proof -
  have n: "line_len 10 13 0 (ms_content s) = Some (length l + 2)"
    using line_len_crlf [OF assms(3,4), of 0 rest] assms(2) by simp
  note r = ms_ReadCRLFLine_correct [OF assms(1)]
  have "fst (ms_ReadCRLFLine s) = Some (l @ [13, 10])" "ms_content (snd (ms_ReadCRLFLine s)) = rest"
      "ms_ok (snd (ms_ReadCRLFLine s))"
    using r n assms(2) by simp_all
  then show ?thesis using strip_crlf_line [OF assms(3,4)]
    by (intro exI [of _ "snd (ms_ReadCRLFLine s)"]) (auto simp: ms_ReadLine_def prod_eq_iff)
qed

theorem ReadLine_roundtrip_witness:
  "\<exists>s s'. ms_content s = [71, 69, 84, 13, 10, 65] \<and> ms_ReadLine s = (Some [71, 69, 84], s') \<and> ms_content s' = [65]"
proof -
  obtain s where s: "ms_ok s" "ms_content s = [71, 69, 84, 13, 10, 65]"
    using ms_holding [of "[71, 69, 84, 13, 10, 65]"] by auto
  with ReadLine_roundtrip [of s "[71, 69, 84]" "[65]"] show ?thesis by auto
qed

section \<open>Numbers on the stream\<close>

lemma unat_mod_width [simp]:
  "unat (u :: 16 word) mod 65536 = unat u" "unat (v :: 32 word) mod 4294967296 = unat v"
  "unat (w :: 64 word) mod 18446744073709551616 = unat w"
proof -
  have "unat u < 2 ^ LENGTH(16)" "unat v < 2 ^ LENGTH(32)" "unat w < 2 ^ LENGTH(64)"
    by (rule unsigned_less)+
  then show "unat u mod 65536 = unat u" "unat v mod 4294967296 = unat v"
    "unat w mod 18446744073709551616 = unat w" by simp_all
qed

lemma read_scalar_back:
  assumes "ms_ok s" and "ms_content s = (if ho \<noteq> order then rev (scalar_mem ho n v) else scalar_mem ho n v) @ rest"
  shows "fst (ReadScalar ho ms_Read order n s) = Some (v mod 256 ^ n)"
    and "ms_content (snd (ReadScalar ho ms_Read order n s)) = rest"
    and "ms_ok (snd (ReadScalar ho ms_Read order n s))"
  using ms.ReadNumber_content [OF assms] by (simp_all add: ReadScalar_def split_beta scalar_value_mem)

text \<open>One field of a message: its kind, byte order and value.\<close>

datatype num_field =
    F8 byte | F16 ByteOrder "16 word" | F24 ByteOrder "32 word" | F32 ByteOrder "32 word" | F64 ByteOrder "64 word"

fun write_field :: "ByteOrder \<Rightarrow> num_field \<Rightarrow> memory_stream \<Rightarrow> (nat \<times> memory_stream) option" where
  "write_field ho (F8 v) s = WriteByte ho ms_Write v s"
| "write_field ho (F16 ord v) s = WriteInt16 ho ms_Write ord v s"
| "write_field ho (F24 ord v) s = WriteUInt24 ho ms_Write ord v s"
| "write_field ho (F32 ord v) s = WriteInt32 ho ms_Write ord v s"
| "write_field ho (F64 ord v) s = WriteInt64 ho ms_Write ord v s"

fun read_field :: "ByteOrder \<Rightarrow> num_field \<Rightarrow> memory_stream \<Rightarrow> num_field option \<times> memory_stream" where
  "read_field ho (F8 _) s = apfst (map_option F8) (ReadByte ho ms_Read s)"
| "read_field ho (F16 ord _) s = apfst (map_option (F16 ord)) (ReadInt16 ho ms_Read ord s)"
| "read_field ho (F24 ord _) s = apfst (map_option (F24 ord)) (ReadUInt24 ho ms_Read ord s)"
| "read_field ho (F32 ord _) s = apfst (map_option (F32 ord)) (ReadInt32 ho ms_Read ord s)"
| "read_field ho (F64 ord _) s = apfst (map_option (F64 ord)) (ReadInt64 ho ms_Read ord s)"

text \<open>The value a field has after the trip: a 24-bit field keeps the low 24 bits.\<close>

fun field_value :: "num_field \<Rightarrow> num_field" where
  "field_value (F24 ord v) = F24 ord (of_nat (unat v mod 16777216))"
| "field_value f = f"

fun field_mem :: "ByteOrder \<Rightarrow> num_field \<Rightarrow> bytes" where
  "field_mem ho (F8 v) = scalar_mem ho 1 (unat v)"
| "field_mem ho (F16 ord v) = (if ho \<noteq> ord then rev (scalar_mem ho 2 (unat v)) else scalar_mem ho 2 (unat v))"
| "field_mem ho (F24 ord v) =
     (if ho \<noteq> ord then rev (uint24_mem (uint24_of_int32 ho v)) else uint24_mem (uint24_of_int32 ho v))"
| "field_mem ho (F32 ord v) = (if ho \<noteq> ord then rev (scalar_mem ho 4 (unat v)) else scalar_mem ho 4 (unat v))"
| "field_mem ho (F64 ord v) = (if ho \<noteq> ord then rev (scalar_mem ho 8 (unat v)) else scalar_mem ho 8 (unat v))"

definition wire_size :: "num_field \<Rightarrow> nat" where
  "wire_size f = (case f of F8 _ \<Rightarrow> 1 | F16 _ _ \<Rightarrow> 2 | F24 _ _ \<Rightarrow> 3 | F32 _ _ \<Rightarrow> 4 | F64 _ _ \<Rightarrow> 8)"

lemma length_field_mem [simp]: "length (field_mem ho f) = wire_size f"
  by (cases f) (simp_all add: wire_size_def)

lemma write_field_content:
  assumes "ms_ok s"
  shows "\<exists>s'. write_field ho f s = Some (wire_size f, s') \<and> ms_ok s' \<and> ms_content s' = ms_content s @ field_mem ho f"
proof (cases f)
  case (F8 v)
  then show ?thesis using ms.WriteNumber_content [OF assms, of ho ho "scalar_mem ho 1 (unat v)"]
    by (auto simp: wire_size_def WriteByte_def)
next
  case (F16 ord v)
  then show ?thesis using ms.WriteNumber_content [OF assms, of ho ord "scalar_mem ho 2 (unat v)"]
    by (auto simp: wire_size_def WriteInt16_def)
next
  case (F24 ord v)
  then show ?thesis using ms.WriteNumber_content [OF assms, of ho ord "uint24_mem (uint24_of_int32 ho v)"]
    by (auto simp: wire_size_def WriteUInt24_def)
next
  case (F32 ord v)
  then show ?thesis using ms.WriteNumber_content [OF assms, of ho ord "scalar_mem ho 4 (unat v)"]
    by (auto simp: wire_size_def WriteInt32_def)
next
  case (F64 ord v)
  then show ?thesis using ms.WriteNumber_content [OF assms, of ho ord "scalar_mem ho 8 (unat v)"]
    by (auto simp: wire_size_def WriteInt64_def)
qed

lemma read_field_content:
  assumes "ms_ok s" and "ms_content s = field_mem LILENDIAN f @ rest"
  shows "fst (read_field LILENDIAN f s) = Some (field_value f) \<and>
    ms_content (snd (read_field LILENDIAN f s)) = rest \<and> ms_ok (snd (read_field LILENDIAN f s))"
proof (cases f)
  case (F24 ord v)
  have "ms_content s = (if LILENDIAN \<noteq> ord then rev (uint24_mem (uint24_of_int32 LILENDIAN v))
      else uint24_mem (uint24_of_int32 LILENDIAN v)) @ rest"
    using assms(2) F24 by simp
  from ms.ReadNumber_content [OF assms(1) this] F24 show ?thesis
    by (simp add: ReadUInt24_def split_beta uint32_of_uint24_of_int32_le)
next
  case (F8 v)
  with read_scalar_back [OF assms(1), of LILENDIAN LILENDIAN 1 "unat v" rest] assms(2) show ?thesis
    by (simp add: ReadByte_def)
next
  case (F16 ord v)
  with read_scalar_back [OF assms(1), of LILENDIAN ord 2 "unat v" rest] assms(2) show ?thesis
    by (simp add: ReadInt16_def)
next
  case (F32 ord v)
  with read_scalar_back [OF assms(1), of LILENDIAN ord 4 "unat v" rest] assms(2) show ?thesis
    by (simp add: ReadInt32_def)
next
  case (F64 ord v)
  with read_scalar_back [OF assms(1), of LILENDIAN ord 8 "unat v" rest] assms(2) show ?thesis
    by (simp add: ReadInt64_def)
qed

fun write_fields :: "ByteOrder \<Rightarrow> num_field list \<Rightarrow> memory_stream \<Rightarrow> memory_stream option" where
  "write_fields ho [] s = Some s"
| "write_fields ho (f # fs) s = Option.bind (write_field ho f s) (\<lambda>(n, s1). write_fields ho fs s1)"

fun read_fields :: "ByteOrder \<Rightarrow> num_field list \<Rightarrow> memory_stream \<Rightarrow> num_field option list \<times> memory_stream" where
  "read_fields ho [] s = ([], s)"
| "read_fields ho (f # fs) s =
     (let (r, s1) = read_field ho f s; (rs, s2) = read_fields ho fs s1 in (r # rs, s2))"

lemma write_fields_content:
  "ms_ok s \<Longrightarrow> \<exists>s'. write_fields ho fs s = Some s' \<and> ms_ok s' \<and>
     ms_content s' = ms_content s @ concat (map (field_mem ho) fs)"
proof (induction fs arbitrary: s)
  case (Cons f fs)
  from write_field_content [OF Cons.prems, of ho f] obtain s1 where
    s1: "write_field ho f s = Some (wire_size f, s1)" "ms_ok s1" "ms_content s1 = ms_content s @ field_mem ho f"
    by auto
  with Cons.IH [OF s1(2)] show ?case by auto
qed simp

lemma read_fields_content:
  "ms_ok s \<Longrightarrow> ms_content s = concat (map (field_mem LILENDIAN) fs) @ rest \<Longrightarrow>
   fst (read_fields LILENDIAN fs s) = map (\<lambda>f. Some (field_value f)) fs \<and>
   ms_content (snd (read_fields LILENDIAN fs s)) = rest \<and> ms_ok (snd (read_fields LILENDIAN fs s))"
proof (induction fs arbitrary: s)
  case (Cons f fs)
  from read_field_content [OF Cons.prems(1), of f "concat (map (field_mem LILENDIAN) fs) @ rest"] Cons.prems(2)
  have "fst (read_field LILENDIAN f s) = Some (field_value f)"
    "ms_content (snd (read_field LILENDIAN f s)) = concat (map (field_mem LILENDIAN) fs) @ rest"
    "ms_ok (snd (read_field LILENDIAN f s))" by simp_all
  with Cons.IH [of "snd (read_field LILENDIAN f s)"] show ?case by (simp add: split_beta)
qed simp

text \<open>A sequence of numbers of any widths (8, 16, 24, 32, 64 bits), each in either byte
  order, written to a memory stream that is empty and read back with the same widths and
  orders on a little-endian machine, comes back value by value - a 24-bit number modulo
  2 to the 24 - and leaves the stream empty.\<close>

theorem number_fields_roundtrip:
  assumes "ms_ok s" and "ms_content s = []"
  shows "\<exists>s' s''. write_fields LILENDIAN fs s = Some s' \<and>
    read_fields LILENDIAN fs s' = (map (\<lambda>f. Some (field_value f)) fs, s'') \<and> ms_ok s'' \<and> ms_content s'' = []"
proof -
  obtain s' where s': "write_fields LILENDIAN fs s = Some s'" "ms_ok s'"
      "ms_content s' = concat (map (field_mem LILENDIAN) fs) @ []"
    using write_fields_content [OF assms(1), of LILENDIAN fs] assms(2) by auto
  from read_fields_content [OF s'(2,3)] s'(1) show ?thesis by (metis prod.collapse)
qed

theorem number_fields_roundtrip_witness:
  "\<exists>s s' s''. ms_content s = [] \<and>
    write_fields LILENDIAN [F16 BIGENDIAN 258, F24 BIGENDIAN 16909060, F64 LILENDIAN 7] s = Some s' \<and>
    read_fields LILENDIAN [F16 BIGENDIAN 258, F24 BIGENDIAN 16909060, F64 LILENDIAN 7] s' =
      ([Some (F16 BIGENDIAN 258), Some (F24 BIGENDIAN 131844), Some (F64 LILENDIAN 7)], s'') \<and>
    ms_content s'' = []"
proof -
  obtain s where s: "ms_ok s" "ms_content s = []" using ms_holding [of "[]"] by auto
  have "map (\<lambda>f. Some (field_value f)) [F16 BIGENDIAN 258, F24 BIGENDIAN 16909060, F64 LILENDIAN 7] =
      [Some (F16 BIGENDIAN 258), Some (F24 BIGENDIAN 131844), Some (F64 LILENDIAN 7)]" by simp
  with number_fields_roundtrip [OF s, of "[F16 BIGENDIAN 258, F24 BIGENDIAN 16909060, F64 LILENDIAN 7]"] s
  show ?thesis by metis
qed

text \<open>On a big-endian machine the two conversions of \<open>uint24\<close> disagree: the constructor
  stores the most significant byte first while the conversion back to 32 bits takes it as
  the least significant one, so a 24-bit number comes back with its bytes reversed.\<close>

theorem uint24_bigendian_reversed:
  "uint32_of_uint24 (uint24_of_int32 BIGENDIAN x) =
     of_nat (unat x div 65536 mod 256 + 256 * (unat x div 256 mod 256) + 65536 * (unat x mod 256))"
  by (simp add: uint32_of_uint24_def uint24_of_int32_def)

end
