(* ===== verification/RecordIO.thy ===== *)
theory RecordIO
  imports MemoryStreamScan
begin

text \<open>
  Model of \<open>io::RecordWriter\<close> and \<open>io::RecordReader\<close>
  (\<open>src/whisperlib/io/logio/recordio.{h,cc}\<close>): records of any size are cut into pieces
  that fill fixed-size blocks; each block ends with its content size, the CRC of the block
  before it and its own CRC.

  The \<open>io::MemoryStream\<close> members and arguments of the two classes are modelled by their
  content, a byte list (\<open>MemoryStream\<close> shows that the stream is faithful to it). The CRC
  (\<open>crc32\<close> of zlib) and the compressor (\<open>io/zlib/zlibwrapper\<close> over zlib) are arguments.
  The machine is little-endian. \<open>size_t\<close> arithmetic that may wrap is written with
  \<open>wrap64\<close>; a failed \<open>CHECK\<close> is \<open>None\<close>.
\<close>

section \<open>Definitions\<close>

subsection \<open>A stream as its content\<close>

definition ls_Read :: "bytes \<Rightarrow> nat \<Rightarrow> bytes \<times> bytes" where
  "ls_Read s n = (take n s, drop n s)"

definition ls_Peek :: "bytes \<Rightarrow> nat \<Rightarrow> bytes" where
  "ls_Peek s n = take n s"

definition ls_Write :: "bytes \<Rightarrow> bytes \<Rightarrow> (nat \<times> bytes) option" where
  "ls_Write s bs = Some (length bs, s @ bs)"

definition stream_WriteByte :: "bytes \<Rightarrow> byte \<Rightarrow> bytes" where
  "stream_WriteByte s v = snd (the (WriteByte LILENDIAN ls_Write v s))"

definition stream_WriteUInt24 :: "bytes \<Rightarrow> 32 word \<Rightarrow> bytes" where
  "stream_WriteUInt24 s v = snd (the (WriteUInt24 LILENDIAN ls_Write BIGENDIAN v s))"

definition stream_WriteInt32 :: "bytes \<Rightarrow> 32 word \<Rightarrow> bytes" where
  "stream_WriteInt32 s v = snd (the (WriteInt32 LILENDIAN ls_Write BIGENDIAN v s))"

definition wrap64 :: "int \<Rightarrow> nat" where
  "wrap64 i = nat (i mod 2 ^ 64)"

subsection \<open>The CRC of a stream\<close>

text \<open>
  \<open>ComputeCRC\<close> feeds the pieces of the stream to \<open>crc32\<close> one after the other, between a
  marker and its restore. \<open>crc c bs\<close> is zlib's \<open>crc32(c, bs, size)\<close>, and
  \<open>crc32(0L, Z_NULL, 0)\<close> is 0.
\<close>

partial_function (option) ComputeCRC_loop ::
    "(32 word \<Rightarrow> bytes \<Rightarrow> 32 word) \<Rightarrow> memory_stream \<Rightarrow> 32 word \<Rightarrow> (32 word \<times> memory_stream) option" where
  "ComputeCRC_loop crc buf c =
     (if IsEmpty buf then Some (c, buf)
      else case ms_ReadNext buf of
        None \<Rightarrow> None
      | Some (None, _) \<Rightarrow> None
      | Some (Some bs, buf') \<Rightarrow> ComputeCRC_loop crc buf' (crc c bs))"

definition ComputeCRC ::
    "(32 word \<Rightarrow> bytes \<Rightarrow> 32 word) \<Rightarrow> memory_stream \<Rightarrow> (32 word \<times> memory_stream) option" where
  "ComputeCRC crc buf =
     Option.bind (ComputeCRC_loop crc (ms_MarkerSet buf) 0) (\<lambda>(c, buf').
       map_option (Pair c) (ms_MarkerRestore buf'))"

subsection \<open>The writer\<close>

definition kMaximumRecordBlockSize :: nat where
  "kMaximumRecordBlockSize = 0xFFFFFF"

definition HAS_CONT :: byte where "HAS_CONT = 1"
definition IS_ZIPPED :: byte where "IS_ZIPPED = 2"
definition IS_FIRST :: byte where "IS_FIRST = 4"

definition kBlockTrailerEnd :: nat where "kBlockTrailerEnd = 12"
definition kRecordHeaderSize :: nat where "kRecordHeaderSize = 4"

record RecordWriter =
  rw_block_size :: nat
  rw_dumpable_size :: nat
  rw_content :: bytes
  rw_zlib :: bool
  rw_content_record_count :: nat
  rw_prev_block_crc :: "32 word"

text \<open>\<open>dumpable_size\<close> is \<open>dumpable_percent * (block_size - kBlockTrailerEnd)\<close>, in \<open>float\<close>.\<close>

definition rw_new :: "nat \<Rightarrow> bool \<Rightarrow> nat \<Rightarrow> RecordWriter option" where
  "rw_new bsize deflate dumpable_size =
     (if bsize < kMaximumRecordBlockSize
      then Some \<lparr>rw_block_size = bsize, rw_dumpable_size = dumpable_size, rw_content = [],
                 rw_zlib = deflate, rw_content_record_count = 0, rw_prev_block_crc = 0\<rparr>
      else None)"

definition rw_Clear :: "RecordWriter \<Rightarrow> RecordWriter" where
  "rw_Clear w = w\<lparr>rw_prev_block_crc := 0\<rparr>"

definition PendingRecordCount :: "RecordWriter \<Rightarrow> nat" where
  "PendingRecordCount w = rw_content_record_count w"

definition leftover :: "RecordWriter \<Rightarrow> nat" where
  "leftover w = length (rw_content w)"

definition FinalizeContent :: "(bytes \<Rightarrow> 32 word) \<Rightarrow> RecordWriter \<Rightarrow> bytes \<Rightarrow> (RecordWriter \<times> bytes) option" where
  "FinalizeContent crc w out =
     (if rw_content w = [] then Some (w, out)
      else let content_size = length (rw_content w) in
        if rw_block_size w < content_size + kBlockTrailerEnd then None
        else
          let padding_size = rw_block_size w - content_size - kBlockTrailerEnd;
              c1 = rw_content w @ replicate padding_size 0;
              c2 = stream_WriteInt32 c1 (of_nat content_size);
              c3 = stream_WriteInt32 c2 (rw_prev_block_crc w);
              k = crc c3;
              c4 = stream_WriteInt32 c3 k
          in Some (w\<lparr>rw_content := [], rw_prev_block_crc := k, rw_content_record_count := 0\<rparr>, out @ c4))"

definition available :: "RecordWriter \<Rightarrow> nat" where
  "available w = wrap64 (int (rw_block_size w) - int kBlockTrailerEnd - int kRecordHeaderSize
                         - int (length (rw_content w)))"

text \<open>The header and the bytes of one piece, added to the content of the current block.\<close>

definition add_piece :: "RecordWriter \<Rightarrow> byte \<Rightarrow> nat \<Rightarrow> bytes \<Rightarrow> RecordWriter" where
  "add_piece w flags len bs =
     w\<lparr>rw_content := stream_WriteUInt24 (stream_WriteByte (rw_content w) flags) (of_nat len) @ bs,
       rw_content_record_count := rw_content_record_count w + 1\<rparr>"

partial_function (option) append_stream_loop ::
    "(bytes \<Rightarrow> 32 word) \<Rightarrow> RecordWriter \<Rightarrow> bytes \<Rightarrow> bytes \<Rightarrow> bool \<Rightarrow> nat \<Rightarrow> (RecordWriter \<times> bytes \<times> nat) option" where
  "append_stream_loop crc w inp out is_first written =
     (if inp = [] then Some (w, out, written)
      else if length inp \<le> available w
      then append_stream_loop crc
             (add_piece w (if is_first then IS_FIRST else 0) (length inp) inp) [] out is_first written
      else Option.bind
             (FinalizeContent crc
               (add_piece w (or HAS_CONT (if is_first then IS_FIRST else 0)) (available w)
                 (take (available w) inp)) out)
             (\<lambda>(w', out'). append_stream_loop crc w' (drop (available w) inp) out' False (written + 1)))"

definition append_dump ::
    "(bytes \<Rightarrow> 32 word) \<Rightarrow> RecordWriter \<times> bytes \<times> nat \<Rightarrow> (bool \<times> RecordWriter \<times> bytes) option" where
  "append_dump crc = (\<lambda>(w, out, written).
     if length (rw_content w) > rw_dumpable_size w
     then map_option (\<lambda>(w', out'). (True, w', out')) (FinalizeContent crc w out)
     else Some (written \<ge> 1, w, out))"

definition AppendRecord_stream ::
    "(bytes \<Rightarrow> 32 word) \<Rightarrow> (bytes \<Rightarrow> bytes) \<Rightarrow> RecordWriter \<Rightarrow> bytes \<Rightarrow> bytes \<Rightarrow> bool \<Rightarrow>
     (bool \<times> RecordWriter \<times> bytes) option" where
  "AppendRecord_stream crc deflate w inp out is_zipped =
     Option.bind
       (append_stream_loop crc w (if rw_zlib w \<and> \<not> is_zipped then deflate inp else inp) out True 0)
       (append_dump crc)"

partial_function (option) append_buffer_loop ::
    "(bytes \<Rightarrow> 32 word) \<Rightarrow> RecordWriter \<Rightarrow> bytes \<Rightarrow> bytes \<Rightarrow> bool \<Rightarrow> nat \<Rightarrow> (RecordWriter \<times> bytes \<times> nat) option" where
  "append_buffer_loop crc w p out is_first written =
     (if length p \<le> available w
      then Some (add_piece w (if is_first then IS_FIRST else 0) (length p) p, out, written)
      else Option.bind
             (FinalizeContent crc
               (add_piece w (or HAS_CONT (if is_first then IS_FIRST else 0)) (available w)
                 (take (available w) p)) out)
             (\<lambda>(w', out').
                if length p - available w > 0
                then append_buffer_loop crc w' (drop (available w) p) out' False (written + 1)
                else Some (w', out', written + 1)))"

definition AppendRecord ::
    "(bytes \<Rightarrow> 32 word) \<Rightarrow> (bytes \<Rightarrow> bytes) \<Rightarrow> RecordWriter \<Rightarrow> bytes \<Rightarrow> bytes \<Rightarrow>
     (bool \<times> RecordWriter \<times> bytes) option" where
  "AppendRecord crc deflate w buf out =
     (if rw_zlib w then AppendRecord_stream crc deflate w (deflate buf) out True
      else Option.bind (append_buffer_loop crc w buf out True 0) (append_dump crc))"

subsection \<open>The reader\<close>

datatype ReadResult = READ_OK | READ_NO_DATA | READ_CRC_CORRUPTED | READ_ZIP_CORRUPTED | READ_CRC_BLOCK_BROKEN

record RecordReader =
  rr_block_size :: nat
  rr_content :: bytes
  rr_record_content :: bytes
  rr_prev_block_crc :: "32 word"
  rr_skip_record :: bool

definition rr_new :: "nat \<Rightarrow> RecordReader" where
  "rr_new bsize = \<lparr>rr_block_size = bsize, rr_content = [], rr_record_content = [],
     rr_prev_block_crc = 0, rr_skip_record = False\<rparr>"

definition rr_Clear :: "RecordReader \<Rightarrow> RecordReader" where
  "rr_Clear r = r\<lparr>rr_content := [], rr_prev_block_crc := 0\<rparr>"

definition ReadResultName :: "ReadResult \<Rightarrow> string" where
  "ReadResultName r = (case r of
      READ_OK \<Rightarrow> ''READ_OK'' | READ_NO_DATA \<Rightarrow> ''READ_NO_DATA''
    | READ_CRC_CORRUPTED \<Rightarrow> ''READ_CRC_CORRUPTED'' | READ_ZIP_CORRUPTED \<Rightarrow> ''READ_ZIP_CORRUPTED''
    | READ_CRC_BLOCK_BROKEN \<Rightarrow> ''READ_CRC_BLOCK_BROKEN'')"

text \<open>A read of three big-endian numbers; too little data aborts.\<close>

definition read_trailer :: "bytes \<Rightarrow> ((32 word \<times> 32 word \<times> 32 word) \<times> bytes) option" where
  "read_trailer s0 =
     (case ReadInt32 LILENDIAN ls_Read BIGENDIAN s0 of (a, s1) \<Rightarrow>
      case ReadInt32 LILENDIAN ls_Read BIGENDIAN s1 of (b, s2) \<Rightarrow>
      case ReadInt32 LILENDIAN ls_Read BIGENDIAN s2 of (c, s3) \<Rightarrow>
        (case (a, b, c) of (Some a', Some b', Some c') \<Rightarrow> Some ((a', b', c'), s3) | _ \<Rightarrow> None))"

definition ReadNextBlock ::
    "(bytes \<Rightarrow> 32 word) \<Rightarrow> RecordReader \<Rightarrow> bytes \<Rightarrow> (ReadResult \<times> RecordReader \<times> bytes) option" where
  "ReadNextBlock crc r inp =
     (if length inp < rr_block_size r then Some (READ_NO_DATA, r, inp)
      else
        let n = wrap64 (int (rr_block_size r) - int kBlockTrailerEnd); temp = take n inp in
        (case read_trailer (drop n inp) of
           None \<Rightarrow> None
         | Some ((size32, prev_crc, c), inp') \<Rightarrow>
             let content_size = wrap64 (sint size32);
                 temp2 = stream_WriteInt32 (stream_WriteInt32 temp (of_nat content_size)) prev_crc
             in if crc temp2 \<noteq> c \<or> content_size > n then Some (READ_CRC_CORRUPTED, r, inp')
                else Some (if prev_crc \<noteq> 0 \<and> rr_prev_block_crc r \<noteq> 0 \<and> prev_crc \<noteq> rr_prev_block_crc r
                           then READ_CRC_BLOCK_BROKEN else READ_OK,
                           r\<lparr>rr_prev_block_crc := c,
                             rr_content := rr_content r @ take content_size temp2\<rparr>, inp')))"

text \<open>The header of the next piece of the content: flags, length, the rest.\<close>

definition read_header :: "bytes \<Rightarrow> (byte \<times> nat \<times> bytes) option" where
  "read_header s =
     (if length s < 4 then None
      else case ReadByte LILENDIAN ls_Read s of (f, s1) \<Rightarrow>
           case ReadUInt24 LILENDIAN ls_Read BIGENDIAN s1 of (l, s2) \<Rightarrow>
           (case (f, l) of (Some flags, Some len) \<Rightarrow> Some (flags, unat len, s2) | _ \<Rightarrow> None))"

definition SkipRecord :: "RecordReader \<Rightarrow> RecordReader option" where
  "SkipRecord r =
     (case read_header (rr_content r) of
        None \<Rightarrow> None
      | Some (flags, crt_len, rest) \<Rightarrow>
          Some (r\<lparr>rr_content := drop crt_len rest, rr_skip_record := and flags HAS_CONT \<noteq> 0\<rparr>))"

lemma read_header_less: "read_header s = Some (flags, len, rest) \<Longrightarrow> length rest < length s"
  by (auto simp: read_header_def ReadByte_def ReadUInt24_def ReadScalar_def ReadNumber_def ls_Read_def
      Let_def split: if_splits option.splits)

lemma SkipRecord_less: "SkipRecord r = Some r' \<Longrightarrow> length (rr_content r') < length (rr_content r)"
  by (auto simp: SkipRecord_def dest!: read_header_less split: option.splits)

function skip_loop :: "nat \<Rightarrow> RecordReader \<Rightarrow> nat \<Rightarrow> (bool \<times> RecordReader \<times> nat) option" where
  "skip_loop max_num_skip r num_skipped =
     (if rr_skip_record r \<and> rr_content r \<noteq> [] then
        (case SkipRecord r of
           None \<Rightarrow> None
         | Some r' \<Rightarrow>
             if max_num_skip \<noteq> 0 \<and> max_num_skip \<le> num_skipped + 1 then Some (True, r', num_skipped + 1)
             else skip_loop max_num_skip r' (num_skipped + 1))
      else Some (False, r, num_skipped))"
  by pat_completeness auto
termination
  by (relation "measure (\<lambda>(m, r, n). length (rr_content r))") (auto dest: SkipRecord_less)

declare skip_loop.simps [simp del]

text \<open>
  One turn of the \<open>while (true)\<close> loop of \<open>ReadRecord\<close> either returns or goes on. The
  argument \<open>out\<close> is \<open>None\<close> for a null pointer: the record is then read and dropped.
\<close>

datatype read_step =
    Return ReadResult RecordReader bytes "bytes option" nat
  | Continue RecordReader bytes nat

definition fetch_block ::
    "(bytes \<Rightarrow> 32 word) \<Rightarrow> RecordReader \<Rightarrow> bytes \<Rightarrow> (ReadResult \<times> RecordReader \<times> bytes) option" where
  "fetch_block crc r inp =
     (if rr_content r \<noteq> [] then Some (READ_OK, r, inp)
      else case ReadNextBlock crc r inp of
        None \<Rightarrow> None
      | Some (ret, r1, inp1) \<Rightarrow>
          if ret = READ_CRC_BLOCK_BROKEN \<and> rr_record_content r1 \<noteq> []
          then Some (READ_OK, r1\<lparr>rr_skip_record := True\<rparr>, inp1)
          else Some (ret, r1, inp1))"

definition take_piece ::
    "(bytes \<Rightarrow> bool \<times> bytes) \<Rightarrow> RecordReader \<Rightarrow> bytes \<Rightarrow> bytes option \<Rightarrow> nat \<Rightarrow> nat \<Rightarrow> read_step option" where
  "take_piece inflate r inp out num_skipped max_num_skip =
     (case read_header (rr_content r) of
        None \<Rightarrow> None
      | Some (flags, len, rest) \<Rightarrow> Some (
          if and flags IS_FIRST \<noteq> 0 \<and> rr_record_content r \<noteq> [] then
            Return READ_CRC_CORRUPTED (r\<lparr>rr_content := drop len rest, rr_record_content := []\<rparr>)
              inp out (num_skipped + 1)
          else if out \<noteq> None \<and> rr_record_content r = [] \<and> and flags IS_FIRST = 0 then
            (if max_num_skip \<noteq> 0 \<and> max_num_skip \<le> num_skipped + 1
             then Return READ_OK (r\<lparr>rr_content := drop len rest\<rparr>) inp out (num_skipped + 1)
             else Continue (r\<lparr>rr_content := drop len rest\<rparr>) inp (num_skipped + 1))
          else
            let r1 = (if out \<noteq> None
                      then r\<lparr>rr_content := drop len rest,
                             rr_record_content := rr_record_content r @ take len rest\<rparr>
                      else r\<lparr>rr_content := drop len rest\<rparr>)
            in if and flags HAS_CONT \<noteq> 0 then Continue r1 inp num_skipped
               else (case out of
                 None \<Rightarrow> Return READ_OK (r1\<lparr>rr_record_content := []\<rparr>) inp None num_skipped
               | Some o' \<Rightarrow>
                   if and flags IS_ZIPPED \<noteq> 0 then
                     (case inflate (rr_record_content r1) of (ok, plain) \<Rightarrow>
                        Return (if ok then READ_OK else READ_ZIP_CORRUPTED)
                          (r1\<lparr>rr_record_content := []\<rparr>) inp (Some (o' @ plain)) num_skipped)
                   else Return READ_OK (r1\<lparr>rr_record_content := []\<rparr>) inp
                          (Some (o' @ rr_record_content r1)) num_skipped)))"

definition ReadRecord_step ::
    "(bytes \<Rightarrow> 32 word) \<Rightarrow> (bytes \<Rightarrow> bool \<times> bytes) \<Rightarrow> RecordReader \<Rightarrow> bytes \<Rightarrow> bytes option \<Rightarrow> nat \<Rightarrow> nat \<Rightarrow>
     read_step option" where
  "ReadRecord_step crc inflate r inp out num_skipped max_num_skip =
     (case fetch_block crc r inp of
        None \<Rightarrow> None
      | Some (ret, r1, inp1) \<Rightarrow>
          if ret \<noteq> READ_OK then Some (Return ret r1 inp1 out num_skipped)
          else (case skip_loop max_num_skip r1 num_skipped of
             None \<Rightarrow> None
           | Some (early, r2, n2) \<Rightarrow>
               if early then Some (Return READ_OK r2 inp1 out n2)
               else if rr_content r2 = [] then Some (Continue r2 inp1 n2)
               else take_piece inflate r2 inp1 out n2 max_num_skip))"

text \<open>The loop ends: every turn that goes on has consumed bytes of the block or of the input.\<close>

lemma read_trailer_less: "read_trailer s = Some (t, s') \<Longrightarrow> length s' + 12 = length s"
  by (auto simp: read_trailer_def ReadInt32_def ReadScalar_def ReadNumber_def ls_Read_def
      Let_def split: if_splits option.splits)

lemma ReadNextBlock_less:
  assumes "ReadNextBlock crc r inp = Some (READ_OK, r', inp') \<or>
    ReadNextBlock crc r inp = Some (READ_CRC_BLOCK_BROKEN, r', inp')"
  shows "length (rr_content r') + length inp' < length (rr_content r) + length inp"
proof -
  define n where "n = wrap64 (int (rr_block_size r) - int kBlockTrailerEnd)"
  from assms obtain s p c where t: "read_trailer (drop n inp) = Some ((s, p, c), inp')"
    and le: "wrap64 (sint s) \<le> n"
    and r': "rr_content r' = rr_content r @ take (wrap64 (sint s))
      (stream_WriteInt32 (stream_WriteInt32 (take n inp) (of_nat (wrap64 (sint s)))) p)"
    by (auto simp: ReadNextBlock_def n_def Let_def split: if_splits option.splits)
  have "length inp' + 12 = length inp - n" using read_trailer_less [OF t] by simp
  moreover have "length (rr_content r') \<le> length (rr_content r) + wrap64 (sint s)" using r' by simp
  ultimately show ?thesis using le by linarith
qed

lemma skip_loop_le:
  "skip_loop m r n = Some (e, r', n') \<Longrightarrow>
     length (rr_content r') \<le> length (rr_content r) \<and> (rr_skip_record r \<and> rr_content r \<noteq> [] \<longrightarrow> rr_content r' \<noteq> rr_content r)"
proof (induction m r n arbitrary: e r' n' rule: skip_loop.induct)
  case (1 m r n)
  show ?case
  proof (cases "rr_skip_record r \<and> rr_content r \<noteq> []")
    case False
    with "1.prems" show ?thesis by (auto simp: skip_loop.simps [of m r n])
  next
    case True
    then obtain r1 where r1: "SkipRecord r = Some r1"
      using "1.prems" by (auto simp: skip_loop.simps [of m r n] split: option.splits)
    note less = SkipRecord_less [OF r1]
    show ?thesis
    proof (cases "m \<noteq> 0 \<and> m \<le> n + 1")
      case e: True
      with "1.prems" True r1 less show ?thesis by (auto simp: skip_loop.simps [of m r n])
    next
      case ne: False
      then have "skip_loop m r1 (n + 1) = Some (e, r', n')"
        using "1.prems" True r1 by (auto simp: skip_loop.simps [of m r n])
      with "1.IH" [OF True r1 ne] less show ?thesis by fastforce
    qed
  qed
qed

lemma ReadRecord_step_less:
  assumes "ReadRecord_step crc inflate r inp out n m = Some (Continue r' inp' n')"
  shows "length (rr_content r') + length inp' < length (rr_content r) + length inp"
proof -
  from assms obtain r1 inp1 e r2 n2 where f: "fetch_block crc r inp = Some (READ_OK, r1, inp1)"
    and sk: "skip_loop m r1 n = Some (e, r2, n2)" and "\<not> e"
    and c: "rr_content r2 = [] \<and> r' = r2 \<and> inp' = inp1 \<or>
      rr_content r2 \<noteq> [] \<and> take_piece inflate r2 inp1 out n2 m = Some (Continue r' inp' n')"
    by (auto simp: ReadRecord_step_def split: option.splits if_splits)
  have le: "length (rr_content r1) + length inp1 \<le> length (rr_content r) + length inp \<and>
      (rr_content r = [] \<longrightarrow> length (rr_content r1) + length inp1 < length inp)"
    using f ReadNextBlock_less [of crc r inp]
    by (fastforce simp: fetch_block_def split: if_splits option.splits)
  from c show ?thesis
  proof
    assume "rr_content r2 = [] \<and> r' = r2 \<and> inp' = inp1"
    then show ?thesis using le by (cases "rr_content r = []") (use f in \<open>auto simp: fetch_block_def\<close>)
  next
    assume "rr_content r2 \<noteq> [] \<and> take_piece inflate r2 inp1 out n2 m = Some (Continue r' inp' n')"
    then obtain flags len rest where "read_header (rr_content r2) = Some (flags, len, rest)"
      and "rr_content r' = drop len rest" "inp' = inp1"
      by (auto simp: take_piece_def Let_def split: option.splits if_splits prod.splits)
    with read_header_less [of "rr_content r2" flags len rest] skip_loop_le [OF sk] le show ?thesis by auto
  qed
qed

function ReadRecord ::
    "(bytes \<Rightarrow> 32 word) \<Rightarrow> (bytes \<Rightarrow> bool \<times> bytes) \<Rightarrow> RecordReader \<Rightarrow> bytes \<Rightarrow> bytes option \<Rightarrow> nat \<Rightarrow> nat \<Rightarrow>
     (ReadResult \<times> RecordReader \<times> bytes \<times> bytes option \<times> nat) option" where
  "ReadRecord crc inflate r inp out num_skipped max_num_skip =
     (case ReadRecord_step crc inflate r inp out num_skipped max_num_skip of
        None \<Rightarrow> None
      | Some (Return ret r' inp' out' n') \<Rightarrow> Some (ret, r', inp', out', n')
      | Some (Continue r' inp' n') \<Rightarrow> ReadRecord crc inflate r' inp' out n' max_num_skip)"
  by pat_completeness auto
termination
  by (relation "measure (\<lambda>(crc, inflate, r, inp, out, n, m). length (rr_content r) + length inp)")
    (auto dest: ReadRecord_step_less)

declare ReadRecord.simps [simp del]

section \<open>Numbers on the wire\<close>

interpretation ls: byte_stream "\<lambda>s. s" "\<lambda>_. True" ls_Read ls_Peek ls_Write
  by unfold_locales (simp_all add: ls_Read_def ls_Peek_def ls_Write_def)

definition be24 :: "nat \<Rightarrow> bytes" where
  "be24 n = rev (le_bytes 3 n)"

definition be32 :: "32 word \<Rightarrow> bytes" where
  "be32 w = rev (le_bytes 4 (unat w))"

lemma length_be [simp]: "length (be24 n) = 3" "length (be32 w) = 4"
  by (simp_all add: be24_def be32_def)

lemma stream_WriteByte_eq [simp]: "stream_WriteByte s v = s @ [v]"
  using ls.WriteNumber_content [where s = s and ho = LILENDIAN and order = LILENDIAN and mem = "scalar_mem LILENDIAN 1 (unat v)"]
  by (auto simp: stream_WriteByte_def WriteByte_def scalar_mem_def)

lemma stream_WriteInt32_eq [simp]: "stream_WriteInt32 s v = s @ be32 v"
  using ls.WriteNumber_content [where s = s and ho = LILENDIAN and order = BIGENDIAN and mem = "scalar_mem LILENDIAN 4 (unat v)"]
  by (auto simp: stream_WriteInt32_def WriteInt32_def scalar_mem_def be32_def)

lemma uint24_mem_le_bytes: "uint24_mem (uint24_of_int32 LILENDIAN x) = le_bytes 3 (unat x)"
  by (simp add: uint24_mem_def uint24_of_int32_def numeral_3_eq_3 div_mult2_eq [symmetric])

lemma stream_WriteUInt24_eq [simp]: "stream_WriteUInt24 s v = s @ be24 (unat v)"
  using ls.WriteNumber_content [where s = s and ho = LILENDIAN and order = BIGENDIAN and mem = "uint24_mem (uint24_of_int32 LILENDIAN v)"]
  by (auto simp: stream_WriteUInt24_def WriteUInt24_def uint24_mem_le_bytes be24_def)

lemma ReadByte_Cons: "ReadByte LILENDIAN ls_Read (b # s) = (Some b, s)"
  by (simp add: ReadByte_def ReadScalar_def ReadNumber_def ls_Read_def scalar_value_def)

lemma ReadInt32_be32: "ReadInt32 LILENDIAN ls_Read BIGENDIAN (be32 w @ s) = (Some w, s)"
proof -
  note r = ls.ReadNumber_content [where s = "be32 w @ s" and ho = LILENDIAN and order = BIGENDIAN and mem = "scalar_mem LILENDIAN 4 (unat w)" and rest = s]
  have "ReadNumber LILENDIAN ls_Read BIGENDIAN 4 (be32 w @ s) = (Some (scalar_mem LILENDIAN 4 (unat w)), s)"
    using r by (intro prod_eqI) (simp_all add: be32_def scalar_mem_def)
  moreover have "unat w mod 4294967296 = unat w"
    using unsigned_less [of w, where 'a = nat] by simp
  ultimately show ?thesis by (simp add: ReadInt32_def ReadScalar_def scalar_value_mem)
qed

lemma ReadUInt24_be24:
  assumes "n < 2 ^ 24"
  shows "ReadUInt24 LILENDIAN ls_Read BIGENDIAN (be24 n @ s) = (Some (of_nat n), s)"
proof -
  let ?mem = "uint24_mem (uint24_of_int32 LILENDIAN (of_nat n))"
  have u: "unat (of_nat n :: 32 word) = n" using assms by (simp add: unat_of_nat)
  then have m: "?mem = le_bytes 3 n" by (simp add: uint24_mem_le_bytes)
  note r = ls.ReadNumber_content [where s = "be24 n @ s" and ho = LILENDIAN and order = BIGENDIAN and mem = ?mem and rest = s]
  have "ReadNumber LILENDIAN ls_Read BIGENDIAN 3 (be24 n @ s) = (Some ?mem, s)"
    using r by (intro prod_eqI) (simp_all add: be24_def m)
  then show ?thesis using u assms by (simp add: ReadUInt24_def uint32_of_uint24_of_int32_le)
qed

section \<open>Pieces and blocks\<close>

text \<open>
  A piece is the part of a record that lies in one block, with the two flags of its
  header. The file format is a function of the pieces: \<open>piece_bytes\<close>, \<open>block_image\<close> and
  \<open>log_image\<close> write it down without reference to the writer.
\<close>

record piece =
  p_first :: bool
  p_cont :: bool
  p_data :: bytes

definition piece_flags :: "piece \<Rightarrow> byte" where
  "piece_flags p = or (if p_cont p then HAS_CONT else 0) (if p_first p then IS_FIRST else 0)"

definition piece_bytes :: "piece \<Rightarrow> bytes" where
  "piece_bytes p = piece_flags p # be24 (length (p_data p)) @ p_data p"

definition pieces_bytes :: "piece list \<Rightarrow> bytes" where
  "pieces_bytes ps = concat (map piece_bytes ps)"

definition block_body :: "nat \<Rightarrow> 32 word \<Rightarrow> piece list \<Rightarrow> bytes" where
  "block_body bs prev ps =
     (let c = pieces_bytes ps
      in c @ replicate (bs - length c - 12) 0 @ be32 (of_nat (length c)) @ be32 prev)"

definition block_image :: "(bytes \<Rightarrow> 32 word) \<Rightarrow> nat \<Rightarrow> 32 word \<Rightarrow> piece list \<Rightarrow> bytes" where
  "block_image crc bs prev ps = block_body bs prev ps @ be32 (crc (block_body bs prev ps))"

fun log_image :: "(bytes \<Rightarrow> 32 word) \<Rightarrow> nat \<Rightarrow> 32 word \<Rightarrow> piece list list \<Rightarrow> bytes" where
  "log_image crc bs prev [] = []"
| "log_image crc bs prev (ps # bl) = block_image crc bs prev ps @ log_image crc bs (crc (block_body bs prev ps)) bl"

fun log_crc :: "(bytes \<Rightarrow> 32 word) \<Rightarrow> nat \<Rightarrow> 32 word \<Rightarrow> piece list list \<Rightarrow> 32 word" where
  "log_crc crc bs prev [] = prev"
| "log_crc crc bs prev (ps # bl) = log_crc crc bs (crc (block_body bs prev ps)) bl"

definition piece_ok :: "piece \<Rightarrow> bool" where
  "piece_ok p \<longleftrightarrow> length (p_data p) < 2 ^ 24"

definition block_ok :: "nat \<Rightarrow> piece list \<Rightarrow> bool" where
  "block_ok bs ps \<longleftrightarrow> ps \<noteq> [] \<and> length (pieces_bytes ps) + 12 \<le> bs \<and> bs < kMaximumRecordBlockSize"

lemma pieces_bytes_simps [simp]:
  "pieces_bytes [] = []" "pieces_bytes (p # ps) = piece_bytes p @ pieces_bytes ps"
  "pieces_bytes (ps @ qs) = pieces_bytes ps @ pieces_bytes qs"
  by (simp_all add: pieces_bytes_def)

lemma length_piece_bytes [simp]: "length (piece_bytes p) = 4 + length (p_data p)"
  by (simp add: piece_bytes_def)

lemma pieces_bytes_Nil [simp]: "pieces_bytes ps = [] \<longleftrightarrow> ps = []"
  by (cases ps) (auto simp: piece_bytes_def)

lemma piece_ok_block: "length (pieces_bytes ps) + 12 \<le> bs \<Longrightarrow> bs < kMaximumRecordBlockSize \<Longrightarrow> p \<in> set ps \<Longrightarrow> piece_ok p"
  by (induction ps) (auto simp: piece_ok_def kMaximumRecordBlockSize_def)

lemma piece_flags_bits [simp]:
  "and (piece_flags p) HAS_CONT \<noteq> 0 \<longleftrightarrow> p_cont p" "and (piece_flags p) HAS_CONT = 0 \<longleftrightarrow> \<not> p_cont p"
  "and (piece_flags p) IS_FIRST \<noteq> 0 \<longleftrightarrow> p_first p" "and (piece_flags p) IS_FIRST = 0 \<longleftrightarrow> \<not> p_first p"
  "and (piece_flags p) IS_ZIPPED = 0"
  by (simp_all add: piece_flags_def HAS_CONT_def IS_FIRST_def IS_ZIPPED_def)

lemma read_header_piece:
  "piece_ok p \<Longrightarrow> read_header (piece_bytes p @ s) = Some (piece_flags p, length (p_data p), p_data p @ s)"
  by (simp add: read_header_def piece_bytes_def ReadByte_Cons ReadUInt24_be24 piece_ok_def unat_of_nat)

lemma length_block_body: "length (pieces_bytes ps) + 12 \<le> bs \<Longrightarrow> length (block_body bs prev ps) = bs - 4"
  by (simp add: block_body_def Let_def)

lemma length_block_image: "length (pieces_bytes ps) + 12 \<le> bs \<Longrightarrow> length (block_image crc bs prev ps) = bs"
  by (simp add: block_image_def length_block_body)

lemma log_image_append:
  "log_image crc bs prev (xs @ ys) = log_image crc bs prev xs @ log_image crc bs (log_crc crc bs prev xs) ys"
  by (induction xs arbitrary: prev) auto

lemma log_crc_append: "log_crc crc bs prev (xs @ ys) = log_crc crc bs (log_crc crc bs prev xs) ys"
  by (induction xs arbitrary: prev) auto

lemma length_log_image:
  "\<forall>ps \<in> set bl. block_ok bs ps \<Longrightarrow> length (log_image crc bs prev bl) = bs * length bl"
  by (induction bl arbitrary: prev) (auto simp: block_ok_def length_block_image)

section \<open>The writer produces the format\<close>

text \<open>How a list of pieces carries a record; \<open>f\<close> tells whether its first piece is still to come.\<close>

fun splits :: "bool \<Rightarrow> bytes \<Rightarrow> piece list \<Rightarrow> bool" where
  "splits f r [] = False"
| "splits f r (p # ps) =
     (p_first p = f \<and>
      (if p_cont p
       then p_data p \<noteq> [] \<and> take (length (p_data p)) r = p_data p \<and> splits False (drop (length (p_data p)) r) ps
       else p_data p = r \<and> ps = []))"

definition rw_ok :: "RecordWriter \<Rightarrow> bool" where
  "rw_ok w \<longleftrightarrow> length (rw_content w) \<le> rw_dumpable_size w \<and>
     rw_dumpable_size w + 16 < rw_block_size w \<and> rw_block_size w < kMaximumRecordBlockSize"

definition rw_holds :: "RecordWriter \<Rightarrow> piece list \<Rightarrow> bool" where
  "rw_holds w cur \<longleftrightarrow> rw_content w = pieces_bytes cur \<and> rw_content_record_count w = length cur"

definition rw_after :: "(bytes \<Rightarrow> 32 word) \<Rightarrow> RecordWriter \<Rightarrow> piece list list \<Rightarrow> piece list \<Rightarrow> RecordWriter \<Rightarrow> bool" where
  "rw_after crc w bl cur w' \<longleftrightarrow> rw_holds w' cur \<and> rw_block_size w' = rw_block_size w \<and>
     rw_dumpable_size w' = rw_dumpable_size w \<and> rw_zlib w' = rw_zlib w \<and>
     rw_prev_block_crc w' = log_crc crc (rw_block_size w) (rw_prev_block_crc w) bl"

lemma rw_after_trans:
  "rw_after crc w bl cur w1 \<Longrightarrow> rw_after crc w1 bl' cur' w2 \<Longrightarrow> rw_after crc w (bl @ bl') cur' w2"
  by (simp add: rw_after_def log_crc_append)

lemma available_eq:
  assumes "length (rw_content w) + 16 \<le> rw_block_size w" and "rw_block_size w < kMaximumRecordBlockSize"
  shows "available w = rw_block_size w - 16 - length (rw_content w)"
  using assms by (simp add: available_def wrap64_def kBlockTrailerEnd_def kRecordHeaderSize_def
      kMaximumRecordBlockSize_def)

lemma add_piece_holds:
  assumes "rw_holds w cur" and "length (p_data p) < 2 ^ 24"
  shows "rw_holds (add_piece w (piece_flags p) (length (p_data p)) (p_data p)) (cur @ [p])"
  using assms by (simp add: rw_holds_def add_piece_def piece_bytes_def unat_of_nat)

lemma FinalizeContent_holds:
  assumes "rw_holds w cur" and "cur \<noteq> []" and "length (pieces_bytes cur) + 12 \<le> rw_block_size w"
  shows "\<exists>w'. FinalizeContent crc w out =
           Some (w', out @ log_image crc (rw_block_size w) (rw_prev_block_crc w) [cur]) \<and>
         rw_after crc w [cur] [] w'"
  using assms by (simp add: FinalizeContent_def rw_holds_def rw_after_def Let_def kBlockTrailerEnd_def
      block_image_def block_body_def add.commute)

definition loop_wrote :: "(bytes \<Rightarrow> 32 word) \<Rightarrow> RecordWriter \<Rightarrow> piece list \<Rightarrow> bool \<Rightarrow> bytes \<Rightarrow> bytes \<Rightarrow> nat \<Rightarrow>
    (RecordWriter \<times> bytes \<times> nat) option \<Rightarrow> bool" where
  "loop_wrote crc w cur f p out n res \<longleftrightarrow>
     (\<exists>bl ps cur' w'. res = Some (w', out @ log_image crc (rw_block_size w) (rw_prev_block_crc w) bl, n + length bl) \<and>
        rw_after crc w bl cur' w' \<and> concat bl @ cur' = cur @ ps \<and> splits f p ps \<and>
        (\<forall>b \<in> set bl. block_ok (rw_block_size w) b) \<and> cur' \<noteq> [] \<and>
        length (pieces_bytes cur') + 12 \<le> rw_block_size w)"

lemma loop_wrote_last:
  assumes "rw_holds w cur" and "length (rw_content w) + 16 + length p \<le> rw_block_size w"
    and "rw_block_size w < kMaximumRecordBlockSize"
  shows "loop_wrote crc w cur f p out n (Some (add_piece w (if f then IS_FIRST else 0) (length p) p, out, n))"
proof -
  define x where "x = \<lparr>p_first = f, p_cont = False, p_data = p\<rparr>"
  have "length p < 2 ^ 24" using assms(2,3) by (simp add: kMaximumRecordBlockSize_def)
  then have "rw_holds (add_piece w (if f then IS_FIRST else 0) (length p) p) (cur @ [x])"
    using add_piece_holds [OF assms(1), of x] by (simp add: x_def piece_flags_def)
  then have "rw_after crc w [] (cur @ [x]) (add_piece w (if f then IS_FIRST else 0) (length p) p)"
    by (simp add: rw_after_def) (simp add: add_piece_def)
  then show ?thesis
    unfolding loop_wrote_def using assms
    by (intro exI [of _ "[]"] exI [of _ "[x]"] exI [of _ "cur @ [x]"] exI) (auto simp: x_def rw_holds_def)
qed

lemma loop_wrote_step:
  assumes "rw_holds w cur" and "length (rw_content w) + 16 < rw_block_size w"
    and "rw_block_size w < kMaximumRecordBlockSize" and "available w < length p"
    and "\<And>w' out'. rw_holds w' [] \<Longrightarrow> rw_block_size w' = rw_block_size w \<Longrightarrow>
           loop_wrote crc w' [] False (drop (available w) p) out' (n + 1) (rest w' out')"
  shows "loop_wrote crc w cur f p out n (Option.bind
      (FinalizeContent crc (add_piece w (or HAS_CONT (if f then IS_FIRST else 0)) (available w)
        (take (available w) p)) out) (\<lambda>(w', out'). rest w' out'))"
proof -
  define x where "x = \<lparr>p_first = f, p_cont = True, p_data = take (available w) p\<rparr>"
  have av: "available w = rw_block_size w - 16 - length (rw_content w)"
    using assms(2,3) by (intro available_eq) auto
  have len: "length (p_data x) = available w" using assms(4) by (simp add: x_def)
  define w1 where "w1 = add_piece w (or HAS_CONT (if f then IS_FIRST else 0)) (available w) (take (available w) p)"
  have same: "rw_block_size w1 = rw_block_size w" "rw_prev_block_crc w1 = rw_prev_block_crc w"
      "rw_zlib w1 = rw_zlib w" "rw_dumpable_size w1 = rw_dumpable_size w"
    by (simp_all add: w1_def add_piece_def)
  have w1: "rw_holds w1 (cur @ [x])"
    using add_piece_holds [OF assms(1), of x] len av assms(3)
    by (simp add: x_def w1_def piece_flags_def kMaximumRecordBlockSize_def)
  have fit: "length (pieces_bytes (cur @ [x])) + 12 \<le> rw_block_size w"
    using assms(1,2) len av by (simp add: rw_holds_def)
  from FinalizeContent_holds [OF w1 _ fit [folded same], of crc out] obtain w2 where
    fin: "FinalizeContent crc w1 out = Some (w2, out @ log_image crc (rw_block_size w) (rw_prev_block_crc w) [cur @ [x]])"
    and w2: "rw_after crc w1 [cur @ [x]] [] w2" using same by auto
  have w2': "rw_after crc w [cur @ [x]] [] w2" using w2 same by (simp add: rw_after_def)
  have "loop_wrote crc w2 [] False (drop (available w) p)
      (out @ log_image crc (rw_block_size w) (rw_prev_block_crc w) [cur @ [x]]) (n + 1)
      (rest w2 (out @ log_image crc (rw_block_size w) (rw_prev_block_crc w) [cur @ [x]]))"
    using w2' by (intro assms(5)) (auto simp: rw_after_def)
  then obtain bl ps cur' w' where
    r: "rest w2 (out @ log_image crc (rw_block_size w) (rw_prev_block_crc w) [cur @ [x]]) =
        Some (w', (out @ log_image crc (rw_block_size w) (rw_prev_block_crc w) [cur @ [x]]) @
          log_image crc (rw_block_size w2) (rw_prev_block_crc w2) bl, n + 1 + length bl)"
    and a: "rw_after crc w2 bl cur' w'" "concat bl @ cur' = [] @ ps" "splits False (drop (available w) p) ps"
      "\<forall>b \<in> set bl. block_ok (rw_block_size w2) b" "cur' \<noteq> []" "length (pieces_bytes cur') + 12 \<le> rw_block_size w2"
    unfolding loop_wrote_def by blast
  have d: "rw_block_size w2 = rw_block_size w"
    "rw_prev_block_crc w2 = log_crc crc (rw_block_size w) (rw_prev_block_crc w) [cur @ [x]]"
    using w2' by (simp_all add: rw_after_def)
  have sp: "splits f p (x # ps)"
    using a(3) assms(2,4) av by (auto simp: x_def min_def)
  show ?thesis
    unfolding loop_wrote_def w1_def [symmetric] fin
    using r a d sp rw_after_trans [OF w2' a(1)] fit assms(3)
    by (intro exI [of _ "(cur @ [x]) # bl"] exI [of _ "x # ps"] exI [of _ cur'] exI [of _ w'])
      (auto simp: block_ok_def)
qed

lemma append_buffer_loop_correct:
  assumes "rw_holds w cur" and "length (rw_content w) + 16 < rw_block_size w"
    and "rw_block_size w < kMaximumRecordBlockSize"
  shows "loop_wrote crc w cur f p out n (append_buffer_loop crc w p out f n)"
  using assms
proof (induction "length p" arbitrary: w cur p out f n rule: less_induct)
  case less
  have av: "available w = rw_block_size w - 16 - length (rw_content w)"
    using less.prems by (intro available_eq) auto
  show ?case
  proof (cases "length p \<le> available w")
    case True
    with loop_wrote_last [OF less.prems(1), of p crc f out n] less.prems av show ?thesis
      by (simp add: append_buffer_loop.simps)
  next
    case False
    have step: "append_buffer_loop crc w p out f n = Option.bind
      (FinalizeContent crc (add_piece w (or HAS_CONT (if f then IS_FIRST else 0)) (available w)
        (take (available w) p)) out)
      (\<lambda>(w', out'). append_buffer_loop crc w' (drop (available w) p) out' False (n + 1))"
      using False by (subst append_buffer_loop.simps) (simp add: not_le)
    show ?thesis unfolding step
    proof (rule loop_wrote_step [OF less.prems])
      show "available w < length p" using False by simp
      fix w' :: RecordWriter and out'
      assume "rw_holds w' []" "rw_block_size w' = rw_block_size w"
      with less.prems av False show "loop_wrote crc w' [] False (drop (available w) p) out' (n + 1)
          (append_buffer_loop crc w' (drop (available w) p) out' False (n + 1))"
        by (intro less.hyps) (auto simp: rw_holds_def)
    qed
  qed
qed

lemma FinalizeContent_Some:
  "FinalizeContent crc w out = Some (w', out') \<Longrightarrow>
     rw_content w' = [] \<and> rw_block_size w' = rw_block_size w \<and> rw_dumpable_size w' = rw_dumpable_size w"
  by (auto simp: FinalizeContent_def Let_def split: if_splits)

text \<open>The two loops agree on a record that is not empty.\<close>

lemma append_loops_agree:
  assumes "p \<noteq> []" and "length (rw_content w) + 16 < rw_block_size w" and "rw_block_size w < kMaximumRecordBlockSize"
  shows "append_stream_loop crc w p out f n = append_buffer_loop crc w p out f n"
  using assms
proof (induction "length p" arbitrary: w p out f n rule: less_induct)
  case less
  have av: "available w = rw_block_size w - 16 - length (rw_content w)"
    using less.prems by (intro available_eq) auto
  show ?case
  proof (cases "length p \<le> available w")
    case True
    with less.prems show ?thesis
      by (simp add: append_stream_loop.simps [of crc w p] append_stream_loop.simps [of crc _ "[]"]
          append_buffer_loop.simps [of crc w p])
  next
    case False
    have "append_stream_loop crc w' (drop (available w) p) out' False (n + 1) =
        append_buffer_loop crc w' (drop (available w) p) out' False (n + 1)"
      if "FinalizeContent crc (add_piece w (or HAS_CONT (if f then IS_FIRST else 0)) (available w)
        (take (available w) p)) out = Some (w', out')" for w' out'
      using less.prems av False FinalizeContent_Some [OF that]
      by (intro less.hyps) (auto simp: add_piece_def)
    with False less.prems show ?thesis
      by (subst append_stream_loop.simps, subst append_buffer_loop.simps)
        (auto split: Option.bind_splits)
  qed
qed

definition rw_wrote :: "(bytes \<Rightarrow> 32 word) \<Rightarrow> RecordWriter \<Rightarrow> piece list \<Rightarrow> piece list \<Rightarrow> bytes \<Rightarrow>
    piece list list \<Rightarrow> RecordWriter \<Rightarrow> bytes \<Rightarrow> piece list \<Rightarrow> bool" where
  "rw_wrote crc w cur ps out bl w' out' cur' \<longleftrightarrow>
     out' = out @ log_image crc (rw_block_size w) (rw_prev_block_crc w) bl \<and>
     rw_after crc w bl cur' w' \<and> rw_ok w' \<and> concat bl @ cur' = cur @ ps \<and>
     (\<forall>b \<in> set bl. block_ok (rw_block_size w) b)"

lemma append_dump_correct:
  assumes "loop_wrote crc w cur f p out 0 res" and "rw_ok w"
  shows "\<exists>bl ps cur' w' out'. Option.bind res (append_dump crc) = Some (bl \<noteq> [], w', out') \<and>
    splits f p ps \<and> rw_wrote crc w cur ps out bl w' out' cur'"
proof -
  let ?img = "log_image crc (rw_block_size w) (rw_prev_block_crc w)"
  from assms(1) obtain bl ps cur' w' where
    res: "res = Some (w', out @ ?img bl, length bl)"
    and a: "rw_after crc w bl cur' w'" "concat bl @ cur' = cur @ ps" "splits f p ps"
      "\<forall>b \<in> set bl. block_ok (rw_block_size w) b" "cur' \<noteq> []"
      "length (pieces_bytes cur') + 12 \<le> rw_block_size w"
    unfolding loop_wrote_def by auto
  have w': "rw_holds w' cur'" "rw_block_size w' = rw_block_size w" "rw_dumpable_size w' = rw_dumpable_size w"
    using a(1) by (simp_all add: rw_after_def)
  show ?thesis
  proof (cases "length (rw_content w') > rw_dumpable_size w'")
    case True
    have fit: "length (pieces_bytes cur') + 12 \<le> rw_block_size w'" using a(6) w'(2) by simp
    from FinalizeContent_holds [OF w'(1) a(5) fit, of crc "out @ ?img bl"] obtain w2 where
      fin: "FinalizeContent crc w' (out @ ?img bl) =
        Some (w2, (out @ ?img bl) @ log_image crc (rw_block_size w') (rw_prev_block_crc w') [cur'])"
      and w2: "rw_after crc w' [cur'] [] w2" by blast
    have "(out @ ?img bl) @ log_image crc (rw_block_size w') (rw_prev_block_crc w') [cur'] = out @ ?img (bl @ [cur'])"
      using a(1) by (simp only: log_image_append) (simp add: rw_after_def)
    moreover have aft: "rw_after crc w (bl @ [cur']) [] w2" using rw_after_trans [OF a(1) w2] .
    moreover have "rw_ok w2" using aft assms(2) by (simp add: rw_ok_def rw_after_def rw_holds_def)
    moreover have "block_ok (rw_block_size w) cur'" using a(5,6) assms(2) by (simp add: block_ok_def rw_ok_def)
    ultimately have "rw_wrote crc w cur ps out (bl @ [cur']) w2 (out @ ?img (bl @ [cur'])) []"
      using a(2,4) by (simp add: rw_wrote_def)
    moreover have "Option.bind res (append_dump crc) = Some (True, w2, out @ ?img (bl @ [cur']))"
      using res fin True \<open>(out @ ?img bl) @ _ = _\<close> by (simp add: append_dump_def)
    ultimately show ?thesis using a(3) 
      by (intro exI [of _ "bl @ [cur']"] exI [of _ ps] exI [of _ "[]"] exI [of _ w2] exI) auto
  next
    case False
    then have "rw_ok w'" using w' assms(2) by (simp add: rw_ok_def)
    then show ?thesis using a res False
      by (intro exI [of _ bl] exI [of _ ps] exI [of _ cur'] exI [of _ w'])
        (auto simp: append_dump_def rw_wrote_def Suc_le_eq)
  qed
qed

lemma AppendRecord_holds:
  assumes "rw_ok w" and "rw_holds w cur" and "\<not> rw_zlib w"
  shows "\<exists>bl ps cur' w' out'. AppendRecord crc deflate w r out = Some (bl \<noteq> [], w', out') \<and>
    splits True r ps \<and> rw_wrote crc w cur ps out bl w' out' cur'"
proof -
  have "loop_wrote crc w cur True r out 0 (append_buffer_loop crc w r out True 0)"
    using assms by (intro append_buffer_loop_correct) (auto simp: rw_ok_def)
  from append_dump_correct [OF this assms(1)] assms(3) show ?thesis by (simp add: AppendRecord_def)
qed

lemma rw_wrote_trans:
  assumes "rw_wrote crc w cur ps out bl w1 out1 cur1" and "rw_wrote crc w1 cur1 qs out1 bl' w2 out2 cur2"
  shows "rw_wrote crc w cur (ps @ qs) out (bl @ bl') w2 out2 cur2"
proof -
  have b: "rw_block_size w1 = rw_block_size w"
    "rw_prev_block_crc w1 = log_crc crc (rw_block_size w) (rw_prev_block_crc w) bl"
    using assms(1) by (simp_all add: rw_wrote_def rw_after_def)
  have "concat bl @ concat bl' @ cur2 = cur @ ps @ qs"
    using assms unfolding rw_wrote_def by (metis append.assoc)
  with assms b rw_after_trans [of crc w bl cur1 w1 bl' cur2 w2] show ?thesis
    by (auto simp: rw_wrote_def log_image_append)
qed

text \<open>A sequence of records appended one after the other, and the last block flushed.\<close>

fun AppendRecords :: "(bytes \<Rightarrow> 32 word) \<Rightarrow> (bytes \<Rightarrow> bytes) \<Rightarrow> RecordWriter \<Rightarrow> bytes list \<Rightarrow> bytes \<Rightarrow>
    (RecordWriter \<times> bytes) option" where
  "AppendRecords crc deflate w [] out = Some (w, out)"
| "AppendRecords crc deflate w (r # rs) out =
     Option.bind (AppendRecord crc deflate w r out) (\<lambda>(_, w', out'). AppendRecords crc deflate w' rs out')"

definition splits_all :: "bytes list \<Rightarrow> piece list \<Rightarrow> bool" where
  "splits_all rs ps \<longleftrightarrow> (\<exists>pss. ps = concat pss \<and> list_all2 (splits True) rs pss)"

lemma splits_all_Nil [simp]: "splits_all [] ps \<longleftrightarrow> ps = []"
  by (auto simp: splits_all_def)

lemma splits_all_Cons: "splits_all (r # rs) ps \<longleftrightarrow> (\<exists>q qs. ps = q @ qs \<and> splits True r q \<and> splits_all rs qs)"
proof
  assume "splits_all (r # rs) ps"
  then show "\<exists>q qs. ps = q @ qs \<and> splits True r q \<and> splits_all rs qs"
    unfolding splits_all_def list_all2_Cons1 by (metis concat.simps(2))
next
  assume "\<exists>q qs. ps = q @ qs \<and> splits True r q \<and> splits_all rs qs"
  then obtain q pss where "ps = concat (q # pss)" "list_all2 (splits True) (r # rs) (q # pss)"
    by (auto simp: splits_all_def)
  then show "splits_all (r # rs) ps" unfolding splits_all_def by blast
qed

lemma AppendRecords_holds:
  assumes "rw_ok w" and "rw_holds w cur" and "\<not> rw_zlib w"
  shows "\<exists>bl ps cur' w' out'. AppendRecords crc deflate w rs out = Some (w', out') \<and>
    splits_all rs ps \<and> rw_wrote crc w cur ps out bl w' out' cur'"
  using assms
proof (induction rs arbitrary: w cur out)
  case Nil
  then show ?case
    by (intro exI [of _ "[]"] exI [of _ "[]"] exI [of _ cur] exI [of _ w] exI [of _ out])
      (simp add: rw_wrote_def rw_after_def)
next
  case (Cons r rs)
  from AppendRecord_holds [OF Cons.prems, of crc deflate r out] obtain bl ps cur1 w1 out1 where
    a: "AppendRecord crc deflate w r out = Some (bl \<noteq> [], w1, out1)" "splits True r ps"
      "rw_wrote crc w cur ps out bl w1 out1 cur1" by blast
  have "rw_ok w1" "rw_holds w1 cur1" "\<not> rw_zlib w1"
    using a(3) Cons.prems(3) by (simp_all add: rw_wrote_def rw_after_def)
  from Cons.IH [OF this, of out1] obtain bl' qs cur' w' out' where
    b: "AppendRecords crc deflate w1 rs out1 = Some (w', out')" "splits_all rs qs"
      "rw_wrote crc w1 cur1 qs out1 bl' w' out' cur'" by blast
  have "splits_all (r # rs) (ps @ qs)" using a(2) b(2) by (auto simp: splits_all_Cons)
  with a b rw_wrote_trans [OF a(3) b(3)] show ?case by auto
qed

definition WriteLog :: "(bytes \<Rightarrow> 32 word) \<Rightarrow> (bytes \<Rightarrow> bytes) \<Rightarrow> RecordWriter \<Rightarrow> bytes list \<Rightarrow> (RecordWriter \<times> bytes) option" where
  "WriteLog crc deflate w rs =
     Option.bind (AppendRecords crc deflate w rs []) (\<lambda>(w', out). FinalizeContent crc w' out)"

lemma WriteLog_image:
  assumes "rw_ok w" and "rw_holds w []" and "\<not> rw_zlib w"
  obtains w' bl where "WriteLog crc deflate w rs =
      Some (w', log_image crc (rw_block_size w) (rw_prev_block_crc w) bl)"
    and "rw_after crc w bl [] w'" and "splits_all rs (concat bl)"
    and "\<forall>b \<in> set bl. block_ok (rw_block_size w) b"
proof -
  from AppendRecords_holds [OF assms, of crc deflate rs "[]"] obtain bl ps cur' w1 out where
    a: "AppendRecords crc deflate w rs [] = Some (w1, out)" "splits_all rs ps"
      "rw_wrote crc w [] ps [] bl w1 out cur'" by blast
  then have ps: "concat bl @ cur' = ps" and out: "out = log_image crc (rw_block_size w) (rw_prev_block_crc w) bl"
    and ok: "rw_ok w1" and aft: "rw_after crc w bl cur' w1" and blk: "\<forall>b \<in> set bl. block_ok (rw_block_size w) b"
    by (auto simp: rw_wrote_def)
  have h: "rw_holds w1 cur'" and b1: "rw_block_size w1 = rw_block_size w" using aft by (auto simp: rw_after_def)
  show ?thesis
  proof (cases "cur' = []")
    case True
    then have "FinalizeContent crc w1 out = Some (w1, out)" using h by (simp add: FinalizeContent_def rw_holds_def)
    with that [of w1 bl] a ps out aft blk True show ?thesis by (simp add: WriteLog_def)
  next
    case False
    have fit: "length (pieces_bytes cur') + 12 \<le> rw_block_size w1" using h ok by (simp add: rw_ok_def rw_holds_def)
    from FinalizeContent_holds [OF h False fit, of crc out] obtain w2 where
      f: "FinalizeContent crc w1 out = Some (w2, out @ log_image crc (rw_block_size w1) (rw_prev_block_crc w1) [cur'])"
      "rw_after crc w1 [cur'] [] w2" by blast
    have "out @ log_image crc (rw_block_size w1) (rw_prev_block_crc w1) [cur'] =
        log_image crc (rw_block_size w) (rw_prev_block_crc w) (bl @ [cur'])"
      using aft by (simp only: log_image_append) (simp add: out rw_after_def)
    moreover have "block_ok (rw_block_size w) cur'" using False fit b1 ok by (simp add: block_ok_def rw_ok_def)
    ultimately show ?thesis
      using that [of w2 "bl @ [cur']"] f a ps blk rw_after_trans [OF aft f(2)] by (simp add: WriteLog_def)
  qed
qed

section \<open>The reader reads the format\<close>

definition rr_holds :: "(bytes \<Rightarrow> 32 word) \<Rightarrow> RecordReader \<Rightarrow> bytes \<Rightarrow> piece list \<Rightarrow> piece list list \<Rightarrow> bool" where
  "rr_holds crc r inp cur bl \<longleftrightarrow> rr_content r = pieces_bytes cur \<and> (\<forall>p \<in> set cur. piece_ok p) \<and>
     \<not> rr_skip_record r \<and> inp = log_image crc (rr_block_size r) (rr_prev_block_crc r) bl \<and>
     (\<forall>b \<in> set bl. block_ok (rr_block_size r) b)"

lemma read_trailer_be32:
  "read_trailer (be32 a @ be32 b @ be32 c @ s) = Some ((a, b, c), s)"
  by (simp add: read_trailer_def ReadInt32_be32)

lemma wrap64_sint_of_nat: "n < 2 ^ 31 \<Longrightarrow> wrap64 (sint (of_nat n :: 32 word)) = n"
  by (simp add: wrap64_def signed_of_nat signed_take_bit_int_eq_self)

lemma of_int_mod_64: "(of_int (x mod 2 ^ 64) :: 32 word) = of_int x"
proof -
  have "x mod 2 ^ 64 mod 2 ^ 32 = x mod (2 ^ 32 :: int)" by (intro mod_mod_cancel) simp
  then show ?thesis by (simp add: word_of_int_eq_iff take_bit_eq_mod)
qed

lemma of_nat_wrap64_sint: "of_nat (wrap64 (sint (w :: 32 word))) = w"
  using of_int_mod_64 [of "sint w"] by (simp add: wrap64_def)

text \<open>What a block read does, for any block: it is accepted exactly when its own CRC and size are right.\<close>

lemma ReadNextBlock_split:
  assumes "rr_block_size r = length temp + 12" and "length temp < 2 ^ 63"
  shows "ReadNextBlock crc r (temp @ be32 sz @ be32 prev @ be32 c @ s) = Some (
    if crc (temp @ be32 sz @ be32 prev) \<noteq> c \<or> wrap64 (sint sz) > length temp then (READ_CRC_CORRUPTED, r, s)
    else (if prev \<noteq> 0 \<and> rr_prev_block_crc r \<noteq> 0 \<and> prev \<noteq> rr_prev_block_crc r then READ_CRC_BLOCK_BROKEN else READ_OK,
      r\<lparr>rr_prev_block_crc := c, rr_content := rr_content r @ take (wrap64 (sint sz)) temp\<rparr>, s))"
proof -
  have "wrap64 (int (length temp)) = length temp" using assms(2) by (simp add: wrap64_def)
  then have n: "wrap64 (int (rr_block_size r) - int kBlockTrailerEnd) = length temp"
    by (simp add: assms(1) kBlockTrailerEnd_def)
  show ?thesis
    unfolding ReadNextBlock_def n using assms(1) read_trailer_be32 [of sz prev c s]
    by (simp add: Let_def of_nat_wrap64_sint)
qed

lemma ReadNextBlock_image:
  assumes "block_ok bs ps" and "rr_block_size r = bs"
  shows "ReadNextBlock crc r (block_image crc bs prev ps @ s) =
    Some (if prev \<noteq> 0 \<and> rr_prev_block_crc r \<noteq> 0 \<and> prev \<noteq> rr_prev_block_crc r then READ_CRC_BLOCK_BROKEN else READ_OK,
      r\<lparr>rr_prev_block_crc := crc (block_body bs prev ps), rr_content := rr_content r @ pieces_bytes ps\<rparr>, s)"
proof -
  let ?c = "pieces_bytes ps" and ?k = "crc (block_body bs prev ps)"
  define temp where "temp = ?c @ replicate (bs - length ?c - 12) (0::byte)"
  have le: "length ?c + 12 \<le> bs" "bs < 2 ^ 24" using assms(1) by (auto simp: block_ok_def kMaximumRecordBlockSize_def)
  have t: "rr_block_size r = length temp + 12" "length temp < 2 ^ 63" "take (length ?c) temp = ?c"
    "length ?c \<le> length temp"
    using le assms(2) by (simp_all add: temp_def)
  have body: "block_body bs prev ps = temp @ be32 (of_nat (length ?c)) @ be32 prev"
    by (simp add: block_body_def temp_def Let_def)
  have "wrap64 (sint (of_nat (length ?c) :: 32 word)) = length ?c" using le by (intro wrap64_sint_of_nat) simp
  with ReadNextBlock_split [OF t(1,2), of crc "of_nat (length ?c)" prev ?k s] t(3,4) show ?thesis
    by (simp add: block_image_def body)
qed

lemma skip_loop_idle: "\<not> rr_skip_record r \<Longrightarrow> skip_loop m r n = Some (False, r, n)"
  by (simp add: skip_loop.simps)

lemma ReadRecord_step_piece:
  assumes "rr_holds crc r inp (p # cur) bl"
  shows "ReadRecord_step crc inflate r inp out n m = take_piece inflate r inp out n m"
  using assms by (simp add: ReadRecord_step_def fetch_block_def rr_holds_def skip_loop_idle piece_bytes_def)

lemma take_piece_piece:
  assumes "rr_holds crc r inp (p # cur) bl" and "p_first p \<longleftrightarrow> rr_record_content r = []"
  shows "take_piece inflate r inp (Some o') n m = Some (
    let r' = r\<lparr>rr_content := pieces_bytes cur, rr_record_content := rr_record_content r @ p_data p\<rparr>
    in if p_cont p then Continue r' inp n
       else Return READ_OK (r'\<lparr>rr_record_content := []\<rparr>) inp (Some (o' @ rr_record_content r @ p_data p)) n)"
proof -
  have h: "read_header (rr_content r) = Some (piece_flags p, length (p_data p), p_data p @ pieces_bytes cur)"
    using assms(1) by (simp add: rr_holds_def read_header_piece)
  show ?thesis using assms(2) by (simp add: take_piece_def h Let_def)
qed

lemma ReadRecord_next_block:
  assumes h: "rr_holds crc r inp [] (b # bl)"
  obtains r1 inp1 where "ReadRecord crc inflate r inp out n m = ReadRecord crc inflate r1 inp1 out n m"
    and "rr_holds crc r1 inp1 b bl" and "rr_record_content r1 = rr_record_content r" and "b \<noteq> []"
    and "rr_block_size r1 = rr_block_size r"
proof -
  define bs where "bs = rr_block_size r"
  have b: "block_ok bs b" using h by (simp add: rr_holds_def bs_def)
  define r1 where "r1 = r\<lparr>rr_prev_block_crc := crc (block_body bs (rr_prev_block_crc r) b), rr_content := pieces_bytes b\<rparr>"
  define inp1 where "inp1 = log_image crc bs (rr_prev_block_crc r1) bl"
  have inp: "inp = block_image crc bs (rr_prev_block_crc r) b @ inp1"
    using h by (simp add: rr_holds_def inp1_def r1_def bs_def)
  have h1: "rr_holds crc r1 inp1 b bl"
    using h piece_ok_block [of b bs] b by (auto simp: rr_holds_def r1_def inp1_def bs_def block_ok_def)
  have "fetch_block crc r inp = Some (READ_OK, r1, inp1)"
    using h ReadNextBlock_image [OF b, of r crc "rr_prev_block_crc r" inp1]
    by (simp add: fetch_block_def rr_holds_def inp bs_def r1_def)
  moreover have "fetch_block crc r1 inp1 = Some (READ_OK, r1, inp1)"
    using h1 b by (simp add: fetch_block_def rr_holds_def block_ok_def)
  ultimately have "ReadRecord_step crc inflate r inp out n m = ReadRecord_step crc inflate r1 inp1 out n m"
    by (simp add: ReadRecord_step_def)
  then have "ReadRecord crc inflate r inp out n m = ReadRecord crc inflate r1 inp1 out n m"
    by (subst (1 2) ReadRecord.simps) simp
  then show ?thesis using that h1 b by (simp add: r1_def block_ok_def)
qed

lemma ReadRecord_Continue:
  "ReadRecord_step crc inflate r inp out n m = Some (Continue r' inp' n') \<Longrightarrow>
   ReadRecord crc inflate r inp out n m = ReadRecord crc inflate r' inp' out n' m"
  by (simp add: ReadRecord.simps)

lemma ReadRecord_to_piece:
  assumes h: "rr_holds crc r inp cur bl" and eq: "cur @ concat bl = p # tail"
  obtains r1 inp1 cur1 bl1 where "ReadRecord crc inflate r inp out n m = ReadRecord crc inflate r1 inp1 out n m"
    and "rr_holds crc r1 inp1 (p # cur1) bl1" and "cur1 @ concat bl1 = tail"
    and "rr_record_content r1 = rr_record_content r" and "rr_block_size r1 = rr_block_size r"
proof (cases cur)
  case (Cons c cs)
  with eq that [of r inp cs bl] h show ?thesis by simp
next
  case Nil
  then obtain b bl' where bl: "bl = b # bl'" using eq by (cases bl) auto
  from ReadRecord_next_block [OF h [unfolded Nil bl], of inflate out n m] obtain r1 inp1 where
    r1: "ReadRecord crc inflate r inp out n m = ReadRecord crc inflate r1 inp1 out n m"
    "rr_holds crc r1 inp1 b bl'" "rr_record_content r1 = rr_record_content r" "b \<noteq> []"
    "rr_block_size r1 = rr_block_size r" .
  with Nil bl eq obtain bs where "b = p # bs" "bs @ concat bl' = tail" by (cases b) auto
  with r1 that show ?thesis by blast
qed

text \<open>The next record of the format is read back, and the reader is ready for the one after it.\<close>

lemma ReadRecord_pieces:
  assumes "rr_holds crc r inp cur bl" and "cur @ concat bl = ps @ rest" and "splits f rec ps"
    and "f \<longleftrightarrow> rr_record_content r = []"
  shows "\<exists>r' inp' cur' bl'. ReadRecord crc inflate r inp (Some o') n m =
      Some (READ_OK, r', inp', Some (o' @ rr_record_content r @ rec), n) \<and>
    rr_holds crc r' inp' cur' bl' \<and> cur' @ concat bl' = rest \<and> rr_record_content r' = [] \<and>
    rr_block_size r' = rr_block_size r"
  using assms
proof (induction ps arbitrary: f rec r inp cur bl)
  case (Cons p ps)
  then have "cur @ concat bl = p # (ps @ rest)" by simp
  from ReadRecord_to_piece [OF Cons.prems(1) this, of inflate "Some o'" n m] obtain r1 inp1 cur1 bl1 where
    same: "ReadRecord crc inflate r inp (Some o') n m = ReadRecord crc inflate r1 inp1 (Some o') n m"
    and h: "rr_holds crc r1 inp1 (p # cur1) bl1" and eq: "cur1 @ concat bl1 = ps @ rest"
    and rc: "rr_record_content r1 = rr_record_content r" and bsz: "rr_block_size r1 = rr_block_size r" .
  have pf: "p_first p \<longleftrightarrow> rr_record_content r1 = []" using Cons.prems(3,4) rc by simp
  define r2 where "r2 = r1\<lparr>rr_content := pieces_bytes cur1, rr_record_content := rr_record_content r1 @ p_data p\<rparr>"
  have h2: "rr_holds crc r2 inp1 cur1 bl1" using h by (simp add: rr_holds_def r2_def)
  note st = ReadRecord_step_piece [OF h, of inflate "Some o'" n m]
    and tp = take_piece_piece [OF h pf, of inflate o' n m, folded r2_def]
  show ?case
  proof (cases "p_cont p")
    case True
    then have sp: "p_data p \<noteq> []" "take (length (p_data p)) rec = p_data p" "splits False (drop (length (p_data p)) rec) ps"
      using Cons.prems(3) by auto
    have "ReadRecord crc inflate r1 inp1 (Some o') n m = ReadRecord crc inflate r2 inp1 (Some o') n m"
      using st tp True by (intro ReadRecord_Continue) (simp add: r2_def)
    moreover have "rr_record_content r2 @ drop (length (p_data p)) rec = rr_record_content r @ rec"
      using sp(2) rc by (simp add: r2_def) (metis append_take_drop_id)
    ultimately show ?thesis
      using Cons.IH [OF h2 eq sp(3)] sp(1) same bsz by (simp add: r2_def)
  next
    case False
    then have "p_data p = rec" "ps = []" using Cons.prems(3) by auto
    moreover have "rr_holds crc (r2\<lparr>rr_record_content := []\<rparr>) inp1 cur1 bl1" using h2 by (simp add: rr_holds_def)
    moreover have "ReadRecord crc inflate r1 inp1 (Some o') n m =
        Some (READ_OK, r2\<lparr>rr_record_content := []\<rparr>, inp1, Some (o' @ rr_record_content r @ p_data p), n)"
      using st tp False rc by (subst ReadRecord.simps) (simp add: r2_def)
    ultimately show ?thesis using same eq bsz by (auto simp: r2_def)
  qed
qed simp

text \<open>
  A reader that starts at a block boundary inside a record passes over the pieces of that
  record and counts them.
\<close>

lemma ReadRecord_skips:
  assumes "rr_holds crc r inp cur bl" and "cur @ concat bl = qs @ tail" and "\<forall>q \<in> set qs. \<not> p_first q"
    and "rr_record_content r = []"
  shows "\<exists>r' inp' cur' bl'. ReadRecord crc inflate r inp (Some o') n 0 =
      ReadRecord crc inflate r' inp' (Some o') (n + length qs) 0 \<and>
    rr_holds crc r' inp' cur' bl' \<and> cur' @ concat bl' = tail \<and> rr_record_content r' = [] \<and>
    rr_block_size r' = rr_block_size r"
  using assms
proof (induction qs arbitrary: r inp cur bl n)
  case (Cons q qs)
  then have "cur @ concat bl = q # (qs @ tail)" by simp
  from ReadRecord_to_piece [OF Cons.prems(1) this, of inflate "Some o'" n 0] obtain r1 inp1 cur1 bl1 where
    same: "ReadRecord crc inflate r inp (Some o') n 0 = ReadRecord crc inflate r1 inp1 (Some o') n 0"
    and h: "rr_holds crc r1 inp1 (q # cur1) bl1" and eq: "cur1 @ concat bl1 = qs @ tail"
    and rc: "rr_record_content r1 = rr_record_content r" and bsz: "rr_block_size r1 = rr_block_size r" .
  define r2 where "r2 = r1\<lparr>rr_content := pieces_bytes cur1\<rparr>"
  have hd: "read_header (rr_content r1) = Some (piece_flags q, length (p_data q), p_data q @ pieces_bytes cur1)"
    using h by (simp add: rr_holds_def read_header_piece)
  have "ReadRecord crc inflate r1 inp1 (Some o') n 0 = ReadRecord crc inflate r2 inp1 (Some o') (n + 1) 0"
    using ReadRecord_step_piece [OF h, of inflate "Some o'" n 0] hd Cons.prems(3,4) rc
    by (intro ReadRecord_Continue) (simp add: take_piece_def r2_def)
  moreover have "rr_holds crc r2 inp1 cur1 bl1" using h by (simp add: rr_holds_def r2_def)
  ultimately show ?case
    using Cons.IH [of r2 inp1 cur1 bl1 "n + 1"] eq Cons.prems(3,4) rc bsz same by (simp add: r2_def)
qed auto

fun ReadRecords :: "(bytes \<Rightarrow> 32 word) \<Rightarrow> (bytes \<Rightarrow> bool \<times> bytes) \<Rightarrow> nat \<Rightarrow> RecordReader \<Rightarrow> bytes \<Rightarrow>
    (bytes list \<times> RecordReader \<times> bytes) option" where
  "ReadRecords crc inflate 0 r inp = Some ([], r, inp)"
| "ReadRecords crc inflate (Suc k) r inp =
     (case ReadRecord crc inflate r inp (Some []) 0 0 of
        Some (READ_OK, r', inp', Some out, _) \<Rightarrow>
          map_option (\<lambda>(rs, r'', inp''). (out # rs, r'', inp'')) (ReadRecords crc inflate k r' inp')
      | _ \<Rightarrow> None)"

lemma ReadRecords_image:
  assumes "rr_holds crc r inp cur bl" and "splits_all rs (cur @ concat bl)" and "rr_record_content r = []"
  shows "\<exists>r' inp' bl'. ReadRecords crc inflate (length rs) r inp = Some (rs, r', inp') \<and>
    rr_holds crc r' inp' [] bl' \<and> concat bl' = [] \<and> rr_record_content r' = [] \<and> rr_block_size r' = rr_block_size r"
  using assms
proof (induction rs arbitrary: r inp cur bl)
  case (Cons rec rs)
  then obtain q qs where q: "cur @ concat bl = q @ qs" "splits True rec q" "splits_all rs qs"
    by (auto simp: splits_all_Cons)
  from ReadRecord_pieces [OF Cons.prems(1) q(1,2), of inflate "[]" 0 0] Cons.prems(3) obtain r1 inp1 cur1 bl1 where
    a: "ReadRecord crc inflate r inp (Some []) 0 0 = Some (READ_OK, r1, inp1, Some rec, 0)"
      "rr_holds crc r1 inp1 cur1 bl1" "cur1 @ concat bl1 = qs" "rr_record_content r1 = []"
      "rr_block_size r1 = rr_block_size r" by auto
  from Cons.IH [OF a(2) _ a(4)] q(3) a(1,3,5) show ?case by fastforce
qed auto

lemma rr_holds_no_data:
  assumes "rr_holds crc r inp [] bl" and "concat bl = []" and "0 < rr_block_size r"
  shows "ReadRecord crc inflate r inp out n m = Some (READ_NO_DATA, r, inp, out, n)" and "inp = []"
proof -
  have "bl = []" using assms(1,2) by (cases bl) (auto simp: rr_holds_def block_ok_def)
  then show "inp = []" using assms(1) by (simp add: rr_holds_def)
  with assms show "ReadRecord crc inflate r inp out n m = Some (READ_NO_DATA, r, inp, out, n)"
    by (simp add: ReadRecord.simps ReadRecord_step_def fetch_block_def rr_holds_def ReadNextBlock_def)
qed

section \<open>The CRC of a stream\<close>

lemma ComputeCRC_loop_content:
  assumes ext: "\<And>c a b. crc (crc c a) b = crc c (a @ b)" and nil: "\<And>c. crc c [] = c" and "ms_ok s"
  shows "\<exists>s'. ComputeCRC_loop crc s c = Some (crc c (ms_content s), s') \<and> ms_ok s' \<and>
    marker_contents s' = marker_contents s"
  using assms(3)
proof (induction "length (ms_content s)" arbitrary: s c rule: less_induct)
  case less
  have sz: "ms_size s = length (ms_content s)" using less.prems by (simp add: ms_ok_def)
  show ?case
  proof (cases "ms_content s = []")
    case True
    then show ?thesis using sz less.prems nil by (simp add: ComputeCRC_loop.simps [of crc s c] IsEmpty_def)
  next
    case False
    from ms_ReadNext_correct [OF less.prems] obtain r s' where
      r: "ms_ReadNext s = Some (r, s')" "ms_ok s'" "marker_contents s' = marker_contents s"
      "case r of None \<Rightarrow> ms_content s = [] \<and> ms_content s' = []
         | Some bs \<Rightarrow> bs \<noteq> [] \<and> ms_content s = bs @ ms_content s'" .
    with False obtain bs where bs: "r = Some bs" "bs \<noteq> []" "ms_content s = bs @ ms_content s'"
      by (cases r) auto
    then have "length (ms_content s') < length (ms_content s)" by simp
    from less.hyps [OF this r(2), of "crc c bs"] r bs False sz ext show ?thesis
      by (simp add: ComputeCRC_loop.simps [of crc s c] IsEmpty_def)
  qed
qed

text \<open>The CRC of a stream is zlib's CRC of its whole content, however the content
  is cut into blocks, and the stream is left as it was. zlib's documented law is that a CRC
  can be computed piece by piece.\<close>

theorem ComputeCRC_content:
  assumes "\<And>c a b. crc (crc c a) b = crc c (a @ b)" and "\<And>c. crc c [] = c" and "ms_ok s"
  shows "\<exists>s'. ComputeCRC crc s = Some (crc 0 (ms_content s), s') \<and> ms_ok s' \<and>
    ms_content s' = ms_content s \<and> marker_contents s' = marker_contents s"
proof -
  note m = ms_MarkerSet_correct [OF assms(3)]
  from ComputeCRC_loop_content [OF assms(1,2) m(1), of 0] m obtain s1 where
    l: "ComputeCRC_loop crc (ms_MarkerSet s) 0 = Some (crc 0 (ms_content s), s1)" and ok: "ms_ok s1"
    and mc: "marker_contents s1 = marker_contents s @ [ms_content s]" by auto
  then have "markers s1 \<noteq> []" by (metis marker_contents_Nil snoc_eq_iff_butlast)
  from ms_MarkerRestore_correct [OF ok this] obtain s2 where
    "ms_MarkerRestore s1 = Some s2" "ms_ok s2" "ms_content s2 = ms_content s"
    "marker_contents s2 = marker_contents s" using mc by auto
  with l show ?thesis by (simp add: ComputeCRC_def)
qed

theorem ComputeCRC_content_witness:
  "\<exists>s s'. ms_new 2 = Some s \<and>
     ComputeCRC (foldl (\<lambda>c b. 31 * c + ucast b)) s = Some (0, s') \<and> ms_content s' = []"
proof -
  obtain s where s: "ms_new 2 = Some s" using ms_new_Some [of 2] by auto
  then have "ms_ok s" "ms_content s = []" using ms_new_ok by auto
  from ComputeCRC_content [of "foldl (\<lambda>c b. 31 * c + ucast b)", OF _ _ this(1)] this(2) s
  show ?thesis by auto
qed

section \<open>Properties of the record layer\<close>



text \<open>A fresh reader that starts at any block of a log whose
  first pieces continue a record begun earlier passes over exactly these pieces, counts them,
  and returns the first record that starts after them.\<close>

theorem record_read_from_block:
  assumes "\<forall>b \<in> set bl. block_ok bs b" and "concat bl = qs @ ps @ rest"
    and "\<forall>q \<in> set qs. \<not> p_first q" and "splits True rec ps"
  shows "\<exists>r' inp'. ReadRecord crc inflate (rr_new bs) (log_image crc bs prev bl) (Some []) 0 0 =
    Some (READ_OK, r', inp', Some rec, length qs)"
proof -
  show ?thesis
  proof (cases bl)
    case Nil
    with assms(2,4) show ?thesis by simp
  next
    case (Cons b bl')
    define r1 where "r1 = (rr_new bs)\<lparr>rr_prev_block_crc := crc (block_body bs prev b), rr_content := pieces_bytes b\<rparr>"
    define inp1 where "inp1 = log_image crc bs (rr_prev_block_crc r1) bl'"
    have b: "block_ok bs b" using assms(1) Cons by simp
    have h1: "rr_holds crc r1 inp1 b bl'"
      using assms(1) Cons b piece_ok_block [of b bs] by (auto simp: rr_holds_def r1_def inp1_def rr_new_def block_ok_def)
    have "fetch_block crc (rr_new bs) (log_image crc bs prev bl) = Some (READ_OK, r1, inp1)"
      using ReadNextBlock_image [OF b, of "rr_new bs" crc prev inp1] Cons
      by (simp add: fetch_block_def rr_new_def r1_def inp1_def)
    moreover have "fetch_block crc r1 inp1 = Some (READ_OK, r1, inp1)"
      using h1 b by (simp add: fetch_block_def rr_holds_def block_ok_def)
    ultimately have same: "ReadRecord crc inflate (rr_new bs) (log_image crc bs prev bl) (Some []) 0 0 =
        ReadRecord crc inflate r1 inp1 (Some []) 0 0"
      by (subst (1 2) ReadRecord.simps) (simp add: ReadRecord_step_def)
    have "b @ concat bl' = qs @ ps @ rest" using assms(2) Cons by simp
    from ReadRecord_skips [OF h1 this assms(3), of inflate "[]" 0] obtain r2 inp2 cur2 bl2 where
      s: "ReadRecord crc inflate r1 inp1 (Some []) 0 0 = ReadRecord crc inflate r2 inp2 (Some []) (length qs) 0"
      "rr_holds crc r2 inp2 cur2 bl2" "cur2 @ concat bl2 = ps @ rest" "rr_record_content r2 = []"
      by (auto simp: r1_def rr_new_def)
    from ReadRecord_pieces [OF s(2,3) assms(4), of inflate "[]" "length qs" 0] s(1,4) same show ?thesis by auto
  qed
qed

theorem record_read_from_block_witness:
  "\<exists>r' inp'. ReadRecord (\<lambda>bs. 7) (\<lambda>bs. (True, bs)) (rr_new 40)
      (log_image (\<lambda>bs. 7) 40 5 [[\<lparr>p_first = False, p_cont = False, p_data = [1]\<rparr>,
                                 \<lparr>p_first = True, p_cont = False, p_data = [2, 3]\<rparr>]]) (Some []) 0 0 =
    Some (READ_OK, r', inp', Some [2, 3], 1)"
  using record_read_from_block [of "[[\<lparr>p_first = False, p_cont = False, p_data = [1]\<rparr>,
      \<lparr>p_first = True, p_cont = False, p_data = [2, 3]\<rparr>]]" 40 "[\<lparr>p_first = False, p_cont = False, p_data = [1]\<rparr>]"
      "[\<lparr>p_first = True, p_cont = False, p_data = [2, 3]\<rparr>]" "[]" "[2, 3]" "\<lambda>bs. 7" "\<lambda>bs. (True, bs)" 5]
  by (simp add: block_ok_def kMaximumRecordBlockSize_def)

text \<open>C12 (corruption is detected): a block whose stored CRC differs from the CRC of its other
  bytes, or whose content size does not fit the block, is reported as corrupted; none of its
  bytes reach the caller or the reader's buffers, and exactly that block is consumed.\<close>

theorem corrupted_block_rejected:
  assumes "rr_block_size r = length temp + 12" and "length temp < 2 ^ 63" and "rr_content r = []"
    and "crc (temp @ be32 sz @ be32 prev) \<noteq> c \<or> length temp < wrap64 (sint sz)"
  shows "ReadRecord crc inflate r (temp @ be32 sz @ be32 prev @ be32 c @ s) out n m =
    Some (READ_CRC_CORRUPTED, r, s, out, n)"
  using ReadNextBlock_split [OF assms(1,2), of crc sz prev c s] assms(3,4)
  by (simp add: ReadRecord.simps [of crc inflate r] ReadRecord_step_def fetch_block_def)

theorem corrupted_block_rejected_witness:
  "ReadRecord (\<lambda>bs. 1) (\<lambda>bs. (True, bs)) (rr_new 16) ([4, 0, 0, 0] @ be32 4 @ be32 0 @ be32 2 @ [9]) (Some []) 0 0 =
    Some (READ_CRC_CORRUPTED, rr_new 16, [9], Some [], 0)"
  using corrupted_block_rejected [of "rr_new 16" "[4, 0, 0, 0]" "\<lambda>bs. 1" 4 0 2 "\<lambda>bs. (True, bs)" "[9]" "Some []" 0 0]
  by (simp add: rr_new_def)

text \<open>On a record that is not empty, appending it from a
  stream and from a buffer have the same effect.\<close>

theorem AppendRecord_versions_agree:
  assumes "rw_ok w" and "(if rw_zlib w then deflate r else r) \<noteq> []"
  shows "AppendRecord_stream crc deflate w r out False = AppendRecord crc deflate w r out"
proof -
  have "length (rw_content w) + 16 < rw_block_size w" "rw_block_size w < kMaximumRecordBlockSize"
    using assms(1) by (auto simp: rw_ok_def)
  with append_loops_agree [of r w crc out True 0] assms(2) show ?thesis
    by (auto simp: AppendRecord_stream_def AppendRecord_def split: if_splits)
qed

theorem AppendRecord_versions_agree_witness:
  "\<exists>w. rw_new 40 False 20 = Some w \<and>
     AppendRecord_stream (\<lambda>_. 3) (\<lambda>b. b) w [1, 2, 3] [] False = AppendRecord (\<lambda>_. 3) (\<lambda>b. b) w [1, 2, 3] []"
  using AppendRecord_versions_agree [of _ "\<lambda>b. b" "[1, 2, 3]" "\<lambda>_. 3" "[]"]
  by (simp add: rw_new_def rw_ok_def kMaximumRecordBlockSize_def)

text \<open>C28 (what an append emits): appending a record never aborts, keeps the writer's buffer
  below the dump threshold, adds only whole blocks to the output, and returns true exactly
  when it added at least one.\<close>

theorem AppendRecord_invariant:
  assumes "rw_ok w" and "\<not> rw_zlib w" and "rw_holds w cur"
  shows "\<exists>k w' out' cur'. AppendRecord crc deflate w r out = Some (0 < k, w', out') \<and> rw_ok w' \<and>
    rw_holds w' cur' \<and> rw_block_size w' = rw_block_size w \<and>
    length out' = length out + k * rw_block_size w \<and> take (length out) out' = out"
proof -
  from AppendRecord_holds [OF assms(1,3,2), of crc deflate r out] obtain bl ps cur' w' out' where
    a: "AppendRecord crc deflate w r out = Some (bl \<noteq> [], w', out')" "rw_wrote crc w cur ps out bl w' out' cur'"
    by blast
  then have "length out' = length out + length bl * rw_block_size w" "take (length out) out' = out"
    using length_log_image [of bl "rw_block_size w" crc "rw_prev_block_crc w"] by (auto simp: rw_wrote_def)
  with a show ?thesis
    by (intro exI [of _ "length bl"] exI [of _ w'] exI [of _ out'] exI [of _ cur'])
      (auto simp: rw_wrote_def rw_after_def)
qed

theorem AppendRecord_invariant_witness:
  "\<exists>w k w' out'. rw_new 40 False 20 = Some w \<and>
     AppendRecord (\<lambda>_. 3) (\<lambda>b. b) w (replicate 60 1) [] = Some (0 < k, w', out') \<and> length out' = k * 40"
proof -
  obtain w where w: "rw_new 40 False 20 = Some w" by (simp add: rw_new_def kMaximumRecordBlockSize_def)
  then have "rw_ok w" "\<not> rw_zlib w" "rw_holds w []" "rw_block_size w = 40"
    by (auto simp: rw_new_def rw_ok_def rw_holds_def kMaximumRecordBlockSize_def split: if_splits)
  with AppendRecord_invariant [of w "[]" "\<lambda>_. 3" "\<lambda>b. b" "replicate 60 1" "[]"] w show ?thesis by auto
qed

text \<open>A writer created with \<open>deflate\<close> stores the
  compressed bytes of a record but never sets the flag \<open>IS_ZIPPED\<close>, so the reader returns the
  compressed bytes as they are.\<close>

theorem zipped_record_not_inflated:
  assumes "rw_new bs True dumpable = Some w" and "dumpable + 16 < bs" and "deflate r \<noteq> []"
  shows "\<exists>ret w1 out1 w' out r' inp'. AppendRecord crc deflate w r [] = Some (ret, w1, out1) \<and>
    FinalizeContent crc w1 out1 = Some (w', out) \<and>
    ReadRecord crc inflate (rr_new bs) out (Some []) 0 0 = Some (READ_OK, r', inp', Some (deflate r), 0)"
proof -
  have w: "rw_ok w" "rw_holds w []" "rw_zlib w" "rw_block_size w = bs" "rw_prev_block_crc w = 0"
    using assms by (auto simp: rw_new_def rw_ok_def rw_holds_def split: if_splits)
  have small: "length (rw_content w) + 16 < rw_block_size w" "rw_block_size w < kMaximumRecordBlockSize"
    using w(1) by (auto simp: rw_ok_def)
  have app: "AppendRecord crc deflate w r [] =
      Option.bind (append_buffer_loop crc w (deflate r) [] True 0) (append_dump crc)"
    using append_loops_agree [OF assms(3) small, of crc "[]" True 0] w(3)
    by (simp add: AppendRecord_def AppendRecord_stream_def)
  have "loop_wrote crc w [] True (deflate r) [] 0 (append_buffer_loop crc w (deflate r) [] True 0)"
    by (rule append_buffer_loop_correct [OF w(2) small])
  from append_dump_correct [OF this w(1)] app
  obtain bl ps cur1 w1 out1 where a: "AppendRecord crc deflate w r [] = Some (bl \<noteq> [], w1, out1)"
      "splits True (deflate r) ps" "rw_wrote crc w [] ps [] bl w1 out1 cur1" by auto
  have h1: "rw_holds w1 cur1" "rw_ok w1" "rw_block_size w1 = bs"
    and prev1: "rw_prev_block_crc w1 = log_crc crc bs 0 bl" and out1: "out1 = log_image crc bs 0 bl"
    and cb: "concat bl @ cur1 = ps" and blk: "\<forall>b \<in> set bl. block_ok bs b"
    using a(3) w(4,5) by (auto simp: rw_wrote_def rw_after_def)
  define bl' where "bl' = bl @ (if cur1 = [] then [] else [cur1])"
  have fit: "length (pieces_bytes cur1) + 12 \<le> rw_block_size w1" using h1 by (simp add: rw_ok_def rw_holds_def)
  have fin: "\<exists>w'. FinalizeContent crc w1 out1 = Some (w', log_image crc bs 0 bl')"
  proof (cases "cur1 = []")
    case True
    then show ?thesis using h1(1) out1 by (simp add: FinalizeContent_def rw_holds_def bl'_def)
  next
    case False
    with FinalizeContent_holds [OF h1(1) False fit, of crc out1] h1(3) prev1 out1 show ?thesis
      by (auto simp: bl'_def log_image_append)
  qed
  have "block_ok bs cur1" if "cur1 \<noteq> []" using that fit h1 by (simp add: block_ok_def rw_ok_def)
  then have "\<forall>b \<in> set bl'. block_ok bs b" using blk by (auto simp: bl'_def)
  then have h: "rr_holds crc (rr_new bs) (log_image crc bs 0 bl') [] bl'" by (simp add: rr_holds_def rr_new_def)
  have "[] @ concat bl' = ps @ []" using cb by (auto simp: bl'_def)
  from ReadRecord_pieces [OF h this a(2), of inflate "[]" 0 0] a(1) fin show ?thesis
    by (auto simp: rr_new_def)
qed

theorem zipped_record_not_inflated_witness:
  "\<exists>w ret w1 out1 w' out r' inp'. rw_new 40 True 20 = Some w \<and>
     AppendRecord (\<lambda>_. 3) (\<lambda>b. 99 # b) w [1] [] = Some (ret, w1, out1) \<and>
     FinalizeContent (\<lambda>_. 3) w1 out1 = Some (w', out) \<and>
     ReadRecord (\<lambda>_. 3) (\<lambda>b. (True, tl b)) (rr_new 40) out (Some []) 0 0 = Some (READ_OK, r', inp', Some [99, 1], 0)"
  using zipped_record_not_inflated [of 40 20 _ "\<lambda>b. 99 # b" "[1]" "\<lambda>_. 3" "\<lambda>b. (True, tl b)"]
  by (simp add: rw_new_def kMaximumRecordBlockSize_def)

text \<open>\<open>Clear\<close> keeps the partial record read so far, so
  a reader that was reset in the middle of a record (as every seek does) reports the first
  record it then finds as corrupted and drops its first piece.\<close>

theorem clear_keeps_partial_record:
  assumes "block_ok (rr_block_size r) (p # ps)" and "p_first p" and "rr_record_content r \<noteq> []"
    and "\<not> rr_skip_record r"
  shows "\<exists>r'. ReadRecord crc inflate (rr_Clear r)
      (block_image crc (rr_block_size r) prev (p # ps) @ s) out n m =
      Some (READ_CRC_CORRUPTED, r', s, out, n + 1) \<and> rr_content r' = pieces_bytes ps \<and> rr_record_content r' = []"
proof -
  let ?r = "rr_Clear r"
  have same: "rr_block_size ?r = rr_block_size r" "rr_content ?r = []" "rr_prev_block_crc ?r = 0"
    "rr_record_content ?r = rr_record_content r" "rr_skip_record ?r = rr_skip_record r" by (simp_all add: rr_Clear_def)
  have p: "piece_ok p" using assms(1) piece_ok_block [of "p # ps"] by (auto simp: block_ok_def)
  note nb = ReadNextBlock_image [OF assms(1) same(1), of crc prev s]
  define r1 where "r1 = ?r\<lparr>rr_prev_block_crc := crc (block_body (rr_block_size r) prev (p # ps)),
    rr_content := pieces_bytes (p # ps)\<rparr>"
  have f: "fetch_block crc ?r (block_image crc (rr_block_size r) prev (p # ps) @ s) = Some (READ_OK, r1, s)"
    using nb same by (simp add: fetch_block_def r1_def)
  have "\<not> rr_skip_record r1" "rr_content r1 \<noteq> []" "rr_record_content r1 \<noteq> []"
    using assms same by (simp_all add: r1_def piece_bytes_def)
  moreover have "read_header (rr_content r1) = Some (piece_flags p, length (p_data p), p_data p @ pieces_bytes ps)"
    using p by (simp add: r1_def read_header_piece)
  ultimately show ?thesis using f assms(2)
    by (simp add: ReadRecord.simps [of crc inflate ?r] ReadRecord_step_def skip_loop_idle take_piece_def)
qed

theorem clear_keeps_partial_record_witness:
  "\<exists>r'. ReadRecord (\<lambda>_. 7) (\<lambda>b. (True, b)) (rr_Clear ((rr_new 40)\<lparr>rr_record_content := [5]\<rparr>))
      (block_image (\<lambda>_. 7) 40 0 [\<lparr>p_first = True, p_cont = False, p_data = [1, 2]\<rparr>]) (Some []) 0 0 =
      Some (READ_CRC_CORRUPTED, r', [], Some [], 1)"
  using clear_keeps_partial_record [of "(rr_new 40)\<lparr>rr_record_content := [5]\<rparr>"
      "\<lparr>p_first = True, p_cont = False, p_data = [1, 2]\<rparr>" "[]" "\<lambda>_. 7" "\<lambda>b. (True, b)" 0 "[]" "Some []" 0 0]
  by (auto simp: rr_new_def block_ok_def kMaximumRecordBlockSize_def)

end
