(* ===== verification/LogIO.thy ===== *)
theory LogIO
  imports RecordIO "HOL-Library.AList" "HOL-Library.List_Lexorder" "HOL-Library.Char_ord"
begin

text \<open>
  Model of \<open>io::LogPos\<close>, \<open>io::LogWriter\<close>, \<open>io::LogReader\<close> and the functions on log
  directories (\<open>src/whisperlib/io/logio/logio.{h,cc}\<close>): a log is a directory of numbered
  files, each of at most \<open>blocks_per_file\<close> blocks of \<open>block_size\<close> bytes.

  The directory is an association list from file identifiers to contents, for one log base
  and block size; an identifier is the number of the file together with a flag that is true
  for a file of the \<open>temp\<close> sub-directory. \<open>ComposeFileName\<close> below gives the name of a file;
  it is injective and its order is the order of the numbers, so that listing, sorting and
  parsing names is the sorted list of the numbers. The lock file holds a process id.

  The outcome of every file write is an argument (\<open>write_outcome\<close>, one per call of
  \<open>File::Write\<close>; when the list is exhausted writes succeed). Opening, renaming and removing
  files fail only when the modelled directory says so (the target of a rename exists). The
  writer's file is always positioned at its end.
\<close>

section \<open>Positions\<close>

record LogPos =
  file_num :: int
  block_num :: int
  record_num :: int

definition LogPos_null :: LogPos where
  "LogPos_null = \<lparr>file_num = -1, block_num = 0, record_num = 0\<rparr>"

definition Compare :: "LogPos \<Rightarrow> LogPos \<Rightarrow> int" where
  "Compare p other =
     (if file_num p < file_num other then -1
      else if file_num p > file_num other then 1
      else if block_num p < block_num other then -1
      else if block_num p > block_num other then 1
      else if record_num p < record_num other then -1
      else if record_num p > record_num other then 1
      else 0)"

instantiation LogPos_ext :: (linorder) linorder
begin

definition less_eq_LogPos_ext :: "'a LogPos_ext \<Rightarrow> 'a LogPos_ext \<Rightarrow> bool" where
  "less_eq_LogPos_ext p q \<longleftrightarrow>
     (file_num p < file_num q \<or> file_num p = file_num q \<and>
      (block_num p < block_num q \<or> block_num p = block_num q \<and>
       (record_num p < record_num q \<or> record_num p = record_num q \<and> LogPos.more p \<le> LogPos.more q)))"

definition less_LogPos_ext :: "'a LogPos_ext \<Rightarrow> 'a LogPos_ext \<Rightarrow> bool" where
  "less_LogPos_ext p q \<longleftrightarrow> p \<le> q \<and> p \<noteq> q"

instance
proof
  fix p q r :: "'a LogPos_ext"
  have anti: "p = q" if "p \<le> q" "q \<le> p" for p q :: "'a LogPos_ext"
    using that by (intro LogPos.equality) (auto simp: less_eq_LogPos_ext_def)
  show "p < q \<longleftrightarrow> p \<le> q \<and> \<not> q \<le> p"
    using anti [of p q] by (auto simp: less_LogPos_ext_def less_eq_LogPos_ext_def)
  show "p \<le> p" by (simp add: less_eq_LogPos_ext_def)
  show "p \<le> q \<Longrightarrow> q \<le> r \<Longrightarrow> p \<le> r" by (auto simp: less_eq_LogPos_ext_def)
  show "p \<le> q \<Longrightarrow> q \<le> p \<Longrightarrow> p = q" by (rule anti)
  show "p \<le> q \<or> q \<le> p" 
    using linear [of "LogPos.more p" "LogPos.more q"] less_linear [of "file_num p" "file_num q"]
      less_linear [of "block_num p" "block_num q"] less_linear [of "record_num p" "record_num q"]
    unfolding less_eq_LogPos_ext_def by metis
qed

end

definition LogPos_minus :: "LogPos \<Rightarrow> LogPos \<Rightarrow> LogPos" where
  "LogPos_minus p q =
     \<lparr>file_num = file_num p - file_num q,
      block_num = (if file_num p = file_num q then block_num p - block_num q else 0),
      record_num = (if file_num p = file_num q \<and> block_num p = block_num q
                    then record_num p - record_num q else 0)\<rparr>"

definition LogPos_IsNull :: "LogPos \<Rightarrow> bool" where
  "LogPos_IsNull p \<longleftrightarrow> file_num p = -1"

definition Decrement :: "int \<Rightarrow> LogPos \<Rightarrow> LogPos" where
  "Decrement blocks_per_file p =
     (if record_num p > 0 then p\<lparr>record_num := record_num p - 1\<rparr>
      else if block_num p > 0 then p\<lparr>record_num := 0, block_num := block_num p - 1\<rparr>
      else if file_num p > 0
      then p\<lparr>record_num := 0, block_num := blocks_per_file - 1, file_num := file_num p - 1\<rparr>
      else LogPos_null)"

section \<open>Names of log files\<close>

fun digits10 :: "nat \<Rightarrow> nat \<Rightarrow> string" where
  "digits10 0 n = []"
| "digits10 (Suc w) n = digits10 w (n div 10) @ [char_of (48 + n mod 10)]"

fun strtol_digits :: "nat \<Rightarrow> string \<Rightarrow> nat" where
  "strtol_digits acc [] = acc"
| "strtol_digits acc (c # cs) =
     (if 48 \<le> (of_char c :: nat) \<and> (of_char c :: nat) \<le> 57
      then strtol_digits (10 * acc + (of_char c - 48)) cs else acc)"

definition ComposeFileName :: "string \<Rightarrow> string \<Rightarrow> nat \<Rightarrow> nat \<Rightarrow> string" where
  "ComposeFileName log_dir file_base bsize num =
     log_dir @ ''/'' @ file_base @ ''_'' @ digits10 10 bsize @ ''_'' @ digits10 10 num"

definition DetectLogSettings :: "(string \<times> nat) list \<Rightarrow> (string \<times> nat \<times> nat) option option" where
  "DetectLogSettings files =
     (case sort_key fst files of
        [] \<Rightarrow> Some None
      | (filename, filesize) # _ \<Rightarrow>
          if length filename < 22 then None
          else
            let base = take (length filename - 22) filename;
                bsize = strtol_digits 0 (take 10 (drop (length filename - 21) filename))
            in Some (if bsize = 0 \<or> filesize = 0 \<or> filesize div bsize = 0 then None
                     else Some (base, bsize, filesize div bsize)))"

section \<open>The directory\<close>

type_synonym file_id = "bool \<times> int"

record log_dir =
  d_files :: "(file_id \<times> bytes) list"
  d_lock :: "int option"

definition file_content :: "log_dir \<Rightarrow> file_id \<Rightarrow> bytes" where
  "file_content d f = (case map_of (d_files d) f of Some b \<Rightarrow> b | None \<Rightarrow> [])"

definition IsReadableFile :: "log_dir \<Rightarrow> file_id \<Rightarrow> bool" where
  "IsReadableFile d f \<longleftrightarrow> map_of (d_files d) f \<noteq> None"

definition set_file :: "log_dir \<Rightarrow> file_id \<Rightarrow> bytes \<Rightarrow> log_dir" where
  "set_file d f b = d\<lparr>d_files := AList.update f b (d_files d)\<rparr>"

definition Rm :: "log_dir \<Rightarrow> file_id \<Rightarrow> log_dir" where
  "Rm d f = d\<lparr>d_files := AList.delete f (d_files d)\<rparr>"

text \<open>\<open>io::Rename\<close> without overwrite: it fails when the target exists.\<close>

definition Rename_file :: "log_dir \<Rightarrow> file_id \<Rightarrow> file_id \<Rightarrow> log_dir" where
  "Rename_file d f g = (if IsReadableFile d g then d else set_file (Rm d f) g (file_content d f))"

text \<open>\<open>File::Open\<close> with \<open>OPEN_ALWAYS\<close>, and \<open>File::Truncate\<close> (which may also extend a file).\<close>

definition open_always :: "log_dir \<Rightarrow> file_id \<Rightarrow> log_dir" where
  "open_always d f = (if IsReadableFile d f then d else set_file d f [])"

definition truncate_file :: "log_dir \<Rightarrow> file_id \<Rightarrow> nat \<Rightarrow> log_dir" where
  "truncate_file d f n =
     (let b = file_content d f in set_file d f (take n b @ replicate (n - length b) 0))"

definition GetLogFiles :: "log_dir \<Rightarrow> int list" where
  "GetLogFiles d = sort (remdups (map (snd \<circ> fst) (filter (\<lambda>x. \<not> fst (fst x)) (d_files d))))"

definition GetLastNumberedFile :: "log_dir \<Rightarrow> int" where
  "GetLastNumberedFile d = (if GetLogFiles d = [] then -1 else last (GetLogFiles d))"

definition CountLogFiles :: "log_dir \<Rightarrow> nat" where
  "CountLogFiles d = length (GetLogFiles d)"

fun clean_loop :: "LogPos \<Rightarrow> int list \<Rightarrow> log_dir \<Rightarrow> nat \<Rightarrow> nat \<times> log_dir" where
  "clean_loop first_pos [] d num_deleted = (num_deleted, d)"
| "clean_loop first_pos (n # ns) d num_deleted =
     (if n \<ge> file_num first_pos then (num_deleted, d)
      else clean_loop first_pos ns (Rm d (False, n)) (num_deleted + 1))"

definition CleanLog :: "log_dir \<Rightarrow> LogPos \<Rightarrow> nat \<times> log_dir" where
  "CleanLog d first_pos = clean_loop first_pos (GetLogFiles d) d 0"

definition LogExists :: "log_dir \<Rightarrow> int \<Rightarrow> bool" where
  "LogExists d n = IsReadableFile d (False, n)"

section \<open>The writer\<close>

datatype write_outcome = Wrote nat | Failed nat

record LogWriter =
  lw_block_size :: nat
  lw_blocks_per_file :: nat
  lw_temporary_incomplete_file :: bool
  lw_file_num :: int
  lw_file :: "file_id option"
  lw_buf :: bytes
  lw_recorder :: RecordWriter

definition lw_new :: "nat \<Rightarrow> nat \<Rightarrow> bool \<Rightarrow> bool \<Rightarrow> nat \<Rightarrow> LogWriter option" where
  "lw_new bsize blocks_per_file temporary deflate dumpable_size =
     map_option (\<lambda>rec. \<lparr>lw_block_size = bsize, lw_blocks_per_file = blocks_per_file,
         lw_temporary_incomplete_file = temporary, lw_file_num = -1, lw_file = None, lw_buf = [],
         lw_recorder = rec\<rparr>)
       (rw_new bsize deflate dumpable_size)"

definition file_limit :: "LogWriter \<Rightarrow> nat" where
  "file_limit w = lw_block_size w * lw_blocks_per_file w"

definition CloseLog :: "LogWriter \<Rightarrow> log_dir \<Rightarrow> LogWriter \<times> log_dir" where
  "CloseLog w d =
     (case lw_file w of
        None \<Rightarrow> (w, d)
      | Some f \<Rightarrow>
          (w\<lparr>lw_recorder := rw_Clear (lw_recorder w), lw_file := None\<rparr>,
           if lw_temporary_incomplete_file w \<and> (False, lw_file_num w) \<noteq> f
           then Rename_file d f (False, lw_file_num w) else d))"

text \<open>\<open>OpenNextLog\<close> passes over files that are already full.\<close>

partial_function (option) OpenNextLog :: "LogWriter \<Rightarrow> log_dir \<Rightarrow> (LogWriter \<times> log_dir) option" where
  "OpenNextLog w d =
     (if lw_file_num w < 0 then None
      else
        let (w1, d1) = (if lw_file w \<noteq> None
                        then apfst (\<lambda>x. x\<lparr>lw_file_num := lw_file_num w + 1\<rparr>) (CloseLog w d)
                        else (w, d));
            f = (lw_temporary_incomplete_file w1, lw_file_num w1);
            d2 = open_always d1 f;
            sz = length (file_content d2 f);
            d3 = (if sz mod lw_block_size w1 \<noteq> 0
                  then truncate_file d2 f (sz div lw_block_size w1 * lw_block_size w1) else d2);
            w2 = w1\<lparr>lw_recorder := rw_Clear (lw_recorder w1), lw_file := Some f\<rparr>
        in if length (file_content d3 f) = file_limit w2 then OpenNextLog w2 d3 else Some (w2, d3))"

definition LogWriter_Initialize ::
    "(int \<Rightarrow> bool) \<Rightarrow> int \<Rightarrow> LogWriter \<Rightarrow> log_dir \<Rightarrow> (bool \<times> LogWriter \<times> log_dir) option" where
  "LogWriter_Initialize running pid w d =
     (case d_lock d of
        Some p \<Rightarrow>
          if p \<noteq> 0 \<and> running p then Some (False, w, d)
          else let d1 = d\<lparr>d_lock := Some pid\<rparr>; n = GetLastNumberedFile d1
               in map_option (Pair True) (OpenNextLog (w\<lparr>lw_file_num := (if n = -1 then 0 else n)\<rparr>) d1)
      | None \<Rightarrow>
          let d1 = d\<lparr>d_lock := Some pid\<rparr>; n = GetLastNumberedFile d1
          in map_option (Pair True) (OpenNextLog (w\<lparr>lw_file_num := (if n = -1 then 0 else n)\<rparr>) d1))"

text \<open>
  One call of \<open>File::Write\<close> at the end of the current file. \<open>Wrote n\<close>: it returned \<open>n\<close>
  after \<open>n\<close> bytes of the stream reached the file; \<open>Failed n\<close>: it returned a negative
  value, after \<open>n\<close> bytes reached the file in earlier rounds of its own loop.
\<close>

definition next_outcome :: "write_outcome list \<Rightarrow> nat \<Rightarrow> write_outcome \<times> write_outcome list" where
  "next_outcome os to_write = (case os of [] \<Rightarrow> (Wrote to_write, []) | x # xs \<Rightarrow> (x, xs))"

partial_function (option) WriteBuffer ::
    "LogWriter \<Rightarrow> log_dir \<Rightarrow> write_outcome list \<Rightarrow> (bool \<times> LogWriter \<times> log_dir \<times> write_outcome list) option" where
  "WriteBuffer w d os =
     (case lw_file w of
        None \<Rightarrow> None
      | Some f \<Rightarrow>
          if lw_buf w = [] then Some (True, w, d, os)
          else
            let ps = length (file_content d f) in
            if ps mod lw_block_size w \<noteq> 0 \<or> ps > file_limit w then Some (False, w, d, os)
            else
              let to_write = min (file_limit w - ps) (length (lw_buf w)) in
              (case next_outcome os to_write of
                 (Failed n, os') \<Rightarrow>
                   Some (False, w, set_file d f (file_content d f @ take n (lw_buf w)), os')
               | (Wrote n, os') \<Rightarrow>
                   if n \<noteq> to_write
                   then Some (False, w,
                          truncate_file (set_file d f (file_content d f @ take n (lw_buf w))) f ps, os')
                   else
                     let d1 = set_file d f (file_content d f @ take n (lw_buf w));
                         w1 = w\<lparr>lw_buf := drop n (lw_buf w)\<rparr>
                     in if length (file_content d1 f) = file_limit w
                        then Option.bind (OpenNextLog w1 d1) (\<lambda>(w2, d2). WriteBuffer w2 d2 os')
                        else WriteBuffer w1 d1 os'))"

definition ensure_open :: "LogWriter \<Rightarrow> log_dir \<Rightarrow> (LogWriter \<times> log_dir) option" where
  "ensure_open w d = (if lw_file w = None then OpenNextLog w d else Some (w, d))"

definition WriteRecord ::
    "(bytes \<Rightarrow> 32 word) \<Rightarrow> (bytes \<Rightarrow> bytes) \<Rightarrow> LogWriter \<Rightarrow> log_dir \<Rightarrow> write_outcome list \<Rightarrow> bytes \<Rightarrow>
     (bool \<times> LogWriter \<times> log_dir \<times> write_outcome list) option" where
  "WriteRecord crc deflate w d os buf =
     Option.bind (ensure_open w d) (\<lambda>(w1, d1).
     Option.bind (AppendRecord crc deflate (lw_recorder w1) buf (lw_buf w1)) (\<lambda>(full, rec, out).
       let w2 = w1\<lparr>lw_recorder := rec, lw_buf := out\<rparr>
       in if full then WriteBuffer w2 d1 os else Some (True, w2, d1, os)))"

definition WriteRecord_stream ::
    "(bytes \<Rightarrow> 32 word) \<Rightarrow> (bytes \<Rightarrow> bytes) \<Rightarrow> LogWriter \<Rightarrow> log_dir \<Rightarrow> write_outcome list \<Rightarrow> bytes \<Rightarrow>
     (bool \<times> LogWriter \<times> log_dir \<times> write_outcome list) option" where
  "WriteRecord_stream crc deflate w d os inp =
     Option.bind (ensure_open w d) (\<lambda>(w1, d1).
     Option.bind (AppendRecord_stream crc deflate (lw_recorder w1) inp (lw_buf w1) False) (\<lambda>(full, rec, out).
       let w2 = w1\<lparr>lw_recorder := rec, lw_buf := out\<rparr>
       in if full then WriteBuffer w2 d1 os else Some (True, w2, d1, os)))"

definition finalize_recorder :: "(bytes \<Rightarrow> 32 word) \<Rightarrow> LogWriter \<Rightarrow> LogWriter option" where
  "finalize_recorder crc w =
     map_option (\<lambda>(rec, out). w\<lparr>lw_recorder := rec, lw_buf := out\<rparr>)
       (FinalizeContent crc (lw_recorder w) (lw_buf w))"

definition LogWriter_Flush ::
    "(bytes \<Rightarrow> 32 word) \<Rightarrow> LogWriter \<Rightarrow> log_dir \<Rightarrow> write_outcome list \<Rightarrow>
     (bool \<times> LogWriter \<times> log_dir \<times> write_outcome list) option" where
  "LogWriter_Flush crc w d os =
     Option.bind (finalize_recorder crc w) (\<lambda>w1.
       if lw_buf w1 = [] then Some (True, w1, d, os) else WriteBuffer w1 d os)"

text \<open>\<open>TruncateAt\<close>: every file after the position is removed, and the file of the position is cut.\<close>

definition TruncateAt ::
    "(bytes \<Rightarrow> 32 word) \<Rightarrow> LogWriter \<Rightarrow> log_dir \<Rightarrow> write_outcome list \<Rightarrow> LogPos \<Rightarrow>
     (bool \<times> LogWriter \<times> log_dir \<times> write_outcome list) option" where
  "TruncateAt crc w d os p =
     (if lw_temporary_incomplete_file w then Some (False, w, d, os)
      else
        Option.bind (finalize_recorder crc w) (\<lambda>w0.
        Option.bind (WriteBuffer w0 d os) (\<lambda>(_, w1, d1, os1).
          let (w2, d2) = CloseLog w1 d1;
              start_delete = (if block_num p = 0 then file_num p else file_num p + 1);
              d3 = fold (\<lambda>n x. if n \<ge> start_delete then Rm x (False, n) else x) (GetLogFiles d2) d2;
              d4 = (if block_num p > 0
                    then truncate_file (open_always d3 (False, file_num p)) (False, file_num p)
                           (nat (block_num p) * lw_block_size w2)
                    else d3)
          in map_option (\<lambda>(w3, d5). (True, w3, d5, os1))
               (OpenNextLog (w2\<lparr>lw_file_num := (if file_num p < 0 then 0 else file_num p)\<rparr>) d4))))"

definition LogWriter_Tell :: "LogWriter \<Rightarrow> log_dir \<Rightarrow> LogPos" where
  "LogWriter_Tell w d =
     (let ps = (case lw_file w of None \<Rightarrow> 0 | Some f \<Rightarrow> length (file_content d f));
          pending = int (PendingRecordCount (lw_recorder w))
      in if ps = file_limit w then \<lparr>file_num = lw_file_num w + 1, block_num = 0, record_num = pending\<rparr>
         else \<lparr>file_num = lw_file_num w, block_num = int (ps div lw_block_size w), record_num = pending\<rparr>)"

definition LogWriter_Close ::
    "(bytes \<Rightarrow> 32 word) \<Rightarrow> LogWriter \<Rightarrow> log_dir \<Rightarrow> write_outcome list \<Rightarrow>
     (LogWriter \<times> log_dir \<times> write_outcome list) option" where
  "LogWriter_Close crc w d os =
     (if lw_file w = None then Some (w, d, os)
      else
        Option.bind (finalize_recorder crc w) (\<lambda>w0.
        Option.bind (WriteBuffer w0 d os) (\<lambda>(_, w1, d1, os1).
          let (w2, d2) = CloseLog w1 d1 in Some (w2, d2\<lparr>d_lock := None\<rparr>, os1))))"

section \<open>The reader\<close>

record LogReader =
  lr_block_size :: nat
  lr_blocks_per_file :: nat
  lr_file :: "nat option"
  lr_file_num :: int
  lr_record_num :: int
  lr_reader :: RecordReader
  lr_num_errors :: nat
  lr_buf :: bytes

definition lr_new :: "nat \<Rightarrow> nat \<Rightarrow> LogReader" where
  "lr_new bsize blocks_per_file =
     \<lparr>lr_block_size = bsize, lr_blocks_per_file = blocks_per_file, lr_file = None, lr_file_num = -1,
      lr_record_num = 0, lr_reader = rr_new bsize, lr_num_errors = 0, lr_buf = []\<rparr>"

definition NewReader :: "LogWriter \<Rightarrow> LogReader" where
  "NewReader w = lr_new (lw_block_size w) (lw_blocks_per_file w)"

text \<open>\<open>lr_file\<close> is the position in the open file, whose number is \<open>lr_file_num\<close>.\<close>

definition LogReader_Tell :: "LogReader \<Rightarrow> LogPos" where
  "LogReader_Tell r =
     \<lparr>file_num = lr_file_num r,
      block_num = (case lr_file r of
                     Some p \<Rightarrow> if p > 0 then int (p div lr_block_size r) - (if lr_record_num r = 0 then 0 else 1) else 0
                   | None \<Rightarrow> 0),
      record_num = lr_record_num r\<rparr>"

definition TellAtBlock :: "LogReader \<Rightarrow> LogPos" where
  "TellAtBlock r =
     \<lparr>file_num = lr_file_num r,
      block_num = (case lr_file r of Some p \<Rightarrow> int (p div lr_block_size r) | None \<Rightarrow> 0),
      record_num = 0\<rparr>"

definition CloseInternal :: "bool \<Rightarrow> LogReader \<Rightarrow> LogReader" where
  "CloseInternal on_error r =
     r\<lparr>lr_file := None, lr_file_num := -1, lr_record_num := 0,
       lr_num_errors := lr_num_errors r + (if on_error then 1 else 0),
       lr_reader := rr_Clear (lr_reader r), lr_buf := []\<rparr>"

definition Rewind :: "log_dir \<Rightarrow> LogReader \<Rightarrow> LogReader" where
  "Rewind d r =
     (case GetLogFiles d of
        [] \<Rightarrow> CloseInternal False r
      | n # _ \<Rightarrow> (CloseInternal False r)\<lparr>lr_file_num := n\<rparr>)"

definition OpenFile :: "log_dir \<Rightarrow> LogReader \<Rightarrow> int \<Rightarrow> (bool \<times> LogReader) option" where
  "OpenFile d r n =
     (if lr_file_num r = n \<and> lr_file r \<noteq> None then Some (True, r)
      else
        let r1 = (CloseInternal False r)\<lparr>lr_file_num := n\<rparr>
        in if n < 0 then None
           else if IsReadableFile d (False, n) then Some (True, r1\<lparr>lr_file := Some 0\<rparr>)
           else Some (False, r1))"

definition LogReader_ReadBlock :: "log_dir \<Rightarrow> LogReader \<Rightarrow> (bool \<times> LogReader) option" where
  "LogReader_ReadBlock d r =
     (case lr_file r of
        None \<Rightarrow> None
      | Some p \<Rightarrow>
          Option.bind (if p = lr_block_size r * lr_blocks_per_file r then OpenFile d r (lr_file_num r + 1)
                       else Some (True, r)) (\<lambda>(ok, r1).
            if \<not> ok then Some (False, r1)
            else if lr_buf r1 \<noteq> [] then None
            else case lr_file r1 of
                None \<Rightarrow> None
              | Some q \<Rightarrow>
                  let chunk = take (lr_block_size r1) (drop q (file_content d (False, lr_file_num r1)))
                  in if length chunk < lr_block_size r1 then Some (False, r1)
                     else Some (True, r1\<lparr>lr_buf := chunk, lr_file := Some (q + length chunk)\<rparr>)))"

partial_function (option) GetNextRecord_loop ::
    "(bytes \<Rightarrow> 32 word) \<Rightarrow> (bytes \<Rightarrow> bool \<times> bytes) \<Rightarrow> log_dir \<Rightarrow> LogReader \<Rightarrow> bytes option \<Rightarrow>
     (bool \<times> LogReader \<times> bytes option) option" where
  "GetNextRecord_loop crc inflate d r out =
     Option.bind (ReadRecord crc inflate (lr_reader r) (lr_buf r) out 0 0) (\<lambda>(res, rd, buf, out', num_skipped).
       let r1 = r\<lparr>lr_reader := rd, lr_buf := buf\<rparr> in
       if res = READ_NO_DATA then
         Option.bind (LogReader_ReadBlock d (r1\<lparr>lr_record_num := 0\<rparr>)) (\<lambda>(ok, r2).
           if ok then GetNextRecord_loop crc inflate d r2 out' else Some (False, r2, out'))
       else Some (True, r1\<lparr>lr_record_num := lr_record_num r1 + int num_skipped + 1,
                           lr_num_errors := lr_num_errors r1 + (if res \<noteq> READ_OK then 1 else 0)\<rparr>, out'))"

definition GetNextRecord ::
    "(bytes \<Rightarrow> 32 word) \<Rightarrow> (bytes \<Rightarrow> bool \<times> bytes) \<Rightarrow> log_dir \<Rightarrow> LogReader \<Rightarrow> bytes option \<Rightarrow>
     (bool \<times> LogReader \<times> bytes option) option" where
  "GetNextRecord crc inflate d r out =
     (let r1 = (if lr_file_num r = -1 then Rewind d r else r) in
      if lr_file_num r1 = -1 then Some (False, r1, out)
      else Option.bind (if lr_file r1 = None then OpenFile d r1 (lr_file_num r1) else Some (True, r1)) (\<lambda>(ok, r2).
             if \<not> ok then Some (False, r2, out) else GetNextRecord_loop crc inflate d r2 out))"

partial_function (option) advance_records ::
    "(bytes \<Rightarrow> 32 word) \<Rightarrow> (bytes \<Rightarrow> bool \<times> bytes) \<Rightarrow> LogReader \<Rightarrow> LogPos \<Rightarrow> (bool \<times> LogReader) option" where
  "advance_records crc inflate r p =
     (if lr_record_num r < record_num p then
        Option.bind (ReadRecord crc inflate (lr_reader r) (lr_buf r) None 0 (nat (record_num p)))
          (\<lambda>(res, rd, buf, _, num_skipped).
             let r1 = r\<lparr>lr_reader := rd, lr_buf := buf\<rparr> in
             if res \<noteq> READ_OK then Some (False, r1)
             else advance_records crc inflate (r1\<lparr>lr_record_num := lr_record_num r1 + int num_skipped + 1\<rparr>) p)
      else Some (True, r))"

definition AdvanceToPosInFile ::
    "(bytes \<Rightarrow> 32 word) \<Rightarrow> (bytes \<Rightarrow> bool \<times> bytes) \<Rightarrow> log_dir \<Rightarrow> LogReader \<Rightarrow> LogPos \<Rightarrow> (bool \<times> LogReader) option" where
  "AdvanceToPosInFile crc inflate d r p =
     (if lr_file r = None \<or> lr_file_num r \<noteq> file_num p then None
      else
        let r1 = r\<lparr>lr_reader := rr_Clear (lr_reader r), lr_buf := []\<rparr> in
        if block_num p < 0 then Some (False, r1)
        else
          let r2 = r1\<lparr>lr_file := Some (nat (block_num p) * lr_block_size r1)\<rparr> in
          if record_num p = 0 then Some (True, r2)
          else Option.bind (LogReader_ReadBlock d r2) (\<lambda>(ok, r3).
                 if \<not> ok then Some (False, r3)
                 else advance_records crc inflate (r3\<lparr>lr_record_num := 0\<rparr>) p))"

definition Seek ::
    "(bytes \<Rightarrow> 32 word) \<Rightarrow> (bytes \<Rightarrow> bool \<times> bytes) \<Rightarrow> log_dir \<Rightarrow> LogReader \<Rightarrow> LogPos \<Rightarrow> (bool \<times> LogReader) option" where
  "Seek crc inflate d r p =
     (if LogPos_IsNull p then Some (True, Rewind d r)
      else if block_num p = 0 \<and> record_num p = 0 \<and> file_num p > 0 \<and>
              IsReadableFile d (False, file_num p - 1) \<and> \<not> IsReadableFile d (False, file_num p)
      then Some (True, (CloseInternal False r)\<lparr>lr_file_num := file_num p, lr_record_num := 0\<rparr>)
      else Option.bind (OpenFile d r (file_num p)) (\<lambda>(ok, r1).
             if \<not> ok then Some (False, r1) else AdvanceToPosInFile crc inflate d r1 p))"

partial_function (option) count_loop ::
    "(bytes \<Rightarrow> 32 word) \<Rightarrow> (bytes \<Rightarrow> bool \<times> bytes) \<Rightarrow> log_dir \<Rightarrow> LogReader \<Rightarrow> nat \<Rightarrow> (nat \<times> LogReader) option" where
  "count_loop crc inflate d r n =
     Option.bind (GetNextRecord crc inflate d r None) (\<lambda>(more, r1, _).
       if more then count_loop crc inflate d r1 (n + 1) else Some (n, r1))"

definition CountLogRecords ::
    "(bytes \<Rightarrow> 32 word) \<Rightarrow> (bytes \<Rightarrow> bool \<times> bytes) \<Rightarrow> log_dir \<Rightarrow> LogReader \<Rightarrow> (nat \<times> LogReader) option" where
  "CountLogRecords crc inflate d r =
     map_option (apsnd (Rewind d)) (count_loop crc inflate d r 0)"

end
