(* ===== verification/LogDir.thy ===== *)
theory LogDir
  imports LogIO
begin

text \<open>
  The parts of the log layer below its writer and reader: the order of positions, the names
  of log files (they can be told apart, sorted and parsed), and the directory functions,
  each characterised by what it does to the files.
\<close>

section \<open>Positions\<close>

lemma LogPos_less_iff:
  fixes p q :: LogPos
  shows "p < q \<longleftrightarrow> file_num p < file_num q \<or> file_num p = file_num q \<and>
    (block_num p < block_num q \<or> block_num p = block_num q \<and> record_num p < record_num q)"
  by (auto simp: less_LogPos_ext_def less_eq_LogPos_ext_def intro: LogPos.equality)

text \<open>\<open>LogPos::Compare\<close> is the lexicographic order of file, block and record number: it
  is negative, zero or positive exactly when the first position is below, equal to or above
  the second, and swapping the arguments swaps the sign.\<close>

theorem Compare_order:
  "(Compare p q < 0 \<longleftrightarrow> p < q) \<and> (Compare p q = 0 \<longleftrightarrow> p = q) \<and> (Compare p q > 0 \<longleftrightarrow> q < p) \<and>
   Compare q p = - Compare p q"
proof -
  have "p = q \<longleftrightarrow> file_num p = file_num q \<and> block_num p = block_num q \<and> record_num p = record_num q"
    by (auto intro: LogPos.equality)
  then show ?thesis by (auto simp: Compare_def LogPos_less_iff)
qed

lemma Decrement_less:
  assumes "0 \<le> file_num p" and "0 \<le> block_num p" and "0 \<le> record_num p"
  shows "Decrement bpf p < p"
  using assms by (auto simp: Decrement_def LogPos_less_iff LogPos_null_def)

section \<open>Names\<close>

lemma length_digits10 [simp]: "length (digits10 w n) = w"
  by (induction w arbitrary: n) auto

lemma of_char_digit: "(of_char (char_of (48 + n mod 10 :: nat)) :: nat) = 48 + n mod 10"
  by (simp add: of_char_of)

lemma strtol_digits_append:
  "\<forall>c \<in> set xs. 48 \<le> (of_char c :: nat) \<and> (of_char c :: nat) \<le> 57 \<Longrightarrow>
   strtol_digits acc (xs @ ys) = strtol_digits (strtol_digits acc xs) ys"
  by (induction xs arbitrary: acc) auto

lemma digits10_range: "c \<in> set (digits10 w n) \<Longrightarrow> 48 \<le> (of_char c :: nat) \<and> (of_char c :: nat) \<le> 57"
  by (induction w arbitrary: n) (auto simp: of_char_digit)

lemma strtol_digits10: "strtol_digits acc (digits10 w n) = acc * 10 ^ w + n mod 10 ^ w"
proof (induction w arbitrary: n acc)
  case (Suc w)
  have "strtol_digits acc (digits10 (Suc w) n) =
      strtol_digits (strtol_digits acc (digits10 w (n div 10))) [char_of (48 + n mod 10)]"
    using digits10_range [of _ w "n div 10"] by (simp add: strtol_digits_append)
  also have "\<dots> = 10 * (acc * 10 ^ w + n div 10 mod 10 ^ w) + n mod 10"
    using Suc of_char_digit [of n] by (simp add: less_Suc_eq_le [symmetric])
  also have "n mod 10 ^ Suc w = 10 * (n div 10 mod 10 ^ w) + n mod 10"
    by (simp add: mod_mult2_eq)
  ultimately show ?case by simp
qed simp

lemma digits10_inject:
  "m < 10 ^ w \<Longrightarrow> n < 10 ^ w \<Longrightarrow> digits10 w m = digits10 w n \<longleftrightarrow> m = n"
  using strtol_digits10 [of 0 w m] strtol_digits10 [of 0 w n] by (metis add_0 mod_less mult_0)

lemma digits10_less:
  "m < n \<Longrightarrow> n < 10 ^ w \<Longrightarrow> digits10 w m < digits10 w n"
proof (induction w arbitrary: m n)
  case (Suc w)
  show ?case
  proof (cases "m div 10 = n div 10")
    case True
    then have "m mod 10 < n mod 10" using Suc.prems by (metis div_mult_mod_eq less_not_refl nat_add_left_cancel_less)
    then have "char_of (48 + m mod 10) < (char_of (48 + n mod 10) :: char)"
      by (simp add: less_char_def of_char_digit)
    then show ?thesis by (simp add: True list_less_def lexord_append_leftI)
  next
    case False
    then have "m div 10 < n div 10" using Suc.prems(1) by (meson div_le_mono le_neq_implies_less less_imp_le)
    moreover have "n div 10 < 10 ^ w" using Suc.prems(2) by (simp add: less_mult_imp_div_less mult.commute)
    ultimately have "digits10 w (m div 10) < digits10 w (n div 10)" by (rule Suc.IH)
    then show ?thesis by (simp add: list_less_def lexord_sufI)
  qed
qed simp

text \<open>The name of a log file inside its directory, as \<open>DirList\<close> returns it.\<close>

definition base_name :: "string \<Rightarrow> nat \<Rightarrow> nat \<Rightarrow> string" where
  "base_name file_base bsize num = file_base @ ''_'' @ digits10 10 bsize @ ''_'' @ digits10 10 num"

lemma base_name_less: "m < n \<Longrightarrow> n < 10 ^ 10 \<Longrightarrow> base_name b s m < base_name b s n"
  using digits10_less [of m n 10] by (simp add: base_name_def list_less_def lexord_append_leftI)

lemma ComposeFileName_base: "ComposeFileName dir b s n = dir @ ''/'' @ base_name b s n"
  by (simp add: ComposeFileName_def base_name_def)

text \<open>File names sort like file numbers. For one directory, base and block size, two
  log file names compare (as strings, the way the directory functions sort them) like the
  numbers they were composed from, and the last ten characters give the number back; so
  different numbers have different names.\<close>

theorem ComposeFileName_sorts:
  assumes "m < 10 ^ 10" and "n < 10 ^ 10"
  shows "(ComposeFileName dir b s m < ComposeFileName dir b s n \<longleftrightarrow> m < n) \<and>
    (ComposeFileName dir b s m = ComposeFileName dir b s n \<longleftrightarrow> m = n) \<and>
    strtol_digits 0 (drop (length (ComposeFileName dir b s n) - 10) (ComposeFileName dir b s n)) = n"
proof -
  have less: "ComposeFileName dir b s i < ComposeFileName dir b s j" if "i < j" "j < 10 ^ 10" for i j
    using base_name_less [OF that, of b s] by (simp add: ComposeFileName_base list_less_def lexord_append_leftI)
  have "strtol_digits 0 (digits10 10 n) = n" using assms(2) by (simp add: strtol_digits10)
  moreover have "drop (length (ComposeFileName dir b s n) - 10) (ComposeFileName dir b s n) = digits10 10 n"
  proof -
    have "ComposeFileName dir b s n = (dir @ ''/'' @ b @ ''_'' @ digits10 10 s @ ''_'') @ digits10 10 n"
      by (simp add: ComposeFileName_def)
    then show ?thesis by (metis add_diff_cancel_right' append_eq_conv_conj length_append length_digits10)
  qed
  moreover have "ComposeFileName dir b s m < ComposeFileName dir b s n \<longleftrightarrow> m < n"
    using less [of m n] less [of n m] assms by (cases m n rule: linorder_cases) auto
  moreover have "ComposeFileName dir b s m = ComposeFileName dir b s n \<longleftrightarrow> m = n"
    using less [of m n] less [of n m] assms by (cases m n rule: linorder_cases) auto
  ultimately show ?thesis by simp
qed

theorem ComposeFileName_sorts_witness:
  "ComposeFileName ''d'' ''log'' 64 9 < ComposeFileName ''d'' ''log'' 64 10 \<and>
   ComposeFileName ''d'' ''log'' 64 9 \<noteq> ComposeFileName ''d'' ''log'' 64 10"
  using ComposeFileName_sorts [of 9 10 "''d''" "''log''" 64] by simp

lemma sort_key_hd:
  fixes f :: "'a \<Rightarrow> 'b::linorder"
  assumes "x \<in> set xs" and "\<forall>y \<in> set xs. y = x \<or> f x < f y"
  shows "\<exists>ys. sort_key f xs = x # ys"
proof (cases "sort_key f xs")
  case Nil
  then show ?thesis using assms(1) by (metis empty_iff set_empty set_sort)
next
  case (Cons y ys)
  then have "y \<in> set xs" by (metis list.set_intros(1) set_sort)
  moreover have "f y \<le> f x"
  proof -
    have "sorted (map f (y # ys))" using sorted_sort_key [of f xs] Cons by simp
    moreover have "x \<in> set (y # ys)" using assms(1) Cons by (metis set_sort)
    ultimately show ?thesis by auto
  qed
  ultimately show ?thesis using assms(2) Cons by fastforce
qed

text \<open>The settings of a log can be recovered from its directory: when the first file of
  the log (the one with the smallest number) is complete, \<open>DetectLogSettings\<close> returns the
  file base, the block size and the number of blocks per file the writer was created with.\<close>

theorem DetectLogSettings_roundtrip:
  assumes "n \<in> set ns" and "\<forall>m \<in> set ns. n \<le> m \<and> m < 10 ^ 10" and "size_of n = bs * bpf"
    and "0 < bs" and "bs < 10 ^ 10" and "0 < bpf"
  shows "DetectLogSettings (map (\<lambda>m. (base_name b bs m, size_of m)) ns) = Some (Some (b, bs, bpf))"
proof -
  let ?f = "\<lambda>m. (base_name b bs m, size_of m)"
  have "\<forall>y \<in> set (map ?f ns). y = ?f n \<or> fst (?f n) < fst y"
    using assms(2) base_name_less [of n _ b bs] by (auto simp: order_le_less)
  then obtain ys where "sort_key fst (map ?f ns) = ?f n # ys"
    using sort_key_hd [of "?f n" "map ?f ns" fst] assms(1) by auto
  moreover have "strtol_digits 0 (digits10 10 bs) = bs" using assms(5) by (simp add: strtol_digits10)
  ultimately show ?thesis using assms(3,4,6) by (simp add: DetectLogSettings_def base_name_def Let_def)
qed

theorem DetectLogSettings_roundtrip_witness:
  "DetectLogSettings (map (\<lambda>m. (base_name ''log'' 64 m, if m = 3 then 256 else 64)) [5, 3, 4]) =
     Some (Some (''log'', 64, 4))"
  by (rule DetectLogSettings_roundtrip [of 3]) auto

section \<open>The files of a directory\<close>

lemma file_content_set_file [simp]:
  "file_content (set_file d f b) g = (if g = f then b else file_content d g)"
  by (simp add: file_content_def set_file_def update_conv')

lemma IsReadableFile_set_file [simp]: "IsReadableFile (set_file d f b) g \<longleftrightarrow> g = f \<or> IsReadableFile d g"
  by (simp add: IsReadableFile_def set_file_def update_conv')

lemma file_content_Rm [simp]: "file_content (Rm d f) g = (if g = f then [] else file_content d g)"
  by (simp add: file_content_def Rm_def delete_conv')

lemma IsReadableFile_Rm [simp]: "IsReadableFile (Rm d f) g \<longleftrightarrow> g \<noteq> f \<and> IsReadableFile d g"
  by (simp add: IsReadableFile_def Rm_def delete_conv')

lemma open_always_simps [simp]:
  "IsReadableFile (open_always d f) g \<longleftrightarrow> g = f \<or> IsReadableFile d g"
  "file_content (open_always d f) g = file_content d g"
  by (auto simp: open_always_def) (auto simp: file_content_def IsReadableFile_def)

lemma truncate_file_simps [simp]:
  "IsReadableFile (truncate_file d f n) g \<longleftrightarrow> g = f \<or> IsReadableFile d g"
  "file_content (truncate_file d f n) g =
     (if g = f then take n (file_content d f) @ replicate (n - length (file_content d f)) 0 else file_content d g)"
  by (simp_all add: truncate_file_def Let_def)

lemma d_lock_simps [simp]:
  "file_content (d\<lparr>d_lock := l\<rparr>) f = file_content d f" "IsReadableFile (d\<lparr>d_lock := l\<rparr>) f = IsReadableFile d f"
  by (simp_all add: file_content_def IsReadableFile_def)

lemma set_GetLogFiles: "set (GetLogFiles d) = {n. IsReadableFile d (False, n)}"
  by (force simp: GetLogFiles_def IsReadableFile_def map_of_eq_None_iff image_iff)

lemma sorted_GetLogFiles: "sorted (GetLogFiles d)" "distinct (GetLogFiles d)"
  by (simp_all add: GetLogFiles_def)

lemma GetLogFiles_eqI: "sorted ns \<Longrightarrow> distinct ns \<Longrightarrow> set ns = {n. IsReadableFile d (False, n)} \<Longrightarrow> GetLogFiles d = ns"
  using set_GetLogFiles [of d] sorted_GetLogFiles [of d] by (metis sorted_distinct_set_unique)

lemma GetLastNumberedFile_Max:
  assumes "IsReadableFile d (False, n)" and "\<And>m. IsReadableFile d (False, m) \<Longrightarrow> m \<le> n"
  shows "GetLastNumberedFile d = n"
proof -
  have n: "n \<in> set (GetLogFiles d)" using assms(1) by (simp add: set_GetLogFiles)
  then have ne: "GetLogFiles d \<noteq> []" by auto
  then have "last (GetLogFiles d) \<in> set (GetLogFiles d)" by simp
  then have "last (GetLogFiles d) \<le> n" using assms(2) by (simp add: set_GetLogFiles)
  moreover have "n \<le> last (GetLogFiles d)"
    using n ne sorted_GetLogFiles(1) [of d]
    by (cases "GetLogFiles d" rule: rev_cases) (auto simp: sorted_append)
  ultimately show ?thesis using ne by (simp add: GetLastNumberedFile_def)
qed

lemma GetLastNumberedFile_none: "(\<And>m. \<not> IsReadableFile d (False, m)) \<Longrightarrow> GetLastNumberedFile d = -1"
  using set_GetLogFiles [of d] by (simp add: GetLastNumberedFile_def)

lemma clean_loop_correct:
  "sorted ns \<Longrightarrow> distinct ns \<Longrightarrow> clean_loop p ns d k =
     (k + length (filter (\<lambda>n. n < file_num p) ns),
      fold (\<lambda>n x. Rm x (False, n)) (filter (\<lambda>n. n < file_num p) ns) d)"
proof (induction ns arbitrary: d k)
  case (Cons n ns)
  show ?case
  proof (cases "n < file_num p")
    case False
    then have "filter (\<lambda>m. m < file_num p) (n # ns) = []" using Cons.prems by (auto simp: filter_empty_conv)
    then show ?thesis using False by (simp only:) simp
  qed (use Cons in simp)
qed simp

lemma fold_Rm:
  "IsReadableFile (fold (\<lambda>n x. Rm x (False, n)) ns d) g \<longleftrightarrow> IsReadableFile d g \<and> (\<forall>n \<in> set ns. g \<noteq> (False, n))"
  "file_content (fold (\<lambda>n x. Rm x (False, n)) ns d) g =
     (if \<exists>n \<in> set ns. g = (False, n) then [] else file_content d g)"
  by (induction ns arbitrary: d) auto

text \<open>\<open>CleanLog\<close> removes exactly the log files whose number is below the file of the given
  position, returns how many there were, and leaves every other file with its content.\<close>

theorem CleanLog_removes:
  "CleanLog d p = (k, d') \<Longrightarrow>
     k = card {n. IsReadableFile d (False, n) \<and> n < file_num p} \<and>
     (\<forall>t n. IsReadableFile d' (t, n) \<longleftrightarrow> IsReadableFile d (t, n) \<and> (t \<or> file_num p \<le> n)) \<and>
     (\<forall>t n. t \<or> file_num p \<le> n \<longrightarrow> file_content d' (t, n) = file_content d (t, n))"
proof -
  assume "CleanLog d p = (k, d')"
  then have k: "k = length (filter (\<lambda>n. n < file_num p) (GetLogFiles d))"
    and d': "d' = fold (\<lambda>n x. Rm x (False, n)) (filter (\<lambda>n. n < file_num p) (GetLogFiles d)) d"
    using clean_loop_correct [OF sorted_GetLogFiles [of d], of p d 0] by (simp_all add: CleanLog_def)
  have "k = card (set (filter (\<lambda>n. n < file_num p) (GetLogFiles d)))"
    using k sorted_GetLogFiles(2) [of d] by (metis distinct_card distinct_filter)
  then show ?thesis by (auto simp: d' fold_Rm set_GetLogFiles)
qed

theorem CleanLog_removes_witness:
  "\<exists>k d'. CleanLog \<lparr>d_files = [((False, 2), [7]), ((False, 0), [1]), ((False, 1), [2])], d_lock = None\<rparr>
      \<lparr>file_num = 2, block_num = 0, record_num = 0\<rparr> = (k, d') \<and>
     \<not> IsReadableFile d' (False, 1) \<and> file_content d' (False, 2) = [7]"
proof -
  let ?d = "\<lparr>d_files = [((False, 2), [7]), ((False, 0), [1]), ((False, 1), [2])], d_lock = None\<rparr>"
  obtain k d' where c: "CleanLog ?d \<lparr>file_num = 2, block_num = 0, record_num = 0\<rparr> = (k, d')" by force
  have "file_content ?d (False, 2) = [7]" by (simp add: file_content_def)
  with c CleanLog_removes [OF c] show ?thesis by auto
qed

end
