(* ===== verification/LogWrite.thy ===== *)
theory LogWrite
  imports LogDir
begin

text \<open>
  The correctness of \<open>io::LogWriter\<close>. A log is a list of blocks, each with the CRC it
  stores for its predecessor and its record pieces; \<open>dir_holds\<close> says that the files of a
  directory are this list cut into files of \<open>blocks_per_file\<close> blocks, \<open>lw_holds\<close> that a
  writer is at its end with some blocks buffered and the pieces of one block open. Every
  operation of the writer is characterised on these lists: appending, flushing under any
  pattern of clean write failures, initializing on an existing log and truncating.
\<close>

section \<open>Logs as lists of blocks\<close>

type_synonym log_block = "32 word \<times> piece list"

definition blk_bytes :: "(bytes \<Rightarrow> 32 word) \<Rightarrow> nat \<Rightarrow> log_block \<Rightarrow> bytes" where
  "blk_bytes crc bs B = block_image crc bs (fst B) (snd B)"

definition blk_crc :: "(bytes \<Rightarrow> 32 word) \<Rightarrow> nat \<Rightarrow> log_block \<Rightarrow> 32 word" where
  "blk_crc crc bs B = crc (block_body bs (fst B) (snd B))"

definition blocks_bytes :: "(bytes \<Rightarrow> 32 word) \<Rightarrow> nat \<Rightarrow> log_block list \<Rightarrow> bytes" where
  "blocks_bytes crc bs G = concat (map (blk_bytes crc bs) G)"

definition log_pieces :: "log_block list \<Rightarrow> piece list" where
  "log_pieces G = concat (map snd G)"

definition blocks_ok :: "nat \<Rightarrow> log_block list \<Rightarrow> bool" where
  "blocks_ok bs G \<longleftrightarrow> (\<forall>B \<in> set G. block_ok bs (snd B))"

text \<open>Every block stores no CRC of its predecessor, or the right one.\<close>

fun chained :: "(bytes \<Rightarrow> 32 word) \<Rightarrow> nat \<Rightarrow> 32 word \<Rightarrow> log_block list \<Rightarrow> bool" where
  "chained crc bs c [] \<longleftrightarrow> True"
| "chained crc bs c (B # G) \<longleftrightarrow> (fst B = 0 \<or> fst B = c) \<and> chained crc bs (blk_crc crc bs B) G"

fun last_crc :: "(bytes \<Rightarrow> 32 word) \<Rightarrow> nat \<Rightarrow> 32 word \<Rightarrow> log_block list \<Rightarrow> 32 word" where
  "last_crc crc bs c [] = c"
| "last_crc crc bs c (B # G) = last_crc crc bs (blk_crc crc bs B) G"

fun with_prev :: "(bytes \<Rightarrow> 32 word) \<Rightarrow> nat \<Rightarrow> 32 word \<Rightarrow> piece list list \<Rightarrow> log_block list" where
  "with_prev crc bs c [] = []"
| "with_prev crc bs c (ps # bl) = (c, ps) # with_prev crc bs (crc (block_body bs c ps)) bl"

lemma blocks_bytes_simps [simp]:
  "blocks_bytes crc bs [] = []" "blocks_bytes crc bs (B # G) = blk_bytes crc bs B @ blocks_bytes crc bs G"
  "blocks_bytes crc bs (G @ H) = blocks_bytes crc bs G @ blocks_bytes crc bs H"
  by (simp_all add: blocks_bytes_def)

lemma log_pieces_simps [simp]:
  "log_pieces [] = []" "log_pieces (B # G) = snd B @ log_pieces G" "log_pieces (G @ H) = log_pieces G @ log_pieces H"
  by (simp_all add: log_pieces_def)

lemma blocks_ok_simps [simp]:
  "blocks_ok bs []" "blocks_ok bs (B # G) \<longleftrightarrow> block_ok bs (snd B) \<and> blocks_ok bs G"
  "blocks_ok bs (G @ H) \<longleftrightarrow> blocks_ok bs G \<and> blocks_ok bs H"
  by (auto simp: blocks_ok_def)

lemma blocks_ok_take [intro]: "blocks_ok bs G \<Longrightarrow> blocks_ok bs (take n G)"
  and blocks_ok_drop [intro]: "blocks_ok bs G \<Longrightarrow> blocks_ok bs (drop n G)"
  by (auto simp: blocks_ok_def dest: in_set_takeD in_set_dropD)

lemma length_blk_bytes: "block_ok bs (snd B) \<Longrightarrow> length (blk_bytes crc bs B) = bs"
  by (simp add: blk_bytes_def block_ok_def length_block_image)

lemma length_blocks_bytes: "blocks_ok bs G \<Longrightarrow> length (blocks_bytes crc bs G) = length G * bs"
  by (induction G) (simp_all add: length_blk_bytes)

lemma take_blocks_bytes: "blocks_ok bs G \<Longrightarrow> take (n * bs) (blocks_bytes crc bs G) = blocks_bytes crc bs (take n G)"
proof (induction G arbitrary: n)
  case (Cons B G)
  then show ?case by (cases n) (simp_all add: length_blk_bytes)
qed simp

lemma drop_blocks_bytes: "blocks_ok bs G \<Longrightarrow> drop (n * bs) (blocks_bytes crc bs G) = blocks_bytes crc bs (drop n G)"
proof (induction G arbitrary: n)
  case (Cons B G)
  then show ?case by (cases n) (simp_all add: length_blk_bytes)
qed simp

lemma blocks_bytes_Nil: "blocks_ok bs G \<Longrightarrow> 0 < bs \<Longrightarrow> blocks_bytes crc bs G = [] \<longleftrightarrow> G = []"
  using length_blocks_bytes [of bs G crc] by (cases G) auto

lemma chained_append:
  "chained crc bs c (G @ H) \<longleftrightarrow> chained crc bs c G \<and> chained crc bs (last_crc crc bs c G) H"
  by (induction G arbitrary: c) auto

lemma last_crc_append [simp]: "last_crc crc bs c (G @ H) = last_crc crc bs (last_crc crc bs c G) H"
  by (induction G arbitrary: c) auto

lemma chained_take: "chained crc bs c G \<Longrightarrow> chained crc bs c (take n G)"
  by (metis append_take_drop_id chained_append)

lemma with_prev_facts:
  "log_image crc bs c bl = blocks_bytes crc bs (with_prev crc bs c bl)"
  "log_crc crc bs c bl = last_crc crc bs c (with_prev crc bs c bl)"
  "log_pieces (with_prev crc bs c bl) = concat bl" "length (with_prev crc bs c bl) = length bl"
  "blocks_ok bs (with_prev crc bs c bl) \<longleftrightarrow> (\<forall>b \<in> set bl. block_ok bs b)"
  by (induction bl arbitrary: c) (auto simp: blk_bytes_def blk_crc_def)

lemma chained_with_prev: "c = 0 \<or> c = c' \<Longrightarrow> chained crc bs c' (with_prev crc bs c bl)"
  by (induction bl arbitrary: c c') (auto simp: blk_crc_def)

lemma last_crc_with_prev: "bl \<noteq> [] \<Longrightarrow> last_crc crc bs c' (with_prev crc bs c bl) = log_crc crc bs c bl"
  by (cases bl) (simp_all add: with_prev_facts(2) blk_crc_def)

section \<open>A directory that holds a log\<close>

definition file_blocks :: "nat \<Rightarrow> nat \<Rightarrow> log_block list \<Rightarrow> log_block list" where
  "file_blocks bpf i G = take bpf (drop (i * bpf) G)"

definition dir_holds :: "(bytes \<Rightarrow> 32 word) \<Rightarrow> nat \<Rightarrow> nat \<Rightarrow> int \<Rightarrow> log_dir \<Rightarrow> log_block list \<Rightarrow> bool" where
  "dir_holds crc bs bpf b d G \<longleftrightarrow> 0 \<le> b \<and> 0 < bs \<and> 0 < bpf \<and> blocks_ok bs G \<and> chained crc bs 0 G \<and>
     (\<forall>n. IsReadableFile d (False, n) \<longleftrightarrow> b \<le> n \<and> n \<le> b + int (length G div bpf)) \<and>
     (\<forall>i \<le> length G div bpf. file_content d (False, b + int i) = blocks_bytes crc bs (file_blocks bpf i G))"

lemma file_blocks_append:
  "i < length G div bpf \<Longrightarrow> file_blocks bpf i (G @ H) = file_blocks bpf i G"
proof -
  assume "i < length G div bpf"
  then have "Suc i * bpf \<le> length G" by (metis Suc_leI div_times_less_eq_dividend le_trans mult_le_mono1)
  then show ?thesis by (simp add: file_blocks_def)
qed

lemma file_blocks_last: "0 < bpf \<Longrightarrow> length (file_blocks bpf (length G div bpf) G) = length G mod bpf"
  by (simp add: file_blocks_def minus_div_mult_eq_mod min_absorb2 less_imp_le)

lemma drop_last_file: "length (drop (length G div bpf * bpf) G) = length G mod bpf"
  by (simp add: minus_div_mult_eq_mod)

lemma file_blocks_last_append:
  assumes "length G mod bpf + length H \<le> bpf"
  shows "file_blocks bpf (length G div bpf) (G @ H) = file_blocks bpf (length G div bpf) G @ H"
proof -
  have "length G div bpf * bpf \<le> length G" by simp
  then have "drop (length G div bpf * bpf) (G @ H) = drop (length G div bpf * bpf) G @ H" by simp
  then show ?thesis using assms drop_last_file [of G bpf] by (simp add: file_blocks_def)
qed

lemma div_append_less:
  fixes n k :: nat
  assumes "n mod m + k < m"
  shows "(n + k) div m = n div m" and "(n + k) mod m = n mod m + k"
proof -
  define q r where "q = n div m" and "r = n mod m"
  have n: "n = q * m + r" and "r + k < m" using assms by (simp_all add: q_def r_def)
  then have "(q * m + (r + k)) div m = q" "(q * m + (r + k)) mod m = r + k" by simp_all
  then have "(n + k) div m = q" "(n + k) mod m = r + k" by (simp_all add: n add.assoc)
  then show "(n + k) div m = n div m" "(n + k) mod m = n mod m + k" by (simp_all add: q_def r_def)
qed

lemma div_append_full:
  fixes n k :: nat
  assumes "n mod m + k = m" and "0 < m"
  shows "(n + k) div m = Suc (n div m)" and "(n + k) mod m = 0"
proof -
  define q r where "q = n div m" and "r = n mod m"
  have "n = q * m + r" and "r + k = m" using assms by (simp_all add: q_def r_def)
  then have "n + k = Suc q * m" by simp
  then show "(n + k) div m = Suc (n div m)" "(n + k) mod m = 0"
    using assms(2) unfolding q_def [symmetric] by (simp_all del: mult_Suc)
qed

text \<open>Blocks appended to the last file, which they may fill; then the next file is there, empty.\<close>

lemma dir_holds_append:
  assumes d: "dir_holds crc bs bpf b d G" and H: "blocks_ok bs H" "chained crc bs 0 (G @ H)"
    and fit: "length G mod bpf + length H < bpf"
    and r: "\<And>n. IsReadableFile d' (False, n) \<longleftrightarrow> IsReadableFile d (False, n)"
    and c: "\<And>n. file_content d' (False, n) = (if n = b + int (length G div bpf)
      then file_content d (False, n) @ blocks_bytes crc bs H else file_content d (False, n))"
  shows "dir_holds crc bs bpf b d' (G @ H)"
proof -
  let ?k = "length G div bpf"
  have k: "length (G @ H) div bpf = ?k" using div_append_less(1) [OF fit] by simp
  have "file_content d' (False, b + int i) = blocks_bytes crc bs (file_blocks bpf i (G @ H))" if "i \<le> ?k" for i
  proof (cases "i = ?k")
    case True
    then show ?thesis using d fit by (simp add: c dir_holds_def file_blocks_last_append)
  next
    case False
    with that show ?thesis using d by (simp add: c dir_holds_def file_blocks_append)
  qed
  with d H show ?thesis unfolding dir_holds_def k r by simp
qed

lemma dir_holds_fill:
  assumes d: "dir_holds crc bs bpf b d G" and H: "blocks_ok bs H" "chained crc bs 0 (G @ H)"
    and fit: "length G mod bpf + length H = bpf"
    and r: "\<And>n. IsReadableFile d' (False, n) \<longleftrightarrow> n = b + int (length G div bpf) + 1 \<or> IsReadableFile d (False, n)"
    and c: "\<And>n. file_content d' (False, n) = (if n = b + int (length G div bpf) + 1 then []
      else if n = b + int (length G div bpf)
      then file_content d (False, n) @ blocks_bytes crc bs H else file_content d (False, n))"
  shows "dir_holds crc bs bpf b d' (G @ H)"
proof -
  let ?k = "length G div bpf"
  have bpf: "0 < bpf" using d by (simp add: dir_holds_def)
  have k: "length (G @ H) div bpf = Suc ?k" and m: "length (G @ H) mod bpf = 0"
    using div_append_full [OF fit bpf] by simp_all
  have "file_content d' (False, b + int i) = blocks_bytes crc bs (file_blocks bpf i (G @ H))" if "i \<le> Suc ?k" for i
  proof (cases "i = Suc ?k")
    case True
    have "file_blocks bpf i (G @ H) = []"
      using file_blocks_last [OF bpf, of "G @ H"] k m True by simp
    then show ?thesis using True by (simp add: c)
  next
    case False
    show ?thesis
    proof (cases "i = ?k")
      case True
      then show ?thesis using d fit by (simp add: c dir_holds_def file_blocks_last_append)
    next
      case False
      with that \<open>i \<noteq> Suc ?k\<close> show ?thesis using d by (simp add: c dir_holds_def file_blocks_append)
    qed
  qed
  moreover have "IsReadableFile d' (False, n) \<longleftrightarrow> b \<le> n \<and> n \<le> b + int (Suc ?k)" for n
    using d by (auto simp: r dir_holds_def)
  ultimately show ?thesis using d H unfolding dir_holds_def k by simp
qed

lemma dir_holds_cong:
  assumes "dir_holds crc bs bpf b d G" and "\<And>n. IsReadableFile d' (False, n) = IsReadableFile d (False, n)"
    and "\<And>n. file_content d' (False, n) = file_content d (False, n)"
  shows "dir_holds crc bs bpf b d' G"
  using assms by (simp add: dir_holds_def)

lemma dir_last_file:
  assumes "dir_holds crc bs bpf b d G"
  shows "IsReadableFile d (False, b + int (length G div bpf))"
    and "\<not> IsReadableFile d (False, b + int (length G div bpf) + 1)"
    and "length (file_content d (False, b + int (length G div bpf))) = (length G mod bpf) * bs"
    and "GetLastNumberedFile d = b + int (length G div bpf)"
proof -
  let ?f = "file_blocks bpf (length G div bpf) G"
  show r: "IsReadableFile d (False, b + int (length G div bpf))"
    "\<not> IsReadableFile d (False, b + int (length G div bpf) + 1)"
    using assms by (simp_all add: dir_holds_def)
  have "blocks_ok bs ?f" using assms by (auto simp: dir_holds_def file_blocks_def)
  then show "length (file_content d (False, b + int (length G div bpf))) = (length G mod bpf) * bs"
    using assms file_blocks_last [of bpf G] by (simp add: dir_holds_def length_blocks_bytes)
  show "GetLastNumberedFile d = b + int (length G div bpf)"
    using assms by (intro GetLastNumberedFile_Max r) (simp add: dir_holds_def)
qed

section \<open>The writer at the end of a log\<close>

definition lw_holds ::
    "(bytes \<Rightarrow> 32 word) \<Rightarrow> nat \<Rightarrow> nat \<Rightarrow> int \<Rightarrow> LogWriter \<Rightarrow> log_dir \<Rightarrow> log_block list \<Rightarrow> log_block list \<Rightarrow> piece list \<Rightarrow> bool" where
  "lw_holds crc bs bpf b w d G H cur \<longleftrightarrow> bs = lw_block_size w \<and> bpf = lw_blocks_per_file w \<and>
     dir_holds crc (lw_block_size w) (lw_blocks_per_file w) b d G \<and>
     blocks_ok (lw_block_size w) H \<and> chained crc (lw_block_size w) 0 (G @ H) \<and>
     \<not> lw_temporary_incomplete_file w \<and> lw_file_num w = b + int (length G div lw_blocks_per_file w) \<and>
     lw_file w = Some (False, lw_file_num w) \<and> lw_buf w = blocks_bytes crc (lw_block_size w) H \<and>
     rw_ok (lw_recorder w) \<and> rw_holds (lw_recorder w) cur \<and> \<not> rw_zlib (lw_recorder w) \<and>
     rw_block_size (lw_recorder w) = lw_block_size w \<and>
     (rw_prev_block_crc (lw_recorder w) = 0 \<or>
      rw_prev_block_crc (lw_recorder w) = last_crc crc (lw_block_size w) 0 (G @ H))"

lemma unreadable_content: "\<not> IsReadableFile d f \<Longrightarrow> file_content d f = []"
  by (simp add: file_content_def IsReadableFile_def)

lemma rw_Clear_simps [simp]:
  "rw_ok (rw_Clear r) = rw_ok r" "rw_holds (rw_Clear r) cur = rw_holds r cur" "rw_zlib (rw_Clear r) = rw_zlib r"
  "rw_block_size (rw_Clear r) = rw_block_size r" "rw_prev_block_crc (rw_Clear r) = 0"
  "rw_Clear (rw_Clear r) = rw_Clear r"
  by (simp_all add: rw_Clear_def rw_ok_def rw_holds_def)

lemma OpenNextLog_here:
  assumes "lw_file w = None" and "0 \<le> lw_file_num w"
    and "length (file_content d (lw_temporary_incomplete_file w, lw_file_num w)) mod lw_block_size w = 0"
    and "length (file_content d (lw_temporary_incomplete_file w, lw_file_num w)) \<noteq> file_limit w"
  shows "OpenNextLog w d =
    Some (w\<lparr>lw_recorder := rw_Clear (lw_recorder w), lw_file := Some (lw_temporary_incomplete_file w, lw_file_num w)\<rparr>,
          open_always d (lw_temporary_incomplete_file w, lw_file_num w))"
  using assms by (subst OpenNextLog.simps) (simp add: Let_def file_limit_def)

lemma OpenNextLog_next:
  assumes "lw_file w = Some f" and "0 \<le> lw_file_num w" and "\<not> lw_temporary_incomplete_file w"
    and "\<not> IsReadableFile d (False, lw_file_num w + 1)" and "0 < file_limit w"
  shows "OpenNextLog w d =
    Some (w\<lparr>lw_recorder := rw_Clear (lw_recorder w), lw_file_num := lw_file_num w + 1,
             lw_file := Some (False, lw_file_num w + 1)\<rparr>, open_always d (False, lw_file_num w + 1))"
  using assms unreadable_content [OF assms(4)]
  by (subst OpenNextLog.simps) (simp add: Let_def CloseLog_def file_limit_def)

text \<open>A failed write is clean when no byte of it reached the file.\<close>

definition clean :: "write_outcome list \<Rightarrow> bool" where
  "clean os \<longleftrightarrow> (\<forall>n. Failed n \<in> set os \<longrightarrow> n = 0)"

lemma clean_Nil [simp]: "clean []"
  by (simp add: clean_def)

lemma next_outcome_cases:
  assumes "clean os"
  obtains (nil) "os = []" "next_outcome os n = (Wrote n, [])"
  | (wrote) k os' where "os = Wrote k # os'" "next_outcome os n = (Wrote k, os')" "clean os'"
  | (failed) os' where "os = Failed 0 # os'" "next_outcome os n = (Failed 0, os')" "clean os'"
proof (cases os)
  case (Cons x os')
  with assms have "clean os'" by (simp add: clean_def)
  with Cons that assms show ?thesis by (cases x) (auto simp: next_outcome_def clean_def)
qed (simp add: that next_outcome_def)

lemma lw_holds_sizes: "lw_holds crc bs bpf b w d G H cur \<Longrightarrow> lw_block_size w = bs \<and> lw_blocks_per_file w = bpf"
  by (simp add: lw_holds_def)

lemma lw_holds_facts:
  assumes "lw_holds crc bs bpf b w d G H cur"
  shows "0 < lw_block_size w" and "0 < lw_blocks_per_file w" and "0 \<le> lw_file_num w"
    and "length (file_content d (False, lw_file_num w)) = (length G mod lw_blocks_per_file w) * lw_block_size w"
    and "length (lw_buf w) = length H * lw_block_size w" and "lw_buf w = [] \<longleftrightarrow> H = []"
    and "file_limit w = lw_blocks_per_file w * lw_block_size w"
    and "length G mod lw_blocks_per_file w < lw_blocks_per_file w"
    and "\<not> IsReadableFile d (False, lw_file_num w + 1)"
  using assms dir_last_file [of crc bs bpf b d G]
  by (auto simp: lw_holds_def dir_holds_def length_blocks_bytes blocks_bytes_Nil file_limit_def)

text \<open>One successful write of as much as fits in the file.\<close>

lemma lw_holds_wrote:
  assumes h: "lw_holds crc bs bpf b w d G H cur" and "H \<noteq> []"
  defines "m \<equiv> min (lw_blocks_per_file w - length G mod lw_blocks_per_file w) (length H)"
  defines "n \<equiv> min (file_limit w - length (file_content d (False, lw_file_num w))) (length (lw_buf w))"
  defines "d1 \<equiv> set_file d (False, lw_file_num w) (file_content d (False, lw_file_num w) @ take n (lw_buf w))"
  defines "w1 \<equiv> w\<lparr>lw_buf := drop n (lw_buf w)\<rparr>"
  shows "0 < m" and "if length (file_content d1 (False, lw_file_num w)) = file_limit w
    then \<exists>w2 d2. OpenNextLog w1 d1 = Some (w2, d2) \<and> lw_holds crc bs bpf b w2 d2 (G @ take m H) (drop m H) cur
    else lw_holds crc bs bpf b w1 d1 (G @ take m H) (drop m H) cur"
proof -
  let ?bs = "lw_block_size w" and ?bpf = "lw_blocks_per_file w" and ?f = "(False, lw_file_num w)"
  note f = lw_holds_facts [OF h]
  have d: "dir_holds crc ?bs ?bpf b d G" and H: "blocks_ok ?bs H" and ch: "chained crc ?bs 0 (G @ H)"
    and num: "lw_file_num w = b + int (length G div ?bpf)" and buf: "lw_buf w = blocks_bytes crc ?bs H"
    using h by (simp_all add: lw_holds_def)
  show m: "0 < m" using f(8) assms(2) by (simp add: m_def)
  have n: "n = m * ?bs"
    by (simp add: n_def m_def f(4,5,7) diff_mult_distrib nat_mult_min_left)
  have tk: "take n (lw_buf w) = blocks_bytes crc ?bs (take m H)" and dr: "drop n (lw_buf w) = blocks_bytes crc ?bs (drop m H)"
    using H by (simp_all add: n buf take_blocks_bytes drop_blocks_bytes)
  have ch1: "chained crc ?bs 0 (G @ take m H)" "chained crc ?bs 0 ((G @ take m H) @ drop m H)"
    using ch chained_take [OF ch, of "length G + m"] by simp_all
  have lm: "length (take m H) = m" by (simp add: m_def)
  have len: "length (file_content d1 ?f) = (length G mod ?bpf + m) * ?bs"
    using f(4) length_blocks_bytes [of ?bs "take m H" crc] H lm by (auto simp: d1_def tk add_mult_distrib)
  show "if length (file_content d1 ?f) = file_limit w
    then \<exists>w2 d2. OpenNextLog w1 d1 = Some (w2, d2) \<and> lw_holds crc bs bpf b w2 d2 (G @ take m H) (drop m H) cur
    else lw_holds crc bs bpf b w1 d1 (G @ take m H) (drop m H) cur"
  proof (cases "length G mod ?bpf + m = ?bpf")
    case True
    have nr: "\<not> IsReadableFile d1 (False, lw_file_num w + 1)" using f(9) by (simp add: d1_def)
    have op: "OpenNextLog w1 d1 = Some (w1\<lparr>lw_recorder := rw_Clear (lw_recorder w1),
        lw_file_num := lw_file_num w + 1, lw_file := Some (False, lw_file_num w + 1)\<rparr>,
        open_always d1 (False, lw_file_num w + 1))"
      using OpenNextLog_next [of w1 ?f d1] h f nr by (simp add: w1_def lw_holds_def file_limit_def)
    have "dir_holds crc ?bs ?bpf b (open_always d1 (False, lw_file_num w + 1)) (G @ take m H)"
    proof (rule dir_holds_fill [OF d _ ch1(1)])
      show "blocks_ok ?bs (take m H)" using H by blast
      show "length G mod ?bpf + length (take m H) = ?bpf" using True lm by simp
      show "IsReadableFile (open_always d1 (False, lw_file_num w + 1)) (False, n) \<longleftrightarrow>
          n = b + int (length G div ?bpf) + 1 \<or> IsReadableFile d (False, n)" for n
        using dir_last_file(1) [OF d] by (auto simp: d1_def num)
      show "file_content (open_always d1 (False, lw_file_num w + 1)) (False, n) =
          (if n = b + int (length G div ?bpf) + 1 then [] else if n = b + int (length G div ?bpf)
           then file_content d (False, n) @ blocks_bytes crc ?bs (take m H) else file_content d (False, n))" for n
        using unreadable_content [OF f(9)] by (simp add: d1_def num tk)
    qed
    moreover have "length (G @ take m H) div ?bpf = Suc (length G div ?bpf)"
      using div_append_full [OF True f(2)] lm by simp
    ultimately show ?thesis using h op True len H ch1 f(7) dr num
      by (auto simp: lw_holds_def w1_def)
  next
    case False
    then have less: "length G mod ?bpf + m < ?bpf" using f(8) by (simp add: m_def)
    have "dir_holds crc ?bs ?bpf b d1 (G @ take m H)"
    proof (rule dir_holds_append [OF d _ ch1(1)])
      show "blocks_ok ?bs (take m H)" using H by blast
      show "length G mod ?bpf + length (take m H) < ?bpf" using less lm by simp
      show "IsReadableFile d1 (False, n) \<longleftrightarrow> IsReadableFile d (False, n)" for n
        using dir_last_file(1) [OF d] by (auto simp: d1_def num)
    qed (simp add: d1_def num tk)
    moreover have "length (G @ take m H) div ?bpf = length G div ?bpf"
      using div_append_less [OF less] lm by simp
    moreover have "length (file_content d1 ?f) \<noteq> file_limit w" using False len f(1,7) by simp
    ultimately show ?thesis using h H ch1 dr
      by (auto simp: lw_holds_def w1_def)
  qed
qed

section \<open>What the operations of the writer do to the log\<close>

text \<open>
  After an operation the blocks \<open>X\<close> that were buffered or new are split into those that
  reached the files and those still in the buffer; on success none is left in the buffer.
\<close>

definition buffer_written ::
    "(bytes \<Rightarrow> 32 word) \<Rightarrow> nat \<Rightarrow> nat \<Rightarrow> int \<Rightarrow> log_block list \<Rightarrow> log_block list \<Rightarrow> piece list \<Rightarrow> write_outcome list \<Rightarrow>
     (bool \<times> LogWriter \<times> log_dir \<times> write_outcome list) option \<Rightarrow> bool" where
  "buffer_written crc bs bpf b G X cur os res \<longleftrightarrow>
     (\<exists>ok w d os' k. res = Some (ok, w, d, os') \<and> lw_holds crc bs bpf b w d (G @ take k X) (drop k X) cur \<and>
        (ok \<longrightarrow> drop k X = []) \<and> clean os' \<and> (os = [] \<longrightarrow> ok \<and> os' = []))"

lemma lw_holds_same_files:
  assumes "lw_holds crc bs bpf b w d G H cur" and "\<And>f. IsReadableFile d' f = IsReadableFile d f"
    and "\<And>f. file_content d' f = file_content d f"
  shows "lw_holds crc bs bpf b w d' G H cur"
  using assms dir_holds_cong [of crc "lw_block_size w" "lw_blocks_per_file w" b d G d'] by (simp add: lw_holds_def)

lemma buffer_written_failed:
  assumes h: "lw_holds crc bs bpf b w d G H cur" and "clean os'" and "os \<noteq> []"
    and "\<And>f. IsReadableFile d' f = IsReadableFile d f" and "\<And>f. file_content d' f = file_content d f"
  shows "buffer_written crc bs bpf b G H cur os (Some (False, w, d', os'))"
  using lw_holds_same_files [OF h assms(4,5)] assms(2,3)
  unfolding buffer_written_def by (intro exI [of _ False] exI [of _ w] exI [of _ d'] exI [of _ os'] exI [of _ 0]) simp

lemma buffer_written_step:
  assumes "buffer_written crc bs bpf b (G @ take m H) (drop m H) cur os' res" and "os = [] \<longrightarrow> os' = []"
  shows "buffer_written crc bs bpf b G H cur os res"
proof -
  from assms(1) obtain ok w d os'' k where r: "res = Some (ok, w, d, os'')"
    "lw_holds crc bs bpf b w d ((G @ take m H) @ take k (drop m H)) (drop k (drop m H)) cur"
    "ok \<longrightarrow> drop k (drop m H) = []" "clean os''" "os' = [] \<longrightarrow> ok \<and> os'' = []"
    unfolding buffer_written_def by blast
  have "take m H @ take k (drop m H) = take (k + m) H" using take_add [of m k H] by (simp add: add.commute)
  with r assms(2) show ?thesis
    unfolding buffer_written_def by (intro exI [of _ ok] exI [of _ w] exI [of _ d] exI [of _ os''] exI [of _ "k + m"]) auto
qed

lemma WriteBuffer_step:
  assumes h: "lw_holds crc bs bpf b w d G H cur" and "H \<noteq> []"
  defines "f \<equiv> (False, lw_file_num w)"
  defines "ps \<equiv> length (file_content d f)"
  defines "to_write \<equiv> min (file_limit w - ps) (length (lw_buf w))"
  shows "WriteBuffer w d os = (case next_outcome os to_write of
      (Failed n, os') \<Rightarrow> Some (False, w, set_file d f (file_content d f @ take n (lw_buf w)), os')
    | (Wrote n, os') \<Rightarrow>
        if n \<noteq> to_write
        then Some (False, w, truncate_file (set_file d f (file_content d f @ take n (lw_buf w))) f ps, os')
        else let d1 = set_file d f (file_content d f @ take n (lw_buf w)); w1 = w\<lparr>lw_buf := drop n (lw_buf w)\<rparr>
          in if length (file_content d1 f) = file_limit w
             then Option.bind (OpenNextLog w1 d1) (\<lambda>(w2, d2). WriteBuffer w2 d2 os') else WriteBuffer w1 d1 os')"
proof -
  note facts = lw_holds_facts [OF h]
  have "lw_file w = Some f" using h by (simp add: lw_holds_def f_def)
  moreover have "lw_buf w \<noteq> []" using facts(6) assms(2) by simp
  moreover have "\<not> (ps mod lw_block_size w \<noteq> 0 \<or> ps > file_limit w)"
    using facts(4,7,8) by (simp add: ps_def f_def)
  ultimately show ?thesis
    unfolding ps_def to_write_def by (subst WriteBuffer.simps) (simp add: Let_def)
qed

lemma WriteBuffer_holds:
  assumes "lw_holds crc bs bpf b w d G H cur" and "clean os"
  shows "buffer_written crc bs bpf b G H cur os (WriteBuffer w d os)"
  using assms
proof (induction "length H" arbitrary: w d G H os rule: less_induct)
  case less
  note h = less.prems(1)
  show ?case
  proof (cases "H = []")
    case True
    then have "WriteBuffer w d os = Some (True, w, d, os)"
      using h by (subst WriteBuffer.simps) (simp add: lw_holds_def)
    with True less.prems show ?thesis unfolding buffer_written_def by force
  next
    case False
    define f where "f = (False, lw_file_num w)"
    define n where "n = min (file_limit w - length (file_content d f)) (length (lw_buf w))"
    define m where "m = min (lw_blocks_per_file w - length G mod lw_blocks_per_file w) (length H)"
    have rd: "IsReadableFile d f" using h dir_last_file(1) by (auto simp: lw_holds_def f_def)
    note step = WriteBuffer_step [OF h False, of os, folded f_def, folded n_def]
      and wrote = lw_holds_wrote [OF h False, folded f_def, folded n_def m_def]
    define d1 w1 where "d1 = set_file d f (file_content d f @ take n (lw_buf w))"
      and "w1 = w\<lparr>lw_buf := drop n (lw_buf w)\<rparr>"
    have go: "buffer_written crc bs bpf b G H cur os
        (if length (file_content d1 f) = file_limit w
         then Option.bind (OpenNextLog w1 d1) (\<lambda>(w2, d2). WriteBuffer w2 d2 os') else WriteBuffer w1 d1 os')"
      if os': "clean os'" "os = [] \<longrightarrow> os' = []" for os'
    proof -
      have less': "length (drop m H) < length H" using wrote(1) False by simp
      have "buffer_written crc bs bpf b (G @ take m H) (drop m H) cur os'
          (if length (file_content d1 f) = file_limit w
           then Option.bind (OpenNextLog w1 d1) (\<lambda>(w2, d2). WriteBuffer w2 d2 os') else WriteBuffer w1 d1 os')"
        using wrote(2) less.hyps [OF less' _ os'(1)]
        by (auto simp: d1_def [symmetric] w1_def [symmetric] split: if_splits)
      from buffer_written_step [OF this os'(2)] show ?thesis .
    qed
    from less.prems(2) show ?thesis
    proof (cases rule: next_outcome_cases [where n = n])
      case nil
      with step go [of "[]"] show ?thesis by (simp add: d1_def [symmetric] w1_def [symmetric] Let_def)
    next
      case (wrote k os')
      show ?thesis
      proof (cases "k = n")
        case True
        with step wrote go [of os'] show ?thesis by (simp add: d1_def [symmetric] w1_def [symmetric] Let_def)
      next
        case False
        have "buffer_written crc bs bpf b G H cur os (Some (False, w,
            truncate_file (set_file d f (file_content d f @ take k (lw_buf w))) f (length (file_content d f)), os'))"
          using wrote rd by (intro buffer_written_failed [OF h]) auto
        with step wrote False show ?thesis by simp
      qed
    next
      case (failed os')
      have "buffer_written crc bs bpf b G H cur os (Some (False, w, set_file d f (file_content d f @ take 0 (lw_buf w)), os'))"
        using failed rd by (intro buffer_written_failed [OF h]) auto
      with step failed show ?thesis by simp
    qed
  qed
qed

text \<open>Appending and finalizing move pieces to the buffer.\<close>

lemma lw_holds_appended:
  assumes h: "lw_holds crc bs bpf b w d G H cur"
    and "rw_wrote crc (lw_recorder w) cur ps (lw_buf w) bl r' out' cur'"
  defines "X \<equiv> with_prev crc (lw_block_size w) (rw_prev_block_crc (lw_recorder w)) bl"
  shows "lw_holds crc bs bpf b (w\<lparr>lw_recorder := r', lw_buf := out'\<rparr>) d G (H @ X) cur'"
    and "log_pieces (H @ X) @ cur' = log_pieces H @ cur @ ps"
proof -
  let ?bs = "lw_block_size w" and ?c = "rw_prev_block_crc (lw_recorder w)"
  have bs: "rw_block_size (lw_recorder w) = ?bs" using h by (simp add: lw_holds_def)
  have wr: "out' = lw_buf w @ blocks_bytes crc ?bs X" "rw_ok r'" "rw_holds r' cur'" "rw_block_size r' = ?bs"
      "\<not> rw_zlib r'" "rw_prev_block_crc r' = log_crc crc ?bs ?c bl" "concat bl @ cur' = cur @ ps"
      "\<forall>b \<in> set bl. block_ok ?bs b"
    using assms(2) h bs by (simp_all add: rw_wrote_def rw_after_def X_def with_prev_facts lw_holds_def)
  have c: "?c = 0 \<or> ?c = last_crc crc ?bs 0 (G @ H)" using h by (simp add: lw_holds_def)
  have "chained crc ?bs (last_crc crc ?bs 0 (G @ H)) X" unfolding X_def using c by (rule chained_with_prev)
  moreover have "rw_prev_block_crc r' = 0 \<or> rw_prev_block_crc r' = last_crc crc ?bs 0 (G @ H @ X)"
  proof (cases "bl = []")
    case True
    then show ?thesis using c wr(6) by (simp add: X_def)
  next
    case False
    then show ?thesis using wr(6) last_crc_with_prev [OF False] by (simp add: X_def)
  qed
  ultimately show "lw_holds crc bs bpf b (w\<lparr>lw_recorder := r', lw_buf := out'\<rparr>) d G (H @ X) cur'"
    using h wr by (simp add: lw_holds_def chained_append) (simp add: X_def with_prev_facts)
  show "log_pieces (H @ X) @ cur' = log_pieces H @ cur @ ps"
    using wr(7) by (simp add: X_def with_prev_facts)
qed

lemma finalize_recorder_holds:
  assumes h: "lw_holds crc bs bpf b w d G H cur"
  obtains w' X where "finalize_recorder crc w = Some w'" and "lw_holds crc bs bpf b w' d G (H @ X) []"
    and "log_pieces X = cur" and "cur = [] \<Longrightarrow> X = []"
proof (cases "cur = []")
  case True
  then have "finalize_recorder crc w = Some w"
    using h by (simp add: finalize_recorder_def FinalizeContent_def lw_holds_def rw_holds_def)
  with that [of w "[]"] h True show ?thesis by simp
next
  case False
  let ?r = "lw_recorder w"
  have r: "rw_holds ?r cur" "rw_ok ?r" "rw_block_size ?r = lw_block_size w" using h by (simp_all add: lw_holds_def)
  have fit: "length (pieces_bytes cur) + 12 \<le> rw_block_size ?r" using r by (simp add: rw_ok_def rw_holds_def)
  from FinalizeContent_holds [OF r(1) False fit, of crc "lw_buf w"] obtain r' where
    f: "FinalizeContent crc ?r (lw_buf w) =
        Some (r', lw_buf w @ log_image crc (rw_block_size ?r) (rw_prev_block_crc ?r) [cur])"
      "rw_after crc ?r [cur] [] r'" by blast
  have "rw_wrote crc ?r cur [] (lw_buf w) [cur] r'
      (lw_buf w @ log_image crc (rw_block_size ?r) (rw_prev_block_crc ?r) [cur]) []"
    using f(2) r fit False by (simp add: rw_wrote_def rw_after_def rw_ok_def rw_holds_def block_ok_def)
  note a = lw_holds_appended [OF h this]
  show ?thesis by (rule that [OF _ a(1)]) (use f a(2) False in \<open>simp_all add: finalize_recorder_def\<close>)
qed

text \<open>
  The log has grown by the pieces \<open>ps\<close>: what was in the files is still there, and all
  pieces are in the files, in the buffer or in the open block, in order.
\<close>

definition log_grew ::
    "(bytes \<Rightarrow> 32 word) \<Rightarrow> nat \<Rightarrow> nat \<Rightarrow> int \<Rightarrow> log_block list \<Rightarrow> log_block list \<Rightarrow> piece list \<Rightarrow> piece list \<Rightarrow> LogWriter \<Rightarrow> log_dir \<Rightarrow>
     log_block list \<Rightarrow> log_block list \<Rightarrow> piece list \<Rightarrow> bool" where
  "log_grew crc bs bpf b G H cur ps w d G' H' cur' \<longleftrightarrow>
     lw_holds crc bs bpf b w d G' H' cur' \<and> (\<exists>X. G' = G @ X) \<and>
     log_pieces (G' @ H') @ cur' = log_pieces (G @ H) @ cur @ ps"

lemma log_grew_written:
  assumes "buffer_written crc bs bpf b G (H @ X) cur' os res" and "log_pieces (H @ X) @ cur' = log_pieces H @ cur @ ps"
  obtains ok w d os' G' H' where "res = Some (ok, w, d, os')" and "log_grew crc bs bpf b G H cur ps w d G' H' cur'"
    and "ok \<longrightarrow> H' = []" and "clean os'" and "os = [] \<longrightarrow> ok \<and> os' = []"
proof -
  from assms(1) obtain ok w d os' k where r: "res = Some (ok, w, d, os')"
    "lw_holds crc bs bpf b w d (G @ take k (H @ X)) (drop k (H @ X)) cur'"
    "ok \<longrightarrow> drop k (H @ X) = []" "clean os'" "os = [] \<longrightarrow> ok \<and> os' = []"
    unfolding buffer_written_def by blast
  have "log_pieces (take k (H @ X)) @ log_pieces (drop k (H @ X)) = log_pieces (H @ X)"
    by (metis append_take_drop_id log_pieces_simps(3))
  then have "log_pieces ((G @ take k (H @ X)) @ drop k (H @ X)) @ cur' = log_pieces (G @ H) @ cur @ ps"
    using assms(2) by simp
  with r that [of ok w d os' "G @ take k (H @ X)" "drop k (H @ X)"] show ?thesis
    unfolding log_grew_def by blast
qed

lemma WriteRecord_holds:
  assumes h: "lw_holds crc bs bpf b w d G H cur" and "clean os"
  obtains ok w' d' os' G' H' cur' ps where "WriteRecord crc deflate w d os r = Some (ok, w', d', os')"
    and "splits True r ps" and "log_grew crc bs bpf b G H cur ps w' d' G' H' cur'"
    and "clean os'" and "os = [] \<longrightarrow> ok \<and> os' = []"
proof -
  have open_f: "ensure_open w d = Some (w, d)" using h by (simp add: ensure_open_def lw_holds_def)
  have rec: "rw_ok (lw_recorder w)" "rw_holds (lw_recorder w) cur" "\<not> rw_zlib (lw_recorder w)"
    using h by (simp_all add: lw_holds_def)
  from AppendRecord_holds [OF rec, of crc deflate r "lw_buf w"] obtain bl ps cur' r' out where
    a: "AppendRecord crc deflate (lw_recorder w) r (lw_buf w) = Some (bl \<noteq> [], r', out)" "splits True r ps"
      "rw_wrote crc (lw_recorder w) cur ps (lw_buf w) bl r' out cur'" by blast
  note g = lw_holds_appended [OF h a(3)]
  show ?thesis
  proof (cases "bl = []")
    case True
    show ?thesis
      by (rule that [OF _ a(2), of True _ d os G _ cur'])
        (use open_f a g True assms(2) in \<open>auto simp: WriteRecord_def log_grew_def\<close>)
  next
    case False
    let ?w = "w\<lparr>lw_recorder := r', lw_buf := out\<rparr>"
    have "WriteRecord crc deflate w d os r = WriteBuffer ?w d os"
      using open_f a(1) False by (simp add: WriteRecord_def)
    with log_grew_written [OF WriteBuffer_holds [OF g(1) assms(2)] g(2)] that a(2) show ?thesis by metis
  qed
qed

lemma Flush_holds:
  assumes h: "lw_holds crc bs bpf b w d G H cur" and "clean os"
  obtains ok w' d' os' G' H' where "LogWriter_Flush crc w d os = Some (ok, w', d', os')"
    and "log_grew crc bs bpf b G H cur [] w' d' G' H' []" and "ok \<longrightarrow> H' = []"
    and "clean os'" and "os = [] \<longrightarrow> ok \<and> os' = []"
proof -
  from finalize_recorder_holds [OF h] obtain w1 X where
    f: "finalize_recorder crc w = Some w1" "lw_holds crc bs bpf b w1 d G (H @ X) []" "log_pieces X = cur" by metis
  have p: "log_pieces (H @ X) @ [] = log_pieces H @ cur @ []" using f(3) by simp
  show ?thesis
  proof (cases "lw_buf w1 = []")
    case True
    then have "H @ X = []" using lw_holds_facts(6) [OF f(2)] by simp
    then show ?thesis
      using that [of True w1 d os G "[]"] f True assms(2) by (simp add: LogWriter_Flush_def log_grew_def)
  next
    case False
    then have "LogWriter_Flush crc w d os = WriteBuffer w1 d os" using f(1) by (simp add: LogWriter_Flush_def)
    with log_grew_written [OF WriteBuffer_holds [OF f(2) assms(2)] p] that show ?thesis by metis
  qed
qed

lemma log_grew_trans:
  assumes "log_grew crc bs bpf b G H cur ps w d G1 H1 cur1" and "log_grew crc bs bpf b G1 H1 cur1 qs w' d' G2 H2 cur2"
  shows "log_grew crc bs bpf b G H cur (ps @ qs) w' d' G2 H2 cur2"
  using assms unfolding log_grew_def by (metis append.assoc)

section \<open>Starting on a directory\<close>

lemma OpenNextLog_holds:
  assumes d: "dir_holds crc (lw_block_size w) (lw_blocks_per_file w) b d G"
    and w: "lw_file w = None" "lw_file_num w = b + int (length G div lw_blocks_per_file w)"
      "\<not> lw_temporary_incomplete_file w" "lw_buf w = []" "rw_ok (lw_recorder w)" "rw_holds (lw_recorder w) []"
      "\<not> rw_zlib (lw_recorder w)" "rw_block_size (lw_recorder w) = lw_block_size w"
  obtains w' where "OpenNextLog w d = Some (w', open_always d (False, lw_file_num w))"
    and "lw_holds crc (lw_block_size w) (lw_blocks_per_file w) b w' (open_always d (False, lw_file_num w)) G [] []"
proof -
  let ?f = "(False, lw_file_num w)"
  have pos: "0 < lw_block_size w" "0 < lw_blocks_per_file w" "0 \<le> lw_file_num w"
    using d w(2) by (simp_all add: dir_holds_def)
  have len: "length (file_content d ?f) = (length G mod lw_blocks_per_file w) * lw_block_size w"
    using dir_last_file(3) [OF d] w(2) by simp
  have "length G mod lw_blocks_per_file w \<noteq> lw_blocks_per_file w" using pos(2) by (metis mod_less_divisor nat_neq_iff)
  then have ne: "length (file_content d ?f) \<noteq> file_limit w" using pos(1) len by (simp add: file_limit_def)
  let ?w = "w\<lparr>lw_recorder := rw_Clear (lw_recorder w), lw_file := Some ?f\<rparr>"
  have op: "OpenNextLog w d = Some (?w, open_always d ?f)"
    using OpenNextLog_here [of w d] w pos(3) len ne by simp
  have "dir_holds crc (lw_block_size w) (lw_blocks_per_file w) b (open_always d ?f) G"
    using dir_last_file(1) [OF d] w(2) by (intro dir_holds_cong [OF d]) auto
  with d w have "lw_holds crc (lw_block_size w) (lw_blocks_per_file w) b ?w (open_always d ?f) G [] []"
    by (simp add: lw_holds_def) (simp add: dir_holds_def)
  with that op show ?thesis by simp
qed

text \<open>A new writer: what the constructor makes of usable parameters.\<close>

definition usable :: "nat \<Rightarrow> nat \<Rightarrow> nat \<Rightarrow> bool" where
  "usable bs bpf dump \<longleftrightarrow> dump + 16 < bs \<and> bs < kMaximumRecordBlockSize \<and> 0 < bpf"

lemma lw_new_holds:
  assumes "usable bs bpf dump"
  obtains w where "lw_new bs bpf False False dump = Some w" and "lw_block_size w = bs" "lw_blocks_per_file w = bpf"
    and "lw_file w = None" "\<not> lw_temporary_incomplete_file w" "lw_buf w = []" "rw_ok (lw_recorder w)"
    and "rw_holds (lw_recorder w) []" "\<not> rw_zlib (lw_recorder w)" "rw_block_size (lw_recorder w) = bs"
  using assms that by (simp add: lw_new_def rw_new_def usable_def rw_ok_def rw_holds_def)

lemma dir_holds_empty:
  assumes "\<And>n. \<not> IsReadableFile d (False, n)" and "0 < bs" and "0 < bpf"
  shows "dir_holds crc bs bpf 0 (open_always d (False, 0)) []"
  using assms unreadable_content [OF assms(1)] by (auto simp: dir_holds_def file_blocks_def)

definition unlocked :: "(int \<Rightarrow> bool) \<Rightarrow> log_dir \<Rightarrow> bool" where
  "unlocked running d \<longleftrightarrow> (\<forall>p. d_lock d = Some p \<longrightarrow> p = 0 \<or> \<not> running p)"

lemma Initialize_unlocked:
  fixes pid :: int
  assumes "unlocked running d"
  defines "n \<equiv> GetLastNumberedFile (d\<lparr>d_lock := Some pid\<rparr>)"
  shows "LogWriter_Initialize running pid w d =
    map_option (Pair True) (OpenNextLog (w\<lparr>lw_file_num := (if n = -1 then 0 else n)\<rparr>) (d\<lparr>d_lock := Some pid\<rparr>))"
  using assms by (auto simp: LogWriter_Initialize_def unlocked_def Let_def split: option.splits)

lemma Initialize_existing:
  assumes u: "usable bs bpf dump" and d: "dir_holds crc bs bpf b d G" and l: "unlocked running d"
  obtains w0 w d' where "lw_new bs bpf False False dump = Some w0"
    and "LogWriter_Initialize running pid w0 d = Some (True, w, d')" and "lw_holds crc bs bpf b w d' G [] []"
proof -
  from lw_new_holds [OF u] obtain w0 where w0: "lw_new bs bpf False False dump = Some w0"
    "lw_block_size w0 = bs" "lw_blocks_per_file w0 = bpf"
    "lw_file w0 = None" "\<not> lw_temporary_incomplete_file w0" "lw_buf w0 = []" "rw_ok (lw_recorder w0)"
    "rw_holds (lw_recorder w0) []" "\<not> rw_zlib (lw_recorder w0)" "rw_block_size (lw_recorder w0) = bs" .
  let ?d = "d\<lparr>d_lock := Some pid\<rparr>" and ?n = "b + int (length G div bpf)"
  let ?w = "w0\<lparr>lw_file_num := ?n\<rparr>"
  have dl: "dir_holds crc bs bpf b ?d G" by (rule dir_holds_cong [OF d]) simp_all
  have n: "GetLastNumberedFile ?d = ?n" "?n \<noteq> -1" using dir_last_file(4) [OF dl] d by (simp_all add: dir_holds_def)
  obtain w where "OpenNextLog ?w ?d = Some (w, open_always ?d (False, ?n))"
      "lw_holds crc bs bpf b w (open_always ?d (False, ?n)) G [] []"
    using OpenNextLog_holds [of crc ?w b ?d G] dl w0 by auto
  with that w0(1) Initialize_unlocked [OF l, of pid w0] n show ?thesis by auto
qed

lemma Initialize_empty:
  assumes u: "usable bs bpf dump" and e: "\<And>n. \<not> IsReadableFile d (False, n)" and l: "unlocked running d"
  obtains w0 w d' where "lw_new bs bpf False False dump = Some w0"
    and "LogWriter_Initialize running pid w0 d = Some (True, w, d')" and "lw_holds crc bs bpf 0 w d' [] [] []"
proof -
  from lw_new_holds [OF u] obtain w0 where w0: "lw_new bs bpf False False dump = Some w0"
    "lw_block_size w0 = bs" "lw_blocks_per_file w0 = bpf"
    "lw_file w0 = None" "\<not> lw_temporary_incomplete_file w0" "lw_buf w0 = []" "rw_ok (lw_recorder w0)"
    "rw_holds (lw_recorder w0) []" "\<not> rw_zlib (lw_recorder w0)" "rw_block_size (lw_recorder w0) = bs" .
  let ?d = "d\<lparr>d_lock := Some pid\<rparr>"
  let ?w = "w0\<lparr>lw_file_num := 0, lw_recorder := rw_Clear (lw_recorder w0), lw_file := Some (False, 0)\<rparr>"
  have "0 < bs" "0 < bpf" using u by (simp_all add: usable_def)
  then have D: "dir_holds crc bs bpf 0 (open_always ?d (False, 0)) []" using e by (intro dir_holds_empty) simp_all
  have n: "GetLastNumberedFile ?d = -1" using e by (intro GetLastNumberedFile_none) simp
  have "OpenNextLog (w0\<lparr>lw_file_num := 0\<rparr>) ?d = Some (?w, open_always ?d (False, 0))"
    using OpenNextLog_here [of "w0\<lparr>lw_file_num := 0\<rparr>" ?d] w0 unreadable_content [of d "(False, 0)"] e \<open>0 < bs\<close> \<open>0 < bpf\<close>
    by (simp add: file_limit_def)
  moreover have "lw_holds crc bs bpf 0 ?w (open_always ?d (False, 0)) [] [] []" using D w0 by (simp add: lw_holds_def)
  ultimately show ?thesis using that [OF w0(1)] Initialize_unlocked [OF l, of pid w0] n w0 by simp
qed

section \<open>Truncation\<close>

definition block_pos :: "int \<Rightarrow> nat \<Rightarrow> nat \<Rightarrow> LogPos" where
  "block_pos b bpf j = \<lparr>file_num = b + int (j div bpf), block_num = int (j mod bpf), record_num = 0\<rparr>"

lemma file_blocks_take:
  assumes "j \<le> length G"
  shows "i < j div bpf \<Longrightarrow> file_blocks bpf i (take j G) = file_blocks bpf i G"
    and "0 < bpf \<Longrightarrow> file_blocks bpf (j div bpf) (take j G) = take (j mod bpf) (file_blocks bpf (j div bpf) G)"
proof -
  assume "i < j div bpf"
  then have "Suc i * bpf \<le> j" by (metis Suc_leI div_times_less_eq_dividend le_trans mult_le_mono1)
  then show "file_blocks bpf i (take j G) = file_blocks bpf i G"
    by (simp add: file_blocks_def drop_take min_def)
next
  assume "0 < bpf"
  then have "j mod bpf \<le> bpf" by (simp add: less_imp_le)
  then show "file_blocks bpf (j div bpf) (take j G) = take (j mod bpf) (file_blocks bpf (j div bpf) G)"
    by (simp add: file_blocks_def drop_take minus_div_mult_eq_mod min_def)
qed

lemma dir_holds_take:
  assumes d: "dir_holds crc bs bpf b d G" and j: "j \<le> length G"
    and r: "\<And>n. IsReadableFile d' (False, n) \<longleftrightarrow> b \<le> n \<and> n \<le> b + int (j div bpf)"
    and c: "\<And>i. i < j div bpf \<Longrightarrow> file_content d' (False, b + int i) = file_content d (False, b + int i)"
    and l: "file_content d' (False, b + int (j div bpf)) = take (j mod bpf * bs) (file_content d (False, b + int (j div bpf)))"
  shows "dir_holds crc bs bpf b d' (take j G)"
proof -
  have le: "j div bpf \<le> length G div bpf" using j by (rule div_le_mono)
  have bpf: "0 < bpf" and G: "blocks_ok bs G" using d by (simp_all add: dir_holds_def)
  have "file_content d' (False, b + int i) = blocks_bytes crc bs (file_blocks bpf i (take j G))" if "i \<le> j div bpf" for i
  proof (cases "i = j div bpf")
    case True
    have "blocks_ok bs (file_blocks bpf i G)" using G by (auto simp: file_blocks_def)
    then show ?thesis using True d le l bpf
      by (simp add: dir_holds_def file_blocks_take(2) [OF j] take_blocks_bytes)
  next
    case False
    then show ?thesis using that d le c [of i] by (simp add: dir_holds_def file_blocks_take(1) [OF j])
  qed
  moreover have "length (take j G) div bpf = j div bpf" using j by simp
  ultimately show ?thesis using d r G chained_take by (auto simp: dir_holds_def)
qed

lemma fold_delete:
  "IsReadableFile (fold (\<lambda>n x. if n \<ge> s then Rm x (False, n) else x) ns d) g \<longleftrightarrow>
     IsReadableFile d g \<and> (\<forall>n \<in> set ns. s \<le> n \<longrightarrow> g \<noteq> (False, n))"
  "file_content (fold (\<lambda>n x. if n \<ge> s then Rm x (False, n) else x) ns d) g =
     (if \<exists>n \<in> set ns. s \<le> n \<and> g = (False, n) then [] else file_content d g)"
  by (induction ns arbitrary: d) auto

text \<open>The files after the deletions and the cut of \<open>TruncateAt\<close>, for a position on the disk.\<close>

definition cut_files :: "nat \<Rightarrow> LogPos \<Rightarrow> log_dir \<Rightarrow> log_dir" where
  "cut_files bs p d =
     (let start = (if block_num p = 0 then file_num p else file_num p + 1);
          d3 = fold (\<lambda>n x. if n \<ge> start then Rm x (False, n) else x) (GetLogFiles d) d
      in if block_num p > 0
         then truncate_file (open_always d3 (False, file_num p)) (False, file_num p) (nat (block_num p) * bs)
         else d3)"

lemma cut_files_facts:
  assumes d: "dir_holds crc bs bpf b d G" and j: "j \<le> length G"
  defines "d' \<equiv> open_always (cut_files bs (block_pos b bpf j) d) (False, b + int (j div bpf))"
  shows "dir_holds crc bs bpf b d' (take j G)"
proof (rule dir_holds_take [OF d j])
  let ?k = "b + int (j div bpf)"
  have le: "j div bpf \<le> length G div bpf" using j by (rule div_le_mono)
  have bpf: "0 < bpf" "0 \<le> b" using d by (simp_all add: dir_holds_def)
  have rd: "IsReadableFile d (False, n) \<longleftrightarrow> b \<le> n \<and> n \<le> b + int (length G div bpf)" for n
    using d by (simp add: dir_holds_def)
  show "IsReadableFile d' (False, n) \<longleftrightarrow> b \<le> n \<and> n \<le> ?k" for n
    using le by (auto simp: d'_def cut_files_def block_pos_def Let_def fold_delete set_GetLogFiles rd)
  show "file_content d' (False, b + int i) = file_content d (False, b + int i)" if "i < j div bpf" for i
    using that by (auto simp: d'_def cut_files_def block_pos_def Let_def fold_delete)
  show "file_content d' (False, ?k) = take (j mod bpf * bs) (file_content d (False, ?k))"
  proof (cases "j mod bpf = 0")
    case True
    then show ?thesis using le by (auto simp: d'_def cut_files_def block_pos_def Let_def fold_delete set_GetLogFiles rd)
  next
    case False
    have G: "blocks_ok bs (file_blocks bpf (j div bpf) G)" using d by (auto simp: dir_holds_def file_blocks_def)
    have "j mod bpf \<le> length (file_blocks bpf (j div bpf) G)"
      using j bpf(1) mod_less_divisor [OF bpf(1), of j] by (simp add: file_blocks_def) (metis add_le_cancel_right add_diff_cancel_left' diff_le_mono div_mult_mod_eq)
    then have "j mod bpf * bs \<le> length (file_content d (False, ?k))"
      using d le G by (simp add: dir_holds_def length_blocks_bytes)
    then show ?thesis using False by (auto simp: d'_def cut_files_def block_pos_def Let_def fold_delete nat_mod_distrib)
  qed
qed

lemma open_always_idem [simp]: "open_always (open_always d f) f = open_always d f"
  by (simp add: open_always_def [of "open_always d f"])

lemma OpenNextLog_absorb:
  assumes "lw_file w = None" and "f = (lw_temporary_incomplete_file w, lw_file_num w)"
  shows "OpenNextLog w (open_always d f) = OpenNextLog w d"
  using assms by (subst (1 2) OpenNextLog.simps) simp

lemma TruncateAt_cut:
  assumes "\<not> lw_temporary_incomplete_file w" and "finalize_recorder crc w = Some w0"
    and "WriteBuffer w0 d os = Some (ok, w1, d1, os1)" and "CloseLog w1 d1 = (w2, d2)"
  shows "TruncateAt crc w d os p = map_option (\<lambda>(w3, d5). (True, w3, d5, os1))
    (OpenNextLog (w2\<lparr>lw_file_num := (if file_num p < 0 then 0 else file_num p)\<rparr>) (cut_files (lw_block_size w2) p d2))"
  using assms by (simp add: TruncateAt_def cut_files_def Let_def)

lemma TruncateAt_holds:
  assumes h: "lw_holds crc bs bpf b w d G H cur" and j: "j \<le> length G"
  obtains w' d' where "TruncateAt crc w d [] (block_pos b bpf j) = Some (True, w', d', [])"
    and "lw_holds crc bs bpf b w' d' (take j G) [] []"
proof -
  let ?p = "block_pos b bpf j" and ?k = "b + int (j div bpf)"
  from finalize_recorder_holds [OF h] obtain w0 X where
    f: "finalize_recorder crc w = Some w0" "lw_holds crc bs bpf b w0 d G (H @ X) []" by metis
  from WriteBuffer_holds [OF f(2), of "[]"] obtain w1 d1 where
    wb: "WriteBuffer w0 d [] = Some (True, w1, d1, [])" and h1: "lw_holds crc bs bpf b w1 d1 (G @ H @ X) [] []"
    unfolding buffer_written_def by auto
  note sz = lw_holds_sizes [OF h1]
  define w2 where "w2 = w1\<lparr>lw_recorder := rw_Clear (lw_recorder w1), lw_file := None, lw_file_num := ?k\<rparr>"
  have D: "dir_holds crc bs bpf b d1 (G @ H @ X)" and b: "0 \<le> b" using h1 by (simp_all add: lw_holds_def dir_holds_def)
  have jl: "j \<le> length (G @ H @ X)" using j by simp
  define d3 where "d3 = cut_files bs ?p d1"
  have dt: "dir_holds crc bs bpf b (open_always d3 (False, ?k)) (take j G)"
    using cut_files_facts [OF D jl] j by (simp add: d3_def)
  have ln: "length (take j G) = j" using j by simp
  have w2: "lw_file w2 = None" "\<not> lw_temporary_incomplete_file w2" "lw_buf w2 = []" "rw_ok (lw_recorder w2)"
      "rw_holds (lw_recorder w2) []" "\<not> rw_zlib (lw_recorder w2)" "rw_block_size (lw_recorder w2) = lw_block_size w2"
      "lw_block_size w2 = bs" "lw_blocks_per_file w2 = bpf" "lw_file_num w2 = ?k"
    using h1 sz by (simp_all add: w2_def lw_holds_def)
  from OpenNextLog_holds [of crc w2 b "open_always d3 (False, ?k)" "take j G"] dt w2 ln obtain w' where
    op: "OpenNextLog w2 (open_always d3 (False, ?k)) = Some (w', open_always (open_always d3 (False, ?k)) (False, ?k))"
    "lw_holds crc bs bpf b w' (open_always (open_always d3 (False, ?k)) (False, ?k)) (take j G) [] []" by auto
  have op3: "OpenNextLog w2 d3 = Some (w', open_always d3 (False, ?k))"
    using op(1) OpenNextLog_absorb [of w2 "(False, ?k)" d3] w2 by simp
  have cl: "CloseLog w1 d1 = (w1\<lparr>lw_recorder := rw_Clear (lw_recorder w1), lw_file := None\<rparr>, d1)"
    using h1 by (simp add: CloseLog_def lw_holds_def)
  have "TruncateAt crc w d [] ?p = Some (True, w', open_always d3 (False, ?k), [])"
  proof -
    have "\<not> lw_temporary_incomplete_file w" using h by (simp add: lw_holds_def)
    from TruncateAt_cut [OF this f(1) wb cl, of ?p] have "TruncateAt crc w d [] ?p =
        map_option (\<lambda>(w3, d5). (True, w3, d5, [])) (OpenNextLog w2 d3)"
      using b sz by (simp add: w2_def d3_def block_pos_def)
    then show ?thesis using op3 by simp
  qed
  with that op(2) show ?thesis by simp
qed

end
