(* ===== verification/LogRead.thy ===== *)
theory LogRead
  imports LogWrite
begin

text \<open>
  The correctness of \<open>io::LogReader\<close> on a directory that holds a log (\<open>dir_holds\<close>): the
  records of the log are returned one by one, across blocks and files, the end of the log is
  reported, and reading goes on from there when the log has grown.
\<close>

section \<open>Reading within one block\<close>

lemma ReadRecord_in_block:
  assumes "rr_holds crc r [] (ps @ cur) []" and "splits f rec ps" and "f \<longleftrightarrow> rr_record_content r = []"
  shows "ReadRecord crc inflate r [] (Some o') n m =
    Some (READ_OK, r\<lparr>rr_content := pieces_bytes cur, rr_record_content := []\<rparr>, [], Some (o' @ rr_record_content r @ rec), n)"
  using assms
proof (induction ps arbitrary: f rec r)
  case (Cons p ps)
  have h: "rr_holds crc r [] (p # (ps @ cur)) []" using Cons.prems(1) by simp
  have pf: "p_first p \<longleftrightarrow> rr_record_content r = []" using Cons.prems(2,3) by simp
  define r2 where "r2 = r\<lparr>rr_content := pieces_bytes (ps @ cur), rr_record_content := rr_record_content r @ p_data p\<rparr>"
  note st = ReadRecord_step_piece [OF h, of inflate "Some o'" n m]
    and tp = take_piece_piece [OF h pf, of inflate o' n m, folded r2_def]
  show ?case
  proof (cases "p_cont p")
    case True
    then have sp: "p_data p \<noteq> []" "take (length (p_data p)) rec = p_data p" "splits False (drop (length (p_data p)) rec) ps"
      using Cons.prems(2) by auto
    have "ReadRecord crc inflate r [] (Some o') n m = ReadRecord crc inflate r2 [] (Some o') n m"
      using st tp True by (intro ReadRecord_Continue) (simp add: r2_def)
    moreover have "rr_record_content r2 @ drop (length (p_data p)) rec = rr_record_content r @ rec"
      using sp(2) by (simp add: r2_def) (metis append_take_drop_id)
    moreover have "rr_holds crc r2 [] (ps @ cur) []" using h by (simp add: rr_holds_def r2_def)
    ultimately show ?thesis using Cons.IH [OF _ sp(3), of r2] sp(1) by (simp add: r2_def)
  next
    case False
    then have "p_data p = rec" "ps = []" using Cons.prems(2) by auto
    then show ?thesis using st tp False by (subst ReadRecord.simps) (simp add: r2_def)
  qed
qed simp

text \<open>A block that ends inside a record: its bytes are kept, and more data is asked for.\<close>

lemma ReadRecord_runs_out:
  assumes "rr_holds crc r [] cur []" and "splits f rec (cur @ qs)" and "qs \<noteq> []" and "f \<longleftrightarrow> rr_record_content r = []"
    and "0 < rr_block_size r"
  shows "\<exists>acc rec'. ReadRecord crc inflate r [] (Some o') n m =
      Some (READ_NO_DATA, r\<lparr>rr_content := [], rr_record_content := acc\<rparr>, [], Some o', n) \<and>
    splits (acc = []) rec' qs \<and> acc @ rec' = rr_record_content r @ rec"
  using assms
proof (induction cur arbitrary: f rec r)
  case Nil
  have "rr_content r = []" using Nil.prems(1) by (simp add: rr_holds_def)
  then have r: "r\<lparr>rr_content := [], rr_record_content := rr_record_content r\<rparr> = r" by simp
  have "ReadRecord crc inflate r [] (Some o') n m = Some (READ_NO_DATA, r, [], Some o', n)"
    using rr_holds_no_data(1) [OF Nil.prems(1) _ Nil.prems(5)] by simp
  then show ?case using Nil.prems(2,4) r by (intro exI [of _ "rr_record_content r"] exI [of _ rec]) simp
next
  case (Cons p cur)
  have pf: "p_first p \<longleftrightarrow> rr_record_content r = []" using Cons.prems(2,4) by simp
  define r2 where "r2 = r\<lparr>rr_content := pieces_bytes cur, rr_record_content := rr_record_content r @ p_data p\<rparr>"
  note st = ReadRecord_step_piece [OF Cons.prems(1), of inflate "Some o'" n m]
    and tp = take_piece_piece [OF Cons.prems(1) pf, of inflate o' n m, folded r2_def]
  have cont: "p_cont p" using Cons.prems(2,3) by (auto split: if_splits)
  then have sp: "p_data p \<noteq> []" "take (length (p_data p)) rec = p_data p" "splits False (drop (length (p_data p)) rec) (cur @ qs)"
    using Cons.prems(2) by auto
  have "ReadRecord crc inflate r [] (Some o') n m = ReadRecord crc inflate r2 [] (Some o') n m"
    using st tp cont by (intro ReadRecord_Continue) (simp add: r2_def)
  moreover have "rr_record_content r2 @ drop (length (p_data p)) rec = rr_record_content r @ rec"
    using sp(2) by (simp add: r2_def) (metis append_take_drop_id)
  moreover have "rr_holds crc r2 [] cur []" using Cons.prems(1) by (simp add: rr_holds_def r2_def)
  ultimately show ?case using Cons.IH [of r2, OF _ sp(3) Cons.prems(3)] sp(1) Cons.prems(5) by (simp add: r2_def)
qed

text \<open>A block from the file, when nothing of the one before is left.\<close>

definition rr_load :: "(bytes \<Rightarrow> 32 word) \<Rightarrow> log_block \<Rightarrow> RecordReader \<Rightarrow> RecordReader" where
  "rr_load crc B r = r\<lparr>rr_prev_block_crc := blk_crc crc (rr_block_size r) B, rr_content := pieces_bytes (snd B)\<rparr>"

lemma ReadRecord_block:
  assumes "block_ok (rr_block_size r) (snd B)" and "rr_content r = []" and "\<not> rr_skip_record r"
    and "fst B = 0 \<or> rr_prev_block_crc r = 0 \<or> fst B = rr_prev_block_crc r"
  shows "ReadRecord crc inflate r (blk_bytes crc (rr_block_size r) B) out n m =
    ReadRecord crc inflate (rr_load crc B r) [] out n m"
proof -
  have ne: "pieces_bytes (snd B) \<noteq> []" using assms(1) by (simp add: block_ok_def)
  have "fetch_block crc r (blk_bytes crc (rr_block_size r) B) = Some (READ_OK, rr_load crc B r, [])"
    using assms ReadNextBlock_image [OF assms(1) refl, of crc "fst B" "[]"]
    by (auto simp: fetch_block_def blk_bytes_def rr_load_def blk_crc_def)
  moreover have "fetch_block crc (rr_load crc B r) [] = Some (READ_OK, rr_load crc B r, [])"
    using ne by (simp add: fetch_block_def rr_load_def)
  ultimately have "ReadRecord_step crc inflate r (blk_bytes crc (rr_block_size r) B) out n m =
      ReadRecord_step crc inflate (rr_load crc B r) [] out n m"
    by (simp add: ReadRecord_step_def)
  then show ?thesis by (subst (1 2) ReadRecord.simps) simp
qed

section \<open>The reader inside a log\<close>

definition lr_at :: "nat \<Rightarrow> nat \<Rightarrow> int \<Rightarrow> LogReader \<Rightarrow> nat \<Rightarrow> bool" where
  "lr_at bs bpf b r j \<longleftrightarrow> (\<exists>i. lr_file_num r = b + int i \<and>
     (case lr_file r of None \<Rightarrow> j = i * bpf | Some p \<Rightarrow> (\<exists>q \<le> bpf. p = q * bs \<and> j = i * bpf + q)))"

definition lr_holds ::
    "(bytes \<Rightarrow> 32 word) \<Rightarrow> nat \<Rightarrow> nat \<Rightarrow> int \<Rightarrow> LogReader \<Rightarrow> log_block list \<Rightarrow> nat \<Rightarrow> piece list \<Rightarrow> bytes \<Rightarrow> bool" where
  "lr_holds crc bs bpf b r G j cur acc \<longleftrightarrow> lr_block_size r = bs \<and> lr_blocks_per_file r = bpf \<and>
     j \<le> length G \<and> lr_at bs bpf b r j \<and> lr_buf r = [] \<and> (lr_file r = None \<longrightarrow> cur = []) \<and>
     rr_block_size (lr_reader r) = bs \<and> rr_content (lr_reader r) = pieces_bytes cur \<and> (\<forall>p \<in> set cur. piece_ok p) \<and>
     \<not> rr_skip_record (lr_reader r) \<and> rr_record_content (lr_reader r) = acc \<and>
     (rr_prev_block_crc (lr_reader r) = 0 \<or> rr_prev_block_crc (lr_reader r) = last_crc crc bs 0 (take j G))"

lemma lr_holds_extend: "lr_holds crc bs bpf b r G j cur acc \<Longrightarrow> lr_holds crc bs bpf b r (G @ X) j cur acc"
  by (simp add: lr_holds_def)

lemma lr_holds_record_num [simp]:
  "lr_holds crc bs bpf b (r\<lparr>lr_record_num := n\<rparr>) G j cur acc = lr_holds crc bs bpf b r G j cur acc"
  "lr_holds crc bs bpf b (r\<lparr>lr_num_errors := k\<rparr>) G j cur acc = lr_holds crc bs bpf b r G j cur acc"
  by (simp_all add: lr_holds_def lr_at_def)

lemma lr_holds_reader:
  assumes "lr_holds crc bs bpf b r G j cur acc"
  shows "rr_holds crc (lr_reader r) [] cur []"
  using assms by (simp add: lr_holds_def rr_holds_def)

lemma lr_holds_set_reader:
  assumes "lr_holds crc bs bpf b r G j cur acc" and "lr_file r \<noteq> None \<or> cur' = []"
    and "\<forall>p \<in> set cur'. piece_ok p"
  shows "lr_holds crc bs bpf b (r\<lparr>lr_reader := (lr_reader r)\<lparr>rr_content := pieces_bytes cur', rr_record_content := acc'\<rparr>,
    lr_buf := []\<rparr>) G j cur' acc'"
  using assms by (auto simp: lr_holds_def lr_at_def)

text \<open>Opening a file of the log at its start.\<close>

lemma OpenFile_holds:
  assumes d: "dir_holds crc bs bpf b d G" and h: "lr_holds crc bs bpf b r G j [] acc"
    and i: "j = i * bpf" and new: "lr_file_num r \<noteq> b + int i \<or> lr_file r = None"
  obtains r' where "OpenFile d r (b + int i) = Some (True, r')" and "lr_holds crc bs bpf b r' G j [] acc"
    and "lr_file r' = Some 0" and "lr_file_num r' = b + int i" and "lr_num_errors r' = lr_num_errors r"
proof -
  let ?r = "(CloseInternal False r)\<lparr>lr_file_num := b + int i, lr_file := Some 0\<rparr>"
  have bpf: "0 < bpf" "0 \<le> b" using d by (simp_all add: dir_holds_def)
  have "i \<le> length G div bpf" using h i bpf(1) by (simp add: lr_holds_def less_eq_div_iff_mult_less_eq)
  then have "IsReadableFile d (False, b + int i)" using d by (simp add: dir_holds_def)
  then have "OpenFile d r (b + int i) = Some (True, ?r)" using new bpf(2) by (auto simp: OpenFile_def Let_def)
  moreover have "lr_holds crc bs bpf b ?r G j [] acc"
    using h i by (auto simp: lr_holds_def lr_at_def CloseInternal_def rr_Clear_def)
  ultimately show ?thesis using that by (simp add: CloseInternal_def)
qed

text \<open>The chunk of a file that is block \<open>j\<close> of the log, or nothing at the end of the log.\<close>

lemma file_chunk:
  assumes d: "dir_holds crc bs bpf b d G" and "i * bpf + q \<le> length G" and q: "q < bpf"
  shows "take bs (drop (q * bs) (file_content d (False, b + int i))) =
    (if i * bpf + q < length G then blk_bytes crc bs (G ! (i * bpf + q)) else [])"
proof -
  let ?F = "file_blocks bpf i G"
  have ok: "blocks_ok bs ?F" and bpf: "0 < bpf" using d by (auto simp: dir_holds_def file_blocks_def)
  have "i \<le> length G div bpf" using assms(2) bpf by (simp add: less_eq_div_iff_mult_less_eq)
  then have "file_content d (False, b + int i) = blocks_bytes crc bs ?F" using d by (simp add: dir_holds_def)
  then have c: "take bs (drop (q * bs) (file_content d (False, b + int i))) = blocks_bytes crc bs (take 1 (drop q ?F))"
    using take_blocks_bytes [of bs "drop q ?F" 1 crc] ok drop_blocks_bytes [OF ok, of q crc] by auto
  show ?thesis
  proof (cases "i * bpf + q < length G")
    case True
    then have l: "q < length ?F" and n: "?F ! q = G ! (i * bpf + q)" using q by (simp_all add: file_blocks_def)
    have "take 1 (drop q ?F) = [G ! (i * bpf + q)]" using l n by (simp add: drop_eq_Cons_nth)
    then show ?thesis using c True by simp
  next
    case False
    then have "drop q ?F = []" using assms(2) by (simp add: file_blocks_def)
    then show ?thesis using c False by simp
  qed
qed

lemma lr_holds_bounded:
  assumes d: "dir_holds crc bs bpf b d G" and h: "lr_holds crc bs bpf b r G j [] acc" and f: "lr_file r = Some p"
  obtains r1 i q where "(if p = bs * bpf then OpenFile d r (lr_file_num r + 1) else Some (True, r)) = Some (True, r1)"
    and "lr_holds crc bs bpf b r1 G j [] acc" and "lr_file r1 = Some (q * bs)" and "q < bpf"
    and "lr_file_num r1 = b + int i" and "j = i * bpf + q" and "lr_num_errors r1 = lr_num_errors r"
proof -
  from h f obtain i q where i: "lr_file_num r = b + int i" "p = q * bs" "q \<le> bpf" "j = i * bpf + q"
    by (auto simp: lr_holds_def lr_at_def)
  have pos: "0 < bs" "0 < bpf" using d by (simp_all add: dir_holds_def)
  show ?thesis
  proof (cases "q = bpf")
    case True
    have j: "j = Suc i * bpf" using i(4) True by simp
    from OpenFile_holds [OF d h j] i(1) obtain r1 where "OpenFile d r (b + int (Suc i)) = Some (True, r1)"
      "lr_holds crc bs bpf b r1 G j [] acc" "lr_file r1 = Some 0" "lr_file_num r1 = b + int (Suc i)"
      "lr_num_errors r1 = lr_num_errors r" by auto
    with that [of r1 0 "Suc i"] i True j pos show ?thesis by (simp add: ac_simps)
  next
    case False
    with that [of r q i] h f i pos show ?thesis by (auto simp: mult.commute)
  qed
qed

lemma lr_holds_load:
  assumes h: "lr_holds crc bs bpf b r G j [] acc" and B: "j < length G" "blocks_ok bs G" "chained crc bs 0 G"
    and f: "lr_file r = Some (q * bs)" "q < bpf" "lr_file_num r = b + int i" "j = i * bpf + q"
  shows "lr_holds crc bs bpf b (r\<lparr>lr_file := Some (q * bs + bs), lr_reader := rr_load crc (G ! j) (lr_reader r)\<rparr>) G (Suc j)
      (snd (G ! j)) acc"
    and "fst (G ! j) = 0 \<or> rr_prev_block_crc (lr_reader r) = 0 \<or> fst (G ! j) = rr_prev_block_crc (lr_reader r)"
    and "block_ok bs (snd (G ! j))"
proof -
  show ok: "block_ok bs (snd (G ! j))" using B by (simp add: blocks_ok_def)
  have tk: "take (Suc j) G = take j G @ [G ! j]" using B(1) by (rule take_Suc_conv_app_nth)
  have "chained crc bs 0 (take j G @ [G ! j])" using chained_take [OF B(3), of "Suc j"] tk by simp
  then show "fst (G ! j) = 0 \<or> rr_prev_block_crc (lr_reader r) = 0 \<or> fst (G ! j) = rr_prev_block_crc (lr_reader r)"
    using h by (auto simp: lr_holds_def chained_append)
  have "\<forall>p \<in> set (snd (G ! j)). piece_ok p" using ok piece_ok_block [of "snd (G ! j)" bs] by (auto simp: block_ok_def)
  moreover have "lr_at bs bpf b (r\<lparr>lr_file := Some (q * bs + bs), lr_reader := x\<rparr>) (Suc j)" for x
    using f by (auto simp: lr_at_def intro!: exI [of _ i] exI [of _ "Suc q"])
  ultimately show "lr_holds crc bs bpf b (r\<lparr>lr_file := Some (q * bs + bs), lr_reader := rr_load crc (G ! j) (lr_reader r)\<rparr>)
      G (Suc j) (snd (G ! j)) acc"
    using h B(1) tk by (auto simp: lr_holds_def rr_load_def)
qed

text \<open>
  One block further. The loop of \<open>GetNextRecord\<close> on the buffered block is the loop with
  the block already taken over by the record reader.
\<close>

lemma loop_cong:
  assumes "ReadRecord crc inflate (lr_reader r) (lr_buf r) out 0 0 = ReadRecord crc inflate rd [] out 0 0"
  shows "GetNextRecord_loop crc inflate d r out = GetNextRecord_loop crc inflate d (r\<lparr>lr_reader := rd, lr_buf := []\<rparr>) out"
  by (subst (1 2) GetNextRecord_loop.simps) (simp add: assms)

lemma ReadBlock_next:
  assumes d: "dir_holds crc bs bpf b d G" and h: "lr_holds crc bs bpf b r G j [] acc" and f: "lr_file r \<noteq> None"
    and j: "j < length G"
  obtains r1 r2 where "LogReader_ReadBlock d r = Some (True, r1)"
    and "GetNextRecord_loop crc inflate d r1 out = GetNextRecord_loop crc inflate d r2 out"
    and "lr_holds crc bs bpf b r2 G (Suc j) (snd (G ! j)) acc" and "lr_file r2 \<noteq> None"
    and "lr_num_errors r2 = lr_num_errors r"
proof -
  from f obtain p where p: "lr_file r = Some p" by auto
  from lr_holds_bounded [OF d h p] obtain r1 i q where
    o: "(if p = bs * bpf then OpenFile d r (lr_file_num r + 1) else Some (True, r)) = Some (True, r1)"
    and h1: "lr_holds crc bs bpf b r1 G j [] acc" and f1: "lr_file r1 = Some (q * bs)" "q < bpf" "lr_file_num r1 = b + int i"
      "j = i * bpf + q" and ne: "lr_num_errors r1 = lr_num_errors r" .
  have G: "blocks_ok bs G" "chained crc bs 0 G" "0 < bs" using d by (simp_all add: dir_holds_def)
  note ld = lr_holds_load [OF h1 j G(1,2) f1]
  let ?B = "G ! j"
  define r2 where "r2 = r1\<lparr>lr_buf := blk_bytes crc bs ?B, lr_file := Some (q * bs + bs)\<rparr>"
  have s: "lr_block_size r = bs" "lr_blocks_per_file r = bpf" "lr_block_size r1 = bs" "lr_buf r1 = []"
      "rr_block_size (lr_reader r1) = bs" "rr_content (lr_reader r1) = []" "\<not> rr_skip_record (lr_reader r1)"
    using h h1 by (simp_all add: lr_holds_def)
  have ch: "take bs (drop (q * bs) (file_content d (False, lr_file_num r1))) = blk_bytes crc bs ?B"
    using file_chunk [OF d, of i q] f1 j by simp
  have len: "length (blk_bytes crc bs ?B) = bs" using ld(3) by (rule length_blk_bytes)
  have rb: "LogReader_ReadBlock d r = Some (True, r2)"
    using p s o f1(1) ch len by (simp add: LogReader_ReadBlock_def Let_def r2_def)
  have rr: "ReadRecord crc inflate (lr_reader r2) (lr_buf r2) out 0 0 =
      ReadRecord crc inflate (rr_load crc ?B (lr_reader r1)) [] out 0 0"
    using ReadRecord_block [of "lr_reader r1" ?B crc inflate out 0 0] ld(2,3) s by (simp add: r2_def)
  show ?thesis
    by (rule that [OF rb loop_cong [OF rr]]) (use ld(1) s ne in \<open>simp_all add: r2_def lr_holds_def lr_at_def\<close>)
qed

lemma ReadBlock_end:
  assumes d: "dir_holds crc bs bpf b d G" and h: "lr_holds crc bs bpf b r G (length G) [] acc" and f: "lr_file r \<noteq> None"
  obtains r' where "LogReader_ReadBlock d r = Some (False, r')" and "lr_holds crc bs bpf b r' G (length G) [] acc"
    and "lr_file r' \<noteq> None" and "lr_num_errors r' = lr_num_errors r"
proof -
  from f obtain p where p: "lr_file r = Some p" by auto
  from lr_holds_bounded [OF d h p] obtain r1 i q where
    o: "(if p = bs * bpf then OpenFile d r (lr_file_num r + 1) else Some (True, r)) = Some (True, r1)"
    and h1: "lr_holds crc bs bpf b r1 G (length G) [] acc" and f1: "lr_file r1 = Some (q * bs)" "q < bpf" "lr_file_num r1 = b + int i"
      "length G = i * bpf + q" and ne: "lr_num_errors r1 = lr_num_errors r" .
  have s: "lr_block_size r = bs" "lr_blocks_per_file r = bpf" "lr_block_size r1 = bs" "lr_buf r1 = []" "0 < bs"
    using h h1 d by (simp_all add: lr_holds_def dir_holds_def)
  have ch: "take bs (drop (q * bs) (file_content d (False, lr_file_num r1))) = []"
    using file_chunk [OF d, of i q] f1 by simp
  have "LogReader_ReadBlock d r = Some (False, r1)"
    using p s o f1(1) ch by (simp add: LogReader_ReadBlock_def Let_def)
  with that h1 f1(1) ne show ?thesis by simp
qed

section \<open>The next record, and the end of the log\<close>

lemma lr_holds_at_block_end:
  assumes h: "lr_holds crc bs bpf b r G j cur acc" and f: "lr_file r \<noteq> None" and pos: "0 < bs"
    and sp: "splits (acc = []) rec (cur @ qs)" and "qs \<noteq> []"
  obtains r1 acc' rec' where "lr_holds crc bs bpf b r1 G j [] acc'" and "lr_file r1 \<noteq> None"
    and "splits (acc' = []) rec' qs" and "acc' @ rec' = acc @ rec" and "lr_num_errors r1 = lr_num_errors r"
    and "GetNextRecord_loop crc inflate d r (Some o') = Option.bind (LogReader_ReadBlock d r1)
      (\<lambda>(ok, r2). if ok then GetNextRecord_loop crc inflate d r2 (Some o') else Some (False, r2, Some o'))"
proof -
  have rr: "rr_block_size (lr_reader r) = bs" "rr_record_content (lr_reader r) = acc" "lr_buf r = []"
    using h by (simp_all add: lr_holds_def)
  from ReadRecord_runs_out [OF lr_holds_reader [OF h] sp assms(5), of inflate o' 0 0] rr pos obtain acc' rec' where
    a: "ReadRecord crc inflate (lr_reader r) [] (Some o') 0 0 =
      Some (READ_NO_DATA, (lr_reader r)\<lparr>rr_content := [], rr_record_content := acc'\<rparr>, [], Some o', 0)"
      "splits (acc' = []) rec' qs" "acc' @ rec' = acc @ rec" by auto
  define r0 where "r0 = r\<lparr>lr_reader := (lr_reader r)\<lparr>rr_content := [], rr_record_content := acc'\<rparr>, lr_buf := []\<rparr>"
  have "lr_holds crc bs bpf b r0 G j [] acc'"
    using lr_holds_set_reader [OF h, of "[]" acc'] by (simp add: r0_def)
  moreover have "GetNextRecord_loop crc inflate d r (Some o') = Option.bind (LogReader_ReadBlock d (r0\<lparr>lr_record_num := 0\<rparr>))
      (\<lambda>(ok, r2). if ok then GetNextRecord_loop crc inflate d r2 (Some o') else Some (False, r2, Some o'))"
    by (subst GetNextRecord_loop.simps) (simp add: rr(3) a(1) r0_def Let_def)
  ultimately show ?thesis using that [of "r0\<lparr>lr_record_num := 0\<rparr>" acc' rec'] a f by (simp add: r0_def)
qed

lemma GetNextRecord_loop_found:
  assumes d: "dir_holds crc bs bpf b d G" and "lr_holds crc bs bpf b r G j cur acc" and "lr_file r \<noteq> None"
    and "cur @ log_pieces (drop j G) = ps @ rest" and "splits (acc = []) rec ps"
  shows "\<exists>r' j' cur'. GetNextRecord_loop crc inflate d r (Some o') = Some (True, r', Some (o' @ acc @ rec)) \<and>
    lr_holds crc bs bpf b r' G j' cur' [] \<and> lr_file r' \<noteq> None \<and> cur' @ log_pieces (drop j' G) = rest \<and>
    lr_num_errors r' = lr_num_errors r"
  using assms(2-)
proof (induction "length G - j" arbitrary: r j cur acc ps rec rule: less_induct)
  case less
  note h = less.prems(1) and f = less.prems(2) and eq = less.prems(3) and sp = less.prems(4)
  have rr: "rr_record_content (lr_reader r) = acc" "lr_buf r = []" "\<forall>p \<in> set cur. piece_ok p"
    using h by (simp_all add: lr_holds_def)
  have pos: "0 < bs" using d by (simp add: dir_holds_def)
  show ?case
  proof (cases "length ps \<le> length cur")
    case True
    then obtain cur2 where c: "cur = ps @ cur2" "cur2 @ log_pieces (drop j G) = rest"
      using eq by (metis append_eq_append_conv_if append_take_drop_id same_append_eq append.assoc)
    define r1 where "r1 = r\<lparr>lr_reader := (lr_reader r)\<lparr>rr_content := pieces_bytes cur2, rr_record_content := []\<rparr>, lr_buf := []\<rparr>"
    have "lr_holds crc bs bpf b r1 G j cur2 []"
      unfolding r1_def using f c rr(3) by (intro lr_holds_set_reader [OF h]) auto
    moreover have "GetNextRecord_loop crc inflate d r (Some o') =
        Some (True, r1\<lparr>lr_record_num := lr_record_num r + 1, lr_num_errors := lr_num_errors r\<rparr>, Some (o' @ acc @ rec))"
      using ReadRecord_in_block [OF lr_holds_reader [OF h, unfolded c(1)] sp, of inflate o' 0 0] rr
      by (subst GetNextRecord_loop.simps) (simp add: r1_def Let_def)
    ultimately show ?thesis using c f
      by (intro exI [of _ "r1\<lparr>lr_record_num := lr_record_num r + 1, lr_num_errors := lr_num_errors r\<rparr>"]
          exI [of _ j] exI [of _ cur2]) (simp add: r1_def)
  next
    case False
    then obtain qs where q: "ps = cur @ qs" "qs \<noteq> []" "log_pieces (drop j G) = qs @ rest"
      using eq by (metis append_eq_append_conv2 append_self_conv le_refl length_append le_add1 append_eq_append_conv_if same_append_eq append.assoc)
    from lr_holds_at_block_end [OF h f pos sp [unfolded q(1)] q(2), of inflate d o'] obtain r1 acc' rec' where
      r1: "lr_holds crc bs bpf b r1 G j [] acc'" "lr_file r1 \<noteq> None" "splits (acc' = []) rec' qs" "acc' @ rec' = acc @ rec"
        "lr_num_errors r1 = lr_num_errors r"
        "GetNextRecord_loop crc inflate d r (Some o') = Option.bind (LogReader_ReadBlock d r1)
          (\<lambda>(ok, r2). if ok then GetNextRecord_loop crc inflate d r2 (Some o') else Some (False, r2, Some o'))" .
    have j: "j < length G" using q(2,3) by (cases "j < length G") auto
    from ReadBlock_next [OF d r1(1,2) j, of inflate "Some o'"] obtain r2 r3 where
      r2: "LogReader_ReadBlock d r1 = Some (True, r2)"
        "GetNextRecord_loop crc inflate d r2 (Some o') = GetNextRecord_loop crc inflate d r3 (Some o')"
        "lr_holds crc bs bpf b r3 G (Suc j) (snd (G ! j)) acc'" "lr_file r3 \<noteq> None" "lr_num_errors r3 = lr_num_errors r1" .
    have "snd (G ! j) @ log_pieces (drop (Suc j) G) = qs @ rest"
      using q(3) j by (simp add: drop_eq_Cons_nth)
    from less.hyps [OF _ r2(3,4) this r1(3)] j r1(4-) r2(1,2,5) show ?thesis by auto
  qed
qed

lemma GetNextRecord_loop_end:
  assumes d: "dir_holds crc bs bpf b d G" and "lr_holds crc bs bpf b r G j cur acc" and "lr_file r \<noteq> None"
    and "splits (acc = []) rec ((cur @ log_pieces (drop j G)) @ qs)" and "qs \<noteq> []"
  shows "\<exists>r' acc' rec'. GetNextRecord_loop crc inflate d r (Some o') = Some (False, r', Some o') \<and>
    lr_holds crc bs bpf b r' G (length G) [] acc' \<and> lr_file r' \<noteq> None \<and> splits (acc' = []) rec' qs \<and>
    acc' @ rec' = acc @ rec \<and> lr_num_errors r' = lr_num_errors r"
  using assms(2-)
proof (induction "length G - j" arbitrary: r j cur acc rec rule: less_induct)
  case less
  have pos: "0 < bs" using d by (simp add: dir_holds_def)
  let ?qs = "log_pieces (drop j G) @ qs"
  have sp: "splits (acc = []) rec (cur @ ?qs)" "?qs \<noteq> []" using less.prems by simp_all
  from lr_holds_at_block_end [OF less.prems(1,2) pos sp, of inflate d o'] obtain r1 acc' rec' where
    r1: "lr_holds crc bs bpf b r1 G j [] acc'" "lr_file r1 \<noteq> None" "splits (acc' = []) rec' ?qs" "acc' @ rec' = acc @ rec"
      "lr_num_errors r1 = lr_num_errors r"
      "GetNextRecord_loop crc inflate d r (Some o') = Option.bind (LogReader_ReadBlock d r1)
        (\<lambda>(ok, r2). if ok then GetNextRecord_loop crc inflate d r2 (Some o') else Some (False, r2, Some o'))" .
  show ?case
  proof (cases "j < length G")
    case True
    from ReadBlock_next [OF d r1(1,2) True, of inflate "Some o'"] obtain r2 r3 where
      r2: "LogReader_ReadBlock d r1 = Some (True, r2)"
        "GetNextRecord_loop crc inflate d r2 (Some o') = GetNextRecord_loop crc inflate d r3 (Some o')"
        "lr_holds crc bs bpf b r3 G (Suc j) (snd (G ! j)) acc'" "lr_file r3 \<noteq> None" "lr_num_errors r3 = lr_num_errors r1" .
    have "splits (acc' = []) rec' ((snd (G ! j) @ log_pieces (drop (Suc j) G)) @ qs)"
      using r1(3) True by (simp add: drop_eq_Cons_nth)
    from less.hyps [OF _ r2(3,4) this less.prems(4)] True r1(4-) r2(1,2,5) show ?thesis by auto
  next
    case False
    then have j: "j = length G" using r1(1) by (simp add: lr_holds_def)
    from ReadBlock_end [OF d r1(1,2) [unfolded j]] obtain r2 where
      "LogReader_ReadBlock d r1 = Some (False, r2)" "lr_holds crc bs bpf b r2 G (length G) [] acc'"
      "lr_file r2 \<noteq> None" "lr_num_errors r2 = lr_num_errors r1" .
    with r1 j show ?thesis by auto
  qed
qed

text \<open>The first part of \<open>GetNextRecord\<close>: a new reader, or one whose file is closed, opens its file.\<close>

lemma GetLogFiles_dir:
  assumes "dir_holds crc bs bpf b d G"
  shows "GetLogFiles d = [b..b + int (length G div bpf)]"
  using assms by (intro GetLogFiles_eqI) (auto simp: dir_holds_def)

definition lr_ready ::
    "(bytes \<Rightarrow> 32 word) \<Rightarrow> nat \<Rightarrow> nat \<Rightarrow> int \<Rightarrow> LogReader \<Rightarrow> log_block list \<Rightarrow> nat \<Rightarrow> piece list \<Rightarrow> bytes \<Rightarrow> bool" where
  "lr_ready crc bs bpf b r G j cur acc \<longleftrightarrow>
     lr_holds crc bs bpf b r G j cur acc \<or> r = lr_new bs bpf \<and> j = 0 \<and> cur = [] \<and> acc = []"

lemma GetNextRecord_opens:
  assumes d: "dir_holds crc bs bpf b d G" and h: "lr_ready crc bs bpf b r G j cur acc"
  obtains r1 where "GetNextRecord crc inflate d r out = GetNextRecord_loop crc inflate d r1 out"
    and "lr_holds crc bs bpf b r1 G j cur acc" and "lr_file r1 \<noteq> None" and "lr_num_errors r1 = lr_num_errors r"
proof -
  have b: "0 \<le> b" using d by (simp add: dir_holds_def)
  note found = that
  have closed: thesis
    if h0: "lr_holds crc bs bpf b r0 G j [] acc" and f: "lr_file r0 = None" and ne: "lr_num_errors r0 = lr_num_errors r"
      and g: "GetNextRecord crc inflate d r out = Option.bind (OpenFile d r0 (lr_file_num r0))
        (\<lambda>(ok, r2). if \<not> ok then Some (False, r2, out) else GetNextRecord_loop crc inflate d r2 out)" and c: "cur = []" for r0
  proof -
    from h0 f obtain i where i: "lr_file_num r0 = b + int i" "j = i * bpf" by (auto simp: lr_holds_def lr_at_def)
    from OpenFile_holds [OF d h0 i(2)] f obtain r1 where "OpenFile d r0 (b + int i) = Some (True, r1)"
      "lr_holds crc bs bpf b r1 G j [] acc" "lr_file r1 = Some 0" "lr_num_errors r1 = lr_num_errors r0" by auto
    with found [of r1] g i(1) ne c show thesis by simp
  qed
  show ?thesis
  proof (cases "lr_holds crc bs bpf b r G j cur acc")
    case True
    then have n: "lr_file_num r \<noteq> -1" using b by (auto simp: lr_holds_def lr_at_def)
    show ?thesis
    proof (cases "lr_file r")
      case None
      with True have "cur = []" by (simp add: lr_holds_def)
      with closed [of r] True None n show ?thesis by (simp add: GetNextRecord_def)
    next
      case (Some p)
      with that [of r] True n show ?thesis by (simp add: GetNextRecord_def)
    qed
  next
    case False
    then have r: "r = lr_new bs bpf" "j = 0" "cur = []" "acc = []" using h by (simp_all add: lr_ready_def)
    define r0 where "r0 = (lr_new bs bpf)\<lparr>lr_file_num := b\<rparr>"
    have rw: "Rewind d r = r0"
      using GetLogFiles_dir [OF d] r(1)
      by (simp add: Rewind_def upto.simps [of b] r0_def CloseInternal_def lr_new_def rr_new_def rr_Clear_def)
    have "lr_holds crc bs bpf b r0 G j [] acc"
      using r by (auto simp: lr_holds_def lr_at_def r0_def lr_new_def rr_new_def)
    with closed [of r0] rw b r show ?thesis by (simp add: GetNextRecord_def r0_def lr_new_def)
  qed
qed

text \<open>All records from where the reader stands.\<close>

partial_function (option) ReadLog ::
    "(bytes \<Rightarrow> 32 word) \<Rightarrow> (bytes \<Rightarrow> bool \<times> bytes) \<Rightarrow> log_dir \<Rightarrow> LogReader \<Rightarrow> (bytes list \<times> LogReader) option" where
  "ReadLog crc inflate d r =
     Option.bind (GetNextRecord crc inflate d r (Some [])) (\<lambda>(more, r1, out).
       if more
       then Option.bind (ReadLog crc inflate d r1) (\<lambda>(xs, r2). Some ((case out of Some x \<Rightarrow> x | None \<Rightarrow> []) # xs, r2))
       else Some ([], r1))"

lemma ReadLog_records:
  assumes d: "dir_holds crc bs bpf b d G" and "lr_ready crc bs bpf b r G j cur []"
    and "splits_all rs (cur @ log_pieces (drop j G))"
  shows "\<exists>r'. ReadLog crc inflate d r = Some (rs, r') \<and> lr_holds crc bs bpf b r' G (length G) [] [] \<and>
    lr_num_errors r' = lr_num_errors r"
  using assms(2,3)
proof (induction rs arbitrary: r j cur)
  case Nil
  from GetNextRecord_opens [OF d Nil.prems(1), of inflate "Some []"] obtain r1 where
    o: "GetNextRecord crc inflate d r (Some []) = GetNextRecord_loop crc inflate d r1 (Some [])"
      "lr_holds crc bs bpf b r1 G j cur []" "lr_file r1 \<noteq> None" "lr_num_errors r1 = lr_num_errors r" .
  let ?q = "[\<lparr>p_first = True, p_cont = False, p_data = []\<rparr>]"
  from GetNextRecord_loop_end [OF d o(2,3), of "[]" ?q inflate "[]"] Nil.prems(2) obtain r' acc' rec' where
    "GetNextRecord_loop crc inflate d r1 (Some []) = Some (False, r', Some [])" "splits (acc' = []) rec' ?q"
    "lr_holds crc bs bpf b r' G (length G) [] acc'" "lr_num_errors r' = lr_num_errors r1" by auto
  with o show ?case by (subst ReadLog.simps) simp
next
  case (Cons x rs)
  from GetNextRecord_opens [OF d Cons.prems(1), of inflate "Some []"] obtain r1 where
    o: "GetNextRecord crc inflate d r (Some []) = GetNextRecord_loop crc inflate d r1 (Some [])"
      "lr_holds crc bs bpf b r1 G j cur []" "lr_file r1 \<noteq> None" "lr_num_errors r1 = lr_num_errors r" .
  from Cons.prems(2) obtain ps qs where q: "cur @ log_pieces (drop j G) = ps @ qs" "splits True x ps" "splits_all rs qs"
    by (auto simp: splits_all_Cons)
  from GetNextRecord_loop_found [OF d o(2,3) q(1), of x inflate "[]"] q(2) obtain r2 j2 cur2 where
    a: "GetNextRecord_loop crc inflate d r1 (Some []) = Some (True, r2, Some x)"
      "lr_holds crc bs bpf b r2 G j2 cur2 []" "cur2 @ log_pieces (drop j2 G) = qs" "lr_num_errors r2 = lr_num_errors r1" by auto
  from Cons.IH [of r2 j2 cur2] a q(3) obtain r' where
    "ReadLog crc inflate d r2 = Some (rs, r')" "lr_holds crc bs bpf b r' G (length G) [] []" "lr_num_errors r' = lr_num_errors r2"
    by (auto simp: lr_ready_def)
  with o a show ?case by (subst ReadLog.simps) simp
qed

section \<open>Seeking\<close>

lemma Seek_holds:
  assumes d: "dir_holds crc bs bpf b d G" and h: "lr_ready crc bs bpf b r G k cur []" and j: "j \<le> length G"
  obtains r' where "Seek crc inflate d r (block_pos b bpf j) = Some (True, r')"
    and "lr_holds crc bs bpf b r' G j [] []"
proof -
  let ?p = "block_pos b bpf j" and ?i = "j div bpf" and ?q = "j mod bpf"
  have pos: "0 < bpf" "0 \<le> b" using d by (simp_all add: dir_holds_def)
  have "?i \<le> length G div bpf" using j by (rule div_le_mono)
  then have rd: "IsReadableFile d (False, b + int ?i)" using d by (simp add: dir_holds_def)
  have base: "lr_block_size r = bs" "lr_blocks_per_file r = bpf" "rr_block_size (lr_reader r) = bs"
      "\<not> rr_skip_record (lr_reader r)" "rr_record_content (lr_reader r) = []"
    using h by (auto simp: lr_ready_def lr_holds_def lr_new_def rr_new_def)
  obtain r1 where op: "OpenFile d r (b + int ?i) = Some (True, r1)" and f1: "lr_file r1 \<noteq> None" "lr_file_num r1 = b + int ?i"
    and s1: "lr_block_size r1 = bs" "lr_blocks_per_file r1 = bpf" "rr_block_size (lr_reader r1) = bs"
      "\<not> rr_skip_record (lr_reader r1)" "rr_record_content (lr_reader r1) = []"
  proof (cases "lr_file_num r = b + int ?i \<and> lr_file r \<noteq> None")
    case True
    with that [of r] base show ?thesis by (simp add: OpenFile_def)
  next
    case False
    let ?r = "(CloseInternal False r)\<lparr>lr_file_num := b + int ?i, lr_file := Some 0\<rparr>"
    have "OpenFile d r (b + int ?i) = Some (True, ?r)" using False rd pos(2) by (auto simp: OpenFile_def Let_def)
    with that [of ?r] base show ?thesis by (simp add: CloseInternal_def rr_Clear_def)
  qed
  let ?r' = "r1\<lparr>lr_reader := rr_Clear (lr_reader r1), lr_buf := [], lr_file := Some (?q * bs)\<rparr>"
  have "AdvanceToPosInFile crc inflate d r1 ?p = Some (True, ?r')"
    using f1 s1 by (simp add: AdvanceToPosInFile_def Let_def block_pos_def nat_mod_distrib)
  moreover have "\<not> LogPos_IsNull ?p" using pos(2) by (simp add: LogPos_IsNull_def block_pos_def)
  moreover have "IsReadableFile d (False, file_num ?p)" "file_num ?p = b + int ?i" using rd by (simp_all add: block_pos_def)
  ultimately have sk: "Seek crc inflate d r ?p = Some (True, ?r')" using op by (simp add: Seek_def)
  have "lr_at bs bpf b ?r' j"
    using f1(2) pos(1) by (auto simp: lr_at_def less_imp_le intro!: exI [of _ ?i] exI [of _ ?q])
  then have "lr_holds crc bs bpf b ?r' G j [] []" using s1 j by (simp add: lr_holds_def rr_Clear_def)
  with that sk show ?thesis by blast
qed

end
