(* ===== verification/LogStore.thy ===== *)
theory LogStore
  imports LogRead
begin

text \<open>
  The record log as its clients see it (the Raft server is one): a list of records that
  grows by \<open>WriteRecord\<close>, becomes durable by \<open>Flush\<close>, is cut by \<open>TruncateAt\<close> and is read
  back by any reader. The locale \<open>record_log\<close> states this contract, its client lemmas are
  proved once, and it is interpreted on the modelled writer, reader and directory.
\<close>

section \<open>The interface\<close>

datatype 'r log_op = LogWrite 'r | LogFlush

fun log_records :: "'r log_op list \<Rightarrow> 'r list" where
  "log_records [] = []"
| "log_records (LogWrite r # ops) = r # log_records ops"
| "log_records (LogFlush # ops) = log_records ops"

text \<open>A client that does not look at the results of its calls.\<close>

fun log_run ::
    "('w \<Rightarrow> 'o list \<Rightarrow> 'r \<Rightarrow> (bool \<times> 'w \<times> 'o list) option) \<Rightarrow> ('w \<Rightarrow> 'o list \<Rightarrow> (bool \<times> 'w \<times> 'o list) option) \<Rightarrow>
     'r log_op list \<Rightarrow> 'w \<Rightarrow> 'o list \<Rightarrow> ('w \<times> 'o list) option" where
  "log_run wr fl [] w os = Some (w, os)"
| "log_run wr fl (LogWrite r # ops) w os = Option.bind (wr w os r) (\<lambda>(_, w1, os1). log_run wr fl ops w1 os1)"
| "log_run wr fl (LogFlush # ops) w os = Option.bind (fl w os) (\<lambda>(_, w1, os1). log_run wr fl ops w1 os1)"

locale record_log =
  fixes stores :: "'w \<Rightarrow> 'r list \<Rightarrow> bool" and durable :: "'w \<Rightarrow> 'r list \<Rightarrow> bool"
    and wr :: "'w \<Rightarrow> 'o list \<Rightarrow> 'r \<Rightarrow> (bool \<times> 'w \<times> 'o list) option"
    and fl :: "'w \<Rightarrow> 'o list \<Rightarrow> (bool \<times> 'w \<times> 'o list) option"
    and benign :: "'o list \<Rightarrow> bool" and read_all :: "'w \<Rightarrow> 'r list option"
  assumes wr_stores: "stores w rs \<Longrightarrow> benign os \<Longrightarrow>
      \<exists>ok w' os'. wr w os r = Some (ok, w', os') \<and> stores w' (rs @ [r]) \<and> benign os' \<and> (os = [] \<longrightarrow> ok \<and> os' = [])"
    and fl_stores: "stores w rs \<Longrightarrow> benign os \<Longrightarrow>
      \<exists>ok w' os'. fl w os = Some (ok, w', os') \<and> stores w' rs \<and> (ok \<longrightarrow> durable w' rs) \<and> benign os' \<and>
        (os = [] \<longrightarrow> ok \<and> os' = [])"
    and durable_read: "durable w rs \<Longrightarrow> read_all w = Some rs"
begin

lemma run_stores:
  "stores w rs \<Longrightarrow> benign os \<Longrightarrow> \<exists>w' os'. log_run wr fl ops w os = Some (w', os') \<and>
     stores w' (rs @ log_records ops) \<and> benign os' \<and> (os = [] \<longrightarrow> os' = [])"
proof (induction ops arbitrary: w os rs)
  case (Cons op ops)
  show ?case
  proof (cases op)
    case (LogWrite r)
    from wr_stores [OF Cons.prems, of r] obtain ok w1 os1 where
      a: "wr w os r = Some (ok, w1, os1)" "stores w1 (rs @ [r])" "benign os1" "os = [] \<longrightarrow> os1 = []" by blast
    from Cons.IH [OF a(2,3)] a LogWrite show ?thesis by auto
  next
    case LogFlush
    from fl_stores [OF Cons.prems] obtain ok w1 os1 where
      a: "fl w os = Some (ok, w1, os1)" "stores w1 rs" "benign os1" "os = [] \<longrightarrow> os1 = []" by blast
    from Cons.IH [OF a(2,3)] a LogFlush show ?thesis by auto
  qed
qed simp

lemma run_flush_read:
  assumes "stores w rs" and "benign os"
  obtains w1 os1 ok w2 os2 where "log_run wr fl ops w os = Some (w1, os1)" and "fl w1 os1 = Some (ok, w2, os2)"
    and "stores w2 (rs @ log_records ops)" and "ok \<longrightarrow> read_all w2 = Some (rs @ log_records ops)"
    and "os = [] \<longrightarrow> ok \<and> os2 = []"
proof -
  from run_stores [OF assms, of ops] obtain w1 os1 where
    a: "log_run wr fl ops w os = Some (w1, os1)" "stores w1 (rs @ log_records ops)" "benign os1" "os = [] \<longrightarrow> os1 = []" by blast
  from fl_stores [OF a(2,3)] obtain ok w2 os2 where
    "fl w1 os1 = Some (ok, w2, os2)" "stores w2 (rs @ log_records ops)" "ok \<longrightarrow> durable w2 (rs @ log_records ops)"
    "os1 = [] \<longrightarrow> ok \<and> os2 = []" by blast
  with a that durable_read show ?thesis by blast
qed

end

section \<open>The modelled log provides it\<close>

type_synonym log_state = "LogWriter \<times> log_dir"

definition store_write ::
    "(bytes \<Rightarrow> 32 word) \<Rightarrow> (bytes \<Rightarrow> bytes) \<Rightarrow> log_state \<Rightarrow> write_outcome list \<Rightarrow> bytes \<Rightarrow> (bool \<times> log_state \<times> write_outcome list) option" where
  "store_write crc deflate s os r =
     map_option (\<lambda>(ok, w, d, os'). (ok, (w, d), os')) (WriteRecord crc deflate (fst s) (snd s) os r)"

definition store_flush ::
    "(bytes \<Rightarrow> 32 word) \<Rightarrow> log_state \<Rightarrow> write_outcome list \<Rightarrow> (bool \<times> log_state \<times> write_outcome list) option" where
  "store_flush crc s os = map_option (\<lambda>(ok, w, d, os'). (ok, (w, d), os')) (LogWriter_Flush crc (fst s) (snd s) os)"

text \<open>Everything in the directory, read by a new reader.\<close>

definition store_read :: "(bytes \<Rightarrow> 32 word) \<Rightarrow> (bytes \<Rightarrow> bool \<times> bytes) \<Rightarrow> log_state \<Rightarrow> bytes list option" where
  "store_read crc inflate s = map_option fst (ReadLog crc inflate (snd s) (NewReader (fst s)))"

definition store_holds :: "(bytes \<Rightarrow> 32 word) \<Rightarrow> log_state \<Rightarrow> bytes list \<Rightarrow> bool" where
  "store_holds crc s rs \<longleftrightarrow> (\<exists>bs bpf b G H cur. lw_holds crc bs bpf b (fst s) (snd s) G H cur \<and>
     splits_all rs (log_pieces (G @ H) @ cur))"

definition store_durable :: "(bytes \<Rightarrow> 32 word) \<Rightarrow> log_state \<Rightarrow> bytes list \<Rightarrow> bool" where
  "store_durable crc s rs \<longleftrightarrow> (\<exists>b G. dir_holds crc (lw_block_size (fst s)) (lw_blocks_per_file (fst s)) b (snd s) G \<and>
     splits_all rs (log_pieces G))"

lemma splits_all_append: "splits_all rs ps \<Longrightarrow> splits_all rs' ps' \<Longrightarrow> splits_all (rs @ rs') (ps @ ps')"
  unfolding splits_all_def by (metis concat_append list_all2_appendI)

lemma splits_all_single: "splits True r ps \<Longrightarrow> splits_all [r] ps"
  by (simp add: splits_all_Cons)

lemma store_holdsI:
  "lw_holds crc bs bpf b w d G H cur \<Longrightarrow> splits_all rs (log_pieces (G @ H) @ cur) \<Longrightarrow> store_holds crc (w, d) rs"
  unfolding store_holds_def by (metis fst_conv snd_conv)

lemma store_durableI:
  "lw_holds crc bs bpf b w d G [] [] \<Longrightarrow> splits_all rs (log_pieces G) \<Longrightarrow> store_durable crc (w, d) rs"
  unfolding store_durable_def lw_holds_def by (metis fst_conv snd_conv)

lemma store_write_holds:
  assumes "store_holds crc s rs" and "clean os"
  shows "\<exists>ok s' os'. store_write crc deflate s os r = Some (ok, s', os') \<and> store_holds crc s' (rs @ [r]) \<and> clean os' \<and>
    (os = [] \<longrightarrow> ok \<and> os' = [])"
proof -
  from assms(1) obtain bs bpf b G H cur where h: "lw_holds crc bs bpf b (fst s) (snd s) G H cur"
    and sp: "splits_all rs (log_pieces (G @ H) @ cur)" unfolding store_holds_def by blast
  from WriteRecord_holds [OF h assms(2), of deflate r] obtain ok w' d' os' G' H' cur' ps where
    a: "WriteRecord crc deflate (fst s) (snd s) os r = Some (ok, w', d', os')" "splits True r ps"
      "log_grew crc bs bpf b G H cur ps w' d' G' H' cur'" "clean os'" "os = [] \<longrightarrow> ok \<and> os' = []" .
  have "splits_all (rs @ [r]) (log_pieces (G' @ H') @ cur')"
    using splits_all_append [OF sp splits_all_single [OF a(2)]] a(3) by (simp add: log_grew_def)
  then have "store_holds crc (w', d') (rs @ [r])"
    using a(3) store_holdsI unfolding log_grew_def by blast
  with a show ?thesis by (simp add: store_write_def)
qed

lemma store_flush_holds:
  assumes "store_holds crc s rs" and "clean os"
  shows "\<exists>ok s' os'. store_flush crc s os = Some (ok, s', os') \<and> store_holds crc s' rs \<and>
    (ok \<longrightarrow> store_durable crc s' rs) \<and> clean os' \<and> (os = [] \<longrightarrow> ok \<and> os' = [])"
proof -
  from assms(1) obtain bs bpf b G H cur where h: "lw_holds crc bs bpf b (fst s) (snd s) G H cur"
    and sp: "splits_all rs (log_pieces (G @ H) @ cur)" unfolding store_holds_def by blast
  from Flush_holds [OF h assms(2)] obtain ok w' d' os' G' H' where
    a: "LogWriter_Flush crc (fst s) (snd s) os = Some (ok, w', d', os')" "log_grew crc bs bpf b G H cur [] w' d' G' H' []"
      "ok \<longrightarrow> H' = []" "clean os'" "os = [] \<longrightarrow> ok \<and> os' = []" .
  have w': "lw_holds crc bs bpf b w' d' G' H' []" and sp': "splits_all rs (log_pieces (G' @ H') @ [])"
    using a(2) sp by (simp_all add: log_grew_def)
  then have "store_holds crc (w', d') rs" by (rule store_holdsI)
  moreover have "ok \<longrightarrow> store_durable crc (w', d') rs"
    using w' sp' a(3) store_durableI [of crc bs bpf b w' d' G' rs] by auto
  ultimately show ?thesis using a by (simp add: store_flush_def)
qed

lemma store_durable_read:
  assumes "store_durable crc s rs"
  shows "store_read crc inflate s = Some rs"
proof -
  from assms obtain b G where d: "dir_holds crc (lw_block_size (fst s)) (lw_blocks_per_file (fst s)) b (snd s) G"
    and sp: "splits_all rs ([] @ log_pieces (drop 0 G))" unfolding store_durable_def by auto
  have "lr_ready crc (lw_block_size (fst s)) (lw_blocks_per_file (fst s)) b (NewReader (fst s)) G 0 [] []"
    by (simp add: lr_ready_def NewReader_def)
  from ReadLog_records [OF d this sp, of inflate] show ?thesis by (auto simp: store_read_def)
qed

interpretation store: record_log "store_holds crc" "store_durable crc" "store_write crc deflate" "store_flush crc"
  clean "store_read crc inflate" for crc deflate inflate
proof unfold_locales
  fix s rs os r
  show "store_holds crc s rs \<Longrightarrow> clean os \<Longrightarrow> \<exists>ok w' os'. store_write crc deflate s os r = Some (ok, w', os') \<and>
      store_holds crc w' (rs @ [r]) \<and> clean os' \<and> (os = [] \<longrightarrow> ok \<and> os' = [])"
    by (rule store_write_holds)
  show "store_holds crc s rs \<Longrightarrow> clean os \<Longrightarrow> \<exists>ok w' os'. store_flush crc s os = Some (ok, w', os') \<and>
      store_holds crc w' rs \<and> (ok \<longrightarrow> store_durable crc w' rs) \<and> clean os' \<and> (os = [] \<longrightarrow> ok \<and> os' = [])"
    by (rule store_flush_holds)
  show "store_durable crc s rs \<Longrightarrow> store_read crc inflate s = Some rs" by (rule store_durable_read)
qed

section \<open>What the log guarantees\<close>

definition empty_dir :: log_dir where
  "empty_dir = \<lparr>d_files = [], d_lock = None\<rparr>"

lemma start_empty:
  assumes "usable bs bpf dump"
  obtains w0 w d where "lw_new bs bpf False False dump = Some w0"
    and "LogWriter_Initialize running pid w0 empty_dir = Some (True, w, d)" and "lw_holds crc bs bpf 0 w d [] [] []"
  using Initialize_empty [OF assms, of empty_dir running pid crc]
  by (auto simp: empty_dir_def IsReadableFile_def unlocked_def)



text \<open>C18 (roundtrip): restart. When the directory holds a durable log and no running process holds its
  lock, a new writer initializes on it, appends any records, flushes, and a new reader
  returns the old records followed by the new ones; nothing of the old log is changed by the
  restart.\<close>

theorem log_restart_continues:
  assumes "usable bs bpf dump" and "dir_holds crc bs bpf b d G" and "splits_all rs (log_pieces G)"
    and "unlocked running d"
  shows "\<exists>w0 w d1 s1 s2. lw_new bs bpf False False dump = Some w0 \<and>
    LogWriter_Initialize running pid w0 d = Some (True, w, d1) \<and>
    store_read crc inflate (w, d1) = Some rs \<and>
    log_run (store_write crc deflate) (store_flush crc) ops (w, d1) [] = Some (s1, []) \<and>
    store_flush crc s1 [] = Some (True, s2, []) \<and>
    store_read crc inflate s2 = Some (rs @ log_records ops)"
proof -
  from Initialize_existing [OF assms(1,2,4), of pid] obtain w0 w d1 where
    s: "lw_new bs bpf False False dump = Some w0" "LogWriter_Initialize running pid w0 d = Some (True, w, d1)"
      "lw_holds crc bs bpf b w d1 G [] []" .
  have "store_holds crc (w, d1) rs" using store_holdsI [OF s(3)] assms(3) by simp
  from store.run_stores [OF this, of "[]" deflate ops] obtain s1 where
    r: "log_run (store_write crc deflate) (store_flush crc) ops (w, d1) [] = Some (s1, [])"
      "store_holds crc s1 (rs @ log_records ops)" by auto
  from store.fl_stores [OF r(2), of "[]"] obtain s2 where
    "store_flush crc s1 [] = Some (True, s2, [])" "store_durable crc s2 (rs @ log_records ops)" by auto
  with r(1) s store_durableI [OF s(3) assms(3)] store.durable_read show ?thesis by blast
qed

theorem log_restart_continues_witness:
  "\<exists>w0 w d1 s1 s2. lw_new 64 2 False False 40 = Some w0 \<and>
    LogWriter_Initialize (\<lambda>_. False) 7 w0 (open_always empty_dir (False, 0)) = Some (True, w, d1) \<and>
    log_run (store_write (\<lambda>bs. of_nat (length bs)) id) (store_flush (\<lambda>bs. of_nat (length bs)))
      [LogWrite [5]] (w, d1) [] = Some (s1, []) \<and>
    store_flush (\<lambda>bs. of_nat (length bs)) s1 [] = Some (True, s2, []) \<and>
    store_read (\<lambda>bs. of_nat (length bs)) (Pair True) s2 = Some [[5]]"
proof -
  have "dir_holds (\<lambda>bs. of_nat (length bs)) 64 2 0 (open_always empty_dir (False, 0)) []"
    by (rule dir_holds_empty) (simp_all add: empty_dir_def IsReadableFile_def)
  moreover have "unlocked (\<lambda>_. False) (open_always empty_dir (False, 0))" by (simp add: unlocked_def)
  ultimately show ?thesis
    using log_restart_continues [of 64 2 40 "\<lambda>bs. of_nat (length bs)" 0 "open_always empty_dir (False, 0)" "[]" "[]"
        "\<lambda>_. False" 7 "Pair True" id "[LogWrite [5]]"]
    by (auto simp: usable_def kMaximumRecordBlockSize_def)
qed

section \<open>Positions of a growing log\<close>

lemma Tell_holds:
  assumes "lw_holds crc bs bpf b w d G H cur"
  shows "LogWriter_Tell w d = (block_pos b bpf (length G))\<lparr>record_num := int (length cur)\<rparr>"
proof -
  note f = lw_holds_facts [OF assms] and sz = lw_holds_sizes [OF assms]
  have "(length G mod bpf) * bs \<noteq> bpf * bs" "(length G mod bpf) * bs div bs = length G mod bpf"
    using f(1,8) sz by auto
  then show ?thesis using assms f(4,7) sz
    by (simp add: LogWriter_Tell_def block_pos_def Let_def lw_holds_def PendingRecordCount_def rw_holds_def)
qed

lemma log_grew_refl: "lw_holds crc bs bpf b w d G H cur \<Longrightarrow> log_grew crc bs bpf b G H cur [] w d G H cur"
  by (simp add: log_grew_def)

lemma log_run_grew:
  assumes "lw_holds crc bs bpf b w d G H cur"
  shows "\<exists>w' d' G' H' cur' ps. log_run (store_write crc deflate) (store_flush crc) ops (w, d) [] = Some ((w', d'), []) \<and>
    splits_all (log_records ops) ps \<and> log_grew crc bs bpf b G H cur ps w' d' G' H' cur'"
  using assms
proof (induction ops arbitrary: w d G H cur)
  case Nil
  then show ?case using log_grew_refl by fastforce
next
  case (Cons op ops)
  show ?case
  proof (cases op)
    case (LogWrite r)
    from WriteRecord_holds [OF Cons.prems, of "[]" deflate r] obtain w1 d1 G1 H1 cur1 ps where
      a: "WriteRecord crc deflate w d [] r = Some (True, w1, d1, [])" "splits True r ps"
        "log_grew crc bs bpf b G H cur ps w1 d1 G1 H1 cur1" by (metis clean_Nil)
    from Cons.IH [of w1 d1 G1 H1 cur1] a(3) obtain w' d' G' H' cur' qs where
      c: "log_run (store_write crc deflate) (store_flush crc) ops (w1, d1) [] = Some ((w', d'), [])"
        "splits_all (log_records ops) qs" "log_grew crc bs bpf b G1 H1 cur1 qs w' d' G' H' cur'"
      unfolding log_grew_def by blast
    have "splits_all (log_records (op # ops)) (ps @ qs)"
      using splits_all_append [OF splits_all_single [OF a(2)] c(2)] LogWrite by simp
    moreover have "log_run (store_write crc deflate) (store_flush crc) (op # ops) (w, d) [] = Some ((w', d'), [])"
      using a(1) c(1) LogWrite by (simp add: store_write_def [of crc deflate "(w, d)"])
    ultimately show ?thesis using log_grew_trans [OF a(3) c(3)] by blast
  next
    case LogFlush
    from Flush_holds [OF Cons.prems, of "[]"] obtain w1 d1 G1 H1 where
      a: "LogWriter_Flush crc w d [] = Some (True, w1, d1, [])" "log_grew crc bs bpf b G H cur [] w1 d1 G1 H1 []"
      by (metis clean_Nil)
    from Cons.IH [of w1 d1 G1 H1 "[]"] a(2) obtain w' d' G' H' cur' qs where
      c: "log_run (store_write crc deflate) (store_flush crc) ops (w1, d1) [] = Some ((w', d'), [])"
        "splits_all (log_records ops) qs" "log_grew crc bs bpf b G1 H1 [] qs w' d' G' H' cur'"
      unfolding log_grew_def by blast
    moreover have "log_run (store_write crc deflate) (store_flush crc) (op # ops) (w, d) [] = Some ((w', d'), [])"
      using a(1) c(1) LogFlush by (simp add: store_flush_def [of crc "(w, d)"])
    moreover have "log_records (op # ops) = log_records ops" using LogFlush by simp
    ultimately show ?thesis using log_grew_trans [OF a(2) c(3)] by (metis append_Nil)
  qed
qed

text \<open>The log after more records and a flush, seen from a position before them.\<close>

lemma log_grown:
  assumes h: "lw_holds crc bs bpf b w d G [] []"
  obtains s1 w2 d2 X where "log_run (store_write crc deflate) (store_flush crc) ops (w, d) [] = Some (s1, [])"
    and "store_flush crc s1 [] = Some (True, (w2, d2), [])" and "lw_holds crc bs bpf b w2 d2 (G @ X) [] []"
    and "splits_all (log_records ops) (log_pieces X)"
proof -
  from log_run_grew [OF h, of deflate ops] obtain w1 d1 G1 H1 cur1 ps where
    a: "log_run (store_write crc deflate) (store_flush crc) ops (w, d) [] = Some ((w1, d1), [])"
      "splits_all (log_records ops) ps" "log_grew crc bs bpf b G [] [] ps w1 d1 G1 H1 cur1" by blast
  have "lw_holds crc bs bpf b w1 d1 G1 H1 cur1" using a(3) by (simp add: log_grew_def)
  from Flush_holds [OF this, of "[]"] obtain w2 d2 G2 where
    f: "LogWriter_Flush crc w1 d1 [] = Some (True, w2, d2, [])" "log_grew crc bs bpf b G1 H1 cur1 [] w2 d2 G2 [] []"
    by (metis clean_Nil)
  have g: "log_grew crc bs bpf b G [] [] (ps @ []) w2 d2 G2 [] []" by (rule log_grew_trans [OF a(3) f(2)])
  then obtain X where X: "G2 = G @ X" "log_pieces X = ps" unfolding log_grew_def by auto
  show ?thesis
    by (rule that [OF a(1), of w2 d2 X]) (use f g X a(2) in \<open>simp_all add: store_flush_def log_grew_def\<close>)
qed

text \<open>C17 (roundtrip): truncation undoes appends. A client of a flushed log notes the writer's position
  (\<open>Tell\<close>), appends any records and flushes, and then truncates at the noted position, as the
  Raft server does when it takes back entries: \<open>TruncateAt\<close> succeeds, a new reader returns
  exactly the records that were there before, and the writer's position is the noted one
  again.\<close>

theorem truncate_undoes_appends:
  assumes "lw_holds crc bs bpf b w d G [] []" and "splits_all rs (log_pieces G)"
  shows "\<exists>s1 w2 d2 w3 d3. log_run (store_write crc deflate) (store_flush crc) ops (w, d) [] = Some (s1, []) \<and>
    store_flush crc s1 [] = Some (True, (w2, d2), []) \<and>
    store_read crc inflate (w2, d2) = Some (rs @ log_records ops) \<and>
    TruncateAt crc w2 d2 [] (LogWriter_Tell w d) = Some (True, w3, d3, []) \<and>
    store_read crc inflate (w3, d3) = Some rs \<and> LogWriter_Tell w3 d3 = LogWriter_Tell w d"
proof -
  from log_grown [OF assms(1), of deflate ops] obtain s1 w2 d2 X where
    a: "log_run (store_write crc deflate) (store_flush crc) ops (w, d) [] = Some (s1, [])"
      "store_flush crc s1 [] = Some (True, (w2, d2), [])" "lw_holds crc bs bpf b w2 d2 (G @ X) [] []"
      "splits_all (log_records ops) (log_pieces X)" .
  have p: "LogWriter_Tell w d = block_pos b bpf (length G)" using Tell_holds [OF assms(1)] by (simp add: block_pos_def)
  from TruncateAt_holds [OF a(3), of "length G"] obtain w3 d3 where
    t: "TruncateAt crc w2 d2 [] (block_pos b bpf (length G)) = Some (True, w3, d3, [])"
      "lw_holds crc bs bpf b w3 d3 G [] []" by auto
  have "store_read crc inflate (w2, d2) = Some (rs @ log_records ops)"
    using store_durableI [OF a(3)] splits_all_append [OF assms(2) a(4)] by (intro store_durable_read) simp
  moreover have "store_read crc inflate (w3, d3) = Some rs"
    using store_durableI [OF t(2) assms(2)] by (rule store_durable_read)
  moreover have "LogWriter_Tell w3 d3 = LogWriter_Tell w d" using Tell_holds [OF t(2)] Tell_holds [OF assms(1)] by simp
  ultimately show ?thesis using a(1,2) t(1) p by auto
qed

lemma demo_started: "\<exists>w d. lw_holds crc 64 2 0 w d [] [] []"
proof -
  have "usable 64 2 40" by (simp add: usable_def kMaximumRecordBlockSize_def)
  from start_empty [OF this, of "\<lambda>_. False" 7 crc] show ?thesis by metis
qed

theorem truncate_undoes_appends_witness:
  "\<exists>w d s1 w2 d2 w3 d3. log_run (store_write (\<lambda>bs. of_nat (length bs)) id) (store_flush (\<lambda>bs. of_nat (length bs)))
      [LogWrite (replicate 300 1), LogFlush, LogWrite [9]] (w, d) [] = Some (s1, []) \<and>
    store_flush (\<lambda>bs. of_nat (length bs)) s1 [] = Some (True, (w2, d2), []) \<and>
    store_read (\<lambda>bs. of_nat (length bs)) (Pair True) (w2, d2) = Some [replicate 300 1, [9]] \<and>
    TruncateAt (\<lambda>bs. of_nat (length bs)) w2 d2 [] (LogWriter_Tell w d) = Some (True, w3, d3, []) \<and>
    store_read (\<lambda>bs. of_nat (length bs)) (Pair True) (w3, d3) = Some []"
proof -
  obtain w d where h: "lw_holds (\<lambda>bs. of_nat (length bs)) 64 2 0 w d [] [] []" using demo_started by blast
  have "splits_all [] (log_pieces [])" by simp
  from truncate_undoes_appends [OF h this, of id "[LogWrite (replicate 300 1), LogFlush, LogWrite [9]]" "Pair True"]
  show ?thesis by (simp only: log_records.simps append_Nil) blast
qed

text \<open>C19 (functional): following a log. A reader that has read a flushed log to its end stays usable: when
  records are appended and flushed later, it returns exactly the new ones. The same records
  are read by any reader that seeks to the position the writer had before they were
  appended, which is how the Raft leader fetches entries for its followers.\<close>

theorem log_followers_read_suffix:
  assumes "lw_holds crc bs bpf b w d G [] []" and "splits_all rs (log_pieces G)"
  shows "\<exists>r1 s1 w2 d2 r2 r3. ReadLog crc inflate d (NewReader w) = Some (rs, r1) \<and>
    log_run (store_write crc deflate) (store_flush crc) ops (w, d) [] = Some (s1, []) \<and>
    store_flush crc s1 [] = Some (True, (w2, d2), []) \<and>
    (\<exists>r4. ReadLog crc inflate d2 r1 = Some (log_records ops, r4)) \<and>
    Seek crc inflate d2 (NewReader w2) (LogWriter_Tell w d) = Some (True, r2) \<and>
    ReadLog crc inflate d2 r2 = Some (log_records ops, r3)"
proof -
  from log_grown [OF assms(1), of deflate ops] obtain s1 w2 d2 X where
    a: "log_run (store_write crc deflate) (store_flush crc) ops (w, d) [] = Some (s1, [])"
      "store_flush crc s1 [] = Some (True, (w2, d2), [])" "lw_holds crc bs bpf b w2 d2 (G @ X) [] []"
      "splits_all (log_records ops) (log_pieces X)" .
  have p: "LogWriter_Tell w d = block_pos b bpf (length G)" using Tell_holds [OF assms(1)] by (simp add: block_pos_def)
  have D: "dir_holds crc bs bpf b d G" "dir_holds crc bs bpf b d2 (G @ X)"
    using assms(1) a(3) by (simp_all add: lw_holds_def)
  have N: "lr_ready crc bs bpf b (NewReader w) G 0 [] []" "lr_ready crc bs bpf b (NewReader w2) (G @ X) 0 [] []"
    using lw_holds_sizes [OF assms(1)] lw_holds_sizes [OF a(3)] by (simp_all add: lr_ready_def NewReader_def)
  from ReadLog_records [OF D(1) N(1), of rs inflate] assms(2) obtain r1 where
    r1: "ReadLog crc inflate d (NewReader w) = Some (rs, r1)" "lr_holds crc bs bpf b r1 G (length G) [] []" by auto
  have sp: "splits_all (log_records ops) ([] @ log_pieces (drop (length G) (G @ X)))" using a(4) by simp
  have "lr_ready crc bs bpf b r1 (G @ X) (length G) [] []" using lr_holds_extend [OF r1(2)] by (simp add: lr_ready_def)
  from ReadLog_records [OF D(2) this sp, of inflate] obtain r4 where r4: "ReadLog crc inflate d2 r1 = Some (log_records ops, r4)" by auto
  from Seek_holds [OF D(2) N(2), of "length G" inflate] obtain r2 where
    r2: "Seek crc inflate d2 (NewReader w2) (block_pos b bpf (length G)) = Some (True, r2)"
      "lr_holds crc bs bpf b r2 (G @ X) (length G) [] []" by auto
  have "lr_ready crc bs bpf b r2 (G @ X) (length G) [] []" using r2(2) by (simp add: lr_ready_def)
  from ReadLog_records [OF D(2) this sp, of inflate] obtain r3 where "ReadLog crc inflate d2 r2 = Some (log_records ops, r3)" by auto
  with a r1(1) r4 r2(1) p show ?thesis by metis
qed

theorem log_followers_read_suffix_witness:
  "\<exists>w d r1 s1 w2 d2 r4. ReadLog (\<lambda>bs. of_nat (length bs)) (Pair True) d (NewReader w) = Some ([], r1) \<and>
    log_run (store_write (\<lambda>bs. of_nat (length bs)) id) (store_flush (\<lambda>bs. of_nat (length bs)))
      [LogWrite (replicate 300 1), LogFlush, LogWrite [9]] (w, d) [] = Some (s1, []) \<and>
    store_flush (\<lambda>bs. of_nat (length bs)) s1 [] = Some (True, (w2, d2), []) \<and>
    ReadLog (\<lambda>bs. of_nat (length bs)) (Pair True) d2 r1 = Some ([replicate 300 1, [9]], r4)"
proof -
  obtain w d where h: "lw_holds (\<lambda>bs. of_nat (length bs)) 64 2 0 w d [] [] []" using demo_started by blast
  have "splits_all [] (log_pieces [])" by simp
  from log_followers_read_suffix [OF h this, of "Pair True" id "[LogWrite (replicate 300 1), LogFlush, LogWrite [9]]"]
  show ?thesis by (simp only: log_records.simps) blast
qed

end
