(* ===== verification/LogFaults.thy ===== *)
theory LogFaults
  imports LogStore
begin

text \<open>
  Error behaviour of the log: the lock of a directory, and what a failing disk does to the
  writer and to a truncation.
\<close>

section \<open>The lock\<close>

text \<open>C20 (safety): one writer per directory. While the lock file names a running process,
  \<open>Initialize\<close> fails and touches nothing; otherwise a writer with usable parameters on a
  directory that holds a log takes the lock, so that as long as its process runs every
  further \<open>Initialize\<close> on the directory fails.\<close>

theorem Initialize_excludes:
  assumes "usable bs bpf dump" and "dir_holds crc bs bpf b d G" and "pid \<noteq> 0" and "running pid"
  shows "\<exists>w0. lw_new bs bpf False False dump = Some w0 \<and>
    (if unlocked running d
     then \<exists>w d'. LogWriter_Initialize running pid w0 d = Some (True, w, d') \<and>
       (\<forall>w' pid'. LogWriter_Initialize running pid' w' d' = Some (False, w', d'))
     else \<forall>w' pid'. LogWriter_Initialize running pid' w' d = Some (False, w', d))"
proof (cases "unlocked running d")
  case False
  then have "LogWriter_Initialize running pid' w' d = Some (False, w', d)" for w' pid'
    by (auto simp: unlocked_def LogWriter_Initialize_def)
  moreover obtain w0 where "lw_new bs bpf False False dump = Some w0" using lw_new_holds [OF assms(1)] by metis
  ultimately show ?thesis using False by auto
next
  case True
  from Initialize_existing [OF assms(1,2) True, of pid] obtain w0 w d' where
    i: "lw_new bs bpf False False dump = Some w0" "LogWriter_Initialize running pid w0 d = Some (True, w, d')"
      "lw_holds crc bs bpf b w d' G [] []" .
  let ?n = "b + int (length G div bpf)" and ?d = "d\<lparr>d_lock := Some pid\<rparr>"
  have w0: "lw_file w0 = None" "\<not> lw_temporary_incomplete_file w0" "lw_block_size w0 = bs" "lw_blocks_per_file w0 = bpf"
    using lw_new_holds [OF assms(1)] i(1) by (metis option.inject)+
  have dl: "dir_holds crc bs bpf b ?d G" by (rule dir_holds_cong [OF assms(2)]) simp_all
  have n: "GetLastNumberedFile ?d = ?n" "?n \<noteq> -1" "0 \<le> ?n"
    using dir_last_file(4) [OF dl] assms(2) by (simp_all add: dir_holds_def)
  have "length G mod bpf \<noteq> bpf" "0 < bs" using assms(1) mod_less_divisor [of bpf "length G"]
    by (auto simp: usable_def simp del: mod_less_divisor)
  then have "OpenNextLog (w0\<lparr>lw_file_num := ?n\<rparr>) ?d = Some (w, d') \<longrightarrow> d' = open_always ?d (False, ?n)"
    using OpenNextLog_here [of "w0\<lparr>lw_file_num := ?n\<rparr>" ?d] w0 n(3) dir_last_file(3) [OF dl] by (simp add: file_limit_def)
  then have "d' = open_always ?d (False, ?n)" using i(2) Initialize_unlocked [OF True, of pid w0] n by auto
  then have "d_lock d' = Some pid" by (simp add: open_always_def set_file_def)
  then have "LogWriter_Initialize running pid' w' d' = Some (False, w', d')" for w' pid'
    using assms(3,4) by (simp add: LogWriter_Initialize_def)
  with i True show ?thesis by auto
qed

theorem Initialize_excludes_witness:
  "\<exists>w0 w d'. lw_new 64 2 False False 40 = Some w0 \<and>
    LogWriter_Initialize (\<lambda>p. p = 7) 7 w0 (open_always empty_dir (False, 0)) = Some (True, w, d') \<and>
    LogWriter_Initialize (\<lambda>p. p = 7) 8 w0 d' = Some (False, w0, d')"
proof -
  have "dir_holds (\<lambda>bs. of_nat (length bs)) 64 2 0 (open_always empty_dir (False, 0)) []"
    by (rule dir_holds_empty) (simp_all add: empty_dir_def IsReadableFile_def)
  moreover have "unlocked (\<lambda>p. p = 7) (open_always empty_dir (False, 0))"
    by (simp add: unlocked_def open_always_def set_file_def empty_dir_def)
  moreover have "usable 64 2 40" by (simp add: usable_def kMaximumRecordBlockSize_def)
  ultimately show ?thesis
    using Initialize_excludes [of 64 2 40 "\<lambda>bs. of_nat (length bs)" 0 "open_always empty_dir (False, 0)" "[]" 7 "\<lambda>p. p = 7"]
    by auto
qed

section \<open>Writes that leave bytes behind\<close>

text \<open>A write that fails half-way stops the log. When \<open>File::Write\<close> returns an error after
  some bytes, not a whole number of blocks, reached the file, \<open>WriteBuffer\<close> puts the data back
  in its buffer but does not cut the file (it does so only for a short write). The file size
  is then no multiple of the block size, and every later attempt to write fails at once, even
  when the disk works again.\<close>

theorem dirty_failure_stops_writer:
  assumes h: "lw_holds crc bs bpf b w d G H cur" and "H \<noteq> []" and "n < length (lw_buf w)" and "n mod bs \<noteq> 0"
  shows "\<exists>d'. WriteBuffer w d (Failed n # os) = Some (False, w, d', os) \<and>
    (\<forall>os'. WriteBuffer w d' os' = Some (False, w, d', os'))"
proof -
  let ?f = "(False, lw_file_num w)"
  note f = lw_holds_facts [OF h] and sz = lw_holds_sizes [OF h]
  define d' where "d' = set_file d ?f (file_content d ?f @ take n (lw_buf w))"
  have "WriteBuffer w d (Failed n # os) = Some (False, w, d', os)"
    using WriteBuffer_step [OF h assms(2), of "Failed n # os"] by (simp add: next_outcome_def d'_def)
  moreover have "length (file_content d' ?f) mod bs = n mod bs"
    using f(4) sz assms(3) by (simp add: d'_def min_def)
  then have "length (file_content d' ?f) mod lw_block_size w \<noteq> 0" using assms(4) sz by simp
  moreover have "lw_file w = Some ?f" "lw_buf w \<noteq> []" using h f(6) assms(2) by (simp_all add: lw_holds_def)
  ultimately show ?thesis by (intro exI [of _ d'] conjI allI) (simp, subst WriteBuffer.simps, simp add: Let_def)
qed

text \<open>A log with a block that could not be written yet, for the instances below.\<close>

definition demo_block :: log_block where
  "demo_block = (0, [\<lparr>p_first = True, p_cont = False, p_data = [1]\<rparr>])"

lemma demo_pending: "\<exists>w d. lw_holds crc 64 2 0 w d [] [demo_block] []"
proof -
  obtain w d where h: "lw_holds crc 64 2 0 w d [] [] []" using demo_started by blast
  have "block_ok 64 (snd demo_block)" by (simp add: demo_block_def block_ok_def kMaximumRecordBlockSize_def)
  with h have "lw_holds crc 64 2 0 (w\<lparr>lw_buf := blk_bytes crc 64 demo_block\<rparr>) d [] [demo_block] []"
    by (auto simp: lw_holds_def demo_block_def)
  then show ?thesis by blast
qed

theorem dirty_failure_stops_writer_witness:
  "\<exists>w d d'. WriteBuffer w d [Failed 1] = Some (False, w, d', []) \<and> WriteBuffer w d' [] = Some (False, w, d', [])"
proof -
  obtain w d where h: "lw_holds (\<lambda>bs. of_nat (length bs)) 64 2 0 w d [] [demo_block] []" using demo_pending by blast
  then have "1 < length (lw_buf w)" using lw_holds_facts(5) [OF h] lw_holds_sizes [OF h] by simp
  with dirty_failure_stops_writer [OF h, of 1 "[]"] show ?thesis by auto
qed

text \<open>A truncation ignores that it could not write. \<open>TruncateAt\<close> flushes first and drops the
  result: when that write fails, it cuts the files and reports success, but the blocks that
  were to be cut are still in the writer's buffer, and the next flush appends them behind the
  position the log was truncated to.\<close>

theorem truncate_keeps_unwritten_blocks:
  assumes h: "lw_holds crc bs bpf b w d G H cur" and "H \<noteq> []" and j: "j \<le> length G"
  shows "\<exists>w' d' X. TruncateAt crc w d [Failed 0] (block_pos b bpf j) = Some (True, w', d', []) \<and>
    dir_holds crc bs bpf b d' (take j G) \<and> LogWriter_Tell w' d' = block_pos b bpf j \<and>
    lw_buf w' = blocks_bytes crc bs (H @ X) \<and> lw_buf w' \<noteq> []"
proof -
  let ?p = "block_pos b bpf j" and ?k = "b + int (j div bpf)"
  from finalize_recorder_holds [OF h] obtain w0 X where
    f: "finalize_recorder crc w = Some w0" "lw_holds crc bs bpf b w0 d G (H @ X) []" by metis
  note sz = lw_holds_sizes [OF f(2)]
  have w0: "\<not> lw_temporary_incomplete_file w0" "rw_holds (lw_recorder w0) []" "lw_file w0 \<noteq> None"
    "lw_buf w0 = blocks_bytes crc bs (H @ X)" "lw_buf w0 \<noteq> []"
    using f(2) lw_holds_facts(6) [OF f(2)] assms(2) by (auto simp: lw_holds_def)
  define d1 where "d1 = set_file d (False, lw_file_num w0) (file_content d (False, lw_file_num w0))"
  have wb: "WriteBuffer w0 d [Failed 0] = Some (False, w0, d1, [])"
    using WriteBuffer_step [OF f(2), of "[Failed 0]"] assms(2) by (simp add: next_outcome_def d1_def)
  have d: "dir_holds crc bs bpf b d G" and num: "lw_file_num w0 = b + int (length G div bpf)"
    using f(2) sz by (simp_all add: lw_holds_def)
  then have b: "0 \<le> b" "0 < bs" "0 < bpf" by (simp_all add: dir_holds_def)
  have D: "dir_holds crc bs bpf b d1 G"
    using dir_last_file(1) [OF d] num by (intro dir_holds_cong [OF d]) (auto simp: d1_def)
  define w1 where "w1 = w0\<lparr>lw_recorder := rw_Clear (lw_recorder w0), lw_file := None, lw_file_num := ?k\<rparr>"
  define d3 where "d3 = cut_files bs ?p d1"
  have dt: "dir_holds crc bs bpf b (open_always d3 (False, ?k)) (take j G)"
    using cut_files_facts [OF D j] by (simp add: d3_def)
  have ln: "length (take j G) = j" using j by simp
  have len: "length (file_content d3 (False, ?k)) = (j mod bpf) * bs" using dir_last_file(3) [OF dt] ln by simp
  define w3 where "w3 = w1\<lparr>lw_recorder := rw_Clear (lw_recorder w1), lw_file := Some (False, ?k)\<rparr>"
  have ne: "(j mod bpf) * bs \<noteq> bs * bpf" using b mod_less_divisor [of bpf j] by (auto simp del: mod_less_divisor)
  have op: "OpenNextLog w1 d3 = Some (w3, open_always d3 (False, ?k))"
    using OpenNextLog_here [of w1 d3] w0(1) b len sz ne by (simp add: w1_def w3_def file_limit_def)
  have cl: "CloseLog w0 d1 = (w0\<lparr>lw_recorder := rw_Clear (lw_recorder w0), lw_file := None\<rparr>, d1)"
    using w0 by (auto simp: CloseLog_def)
  have "\<not> lw_temporary_incomplete_file w" using h by (simp add: lw_holds_def)
  from TruncateAt_cut [OF this f(1) wb cl, of ?p]
  have "TruncateAt crc w d [Failed 0] ?p = Some (True, w3, open_always d3 (False, ?k), [])"
    using op b sz by (simp add: w1_def d3_def block_pos_def)
  moreover have "LogWriter_Tell w3 (open_always d3 (False, ?k)) = ?p"
    using w0(2) len sz ne b by (simp add: LogWriter_Tell_def w3_def w1_def block_pos_def file_limit_def Let_def
        PendingRecordCount_def rw_holds_def rw_Clear_def)
  moreover have "lw_buf w3 = lw_buf w0" by (simp add: w3_def w1_def)
  ultimately show ?thesis using dt w0(4,5) by (intro exI conjI) (assumption | simp)+
qed

theorem truncate_keeps_unwritten_blocks_witness:
  "\<exists>w d w' d'. TruncateAt (\<lambda>bs. of_nat (length bs)) w d [Failed 0] (block_pos 0 2 0) = Some (True, w', d', []) \<and> lw_buf w' \<noteq> []"
proof -
  obtain w d where h: "lw_holds (\<lambda>bs. of_nat (length bs)) 64 2 0 w d [] [demo_block] []" using demo_pending by blast
  from truncate_keeps_unwritten_blocks [OF h, of 0] show ?thesis by auto
qed

section \<open>Positions after a seek\<close>

text \<open>\<open>Seek\<close> to a block of the file that is already open keeps the record number of the old
  place, because \<open>AdvanceToPosInFile\<close> resets it only when it skips records. A reader that had
  returned a record and then seeks back to a block reports a position one block too low,
  with a record number that does not belong to it.\<close>

theorem Seek_keeps_record_number:
  assumes "lr_file r = Some q" and "lr_file_num r = n" and "0 \<le> n" and "0 < k" and "0 < lr_record_num r"
    and "0 < lr_block_size r"
  shows "\<exists>r'. Seek crc inflate d r \<lparr>file_num = n, block_num = int k, record_num = 0\<rparr> = Some (True, r') \<and>
    LogReader_Tell r' = \<lparr>file_num = n, block_num = int k - 1, record_num = lr_record_num r\<rparr> \<and>
    TellAtBlock r' = \<lparr>file_num = n, block_num = int k, record_num = 0\<rparr>"
  using assms
  by (auto simp: Seek_def LogPos_IsNull_def OpenFile_def AdvanceToPosInFile_def Let_def LogReader_Tell_def TellAtBlock_def)

theorem Seek_keeps_record_number_witness:
  "\<exists>r'. Seek (\<lambda>bs. 0) (Pair True) empty_dir ((lr_new 64 4)\<lparr>lr_file := Some 128, lr_file_num := 0, lr_record_num := 3\<rparr>)
      \<lparr>file_num = 0, block_num = 1, record_num = 0\<rparr> = Some (True, r') \<and>
    LogReader_Tell r' = \<lparr>file_num = 0, block_num = 0, record_num = 3\<rparr>"
  using Seek_keeps_record_number [of "(lr_new 64 4)\<lparr>lr_file := Some 128, lr_file_num := 0, lr_record_num := 3\<rparr>" 128 0 1
      "\<lambda>bs. 0" "Pair True" empty_dir]
  by (auto simp: lr_new_def)

end
