(* ===== verification/RaftTypes.thy ===== *)
theory RaftTypes
  imports LogIO "HOL-Library.Monad_Syntax"
begin

text \<open>
  The data of the Raft service: the messages of \<open>src/whisperlib/raft/RaftProto.proto\<close>, the
  conversion of log positions (\<open>PosToProto\<close>, \<open>PosFromProto\<close>) and the state of
  \<open>raft::Node\<close> and \<open>raft::Server\<close> (\<open>src/whisperlib/raft/raft_server.{h,cc}\<close>).

  A protobuf message is a record of its fields; an optional field is an option. How a
  message becomes bytes is protobuf's: serialization and parsing of log entries are fields
  of the environment, together with the CRC and the compressor of the log. Messages a
  server sends are appended to \<open>s_out\<close>, answers to delayed client calls to \<open>s_answered\<close>;
  the state file is the field \<open>s_state_file\<close>.
\<close>

section \<open>Messages\<close>

record pb_LogPos =
  pb_file_num :: "int option"
  pb_block_num :: "int option"
  pb_record_num :: "int option"
  pb_is_null :: "bool option"

definition pb_LogPos_empty :: pb_LogPos where
  "pb_LogPos_empty = \<lparr>pb_file_num = None, pb_block_num = None, pb_record_num = None, pb_is_null = None\<rparr>"

definition PosToProto :: "LogPos \<Rightarrow> pb_LogPos" where
  "PosToProto l =
     (if LogPos_IsNull l then pb_LogPos_empty\<lparr>pb_is_null := Some True\<rparr>
      else pb_LogPos_empty\<lparr>pb_file_num := (if file_num l \<noteq> 0 then Some (file_num l) else None),
             pb_block_num := (if block_num l \<noteq> 0 then Some (block_num l) else None),
             pb_record_num := (if record_num l \<noteq> 0 then Some (record_num l) else None)\<rparr>)"

definition pb_get :: "'a \<Rightarrow> 'a option \<Rightarrow> 'a" where
  "pb_get dflt x = (case x of None \<Rightarrow> dflt | Some v \<Rightarrow> v)"

definition PosFromProto :: "pb_LogPos \<Rightarrow> LogPos" where
  "PosFromProto p =
     (if pb_get False (pb_is_null p) then LogPos_null
      else \<lparr>file_num = pb_get 0 (pb_file_num p), block_num = pb_get 0 (pb_block_num p),
             record_num = pb_get 0 (pb_record_num p)\<rparr>)"

record RaftState =
  rs_current_term :: int
  rs_voted_for :: "int option"
  rs_last_log_pos :: "pb_LogPos option"
  rs_last_log_term :: "int option"
  rs_commit_pos :: "pb_LogPos option"

record DataEntry =
  e_pos :: pb_LogPos
  e_last_log_pos :: pb_LogPos
  e_term :: int
  e_last_log_term :: int
  e_data :: bytes

definition DataEntry_empty :: DataEntry where
  "DataEntry_empty = \<lparr>e_pos = pb_LogPos_empty, e_last_log_pos = pb_LogPos_empty, e_term = 0,
     e_last_log_term = 0, e_data = []\<rparr>"

record RequestVote =
  rv_term :: int
  rv_candidate_id :: int
  rv_last_log_pos :: pb_LogPos
  rv_last_log_term :: int

record RequestVoteResponse =
  rvr_term :: int
  rvr_vote_granted :: bool

record AppendEntries =
  ae_term :: int
  ae_leader_id :: int
  ae_last_log_pos :: "pb_LogPos option"
  ae_last_log_term :: int
  ae_leader_commit_pos :: pb_LogPos
  ae_entry :: "DataEntry list"

record AppendEntriesResponse =
  aer_term :: int
  aer_success :: bool
  aer_current_pos :: "pb_LogPos option"
  aer_commit_pos :: "pb_LogPos option"

record Data =
  dt_data :: bytes
  dt_wait_to_commit :: bool

record DataResponse =
  dr_pos :: "pb_LogPos option"
  dr_term :: "int option"
  dr_was_committed :: "bool option"
  dr_leader_name :: "string option"

definition DataResponse_empty :: DataResponse where
  "DataResponse_empty = \<lparr>dr_pos = None, dr_term = None, dr_was_committed = None, dr_leader_name = None\<rparr>"

section \<open>Nodes and servers\<close>

record raft_env =
  env_crc :: "bytes \<Rightarrow> 32 word"
  env_deflate :: "bytes \<Rightarrow> bytes"
  env_inflate :: "bytes \<Rightarrow> bool \<times> bytes"
  env_serialize :: "DataEntry \<Rightarrow> bytes"
  env_parse :: "bytes \<Rightarrow> DataEntry option"

record Node =
  n_name :: string
  n_votes_for_me :: bool
  n_next_log_pos :: LogPos
  n_last_log_pos :: LogPos
  n_last_log_term :: int
  n_match_log_pos :: LogPos
  n_log_reader :: LogReader
  n_entry :: DataEntry
  n_in_transfer :: bool

definition Node_new :: "string \<Rightarrow> LogReader \<Rightarrow> Node" where
  "Node_new name reader =
     \<lparr>n_name = name, n_votes_for_me = False, n_next_log_pos = LogPos_null, n_last_log_pos = LogPos_null,
      n_last_log_term = 0, n_match_log_pos = LogPos_null, n_log_reader = reader,
      n_entry = DataEntry_empty, n_in_transfer = False\<rparr>"

datatype raft_state = RAFT_STATE_NONE | RAFT_STATE_FOLLOWER | RAFT_STATE_CANDIDATE | RAFT_STATE_LEADER

datatype state_file = NoFile | Unparsable | StateFile RaftState

datatype out_message =
    OutVote nat RequestVote
  | OutAppend nat AppendEntries

record Server =
  s_node_id :: nat
  s_nodes :: "Node list"
  s_current_term :: int
  s_voted_for :: int
  s_last_log_pos :: LogPos
  s_last_log_term :: int
  s_leader_id :: int
  s_state :: raft_state
  s_commit_pos :: LogPos
  s_election_timeout_elapsed_ns :: int
  s_heartbeat_elapsed_ns :: int
  s_election_timeout_ms :: int
  s_commit_waiters :: "(LogPos \<times> nat \<times> DataResponse) list"
  s_candidate_votes_out :: int
  s_max_entries_size :: nat
  s_log_writer :: LogWriter
  s_dir :: log_dir
  s_os :: "write_outcome list"
  s_state_file :: state_file
  s_out :: "out_message list"
  s_answered :: "(nat \<times> DataResponse) list"

abbreviation is_follower :: "Server \<Rightarrow> bool" where
  "is_follower s \<equiv> s_state s = RAFT_STATE_FOLLOWER"

abbreviation is_candidate :: "Server \<Rightarrow> bool" where
  "is_candidate s \<equiv> s_state s = RAFT_STATE_CANDIDATE"

abbreviation is_leader :: "Server \<Rightarrow> bool" where
  "is_leader s \<equiv> s_state s = RAFT_STATE_LEADER"

text \<open>
  The constructor. \<open>candidate_votes_out\<close> is not initialized by the code; its first value is
  an argument.
\<close>

definition Server_new :: "LogWriter \<Rightarrow> log_dir \<Rightarrow> state_file \<Rightarrow> write_outcome list \<Rightarrow> int \<Rightarrow> Server" where
  "Server_new lw d sf os votes_out =
     \<lparr>s_node_id = 0, s_nodes = [], s_current_term = 0, s_voted_for = -1, s_last_log_pos = LogPos_null,
      s_last_log_term = 0, s_leader_id = -1, s_state = RAFT_STATE_FOLLOWER, s_commit_pos = LogPos_null,
      s_election_timeout_elapsed_ns = 0, s_heartbeat_elapsed_ns = 0, s_election_timeout_ms = 2000,
      s_commit_waiters = [], s_candidate_votes_out = votes_out, s_max_entries_size = 2 ^ 20,
      s_log_writer = lw, s_dir = d, s_os = os, s_state_file = sf, s_out = [], s_answered = []\<rparr>"

definition log_Tell :: "Server \<Rightarrow> LogPos" where
  "log_Tell s = LogWriter_Tell (s_log_writer s) (s_dir s)"

definition upd_node :: "nat \<Rightarrow> (Node \<Rightarrow> Node) \<Rightarrow> Server \<Rightarrow> Server" where
  "upd_node i f s = s\<lparr>s_nodes := (s_nodes s)[i := f (s_nodes s ! i)]\<rparr>"

section \<open>Reading the log for a node\<close>

definition ReadCurrent :: "raft_env \<Rightarrow> log_dir \<Rightarrow> Node \<Rightarrow> (bool \<times> Node) option" where
  "ReadCurrent env d nd = do {
     (more, rdr, out) \<leftarrow> GetNextRecord (env_crc env) (env_inflate env) d (n_log_reader nd) (Some []);
     (let nd1 = nd\<lparr>n_log_reader := rdr\<rparr>
      in if \<not> more then Some (False, nd1)
         else case env_parse env (pb_get [] out) of
             None \<Rightarrow> Some (False, nd1\<lparr>n_entry := DataEntry_empty\<rparr>)
           | Some e \<Rightarrow> Some (True, nd1\<lparr>n_entry := e\<rparr>))
   }"

definition node_Seek :: "raft_env \<Rightarrow> log_dir \<Rightarrow> Node \<Rightarrow> LogPos \<Rightarrow> (bool \<times> Node) option" where
  "node_Seek env d nd p =
     map_option (apsnd (\<lambda>r. nd\<lparr>n_log_reader := r\<rparr>)) (Seek (env_crc env) (env_inflate env) d (n_log_reader nd) p)"

definition PullNext :: "raft_env \<Rightarrow> log_dir \<Rightarrow> Node \<Rightarrow> Node option" where
  "PullNext env d nd = do {
     (ok, nd1) \<leftarrow> node_Seek env d nd (n_next_log_pos nd);
     (if \<not> ok then None else do {
       (ok2, nd2) \<leftarrow> ReadCurrent env d nd1;
       (if ok2 then Some nd2 else None)
     })
   }"

definition SetPositionsFromEntry :: "Node \<Rightarrow> Node" where
  "SetPositionsFromEntry nd =
     nd\<lparr>n_next_log_pos := TellAtBlock (n_log_reader nd), n_last_log_pos := PosFromProto (e_pos (n_entry nd)),
        n_last_log_term := e_term (n_entry nd)\<rparr>"

end
