(* ===== verification/Raft.thy ===== *)
theory Raft
  imports RaftTypes
begin

text \<open>
  The handlers of \<open>raft::Server\<close> (\<open>src/whisperlib/raft/raft_server.cc\<close>): elections, log
  replication, client requests and the persistent state. Each handler is the whole critical
  section of the corresponding method; \<open>now\<close> is the clock (\<open>timer::TicksNsec\<close>), times in
  \<open>double\<close> are computed in integers, and a failed \<open>CHECK\<close> is \<open>None\<close>.
\<close>

section \<open>Persistent state and timers\<close>

definition SaveStateLocked :: "Server \<Rightarrow> Server" where
  "SaveStateLocked s =
     s\<lparr>s_state_file := StateFile
         \<lparr>rs_current_term = s_current_term s,
          rs_voted_for = (if s_voted_for s \<ge> 0 then Some (s_voted_for s) else None),
          rs_last_log_pos = Some (PosToProto (s_last_log_pos s)),
          rs_last_log_term = Some (s_last_log_term s),
          rs_commit_pos = Some (PosToProto (s_commit_pos s))\<rparr>\<rparr>"

definition LoadStateLocked :: "Server \<Rightarrow> bool \<times> Server" where
  "LoadStateLocked s =
     (case s_state_file s of
        NoFile \<Rightarrow> (\<not> block_num (log_Tell s) > 0, s)
      | Unparsable \<Rightarrow> (False, s)
      | StateFile st \<Rightarrow>
          (True, s\<lparr>s_current_term := rs_current_term st,
                   s_voted_for := pb_get (-1) (rs_voted_for st),
                   s_last_log_pos := (case rs_last_log_pos st of Some p \<Rightarrow> PosFromProto p | None \<Rightarrow> LogPos_null),
                   s_last_log_term := (case rs_last_log_pos st of Some p \<Rightarrow> pb_get 0 (rs_last_log_term st) | None \<Rightarrow> 0),
                   s_commit_pos := (case rs_commit_pos st of Some p \<Rightarrow> PosFromProto p | None \<Rightarrow> LogPos_null)\<rparr>))"

definition SetElectionElapseTimeout :: "int \<Rightarrow> Server \<Rightarrow> Server" where
  "SetElectionElapseTimeout now s =
     s\<lparr>s_election_timeout_elapsed_ns :=
         now + s_election_timeout_ms s * 1000000 * (10 + now mod 10) div 10\<rparr>"

definition Server_Initialize :: "int \<Rightarrow> nat \<Rightarrow> string list \<Rightarrow> Server \<Rightarrow> (bool \<times> Server) option" where
  "Server_Initialize now node_id nodes s =
     (if s_nodes s \<noteq> [] \<or> \<not> node_id < length nodes then None
      else case LoadStateLocked s of
        (False, s1) \<Rightarrow> Some (False, s1)
      | (True, s1) \<Rightarrow>
          Some (True, SetElectionElapseTimeout now
            (s1\<lparr>s_node_id := node_id,
                s_nodes := map (\<lambda>nm. Node_new nm (NewReader (s_log_writer s1))) nodes\<rparr>)))"

section \<open>Sending\<close>

definition FillAppendEntriesLocked :: "Server \<Rightarrow> Node \<Rightarrow> AppendEntries option" where
  "FillAppendEntriesLocked s nd =
     (if \<not> is_leader s then None
      else Some \<lparr>ae_term = s_current_term s, ae_leader_id = int (s_node_id s),
                 ae_last_log_pos = Some (PosToProto (n_last_log_pos nd)),
                 ae_last_log_term = n_last_log_term nd,
                 ae_leader_commit_pos = PosToProto (s_commit_pos s), ae_entry = []\<rparr>)"

definition SendAppendLocked :: "nat \<Rightarrow> AppendEntries \<Rightarrow> Server \<Rightarrow> Server option" where
  "SendAppendLocked i req s =
     (if n_in_transfer (s_nodes s ! i) then None
      else Some ((upd_node i (\<lambda>nd. nd\<lparr>n_in_transfer := True\<rparr>) s)\<lparr>s_out := s_out s @ [OutAppend i req]\<rparr>))"

text \<open>Entries are pulled from the log until the node is up to date or the message is large.\<close>

partial_function (option) pull_entries ::
    "raft_env \<Rightarrow> log_dir \<Rightarrow> LogPos \<Rightarrow> nat \<Rightarrow> Node \<Rightarrow> DataEntry list \<Rightarrow> nat \<Rightarrow> (Node \<times> DataEntry list) option" where
  "pull_entries env d tell max_size nd es sz =
     (if n_next_log_pos nd < tell \<and> sz < max_size then
        Option.bind (PullNext env d nd) (\<lambda>nd1.
          pull_entries env d tell max_size (SetPositionsFromEntry nd1) (es @ [n_entry nd1])
            (sz + length (env_serialize env (n_entry nd1))))
      else Some (nd, es))"

definition SendAppendEntriesToNodeLocked :: "raft_env \<Rightarrow> nat \<Rightarrow> bool \<Rightarrow> nat \<Rightarrow> Server \<Rightarrow> Server option" where
  "SendAppendEntriesToNodeLocked env i is_filled max_size s =
     (let nd = s_nodes s ! i in
      if n_in_transfer nd then Some s
      else do {
        req \<leftarrow> FillAppendEntriesLocked s nd;
        (nd1, es) \<leftarrow> (if \<not> is_filled then pull_entries env (s_dir s) (log_Tell s) max_size nd [] 0
                       else Some (SetPositionsFromEntry nd, [n_entry nd]));
        SendAppendLocked i (req\<lparr>ae_entry := es\<rparr>) (upd_node i (\<lambda>_. nd1) s)
      })"

fun send_to_nodes :: "raft_env \<Rightarrow> (Server \<Rightarrow> nat \<Rightarrow> bool) \<Rightarrow> nat list \<Rightarrow> Server \<Rightarrow> Server option" where
  "send_to_nodes env sel [] s = Some s"
| "send_to_nodes env sel (i # is) s =
     (if sel s i then Option.bind (SendAppendEntriesToNodeLocked env i False (s_max_entries_size s) s)
                        (send_to_nodes env sel is)
      else send_to_nodes env sel is s)"

definition SendHeartbeatToFollowersLocked :: "raft_env \<Rightarrow> int \<Rightarrow> Server \<Rightarrow> Server option" where
  "SendHeartbeatToFollowersLocked env now s =
     (if \<not> is_leader s then None
      else map_option (\<lambda>s1. s1\<lparr>s_heartbeat_elapsed_ns := now + s_election_timeout_ms s1 * 200000\<rparr>)
             (send_to_nodes env (\<lambda>s' i. i \<noteq> s_node_id s' \<and> \<not> n_in_transfer (s_nodes s' ! i))
               [0..<length (s_nodes s)] s))"

definition SendRequestVoteLocked :: "Server \<Rightarrow> Server" where
  "SendRequestVoteLocked s =
     (let req = \<lparr>rv_term = s_current_term s, rv_candidate_id = int (s_node_id s),
                 rv_last_log_pos = PosToProto (s_last_log_pos s), rv_last_log_term = s_last_log_term s\<rparr>;
          others = filter (\<lambda>i. i \<noteq> s_node_id s) [0..<length (s_nodes s)]
      in s\<lparr>s_candidate_votes_out := s_candidate_votes_out s + int (length others),
           s_out := s_out s @ map (\<lambda>i. OutVote i req) others\<rparr>)"

section \<open>Changing state\<close>

definition BecomeCandidateLocked :: "int \<Rightarrow> Server \<Rightarrow> Server option" where
  "BecomeCandidateLocked now s =
     (if is_leader s then None
      else let s1 = s\<lparr>s_state := RAFT_STATE_CANDIDATE, s_voted_for := int (s_node_id s), s_leader_id := -1,
                     s_nodes := map (\<lambda>nd. nd\<lparr>n_votes_for_me := False\<rparr>) (s_nodes s)\<rparr>;
               s2 = upd_node (s_node_id s1) (\<lambda>nd. nd\<lparr>n_votes_for_me := True\<rparr>) s1;
               s3 = s2\<lparr>s_current_term := s_current_term s2 + 1\<rparr>
           in Some (SaveStateLocked (SendRequestVoteLocked (SetElectionElapseTimeout now s3))))"

definition BecomeFollowerLocked :: "int \<Rightarrow> Server \<Rightarrow> Server" where
  "BecomeFollowerLocked leader s =
     SaveStateLocked (s\<lparr>s_state := RAFT_STATE_FOLLOWER, s_voted_for := leader, s_leader_id := leader\<rparr>)"

definition UpdateCurrentTermLocked :: "int \<Rightarrow> int \<Rightarrow> Server \<Rightarrow> Server" where
  "UpdateCurrentTermLocked trm leader s =
     (let s1 = s\<lparr>s_current_term := trm\<rparr>
      in if \<not> is_follower s1 then BecomeFollowerLocked leader s1 else SaveStateLocked s1)"

definition LogPos_zero :: LogPos where
  "LogPos_zero = \<lparr>file_num = 0, block_num = 0, record_num = 0\<rparr>"

definition BecomeLeaderLocked :: "raft_env \<Rightarrow> int \<Rightarrow> Server \<Rightarrow> Server option" where
  "BecomeLeaderLocked env now s =
     (if \<not> is_candidate s then None
      else do {
        (ok, me) \<leftarrow> node_Seek env (s_dir s) (s_nodes s ! s_node_id s) (s_last_log_pos s);
        (if \<not> ok then None else do {
          me1 \<leftarrow> (if LogPos_IsNull (s_last_log_pos s) then Some (me\<lparr>n_next_log_pos := LogPos_zero\<rparr>)
                   else do {
                     (ok2, nd) \<leftarrow> ReadCurrent env (s_dir s) me;
                     (if ok2 then Some (nd\<lparr>n_next_log_pos := TellAtBlock (n_log_reader nd)\<rparr>) else None)
                   });
          (let me2 = me1\<lparr>n_last_log_pos := s_last_log_pos s, n_last_log_term := s_last_log_term s,
                         n_match_log_pos := s_last_log_pos s\<rparr>;
               nodes1 = map (\<lambda>nd. nd\<lparr>n_next_log_pos := n_next_log_pos me2, n_last_log_pos := n_last_log_pos me2,
                                     n_last_log_term := n_last_log_term me2, n_match_log_pos := LogPos_null\<rparr>)
                          (s_nodes s);
               s1 = s\<lparr>s_state := RAFT_STATE_LEADER, s_voted_for := int (s_node_id s),
                      s_leader_id := int (s_node_id s), s_nodes := nodes1[s_node_id s := me2]\<rparr>
           in SendHeartbeatToFollowersLocked env now (SaveStateLocked s1))
        })
      })"

definition PeriodicCheck :: "raft_env \<Rightarrow> int \<Rightarrow> Server \<Rightarrow> Server option" where
  "PeriodicCheck env now s =
     (if is_leader s then
        if s_heartbeat_elapsed_ns s < now
        then map_option (\<lambda>s1. s1\<lparr>s_heartbeat_elapsed_ns := now + s_election_timeout_ms s1 * 200000\<rparr>)
               (SendHeartbeatToFollowersLocked env now s)
        else Some s
      else if s_election_timeout_elapsed_ns s < now then BecomeCandidateLocked now s
      else Some s)"

section \<open>Voting\<close>

definition Vote :: "RequestVote \<Rightarrow> Server \<Rightarrow> RequestVoteResponse \<times> Server" where
  "Vote req s =
     (let granted =
            (if rv_candidate_id req < 0 \<or> rv_candidate_id req \<ge> int (length (s_nodes s)) then False
             else if s_current_term s < rv_term req \<and> PosFromProto (rv_last_log_pos req) \<ge> s_commit_pos s then True
             else if rv_term req < s_current_term s \<or> s_voted_for s \<noteq> -1 \<or>
                     PosFromProto (rv_last_log_pos req) < s_last_log_pos s then False
             else True);
          s1 = (if granted
                then SaveStateLocked (s\<lparr>s_voted_for := rv_candidate_id req, s_current_term := rv_term req\<rparr>)
                else s)
      in (\<lparr>rvr_term = s_current_term s1, rvr_vote_granted = granted\<rparr>, s1))"

definition finish_vote :: "Server \<Rightarrow> Server" where
  "finish_vote s =
     (let s1 = s\<lparr>s_candidate_votes_out := s_candidate_votes_out s - 1\<rparr>
      in if s_candidate_votes_out s1 = 0 \<and> is_candidate s1 then BecomeFollowerLocked (-1) s1 else s1)"

text \<open>
  The count of votes assigns \<open>votes_for_me\<close> of every node (\<open>votes_for_me_ = true\<close>) and so
  counts every node.
\<close>

definition count_votes :: "Server \<Rightarrow> nat \<times> Server" where
  "count_votes s =
     (let s1 = s\<lparr>s_nodes := map (\<lambda>nd. nd\<lparr>n_votes_for_me := True\<rparr>) (s_nodes s)\<rparr>
      in (sum_list (map (\<lambda>nd. if n_votes_for_me nd then 1 else 0) (s_nodes s1)), s1))"

definition ProcessRequestVoteResponse ::
    "raft_env \<Rightarrow> int \<Rightarrow> nat \<Rightarrow> bool \<Rightarrow> RequestVoteResponse \<Rightarrow> Server \<Rightarrow> Server option" where
  "ProcessRequestVoteResponse env now i failed resp s =
     map_option finish_vote
       (if \<not> failed \<and> is_candidate s \<and> rvr_vote_granted resp then
          (case count_votes (upd_node i (\<lambda>nd. nd\<lparr>n_votes_for_me := True\<rparr>) s) of
             (num_votes_for_me, s1) \<Rightarrow>
               if num_votes_for_me \<ge> length (s_nodes s1) div 2 + 1 then BecomeLeaderLocked env now s1
               else Some s1)
        else Some s)"

section \<open>Commit position and waiters\<close>

fun advance_waiters ::
    "LogPos \<Rightarrow> (LogPos \<times> nat \<times> DataResponse) list \<Rightarrow>
     (nat \<times> DataResponse) list \<times> (LogPos \<times> nat \<times> DataResponse) list" where
  "advance_waiters commit [] = ([], [])"
| "advance_waiters commit ((p, c, r) # ws) =
     (if p \<le> commit
      then apfst (Cons (c, r\<lparr>dr_was_committed := Some True\<rparr>)) (advance_waiters commit ws)
      else ([], (p, c, r) # ws))"

definition AdvanceWaitersLocked :: "Server \<Rightarrow> Server" where
  "AdvanceWaitersLocked s =
     (case advance_waiters (s_commit_pos s) (s_commit_waiters s) of
        (answered, rest) \<Rightarrow> s\<lparr>s_answered := s_answered s @ answered, s_commit_waiters := rest\<rparr>)"

definition ClearWaitersLocked :: "Server \<Rightarrow> Server" where
  "ClearWaitersLocked s =
     s\<lparr>s_answered := s_answered s @ map snd (s_commit_waiters s), s_commit_waiters := []\<rparr>"

definition commit_positions :: "Server \<Rightarrow> LogPos list" where
  "commit_positions s = (map n_match_log_pos (s_nodes s))[s_node_id s := s_last_log_pos s]"

definition MaybeAdvanceCommitLocked :: "Server \<Rightarrow> (bool \<times> Server) option" where
  "MaybeAdvanceCommitLocked s =
     (if \<not> is_leader s then None
      else let positions = sort (commit_positions s);
               can_commit = positions ! ((length positions - 1) div 2)
           in if can_commit \<le> s_commit_pos s then Some (False, s)
              else Some (True, AdvanceWaitersLocked (SaveStateLocked (s\<lparr>s_commit_pos := can_commit\<rparr>))))"

section \<open>Replication\<close>

definition set_log :: "LogWriter \<Rightarrow> log_dir \<Rightarrow> write_outcome list \<Rightarrow> Server \<Rightarrow> Server" where
  "set_log w d os s = s\<lparr>s_log_writer := w, s_dir := d, s_os := os\<rparr>"

definition log_WriteRecord :: "raft_env \<Rightarrow> DataEntry \<Rightarrow> Server \<Rightarrow> (bool \<times> Server) option" where
  "log_WriteRecord env e s =
     map_option (\<lambda>(ok, w, d, os). (ok, set_log w d os s))
       (WriteRecord (env_crc env) (env_deflate env) (s_log_writer s) (s_dir s) (s_os s) (env_serialize env e))"

definition log_Flush :: "raft_env \<Rightarrow> Server \<Rightarrow> (bool \<times> Server) option" where
  "log_Flush env s =
     map_option (\<lambda>(ok, w, d, os). (ok, set_log w d os s))
       (LogWriter_Flush (env_crc env) (s_log_writer s) (s_dir s) (s_os s))"

definition log_TruncateAt :: "raft_env \<Rightarrow> LogPos \<Rightarrow> Server \<Rightarrow> (bool \<times> Server) option" where
  "log_TruncateAt env p s =
     map_option (\<lambda>(ok, w, d, os). (ok, set_log w d os s))
       (TruncateAt (env_crc env) (s_log_writer s) (s_dir s) (s_os s) p)"

text \<open>The last part of \<open>MaybeTrucateLogAfterLocked\<close>, once the previous entry is known to match.\<close>

definition truncate_behind :: "raft_env \<Rightarrow> LogPos \<Rightarrow> Server \<Rightarrow> (bool \<times> Server) option" where
  "truncate_behind env prev_pos s =
     (let at = TellAtBlock (n_log_reader (s_nodes s ! s_node_id s)) in
      if log_Tell s > at then
        if at < s_commit_pos s then Some (False, s)
        else map_option (\<lambda>(_, s1). (True, s1))
               (log_TruncateAt env at (SaveStateLocked (s\<lparr>s_last_log_pos := prev_pos\<rparr>)))
      else Some (True, s\<lparr>s_last_log_pos := prev_pos\<rparr>))"

definition MaybeTrucateLogAfterLocked ::
    "raft_env \<Rightarrow> int \<Rightarrow> LogPos \<Rightarrow> Server \<Rightarrow> (bool \<times> Server) option" where
  "MaybeTrucateLogAfterLocked env prev_term prev_pos s =
     (let writer_pos = log_Tell s;
          is_first_pos = (writer_pos = prev_pos \<and> writer_pos = LogPos_zero)
      in if writer_pos \<le> prev_pos \<and> \<not> is_first_pos then Some (False, s)
         else do {
           (ok, me) \<leftarrow> node_Seek env (s_dir s) (s_nodes s ! s_node_id s) prev_pos;
           (let s1 = upd_node (s_node_id s) (\<lambda>_. me) s in
            if \<not> ok then Some (False, s1)
            else if \<not> LogPos_IsNull prev_pos \<and> \<not> is_first_pos then do {
              (ok2, me2) \<leftarrow> ReadCurrent env (s_dir s1) me;
              (let s2 = upd_node (s_node_id s) (\<lambda>_. me2) s1 in
               if \<not> ok2 then Some (False, s2)
               else if e_term (n_entry me2) \<noteq> prev_term then Some (False, s2)
               else truncate_behind env prev_pos s2)
            }
            else if LogPos_IsNull writer_pos \<or> writer_pos = LogPos_zero
            then Some (True, s1\<lparr>s_last_log_pos := prev_pos\<rparr>)
            else truncate_behind env prev_pos s1)
         })"

fun append_entries_loop ::
    "raft_env \<Rightarrow> LogPos \<Rightarrow> DataEntry list \<Rightarrow> LogPos \<Rightarrow> int \<Rightarrow> Server \<Rightarrow> (bool \<times> LogPos \<times> int \<times> Server) option" where
  "append_entries_loop env start_pos [] prev_pos prev_term s = Some (True, prev_pos, prev_term, s)"
| "append_entries_loop env start_pos (e # es) prev_pos prev_term s =
     Option.bind (log_WriteRecord env e s) (\<lambda>(ok, s1).
       if \<not> ok then map_option (\<lambda>(_, s2). (False, prev_pos, prev_term, s2)) (log_TruncateAt env start_pos s1)
       else Option.bind (log_Flush env s1) (\<lambda>(_, s2).
              append_entries_loop env start_pos es (if es = [] then log_Tell s else prev_pos) (e_term e) s2))"

definition AppendRequestEntriesLocked :: "raft_env \<Rightarrow> AppendEntries \<Rightarrow> Server \<Rightarrow> (bool \<times> Server) option" where
  "AppendRequestEntriesLocked env req s =
     Option.bind (append_entries_loop env (log_Tell s) (ae_entry req) LogPos_null 0 s)
       (\<lambda>(ok, prev_pos, prev_term, s1).
          if ok \<and> ae_entry req \<noteq> []
          then Some (ok, s1\<lparr>s_last_log_pos := prev_pos, s_last_log_term := prev_term\<rparr>)
          else Some (ok, s1))"

text \<open>The term and leader part of \<open>Append\<close>.\<close>

definition append_term :: "AppendEntries \<Rightarrow> Server \<Rightarrow> Server" where
  "append_term req s =
     (if ae_term req = s_current_term s then
        if is_candidate s then BecomeFollowerLocked (ae_leader_id req) s
        else if s_leader_id s \<noteq> ae_leader_id req
        then SaveStateLocked (s\<lparr>s_leader_id := ae_leader_id req\<rparr>)
        else s
      else UpdateCurrentTermLocked (ae_term req) (ae_leader_id req) s)"

text \<open>The log part of \<open>Append\<close>: success, whether to save, and the new state.\<close>

definition append_log :: "raft_env \<Rightarrow> AppendEntries \<Rightarrow> Server \<Rightarrow> (bool \<times> bool \<times> Server) option" where
  "append_log env req s =
     (let last_log_pos = (case ae_last_log_pos req of Some p \<Rightarrow> PosFromProto p | None \<Rightarrow> LogPos_null)
      in if ae_entry req = [] then
           Some (s_last_log_pos s = last_log_pos \<and> s_last_log_term s = ae_last_log_term req, False, s)
         else
           Option.bind (MaybeTrucateLogAfterLocked env (ae_last_log_term req) last_log_pos s) (\<lambda>(ok, s1).
             if \<not> ok then Some (False, False, s1)
             else map_option (\<lambda>(ok2, s2). (ok2, ok2, s2)) (AppendRequestEntriesLocked env req s1)))"

definition append_commit :: "AppendEntries \<Rightarrow> bool \<Rightarrow> bool \<Rightarrow> Server \<Rightarrow> bool \<times> Server" where
  "append_commit req success need_save s =
     (let new_commit_pos = PosFromProto (ae_leader_commit_pos req);
          advance = (success \<and> new_commit_pos > s_commit_pos s \<and> new_commit_pos \<le> s_last_log_pos s);
          s1 = (if advance then s\<lparr>s_commit_pos := new_commit_pos\<rparr> else s)
      in (advance, if success \<and> (need_save \<or> advance) then SaveStateLocked s1 else s1))"

definition Append ::
    "raft_env \<Rightarrow> int \<Rightarrow> AppendEntries \<Rightarrow> Server \<Rightarrow> (AppendEntriesResponse \<times> bool \<times> Server) option" where
  "Append env now req s =
     (if ae_term req \<ge> s_current_term s then
        Option.bind (append_log env req (append_term req s)) (\<lambda>(success, need_save, s1).
          let (updated, s2) = append_commit req success need_save s1
          in Some (\<lparr>aer_term = s_current_term s2, aer_success = success,
                    aer_current_pos = Some (PosToProto (log_Tell s2)),
                    aer_commit_pos = Some (PosToProto (s_commit_pos s2))\<rparr>,
                   updated, SetElectionElapseTimeout now s2))
      else Some (\<lparr>aer_term = s_current_term s, aer_success = False, aer_current_pos = None,
                  aer_commit_pos = None\<rparr>, False, SetElectionElapseTimeout now s))"

definition DegradeNodeLocked ::
    "raft_env \<Rightarrow> nat \<Rightarrow> AppendEntries \<Rightarrow> AppendEntriesResponse \<Rightarrow> Server \<Rightarrow> Server option" where
  "DegradeNodeLocked env i req resp s =
     (let np = PosFromProto (pb_get pb_LogPos_empty (ae_last_log_pos req));
          nd = (s_nodes s ! i)\<lparr>n_next_log_pos := np\<rparr>
      in if LogPos_IsNull np then
           SendAppendEntriesToNodeLocked env i False (s_max_entries_size s)
             (upd_node i (\<lambda>_. nd\<lparr>n_next_log_pos := LogPos_zero, n_last_log_pos := LogPos_null,
                                  n_last_log_term := 0\<rparr>) s)
         else
           case aer_commit_pos resp of
             Some cp \<Rightarrow>
               if PosFromProto cp < np then do {
                 nd1 \<leftarrow> PullNext env (s_dir s) (nd\<lparr>n_next_log_pos := PosFromProto cp\<rparr>);
                 SendAppendEntriesToNodeLocked env i False (s_max_entries_size s)
                   (upd_node i (\<lambda>_. SetPositionsFromEntry nd1) s)
               } else do {
                 nd1 \<leftarrow> PullNext env (s_dir s) nd;
                 SendAppendEntriesToNodeLocked env i True 1
                   (upd_node i (\<lambda>_. nd1\<lparr>n_last_log_pos := PosFromProto (e_last_log_pos (n_entry nd1)),
                       n_last_log_term := e_last_log_term (n_entry nd1),
                       n_next_log_pos := PosFromProto (e_pos (n_entry nd1))\<rparr>) s)
               }
           | None \<Rightarrow> do {
                 nd1 \<leftarrow> PullNext env (s_dir s) nd;
                 SendAppendEntriesToNodeLocked env i True 1
                   (upd_node i (\<lambda>_. nd1\<lparr>n_last_log_pos := PosFromProto (e_last_log_pos (n_entry nd1)),
                       n_last_log_term := e_last_log_term (n_entry nd1),
                       n_next_log_pos := PosFromProto (e_pos (n_entry nd1))\<rparr>) s)
               })"

definition ProcessAppendEntriesResponse ::
    "raft_env \<Rightarrow> nat \<Rightarrow> bool \<Rightarrow> AppendEntries \<Rightarrow> AppendEntriesResponse \<Rightarrow> Server \<Rightarrow> (bool \<times> Server) option" where
  "ProcessAppendEntriesResponse env i failed req resp s0 =
     (let s = upd_node i (\<lambda>nd. nd\<lparr>n_in_transfer := False\<rparr>) s0 in
      if failed \<or> \<not> is_leader s then Some (False, s)
      else if aer_term resp > s_current_term s then Some (False, UpdateCurrentTermLocked (aer_term resp) (-1) s)
      else if \<not> aer_success resp then map_option (Pair False) (DegradeNodeLocked env i req resp s)
      else if ae_entry req \<noteq> [] then
        if \<not> n_match_log_pos (s_nodes s ! i) \<le> n_next_log_pos (s_nodes s ! i) then None
        else
          let e = last (ae_entry req); p = PosFromProto (e_pos e);
              s1 = upd_node i (\<lambda>nd. nd\<lparr>n_match_log_pos := p, n_last_log_pos := p, n_last_log_term := e_term e\<rparr>) s
          in Option.bind (MaybeAdvanceCommitLocked s1) (\<lambda>(updated, s2).
               if log_Tell s2 > n_next_log_pos (s_nodes s2 ! i)
               then map_option (Pair updated) (SendAppendEntriesToNodeLocked env i False (s_max_entries_size s2) s2)
               else Some (updated, s2))
      else Some (False, s))"

section \<open>Client requests\<close>

text \<open>\<open>std::map::insert\<close>: an entry with the same key stays.\<close>

fun waiters_insert ::
    "LogPos \<Rightarrow> nat \<times> DataResponse \<Rightarrow> (LogPos \<times> nat \<times> DataResponse) list \<Rightarrow>
     (LogPos \<times> nat \<times> DataResponse) list" where
  "waiters_insert p x [] = [(p, x)]"
| "waiters_insert p x ((q, y) # ws) =
     (if p < q then (p, x) # (q, y) # ws
      else if p = q then (q, y) # ws
      else (q, y) # waiters_insert p x ws)"

text \<open>
  A call of \<open>Save\<close> with the identifier \<open>call\<close>; the answer is \<open>None\<close> when it is delayed.
  A leader id that is not an index of \<open>nodes\<close> is an access out of bounds.
\<close>

definition Save :: "raft_env \<Rightarrow> nat \<Rightarrow> Data \<Rightarrow> Server \<Rightarrow> (DataResponse option \<times> Server) option" where
  "Save env call req s =
     (if is_leader s then
        let new_last_pos = log_Tell s;
            entry = \<lparr>e_pos = PosToProto new_last_pos, e_last_log_pos = PosToProto (s_last_log_pos s),
                     e_term = s_current_term s, e_last_log_term = s_last_log_term s, e_data = dt_data req\<rparr>;
            resp = DataResponse_empty\<lparr>dr_term := Some (s_current_term s), dr_pos := Some (PosToProto new_last_pos)\<rparr>
        in Option.bind (log_WriteRecord env entry s) (\<lambda>(ok, s1).
             if \<not> ok then Some (Some (resp\<lparr>dr_was_committed := Some False\<rparr>), s1)
             else Option.bind (log_Flush env s1) (\<lambda>(_, s2).
               let s3 = SaveStateLocked (s2\<lparr>s_last_log_pos := new_last_pos, s_last_log_term := s_current_term s2\<rparr>)
               in Option.bind
                    (send_to_nodes env
                      (\<lambda>s' i. i \<noteq> s_node_id s' \<and> \<not> n_in_transfer (s_nodes s' ! i) \<and>
                              n_next_log_pos (s_nodes s' ! i) = s_last_log_pos s')
                      [0..<length (s_nodes s3)] s3)
                    (\<lambda>s4. if dt_wait_to_commit req
                          then Some (None, s4\<lparr>s_commit_waiters :=
                                 waiters_insert new_last_pos (call, resp) (s_commit_waiters s4)\<rparr>)
                          else Some (Some resp, s4))))
      else if s_leader_id s \<ge> 0 \<and> nat (s_leader_id s) \<ge> length (s_nodes s) then None
      else Some (Some (DataResponse_empty\<lparr>
                   dr_leader_name := (if s_leader_id s \<ge> 0 then Some (n_name (s_nodes s ! nat (s_leader_id s))) else None),
                   dr_was_committed := Some False\<rparr>), s))"

end
