(* ===== verification/RaftProps.thy ===== *)
theory RaftProps
  imports Raft LogFaults
begin

text \<open>
  What the Raft handlers guarantee: which part of the state each helper may touch
  (\<open>quiet\<close>), the monotonicity of term and commit position, the durability of votes, the
  majority behind a commit, the answers to waiting clients, and the runs of a server as a
  step relation.
\<close>

section \<open>What the helpers leave alone\<close>

text \<open>The term, the vote and the commit position in memory are those of the state file.\<close>

definition durable :: "Server \<Rightarrow> bool" where
  "durable s \<longleftrightarrow>
     (case s_state_file s of
        StateFile st \<Rightarrow> rs_current_term st = s_current_term s \<and>
          rs_voted_for st = (if s_voted_for s \<ge> 0 then Some (s_voted_for s) else None) \<and>
          rs_commit_pos st = Some (PosToProto (s_commit_pos s))
      | NoFile \<Rightarrow> s_current_term s = 0 \<and> s_voted_for s = -1 \<and> s_commit_pos s = LogPos_null
      | Unparsable \<Rightarrow> False)"

lemma durable_Save [simp]: "durable (SaveStateLocked s)"
  by (simp add: durable_def SaveStateLocked_def)

lemma SaveState_fields [simp]:
  "s_current_term (SaveStateLocked s) = s_current_term s" "s_voted_for (SaveStateLocked s) = s_voted_for s"
  "s_commit_pos (SaveStateLocked s) = s_commit_pos s" "s_state (SaveStateLocked s) = s_state s"
  "s_leader_id (SaveStateLocked s) = s_leader_id s" "s_node_id (SaveStateLocked s) = s_node_id s"
  "s_nodes (SaveStateLocked s) = s_nodes s" "s_commit_waiters (SaveStateLocked s) = s_commit_waiters s"
  "s_answered (SaveStateLocked s) = s_answered s" "s_last_log_pos (SaveStateLocked s) = s_last_log_pos s"
  "s_last_log_term (SaveStateLocked s) = s_last_log_term s" "s_dir (SaveStateLocked s) = s_dir s"
  "s_log_writer (SaveStateLocked s) = s_log_writer s"
  "s_candidate_votes_out (SaveStateLocked s) = s_candidate_votes_out s"
  by (simp_all add: SaveStateLocked_def)

lemma durable_cong:
  "s_state_file s' = s_state_file s \<Longrightarrow> s_current_term s' = s_current_term s \<Longrightarrow>
   s_voted_for s' = s_voted_for s \<Longrightarrow> s_commit_pos s' = s_commit_pos s \<Longrightarrow> durable s' = durable s"
  by (simp add: durable_def split: state_file.split)

definition quiet :: "Server \<Rightarrow> Server \<Rightarrow> bool" where
  "quiet s s' \<longleftrightarrow> s_current_term s' = s_current_term s \<and> s_voted_for s' = s_voted_for s \<and>
     s_commit_pos s' = s_commit_pos s \<and> s_state s' = s_state s \<and> s_leader_id s' = s_leader_id s \<and>
     s_node_id s' = s_node_id s \<and> length (s_nodes s') = length (s_nodes s) \<and>
     s_commit_waiters s' = s_commit_waiters s \<and> s_answered s' = s_answered s \<and>
     (durable s \<longrightarrow> durable s')"

lemma quiet_refl [simp]: "quiet s s"
  by (simp add: quiet_def)

lemma quiet_trans: "quiet s s1 \<Longrightarrow> quiet s1 s2 \<Longrightarrow> quiet s s2"
  by (simp add: quiet_def)

lemma quiet_Save: "quiet s s' \<Longrightarrow> quiet s (SaveStateLocked s')"
  by (simp add: quiet_def)

lemma quietI:
  assumes "s_current_term s' = s_current_term s" "s_voted_for s' = s_voted_for s" "s_commit_pos s' = s_commit_pos s"
    "s_state s' = s_state s" "s_leader_id s' = s_leader_id s" "s_node_id s' = s_node_id s"
    "length (s_nodes s') = length (s_nodes s)" "s_commit_waiters s' = s_commit_waiters s"
    "s_answered s' = s_answered s" "s_state_file s' = s_state_file s"
  shows "quiet s s'"
  using assms durable_cong [of s' s] by (simp add: quiet_def)

lemma quiet_nodes: "length ns = length (s_nodes s) \<Longrightarrow> quiet s (s\<lparr>s_nodes := ns, s_out := out\<rparr>)"
  by (rule quietI) simp_all

lemma quiet_upd_node: "quiet s (upd_node i f s)"
  by (rule quietI) (simp_all add: upd_node_def)

lemma quiet_set_log: "quiet s (set_log w d os s)"
  by (rule quietI) (simp_all add: set_log_def)

lemma quiet_last_log: "quiet s (s\<lparr>s_last_log_pos := p\<rparr>)" "quiet s (s\<lparr>s_last_log_pos := p, s_last_log_term := t\<rparr>)"
  by (rule quietI; simp)+

lemma quiet_timers: "quiet s (s\<lparr>s_heartbeat_elapsed_ns := a\<rparr>)" "quiet s (s\<lparr>s_candidate_votes_out := c\<rparr>)"
  "quiet s (SetElectionElapseTimeout now s)"
  by (rule quietI; simp add: SetElectionElapseTimeout_def)+

lemma quiet_from:
  "quiet (SaveStateLocked s) s' \<Longrightarrow> quiet s s'" "quiet (upd_node i f s) s' \<Longrightarrow> quiet s s'"
  "quiet (s\<lparr>s_last_log_pos := p\<rparr>) s' \<Longrightarrow> quiet s s'"
  using quiet_trans quiet_Save [OF quiet_refl] quiet_upd_node quiet_last_log by blast+

lemma SendAppend_effect:
  "SendAppendEntriesToNodeLocked env i filled m s = Some s' \<Longrightarrow>
   s' = s\<lparr>s_nodes := s_nodes s', s_out := s_out s'\<rparr> \<and> length (s_nodes s') = length (s_nodes s)"
  by (auto simp: SendAppendEntriesToNodeLocked_def SendAppendLocked_def upd_node_def Let_def
      bind_eq_Some_conv split: if_splits)

lemma quiet_SendAppend: "SendAppendEntriesToNodeLocked env i filled m s = Some s' \<Longrightarrow> quiet s s'"
  using SendAppend_effect [of env i filled m s s'] quiet_nodes [of "s_nodes s'" s "s_out s'"] by metis

lemma quiet_send_to_nodes: "send_to_nodes env sel is s = Some s' \<Longrightarrow> quiet s s'"
  by (induction env sel "is" s rule: send_to_nodes.induct)
    (auto simp: bind_eq_Some_conv dest: quiet_SendAppend intro: quiet_trans split: if_splits)

lemma quiet_Heartbeat: "SendHeartbeatToFollowersLocked env now s = Some s' \<Longrightarrow> quiet s s'"
  by (auto simp: SendHeartbeatToFollowersLocked_def split: if_splits
      dest!: quiet_send_to_nodes intro: quiet_trans quiet_timers)

lemma quiet_log_ops:
  "log_WriteRecord env e s = Some (ok, s') \<Longrightarrow> quiet s s'" "log_Flush env s = Some (ok, s') \<Longrightarrow> quiet s s'"
  "log_TruncateAt env p s = Some (ok, s') \<Longrightarrow> quiet s s'"
  by (auto simp: log_WriteRecord_def log_Flush_def log_TruncateAt_def quiet_set_log)

lemma quiet_truncate_behind: "truncate_behind env p s = Some (ok, s') \<Longrightarrow> quiet s s'"
  by (auto simp: truncate_behind_def Let_def intro: quiet_last_log
      dest!: quiet_log_ops dest: quiet_from split: if_splits)

lemma quiet_MaybeTrucate: "MaybeTrucateLogAfterLocked env t p s = Some (ok, s') \<Longrightarrow> quiet s s'"
  by (auto simp: MaybeTrucateLogAfterLocked_def Let_def bind_eq_Some_conv split: if_splits
      dest!: quiet_truncate_behind quiet_from intro: quiet_trans quiet_upd_node quiet_last_log)

lemma quiet_append_entries_loop:
  "append_entries_loop env sp es pp pt s = Some (ok, pp', pt', s') \<Longrightarrow> quiet s s'"
proof (induction es arbitrary: pp pt s)
  case (Cons e es)
  then show ?case
    by (auto simp: bind_eq_Some_conv split: if_splits dest!: quiet_log_ops intro: quiet_trans)
qed simp

lemma quiet_AppendRequestEntries: "AppendRequestEntriesLocked env req s = Some (ok, s') \<Longrightarrow> quiet s s'"
  by (auto simp: AppendRequestEntriesLocked_def bind_eq_Some_conv split: if_splits
      dest!: quiet_append_entries_loop intro: quiet_trans quiet_last_log)

lemma quiet_append_log: "append_log env req s = Some (ok, sv, s') \<Longrightarrow> quiet s s'"
  by (auto simp: append_log_def Let_def bind_eq_Some_conv split: if_splits
      dest!: quiet_MaybeTrucate quiet_AppendRequestEntries intro: quiet_trans)

lemma quiet_Degrade: "DegradeNodeLocked env i req resp s = Some s' \<Longrightarrow> quiet s s'"
  by (auto simp: DegradeNodeLocked_def Let_def bind_eq_Some_conv split: if_splits option.splits
      dest!: quiet_SendAppend intro: quiet_trans quiet_upd_node)

section \<open>The handlers\<close>

text \<open>A step may raise the term and the commit position, and leaves them durable.\<close>

definition advances :: "Server \<Rightarrow> Server \<Rightarrow> bool" where
  "advances s s' \<longleftrightarrow> s_current_term s \<le> s_current_term s' \<and> s_commit_pos s \<le> s_commit_pos s' \<and>
     (durable s \<longrightarrow> durable s')"

lemma advances_refl [simp]: "advances s s"
  by (simp add: advances_def)

lemma advances_trans: "advances s s1 \<Longrightarrow> advances s1 s2 \<Longrightarrow> advances s s2"
  by (auto simp: advances_def)

lemma quiet_advances: "quiet s s' \<Longrightarrow> advances s s'"
  by (simp add: quiet_def advances_def)

lemma advances_Save:
  "s_current_term s \<le> s_current_term s' \<Longrightarrow> s_commit_pos s \<le> s_commit_pos s' \<Longrightarrow> advances s (SaveStateLocked s')"
  by (simp add: advances_def)

lemma advances_BecomeFollower: "s_current_term s \<le> s_current_term s' \<Longrightarrow> s_commit_pos s \<le> s_commit_pos s' \<Longrightarrow>
    advances s (BecomeFollowerLocked l s')"
  by (simp add: BecomeFollowerLocked_def advances_def)

lemma advances_UpdateTerm: "s_current_term s \<le> t \<Longrightarrow> advances s (UpdateCurrentTermLocked t l s)"
  by (simp add: UpdateCurrentTermLocked_def Let_def advances_BecomeFollower advances_Save)

lemma advances_Vote: "Vote req s = (resp, s') \<Longrightarrow> advances s s'"
  by (auto simp: Vote_def Let_def intro!: advances_Save split: if_splits)

lemma advances_BecomeLeader: "BecomeLeaderLocked env now s = Some s' \<Longrightarrow> advances s s'"
  by (auto simp: BecomeLeaderLocked_def Let_def bind_eq_Some_conv split: if_splits
      dest!: quiet_Heartbeat quiet_advances intro!: advances_Save elim!: advances_trans [rotated])

lemma advances_BecomeCandidate: "BecomeCandidateLocked now s = Some s' \<Longrightarrow> advances s s'"
  by (auto simp: BecomeCandidateLocked_def Let_def SendRequestVoteLocked_def SetElectionElapseTimeout_def
      upd_node_def intro!: advances_Save split: if_splits)

lemma advances_finish_vote: "advances s (finish_vote s)"
  by (auto simp: finish_vote_def Let_def intro: advances_BecomeFollower quiet_advances quiet_timers)

lemma quiet_count_votes: "count_votes s = (n, s') \<Longrightarrow> quiet s s'"
  by (auto simp: count_votes_def Let_def intro!: quietI)

lemma advances_VoteResponse:
  assumes "ProcessRequestVoteResponse env now i failed resp s = Some s'"
  shows "advances s s'"
proof -
  let ?t = "upd_node i (\<lambda>nd. nd\<lparr>n_votes_for_me := True\<rparr>) s"
  obtain n s1 where c: "count_votes ?t = (n, s1)" by force
  have q: "advances s s1"
    using quiet_trans [OF quiet_upd_node quiet_count_votes [OF c]] by (rule quiet_advances)
  from assms c obtain s2 where s': "s' = finish_vote s2" and s2: "s2 = s \<or> s2 = s1 \<or> BecomeLeaderLocked env now s1 = Some s2"
    by (auto simp: ProcessRequestVoteResponse_def split: if_splits)
  have "advances s s2" using s2 q advances_BecomeLeader advances_trans by auto
  then show ?thesis unfolding s' by (rule advances_trans [OF _ advances_finish_vote])
qed

lemma quiet_AdvanceWaiters:
  "s_current_term (AdvanceWaitersLocked s) = s_current_term s" "s_commit_pos (AdvanceWaitersLocked s) = s_commit_pos s"
  "s_voted_for (AdvanceWaitersLocked s) = s_voted_for s" "s_state_file (AdvanceWaitersLocked s) = s_state_file s"
  "s_state (AdvanceWaitersLocked s) = s_state s"
  by (simp_all add: AdvanceWaitersLocked_def split_beta)

lemma advances_MaybeAdvanceCommit: "MaybeAdvanceCommitLocked s = Some (u, s') \<Longrightarrow> advances s s'"
proof -
  have "advances s (AdvanceWaitersLocked (SaveStateLocked (s\<lparr>s_commit_pos := p\<rparr>)))" if "\<not> p \<le> s_commit_pos s" for p
    using that durable_Save [of "s\<lparr>s_commit_pos := p\<rparr>"]
      durable_cong [of "AdvanceWaitersLocked (SaveStateLocked (s\<lparr>s_commit_pos := p\<rparr>))" "SaveStateLocked (s\<lparr>s_commit_pos := p\<rparr>)"]
    by (simp add: advances_def quiet_AdvanceWaiters)
  then show "MaybeAdvanceCommitLocked s = Some (u, s') \<Longrightarrow> advances s s'"
    by (auto simp: MaybeAdvanceCommitLocked_def Let_def split: if_splits)
qed

lemma advances_append_term: "s_current_term s \<le> ae_term req \<Longrightarrow> advances s (append_term req s)"
  by (auto simp: append_term_def intro!: advances_BecomeFollower advances_UpdateTerm advances_Save)

lemma advances_append_commit:
  assumes "append_commit req ok sv s = (u, s')"
  shows "advances s s'"
  using assms by (auto simp: append_commit_def Let_def intro!: advances_Save split: if_splits)

lemma advances_Append:
  assumes "Append env now req s = Some (resp, u, s')"
  shows "advances s s'"
proof (cases "ae_term req \<ge> s_current_term s")
  case True
  with assms obtain ok sv s1 where s1: "append_log env req (append_term req s) = Some (ok, sv, s1)"
    and u: "s' = SetElectionElapseTimeout now (snd (append_commit req ok sv s1))"
    by (auto simp: Append_def bind_eq_Some_conv Let_def split_beta)
  obtain u2 s2 where s2: "append_commit req ok sv s1 = (u2, s2)" by force
  with u have s': "s' = SetElectionElapseTimeout now s2" by simp
  from advances_append_term [OF True] quiet_advances [OF quiet_append_log [OF s1]]
    advances_append_commit [OF s2] quiet_advances [OF quiet_timers(3) [of s2 now]]
  show ?thesis unfolding s' by (blast intro: advances_trans)
next
  case False
  with assms show ?thesis by (auto simp: Append_def intro: quiet_advances quiet_timers)
qed

lemma advances_AppendResponse:
  assumes "ProcessAppendEntriesResponse env i failed req resp s = Some (u, s')"
  shows "advances s s'"
proof -
  let ?s = "upd_node i (\<lambda>nd. nd\<lparr>n_in_transfer := False\<rparr>) s"
  let ?p = "PosFromProto (e_pos (last (ae_entry req)))"
  let ?s1 = "upd_node i (\<lambda>nd. nd\<lparr>n_match_log_pos := ?p, n_last_log_pos := ?p,
    n_last_log_term := e_term (last (ae_entry req))\<rparr>) ?s"
  note q = quiet_advances [OF quiet_upd_node [of s i "\<lambda>nd. nd\<lparr>n_in_transfer := False\<rparr>"]]
    and q1 = quiet_advances [OF quiet_upd_node [of ?s i "\<lambda>nd. nd\<lparr>n_match_log_pos := ?p, n_last_log_pos := ?p,
    n_last_log_term := e_term (last (ae_entry req))\<rparr>"]]
  from assms consider "s' = ?s" | "s' = UpdateCurrentTermLocked (aer_term resp) (-1) ?s" "aer_term resp > s_current_term ?s"
    | "DegradeNodeLocked env i req resp ?s = Some s'"
    | s2 where "MaybeAdvanceCommitLocked ?s1 = Some (u, s2)" "s' = s2 \<or>
        SendAppendEntriesToNodeLocked env i False (s_max_entries_size s2) s2 = Some s'"
    unfolding ProcessAppendEntriesResponse_def Let_def
    by (auto simp: bind_eq_Some_conv split: if_splits)
  then show ?thesis
  proof cases
    case 2
    then show ?thesis using advances_UpdateTerm [of ?s "aer_term resp" "-1"] q by (auto intro: advances_trans)
  next
    case 3
    then show ?thesis using q quiet_advances [OF quiet_Degrade] by (blast intro: advances_trans)
  next
    case (4 s2)
    then have "advances ?s1 s2" "advances s2 s'"
      using advances_MaybeAdvanceCommit quiet_advances [OF quiet_SendAppend] by auto
    with q q1 show ?thesis by (blast intro: advances_trans)
  qed (use q in simp)
qed

lemma advances_Periodic:
  assumes "PeriodicCheck env now s = Some s'"
  shows "advances s s'"
proof -
  have "advances s (s1\<lparr>s_heartbeat_elapsed_ns := a\<rparr>)" if "SendHeartbeatToFollowersLocked env now s = Some s1" for s1 a
    using quiet_trans [OF quiet_Heartbeat [OF that] quiet_timers(1)] by (rule quiet_advances)
  with assms show ?thesis
    by (auto simp: PeriodicCheck_def dest: advances_BecomeCandidate split: if_splits)
qed

lemma Save_cases:
  assumes "Save env c req s = Some (r, s')" and "is_leader s"
  obtains (failed) e where "log_WriteRecord env e s = Some (False, s')"
  | (written) e s1 ok s2 p t sel s4 ws where "log_WriteRecord env e s = Some (True, s1)"
      "log_Flush env s1 = Some (ok, s2)"
      "send_to_nodes env sel [0..<length (s_nodes s2)]
        (SaveStateLocked (s2\<lparr>s_last_log_pos := p, s_last_log_term := t\<rparr>)) = Some s4"
      "s' = s4\<lparr>s_commit_waiters := ws\<rparr>"
proof -
  let ?e = "\<lparr>e_pos = PosToProto (log_Tell s), e_last_log_pos = PosToProto (s_last_log_pos s),
    e_term = s_current_term s, e_last_log_term = s_last_log_term s, e_data = dt_data req\<rparr>"
  obtain ok s1 where w: "log_WriteRecord env ?e s = Some (ok, s1)"
    using assms by (auto simp: Save_def Let_def bind_eq_Some_conv)
  show ?thesis
  proof (cases ok)
    case False
    with assms w have "s' = s1" by (simp add: Save_def Let_def)
    with failed w False show ?thesis by simp
  next
    case True
    with assms w obtain ok2 s2 where f: "log_Flush env s1 = Some (ok2, s2)"
      by (auto simp: Save_def Let_def bind_eq_Some_conv)
    let ?sel = "\<lambda>s' i. i \<noteq> s_node_id s' \<and> \<not> n_in_transfer (s_nodes s' ! i) \<and>
      n_next_log_pos (s_nodes s' ! i) = s_last_log_pos s'"
    let ?s3 = "SaveStateLocked (s2\<lparr>s_last_log_pos := log_Tell s, s_last_log_term := s_current_term s2\<rparr>)"
    from assms w True f obtain s4 where sn: "send_to_nodes env ?sel [0..<length (s_nodes s2)] ?s3 = Some s4"
      and s': "s' = s4 \<or> (\<exists>x. s' = s4\<lparr>s_commit_waiters := waiters_insert (log_Tell s) x (s_commit_waiters s4)\<rparr>)"
      by (auto simp: Save_def Let_def bind_eq_Some_conv split: if_splits)
    have "s4 = s4\<lparr>s_commit_waiters := s_commit_waiters s4\<rparr>" by simp
    with s' obtain ws where "s' = s4\<lparr>s_commit_waiters := ws\<rparr>" by metis
    with w True f sn show ?thesis by (intro written [OF _ f sn]) simp_all
  qed
qed

lemma advances_Save_request:
  assumes "Save env c req s = Some (r, s')"
  shows "advances s s'"
proof (cases "is_leader s")
  case True
  from assms True show ?thesis
  proof (cases rule: Save_cases)
    case (failed e)
    then show ?thesis by (intro quiet_advances quiet_log_ops(1))
  next
    case (written e s1 ok s2 p t sel s4 ws)
    have "quiet s s4"
      using quiet_log_ops(1) [OF written(1)] quiet_log_ops(2) [OF written(2)] quiet_last_log(2) [where s = s2 and p = p and t = t]
        quiet_from(1) [OF quiet_send_to_nodes [OF written(3)]] by (blast intro: quiet_trans)
    moreover have "durable (s4\<lparr>s_commit_waiters := ws\<rparr>) = durable s4" by (rule durable_cong) simp_all
    ultimately show ?thesis using written(4) by (auto simp: quiet_def advances_def)
  qed
next
  case False
  with assms show ?thesis by (auto simp: Save_def split: if_splits)
qed

section \<open>Runs of a server\<close>

text \<open>
  A step is one handler, or a crash followed by a restart from the state file (with whatever
  log writer and directory the new process opens).
\<close>

inductive raft_step :: "raft_env \<Rightarrow> Server \<Rightarrow> Server \<Rightarrow> bool" for env where
  step_Vote: "Vote req s = (resp, s') \<Longrightarrow> raft_step env s s'"
| step_VoteResponse: "ProcessRequestVoteResponse env now i failed resp s = Some s' \<Longrightarrow> raft_step env s s'"
| step_Append: "Append env now req s = Some (resp, u, s') \<Longrightarrow> raft_step env s s'"
| step_AppendResponse: "ProcessAppendEntriesResponse env i failed req resp s = Some (u, s') \<Longrightarrow> raft_step env s s'"
| step_Save: "Save env c req s = Some (r, s') \<Longrightarrow> raft_step env s s'"
| step_Periodic: "PeriodicCheck env now s = Some s' \<Longrightarrow> raft_step env s s'"
| step_Restart: "Server_Initialize now i names (Server_new lw d (s_state_file s) os v) = Some (True, s') \<Longrightarrow>
    raft_step env s s'"

inductive_cases raft_stepE [elim]: "raft_step env s s'"

lemma PosFromProto_PosToProto: "PosFromProto (PosToProto p) = (if LogPos_IsNull p then LogPos_null else p)"
  by (simp add: PosFromProto_def PosToProto_def pb_get_def pb_LogPos_empty_def)

definition pos_key :: "LogPos \<Rightarrow> LogPos" where
  "pos_key p = PosFromProto (PosToProto p)"

lemma pos_key_mono:
  assumes "p \<le> q"
  shows "pos_key p \<le> pos_key q"
proof -
  have key: "pos_key x = (if file_num x = -1 then LogPos_null else x)" for x
    by (simp add: pos_key_def PosFromProto_PosToProto LogPos_IsNull_def)
  have le: "file_num p \<le> file_num q" using assms by (auto simp: less_eq_LogPos_ext_def)
  have lt: "x \<le> y" if "file_num x < file_num y" for x y :: LogPos
    using that by (simp add: less_eq_LogPos_ext_def)
  have null: "file_num LogPos_null = -1" by (simp add: LogPos_null_def)
  consider "file_num p = -1" "file_num q = -1" | "file_num p = -1" "-1 < file_num q"
    | "file_num p \<noteq> -1" "file_num q \<noteq> -1" | "file_num p < -1" "file_num q = -1"
    using le by linarith
  then show ?thesis
    by cases (use assms lt [of LogPos_null q] lt [of p LogPos_null] null in \<open>auto simp: key\<close>)
qed

lemma pos_key_idem [simp]: "pos_key (pos_key p) = pos_key p" "PosToProto (pos_key p) = PosToProto p"
proof -
  have null: "LogPos_IsNull LogPos_null" by (simp add: LogPos_IsNull_def LogPos_null_def)
  show "pos_key (pos_key p) = pos_key p" using null by (simp add: pos_key_def PosFromProto_PosToProto)
  have "PosToProto p = PosToProto LogPos_null" if "LogPos_IsNull p" using that null by (simp add: PosToProto_def)
  then show "PosToProto (pos_key p) = PosToProto p" by (simp add: pos_key_def PosFromProto_PosToProto)
qed

lemma pos_key_null [simp]: "pos_key LogPos_null = LogPos_null"
  by (simp add: pos_key_def PosFromProto_PosToProto)

lemma restart_keeps:
  assumes "Server_Initialize now i names (Server_new lw d (s_state_file s) os v) = Some (True, s')" and "durable s"
  shows "s_current_term s' = s_current_term s" and "s_commit_pos s' = pos_key (s_commit_pos s)" and "durable s'"
    and "0 \<le> s_voted_for s \<Longrightarrow> s_voted_for s' = s_voted_for s"
proof -
  obtain s1 where l: "LoadStateLocked (Server_new lw d (s_state_file s) os v) = (True, s1)"
    and s': "s' = SetElectionElapseTimeout now (s1\<lparr>s_node_id := i,
      s_nodes := map (\<lambda>nm. Node_new nm (NewReader (s_log_writer s1))) names\<rparr>)"
    using assms(1) by (auto simp: Server_Initialize_def split: if_splits prod.splits bool.splits)
  have f: "s_current_term s' = s_current_term s1" "s_commit_pos s' = s_commit_pos s1"
    "s_voted_for s' = s_voted_for s1" "s_state_file s' = s_state_file s1"
    by (simp_all add: s' SetElectionElapseTimeout_def)
  have s1: "s_state_file s1 = s_state_file s" "s_current_term s1 = s_current_term s"
    "s_commit_pos s1 = pos_key (s_commit_pos s)"
    "s_voted_for s1 = (if s_voted_for s \<ge> 0 then s_voted_for s else -1)"
    using l assms(2) by (auto simp: LoadStateLocked_def Server_new_def durable_def pb_get_def pos_key_def
        PosFromProto_PosToProto split: state_file.splits)
  show "s_current_term s' = s_current_term s" "s_commit_pos s' = pos_key (s_commit_pos s)"
    "0 \<le> s_voted_for s \<Longrightarrow> s_voted_for s' = s_voted_for s"
    using f s1 by simp_all
  show "durable s'" using f s1 assms(2) by (auto simp: durable_def split: state_file.splits)
qed

lemma advancesD:
  "advances s s' \<Longrightarrow> durable s \<Longrightarrow>
   s_current_term s \<le> s_current_term s' \<and> pos_key (s_commit_pos s) \<le> pos_key (s_commit_pos s') \<and> durable s'"
  by (auto simp: advances_def intro: pos_key_mono)

lemmas handler_advances = advances_Vote advances_VoteResponse advances_Append advances_AppendResponse
  advances_Save_request advances_Periodic

lemma raft_step_advances:
  assumes "raft_step env s s'" and "durable s"
  shows "s_current_term s \<le> s_current_term s' \<and> pos_key (s_commit_pos s) \<le> pos_key (s_commit_pos s') \<and> durable s'"
  using assms(1)
proof cases
  case (step_Restart now i names lw d os v)
  from restart_keeps [OF this assms(2)] show ?thesis by simp
qed (rule advancesD [OF _ assms(2)], erule handler_advances)+

text \<open>C13 (terms and commits survive everything): along every run of a server, through any
  sequence of messages, client calls, timeouts, crashes and restarts, the term never
  decreases, the commit position never retreats, and what is in memory (term, vote, commit
  position) is always what the state file would restore.\<close>

theorem raft_run_advances:
  assumes "(raft_step env)\<^sup>*\<^sup>* s s'" and "durable s"
  shows "s_current_term s \<le> s_current_term s' \<and> pos_key (s_commit_pos s) \<le> pos_key (s_commit_pos s') \<and> durable s'"
  using assms
proof (induction rule: rtranclp_induct)
  case (step y z)
  from raft_step_advances [OF step(2)] step(3) step(4) show ?case by (meson order_trans)
qed simp

section \<open>A small cluster\<close>

text \<open>Concrete servers for the instances below: three nodes, an empty log of small blocks.\<close>

definition demo_writer :: LogWriter where
  "demo_writer = \<lparr>lw_block_size = 64, lw_blocks_per_file = 4, lw_temporary_incomplete_file = False,
     lw_file_num = 0, lw_file = Some (False, 0), lw_buf = [],
     lw_recorder = \<lparr>rw_block_size = 64, rw_dumpable_size = 40, rw_content = [], rw_zlib = False,
       rw_content_record_count = 0, rw_prev_block_crc = 0\<rparr>\<rparr>"

definition demo_dir :: log_dir where
  "demo_dir = \<lparr>d_files = [((False, 0), [])], d_lock = Some 1\<rparr>"

definition demo_env :: raft_env where
  "demo_env = \<lparr>env_crc = (\<lambda>bs. of_nat (length bs)), env_deflate = (\<lambda>bs. bs), env_inflate = (\<lambda>bs. (True, bs)),
     env_serialize = (\<lambda>e. e_data e), env_parse = (\<lambda>bs. Some (DataEntry_empty\<lparr>e_data := bs\<rparr>))\<rparr>"

definition demo_server :: Server where
  "demo_server = (Server_new demo_writer demo_dir NoFile [] 0)\<lparr>
     s_nodes := map (\<lambda>nm. Node_new nm (NewReader demo_writer)) [''a'', ''b'', ''c'']\<rparr>"

definition demo_vote :: RequestVote where
  "demo_vote = \<lparr>rv_term = 1, rv_candidate_id = 1, rv_last_log_pos = PosToProto LogPos_null, rv_last_log_term = 0\<rparr>"

lemma demo_durable: "durable demo_server"
  by (simp add: durable_def demo_server_def Server_new_def)

theorem raft_run_advances_witness:
  "s_current_term demo_server \<le> s_current_term (snd (Vote demo_vote demo_server)) \<and>
   durable (snd (Vote demo_vote demo_server))"
proof -
  have "raft_step demo_env demo_server (snd (Vote demo_vote demo_server))" by (rule step_Vote [OF prod.collapse [symmetric]])
  then have "(raft_step demo_env)\<^sup>*\<^sup>* demo_server (snd (Vote demo_vote demo_server))" by (rule r_into_rtranclp)
  from raft_run_advances [OF this demo_durable] show ?thesis by blast
qed

section \<open>Votes\<close>



text \<open>A granted vote goes to a node of the cluster whose log
  reaches at least our commit position, in a term that is not older than ours, and is in the
  state file when the answer is sent; a crash right after it does not lose it.\<close>

theorem vote_granted_safe:
  assumes "Vote req s = (resp, s')" and "rvr_vote_granted resp" and "s_commit_pos s \<le> s_last_log_pos s"
    and "Server_Initialize now i names (Server_new lw d (s_state_file s') os v) = Some (True, s2)"
  shows "s_commit_pos s \<le> PosFromProto (rv_last_log_pos req) \<and> s_current_term s \<le> rv_term req \<and>
    s_voted_for s2 = rv_candidate_id req \<and> s_current_term s2 = rv_term req \<and>
    nat (rv_candidate_id req) < length (s_nodes s)"
proof -
  have v: "s_voted_for s' = rv_candidate_id req" "s_current_term s' = rv_term req" "0 \<le> rv_candidate_id req"
    "rv_candidate_id req < int (length (s_nodes s))" "durable s'"
    "s_commit_pos s \<le> PosFromProto (rv_last_log_pos req)" "s_current_term s \<le> rv_term req"
    using assms(1-3) by (auto simp: Vote_def Let_def split: if_splits)
  with restart_keeps [OF assms(4) v(5)] show ?thesis by simp
qed

theorem vote_granted_safe_witness:
  "\<exists>s2. Server_Initialize 0 0 [''a'', ''b'', ''c'']
       (Server_new demo_writer demo_dir (s_state_file (snd (Vote demo_vote demo_server))) [] 0) = Some (True, s2) \<and>
     s_voted_for s2 = 1 \<and> s_current_term s2 = 1"
proof -
  have g: "rvr_vote_granted (fst (Vote demo_vote demo_server))" "s_commit_pos demo_server \<le> s_last_log_pos demo_server"
    by (simp_all add: Vote_def demo_vote_def demo_server_def Server_new_def PosFromProto_PosToProto LogPos_null_def)
  have "s_state_file (snd (Vote demo_vote demo_server)) \<noteq> Unparsable" "s_state_file (snd (Vote demo_vote demo_server)) \<noteq> NoFile"
    using g(1) by (auto simp: Vote_def Let_def SaveStateLocked_def split: if_splits)
  then obtain s2 where i: "Server_Initialize 0 0 [''a'', ''b'', ''c'']
       (Server_new demo_writer demo_dir (s_state_file (snd (Vote demo_vote demo_server))) [] 0) = Some (True, s2)"
    by (cases "s_state_file (snd (Vote demo_vote demo_server))")
      (auto simp: Server_Initialize_def LoadStateLocked_def Server_new_def)
  from vote_granted_safe [OF prod.collapse [symmetric] g i] i show ?thesis by (simp add: demo_vote_def)
qed

text \<open>C29 (a single vote wins an election): counting the votes marks every node as a supporter,
  so a candidate that receives one granted vote becomes leader, whatever the size of the
  cluster and whoever else voted.\<close>

theorem one_vote_elects:
  assumes "ProcessRequestVoteResponse env now i False resp s = Some s'" and "is_candidate s"
    and "rvr_vote_granted resp" and "s_nodes s \<noteq> []"
  shows "is_leader s' \<and> s_current_term s' = s_current_term s"
proof -
  let ?t = "upd_node i (\<lambda>nd. nd\<lparr>n_votes_for_me := True\<rparr>) s"
  obtain n s1 where c: "count_votes ?t = (n, s1)" by force
  then have n: "n = length (s_nodes s1)" and len: "length (s_nodes s1) = length (s_nodes s)"
    by (auto simp: count_votes_def Let_def upd_node_def o_def sum_list_triv)
  have "length (s_nodes s) div 2 + 1 \<le> length (s_nodes s)"
    using assms(4) by (cases "s_nodes s") auto
  with assms c n len obtain s2 where b: "BecomeLeaderLocked env now s1 = Some s2" and s': "s' = finish_vote s2"
    by (auto simp: ProcessRequestVoteResponse_def)
  have q: "quiet s s1" using quiet_trans [OF quiet_upd_node quiet_count_votes [OF c]] .
  from b have "is_leader s2" "s_current_term s2 = s_current_term s1"
    by (auto simp: BecomeLeaderLocked_def Let_def bind_eq_Some_conv quiet_def split: if_splits dest!: quiet_Heartbeat)
  with q show ?thesis by (simp add: s' finish_vote_def Let_def quiet_def)
qed

text \<open>C30 (a second vote in the same term): when the last vote of an unsuccessful election is
  answered, the candidate forgets that it voted for itself in this term; it then grants
  another candidate its vote in the same term.\<close>

theorem second_vote_in_term:
  assumes "s_candidate_votes_out s = 1" and "is_candidate s" and "\<not> rvr_vote_granted resp"
    and "s_voted_for s = int (s_node_id s)"
    and "rv_term req = s_current_term s" and "0 \<le> rv_candidate_id req"
    and "rv_candidate_id req < int (length (s_nodes s))" and "s_last_log_pos s \<le> PosFromProto (rv_last_log_pos req)"
  shows "\<exists>s'. ProcessRequestVoteResponse env now i failed resp s = Some s' \<and>
    s_current_term s' = s_current_term s \<and> rvr_vote_granted (fst (Vote req s'))"
proof -
  have "ProcessRequestVoteResponse env now i failed resp s =
      Some (BecomeFollowerLocked (-1) (s\<lparr>s_candidate_votes_out := 0\<rparr>))"
    using assms(1-3) by (simp add: ProcessRequestVoteResponse_def finish_vote_def)
  moreover have "rvr_vote_granted (fst (Vote req (BecomeFollowerLocked (-1) (s\<lparr>s_candidate_votes_out := 0\<rparr>))))"
    using assms(5-8) by (simp add: Vote_def BecomeFollowerLocked_def Let_def)
  ultimately show ?thesis by (simp add: BecomeFollowerLocked_def)
qed

lemma BecomeCandidate_fields:
  assumes "BecomeCandidateLocked now s = Some s'"
  shows "is_candidate s'" "s_voted_for s' = int (s_node_id s)" "s_node_id s' = s_node_id s"
    "s_current_term s' = s_current_term s + 1" "length (s_nodes s') = length (s_nodes s)"
    "s_last_log_pos s' = s_last_log_pos s" "s_log_writer s' = s_log_writer s" "s_dir s' = s_dir s"
    "s_commit_pos s' = s_commit_pos s"
  using assms by (auto simp: BecomeCandidateLocked_def Let_def SendRequestVoteLocked_def SetElectionElapseTimeout_def
      upd_node_def split: if_splits)

lemma BecomeCandidate_nodes:
  assumes "BecomeCandidateLocked now s = Some s'"
  shows "map n_match_log_pos (s_nodes s') = map n_match_log_pos (s_nodes s)"
proof -
  have "s_nodes s' = (map (\<lambda>nd. nd\<lparr>n_votes_for_me := False\<rparr>) (s_nodes s))[s_node_id s :=
      (map (\<lambda>nd. nd\<lparr>n_votes_for_me := False\<rparr>) (s_nodes s) ! s_node_id s)\<lparr>n_votes_for_me := True\<rparr>]"
    using assms by (auto simp: BecomeCandidateLocked_def Let_def SendRequestVoteLocked_def SetElectionElapseTimeout_def
        upd_node_def split: if_splits)
  moreover have "n_match_log_pos (((map (\<lambda>nd. nd\<lparr>n_votes_for_me := False\<rparr>) (s_nodes s))[s_node_id s :=
      (map (\<lambda>nd. nd\<lparr>n_votes_for_me := False\<rparr>) (s_nodes s) ! s_node_id s)\<lparr>n_votes_for_me := True\<rparr>]) ! i) =
      n_match_log_pos (s_nodes s ! i)" if "i < length (s_nodes s)" for i
    using that by (cases "i = s_node_id s") simp_all
  ultimately show ?thesis by (intro nth_equalityI) simp_all
qed

lemma BecomeCandidate_returns: "\<not> is_leader s \<Longrightarrow> BecomeCandidateLocked now s = Some (the (BecomeCandidateLocked now s))"
  by (simp add: BecomeCandidateLocked_def Let_def)

definition demo_candidate :: Server where
  "demo_candidate = the (BecomeCandidateLocked 0 demo_server)"

lemma demo_server_simps:
  "s_nodes demo_server = map (\<lambda>nm. Node_new nm (NewReader demo_writer)) [''a'', ''b'', ''c'']"
  "\<not> is_leader demo_server" "s_node_id demo_server = 0" "s_current_term demo_server = 0"
  "s_last_log_pos demo_server = LogPos_null" "s_commit_pos demo_server = LogPos_null"
  "s_log_writer demo_server = demo_writer" "s_dir demo_server = demo_dir"
  by (simp_all add: demo_server_def Server_new_def)

lemma demo_candidate_eq: "BecomeCandidateLocked 0 demo_server = Some demo_candidate"
  unfolding demo_candidate_def by (rule BecomeCandidate_returns) (simp add: demo_server_simps)

lemmas demo_candidate_simps = BecomeCandidate_fields [OF demo_candidate_eq, unfolded demo_server_simps, simplified]

theorem second_vote_in_term_witness:
  "\<exists>s'. ProcessRequestVoteResponse demo_env 0 2 True \<lparr>rvr_term = 1, rvr_vote_granted = False\<rparr>
       (demo_candidate\<lparr>s_candidate_votes_out := 1\<rparr>) = Some s' \<and>
     s_current_term s' = 1 \<and> rvr_vote_granted (fst (Vote demo_vote s'))"
  using second_vote_in_term [of "demo_candidate\<lparr>s_candidate_votes_out := 1\<rparr>" "\<lparr>rvr_term = 1, rvr_vote_granted = False\<rparr>"
      demo_vote demo_env 0 2 True] demo_candidate_simps
  by (simp add: demo_vote_def PosFromProto_PosToProto)

section \<open>Committing\<close>

lemma filter_sort_length: "length (filter P (sort xs)) = length (filter P xs)"
  by (simp add: filter_sort)

lemma sorted_count_above:
  fixes xs :: "'a::linorder list"
  assumes "sorted xs" and "k < length xs" and "xs ! k < p"
  shows "length (filter (\<lambda>x. p \<le> x) xs) \<le> length xs - Suc k"
proof -
  have none: "filter (\<lambda>x. p \<le> x) (take (Suc k) xs) = []"
  proof (rule filter_False, rule ballI)
    fix x assume "x \<in> set (take (Suc k) xs)"
    then obtain j where "j < Suc k" "j < length xs" "x = xs ! j" by (auto simp: in_set_conv_nth)
    then have "x \<le> xs ! k" using assms(1,2) by (simp add: sorted_nth_mono)
    then show "\<not> p \<le> x" using assms(3) by auto
  qed
  have "filter (\<lambda>x. p \<le> x) xs = filter (\<lambda>x. p \<le> x) (take (Suc k) xs @ drop (Suc k) xs)"
    by (simp only: append_take_drop_id)
  then have "filter (\<lambda>x. p \<le> x) xs = filter (\<lambda>x. p \<le> x) (drop (Suc k) xs)"
    unfolding filter_append using none by simp
  then show ?thesis using length_filter_le [of "\<lambda>x. p \<le> x" "drop (Suc k) xs"] by simp
qed

definition replicated_at :: "Server \<Rightarrow> LogPos \<Rightarrow> nat" where
  "replicated_at s p = length (filter (\<lambda>x. p \<le> x) (commit_positions s))"

text \<open>C3 (commits need a majority): when the leader advances its commit position, the entry at
  the new position is in the logs of a majority of the nodes (itself included); and the
  position it commits is the highest one that a majority has.\<close>

theorem commit_is_majority:
  assumes "MaybeAdvanceCommitLocked s = Some (u, s')" and "s_nodes s \<noteq> []"
  shows "(u \<longrightarrow> s_commit_pos s < s_commit_pos s' \<and> length (s_nodes s) div 2 + 1 \<le> replicated_at s (s_commit_pos s')) \<and>
    (\<forall>p. length (s_nodes s) div 2 + 1 \<le> replicated_at s p \<longrightarrow> p \<le> s_commit_pos s')"
proof -
  define xs where "xs = sort (commit_positions s)"
  define k where "k = (length xs - 1) div 2"
  have len: "length xs = length (s_nodes s)" by (simp add: xs_def commit_positions_def)
  have "0 < length xs" using len assms(2) by simp
  then have k: "k < length xs" unfolding k_def by linarith
  have srt: "sorted xs" by (simp add: xs_def)
  have rep: "replicated_at s p = length (filter (\<lambda>x. p \<le> x) xs)" for p
    by (simp add: replicated_at_def xs_def filter_sort_length)
  have maj: "length (s_nodes s) div 2 + 1 \<le> replicated_at s (xs ! k)"
    using sorted_nth_ge_count [OF srt k] len k by (simp add: rep k_def) linarith
  have le: "p \<le> xs ! k" if "length (s_nodes s) div 2 + 1 \<le> replicated_at s p" for p
  proof (rule ccontr)
    assume "\<not> p \<le> xs ! k"
    then have "replicated_at s p \<le> length xs - Suc k" using sorted_count_above [OF srt k] by (simp add: rep)
    then show False using that len k by (simp add: k_def)
  qed
  have s': "u \<and> \<not> xs ! k \<le> s_commit_pos s \<and> s_commit_pos s' = xs ! k \<or> \<not> u \<and> xs ! k \<le> s_commit_pos s \<and> s' = s"
    using assms(1) by (auto simp: MaybeAdvanceCommitLocked_def Let_def xs_def [symmetric] k_def
        quiet_AdvanceWaiters split: if_splits)
  show ?thesis
  proof (cases u)
    case True
    with s' maj le show ?thesis by auto
  next
    case False
    with s' le show ?thesis by (meson order_trans)
  qed
qed

lemma MaybeAdvanceCommit_returns: "is_leader s \<Longrightarrow> \<exists>u s'. MaybeAdvanceCommitLocked s = Some (u, s')"
  by (auto simp: MaybeAdvanceCommitLocked_def Let_def)

definition demo_leader :: Server where
  "demo_leader = demo_candidate\<lparr>s_state := RAFT_STATE_LEADER, s_leader_id := 0,
     s_last_log_pos := \<lparr>file_num = 0, block_num = 3, record_num = 0\<rparr>,
     s_nodes := [(s_nodes demo_candidate ! 0), (s_nodes demo_candidate ! 1)\<lparr>n_match_log_pos := LogPos_zero\<rparr>,
                 (s_nodes demo_candidate ! 2)]\<rparr>"

theorem commit_is_majority_witness:
  "\<exists>u s'. MaybeAdvanceCommitLocked demo_leader = Some (u, s') \<and>
     (\<forall>p. 2 \<le> replicated_at demo_leader p \<longrightarrow> p \<le> s_commit_pos s')"
proof -
  have "is_leader demo_leader" by (simp add: demo_leader_def)
  then obtain u s' where m: "MaybeAdvanceCommitLocked demo_leader = Some (u, s')"
    using MaybeAdvanceCommit_returns by blast
  have "s_nodes demo_leader \<noteq> []" "length (s_nodes demo_leader) = 3" by (simp_all add: demo_leader_def)
  with commit_is_majority [OF m] m show ?thesis by auto
qed

section \<open>Waiting clients\<close>

definition waiters_sorted :: "Server \<Rightarrow> bool" where
  "waiters_sorted s \<longleftrightarrow> sorted_wrt (<) (map fst (s_commit_waiters s))"

lemma waiters_insert_set: "set (waiters_insert p x ws) \<subseteq> insert (p, x) (set ws)"
  by (induction p x ws rule: waiters_insert.induct) auto

lemma waiters_insert_sorted:
  "sorted_wrt (<) (map fst ws) \<Longrightarrow> sorted_wrt (<) (map fst (waiters_insert p x ws))"
proof (induction p x ws rule: waiters_insert.induct)
  case (2 p x q y ws)
  show ?case
  proof (cases "p < q \<or> p = q")
    case True
    with 2 show ?thesis by (auto intro: order_less_trans)
  next
    case False
    with 2 have "sorted_wrt (<) (map fst (waiters_insert p x ws))" by auto
    moreover have "\<forall>z \<in> set (waiters_insert p x ws). q < fst z"
      using waiters_insert_set [of p x ws] 2(2) False by fastforce
    ultimately show ?thesis using False by auto
  qed
qed simp

lemma advance_waiters_filter:
  "sorted_wrt (<) (map fst ws) \<Longrightarrow> advance_waiters c ws =
     (map (\<lambda>(p, cl, r). (cl, r\<lparr>dr_was_committed := Some True\<rparr>)) (filter (\<lambda>w. fst w \<le> c) ws),
      filter (\<lambda>w. \<not> fst w \<le> c) ws)"
proof (induction c ws rule: advance_waiters.induct)
  case (2 c p cl r ws)
  show ?case
  proof (cases "p \<le> c")
    case True
    with 2 show ?thesis by simp
  next
    case False
    then have "\<forall>w \<in> set ws. \<not> fst w \<le> c" using "2.prems" by (auto intro: order_trans)
    then have "filter (\<lambda>w. fst w \<le> c) ws = []" "filter (\<lambda>w. \<not> fst w \<le> c) ws = ws" by (simp_all add: filter_False)
    with False show ?thesis by simp
  qed
qed simp

text \<open>C16 (who is answered): when the commit position advances, exactly the waiting calls at or
  below it are answered, in log order and as committed; all the others keep waiting.\<close>

theorem commit_answers_waiters:
  assumes "MaybeAdvanceCommitLocked s = Some (True, s')" and "waiters_sorted s"
  shows "s_answered s' = s_answered s @ map (\<lambda>(p, c, r). (c, r\<lparr>dr_was_committed := Some True\<rparr>))
      (filter (\<lambda>w. fst w \<le> s_commit_pos s') (s_commit_waiters s)) \<and>
    s_commit_waiters s' = filter (\<lambda>w. \<not> fst w \<le> s_commit_pos s') (s_commit_waiters s) \<and> waiters_sorted s'"
proof -
  from assms(1) obtain p where s': "s' = AdvanceWaitersLocked (SaveStateLocked (s\<lparr>s_commit_pos := p\<rparr>))"
    by (auto simp: MaybeAdvanceCommitLocked_def Let_def split: if_splits)
  note a = advance_waiters_filter [OF assms(2) [unfolded waiters_sorted_def], of p]
  have "sorted_wrt (<) (map fst (filter (\<lambda>w. \<not> fst w \<le> p) (s_commit_waiters s)))"
    using assms(2) unfolding waiters_sorted_def by (induction "s_commit_waiters s") (auto simp: sorted_wrt_map sorted_wrt_filter)
  then show ?thesis by (simp add: s' AdvanceWaitersLocked_def a waiters_sorted_def)
qed

theorem commit_answers_waiters_witness:
  "\<exists>s'. MaybeAdvanceCommitLocked (demo_leader\<lparr>s_commit_waiters :=
        [(LogPos_zero, 7, DataResponse_empty), (\<lparr>file_num = 0, block_num = 3, record_num = 0\<rparr>, 8, DataResponse_empty)]\<rparr>) =
       Some (True, s') \<and>
     s_commit_waiters s' = filter (\<lambda>w. \<not> fst w \<le> s_commit_pos s')
        [(LogPos_zero, 7, DataResponse_empty), (\<lparr>file_num = 0, block_num = 3, record_num = 0\<rparr>, 8, DataResponse_empty)]"
proof -
  let ?ws = "[(LogPos_zero, 7, DataResponse_empty), (\<lparr>file_num = 0, block_num = 3, record_num = 0\<rparr>, 8, DataResponse_empty)]"
  let ?s = "demo_leader\<lparr>s_commit_waiters := ?ws\<rparr>"
  have m: "map n_match_log_pos (s_nodes demo_candidate) = replicate 3 LogPos_null"
    using BecomeCandidate_nodes [OF demo_candidate_eq] by (simp add: demo_server_simps Node_new_def numeral_3_eq_3)
  have "n_match_log_pos (s_nodes demo_candidate ! i) = LogPos_null" if "i < 3" for i
    using arg_cong [OF m, of "\<lambda>xs. xs ! i"] that demo_candidate_simps(5) by simp
  from this [of 0] this [of 2]
  have "n_match_log_pos (s_nodes demo_candidate ! 0) = LogPos_null" "n_match_log_pos (s_nodes demo_candidate ! 2) = LogPos_null"
    by simp_all
  then have "sort (commit_positions ?s) = [LogPos_null, LogPos_zero, \<lparr>file_num = 0, block_num = 3, record_num = 0\<rparr>]"
    using demo_candidate_simps(3)
    by (simp add: commit_positions_def demo_leader_def LogPos_zero_def LogPos_null_def less_eq_LogPos_ext_def)
  then have "\<exists>s'. MaybeAdvanceCommitLocked ?s = Some (True, s')"
    using demo_candidate_simps(9)
    by (simp add: MaybeAdvanceCommitLocked_def Let_def demo_leader_def LogPos_zero_def LogPos_null_def less_eq_LogPos_ext_def)
  then obtain s' where s': "MaybeAdvanceCommitLocked ?s = Some (True, s')" by blast
  have "waiters_sorted ?s"
    by (simp add: waiters_sorted_def LogPos_zero_def less_LogPos_ext_def less_eq_LogPos_ext_def)
  from commit_answers_waiters [OF s' this] s' show ?thesis by simp
qed

section \<open>Following a leader\<close>

lemma append_commit_fields:
  assumes "append_commit req ok sv s = (u, s')"
  shows "s_last_log_pos s' = s_last_log_pos s" "s_commit_waiters s' = s_commit_waiters s"
    "u \<Longrightarrow> ok \<and> s_commit_pos s' = PosFromProto (ae_leader_commit_pos req) \<and> s_commit_pos s' \<le> s_last_log_pos s'"
    "\<not> u \<Longrightarrow> s_commit_pos s' = s_commit_pos s"
  using assms by (auto simp: append_commit_def Let_def split: if_splits)

text \<open>C27 (a follower commits only what it has): a follower moves its commit position only to
  the leader's commit position, only after an append that succeeded, and never beyond the
  last entry of its own log.\<close>

theorem follower_commit_bound:
  assumes "Append env now req s = Some (resp, u, s')"
  shows "(u \<longrightarrow> aer_success resp \<and> s_commit_pos s' = PosFromProto (ae_leader_commit_pos req) \<and>
            s_commit_pos s' \<le> s_last_log_pos s') \<and>
    (\<not> u \<longrightarrow> s_commit_pos s' = s_commit_pos s) \<and> aer_term resp = s_current_term s'"
proof (cases "ae_term req \<ge> s_current_term s")
  case True
  with assms obtain ok sv s1 where s1: "append_log env req (append_term req s) = Some (ok, sv, s1)"
    and r: "u = fst (append_commit req ok sv s1)" "s' = SetElectionElapseTimeout now (snd (append_commit req ok sv s1))"
      "aer_success resp = ok" "aer_term resp = s_current_term (snd (append_commit req ok sv s1))"
    by (auto simp: Append_def bind_eq_Some_conv Let_def split_beta)
  obtain s2 where s2: "append_commit req ok sv s1 = (u, s2)" using r(1) by (cases "append_commit req ok sv s1") auto
  have t: "s_commit_pos (append_term req s) = s_commit_pos s"
    by (simp add: append_term_def BecomeFollowerLocked_def UpdateCurrentTermLocked_def Let_def)
  have "s_commit_pos s1 = s_commit_pos s" using quiet_append_log [OF s1] t by (simp add: quiet_def)
  moreover have "s_commit_pos s' = s_commit_pos s2" "s_last_log_pos s' = s_last_log_pos s2"
    "s_current_term s' = s_current_term s2" "aer_term resp = s_current_term s2"
    using r(2,4) s2 by (simp_all add: SetElectionElapseTimeout_def)
  ultimately show ?thesis
    using append_commit_fields(3,4) [OF s2] r(3) by (cases u) auto
next
  case False
  with assms show ?thesis by (auto simp: Append_def SetElectionElapseTimeout_def)
qed

definition demo_heartbeat :: AppendEntries where
  "demo_heartbeat = \<lparr>ae_term = 5, ae_leader_id = 1, ae_last_log_pos = Some (PosToProto LogPos_null),
     ae_last_log_term = 0, ae_leader_commit_pos = PosToProto LogPos_null, ae_entry = []\<rparr>"

theorem follower_commit_bound_witness:
  "\<exists>resp u s'. Append demo_env 0 demo_heartbeat demo_server = Some (resp, u, s') \<and> aer_term resp = s_current_term s'"
proof -
  have "\<exists>resp u s'. Append demo_env 0 demo_heartbeat demo_server = Some (resp, u, s')"
    by (simp add: Append_def demo_heartbeat_def demo_server_simps append_log_def Let_def split_beta)
  then obtain resp u s' where a: "Append demo_env 0 demo_heartbeat demo_server = Some (resp, u, s')" by blast
  from follower_commit_bound [OF a] a show ?thesis by blast
qed

text \<open>A request of an older term is answered with our term and
  without success, and changes nothing but the election timer.\<close>

theorem stale_append_refused:
  assumes "ae_term req < s_current_term s"
  shows "\<exists>resp. Append env now req s = Some (resp, False, SetElectionElapseTimeout now s) \<and>
    \<not> aer_success resp \<and> aer_term resp = s_current_term s \<and> quiet s (SetElectionElapseTimeout now s)"
  using assms quiet_timers(3) by (simp add: Append_def)

theorem stale_append_refused_witness:
  "\<exists>resp. Append demo_env 3 (demo_heartbeat\<lparr>ae_term := 0\<rparr>) demo_candidate =
      Some (resp, False, SetElectionElapseTimeout 3 demo_candidate) \<and> \<not> aer_success resp"
  using stale_append_refused [of "demo_heartbeat\<lparr>ae_term := 0\<rparr>" demo_candidate demo_env 3] demo_candidate_simps(4)
  by auto

text \<open>C21 (a committed entry can be truncated): the guard of the truncation compares the position
  behind the previous entry with the commit position by \<open><\<close>, so a leader that asks to continue
  right at the commit position makes the follower cut the committed entry that starts there;
  its last log position is then below its commit position.\<close>

theorem truncation_reaches_commit:
  assumes "TellAtBlock (n_log_reader (s_nodes s ! s_node_id s)) = s_commit_pos s" and "s_commit_pos s < log_Tell s"
    and "prev_pos < s_commit_pos s" and "truncate_behind env prev_pos s = Some (ok, s')"
  shows "ok \<and> s_last_log_pos s' < s_commit_pos s' \<and>
    (\<exists>t ok2. log_TruncateAt env (s_commit_pos s) t = Some (ok2, s') \<and> s_log_writer t = s_log_writer s \<and> s_dir t = s_dir s)"
proof -
  let ?t = "SaveStateLocked (s\<lparr>s_last_log_pos := prev_pos\<rparr>)"
  obtain ok2 where t: "log_TruncateAt env (s_commit_pos s) ?t = Some (ok2, s')" and ok: ok
    using assms by (auto simp: truncate_behind_def Let_def)
  have "s_last_log_pos s' = prev_pos" "s_commit_pos s' = s_commit_pos s"
    using t by (auto simp: log_TruncateAt_def set_log_def)
  with assms(3) t ok show ?thesis by (intro conjI exI [of _ ?t] exI [of _ ok2]) simp_all
qed

lemma demo_one_entry: "\<exists>w d X. lw_holds (env_crc demo_env) 64 2 0 w d X [] [] \<and> X \<noteq> []"
proof -
  obtain w d where h: "lw_holds (env_crc demo_env) 64 2 0 w d [] [] []" using demo_started by blast
  from log_grown [OF h, of id "[LogWrite [1]]"] obtain s1 w2 d2 X where
    a: "lw_holds (env_crc demo_env) 64 2 0 w2 d2 ([] @ X) [] []" "splits_all (log_records [LogWrite [1]]) (log_pieces X)" .
  have "X \<noteq> []" using a(2) by (auto simp: splits_all_Cons)
  with a(1) show ?thesis by auto
qed

theorem truncation_reaches_commit_witness:
  "\<exists>s s'. truncate_behind demo_env LogPos_null s = Some (True, s') \<and> s_last_log_pos s' < s_commit_pos s'"
proof -
  obtain w d X where h: "lw_holds (env_crc demo_env) 64 2 0 w d X [] []" and X: "X \<noteq> []" using demo_one_entry by blast
  let ?nd = "(Node_new ''a'' (NewReader demo_writer))\<lparr>n_log_reader := (lr_new 64 2)\<lparr>lr_file_num := 0\<rparr>\<rparr>"
  define s where "s = demo_server\<lparr>s_log_writer := w, s_dir := d, s_os := [], s_commit_pos := LogPos_zero, s_nodes := [?nd], s_node_id := 0\<rparr>"
  have sf: "s_log_writer s = w" "s_dir s = d" "s_os s = []" "s_commit_pos s = LogPos_zero" "s_node_id s = 0" "s_nodes s = [?nd]"
    by (simp_all add: s_def)
  have z: "block_pos 0 2 0 = LogPos_zero" by (simp add: block_pos_def LogPos_zero_def)
  have at: "TellAtBlock (n_log_reader (s_nodes s ! s_node_id s)) = s_commit_pos s"
    by (simp add: sf TellAtBlock_def lr_new_def LogPos_zero_def)
  have tell: "s_commit_pos s < log_Tell s"
  proof -
    have "0 < length X div 2 \<or> length X div 2 = 0 \<and> 0 < length X mod 2" using X by (cases X) (auto, presburger)
    then show ?thesis using Tell_holds [OF h] by (auto simp: log_Tell_def sf LogPos_less_iff LogPos_zero_def block_pos_def)
  qed
  have prev: "LogPos_null < s_commit_pos s" by (simp add: sf LogPos_less_iff LogPos_null_def LogPos_zero_def)
  let ?t = "SaveStateLocked (s\<lparr>s_last_log_pos := LogPos_null\<rparr>)"
  have tf: "s_log_writer ?t = w" "s_dir ?t = d" "s_os ?t = []" using sf by (simp_all add: SaveStateLocked_def)
  from TruncateAt_holds [OF h, of 0] obtain w' d' where "TruncateAt (env_crc demo_env) w d [] LogPos_zero = Some (True, w', d', [])"
    unfolding z by (metis le0)
  then have "log_TruncateAt demo_env (s_commit_pos s) ?t = Some (True, set_log w' d' [] ?t)"
    using tf sf by (simp add: log_TruncateAt_def)
  then have "truncate_behind demo_env LogPos_null s = Some (True, set_log w' d' [] ?t)"
    using at tell by (simp add: truncate_behind_def Let_def)
  with truncation_reaches_commit [OF at tell prev this] show ?thesis by blast
qed

lemma append_state: "Append env now req s = Some (resp, u, s') \<Longrightarrow> s_state s' = s_state s \<or> is_follower s'"
proof (cases "ae_term req \<ge> s_current_term s")
  case True
  assume "Append env now req s = Some (resp, u, s')"
  with True obtain ok sv s1 where s1: "append_log env req (append_term req s) = Some (ok, sv, s1)"
    and r: "s' = SetElectionElapseTimeout now (snd (append_commit req ok sv s1))"
    by (auto simp: Append_def bind_eq_Some_conv Let_def split_beta)
  have "s_state s' = s_state s1"
    using r by (auto simp: append_commit_def Let_def SetElectionElapseTimeout_def)
  moreover have "s_state s1 = s_state (append_term req s)" using quiet_append_log [OF s1] by (simp add: quiet_def)
  moreover have "s_state (append_term req s) = s_state s \<or> is_follower (append_term req s)"
    by (simp add: append_term_def BecomeFollowerLocked_def UpdateCurrentTermLocked_def Let_def)
  ultimately show ?thesis by auto
qed (auto simp: Append_def SetElectionElapseTimeout_def)

lemma VoteResponse_state:
  assumes "ProcessRequestVoteResponse env now i failed resp s = Some s'" and "is_leader s'" and "\<not> is_leader s"
  shows "is_candidate s \<and> s_current_term s' = s_current_term s"
proof (cases "\<not> failed \<and> is_candidate s \<and> rvr_vote_granted resp")
  case True
  obtain n s1 where c: "count_votes (upd_node i (\<lambda>nd. nd\<lparr>n_votes_for_me := True\<rparr>) s) = (n, s1)" by force
  have q: "quiet s s1" using quiet_trans [OF quiet_upd_node quiet_count_votes [OF c]] .
  from assms(1) True c obtain s2 where s': "s' = finish_vote s2" and s2: "s2 = s1 \<or> BecomeLeaderLocked env now s1 = Some s2"
    by (auto simp: ProcessRequestVoteResponse_def split: if_splits)
  have "s_current_term s2 = s_current_term s1"
    using s2 by (auto simp: BecomeLeaderLocked_def Let_def bind_eq_Some_conv quiet_def split: if_splits dest!: quiet_Heartbeat)
  moreover have "s_current_term s' = s_current_term s2"
    by (simp add: s' finish_vote_def Let_def BecomeFollowerLocked_def)
  ultimately show ?thesis using True q by (simp add: quiet_def)
next
  case False
  with assms(1) have "s' = finish_vote s" by (auto simp: ProcessRequestVoteResponse_def)
  with assms(2,3) show ?thesis by (auto simp: finish_vote_def Let_def BecomeFollowerLocked_def split: if_splits)
qed

lemma AppendResponse_state:
  assumes "ProcessAppendEntriesResponse env i failed req resp s = Some (u, s')"
  shows "s_state s' = s_state s \<or> is_follower s'"
proof -
  have st: "s_state (upd_node i f t) = s_state t" for f t by (simp add: upd_node_def)
  have "s_state s2 = s_state t" if "MaybeAdvanceCommitLocked t = Some (v, s2)" for t v s2
    using that by (auto simp: MaybeAdvanceCommitLocked_def Let_def quiet_AdvanceWaiters split: if_splits)
  moreover have "s_state s2 = s_state t" if "DegradeNodeLocked env i req resp t = Some s2" for t s2
    using quiet_Degrade [OF that] by (simp add: quiet_def)
  moreover have "s_state s2 = s_state t" if "SendAppendEntriesToNodeLocked env i b m t = Some s2" for b m t s2
    using quiet_SendAppend [OF that] by (simp add: quiet_def)
  ultimately show ?thesis
    using assms unfolding ProcessAppendEntriesResponse_def Let_def
    by (auto simp: bind_eq_Some_conv st UpdateCurrentTermLocked_def BecomeFollowerLocked_def Let_def split: if_splits)
qed

lemma Save_state: "Save env c req s = Some (r, s') \<Longrightarrow> s_state s' = s_state s"
proof (cases "is_leader s")
  case True
  assume "Save env c req s = Some (r, s')"
  from this True show ?thesis
  proof (cases rule: Save_cases)
    case (failed e)
    then show ?thesis using quiet_log_ops(1) by (simp add: quiet_def)
  next
    case (written e s1 ok s2 p t sel s4 ws)
    then show ?thesis
      using quiet_log_ops(1) [OF written(1)] quiet_log_ops(2) [OF written(2)] quiet_send_to_nodes [OF written(3)]
      by (simp add: quiet_def)
  qed
qed (auto simp: Save_def split: if_splits)

text \<open>A server becomes leader only from being a candidate, in the same
  term, by the answer to one of its vote requests; neither messages of others, nor client
  calls, nor timeouts, nor a restart make a leader.\<close>

theorem leader_only_by_election:
  assumes "raft_step env s s'" and "is_leader s'" and "\<not> is_leader s"
  shows "is_candidate s \<and> s_current_term s' = s_current_term s \<and>
    (\<exists>now i failed resp. ProcessRequestVoteResponse env now i failed resp s = Some s')"
  using assms(1)
proof cases
  case (step_Vote req resp)
  then show ?thesis using assms(2,3) by (auto simp: Vote_def Let_def split: if_splits)
next
  case (step_VoteResponse now i failed resp)
  from VoteResponse_state [OF this assms(2,3)] this show ?thesis by blast
next
  case (step_Append now req resp u)
  from append_state [OF this] assms(2,3) show ?thesis by auto
next
  case (step_AppendResponse i failed req resp u)
  from AppendResponse_state [OF this] assms(2,3) show ?thesis by auto
next
  case (step_Save c req r)
  from Save_state [OF this] assms(2,3) show ?thesis by simp
next
  case (step_Periodic now)
  then show ?thesis using assms(2,3) by (auto simp: PeriodicCheck_def dest: BecomeCandidate_fields(1) split: if_splits)
next
  case (step_Restart now i names lw d os v)
  then show ?thesis using assms(2)
    by (auto simp: Server_Initialize_def LoadStateLocked_def Server_new_def SetElectionElapseTimeout_def
        split: if_splits prod.splits bool.splits state_file.splits)
qed

section \<open>Heartbeats to nodes that are up to date\<close>

lemma SendAppend_idle:
  assumes "is_leader s" and "i < length (s_nodes s)" and "\<not> n_next_log_pos (s_nodes s ! i) < log_Tell s"
  obtains s' where "SendAppendEntriesToNodeLocked env i False m s = Some s'"
    and "is_leader s'" and "map n_next_log_pos (s_nodes s') = map n_next_log_pos (s_nodes s)" and "log_Tell s' = log_Tell s"
proof (cases "n_in_transfer (s_nodes s ! i)")
  case True
  with that [of s] assms(1) show ?thesis by (simp add: SendAppendEntriesToNodeLocked_def)
next
  case False
  have p: "pull_entries env (s_dir s) (log_Tell s) m (s_nodes s ! i) [] 0 = Some (s_nodes s ! i, [])"
    using assms(3) by (simp add: pull_entries.simps)
  have l: "log_Tell (t\<lparr>s_nodes := ns, s_out := x\<rparr>) = log_Tell t" for t ns x by (simp add: log_Tell_def)
  have "\<exists>x. SendAppendEntriesToNodeLocked env i False m s =
      Some (s\<lparr>s_nodes := (s_nodes s)[i := (s_nodes s ! i)\<lparr>n_in_transfer := True\<rparr>], s_out := x\<rparr>)"
    using False p assms by (simp add: SendAppendEntriesToNodeLocked_def FillAppendEntriesLocked_def
      SendAppendLocked_def upd_node_def Let_def) blast
  then obtain x where x: "SendAppendEntriesToNodeLocked env i False m s =
      Some (s\<lparr>s_nodes := (s_nodes s)[i := (s_nodes s ! i)\<lparr>n_in_transfer := True\<rparr>], s_out := x\<rparr>)" by blast
  have "map n_next_log_pos ((s_nodes s)[i := (s_nodes s ! i)\<lparr>n_in_transfer := True\<rparr>]) = map n_next_log_pos (s_nodes s)"
    using assms(2) by (intro nth_equalityI) (auto simp: nth_list_update)
  with that [OF x] assms(1) l show ?thesis by simp
qed

lemma send_to_nodes_idle:
  "is_leader s \<Longrightarrow> \<forall>i \<in> set is. i < length (s_nodes s) \<and> \<not> n_next_log_pos (s_nodes s ! i) < log_Tell s \<Longrightarrow>
   \<exists>s'. send_to_nodes env sel is s = Some s'"
proof (induction "is" arbitrary: s)
  case (Cons i "is")
  show ?case
  proof (cases "sel s i")
    case True
    have i: "i < length (s_nodes s)" "\<not> n_next_log_pos (s_nodes s ! i) < log_Tell s" using Cons.prems(2) by auto
    obtain s1 where s1: "SendAppendEntriesToNodeLocked env i False (s_max_entries_size s) s = Some s1" "is_leader s1"
        "map n_next_log_pos (s_nodes s1) = map n_next_log_pos (s_nodes s)" "log_Tell s1 = log_Tell s"
      by (rule SendAppend_idle [OF Cons.prems(1) i])
    have "length (s_nodes s1) = length (s_nodes s)" using arg_cong [OF s1(3), of length] by simp
    moreover have "n_next_log_pos (s_nodes s1 ! j) = n_next_log_pos (s_nodes s ! j)" if "j < length (s_nodes s)" for j
      using arg_cong [OF s1(3), of "\<lambda>xs. xs ! j"] that calculation by simp
    ultimately have "\<forall>j \<in> set is. j < length (s_nodes s1) \<and> \<not> n_next_log_pos (s_nodes s1 ! j) < log_Tell s1"
      using Cons.prems(2) s1(4) by simp
    from Cons.IH [OF s1(2) this] s1(1) True show ?thesis by simp
  qed (use Cons in simp)
qed simp

lemma BecomeLeader_empty_log:
  assumes "is_candidate s" and "s_last_log_pos s = LogPos_null" and "log_Tell s = LogPos_zero"
    and "s_node_id s < length (s_nodes s)"
  shows "\<exists>s'. BecomeLeaderLocked env now s = Some s'"
proof -
  have null: "LogPos_IsNull LogPos_null" by (simp add: LogPos_IsNull_def LogPos_null_def)
  have tell: "log_Tell (SaveStateLocked (s\<lparr>s_state := a, s_voted_for := b, s_leader_id := c, s_nodes := ns\<rparr>)) = log_Tell s"
    for a b c ns by (simp add: log_Tell_def)
  have "n_next_log_pos (if b then nd1 else map f ns ! i) = LogPos_zero"
    if "n_next_log_pos nd1 = LogPos_zero" "i < length ns" "\<And>nd. n_next_log_pos (f nd) = LogPos_zero"
    for b nd1 f ns i using that by simp
  note next_zero = this
  show ?thesis
    using assms null unfolding BecomeLeaderLocked_def node_Seek_def Seek_def SendHeartbeatToFollowersLocked_def Let_def
    by (auto simp: tell nth_list_update next_zero intro!: send_to_nodes_idle)
qed

lemma demo_candidate_tell: "log_Tell demo_candidate = LogPos_zero"
  by (simp add: log_Tell_def demo_candidate_simps LogWriter_Tell_def demo_writer_def demo_dir_def file_content_def
      file_limit_def PendingRecordCount_def LogPos_zero_def)

theorem one_vote_elects_witness:
  "\<exists>s'. ProcessRequestVoteResponse demo_env 0 1 False \<lparr>rvr_term = 1, rvr_vote_granted = True\<rparr> demo_candidate = Some s' \<and>
     is_leader s' \<and> s_current_term s' = 1 \<and> length (s_nodes demo_candidate) = 3"
proof -
  let ?t = "upd_node 1 (\<lambda>nd. nd\<lparr>n_votes_for_me := True\<rparr>) demo_candidate"
  let ?s1 = "?t\<lparr>s_nodes := map (\<lambda>nd. nd\<lparr>n_votes_for_me := True\<rparr>) (s_nodes ?t)\<rparr>"
  have len: "length (s_nodes demo_candidate) = 3" using demo_candidate_simps(5) by simp
  have c: "count_votes ?t = (3, ?s1)"
    using len by (simp add: count_votes_def Let_def upd_node_def o_def sum_list_triv)
  have "\<exists>s2. BecomeLeaderLocked demo_env 0 ?s1 = Some s2"
    using demo_candidate_simps demo_candidate_tell
    by (intro BecomeLeader_empty_log) (simp_all add: upd_node_def log_Tell_def)
  then obtain s2 where "BecomeLeaderLocked demo_env 0 ?s1 = Some s2" by blast
  then have p: "ProcessRequestVoteResponse demo_env 0 1 False \<lparr>rvr_term = 1, rvr_vote_granted = True\<rparr> demo_candidate =
      Some (finish_vote s2)"
    using c len demo_candidate_simps(1) by (simp add: ProcessRequestVoteResponse_def upd_node_def)
  have "s_nodes demo_candidate \<noteq> []" using len by auto
  with one_vote_elects [OF p demo_candidate_simps(1)] p len demo_candidate_simps(4) show ?thesis by simp
qed

theorem leader_only_by_election_witness:
  "\<exists>s'. raft_step demo_env demo_candidate s' \<and> is_leader s' \<and> s_current_term s' = s_current_term demo_candidate"
proof -
  let ?r = "\<lparr>rvr_term = 1, rvr_vote_granted = True\<rparr>"
  let ?t = "upd_node 1 (\<lambda>nd. nd\<lparr>n_votes_for_me := True\<rparr>) demo_candidate"
  let ?s1 = "?t\<lparr>s_nodes := map (\<lambda>nd. nd\<lparr>n_votes_for_me := True\<rparr>) (s_nodes ?t)\<rparr>"
  have len: "length (s_nodes demo_candidate) = 3" using demo_candidate_simps(5) by simp
  obtain s2 where b: "BecomeLeaderLocked demo_env 0 ?s1 = Some s2"
    using demo_candidate_simps demo_candidate_tell BecomeLeader_empty_log [of ?s1 demo_env 0]
    by (auto simp: upd_node_def log_Tell_def)
  then have l: "is_leader s2"
    by (auto simp: BecomeLeaderLocked_def Let_def bind_eq_Some_conv quiet_def split: if_splits dest!: quiet_Heartbeat)
  have "ProcessRequestVoteResponse demo_env 0 1 False ?r demo_candidate = Some (finish_vote s2)"
    using b len demo_candidate_simps(1)
    by (simp add: ProcessRequestVoteResponse_def upd_node_def count_votes_def Let_def o_def sum_list_triv)
  then have st: "raft_step demo_env demo_candidate (finish_vote s2)" by (rule step_VoteResponse)
  have "is_leader (finish_vote s2)" using l by (simp add: finish_vote_def Let_def)
  with leader_only_by_election [OF st this] st demo_candidate_simps(1) show ?thesis by auto
qed

text \<open>A server restarted from a saved state has the term, the
  vote, the last log position and term and the commit position it saved (a null position
  comes back as the canonical null position).\<close>

theorem state_file_roundtrip:
  "\<exists>s1. LoadStateLocked (Server_new lw d (s_state_file (SaveStateLocked s)) os v) = (True, s1) \<and>
     s_current_term s1 = s_current_term s \<and> s_voted_for s1 = (if 0 \<le> s_voted_for s then s_voted_for s else -1) \<and>
     s_last_log_pos s1 = pos_key (s_last_log_pos s) \<and> s_last_log_term s1 = s_last_log_term s \<and>
     s_commit_pos s1 = pos_key (s_commit_pos s) \<and>
     (\<forall>p. pos_key p = (if LogPos_IsNull p then LogPos_null else p))"
  by (simp add: LoadStateLocked_def SaveStateLocked_def Server_new_def pb_get_def pos_key_def PosFromProto_PosToProto)

end
