(* ===== verification/RaftClient.thy ===== *)
theory RaftClient
  imports RaftTypes
begin

text \<open>
  Model of \<open>src/whisperlib/raft/raft_client.h\<close> and \<open>raft_client.cc\<close>: the client that sends data to the
  replicas of the log. Its methods run as closures of the selector, which runs them in the order
  in which they were handed to \<open>RunInSelectLoop\<close>: the queue of the selector is part of the
  state. A call of \<open>stub_->Save\<close> hands the start of the call to the selector too
  (\<open>rpc::HttpClient::CallMethod\<close>) and is answered at any time after that. The requests are objects on
  the heap; the use of a deleted one is \<open>None\<close>, like a failed \<open>CHECK\<close>. The connection objects
  are created and deleted together and are the flag \<open>cl_stub\<close>.
\<close>

section \<open>State\<close>

datatype Task = StartRequest nat | SendRpc nat | CloseAndRestart | IncrementCloseCount | RestartActive

record RequestData =
  rd_data :: bytes
  rd_commit_callback :: bool
  rd_close_count :: nat
  rd_retries :: nat

record Client =
  cl_replicas :: "string list"
  cl_leader_name :: string
  cl_next_index :: nat
  cl_crt_server :: string
  cl_stub :: bool
  cl_close_count :: nat
  cl_deleting :: bool
  cl_restarting :: bool
  cl_active_requests :: "nat list"
  cl_requests :: "nat \<Rightarrow> RequestData option"
  cl_fresh :: nat
  cl_queue :: "Task list"
  cl_inflight :: "nat list"
  cl_done :: "(nat \<times> bool) list"

definition Client_new :: "string list \<Rightarrow> Client" where
  "Client_new replicas =
     \<lparr>cl_replicas = replicas, cl_leader_name = [], cl_next_index = 0, cl_crt_server = [], cl_stub = False,
      cl_close_count = 0, cl_deleting = False, cl_restarting = False, cl_active_requests = [],
      cl_requests = (\<lambda>_. None), cl_fresh = 0, cl_queue = [], cl_inflight = [], cl_done = []\<rparr>"

definition RunInSelectLoop :: "Task \<Rightarrow> Client \<Rightarrow> Client" where
  "RunInSelectLoop t c = c\<lparr>cl_queue := cl_queue c @ [t]\<rparr>"

section \<open>Operations\<close>

definition InitializeNetwork :: "Client \<Rightarrow> Client option" where
  "InitializeNetwork c =
     (if cl_stub c then None
      else if cl_leader_name c = [] then
        if cl_next_index c < length (cl_replicas c)
        then Some (c\<lparr>cl_crt_server := cl_replicas c ! cl_next_index c,
                     cl_next_index := (cl_next_index c + 1) mod length (cl_replicas c), cl_stub := True\<rparr>)
        else None
      else Some (c\<lparr>cl_crt_server := cl_leader_name c, cl_stub := True\<rparr>))"

text \<open>A new request and its first start.\<close>

definition SendData :: "bytes \<Rightarrow> bool \<Rightarrow> Client \<Rightarrow> Client" where
  "SendData data commit_callback c =
     RunInSelectLoop (StartRequest (cl_fresh c))
       (c\<lparr>cl_requests := (cl_requests c)(cl_fresh c \<mapsto>
            \<lparr>rd_data = data, rd_commit_callback = commit_callback, rd_close_count = 0, rd_retries = 0\<rparr>),
          cl_fresh := cl_fresh c + 1\<rparr>)"

definition Client_StartRequest :: "nat \<Rightarrow> Client \<Rightarrow> Client option" where
  "Client_StartRequest i c =
     (case cl_requests c i of
        None \<Rightarrow> None
      | Some d \<Rightarrow>
          let c1 = c\<lparr>cl_active_requests :=
                       (if i \<in> set (cl_active_requests c) then cl_active_requests c else cl_active_requests c @ [i]),
                     cl_requests := (cl_requests c)(i \<mapsto> d\<lparr>rd_close_count := cl_close_count c\<rparr>)\<rparr>
          in map_option (RunInSelectLoop (SendRpc i)) (if cl_stub c1 then Some c1 else InitializeNetwork c1))"

text \<open>The request is removed and deleted; its callback, if it has one, is run with the result.\<close>

definition CompleteData :: "nat \<Rightarrow> bool \<Rightarrow> Client \<Rightarrow> Client option" where
  "CompleteData i success c =
     (case cl_requests c i of
        None \<Rightarrow> None
      | Some d \<Rightarrow>
          if i \<notin> set (cl_active_requests c) then None
          else Some (c\<lparr>cl_done := cl_done c @ [(i, success)], cl_active_requests := remove1 i (cl_active_requests c),
                       cl_requests := (cl_requests c)(i := None)\<rparr>))"

definition ProcessResponse :: "nat \<Rightarrow> bool \<Rightarrow> DataResponse \<Rightarrow> Client \<Rightarrow> Client option" where
  "ProcessResponse i failed resp c =
     (case cl_requests c i of
        None \<Rightarrow> None
      | Some d \<Rightarrow>
          if \<not> failed \<and> dr_pos resp \<noteq> None then CompleteData i True c
          else
            let c1 = c\<lparr>cl_leader_name := (if failed then [] else case dr_leader_name resp of None \<Rightarrow> [] | Some n \<Rightarrow> n)\<rparr> in
            if cl_deleting c1 then CompleteData i False c1
            else if cl_close_count c1 = rd_close_count d \<and> \<not> cl_restarting c1
            then Some (RunInSelectLoop CloseAndRestart (c1\<lparr>cl_restarting := True\<rparr>))
            else Some c1)"

text \<open>The answer to a call that is in flight.\<close>

definition Answer :: "nat \<Rightarrow> bool \<Rightarrow> DataResponse \<Rightarrow> Client \<Rightarrow> Client option" where
  "Answer i failed resp c =
     (if i \<in> set (cl_inflight c) then ProcessResponse i failed resp (c\<lparr>cl_inflight := remove1 i (cl_inflight c)\<rparr>) else Some c)"

text \<open>
  \<open>StartClose\<close> of the connection cancels calls in flight: those that it completes before it returns are
  an argument, the others are answered later.
\<close>

fun cancel_calls :: "nat list \<Rightarrow> Client \<Rightarrow> Client option" where
  "cancel_calls [] c = Some c"
| "cancel_calls (i # is) c = Option.bind (Answer i True DataResponse_empty c) (cancel_calls is)"

definition Close :: "nat list \<Rightarrow> Client \<Rightarrow> Client option" where
  "Close cancelled c =
     Option.bind (if cl_stub c then cancel_calls cancelled (c\<lparr>cl_stub := False\<rparr>) else Some c) (\<lambda>c1.
       if cl_deleting c1 then (if cl_active_requests c1 = [] then Some c1 else None)
       else Some (RunInSelectLoop IncrementCloseCount c1))"

definition Client_delete :: "nat list \<Rightarrow> Client \<Rightarrow> Client option" where
  "Client_delete cancelled c = Close cancelled (c\<lparr>cl_deleting := True\<rparr>)"

definition Client_IncrementCloseCount :: "Client \<Rightarrow> Client" where
  "Client_IncrementCloseCount c = c\<lparr>cl_close_count := cl_close_count c + 1\<rparr>"

definition Client_CloseAndRestart :: "nat list \<Rightarrow> Client \<Rightarrow> Client option" where
  "Client_CloseAndRestart cancelled c = map_option (RunInSelectLoop RestartActive) (Close cancelled c)"

definition PrepareForRetry :: "nat \<Rightarrow> Client \<Rightarrow> Client" where
  "PrepareForRetry i c = c\<lparr>cl_requests := (cl_requests c)(i := map_option (\<lambda>d. d\<lparr>rd_retries := rd_retries d + 1\<rparr>) (cl_requests c i))\<rparr>"

fun restart_loop :: "nat list \<Rightarrow> Client \<Rightarrow> Client option" where
  "restart_loop [] c = Some c"
| "restart_loop (i # is) c =
     (case cl_requests c i of
        None \<Rightarrow> None
      | Some d \<Rightarrow>
          if cl_close_count c > rd_close_count d
          then Option.bind (Client_StartRequest i (PrepareForRetry i c)) (restart_loop is)
          else restart_loop is c)"

definition Client_RestartActive :: "Client \<Rightarrow> Client option" where
  "Client_RestartActive c = restart_loop (cl_active_requests c) (c\<lparr>cl_restarting := False, cl_leader_name := []\<rparr>)"

section \<open>The select loop\<close>

text \<open>One closure of the queue, and what happens outside of it: a call of \<open>SendData\<close>, an answer.\<close>

fun run_task :: "nat list \<Rightarrow> Task \<Rightarrow> Client \<Rightarrow> Client option" where
  "run_task cancelled (StartRequest i) c = Client_StartRequest i c"
| "run_task cancelled (SendRpc i) c = Some (c\<lparr>cl_inflight := cl_inflight c @ [i]\<rparr>)"
| "run_task cancelled CloseAndRestart c = Client_CloseAndRestart cancelled c"
| "run_task cancelled IncrementCloseCount c = Some (Client_IncrementCloseCount c)"
| "run_task cancelled RestartActive c = Client_RestartActive c"

datatype Event = Send bytes bool | Run "nat list" | Answered nat bool DataResponse

fun client_event :: "Event \<Rightarrow> Client \<Rightarrow> Client option" where
  "client_event (Send data cb) c = Some (SendData data cb c)"
| "client_event (Run cancelled) c =
     (case cl_queue c of [] \<Rightarrow> Some c | t # ts \<Rightarrow> run_task cancelled t (c\<lparr>cl_queue := ts\<rparr>))"
| "client_event (Answered i failed resp) c = Answer i failed resp c"

fun client_run :: "Event list \<Rightarrow> Client \<Rightarrow> Client option" where
  "client_run [] c = Some c"
| "client_run (e # es) c = Option.bind (client_event e c) (client_run es)"

end
