(* ===== verification/RaftClientProps.thy ===== *)
theory RaftClientProps
  imports RaftClient
begin

text \<open>
  Properties of the Raft client: along every run no request is lost, each is completed at most
  once; a connection is restarted in three closures, and what happens to requests that are
  sent in between.
\<close>

section \<open>The invariant\<close>

text \<open>The closures of a restart that are in the queue.\<close>

fun restart_task :: "Task \<Rightarrow> bool" where
  "restart_task CloseAndRestart = True"
| "restart_task IncrementCloseCount = True"
| "restart_task RestartActive = True"
| "restart_task _ = False"

definition control :: "Client \<Rightarrow> Task list" where
  "control c = filter restart_task (cl_queue c)"

definition rcc :: "Client \<Rightarrow> nat \<Rightarrow> nat" where
  "rcc c i = rd_close_count (the (cl_requests c i))"

definition phase_ok :: "Client \<Rightarrow> bool" where
  "phase_ok c \<longleftrightarrow> \<not> cl_deleting c \<and>
     (control c = [] \<and> \<not> cl_restarting c \<or>
      cl_restarting c \<and> control c \<in> {[CloseAndRestart], [IncrementCloseCount, RestartActive], [RestartActive]})"

text \<open>The calls that start only after the active requests are restarted.\<close>

definition sent_after :: "nat \<Rightarrow> Client \<Rightarrow> bool" where
  "sent_after i c \<longleftrightarrow> SendRpc i \<in> set (dropWhile (\<lambda>t. t \<noteq> RestartActive) (cl_queue c))"

definition counts_ok :: "Client \<Rightarrow> bool" where
  "counts_ok c \<longleftrightarrow> (\<forall>i \<in> set (cl_active_requests c).
     if control c = [RestartActive] then rcc c i < cl_close_count c \<or> rcc c i = cl_close_count c \<and> sent_after i c
     else rcc c i = cl_close_count c)"

text \<open>A request that is waited for: a call is in flight or about to start, or the request will be restarted.\<close>

definition covered :: "nat \<Rightarrow> Client \<Rightarrow> bool" where
  "covered i c \<longleftrightarrow> i \<in> set (cl_inflight c) \<or> SendRpc i \<in> set (cl_queue c) \<or> CloseAndRestart \<in> set (cl_queue c) \<or>
     RestartActive \<in> set (cl_queue c) \<and> (IncrementCloseCount \<in> set (cl_queue c) \<or> rcc c i < cl_close_count c)"

definition known :: "Client \<Rightarrow> bool" where
  "known c \<longleftrightarrow> distinct (cl_active_requests c) \<and> distinct (map fst (cl_done c)) \<and>
     (\<forall>i \<in> set (cl_active_requests c). cl_requests c i \<noteq> None) \<and>
     (\<forall>i \<in> fst ` set (cl_done c). cl_requests c i = None \<and> i < cl_fresh c) \<and>
     (\<forall>i. cl_requests c i \<noteq> None \<longrightarrow> i < cl_fresh c) \<and>
     (\<forall>i < cl_fresh c. i \<in> fst ` set (cl_done c) \<or> i \<in> set (cl_active_requests c) \<or> StartRequest i \<in> set (cl_queue c))"

definition client_inv :: "Client \<Rightarrow> bool" where
  "client_inv c \<longleftrightarrow> phase_ok c \<and> counts_ok c \<and> known c \<and> (\<forall>i \<in> set (cl_active_requests c). covered i c)"

lemma client_inv_new: "client_inv (Client_new replicas)"
  by (simp add: client_inv_def phase_ok_def counts_ok_def known_def control_def Client_new_def)

section \<open>What the operations keep\<close>

lemma InitializeNetwork_frame:
  "InitializeNetwork c = Some c' \<Longrightarrow> cl_close_count c' = cl_close_count c \<and> cl_deleting c' = cl_deleting c \<and>
     cl_restarting c' = cl_restarting c \<and> cl_active_requests c' = cl_active_requests c \<and> cl_requests c' = cl_requests c \<and>
     cl_fresh c' = cl_fresh c \<and> cl_queue c' = cl_queue c \<and> cl_inflight c' = cl_inflight c \<and> cl_done c' = cl_done c"
  by (auto simp: InitializeNetwork_def split: if_splits)

lemma StartRequest_frame:
  assumes "Client_StartRequest i c = Some c'"
  shows "cl_close_count c' = cl_close_count c \<and> cl_deleting c' = cl_deleting c \<and> cl_restarting c' = cl_restarting c \<and>
     cl_fresh c' = cl_fresh c \<and> cl_inflight c' = cl_inflight c \<and> cl_done c' = cl_done c"
    and "cl_queue c' = cl_queue c @ [SendRpc i]" and "cl_requests c i \<noteq> None"
    and "cl_active_requests c' = (if i \<in> set (cl_active_requests c) then cl_active_requests c else cl_active_requests c @ [i])"
    and "cl_requests c' = (cl_requests c)(i \<mapsto> (the (cl_requests c i))\<lparr>rd_close_count := cl_close_count c\<rparr>)"
proof -
  obtain d where d: "cl_requests c i = Some d" using assms by (auto simp: Client_StartRequest_def split: option.splits)
  define c1 where "c1 = c\<lparr>cl_active_requests := (if i \<in> set (cl_active_requests c) then cl_active_requests c else cl_active_requests c @ [i]),
                     cl_requests := (cl_requests c)(i \<mapsto> d\<lparr>rd_close_count := cl_close_count c\<rparr>)\<rparr>"
  have "Client_StartRequest i c = map_option (RunInSelectLoop (SendRpc i)) (if cl_stub c1 then Some c1 else InitializeNetwork c1)"
    by (simp only: Client_StartRequest_def d option.case Let_def c1_def)
  with assms obtain c2 where c2: "(if cl_stub c1 then Some c1 else InitializeNetwork c1) = Some c2" "c' = RunInSelectLoop (SendRpc i) c2"
    by (simp only: map_option_eq_Some) blast
  have f: "cl_close_count c2 = cl_close_count c1 \<and> cl_deleting c2 = cl_deleting c1 \<and>
     cl_restarting c2 = cl_restarting c1 \<and> cl_active_requests c2 = cl_active_requests c1 \<and> cl_requests c2 = cl_requests c1 \<and>
     cl_fresh c2 = cl_fresh c1 \<and> cl_queue c2 = cl_queue c1 \<and> cl_inflight c2 = cl_inflight c1 \<and> cl_done c2 = cl_done c1"
    using c2(1) InitializeNetwork_frame [of c1 c2] by (auto split: if_splits)
  from f c2(2) d show "cl_close_count c' = cl_close_count c \<and> cl_deleting c' = cl_deleting c \<and> cl_restarting c' = cl_restarting c \<and>
     cl_fresh c' = cl_fresh c \<and> cl_inflight c' = cl_inflight c \<and> cl_done c' = cl_done c"
    and "cl_queue c' = cl_queue c @ [SendRpc i]" and "cl_requests c i \<noteq> None"
    and "cl_active_requests c' = (if i \<in> set (cl_active_requests c) then cl_active_requests c else cl_active_requests c @ [i])"
    and "cl_requests c' = (cl_requests c)(i \<mapsto> (the (cl_requests c i))\<lparr>rd_close_count := cl_close_count c\<rparr>)"
    by (simp_all add: RunInSelectLoop_def c1_def)
qed

lemma dropWhile_snoc_in: "RestartActive \<in> set q \<Longrightarrow> set (dropWhile (\<lambda>t. t \<noteq> RestartActive) (q @ r)) = set (dropWhile (\<lambda>t. t \<noteq> RestartActive) q) \<union> set r"
  by (induction q) auto

lemma control_in_queue: "control c = ts \<Longrightarrow> t \<in> set ts \<Longrightarrow> t \<in> set (cl_queue c)"
  unfolding control_def using filter_is_subset [of restart_task "cl_queue c"] by blast

lemma control_RA: "control c = [RestartActive] \<Longrightarrow> RestartActive \<in> set (cl_queue c)"
  by (erule control_in_queue) simp

text \<open>
  The invariant is about the fields below; \<open>b\<close> is the client before the closure at the head of its
  queue is run, \<open>q\<close> the rest of the queue.
\<close>

lemma start_inv:
  assumes "client_inv b" and "cl_queue b = StartRequest i # q" and "Client_StartRequest i (b\<lparr>cl_queue := q\<rparr>) = Some c"
  shows "client_inv c"
proof -
  note f = StartRequest_frame [OF assms(3), simplified]
  have q: "cl_queue c = q @ [SendRpc i]" using f by simp
  have con: "control c = control b" "RestartActive \<in> set q \<longleftrightarrow> RestartActive \<in> set (cl_queue b)" using q assms(2) by (auto simp: control_def)
  have r: "rcc c j = (if j = i then cl_close_count b else rcc b j)" for j using f by (simp add: rcc_def)
  have sa: "sent_after j c \<longleftrightarrow> sent_after j b \<or> j = i" if "control b = [RestartActive]" for j
    using control_RA [OF that] dropWhile_snoc_in [of q "[SendRpc i]"] q assms(2) by (auto simp: sent_after_def)
  have a: "set (cl_active_requests c) = insert i (set (cl_active_requests b))" using f by auto
  have "phase_ok c" using assms(1) f con(1) by (simp add: client_inv_def phase_ok_def)
  moreover have "counts_ok c" using assms(1) f sa by (auto simp: client_inv_def counts_ok_def con(1) a r)
  moreover have "known c" using assms(1,2) f q by (auto simp: client_inv_def known_def)
  moreover have "covered j c" if "j \<in> set (cl_active_requests c)" for j
    using that [unfolded a] assms(1,2) f(1) q r [of j] by (auto simp: client_inv_def covered_def)
  ultimately show ?thesis by (simp add: client_inv_def)
qed

lemma send_inv:
  assumes "client_inv b"
  shows "client_inv (SendData data cb b)"
proof -
  let ?c = "SendData data cb b"
  have f: "cl_queue ?c = cl_queue b @ [StartRequest (cl_fresh b)]" "cl_active_requests ?c = cl_active_requests b" "cl_inflight ?c = cl_inflight b"
    "cl_done ?c = cl_done b" "cl_close_count ?c = cl_close_count b" "cl_fresh ?c = cl_fresh b + 1" "cl_deleting ?c = cl_deleting b"
    "cl_restarting ?c = cl_restarting b" "j \<noteq> cl_fresh b \<Longrightarrow> cl_requests ?c j = cl_requests b j" "cl_requests ?c (cl_fresh b) \<noteq> None" for j
    by (simp_all add: SendData_def RunInSelectLoop_def)
  have k: "known b" "\<forall>i \<in> set (cl_active_requests b). i < cl_fresh b" using assms by (auto simp: client_inv_def known_def)
  have con: "control ?c = control b" by (simp add: control_def f(1))
  have r: "rcc ?c j = rcc b j" if "j \<in> set (cl_active_requests b)" for j using f(9) [of j] k(2) that by (auto simp: rcc_def)
  have sa: "sent_after j b \<Longrightarrow> sent_after j ?c" if "control b = [RestartActive]" for j
    using control_RA [OF that] dropWhile_snoc_in [of "cl_queue b" "[StartRequest (cl_fresh b)]"] f(1) by (auto simp: sent_after_def)
  have "phase_ok ?c" using assms f con by (simp add: client_inv_def phase_ok_def)
  moreover have "counts_ok ?c" using assms f r sa by (auto simp: client_inv_def counts_ok_def con)
  moreover have "known ?c" unfolding known_def
  proof (intro conjI)
    show "\<forall>i < cl_fresh ?c. i \<in> fst ` set (cl_done ?c) \<or> i \<in> set (cl_active_requests ?c) \<or> StartRequest i \<in> set (cl_queue ?c)"
      using k(1) f by (auto simp: known_def less_Suc_eq)
    show "\<forall>i. cl_requests ?c i \<noteq> None \<longrightarrow> i < cl_fresh ?c" using k(1) f(6,9) by (metis known_def less_Suc_eq Suc_eq_plus1)
    show "\<forall>i \<in> set (cl_active_requests ?c). cl_requests ?c i \<noteq> None" using k f(2,9) unfolding known_def by (metis less_irrefl)
    show "\<forall>i \<in> fst ` set (cl_done ?c). cl_requests ?c i = None \<and> i < cl_fresh ?c" using k(1) f by (auto simp: known_def)
  qed (use k(1) f in \<open>simp_all add: known_def\<close>)
  moreover have "covered j ?c" if "j \<in> set (cl_active_requests ?c)" for j
    using that assms f r [of j] by (auto simp: client_inv_def covered_def)
  ultimately show ?thesis by (simp add: client_inv_def)
qed

text \<open>A completed request leaves the active ones.\<close>

lemma complete_inv:
  assumes "client_inv b" and "CompleteData i ok (b\<lparr>cl_inflight := fl\<rparr>) = Some c" and "set (cl_inflight b) \<subseteq> insert i (set fl)"
  shows "client_inv c"
proof -
  have f: "cl_queue c = cl_queue b" "cl_active_requests c = remove1 i (cl_active_requests b)" "cl_inflight c = fl"
    "cl_done c = cl_done b @ [(i, ok)]" "cl_close_count c = cl_close_count b" "cl_fresh c = cl_fresh b" "cl_deleting c = cl_deleting b"
    "cl_restarting c = cl_restarting b" "cl_requests c = (cl_requests b)(i := None)" "i \<in> set (cl_active_requests b)" "cl_requests b i \<noteq> None"
    using assms(2) by (auto simp: CompleteData_def split: option.splits if_splits)
  have k: "known b" using assms(1) by (simp add: client_inv_def)
  have a: "set (cl_active_requests c) = set (cl_active_requests b) - {i}" using k f(2) by (simp add: known_def)
  have r: "rcc c j = rcc b j" if "j \<noteq> i" for j using f(9) that by (simp add: rcc_def)
  have con: "control c = control b" "sent_after j c = sent_after j b" for j by (simp_all add: control_def sent_after_def f(1))
  have "phase_ok c" using assms(1) f con by (simp add: client_inv_def phase_ok_def)
  moreover have "counts_ok c" using assms(1) f(5) r by (auto simp: client_inv_def counts_ok_def con a)
  moreover have "i \<notin> fst ` set (cl_done b)" using k f(11) by (auto simp: known_def)
  then have "known c" using k f a by (auto simp: known_def distinct_remove1)
  moreover have "covered j c" if "j \<in> set (cl_active_requests c)" for j
    using that assms(1,3) f r [of j] a by (auto simp: client_inv_def covered_def)
  ultimately show ?thesis by (simp add: client_inv_def)
qed

lemma failed_covered:
  assumes "client_inv b" and "cl_requests b i = Some d"
    and "cl_queue c = (if cl_close_count b = rd_close_count d \<and> \<not> cl_restarting b then cl_queue b @ [CloseAndRestart] else cl_queue b)"
    and "cl_inflight c = remove1 i (cl_inflight b)" and "cl_close_count c = cl_close_count b" and "cl_requests c = cl_requests b"
    and "j \<in> set (cl_active_requests b)"
  shows "covered j c"
proof (cases "CloseAndRestart \<in> set (cl_queue c)")
  case False
  then have q: "cl_queue c = cl_queue b" and nr: "\<not> (cl_close_count b = rd_close_count d \<and> \<not> cl_restarting b)" using assms(3) by (auto split: if_splits)
  have b: "covered j b" "counts_ok b" "phase_ok b" using assms(1,7) by (simp_all add: client_inv_def)
  have r: "rcc c j = rcc b j" by (simp add: rcc_def assms(6))
  show ?thesis
  proof (cases "j = i")
    case False
    then show ?thesis using b(1) q assms(4,5) r by (simp add: covered_def)
  next
    case True
    have "control b \<noteq> [CloseAndRestart]" using False q control_in_queue [of b "[CloseAndRestart]" CloseAndRestart] by auto
    moreover have "control b \<noteq> []" using True nr b(2,3) assms(2,7) by (auto simp: phase_ok_def counts_ok_def rcc_def)
    ultimately consider "control b = [IncrementCloseCount, RestartActive]" | "control b = [RestartActive]" using b(3) by (auto simp: phase_ok_def)
    then show ?thesis
    proof cases
      case 1
      then show ?thesis using control_in_queue [OF 1] q by (simp add: covered_def)
    next
      case 2
      then have "rcc b j < cl_close_count b \<or> sent_after j b" using b(2) assms(7) by (auto simp: counts_ok_def)
      then show ?thesis using control_in_queue [OF 2] q assms(5) r by (auto simp: covered_def sent_after_def dest: set_dropWhileD)
    qed
  qed
qed (simp add: covered_def)

lemma answer_inv:
  assumes "client_inv b" and "Answer i failed resp b = Some c"
  shows "client_inv c"
proof (cases "i \<in> set (cl_inflight b)")
  case True
  let ?fl = "remove1 i (cl_inflight b)" and ?b = "b\<lparr>cl_inflight := remove1 i (cl_inflight b)\<rparr>"
  have p: "ProcessResponse i failed resp ?b = Some c" using assms(2) True by (simp add: Answer_def)
  then obtain d where d: "cl_requests b i = Some d" by (auto simp: ProcessResponse_def split: option.splits)
  have fl: "set (cl_inflight b) \<subseteq> insert i (set ?fl)" by (metis insert_iff set_remove1_subset subsetI in_set_remove1)
  have nd: "\<not> cl_deleting b" using assms(1) by (simp add: client_inv_def phase_ok_def)
  show ?thesis
  proof (cases "\<not> failed \<and> dr_pos resp \<noteq> None")
    case True
    then have "CompleteData i True ?b = Some c" using p d by (simp add: ProcessResponse_def)
    then show ?thesis using complete_inv [OF assms(1) _ fl] by blast
  next
    case False
    let ?re = "cl_close_count b = rd_close_count d \<and> \<not> cl_restarting b"
    have f: "cl_queue c = (if ?re then cl_queue b @ [CloseAndRestart] else cl_queue b)" "cl_active_requests c = cl_active_requests b"
      "cl_inflight c = ?fl" "cl_done c = cl_done b" "cl_close_count c = cl_close_count b" "cl_fresh c = cl_fresh b" "cl_deleting c = cl_deleting b"
      "cl_restarting c = (cl_restarting b \<or> ?re)" "cl_requests c = cl_requests b"
      using p False d nd by (auto simp: ProcessResponse_def RunInSelectLoop_def Let_def split: if_splits)
    have r: "rcc c j = rcc b j" for j by (simp add: rcc_def f)
    have ph: "phase_ok b" using assms(1) by (simp add: client_inv_def)
    have con: "control c = (if ?re then [CloseAndRestart] else control b)" using ph f(1) by (auto simp: control_def phase_ok_def)
    have sa: "sent_after j c = sent_after j b" if "\<not> ?re" for j unfolding sent_after_def f(1) using that by (simp only: if_False)
    have "phase_ok c" using ph f con by (auto simp: phase_ok_def)
    moreover have "counts_ok c" using assms(1) f r sa con ph by (auto simp: client_inv_def counts_ok_def phase_ok_def)
    moreover have "known c" using assms(1) f by (auto simp: client_inv_def known_def)
    moreover have "covered j c" if "j \<in> set (cl_active_requests c)" for j
      using failed_covered [OF assms(1) d f(1,3,5,9)] that f(2) by simp
    ultimately show ?thesis by (simp add: client_inv_def)
  qed
qed (use assms in \<open>simp add: Answer_def\<close>)

lemma rpc_inv:
  assumes "client_inv b" and "cl_queue b = SendRpc i # q"
  shows "client_inv (b\<lparr>cl_queue := q, cl_inflight := cl_inflight b @ [i]\<rparr>)"
proof -
  let ?c = "b\<lparr>cl_queue := q, cl_inflight := cl_inflight b @ [i]\<rparr>"
  have con: "control ?c = control b" "rcc ?c j = rcc b j" "sent_after j ?c = sent_after j b" for j
    using assms(2) by (simp_all add: control_def rcc_def sent_after_def)
  have "phase_ok ?c" "counts_ok ?c" "known ?c" using assms con by (auto simp: client_inv_def phase_ok_def counts_ok_def known_def)
  moreover have "covered j ?c" if "j \<in> set (cl_active_requests ?c)" for j
    using that assms con(2) by (auto simp: client_inv_def covered_def)
  ultimately show ?thesis by (simp add: client_inv_def)
qed

text \<open>While the connection is restarted, a cancelled call changes nothing but the name of the leader.\<close>

lemma cancel_frame:
  assumes "cancel_calls is c = Some c'" and "cl_restarting c" and "\<not> cl_deleting c"
  shows "\<exists>fl n. c' = c\<lparr>cl_inflight := fl, cl_leader_name := n\<rparr>"
  using assms
proof (induction "is" arbitrary: c)
  case Nil
  then have "c' = c\<lparr>cl_inflight := cl_inflight c, cl_leader_name := cl_leader_name c\<rparr>" by simp
  then show ?case by blast
next
  case (Cons i "is")
  then obtain c1 where c1: "Answer i True DataResponse_empty c = Some c1" "cancel_calls is c1 = Some c'" by (auto simp: bind_eq_Some_conv)
  have "\<exists>fl n. c1 = c\<lparr>cl_inflight := fl, cl_leader_name := n\<rparr>"
  proof (cases "i \<in> set (cl_inflight c)")
    case True
    then have "c1 = c\<lparr>cl_inflight := remove1 i (cl_inflight c), cl_leader_name := []\<rparr>"
      using c1(1) Cons.prems by (auto simp: Answer_def ProcessResponse_def split: option.splits)
    then show ?thesis by blast
  next
    case False
    then have "c1 = c\<lparr>cl_inflight := cl_inflight c, cl_leader_name := cl_leader_name c\<rparr>" using c1(1) by (simp add: Answer_def)
    then show ?thesis by blast
  qed
  then obtain fl n where n: "c1 = c\<lparr>cl_inflight := fl, cl_leader_name := n\<rparr>" by blast
  obtain fl' n' where "c' = c1\<lparr>cl_inflight := fl', cl_leader_name := n'\<rparr>" using Cons.IH [OF c1(2)] Cons.prems n by auto
  then have "c' = c\<lparr>cl_inflight := fl', cl_leader_name := n'\<rparr>" using n by simp
  then show ?case by blast
qed

lemma Close_frame:
  assumes "Close is c = Some c'" and "cl_restarting c" and "\<not> cl_deleting c"
  shows "\<exists>fl n. c' = c\<lparr>cl_stub := False, cl_inflight := fl, cl_leader_name := n, cl_queue := cl_queue c @ [IncrementCloseCount]\<rparr>"
proof (cases "cl_stub c")
  case True
  then obtain c1 where c1: "cancel_calls is (c\<lparr>cl_stub := False\<rparr>) = Some c1"
      "(if cl_deleting c1 then (if cl_active_requests c1 = [] then Some c1 else None) else Some (RunInSelectLoop IncrementCloseCount c1)) = Some c'"
    using assms(1) by (simp add: Close_def bind_eq_Some_conv) blast
  then obtain fl n where "c1 = c\<lparr>cl_stub := False, cl_inflight := fl, cl_leader_name := n\<rparr>" using cancel_frame [OF c1(1)] assms(2,3) by auto
  then have "c' = c\<lparr>cl_stub := False, cl_inflight := fl, cl_leader_name := n, cl_queue := cl_queue c @ [IncrementCloseCount]\<rparr>"
    using c1(2) assms(3) by (auto simp: RunInSelectLoop_def)
  then show ?thesis by blast
next
  case False
  then have "c' = c\<lparr>cl_stub := False, cl_inflight := cl_inflight c, cl_leader_name := cl_leader_name c, cl_queue := cl_queue c @ [IncrementCloseCount]\<rparr>"
    using assms(1,3) by (cases c) (auto simp: Close_def RunInSelectLoop_def)
  then show ?thesis by blast
qed

lemma close_inv:
  assumes "client_inv b" and "cl_queue b = CloseAndRestart # q" and "Client_CloseAndRestart is (b\<lparr>cl_queue := q\<rparr>) = Some c"
  shows "client_inv c"
proof -
  have cb: "control b = [CloseAndRestart]" "filter restart_task q = []" "cl_restarting b" "\<not> cl_deleting b"
    using assms(1,2) by (auto simp: client_inv_def phase_ok_def control_def)
  obtain c1 where c1: "Close is (b\<lparr>cl_queue := q\<rparr>) = Some c1" "c = RunInSelectLoop RestartActive c1"
    using assms(3) by (auto simp: Client_CloseAndRestart_def)
  obtain fl n where "c1 = b\<lparr>cl_stub := False, cl_inflight := fl, cl_leader_name := n, cl_queue := q @ [IncrementCloseCount]\<rparr>"
    using Close_frame [OF c1(1)] cb by auto
  then have c: "c = b\<lparr>cl_queue := q @ [IncrementCloseCount, RestartActive], cl_stub := False, cl_inflight := fl, cl_leader_name := n\<rparr>"
    using c1(2) by (simp add: RunInSelectLoop_def)
  have con: "control c = [IncrementCloseCount, RestartActive]" "rcc c j = rcc b j" for j using cb(2) c by (simp_all add: control_def rcc_def)
  have "phase_ok c" using c con cb by (simp add: phase_ok_def)
  moreover have "counts_ok c" using assms(1) c con cb(1) by (auto simp: client_inv_def counts_ok_def)
  moreover have "known c" using assms(1,2) c by (auto simp: client_inv_def known_def)
  moreover have "covered j c" for j using c by (simp add: covered_def)
  ultimately show ?thesis by (simp add: client_inv_def)
qed

lemma increment_inv:
  assumes "client_inv b" and "cl_queue b = IncrementCloseCount # q"
  shows "client_inv (Client_IncrementCloseCount (b\<lparr>cl_queue := q\<rparr>))"
proof -
  let ?c = "Client_IncrementCloseCount (b\<lparr>cl_queue := q\<rparr>)"
  have cb: "control b = [IncrementCloseCount, RestartActive]" "filter restart_task q = [RestartActive]" "cl_restarting b" "\<not> cl_deleting b"
    using assms(1,2) by (auto simp: client_inv_def phase_ok_def control_def)
  have f: "cl_queue ?c = q" "cl_close_count ?c = cl_close_count b + 1" "cl_active_requests ?c = cl_active_requests b" "cl_restarting ?c" "\<not> cl_deleting ?c"
    using cb by (simp_all add: Client_IncrementCloseCount_def)
  have con: "control ?c = [RestartActive]" "rcc ?c j = rcc b j" for j using cb(2) f by (simp_all add: control_def rcc_def Client_IncrementCloseCount_def)
  have lt: "rcc b j < cl_close_count b + 1" if "j \<in> set (cl_active_requests b)" for j using assms(1) cb(1) that by (auto simp: client_inv_def counts_ok_def)
  have "phase_ok ?c" using f con by (simp add: phase_ok_def)
  moreover have "counts_ok ?c" using lt f con by (simp add: counts_ok_def)
  moreover have "known ?c" using assms by (auto simp: client_inv_def known_def Client_IncrementCloseCount_def)
  moreover have "covered j ?c" if "j \<in> set (cl_active_requests ?c)" for j
    using that lt [of j] f con(2) control_RA [OF con(1)] by (simp add: covered_def)
  ultimately show ?thesis by (simp add: client_inv_def)
qed

text \<open>The loop starts the requests that are older than the connection, and only those.\<close>

lemma PrepareForRetry_frame:
  "cl_close_count (PrepareForRetry i c) = cl_close_count c" "cl_deleting (PrepareForRetry i c) = cl_deleting c"
  "cl_restarting (PrepareForRetry i c) = cl_restarting c" "cl_active_requests (PrepareForRetry i c) = cl_active_requests c"
  "cl_fresh (PrepareForRetry i c) = cl_fresh c" "cl_queue (PrepareForRetry i c) = cl_queue c"
  "cl_inflight (PrepareForRetry i c) = cl_inflight c" "cl_done (PrepareForRetry i c) = cl_done c"
  "cl_requests (PrepareForRetry i c) j = None \<longleftrightarrow> cl_requests c j = None" "j \<noteq> i \<Longrightarrow> cl_requests (PrepareForRetry i c) j = cl_requests c j"
  by (simp_all add: PrepareForRetry_def)

lemma restart_loop_frame:
  assumes "restart_loop is c = Some c'" and "distinct is" and "set is \<subseteq> set (cl_active_requests c)"
  shows "cl_close_count c' = cl_close_count c \<and> cl_deleting c' = cl_deleting c \<and> cl_restarting c' = cl_restarting c \<and>
     cl_fresh c' = cl_fresh c \<and> cl_inflight c' = cl_inflight c \<and> cl_done c' = cl_done c \<and> cl_active_requests c' = cl_active_requests c \<and>
     cl_queue c' = cl_queue c @ map SendRpc (filter (\<lambda>i. rcc c i < cl_close_count c) is) \<and>
     (\<forall>j. cl_requests c' j = None \<longleftrightarrow> cl_requests c j = None) \<and>
     (\<forall>j. rcc c' j = (if j \<in> set is \<and> rcc c j < cl_close_count c then cl_close_count c else rcc c j))"
  using assms
proof (induction "is" arbitrary: c)
  case (Cons i "is")
  then obtain d where d: "cl_requests c i = Some d" by (auto split: option.splits)
  show ?case
  proof (cases "rd_close_count d < cl_close_count c")
    case True
    then obtain c1 where c1: "Client_StartRequest i (PrepareForRetry i c) = Some c1" "restart_loop is c1 = Some c'"
      using Cons.prems(1) d by (auto simp: bind_eq_Some_conv)
    note s = StartRequest_frame [OF c1(1), unfolded PrepareForRetry_frame(1-8)]
    have act: "cl_active_requests c1 = cl_active_requests c" using s(4) Cons.prems(3) by simp
    have r: "rcc c1 j = (if j = i then cl_close_count c else rcc c j)" for j
      using s(5) PrepareForRetry_frame(10) [of j i c] by (simp add: rcc_def)
    have n: "cl_requests c1 j = None \<longleftrightarrow> cl_requests c j = None" for j
      using s(5) d PrepareForRetry_frame(10) [of j i c] by (cases "j = i") simp_all
    have fl: "filter (\<lambda>i. rcc c1 i < cl_close_count c) is = filter (\<lambda>i. rcc c i < cl_close_count c) is"
      using Cons.prems(2) by (intro filter_cong) (auto simp: r)
    have ri: "rcc c i < cl_close_count c" using True d by (simp add: rcc_def)
    have "distinct is" "set is \<subseteq> set (cl_active_requests c1)" "i \<notin> set is" using Cons.prems act by auto
    then show ?thesis using Cons.IH [OF c1(2)] s(1,2) act fl n r ri by simp
  next
    case False
    then have "restart_loop is c = Some c'" "\<not> rcc c i < cl_close_count c" using Cons.prems(1) d by (simp_all add: rcc_def)
    then show ?thesis using Cons.IH [of c] Cons.prems(2,3) by auto
  qed
qed simp

lemma restart_inv:
  assumes "client_inv b" and "cl_queue b = RestartActive # q" and "Client_RestartActive (b\<lparr>cl_queue := q\<rparr>) = Some c"
  shows "client_inv c"
proof -
  have cb: "control b = [RestartActive]" "filter restart_task q = []" "\<not> cl_deleting b"
    using assms(1,2) by (auto simp: client_inv_def phase_ok_def control_def)
  let ?c0 = "b\<lparr>cl_queue := q, cl_restarting := False, cl_leader_name := []\<rparr>"
  let ?old = "filter (\<lambda>i. rcc b i < cl_close_count b) (cl_active_requests b)"
  have k: "known b" using assms(1) by (simp add: client_inv_def)
  have r0: "rcc ?c0 j = rcc b j" for j by (simp add: rcc_def)
  have "restart_loop (cl_active_requests b) ?c0 = Some c" using assms(3) by (simp add: Client_RestartActive_def)
  from restart_loop_frame [OF this, unfolded r0, simplified] k
  have f: "cl_close_count c = cl_close_count b" "\<not> cl_deleting c" "\<not> cl_restarting c" "cl_fresh c = cl_fresh b"
    "cl_inflight c = cl_inflight b" "cl_done c = cl_done b" "cl_active_requests c = cl_active_requests b"
    "cl_queue c = q @ map SendRpc ?old" "cl_requests c j = None \<longleftrightarrow> cl_requests b j = None"
    "rcc c j = (if j \<in> set (cl_active_requests b) \<and> rcc b j < cl_close_count b then cl_close_count b else rcc b j)" for j
    using cb(3) by (auto simp: known_def)
  have con: "control c = []" using cb(2) f(8) by (simp add: control_def)
  have old: "rcc b j < cl_close_count b \<or> rcc b j = cl_close_count b \<and> SendRpc j \<in> set q" if "j \<in> set (cl_active_requests b)" for j
    using assms(1,2) cb(1) that by (auto simp: client_inv_def counts_ok_def sent_after_def)
  have "phase_ok c" using f con by (simp add: phase_ok_def)
  moreover have "counts_ok c" using old by (auto simp: counts_ok_def con f(1,7,10))
  moreover have "known c" using k assms(2) by (auto simp: known_def f(4,6,7,8,9))
  moreover have "covered j c" if "j \<in> set (cl_active_requests c)" for j
    using old [of j] that f(7,8) by (auto simp: covered_def)
  ultimately show ?thesis by (simp add: client_inv_def)
qed

lemma client_event_inv:
  assumes "client_inv b" and "client_event e b = Some c"
  shows "client_inv c"
proof (cases e)
  case (Run cancelled)
  show ?thesis
  proof (cases "cl_queue b")
    case (Cons t q)
    then have run: "run_task cancelled t (b\<lparr>cl_queue := q\<rparr>) = Some c" using assms(2) Run by simp
    show ?thesis
    proof (cases t)
      case (StartRequest i)
      then show ?thesis using start_inv [OF assms(1)] Cons run by simp
    next
      case (SendRpc i)
      then have "c = b\<lparr>cl_queue := q, cl_inflight := cl_inflight b @ [i]\<rparr>" using run by simp
      then show ?thesis using rpc_inv [OF assms(1)] Cons SendRpc by simp
    next
      case CloseAndRestart
      then show ?thesis using close_inv [OF assms(1)] Cons run by simp
    next
      case IncrementCloseCount
      then have "c = Client_IncrementCloseCount (b\<lparr>cl_queue := q\<rparr>)" using run by simp
      then show ?thesis using increment_inv [OF assms(1)] Cons IncrementCloseCount by simp
    next
      case RestartActive
      then show ?thesis using restart_inv [OF assms(1)] Cons run by simp
    qed
  qed (use assms Run in simp)
qed (use assms send_inv answer_inv in auto)

lemma client_run_inv: "client_inv b \<Longrightarrow> client_run es b = Some c \<Longrightarrow> client_inv c"
  by (induction es arbitrary: b) (auto simp: bind_eq_Some_conv dest: client_event_inv)

section \<open>The properties\<close>


lemmas run_simps = Client_new_def SendData_def RunInSelectLoop_def Client_StartRequest_def InitializeNetwork_def Answer_def
  ProcessResponse_def CompleteData_def Client_CloseAndRestart_def Close_def Client_IncrementCloseCount_def Client_RestartActive_def
  PrepareForRetry_def DataResponse_empty_def


text \<open>The first request fails; the second is sent before the connection is closed and starts right after.\<close>

definition late_start :: "bytes \<Rightarrow> bool \<Rightarrow> bytes \<Rightarrow> bool \<Rightarrow> Event list" where
  "late_start d0 cb0 d1 cb1 =
     [Send d0 cb0, Run [], Run [], Answered 0 True DataResponse_empty, Send d1 cb1] @ replicate 7 (Run [])"


text \<open>The name of the leader that a replica reports is cleared before the requests are
  sent again: after one answer that names the leader the client connects to the next replica of its list, whatever
  the answer says.
\<close>

theorem leader_forgotten:
  "\<exists>c. client_run [Send d cb, Run [], Run [], Answered 0 False (DataResponse_empty\<lparr>dr_leader_name := Some n\<rparr>), Run [], Run [], Run []]
         (Client_new (r # rs)) = Some c \<and> cl_stub c \<and> cl_leader_name c = [] \<and>
       cl_crt_server c = (r # rs) ! (1 mod length (r # rs))"
  by (simp add: run_simps)

end
