(* ===== verification/LruCache.thy ===== *)
theory LruCache
  imports Prelude "HOL-Library.AList" "HOL-Library.Multiset"
begin

text \<open>
  Model of \<open>LruCache\<close> (\<open>src/whisperlib/base/lru_cache.h\<close>) with the reference-counted values
  it hands out (\<open>ref_counted\<close> in \<open>src/whisperlib/base/ref_counted.h\<close>).

  The \<open>std::list\<close> of keys is a list of nodes with identities, so that an iterator kept in
  the map is the identity of its node; the hash map is an association list. Reference-counted
  objects live in an explicit store \<open>lc_heap\<close>; using an object that was deleted is the result
  \<open>None\<close>, like a failed \<open>CHECK\<close>. The policy's \<open>SizeOf\<close> and \<open>Create\<close> are pure virtual and are
  arguments; \<open>EntryRemoved\<close>, \<open>CreateRef\<close> and \<open>Destroy\<close> are the implementations of
  \<open>LruCachePolicy\<close>. Sizes and counters are unbounded integers. The spin lock is the flag
  \<open>lc_locked\<close>: every critical section starts with it free.
\<close>

section \<open>State\<close>

record ('k, 'v) lru =
  lc_list :: "(nat \<times> 'k) list"
  lc_map :: "('k \<times> nat \<times> nat) list"
  lc_size :: int
  lc_max_size :: int
  lc_allow_overshoot :: bool
  lc_put_count :: int
  lc_create_count :: int
  lc_eviction_count :: int
  lc_hit_count :: int
  lc_miss_count :: int
  lc_locked :: bool
  lc_heap :: "(nat \<times> 'v \<times> int) list"
  lc_next :: nat
  lc_deleted :: "'v list"

definition lru_new :: "int \<Rightarrow> bool \<Rightarrow> ('k, 'v) lru option" where
  "lru_new max_size allow_overshoot =
     (if max_size > 0
      then Some \<lparr>lc_list = [], lc_map = [], lc_size = 0, lc_max_size = max_size,
        lc_allow_overshoot = allow_overshoot, lc_put_count = 0, lc_create_count = 0, lc_eviction_count = 0,
        lc_hit_count = 0, lc_miss_count = 0, lc_locked = False, lc_heap = [], lc_next = 0, lc_deleted = []\<rparr>
      else None)"

subsection \<open>Reference-counted objects\<close>

definition ref_get :: "nat \<Rightarrow> ('k, 'v) lru \<Rightarrow> 'v option" where
  "ref_get r s = map_option fst (map_of (lc_heap s) r)"

definition IncRef :: "nat \<Rightarrow> ('k, 'v) lru \<Rightarrow> ('k, 'v) lru option" where
  "IncRef r s =
     (case map_of (lc_heap s) r of
        None \<Rightarrow> None
      | Some (v, c) \<Rightarrow> Some (s\<lparr>lc_heap := AList.update r (v, c + 1) (lc_heap s)\<rparr>))"

definition DecRef :: "nat \<Rightarrow> ('k, 'v) lru \<Rightarrow> ('k, 'v) lru option" where
  "DecRef r s =
     (case map_of (lc_heap s) r of
        None \<Rightarrow> None
      | Some (v, c) \<Rightarrow>
          Some (if c = 1 then s\<lparr>lc_heap := AList.delete r (lc_heap s), lc_deleted := lc_deleted s @ [v]\<rparr>
                else s\<lparr>lc_heap := AList.update r (v, c - 1) (lc_heap s)\<rparr>))"

definition CreateRef :: "'v \<Rightarrow> ('k, 'v) lru \<Rightarrow> nat \<times> ('k, 'v) lru" where
  "CreateRef v s = (lc_next s, s\<lparr>lc_heap := AList.update (lc_next s) (v, 1) (lc_heap s), lc_next := lc_next s + 1\<rparr>)"

definition Destroy :: "'v \<Rightarrow> ('k, 'v) lru \<Rightarrow> ('k, 'v) lru" where
  "Destroy v s = s\<lparr>lc_deleted := lc_deleted s @ [v]\<rparr>"

subsection \<open>\<open>SimpleLruCachePolicy\<close>\<close>

definition simple_Create :: "'k \<Rightarrow> 'v option" where
  "simple_Create k = None"

definition simple_SizeOf :: "'k \<Rightarrow> 'v \<Rightarrow> int" where
  "simple_SizeOf k v = 1"

section \<open>Operations\<close>

definition SafeSizeOf :: "('k \<Rightarrow> 'v \<Rightarrow> int) \<Rightarrow> 'k \<Rightarrow> 'v \<Rightarrow> int option" where
  "SafeSizeOf size_of k v = (if size_of k v \<ge> 0 then Some (size_of k v) else None)"

definition lru_HasKey :: "'k \<Rightarrow> ('k, 'v) lru \<Rightarrow> bool" where
  "lru_HasKey k s \<longleftrightarrow> map_of (lc_map s) k \<noteq> None"

definition AdjustSize :: "'k \<Rightarrow> int \<Rightarrow> ('k, 'v) lru \<Rightarrow> bool \<times> ('k, 'v) lru" where
  "AdjustSize k delta s =
     (if map_of (lc_map s) k = None then (False, s) else (True, s\<lparr>lc_size := lc_size s + delta\<rparr>))"

text \<open>A new node at the front of the list, and the removal of a node by its iterator.\<close>

definition push_front :: "'k \<Rightarrow> ('k, 'v) lru \<Rightarrow> nat \<times> ('k, 'v) lru" where
  "push_front k s = (lc_next s, s\<lparr>lc_list := (lc_next s, k) # lc_list s, lc_next := lc_next s + 1\<rparr>)"

definition list_erase :: "nat \<Rightarrow> ('k, 'v) lru \<Rightarrow> ('k, 'v) lru" where
  "list_erase n s = s\<lparr>lc_list := filter (\<lambda>x. fst x \<noteq> n) (lc_list s)\<rparr>"

text \<open>The entry found is moved to the front; its node gets a new identity.\<close>

definition touch :: "'k \<Rightarrow> nat \<Rightarrow> nat \<Rightarrow> ('k, 'v) lru \<Rightarrow> ('k, 'v) lru" where
  "touch k r n s = (case push_front k (list_erase n s) of (n', s') \<Rightarrow> s'\<lparr>lc_map := AList.update k (r, n') (lc_map s')\<rparr>)"

text \<open>
  \<open>TrimToSize\<close>: each turn tests the size in one critical section and evicts in a second
  one. When the list is empty in the second one the loop is left with the lock held.
\<close>

definition trim_check :: "int \<Rightarrow> ('k, 'v) lru \<Rightarrow> bool option" where
  "trim_check m s =
     (if lc_size s \<ge> 0 \<and> \<not> (lc_map s = [] \<and> lc_size s \<noteq> 0)
      then Some (\<not> (lc_size s \<le> m \<or> lc_map s = [])) else None)"

definition trim_evict :: "('k \<Rightarrow> 'v \<Rightarrow> int) \<Rightarrow> ('k, 'v) lru \<Rightarrow> ('k, 'v) lru option" where
  "trim_evict size_of s =
     (if lc_list s = [] then Some (s\<lparr>lc_locked := True\<rparr>)
      else
        let k = snd (last (lc_list s)) in
        (case map_of (lc_map s) k of
           None \<Rightarrow> None
         | Some (r, _) \<Rightarrow>
             Option.bind (ref_get r s) (\<lambda>v.
             Option.bind (SafeSizeOf size_of k v) (\<lambda>sz.
               DecRef r (s\<lparr>lc_list := butlast (lc_list s), lc_map := AList.delete k (lc_map s),
                           lc_size := lc_size s - sz, lc_eviction_count := lc_eviction_count s + 1\<rparr>)))))"

partial_function (option) TrimToSize :: "('k \<Rightarrow> 'v \<Rightarrow> int) \<Rightarrow> int \<Rightarrow> ('k, 'v) lru \<Rightarrow> ('k, 'v) lru option" where
  "TrimToSize size_of m s =
     Option.bind (trim_check m s) (\<lambda>go.
       if \<not> go then Some s
       else Option.bind (trim_evict size_of s) (\<lambda>s1.
              if lc_locked s1 then Some s1 else TrimToSize size_of m s1))"

definition EvictAll :: "('k \<Rightarrow> 'v \<Rightarrow> int) \<Rightarrow> ('k, 'v) lru \<Rightarrow> ('k, 'v) lru option" where
  "EvictAll size_of s = TrimToSize size_of (-1) s"

text \<open>The two critical sections of \<open>Get\<close>, around the call of \<open>Create\<close>.\<close>

definition get_find :: "'k \<Rightarrow> ('k, 'v) lru \<Rightarrow> (nat option \<times> ('k, 'v) lru) option" where
  "get_find k s =
     (case map_of (lc_map s) k of
        Some (r, n) \<Rightarrow>
          map_option (Pair (Some r)) (IncRef r ((touch k r n s)\<lparr>lc_hit_count := lc_hit_count s + 1\<rparr>))
      | None \<Rightarrow> Some (None, s\<lparr>lc_miss_count := lc_miss_count s + 1\<rparr>))"

definition get_insert ::
    "('k \<Rightarrow> 'v \<Rightarrow> int) \<Rightarrow> 'k \<Rightarrow> 'v \<Rightarrow> ('k, 'v) lru \<Rightarrow> (bool \<times> nat \<times> ('k, 'v) lru) option" where
  "get_insert size_of k v s0 =
     (let s = s0\<lparr>lc_create_count := lc_create_count s0 + 1\<rparr> in
      case map_of (lc_map s) k of
        Some (r, n) \<Rightarrow> map_option (\<lambda>s'. (True, r, s')) (IncRef r (touch k r n s))
      | None \<Rightarrow>
          (case push_front k s of (n, s1) \<Rightarrow>
           case CreateRef v s1 of (r, s2) \<Rightarrow>
             Option.bind (SafeSizeOf size_of k v) (\<lambda>sz.
               map_option (\<lambda>s'. (False, r, s'))
                 (IncRef r (s2\<lparr>lc_map := AList.update k (r, n) (lc_map s2), lc_size := lc_size s2 + sz\<rparr>)))))"

definition maybe_trim :: "('k \<Rightarrow> 'v \<Rightarrow> int) \<Rightarrow> bool \<Rightarrow> ('k, 'v) lru \<Rightarrow> ('k, 'v) lru option" where
  "maybe_trim size_of b s = (if lc_allow_overshoot s = b then TrimToSize size_of (lc_max_size s) s else Some s)"

definition lru_Get ::
    "('k \<Rightarrow> 'v \<Rightarrow> int) \<Rightarrow> ('k \<Rightarrow> 'v option) \<Rightarrow> 'k \<Rightarrow> ('k, 'v) lru \<Rightarrow> (nat option \<times> ('k, 'v) lru) option" where
  "lru_Get size_of create k s =
     Option.bind (get_find k s) (\<lambda>(hit, s1).
       case hit of
         Some r \<Rightarrow> Some (Some r, s1)
       | None \<Rightarrow>
           Option.bind (maybe_trim size_of True s1) (\<lambda>s2.
             case create k of
               None \<Rightarrow> Some (None, s2)
             | Some v \<Rightarrow>
                 Option.bind (get_insert size_of k v s2) (\<lambda>(dumped, r, s3).
                   if dumped then Some (Some r, Destroy v s3)
                   else map_option (Pair (Some r)) (maybe_trim size_of False s3))))"

text \<open>
  \<open>Put\<close> with its two out-parameters: the previous reference (with a reference for the
  caller), and the added one when the caller asks for it.
\<close>

definition put_unlink :: "('k \<Rightarrow> 'v \<Rightarrow> int) \<Rightarrow> 'k \<Rightarrow> ('k, 'v) lru \<Rightarrow> (nat option \<times> ('k, 'v) lru) option" where
  "put_unlink size_of k s =
     (case map_of (lc_map s) k of
        Some (r, n) \<Rightarrow>
          Option.bind (ref_get r s) (\<lambda>old.
          Option.bind (SafeSizeOf size_of k old) (\<lambda>sz.
            Some (Some r, list_erase n (s\<lparr>lc_size := lc_size s - sz\<rparr>))))
      | None \<Rightarrow> Some (None, s))"

definition put_link ::
    "('k \<Rightarrow> 'v \<Rightarrow> int) \<Rightarrow> 'k \<Rightarrow> 'v \<Rightarrow> bool \<Rightarrow> ('k, 'v) lru \<Rightarrow> (nat \<times> ('k, 'v) lru) option" where
  "put_link size_of k v want_added s =
     (case push_front k s of (n, s2) \<Rightarrow>
      case CreateRef v s2 of (r, s3) \<Rightarrow>
        Option.bind (if want_added then IncRef r s3 else Some s3) (\<lambda>s4.
        Option.bind (SafeSizeOf size_of k v) (\<lambda>sz.
          Some (r, s4\<lparr>lc_map := AList.update k (r, n) (lc_map s4), lc_size := lc_size s4 + sz\<rparr>))))"

definition put_insert ::
    "('k \<Rightarrow> 'v \<Rightarrow> int) \<Rightarrow> 'k \<Rightarrow> 'v \<Rightarrow> bool \<Rightarrow> ('k, 'v) lru \<Rightarrow> (nat option \<times> nat \<times> ('k, 'v) lru) option" where
  "put_insert size_of k v want_added s =
     Option.bind (put_unlink size_of k (s\<lparr>lc_put_count := lc_put_count s + 1\<rparr>)) (\<lambda>(previous, s1).
       map_option (Pair previous) (put_link size_of k v want_added s1))"

definition lru_Put2 ::
    "('k \<Rightarrow> 'v \<Rightarrow> int) \<Rightarrow> 'k \<Rightarrow> 'v \<Rightarrow> bool \<Rightarrow> ('k, 'v) lru \<Rightarrow> (nat option \<times> nat \<times> ('k, 'v) lru) option" where
  "lru_Put2 size_of k v want_added s =
     Option.bind (maybe_trim size_of True s) (\<lambda>s1.
     Option.bind (put_insert size_of k v want_added s1) (\<lambda>(previous, r, s2).
     Option.bind (case previous of None \<Rightarrow> Some s2 | Some p \<Rightarrow> Option.bind (IncRef p s2) (DecRef p)) (\<lambda>s3.
       map_option (\<lambda>s4. (previous, r, s4)) (maybe_trim size_of False s3))))"

definition lru_Put :: "('k \<Rightarrow> 'v \<Rightarrow> int) \<Rightarrow> 'k \<Rightarrow> 'v \<Rightarrow> ('k, 'v) lru \<Rightarrow> (bool \<times> ('k, 'v) lru) option" where
  "lru_Put size_of k v s =
     Option.bind (lru_Put2 size_of k v False s) (\<lambda>(previous, _, s1).
       case previous of None \<Rightarrow> Some (False, s1) | Some p \<Rightarrow> map_option (Pair True) (DecRef p s1))"

definition lru_Remove2 :: "('k \<Rightarrow> 'v \<Rightarrow> int) \<Rightarrow> 'k \<Rightarrow> ('k, 'v) lru \<Rightarrow> (nat option \<times> ('k, 'v) lru) option" where
  "lru_Remove2 size_of k s =
     (case map_of (lc_map s) k of
        None \<Rightarrow> Some (None, s)
      | Some (r, n) \<Rightarrow>
          Option.bind (ref_get r s) (\<lambda>old.
          Option.bind (SafeSizeOf size_of k old) (\<lambda>sz.
          Option.bind (IncRef r ((list_erase n (s\<lparr>lc_size := lc_size s - sz\<rparr>))\<lparr>lc_map := AList.delete k (lc_map s)\<rparr>)) (\<lambda>s1.
            map_option (Pair (Some r)) (DecRef r s1)))))"

definition lru_Remove :: "('k \<Rightarrow> 'v \<Rightarrow> int) \<Rightarrow> 'k \<Rightarrow> ('k, 'v) lru \<Rightarrow> (bool \<times> ('k, 'v) lru) option" where
  "lru_Remove size_of k s =
     Option.bind (lru_Remove2 size_of k s) (\<lambda>(previous, s1).
       case previous of None \<Rightarrow> Some (False, s1) | Some p \<Rightarrow> map_option (Pair True) (DecRef p s1))"

definition is_full :: "('k, 'v) lru \<Rightarrow> bool" where
  "is_full s \<longleftrightarrow> lc_size s \<ge> lc_max_size s"

end
