(* ===== verification/LruProps.thy ===== *)
theory LruProps
  imports LruCache
begin

text \<open>
  The LRU cache represents a list of entries, the most recently used first: the
  representation invariant \<open>lru_rel\<close>, which also accounts for every reference to a value,
  and what each operation does to the list, for any policy (locale \<open>lru_policy\<close>). Sequences
  of calls and interleaved threads are in \<open>LruClient\<close>.
\<close>

section \<open>Reference counts\<close>

text \<open>
  \<open>R\<close> holds every reference to a value, with the value: one for each entry of the cache and
  those of the client. An object is in the store exactly when it is referenced, with the number
  of its references as its count.
\<close>

definition heap_ok :: "(nat \<times> 'v) multiset \<Rightarrow> ('k, 'v) lru \<Rightarrow> bool" where
  "heap_ok R s \<longleftrightarrow>
     (\<forall>r. r \<notin># image_mset fst R \<longrightarrow> map_of (lc_heap s) r = None) \<and>
     (\<forall>x \<in># R. map_of (lc_heap s) (fst x) = Some (snd x, int (count (image_mset fst R) (fst x))) \<and> fst x < lc_next s)"

text \<open>The values the cache was ever given: those deleted, and those alive.\<close>

definition val :: "('k, 'v) lru \<Rightarrow> nat \<Rightarrow> 'v" where
  "val s r = fst (the (map_of (lc_heap s) r))"

definition owned :: "('k, 'v) lru \<Rightarrow> 'v multiset" where
  "owned s = mset (lc_deleted s) + image_mset (val s) (mset_set (dom (map_of (lc_heap s))))"

definition with_heap :: "('k, 'v) lru \<Rightarrow> (nat \<times> 'v \<times> int) list \<Rightarrow> 'v list \<Rightarrow> ('k, 'v) lru" where
  "with_heap s h d = s\<lparr>lc_heap := h, lc_deleted := d\<rparr>"

lemma with_heap_simps [simp]:
  "lc_list (with_heap s h d) = lc_list s" "lc_map (with_heap s h d) = lc_map s"
  "lc_size (with_heap s h d) = lc_size s" "lc_max_size (with_heap s h d) = lc_max_size s"
  "lc_allow_overshoot (with_heap s h d) = lc_allow_overshoot s" "lc_locked (with_heap s h d) = lc_locked s"
  "lc_next (with_heap s h d) = lc_next s" "lc_heap (with_heap s h d) = h" "lc_deleted (with_heap s h d) = d"
  "lc_eviction_count (with_heap s h d) = lc_eviction_count s"
  by (simp_all add: with_heap_def)

lemma heap_ok_cong: "lc_heap s' = lc_heap s \<Longrightarrow> lc_next s' = lc_next s \<Longrightarrow> heap_ok R s' = heap_ok R s"
  by (simp add: heap_ok_def)

lemma owned_cong: "lc_heap s' = lc_heap s \<Longrightarrow> lc_deleted s' = lc_deleted s \<Longrightarrow> owned s' = owned s"
  by (simp add: owned_def val_def [abs_def])

lemma heap_ok_fresh: "heap_ok R s \<Longrightarrow> lc_next s \<notin> fst ` set_mset R"
  by (auto simp: heap_ok_def)

lemma heap_ok_lookup:
  "heap_ok R s \<Longrightarrow> (r, v) \<in># R \<Longrightarrow> map_of (lc_heap s) r = Some (v, int (count (image_mset fst R) r))"
  by (fastforce simp: heap_ok_def)

lemma heap_ok_less: "heap_ok R s \<Longrightarrow> (r, v) \<in># R \<Longrightarrow> r < lc_next s"
  by (fastforce simp: heap_ok_def)

lemma heap_ok_value: "heap_ok R s \<Longrightarrow> (r, v) \<in># R \<Longrightarrow> (r, w) \<in># R \<Longrightarrow> v = w"
  by (metis heap_ok_lookup option.inject prod.inject)

lemma heap_okI:
  assumes "\<And>r. r \<notin> fst ` set_mset R \<Longrightarrow> map_of (lc_heap s) r = None"
    and "\<And>r v. (r, v) \<in># R \<Longrightarrow> map_of (lc_heap s) r = Some (v, int (count (image_mset fst R) r)) \<and> r < lc_next s"
  shows "heap_ok R s"
  using assms unfolding heap_ok_def by auto

lemma ref_get_ok: "heap_ok R s \<Longrightarrow> (r, v) \<in># R \<Longrightarrow> ref_get r s = Some v"
  by (simp add: ref_get_def heap_ok_lookup)

lemma owned_eq:
  assumes "heap_ok R s"
  shows "owned s = mset (lc_deleted s) + image_mset snd (mset_set (set_mset R))"
proof -
  have inj: "inj_on fst (set_mset R)" using heap_ok_value [OF assms] by (auto simp: inj_on_def)
  have "dom (map_of (lc_heap s)) = fst ` set_mset R"
    using assms heap_ok_lookup [OF assms] by (fastforce simp: heap_ok_def)
  then have "mset_set (dom (map_of (lc_heap s))) = image_mset fst (mset_set (set_mset R))"
    using image_mset_mset_set [OF inj] by simp
  moreover have "val s (fst x) = snd x" if "x \<in># R" for x
    using assms that by (simp add: heap_ok_def val_def)
  then have "image_mset (\<lambda>x. val s (fst x)) (mset_set (set_mset R)) = image_mset snd (mset_set (set_mset R))"
    by (intro image_mset_cong) simp
  ultimately have "image_mset (val s) (mset_set (dom (map_of (lc_heap s)))) = image_mset snd (mset_set (set_mset R))"
    by (simp add: multiset.map_comp o_def)
  then show ?thesis by (simp add: owned_def)
qed

lemma IncRef_ok:
  assumes "heap_ok R s" and "(r, v) \<in># R"
  obtains h where "IncRef r s = Some (with_heap s h (lc_deleted s))"
    and "heap_ok (add_mset (r, v) R) (with_heap s h (lc_deleted s))"
    and "owned (with_heap s h (lc_deleted s)) = owned s"
proof
  let ?h = "AList.update r (v, int (count (image_mset fst R) r) + 1) (lc_heap s)"
  let ?s = "with_heap s ?h (lc_deleted s)"
  note l = heap_ok_lookup [OF assms]
  show "IncRef r s = Some ?s" by (simp add: IncRef_def l with_heap_def)
  show h: "heap_ok (add_mset (r, v) R) ?s"
  proof (rule heap_okI)
    fix q assume "q \<notin> fst ` set_mset (add_mset (r, v) R)"
    then show "map_of (lc_heap ?s) q = None" using assms(1) by (simp add: heap_ok_def update_conv')
  next
    fix q w assume q: "(q, w) \<in># add_mset (r, v) R"
    then have "(q, w) \<in># R" using assms(2) by auto
    moreover from this have "q = r \<Longrightarrow> w = v" using heap_ok_value assms by metis
    ultimately show "map_of (lc_heap ?s) q = Some (w, int (count (image_mset fst (add_mset (r, v) R)) q)) \<and> q < lc_next ?s"
      using heap_ok_lookup [OF assms(1), of q w] heap_ok_less [OF assms(1), of q w] by (simp add: update_conv')
  qed
  show "owned ?s = owned s" using assms(2) by (simp add: owned_eq [OF h] owned_eq [OF assms(1)] insert_absorb)
qed

lemma DecRef_ok:
  assumes "heap_ok (add_mset (r, v) R) s"
  obtains h d where "DecRef r s = Some (with_heap s h d)" and "heap_ok R (with_heap s h d)"
    and "owned (with_heap s h d) = owned s"
proof (cases "r \<in> fst ` set_mset R")
  case True
  let ?h = "AList.update r (v, int (count (image_mset fst R) r)) (lc_heap s)"
  let ?s = "with_heap s ?h (lc_deleted s)"
  have l: "map_of (lc_heap s) r = Some (v, int (count (image_mset fst R) r) + 1)"
    using heap_ok_lookup [OF assms, of r v] by simp
  have c: "count (image_mset fst R) r \<noteq> 0" using True by (simp add: count_eq_zero_iff del: count_image_mset)
  have eq: "snd x = v" if "x \<in># R" "fst x = r" for x using assms that l by (auto simp: heap_ok_def)
  then have h: "heap_ok R ?s" using assms True by (auto simp: heap_ok_def update_conv')
  have "(r, v) \<in># R" using True eq by force
  then have "owned ?s = owned s" by (simp add: owned_eq [OF h] owned_eq [OF assms] insert_absorb)
  moreover have "DecRef r s = Some ?s" using c by (simp add: DecRef_def l with_heap_def del: count_greater_zero_iff)
  ultimately show ?thesis using that h by metis
next
  case False
  let ?s = "with_heap s (AList.delete r (lc_heap s)) (lc_deleted s @ [v])"
  have "count (image_mset fst R) r = 0" using False by (simp add: count_eq_zero_iff del: count_image_mset)
  then have l: "map_of (lc_heap s) r = Some (v, 1)" using heap_ok_lookup [OF assms, of r v] by simp
  have h: "heap_ok R ?s" using assms False by (auto simp: heap_ok_def delete_conv')
  have "(r, v) \<notin> set_mset R" using False by force
  then have "owned ?s = owned s" by (simp add: owned_eq [OF h] owned_eq [OF assms])
  moreover have "DecRef r s = Some ?s" by (simp add: DecRef_def l with_heap_def)
  ultimately show ?thesis using that h by metis
qed

lemma CreateRef_ok:
  assumes "heap_ok R s"
  obtains h where "CreateRef v s = (lc_next s, s\<lparr>lc_heap := h, lc_next := Suc (lc_next s)\<rparr>)"
    and "heap_ok (add_mset (lc_next s, v) R) (s\<lparr>lc_heap := h, lc_next := Suc (lc_next s)\<rparr>)"
    and "owned (s\<lparr>lc_heap := h, lc_next := Suc (lc_next s)\<rparr>) = add_mset v (owned s)"
proof
  let ?h = "AList.update (lc_next s) (v, 1) (lc_heap s)"
  let ?s = "s\<lparr>lc_heap := ?h, lc_next := Suc (lc_next s)\<rparr>"
  note n = heap_ok_fresh [OF assms]
  have c: "count (image_mset fst R) (lc_next s) = 0" using n by (simp add: count_eq_zero_iff del: count_image_mset)
  show "CreateRef v s = (lc_next s, ?s)" by (simp add: CreateRef_def)
  show h: "heap_ok (add_mset (lc_next s, v) R) ?s"
    using assms n c by (auto simp: heap_ok_def update_conv' less_SucI)
  have "(lc_next s, v) \<notin> set_mset R" using n by force
  then show "owned ?s = add_mset v (owned s)" by (simp add: owned_eq [OF h] owned_eq [OF assms])
qed

section \<open>The representation\<close>

text \<open>
  An entry is its key, its reference, its list node and its value. The entries are kept in the order
  of the list, the most recently used first; \<open>held\<close> are the client's references.
\<close>

type_synonym ('k, 'v) entry = "'k \<times> nat \<times> nat \<times> 'v"

definition map_pair :: "('k, 'v) entry \<Rightarrow> 'k \<times> nat \<times> nat" where
  "map_pair e = (fst e, fst (snd e), fst (snd (snd e)))"

definition list_pair :: "('k, 'v) entry \<Rightarrow> nat \<times> 'k" where
  "list_pair e = (fst (snd (snd e)), fst e)"

definition ref_pair :: "('k, 'v) entry \<Rightarrow> nat \<times> 'v" where
  "ref_pair e = (fst (snd e), snd (snd (snd e)))"

definition content_pair :: "('k, 'v) entry \<Rightarrow> 'k \<times> 'v" where
  "content_pair e = (fst e, snd (snd (snd e)))"

lemmas pair_defs [simp] = map_pair_def list_pair_def ref_pair_def content_pair_def

definition total :: "('k \<Rightarrow> 'v \<Rightarrow> int) \<Rightarrow> ('k \<times> 'v) list \<Rightarrow> int" where
  "total size_of xs = sum_list (map (\<lambda>(k, v). size_of k v) xs)"

definition lru_rel ::
    "('k \<Rightarrow> 'v \<Rightarrow> int) \<Rightarrow> (nat \<times> 'v) list \<Rightarrow> ('k, 'v) entry list \<Rightarrow> ('k, 'v) lru \<Rightarrow> bool" where
  "lru_rel size_of held es s \<longleftrightarrow>
     lc_list s = map list_pair es \<and> mset (lc_map s) = mset (map map_pair es) \<and>
     distinct (map fst es) \<and> distinct (map (fst \<circ> list_pair) es) \<and> (\<forall>e \<in> set es. fst (list_pair e) < lc_next s) \<and>
     heap_ok (mset (map ref_pair es) + mset held) s \<and>
     lc_size s = total size_of (map content_pair es) \<and> \<not> lc_locked s"

definition contents :: "('k, 'v) lru \<Rightarrow> ('k \<times> 'v) list" where
  "contents s = map (\<lambda>(n, k). (k, val s (fst (the (map_of (lc_map s) k))))) (lc_list s)"

lemma total_simps [simp]:
  "total size_of [] = 0" "total size_of (x # xs) = size_of (fst x) (snd x) + total size_of xs"
  "total size_of (xs @ ys) = total size_of xs + total size_of ys"
  by (simp_all add: total_def split_beta)

lemma lru_rel_map_of:
  assumes "lru_rel size_of held es s"
  shows "map_of (lc_map s) = map_of (map map_pair es)" and "distinct (map fst (lc_map s))"
proof -
  have m: "mset (lc_map s) = mset (map map_pair es)" using assms by (simp add: lru_rel_def)
  have f: "map fst (map map_pair es) = map fst es" by (simp add: split_beta)
  have d: "distinct (map fst (map map_pair es))" using assms unfolding f by (simp add: lru_rel_def)
  have "mset (map fst (lc_map s)) = mset (map fst (map map_pair es))" unfolding mset_map m ..
  then show "distinct (map fst (lc_map s))" using d mset_eq_imp_distinct_iff by metis
  with d show "map_of (lc_map s) = map_of (map map_pair es)"
    using map_of_inject_set mset_eq_setD [OF m] by blast
qed

lemma map_of_entry:
  "distinct (map fst es) \<Longrightarrow> (k, r, n, v) \<in> set es \<Longrightarrow> map_of (map map_pair es) k = Some (r, n)"
  by (rule map_of_is_SomeI) (force simp: comp_def split_beta)+

lemma map_of_no_entry: "k \<notin> fst ` set es \<Longrightarrow> map_of (map map_pair es) k = None"
  by (force simp: map_of_eq_None_iff split_beta)

lemma contents_eq:
  assumes "lru_rel size_of held es s"
  shows "contents s = map content_pair es"
proof -
  have "val s r = v" if "(k, r, n, v) \<in> set es" for k r n v
  proof -
    have "(r, v) \<in># mset (map ref_pair es) + mset held" using that by force
    moreover have "heap_ok (mset (map ref_pair es) + mset held) s" using assms by (simp add: lru_rel_def)
    ultimately show ?thesis by (simp add: heap_ok_lookup val_def)
  qed
  moreover have "distinct (map fst es)" "lc_list s = map list_pair es" using assms by (simp_all add: lru_rel_def)
  ultimately show ?thesis
    by (auto simp: contents_def lru_rel_map_of [OF assms] map_of_entry)
qed

subsection \<open>Steps on the representation\<close>

definition same_limits :: "('k, 'v) lru \<Rightarrow> ('k, 'v) lru \<Rightarrow> bool" where
  "same_limits s s' \<longleftrightarrow> lc_max_size s' = lc_max_size s \<and> lc_allow_overshoot s' = lc_allow_overshoot s"

lemma same_limits_simps [simp]: "same_limits s s" "same_limits s (with_heap s h d)"
  by (simp_all add: same_limits_def)

lemma same_limits_trans: "same_limits s t \<Longrightarrow> same_limits t u \<Longrightarrow> same_limits s u"
  by (simp add: same_limits_def)

lemma heap_ok_mono: "heap_ok R s \<Longrightarrow> lc_heap s' = lc_heap s \<Longrightarrow> lc_next s \<le> lc_next s' \<Longrightarrow> heap_ok R s'"
  by (fastforce simp: heap_ok_def)

lemma mset_update: "distinct (map fst m) \<Longrightarrow> mset (AList.update k x m) = add_mset (k, x) (mset (AList.delete k m))"
  by (induction m) auto

lemma mset_delete: "mset (AList.delete k m) = filter_mset (\<lambda>x. fst x \<noteq> k) (mset m)"
  by (induction m) auto

lemma remove_entry:
  "distinct (map fst es) \<Longrightarrow> e \<in> set es \<Longrightarrow> mset es = add_mset e (mset (filter (\<lambda>x. fst x \<noteq> fst e) es))"
proof (induction es)
  case (Cons a es)
  show ?case
  proof (cases "a = e")
    case True
    have "fst a \<notin> fst ` set es" using Cons.prems(1) by simp
    then have "\<forall>x \<in> set es. fst x \<noteq> fst a" by (metis image_eqI)
    then have "filter (\<lambda>x. fst x \<noteq> fst a) es = es" by (simp only: filter_id_conv)
    with True show ?thesis by (simp del: mset_filter)
  next
    case False
    then have e: "e \<in> set es" using Cons.prems(2) by simp
    then have "fst a \<noteq> fst e" using Cons.prems(1) by auto
    with Cons e show ?thesis by simp
  qed
qed simp

lemma lru_rel_delete:
  assumes "lru_rel size_of held es s"
  shows "mset (AList.delete k (lc_map s)) = mset (map map_pair (filter (\<lambda>e. fst e \<noteq> k) es))"
proof -
  have m: "mset (lc_map s) = mset (map map_pair es)" using assms unfolding lru_rel_def by blast
  have "mset (AList.delete k (lc_map s)) = mset (filter (\<lambda>x. fst x \<noteq> k) (map map_pair es))"
    unfolding mset_delete m by simp
  also have "\<dots> = mset (map map_pair (filter (\<lambda>e. fst e \<noteq> k) es))"
    unfolding filter_map by (simp add: comp_def)
  finally show ?thesis .
qed

lemma lru_rel_erase:
  assumes "lru_rel size_of held es s" and "(k, r, n, v) \<in> set es"
  shows "filter (\<lambda>x. fst x \<noteq> n) (lc_list s) = map list_pair (filter (\<lambda>e. fst e \<noteq> k) es)"
proof -
  have d: "distinct (map fst es)" "distinct (map (fst \<circ> list_pair) es)" and l: "lc_list s = map list_pair es"
    using assms(1) by (simp_all add: lru_rel_def)
  have "fst (list_pair e) = n \<longleftrightarrow> fst e = k" if "e \<in> set es" for e
  proof -
    have "fst (list_pair e) = n \<Longrightarrow> e = (k, r, n, v)"
      using inj_onD [of "fst \<circ> list_pair" "set es" e "(k, r, n, v)"] d that assms(2) by (simp add: distinct_map)
    moreover have "fst e = k \<Longrightarrow> e = (k, r, n, v)"
      using inj_onD [of fst "set es" e "(k, r, n, v)"] d that assms(2) by (simp add: distinct_map)
    ultimately show ?thesis by (cases e) auto
  qed
  then have "filter ((\<lambda>x. fst x \<noteq> n) \<circ> list_pair) es = filter (\<lambda>e. fst e \<noteq> k) es"
    by (intro filter_cong) (simp_all del: pair_defs)
  then show ?thesis unfolding l filter_map by (simp del: pair_defs)
qed

lemma lru_rel_held: "mset held = mset held' \<Longrightarrow> lru_rel size_of held es s = lru_rel size_of held' es s"
  by (simp add: lru_rel_def)

lemma lru_rel_heap: "lru_rel size_of held es s \<Longrightarrow> heap_ok (mset (map ref_pair es) + mset held) s"
  by (simp add: lru_rel_def)

lemma IncRef_rel:
  assumes "lru_rel size_of held es s" and "(r, v) \<in> set held \<union> ref_pair ` set es"
  obtains s' where "IncRef r s = Some s'" and "lru_rel size_of ((r, v) # held) es s'" and "owned s' = owned s"
    and "same_limits s s'"
proof -
  have "(r, v) \<in># mset (map ref_pair es) + mset held" using assms(2) by auto
  from IncRef_ok [OF lru_rel_heap [OF assms(1)] this] obtain h where
    "IncRef r s = Some (with_heap s h (lc_deleted s))"
    "heap_ok (add_mset (r, v) (mset (map ref_pair es) + mset held)) (with_heap s h (lc_deleted s))"
    "owned (with_heap s h (lc_deleted s)) = owned s" .
  with assms(1) show ?thesis by (intro that [of "with_heap s h (lc_deleted s)"]) (simp_all add: lru_rel_def)
qed

lemma DecRef_rel:
  assumes "lru_rel size_of ((r, v) # held) es s"
  obtains s' where "DecRef r s = Some s'" and "lru_rel size_of held es s'" and "owned s' = owned s"
    and "same_limits s s'" and "lc_eviction_count s' = lc_eviction_count s"
proof -
  have "heap_ok (add_mset (r, v) (mset (map ref_pair es) + mset held)) s" using lru_rel_heap [OF assms] by simp
  from DecRef_ok [OF this] obtain h d where
    "DecRef r s = Some (with_heap s h d)" "heap_ok (mset (map ref_pair es) + mset held) (with_heap s h d)"
    "owned (with_heap s h d) = owned s" .
  with assms show ?thesis by (intro that [of "with_heap s h d"]) (simp_all add: lru_rel_def)
qed

lemma entry_split:
  assumes "lru_rel size_of held es s" and "(k, r, n, v) \<in> set es"
  shows "mset (map g es) = add_mset (g (k, r, n, v)) (mset (map g (filter (\<lambda>e. fst e \<noteq> k) es)))"
proof -
  have "distinct (map fst es)" using assms(1) by (simp add: lru_rel_def)
  from remove_entry [OF this assms(2)] have "mset es = add_mset (k, r, n, v) (mset (filter (\<lambda>e. fst e \<noteq> k) es))" by simp
  then have "image_mset g (mset es) = image_mset g (add_mset (k, r, n, v) (mset (filter (\<lambda>e. fst e \<noteq> k) es)))" by (rule arg_cong)
  then show ?thesis by (simp del: mset_filter)
qed

lemma total_split:
  assumes "lru_rel size_of held es s" and "(k, r, n, v) \<in> set es"
  shows "lc_size s = size_of k v + total size_of (map content_pair (filter (\<lambda>e. fst e \<noteq> k) es))"
proof -
  let ?g = "\<lambda>e. size_of (fst e) (snd (snd (snd e)))"
  have t: "total size_of (map content_pair xs) = sum_mset (mset (map ?g xs))" for xs
    by (simp only: total_def map_map sum_mset_sum_list) (simp add: comp_def)
  have "lc_size s = total size_of (map content_pair es)" using assms(1) by (simp add: lru_rel_def)
  then show ?thesis unfolding t entry_split [OF assms, of ?g] by (simp del: mset_filter mset_map)
qed

lemma lru_relI:
  assumes "lc_list s = map list_pair es" and "mset (lc_map s) = mset (map map_pair es)"
    and "distinct (map fst es)" and "distinct (map (fst \<circ> list_pair) es)" and "\<forall>e \<in> set es. fst (list_pair e) < lc_next s"
    and "heap_ok (mset (map ref_pair es) + mset held) s" and "lc_size s = total size_of (map content_pair es)"
    and "\<not> lc_locked s"
  shows "lru_rel size_of held es s"
  using assms unfolding lru_rel_def by blast

lemma lru_rel_filter:
  assumes "lru_rel size_of held es s"
  shows "distinct (map fst (filter P es))" and "distinct (map (fst \<circ> list_pair) (filter P es))"
    and "\<forall>e \<in> set (filter P es). fst (list_pair e) < lc_next s"
  using assms by (simp_all add: lru_rel_def distinct_map_filter)

text \<open>An entry leaves the cache: its reference is then in the hands of the caller.\<close>

lemma unlink_rel:
  assumes r: "lru_rel size_of held es s" and e: "(k, r, n, v) \<in> set es"
    and "lc_list s' = filter (\<lambda>x. fst x \<noteq> n) (lc_list s)" and "lc_map s' = AList.delete k (lc_map s)"
    and "lc_size s' = lc_size s - size_of k v" and h: "lc_heap s' = lc_heap s" and nx: "lc_next s' = lc_next s"
    and "\<not> lc_locked s'"
  shows "lru_rel size_of ((r, v) # held) (filter (\<lambda>e. fst e \<noteq> k) es) s'"
proof (rule lru_relI)
  let ?es = "filter (\<lambda>e. fst e \<noteq> k) es"
  show "lc_list s' = map list_pair ?es" using assms lru_rel_erase [OF r e] by metis
  show "mset (lc_map s') = mset (map map_pair ?es)" using assms lru_rel_delete [OF r] by metis
  show "lc_size s' = total size_of (map content_pair ?es)" using total_split [OF r e] assms(5) by linarith
  have "heap_ok (mset (map ref_pair es) + mset held) s'" using lru_rel_heap [OF r] h nx by (simp add: heap_ok_def)
  then show "heap_ok (mset (map ref_pair ?es) + mset ((r, v) # held)) s'"
    unfolding entry_split [OF r e] by (simp del: mset_filter)
qed (use lru_rel_filter [OF r] nx assms(8) in metis)+

text \<open>A created reference becomes an entry at the front of the list.\<close>

lemma link_rel:
  assumes r: "lru_rel size_of held es s" and "lc_list s' = (n, k) # map list_pair (filter (\<lambda>e. fst e \<noteq> k) es)"
    and "lc_map s' = AList.update k (r, n) (lc_map s)" and n: "lc_next s \<le> n" "n < lc_next s'"
    and "lc_size s' = size_of k v + total size_of (map content_pair (filter (\<lambda>e. fst e \<noteq> k) es))" and "\<not> lc_locked s'"
    and "heap_ok (add_mset (r, v) (mset (map ref_pair (filter (\<lambda>e. fst e \<noteq> k) es)) + mset held')) s'"
  shows "lru_rel size_of held' ((k, r, n, v) # filter (\<lambda>e. fst e \<noteq> k) es) s'"
proof (rule lru_relI)
  let ?es = "filter (\<lambda>e. fst e \<noteq> k) es"
  show "mset (lc_map s') = mset (map map_pair ((k, r, n, v) # ?es))"
    unfolding assms(3) mset_update [OF lru_rel_map_of(2) [OF r]] lru_rel_delete [OF r] by simp
  show "heap_ok (mset (map ref_pair ((k, r, n, v) # ?es)) + mset held') s'"
    using assms(8) by (simp del: mset_filter mset_map)
  show "\<forall>e \<in> set ((k, r, n, v) # ?es). fst (list_pair e) < lc_next s'"
    using lru_rel_filter(3) [OF r, of "\<lambda>e. fst e \<noteq> k"] n by fastforce
  have "n \<notin> set (map (fst \<circ> list_pair) ?es)" using lru_rel_filter(3) [OF r, of "\<lambda>e. fst e \<noteq> k"] n by fastforce
  then show "distinct (map (fst \<circ> list_pair) ((k, r, n, v) # ?es))" using lru_rel_filter(2) [OF r] by simp
  show "distinct (map fst ((k, r, n, v) # ?es))" using lru_rel_filter(1) [OF r] by auto
qed (use assms in simp_all)

lemma touch_rel:
  assumes r: "lru_rel size_of held es s" and e: "(k, r, n, v) \<in> set es"
  shows "lru_rel size_of held ((k, r, lc_next s, v) # filter (\<lambda>e. fst e \<noteq> k) es) (touch k r n s)"
proof (rule link_rel [OF r])
  let ?es = "filter (\<lambda>e. fst e \<noteq> k) es" and ?s = "touch k r n s"
  have f: "lc_list ?s = (lc_next s, k) # filter (\<lambda>x. fst x \<noteq> n) (lc_list s)"
    "lc_map ?s = AList.update k (r, lc_next s) (lc_map s)" "lc_size ?s = lc_size s" "lc_heap ?s = lc_heap s"
    "lc_next ?s = Suc (lc_next s)" "lc_locked ?s = lc_locked s"
    by (simp_all add: touch_def push_front_def list_erase_def)
  show "lc_list ?s = (lc_next s, k) # map list_pair ?es" unfolding f lru_rel_erase [OF r e] ..
  show "lc_size ?s = size_of k v + total size_of (map content_pair ?es)" unfolding f by (rule total_split [OF r e])
  have "heap_ok (mset (map ref_pair es) + mset held) ?s"
    by (rule heap_ok_mono [OF lru_rel_heap [OF r]]) (simp_all add: f)
  then show "heap_ok (add_mset (r, v) (mset (map ref_pair ?es) + mset held)) ?s"
    unfolding entry_split [OF r e] by (simp del: mset_filter)
qed (use r in \<open>simp_all add: touch_def push_front_def list_erase_def lru_rel_def\<close>)

section \<open>Eviction\<close>

text \<open>The longest prefix of the list that fits.\<close>

fun keep :: "('k \<Rightarrow> 'v \<Rightarrow> int) \<Rightarrow> int \<Rightarrow> ('k \<times> 'v) list \<Rightarrow> ('k \<times> 'v) list" where
  "keep size_of m [] = []"
| "keep size_of m (x # xs) =
     (if size_of (fst x) (snd x) \<le> m then x # keep size_of (m - size_of (fst x) (snd x)) xs else [])"

lemma set_keep: "set (keep size_of m xs) \<subseteq> set xs"
  by (induction xs arbitrary: m) (auto split: if_splits)

definition fit :: "('k \<Rightarrow> 'v \<Rightarrow> int) \<Rightarrow> int \<Rightarrow> bool \<Rightarrow> ('k \<times> 'v) list \<Rightarrow> ('k \<times> 'v) list" where
  "fit size_of m b xs = (if b then keep size_of m xs else xs)"

text \<open>What a policy promises: no entry has a negative size.\<close>

locale lru_policy =
  fixes size_of :: "'k \<Rightarrow> 'v \<Rightarrow> int"
  assumes size_nonneg: "0 \<le> size_of k v"
begin

lemma SafeSizeOf_eq [simp]: "SafeSizeOf size_of k v = Some (size_of k v)"
  by (simp add: SafeSizeOf_def size_nonneg)

lemma total_nonneg: "0 \<le> total size_of xs"
  by (induction xs) (simp_all add: size_nonneg)

lemma keep_all: "total size_of xs \<le> m \<Longrightarrow> keep size_of m xs = xs"
proof (induction xs arbitrary: m)
  case (Cons x xs)
  moreover have "0 \<le> total size_of xs" by (rule total_nonneg)
  ultimately show ?case by simp
qed simp

lemma keep_snoc: "m < total size_of (xs @ [x]) \<Longrightarrow> keep size_of m (xs @ [x]) = keep size_of m xs"
  by (induction xs arbitrary: m) auto

lemma keep_fits: "0 \<le> m \<Longrightarrow> total size_of (keep size_of m xs) \<le> m"
proof (induction xs arbitrary: m)
  case (Cons x xs)
  have "size_of (fst x) (snd x) \<le> m \<Longrightarrow> total size_of (keep size_of (m - size_of (fst x) (snd x)) xs) \<le> m - size_of (fst x) (snd x)"
    by (rule Cons.IH) simp
  with Cons.prems show ?case by fastforce
qed simp

lemma keep_negative: "m < 0 \<Longrightarrow> keep size_of m xs = []"
  using size_nonneg [of "fst (hd xs)" "snd (hd xs)"] by (cases xs) auto

lemma trim_check_rel:
  assumes "lru_rel size_of held es s"
  shows "trim_check m s = Some (\<not> (total size_of (map content_pair es) \<le> m \<or> es = []))"
proof -
  have "lc_size s = total size_of (map content_pair es)" "mset (lc_map s) = mset (map map_pair es)"
    using assms by (simp_all add: lru_rel_def)
  moreover from this(2) have "lc_map s = [] \<longleftrightarrow> es = []" by (metis list.map_disc_iff mset_zero_iff)
  ultimately show ?thesis using total_nonneg [of "map content_pair es"] by (auto simp: trim_check_def)
qed

lemma trim_evict_rel:
  assumes r: "lru_rel size_of held (es @ [(k, r, n, v)]) s"
  obtains s' where "trim_evict size_of s = Some s'" and "lru_rel size_of held es s'" and "owned s' = owned s"
    and "same_limits s s'" and "lc_eviction_count s' = lc_eviction_count s + 1"
proof -
  let ?es = "es @ [(k, r, n, v)]"
  define s1 where "s1 = s\<lparr>lc_list := butlast (lc_list s), lc_map := AList.delete k (lc_map s),
    lc_size := lc_size s - size_of k v, lc_eviction_count := lc_eviction_count s + 1\<rparr>"
  have d: "distinct (map fst ?es)" and l: "lc_list s = map list_pair ?es" using r by (simp_all add: lru_rel_def)
  then have f: "filter (\<lambda>e. fst e \<noteq> k) ?es = es" by (auto simp: filter_id_conv)
  have e: "(k, r, n, v) \<in> set ?es" by simp
  have "lc_list s1 = filter (\<lambda>x. fst x \<noteq> n) (lc_list s)"
    unfolding lru_rel_erase [OF r e] f by (simp add: s1_def l butlast_append)
  then have "lru_rel size_of ((r, v) # held) (filter (\<lambda>e. fst e \<noteq> k) ?es) s1"
    by (rule unlink_rel [OF r e]) (use r in \<open>simp_all add: s1_def lru_rel_def\<close>)
  from DecRef_rel [OF this] obtain s' where s': "DecRef r s1 = Some s'" "lru_rel size_of held es s'" "owned s' = owned s1"
    "same_limits s1 s'" "lc_eviction_count s' = lc_eviction_count s1" unfolding f .
  have "(r, v) \<in># mset (map ref_pair ?es) + mset held" by simp
  then have "ref_get r s = Some v" by (rule ref_get_ok [OF lru_rel_heap [OF r]])
  moreover have "map_of (lc_map s) k = Some (r, n)" unfolding lru_rel_map_of(1) [OF r] using map_of_entry [OF d e] .
  ultimately have "trim_evict size_of s = DecRef r s1" by (simp add: trim_evict_def l s1_def)
  moreover have "owned s1 = owned s" "same_limits s s1" "lc_eviction_count s1 = lc_eviction_count s + 1"
    by (auto simp: s1_def same_limits_def intro: owned_cong)
  ultimately show ?thesis using s' same_limits_trans that by metis
qed

lemma TrimToSize_rel:
  assumes "lru_rel size_of held es s"
  obtains s' j where "TrimToSize size_of m s = Some s'" and "lru_rel size_of held (take j es) s'" and "owned s' = owned s"
    and "same_limits s s'" and "map content_pair (take j es) = keep size_of m (map content_pair es)"
    and "j \<le> length es" and "lc_eviction_count s' = lc_eviction_count s + int (length es - j)"
proof -
  have "\<exists>s' j. TrimToSize size_of m s = Some s' \<and> lru_rel size_of held (take j es) s' \<and> owned s' = owned s \<and>
    same_limits s s' \<and> map content_pair (take j es) = keep size_of m (map content_pair es) \<and> j \<le> length es \<and>
    lc_eviction_count s' = lc_eviction_count s + int (length es - j)"
    using assms
  proof (induction es arbitrary: s rule: rev_induct)
    case Nil
    then show ?case using trim_check_rel [OF Nil, of m] by (auto simp: TrimToSize.simps intro!: exI [of _ 0])
  next
    case (snoc e es)
    show ?case
    proof (cases "total size_of (map content_pair (es @ [e])) \<le> m")
      case True
      then show ?thesis using trim_check_rel [OF snoc.prems, of m] snoc.prems keep_all [OF True]
        by (intro exI [of _ s] exI [of _ "length (es @ [e])"]) (simp add: TrimToSize.simps del: pair_defs)
    next
      case False
      obtain k r n v where e: "e = (k, r, n, v)" by (cases e) auto
      from trim_evict_rel [OF snoc.prems [unfolded e]] obtain s1 where
        s1: "trim_evict size_of s = Some s1" "lru_rel size_of held es s1" "owned s1 = owned s" "same_limits s s1"
          "lc_eviction_count s1 = lc_eviction_count s + 1" .
      from snoc.IH [OF s1(2)] obtain s' j where s': "TrimToSize size_of m s1 = Some s'" "lru_rel size_of held (take j es) s'"
        "owned s' = owned s1" "same_limits s1 s'" "map content_pair (take j es) = keep size_of m (map content_pair es)"
        "j \<le> length es" "lc_eviction_count s' = lc_eviction_count s1 + int (length es - j)" by blast
      have "\<not> lc_locked s1" using s1(2) by (simp add: lru_rel_def)
      then have "TrimToSize size_of m s = Some s'"
        using trim_check_rel [OF snoc.prems, of m] False s1(1) s'(1) by (simp add: TrimToSize.simps [of _ _ s])
      moreover have "keep size_of m (map content_pair (es @ [e])) = keep size_of m (map content_pair es)"
        using keep_snoc [of m "map content_pair es" "content_pair e"] False by simp
      ultimately show ?thesis using s1 s' same_limits_trans
        by (intro exI [of _ s'] exI [of _ j]) (auto simp: Suc_diff_le simp del: pair_defs intro: same_limits_trans)
    qed
  qed
  then show ?thesis using that by blast
qed

end

section \<open>Operations on the representation\<close>

text \<open>The references of the entry of a key: none or one.\<close>

definition refs_of :: "'k \<Rightarrow> ('k, 'v) entry list \<Rightarrow> (nat \<times> 'v) list" where
  "refs_of k es = map ref_pair (filter (\<lambda>e. fst e = k) es)"

lemma refs_of_absent: "k \<notin> fst ` set es \<Longrightarrow> refs_of k es = [] \<and> filter (\<lambda>e. fst e \<noteq> k) es = es"
  by (auto simp: refs_of_def filter_empty_conv filter_id_conv)

lemma refs_of_present:
  assumes "distinct (map fst es)" and "(k, r, n, v) \<in> set es"
  shows "refs_of k es = [(r, v)]"
  using assms by (induction es) (auto simp: refs_of_def filter_empty_conv image_iff)

lemma entry_cases:
  obtains (absent) "k \<notin> fst ` set es" | (present) r n v where "(k, r, n, v) \<in> set es"
  by force

lemma content_lookup:
  "distinct (map fst es) \<Longrightarrow> (k, r, n, v) \<in> set es \<Longrightarrow> map_of (map content_pair es) k = Some v"
  "k \<notin> fst ` set es \<Longrightarrow> map_of (map content_pair es) k = None"
proof -
  assume "distinct (map fst es)" "(k, r, n, v) \<in> set es"
  then show "map_of (map content_pair es) k = Some v"
    by (intro map_of_is_SomeI) (force simp: comp_def)+
next
  assume "k \<notin> fst ` set es"
  then show "map_of (map content_pair es) k = None" by (auto simp: map_of_eq_None_iff image_image)
qed

lemma refs_of_values:
  assumes "distinct (map fst es)"
  shows "map snd (refs_of k es) = (case map_of (map content_pair es) k of None \<Rightarrow> [] | Some w \<Rightarrow> [w])"
proof (cases rule: entry_cases [of k es])
  case absent
  then show ?thesis by (simp add: content_lookup refs_of_absent)
next
  case (present q m w)
  then show ?thesis by (simp add: content_lookup(1) [OF assms present] refs_of_present [OF assms present])
qed

lemma content_filter:
  "filter (\<lambda>x. fst x \<noteq> k) (map content_pair es) = map content_pair (filter (\<lambda>e. fst e \<noteq> k) es)"
  by (simp add: filter_map comp_def)

context lru_policy
begin

lemma maybe_trim_rel:
  assumes "lru_rel size_of held es s"
  obtains s' j where "maybe_trim size_of b s = Some s'" and "lru_rel size_of held (take j es) s'" and "owned s' = owned s"
    and "same_limits s s'"
    and "map content_pair (take j es) = fit size_of (lc_max_size s) (lc_allow_overshoot s = b) (map content_pair es)"
proof (cases "lc_allow_overshoot s = b")
  case True
  from TrimToSize_rel [OF assms, of "lc_max_size s"] obtain s' j where
    "TrimToSize size_of (lc_max_size s) s = Some s'" "lru_rel size_of held (take j es) s'" "owned s' = owned s"
    "same_limits s s'" "map content_pair (take j es) = keep size_of (lc_max_size s) (map content_pair es)" by metis
  with True show ?thesis by (intro that [of s' j]) (simp_all add: maybe_trim_def fit_def)
next
  case False
  with assms show ?thesis by (intro that [of s "length es"]) (simp_all add: maybe_trim_def fit_def)
qed

lemma get_find_hit:
  assumes r: "lru_rel size_of held es s" and e: "(k, r, n, v) \<in> set es"
  obtains s' where "get_find k s = Some (Some r, s')"
    and "lru_rel size_of ((r, v) # held) ((k, r, lc_next s, v) # filter (\<lambda>e. fst e \<noteq> k) es) s'"
    and "owned s' = owned s" and "same_limits s s'"
proof -
  let ?s = "(touch k r n s)\<lparr>lc_hit_count := lc_hit_count s + 1\<rparr>"
  have "lru_rel size_of held ((k, r, lc_next s, v) # filter (\<lambda>e. fst e \<noteq> k) es) ?s"
    using touch_rel [OF r e] by (simp add: lru_rel_def heap_ok_def)
  from IncRef_rel [OF this, of r v] obtain s' where s': "IncRef r ?s = Some s'"
    "lru_rel size_of ((r, v) # held) ((k, r, lc_next s, v) # filter (\<lambda>e. fst e \<noteq> k) es) s'"
    "owned s' = owned ?s" "same_limits ?s s'" by auto
  have "map_of (lc_map s) k = Some (r, n)"
    unfolding lru_rel_map_of(1) [OF r] using r e by (intro map_of_entry) (auto simp: lru_rel_def)
  moreover have "owned ?s = owned s" "same_limits s ?s"
    by (auto simp: touch_def push_front_def list_erase_def same_limits_def intro!: owned_cong)
  ultimately show ?thesis using s' by (intro that [of s']) (auto simp: get_find_def intro: same_limits_trans)
qed

lemma get_find_miss:
  assumes r: "lru_rel size_of held es s" and "k \<notin> fst ` set es"
  obtains s' where "get_find k s = Some (None, s')" and "lru_rel size_of held es s'" and "owned s' = owned s" and "same_limits s s'"
proof
  let ?s = "s\<lparr>lc_miss_count := lc_miss_count s + 1\<rparr>"
  show "get_find k s = Some (None, ?s)"
    using map_of_no_entry [OF assms(2)] by (simp add: get_find_def lru_rel_map_of(1) [OF r])
  show "lru_rel size_of held es ?s" using r by (simp add: lru_rel_def heap_ok_def)
qed (auto simp: same_limits_def intro: owned_cong)

lemma get_insert_new:
  assumes r: "lru_rel size_of held es s" and k: "k \<notin> fst ` set es"
  obtains s' r n where "get_insert size_of k v s = Some (False, r, s')"
    and "lru_rel size_of ((r, v) # held) ((k, r, n, v) # es) s'" and "owned s' = add_mset v (owned s)" and "same_limits s s'"
proof -
  let ?n = "lc_next s" and ?r = "Suc (lc_next s)"
  define s1 where "s1 = s\<lparr>lc_create_count := lc_create_count s + 1, lc_list := (?n, k) # lc_list s, lc_next := ?r\<rparr>"
  have h1: "heap_ok (mset (map ref_pair es) + mset held) s1"
    by (rule heap_ok_mono [OF lru_rel_heap [OF r]]) (simp_all add: s1_def)
  from CreateRef_ok [OF h1, of v] obtain h where
    c: "CreateRef v s1 = (?r, s1\<lparr>lc_heap := h, lc_next := Suc ?r\<rparr>)"
    "heap_ok (add_mset (?r, v) (mset (map ref_pair es) + mset held)) (s1\<lparr>lc_heap := h, lc_next := Suc ?r\<rparr>)"
    "owned (s1\<lparr>lc_heap := h, lc_next := Suc ?r\<rparr>) = add_mset v (owned s1)" by (auto simp: s1_def)
  define s2 where "s2 = s1\<lparr>lc_heap := h, lc_next := Suc ?r, lc_map := AList.update k (?r, ?n) (lc_map s),
    lc_size := lc_size s + size_of k v\<rparr>"
  note f = refs_of_absent [OF k, THEN conjunct2]
  have "lru_rel size_of held ((k, ?r, ?n, v) # filter (\<lambda>e. fst e \<noteq> k) es) s2"
    by (rule link_rel [OF r]) (use r c(2) in \<open>simp_all add: f s2_def s1_def lru_rel_def heap_ok_def\<close>)
  from IncRef_rel [OF this, of ?r v] obtain s' where s': "IncRef ?r s2 = Some s'"
    "lru_rel size_of ((?r, v) # held) ((k, ?r, ?n, v) # es) s'" "owned s' = owned s2" "same_limits s2 s'"
    unfolding f by auto
  have "owned s2 = owned (s1\<lparr>lc_heap := h, lc_next := Suc ?r\<rparr>)" "owned s1 = owned s"
    by (auto simp: s2_def s1_def intro: owned_cong)
  moreover have "get_insert size_of k v s = map_option (\<lambda>s'. (False, ?r, s')) (IncRef ?r s2)"
    using map_of_no_entry [OF k] c(1) by (simp add: get_insert_def push_front_def lru_rel_map_of(1) [OF r] s1_def s2_def)
  moreover have "same_limits s s2" by (simp add: s1_def s2_def same_limits_def)
  ultimately show ?thesis using s' c(3) by (intro that [of ?r s' ?n]) (auto intro: same_limits_trans)
qed

lemma put_unlink_rel:
  assumes r: "lru_rel size_of held es s"
  obtains p where "put_unlink size_of k s = Some (p, s\<lparr>lc_size := total size_of (map content_pair (filter (\<lambda>e. fst e \<noteq> k) es)),
      lc_list := map list_pair (filter (\<lambda>e. fst e \<noteq> k) es)\<rparr>)"
    and "map fst (refs_of k es) = (case p of None \<Rightarrow> [] | Some q \<Rightarrow> [q])"
    and "mset (map ref_pair es) = mset (refs_of k es) + mset (map ref_pair (filter (\<lambda>e. fst e \<noteq> k) es))"
proof (cases rule: entry_cases [of k es])
  case absent
  note f = refs_of_absent [OF absent]
  have "s\<lparr>lc_size := total size_of (map content_pair es), lc_list := map list_pair es\<rparr> = s" using r by (simp add: lru_rel_def)
  moreover have "map_of (lc_map s) k = None" using map_of_no_entry [OF absent] by (simp add: lru_rel_map_of(1) [OF r])
  ultimately show ?thesis using f by (intro that [of None]) (simp_all add: put_unlink_def)
next
  case (present q n w)
  have d: "distinct (map fst es)" using r by (simp add: lru_rel_def)
  have "(q, w) \<in># mset (map ref_pair es) + mset held" using present by force
  then have "ref_get q s = Some w" by (rule ref_get_ok [OF lru_rel_heap [OF r]])
  moreover have "map_of (lc_map s) k = Some (q, n)" unfolding lru_rel_map_of(1) [OF r] by (rule map_of_entry [OF d present])
  ultimately show ?thesis
    using refs_of_present [OF d present] entry_split [OF r present, of ref_pair] total_split [OF r present] lru_rel_erase [OF r present]
    by (intro that [of "Some q"]) (simp_all add: put_unlink_def list_erase_def del: mset_filter mset_map)
qed

lemma put_link_rel:
  assumes h: "heap_ok R s"
  obtains h' where "put_link size_of k v want s = Some (Suc (lc_next s), s\<lparr>lc_list := (lc_next s, k) # lc_list s,
      lc_next := Suc (Suc (lc_next s)), lc_heap := h', lc_map := AList.update k (Suc (lc_next s), lc_next s) (lc_map s),
      lc_size := lc_size s + size_of k v\<rparr>)"
    and "heap_ok (add_mset (Suc (lc_next s), v) (mset (if want then [(Suc (lc_next s), v)] else []) + R))
      (s\<lparr>lc_heap := h', lc_next := Suc (Suc (lc_next s))\<rparr>)"
    and "owned (s\<lparr>lc_heap := h'\<rparr>) = add_mset v (owned s)"
proof -
  let ?r = "Suc (lc_next s)"
  define s2 where "s2 = s\<lparr>lc_list := (lc_next s, k) # lc_list s, lc_next := ?r\<rparr>"
  have "heap_ok R s2" by (rule heap_ok_mono [OF h]) (simp_all add: s2_def)
  from CreateRef_ok [OF this, of v] obtain h3 where
    c: "CreateRef v s2 = (?r, s2\<lparr>lc_heap := h3, lc_next := Suc ?r\<rparr>)"
    "heap_ok (add_mset (?r, v) R) (s2\<lparr>lc_heap := h3, lc_next := Suc ?r\<rparr>)"
    "owned (s2\<lparr>lc_heap := h3, lc_next := Suc ?r\<rparr>) = add_mset v (owned s2)" by (auto simp: s2_def)
  define s3 where "s3 = s2\<lparr>lc_heap := h3, lc_next := Suc ?r\<rparr>"
  let ?w = "if want then [(?r, v)] else []"
  obtain h4 where h4: "(if want then IncRef ?r s3 else Some s3) = Some (with_heap s3 h4 (lc_deleted s3))"
    "heap_ok (add_mset (?r, v) (mset ?w + R)) (with_heap s3 h4 (lc_deleted s3))"
    "owned (with_heap s3 h4 (lc_deleted s3)) = owned s3"
  proof (cases want)
    case True
    from IncRef_ok [OF c(2), of ?r v] True show ?thesis using that unfolding s3_def by auto
  next
    case False
    have "with_heap s3 (lc_heap s3) (lc_deleted s3) = s3" by (simp add: with_heap_def)
    with False c(2) that [of "lc_heap s3"] show ?thesis by (simp add: s3_def)
  qed
  have "owned (s\<lparr>lc_heap := h4\<rparr>) = owned (with_heap s3 h4 (lc_deleted s3))" "owned s2 = owned s"
    by (auto simp: s3_def s2_def intro: owned_cong)
  moreover have "put_link size_of k v want s = Option.bind (if want then IncRef ?r s3 else Some s3)
      (\<lambda>s4. Some (?r, s4\<lparr>lc_map := AList.update k (?r, lc_next s) (lc_map s4), lc_size := lc_size s4 + size_of k v\<rparr>))"
    using c(1) by (simp add: put_link_def push_front_def s3_def s2_def)
  moreover have "heap_ok (add_mset (?r, v) (mset ?w + R)) (s\<lparr>lc_heap := h4, lc_next := Suc ?r\<rparr>)"
    by (rule heap_ok_mono [OF h4(2)]) (simp_all add: s3_def s2_def)
  ultimately show ?thesis using h4(3) c(3) unfolding h4(1)
    by (intro that [of h4]) (simp_all add: with_heap_def s3_def s2_def)
qed

lemma put_insert_rel:
  assumes r: "lru_rel size_of held es s"
  obtains s' r n p where "put_insert size_of k v want s = Some (p, r, s')"
    and "map fst (refs_of k es) = (case p of None \<Rightarrow> [] | Some q \<Rightarrow> [q])"
    and "lru_rel size_of (refs_of k es @ (if want then [(r, v)] else []) @ held) ((k, r, n, v) # filter (\<lambda>e. fst e \<noteq> k) es) s'"
    and "owned s' = add_mset v (owned s)" and "same_limits s s'"
proof -
  let ?n = "lc_next s" and ?r = "Suc (lc_next s)" and ?es = "filter (\<lambda>e. fst e \<noteq> k) es"
  let ?s = "s\<lparr>lc_put_count := lc_put_count s + 1\<rparr>"
  have "lru_rel size_of held es ?s" using r by (simp add: lru_rel_def heap_ok_def)
  from put_unlink_rel [OF this, of k] obtain p where
    u: "put_unlink size_of k ?s = Some (p, ?s\<lparr>lc_size := total size_of (map content_pair ?es), lc_list := map list_pair ?es\<rparr>)"
      "map fst (refs_of k es) = (case p of None \<Rightarrow> [] | Some q \<Rightarrow> [q])"
      "mset (map ref_pair es) = mset (refs_of k es) + mset (map ref_pair ?es)" .
  define s1 where "s1 = ?s\<lparr>lc_size := total size_of (map content_pair ?es), lc_list := map list_pair ?es\<rparr>"
  have s1: "lc_next s1 = lc_next s" "lc_list s1 = map list_pair ?es" "lc_map s1 = lc_map s" "lc_locked s1 = lc_locked s"
    "lc_size s1 = total size_of (map content_pair ?es)" "owned s1 = owned s"
    by (auto simp: s1_def intro: owned_cong)
  have "heap_ok (mset (refs_of k es) + mset (map ref_pair ?es) + mset held) s1"
    by (rule heap_ok_mono [OF lru_rel_heap [OF r, unfolded u(3)]]) (simp_all add: s1_def)
  from put_link_rel [OF this, of k v want] obtain h' s' where
    l: "put_link size_of k v want s1 = Some (?r, s')"
      "s' = s1\<lparr>lc_list := (?n, k) # map list_pair ?es, lc_next := Suc ?r, lc_heap := h',
        lc_map := AList.update k (?r, ?n) (lc_map s), lc_size := total size_of (map content_pair ?es) + size_of k v\<rparr>"
      "heap_ok (add_mset (?r, v) (mset (if want then [(?r, v)] else []) + (mset (refs_of k es) + mset (map ref_pair ?es) + mset held)))
        (s1\<lparr>lc_heap := h', lc_next := Suc ?r\<rparr>)"
      "owned (s1\<lparr>lc_heap := h'\<rparr>) = add_mset v (owned s)" unfolding s1 by blast
  have "heap_ok (add_mset (?r, v) (mset (map ref_pair ?es) + mset (refs_of k es @ (if want then [(?r, v)] else []) @ held))) s'"
    by (rule heap_ok_mono [of _ "s1\<lparr>lc_heap := h', lc_next := Suc ?r\<rparr>"])
      (use l(3) in \<open>simp_all add: l(2) ac_simps del: mset_filter mset_map\<close>)
  then have "lru_rel size_of (refs_of k es @ (if want then [(?r, v)] else []) @ held) ((k, ?r, ?n, v) # ?es) s'"
    by (intro link_rel [OF r]) (use r in \<open>simp_all add: l(2) s1 lru_rel_def\<close>)
  moreover have "put_insert size_of k v want s = Some (p, ?r, s')" using u(1) l(1) by (simp add: put_insert_def s1_def)
  moreover have "owned s' = owned (s1\<lparr>lc_heap := h'\<rparr>)" unfolding l(2) by (auto intro: owned_cong)
  moreover have "same_limits s s'" by (simp add: l(2) s1_def same_limits_def)
  ultimately show ?thesis using u(2) l(4) by (intro that [of p ?r s' ?n]) simp_all
qed

lemma pass_previous:
  assumes r: "lru_rel size_of (pv @ held) es s" and p: "map fst pv = (case p of None \<Rightarrow> [] | Some q \<Rightarrow> [q])"
  obtains s' where "(case p of None \<Rightarrow> Some s | Some q \<Rightarrow> Option.bind (IncRef q s) (DecRef q)) = Some s'"
    and "lru_rel size_of (pv @ held) es s'" and "owned s' = owned s" and "same_limits s s'"
proof (cases p)
  case None
  with r show ?thesis by (intro that [of s]) simp_all
next
  case (Some q)
  then obtain v where pv: "pv = [(q, v)]" using p by auto
  from IncRef_rel [OF r, of q v] pv obtain s1 where s1: "IncRef q s = Some s1" "lru_rel size_of ((q, v) # pv @ held) es s1"
    "owned s1 = owned s" "same_limits s s1" by auto
  from DecRef_rel [OF s1(2)] obtain s' where "DecRef q s1 = Some s'" "lru_rel size_of (pv @ held) es s'"
    "owned s' = owned s1" "same_limits s1 s'" by metis
  with s1 Some show ?thesis by (intro that [of s']) (auto intro: same_limits_trans)
qed

lemma drop_previous:
  assumes r: "lru_rel size_of (pv @ held) es s" and p: "map fst pv = (case p of None \<Rightarrow> [] | Some q \<Rightarrow> [q])"
  obtains s' where "(case p of None \<Rightarrow> Some (False, s) | Some q \<Rightarrow> map_option (Pair True) (DecRef q s)) = Some (pv \<noteq> [], s')"
    and "lru_rel size_of held es s'" and "owned s' = owned s" and "same_limits s s'"
proof (cases p)
  case None
  with r p show ?thesis by (intro that [of s]) simp_all
next
  case (Some q)
  then obtain v where pv: "pv = [(q, v)]" using p by auto
  from DecRef_rel [OF r [unfolded pv append_Cons append_Nil]] obtain s' where
    "DecRef q s = Some s'" "lru_rel size_of held es s'" "owned s' = owned s" "same_limits s s'" by metis
  with Some pv show ?thesis by (intro that [of s']) simp_all
qed

lemma lru_Put2_rel:
  assumes r: "lru_rel size_of held es s"
  obtains s' r p es' pv where "lru_Put2 size_of k v want s = Some (p, r, s')"
    and "map fst pv = (case p of None \<Rightarrow> [] | Some q \<Rightarrow> [q])"
    and "lru_rel size_of (pv @ (if want then [(r, v)] else []) @ held) es' s'"
    and "owned s' = add_mset v (owned s)" and "same_limits s s'"
    and "map snd pv = (case map_of (fit size_of (lc_max_size s) (lc_allow_overshoot s) (map content_pair es)) k of
      None \<Rightarrow> [] | Some w \<Rightarrow> [w])"
    and "map content_pair es' = fit size_of (lc_max_size s) (\<not> lc_allow_overshoot s)
      ((k, v) # filter (\<lambda>x. fst x \<noteq> k) (fit size_of (lc_max_size s) (lc_allow_overshoot s) (map content_pair es)))"
proof -
  from maybe_trim_rel [OF r, of True] obtain s1 j where t1: "maybe_trim size_of True s = Some s1"
    "lru_rel size_of held (take j es) s1" "owned s1 = owned s" "same_limits s s1"
    "map content_pair (take j es) = fit size_of (lc_max_size s) (lc_allow_overshoot s) (map content_pair es)"
    by auto
  define ys where "ys = take j es"
  from put_insert_rel [OF t1(2), of k v want] obtain s2 r n p where p: "put_insert size_of k v want s1 = Some (p, r, s2)"
    "map fst (refs_of k ys) = (case p of None \<Rightarrow> [] | Some q \<Rightarrow> [q])"
    "lru_rel size_of (refs_of k ys @ (if want then [(r, v)] else []) @ held) ((k, r, n, v) # filter (\<lambda>e. fst e \<noteq> k) ys) s2"
    "owned s2 = add_mset v (owned s1)" "same_limits s1 s2" unfolding ys_def by metis
  from pass_previous [OF p(3,2)] obtain s3 where s3:
    "(case p of None \<Rightarrow> Some s2 | Some q \<Rightarrow> Option.bind (IncRef q s2) (DecRef q)) = Some s3"
    "lru_rel size_of (refs_of k ys @ (if want then [(r, v)] else []) @ held) ((k, r, n, v) # filter (\<lambda>e. fst e \<noteq> k) ys) s3"
    "owned s3 = owned s2" "same_limits s2 s3" .
  from maybe_trim_rel [OF s3(2), of False] obtain s4 i where t4: "maybe_trim size_of False s3 = Some s4"
    "lru_rel size_of (refs_of k ys @ (if want then [(r, v)] else []) @ held) (take i ((k, r, n, v) # filter (\<lambda>e. fst e \<noteq> k) ys)) s4"
    "owned s4 = owned s3" "same_limits s3 s4"
    "map content_pair (take i ((k, r, n, v) # filter (\<lambda>e. fst e \<noteq> k) ys)) =
      fit size_of (lc_max_size s3) (lc_allow_overshoot s3 = False) (map content_pair ((k, r, n, v) # filter (\<lambda>e. fst e \<noteq> k) ys))" .
  have lim: "same_limits s s3" "same_limits s s4" using t1(4) p(5) s3(4) t4(4) same_limits_trans by metis+
  have d: "distinct (map fst ys)" using t1(2) by (simp add: lru_rel_def ys_def)
  have "map snd (refs_of k ys) = (case map_of (map content_pair ys) k of None \<Rightarrow> [] | Some w \<Rightarrow> [w])"
    by (rule refs_of_values [OF d])
  moreover have "lru_Put2 size_of k v want s = Some (p, r, s4)"
    using t1(1) p(1) s3(1) t4(1) by (simp add: lru_Put2_def)
  moreover have "owned s4 = add_mset v (owned s)" using t1(3) p(4) s3(3) t4(3) by simp
  moreover have "map content_pair ((k, r, n, v) # filter (\<lambda>e. fst e \<noteq> k) ys) = (k, v) # filter (\<lambda>x. fst x \<noteq> k) (map content_pair ys)"
    unfolding content_filter by simp
  then have "map content_pair (take i ((k, r, n, v) # filter (\<lambda>e. fst e \<noteq> k) ys)) = fit size_of (lc_max_size s) (\<not> lc_allow_overshoot s)
      ((k, v) # filter (\<lambda>x. fst x \<noteq> k) (fit size_of (lc_max_size s) (lc_allow_overshoot s) (map content_pair es)))"
    using t4(5) lim(1) t1(5) by (simp add: same_limits_def ys_def del: pair_defs)
  ultimately show ?thesis using p(2) t4(2) lim(2) t1(5) unfolding ys_def by (intro that [of p r s4 "refs_of k (take j es)"]) simp_all
qed

lemma lru_Put_rel:
  assumes r: "lru_rel size_of held es s"
  obtains s' es' where "lru_Put size_of k v s =
      Some (map_of (fit size_of (lc_max_size s) (lc_allow_overshoot s) (map content_pair es)) k \<noteq> None, s')"
    and "lru_rel size_of held es' s'" and "owned s' = add_mset v (owned s)" and "same_limits s s'"
    and "map content_pair es' = fit size_of (lc_max_size s) (\<not> lc_allow_overshoot s)
      ((k, v) # filter (\<lambda>x. fst x \<noteq> k) (fit size_of (lc_max_size s) (lc_allow_overshoot s) (map content_pair es)))"
proof -
  from lru_Put2_rel [OF r, of k v False, unfolded if_False append_Nil] obtain s1 r p es' pv where
    s1: "lru_Put2 size_of k v False s = Some (p, r, s1)" "map fst pv = (case p of None \<Rightarrow> [] | Some q \<Rightarrow> [q])"
      "lru_rel size_of (pv @ held) es' s1" "owned s1 = add_mset v (owned s)" "same_limits s s1"
    and pv: "map snd pv = (case map_of (fit size_of (lc_max_size s) (lc_allow_overshoot s) (map content_pair es)) k of
      None \<Rightarrow> [] | Some w \<Rightarrow> [w])"
    and es': "map content_pair es' = fit size_of (lc_max_size s) (\<not> lc_allow_overshoot s)
      ((k, v) # filter (\<lambda>x. fst x \<noteq> k) (fit size_of (lc_max_size s) (lc_allow_overshoot s) (map content_pair es)))" .
  have ne: "pv \<noteq> [] \<longleftrightarrow> map_of (fit size_of (lc_max_size s) (lc_allow_overshoot s) (map content_pair es)) k \<noteq> None"
    using arg_cong [OF pv, of "\<lambda>x. x = []"] by (auto split: option.splits)
  from drop_previous [OF s1(3,2)] obtain s' where
    "(case p of None \<Rightarrow> Some (False, s1) | Some q \<Rightarrow> map_option (Pair True) (DecRef q s1)) = Some (pv \<noteq> [], s')"
    "lru_rel size_of held es' s'" "owned s' = owned s1" "same_limits s1 s'" .
  with s1 es' show ?thesis unfolding ne by (intro that [of s' es']) (auto simp: lru_Put_def intro: same_limits_trans)
qed

lemma lru_Remove2_rel:
  assumes r: "lru_rel size_of held es s"
  obtains s' p where "lru_Remove2 size_of k s = Some (p, s')"
    and "map fst (refs_of k es) = (case p of None \<Rightarrow> [] | Some q \<Rightarrow> [q])"
    and "lru_rel size_of (refs_of k es @ held) (filter (\<lambda>e. fst e \<noteq> k) es) s'" and "owned s' = owned s" and "same_limits s s'"
proof (cases rule: entry_cases [of k es])
  case absent
  with r map_of_no_entry [OF absent] show ?thesis
    by (intro that [of None s]) (simp_all add: refs_of_absent lru_Remove2_def lru_rel_map_of(1) [OF r])
next
  case (present q n v)
  have d: "distinct (map fst es)" using r by (simp add: lru_rel_def)
  define s1 where "s1 = (list_erase n (s\<lparr>lc_size := lc_size s - size_of k v\<rparr>))\<lparr>lc_map := AList.delete k (lc_map s)\<rparr>"
  have "lru_rel size_of ([(q, v)] @ held) (filter (\<lambda>e. fst e \<noteq> k) es) s1"
    unfolding append_Cons append_Nil
    by (rule unlink_rel [OF r present]) (use r in \<open>simp_all add: s1_def list_erase_def lru_rel_def\<close>)
  from pass_previous [OF this, of "Some q"] obtain s' where
    s': "Option.bind (IncRef q s1) (DecRef q) = Some s'" "lru_rel size_of ([(q, v)] @ held) (filter (\<lambda>e. fst e \<noteq> k) es) s'"
    "owned s' = owned s1" "same_limits s1 s'" by auto
  have "(q, v) \<in># mset (map ref_pair es) + mset held" using present by force
  then have "ref_get q s = Some v" by (rule ref_get_ok [OF lru_rel_heap [OF r]])
  moreover have "map_of (lc_map s) k = Some (q, n)" unfolding lru_rel_map_of(1) [OF r] by (rule map_of_entry [OF d present])
  ultimately have "lru_Remove2 size_of k s = Option.bind (IncRef q s1) (\<lambda>x. map_option (Pair (Some q)) (DecRef q x))"
    by (simp add: lru_Remove2_def s1_def)
  with s'(1) have "lru_Remove2 size_of k s = Some (Some q, s')" by (auto simp: bind_eq_Some_conv)
  moreover have "owned s1 = owned s" "same_limits s s1" by (auto simp: s1_def list_erase_def same_limits_def intro: owned_cong)
  ultimately show ?thesis using s' refs_of_present [OF d present]
    by (intro that [of "Some q" s']) (auto intro: same_limits_trans)
qed

lemma lru_Remove_rel:
  assumes r: "lru_rel size_of held es s"
  obtains s' where "lru_Remove size_of k s = Some (map_of (map content_pair es) k \<noteq> None, s')"
    and "lru_rel size_of held (filter (\<lambda>e. fst e \<noteq> k) es) s'" and "owned s' = owned s" and "same_limits s s'"
proof -
  from lru_Remove2_rel [OF r, of k] obtain s1 p where s1: "lru_Remove2 size_of k s = Some (p, s1)"
    "map fst (refs_of k es) = (case p of None \<Rightarrow> [] | Some q \<Rightarrow> [q])"
    "lru_rel size_of (refs_of k es @ held) (filter (\<lambda>e. fst e \<noteq> k) es) s1" "owned s1 = owned s" "same_limits s s1" by metis
  have "distinct (map fst es)" using r by (simp add: lru_rel_def)
  then have ne: "refs_of k es \<noteq> [] \<longleftrightarrow> map_of (map content_pair es) k \<noteq> None"
    using arg_cong [OF refs_of_values [of es k], of "\<lambda>x. x = []"] by (auto split: option.splits)
  from drop_previous [OF s1(3,2)] obtain s' where
    "(case p of None \<Rightarrow> Some (False, s1) | Some q \<Rightarrow> map_option (Pair True) (DecRef q s1)) = Some (refs_of k es \<noteq> [], s')"
    "lru_rel size_of held (filter (\<lambda>e. fst e \<noteq> k) es) s'" "owned s' = owned s1" "same_limits s1 s'" .
  with s1 show ?thesis unfolding ne by (intro that [of s']) (auto simp: lru_Remove_def intro: same_limits_trans)
qed

lemma lru_Get_hit:
  assumes r: "lru_rel size_of held es s" and e: "(k, r, n, v) \<in> set es"
  obtains s' where "lru_Get size_of create k s = Some (Some r, s')"
    and "lru_rel size_of ((r, v) # held) ((k, r, lc_next s, v) # filter (\<lambda>e. fst e \<noteq> k) es) s'"
    and "owned s' = owned s" and "same_limits s s'"
proof -
  from get_find_hit [OF assms] obtain s' where "get_find k s = Some (Some r, s')"
    "lru_rel size_of ((r, v) # held) ((k, r, lc_next s, v) # filter (\<lambda>e. fst e \<noteq> k) es) s'"
    "owned s' = owned s" "same_limits s s'" .
  then show ?thesis by (intro that [of s']) (simp_all add: lru_Get_def)
qed

lemma lru_Get_miss:
  assumes r: "lru_rel size_of held es s" and k: "k \<notin> fst ` set es"
  obtains s' es' pv where "lru_Get size_of create k s = Some (case pv of [] \<Rightarrow> None | x # _ \<Rightarrow> Some (fst x), s')"
    and "map snd pv = (case create k of None \<Rightarrow> [] | Some v \<Rightarrow> [v])"
    and "lru_rel size_of (pv @ held) es' s'" and "owned s' = owned s + mset (map snd pv)" and "same_limits s s'"
    and "map content_pair es' =
      (case create k of
         None \<Rightarrow> fit size_of (lc_max_size s) (lc_allow_overshoot s) (map content_pair es)
       | Some v \<Rightarrow> fit size_of (lc_max_size s) (\<not> lc_allow_overshoot s)
           ((k, v) # fit size_of (lc_max_size s) (lc_allow_overshoot s) (map content_pair es)))"
proof -
  from get_find_miss [OF assms] obtain s1 where s1: "get_find k s = Some (None, s1)" "lru_rel size_of held es s1"
    "owned s1 = owned s" "same_limits s s1" .
  from maybe_trim_rel [OF s1(2), of True] obtain s2 j where s2: "maybe_trim size_of True s1 = Some s2"
    "lru_rel size_of held (take j es) s2" "owned s2 = owned s1" "same_limits s1 s2"
    "map content_pair (take j es) = fit size_of (lc_max_size s1) (lc_allow_overshoot s1 = True) (map content_pair es)" .
  have lim: "same_limits s s2" using s1(4) s2(4) by (rule same_limits_trans)
  have c2: "map content_pair (take j es) = fit size_of (lc_max_size s) (lc_allow_overshoot s) (map content_pair es)"
    using s2(5) s1(4) by (simp add: same_limits_def)
  show ?thesis
  proof (cases "create k")
    case None
    then show ?thesis using s1 s2 lim c2
      by (intro that [of "[]" s2 "take j es"]) (simp_all add: lru_Get_def)
  next
    case (Some v)
    have k2: "k \<notin> fst ` set (take j es)" using k by (auto dest: in_set_takeD)
    from get_insert_new [OF s2(2) k2, of v] obtain s3 r n where s3: "get_insert size_of k v s2 = Some (False, r, s3)"
      "lru_rel size_of ((r, v) # held) ((k, r, n, v) # take j es) s3" "owned s3 = add_mset v (owned s2)" "same_limits s2 s3" by metis
    from maybe_trim_rel [OF s3(2), of False] obtain s4 i where s4: "maybe_trim size_of False s3 = Some s4"
      "lru_rel size_of ((r, v) # held) (take i ((k, r, n, v) # take j es)) s4" "owned s4 = owned s3" "same_limits s3 s4"
      "map content_pair (take i ((k, r, n, v) # take j es)) = fit size_of (lc_max_size s3) (lc_allow_overshoot s3 = False)
        (map content_pair ((k, r, n, v) # take j es))" .
    have lim3: "same_limits s s3" "same_limits s s4" using lim s3(4) s4(4) same_limits_trans by metis+
    have "map content_pair ((k, r, n, v) # take j es) = (k, v) # fit size_of (lc_max_size s) (lc_allow_overshoot s) (map content_pair es)"
      using c2 by simp
    then have "map content_pair (take i ((k, r, n, v) # take j es)) = fit size_of (lc_max_size s) (\<not> lc_allow_overshoot s)
        ((k, v) # fit size_of (lc_max_size s) (lc_allow_overshoot s) (map content_pair es))"
      using s4(5) lim3(1) by (simp add: same_limits_def del: pair_defs)
    moreover have "lru_Get size_of create k s = Some (Some r, s4)" using s1(1) s2(1) s3(1) s4(1) Some by (simp add: lru_Get_def)
    ultimately show ?thesis using s1(3) s2(3) s3(3) s4 lim3 Some
      by (intro that [of "[(r, v)]" s4 "take i ((k, r, n, v) # take j es)"]) simp_all
  qed
qed

lemma EvictAll_rel:
  assumes "lru_rel size_of held es s"
  obtains s' where "EvictAll size_of s = Some s'" and "lru_rel size_of held [] s'" and "owned s' = owned s" and "same_limits s s'"
proof -
  from TrimToSize_rel [OF assms, of "-1"] obtain s' j where
    s': "TrimToSize size_of (-1) s = Some s'" "lru_rel size_of held (take j es) s'" "owned s' = owned s" "same_limits s s'"
    "map content_pair (take j es) = keep size_of (-1) (map content_pair es)" by metis
  have "take j es = []" using s'(5) keep_negative [of "-1" "map content_pair es"] by (metis Nil_is_map_conv neg_less_0_iff_less zero_less_one)
  with s' show ?thesis by (intro that [of s']) (simp_all add: EvictAll_def)
qed

end

interpretation simple: lru_policy simple_SizeOf
  by unfold_locales (simp add: simple_SizeOf_def)

end
