(* ===== verification/LruClient.thy ===== *)
theory LruClient
  imports LruProps
begin

text \<open>
  Clients of the LRU cache. Sequences of calls refine a list of entries with the values the
  client holds; no value is lost or deleted twice; two threads inside \<open>TrimToSize\<close> are an
  interleaving of its critical sections.
\<close>

section \<open>Sequences of calls\<close>

datatype ('k, 'v) lru_op =
  OpGet 'k | OpPut 'k 'v | OpPutRefs 'k 'v bool | OpRemove 'k | OpTake 'k | OpHasKey 'k | OpEvictAll | OpRelease nat

datatype 'v lru_out = OutValue "'v option" | OutBool bool | OutDone

text \<open>A call by a client that keeps the references it was given in a list; \<open>OpRelease\<close> gives one back.\<close>

fun lru_call ::
    "('k \<Rightarrow> 'v \<Rightarrow> int) \<Rightarrow> ('k \<Rightarrow> 'v option) \<Rightarrow> ('k, 'v) lru_op \<Rightarrow> ('k, 'v) lru \<times> nat list \<Rightarrow>
     ('v lru_out \<times> ('k, 'v) lru \<times> nat list) option" where
  "lru_call size_of create (OpGet k) (s, held) =
     map_option (\<lambda>(r, s'). (OutValue (Option.bind r (\<lambda>q. ref_get q s')), s', (case r of None \<Rightarrow> [] | Some q \<Rightarrow> [q]) @ held))
       (lru_Get size_of create k s)"
| "lru_call size_of create (OpPut k v) (s, held) = map_option (\<lambda>(b, s'). (OutBool b, s', held)) (lru_Put size_of k v s)"
| "lru_call size_of create (OpPutRefs k v want) (s, held) =
     map_option (\<lambda>(p, r, s'). (OutValue (Option.bind p (\<lambda>q. ref_get q s')), s',
         (case p of None \<Rightarrow> [] | Some q \<Rightarrow> [q]) @ (if want then [r] else []) @ held))
       (lru_Put2 size_of k v want s)"
| "lru_call size_of create (OpRemove k) (s, held) = map_option (\<lambda>(b, s'). (OutBool b, s', held)) (lru_Remove size_of k s)"
| "lru_call size_of create (OpTake k) (s, held) =
     map_option (\<lambda>(r, s'). (OutValue (Option.bind r (\<lambda>q. ref_get q s')), s', (case r of None \<Rightarrow> [] | Some q \<Rightarrow> [q]) @ held))
       (lru_Remove2 size_of k s)"
| "lru_call size_of create (OpHasKey k) (s, held) = Some (OutBool (lru_HasKey k s), s, held)"
| "lru_call size_of create OpEvictAll (s, held) = map_option (\<lambda>s'. (OutDone, s', held)) (EvictAll size_of s)"
| "lru_call size_of create (OpRelease i) (s, held) =
     (if i < length held then map_option (\<lambda>s'. (OutDone, s', take i held @ drop (Suc i) held)) (DecRef (held ! i) s)
      else Some (OutDone, s, held))"

fun lru_calls ::
    "('k \<Rightarrow> 'v \<Rightarrow> int) \<Rightarrow> ('k \<Rightarrow> 'v option) \<Rightarrow> ('k, 'v) lru_op list \<Rightarrow> ('k, 'v) lru \<times> nat list \<Rightarrow>
     ('v lru_out list \<times> ('k, 'v) lru \<times> nat list) option" where
  "lru_calls size_of create [] st = Some ([], st)"
| "lru_calls size_of create (op # ops) st =
     Option.bind (lru_call size_of create op st) (\<lambda>(x, st1).
       map_option (\<lambda>(xs, st2). (x # xs, st2)) (lru_calls size_of create ops st1))"

text \<open>
  The abstract cache: the entries, the most recently used first; the values the client holds; all
  values given to the cache. An insertion makes room (\<open>fit\<close>) after it, or before it when
  overshooting is allowed.
\<close>

definition opt_list :: "'a option \<Rightarrow> 'a list" where
  "opt_list x = (case x of None \<Rightarrow> [] | Some a \<Rightarrow> [a])"

definition insert_front ::
    "('k \<Rightarrow> 'v \<Rightarrow> int) \<Rightarrow> int \<Rightarrow> bool \<Rightarrow> 'k \<Rightarrow> 'v \<Rightarrow> ('k \<times> 'v) list \<Rightarrow> ('k \<times> 'v) list" where
  "insert_front size_of m over k v xs = fit size_of m (\<not> over) ((k, v) # filter (\<lambda>x. fst x \<noteq> k) xs)"

fun spec_call ::
    "('k \<Rightarrow> 'v \<Rightarrow> int) \<Rightarrow> ('k \<Rightarrow> 'v option) \<Rightarrow> int \<Rightarrow> bool \<Rightarrow> ('k, 'v) lru_op \<Rightarrow>
     ('k \<times> 'v) list \<times> 'v list \<times> 'v list \<Rightarrow> 'v lru_out \<times> ('k \<times> 'v) list \<times> 'v list \<times> 'v list" where
  "spec_call size_of create m over (OpGet k) (xs, hs, gs) =
     (case map_of xs k of
        Some v \<Rightarrow> (OutValue (Some v), (k, v) # filter (\<lambda>x. fst x \<noteq> k) xs, v # hs, gs)
      | None \<Rightarrow>
          let ys = fit size_of m over xs in
          (case create k of
             None \<Rightarrow> (OutValue None, ys, hs, gs)
           | Some v \<Rightarrow> (OutValue (Some v), insert_front size_of m over k v ys, v # hs, v # gs)))"
| "spec_call size_of create m over (OpPut k v) (xs, hs, gs) =
     (let ys = fit size_of m over xs in
      (OutBool (map_of ys k \<noteq> None), insert_front size_of m over k v ys, hs, v # gs))"
| "spec_call size_of create m over (OpPutRefs k v want) (xs, hs, gs) =
     (let ys = fit size_of m over xs in
      (OutValue (map_of ys k), insert_front size_of m over k v ys,
       opt_list (map_of ys k) @ (if want then [v] else []) @ hs, v # gs))"
| "spec_call size_of create m over (OpRemove k) (xs, hs, gs) =
     (OutBool (map_of xs k \<noteq> None), filter (\<lambda>x. fst x \<noteq> k) xs, hs, gs)"
| "spec_call size_of create m over (OpTake k) (xs, hs, gs) =
     (OutValue (map_of xs k), filter (\<lambda>x. fst x \<noteq> k) xs, opt_list (map_of xs k) @ hs, gs)"
| "spec_call size_of create m over (OpHasKey k) (xs, hs, gs) = (OutBool (map_of xs k \<noteq> None), xs, hs, gs)"
| "spec_call size_of create m over OpEvictAll (xs, hs, gs) = (OutDone, [], hs, gs)"
| "spec_call size_of create m over (OpRelease i) (xs, hs, gs) = (OutDone, xs, take i hs @ drop (Suc i) hs, gs)"

fun spec_calls ::
    "('k \<Rightarrow> 'v \<Rightarrow> int) \<Rightarrow> ('k \<Rightarrow> 'v option) \<Rightarrow> int \<Rightarrow> bool \<Rightarrow> ('k, 'v) lru_op list \<Rightarrow>
     ('k \<times> 'v) list \<times> 'v list \<times> 'v list \<Rightarrow> 'v lru_out list \<times> ('k \<times> 'v) list \<times> 'v list \<times> 'v list" where
  "spec_calls size_of create m over [] st = ([], st)"
| "spec_calls size_of create m over (op # ops) st =
     (case spec_call size_of create m over op st of (x, st1) \<Rightarrow>
      case spec_calls size_of create m over ops st1 of (xs, st2) \<Rightarrow> (x # xs, st2))"

text \<open>The simulation: a state with the client's references represents an abstract state.\<close>

definition lru_sim ::
    "('k \<Rightarrow> 'v \<Rightarrow> int) \<Rightarrow> int \<Rightarrow> bool \<Rightarrow> ('k, 'v) lru \<times> nat list \<Rightarrow> ('k \<times> 'v) list \<times> 'v list \<times> 'v list \<Rightarrow> bool" where
  "lru_sim size_of m over st ab \<longleftrightarrow>
     (\<exists>held es. lru_rel size_of held es (fst st) \<and> snd st = map fst held \<and> fst ab = map content_pair es \<and>
        fst (snd ab) = map snd held \<and> owned (fst st) = mset (snd (snd ab)) \<and>
        lc_max_size (fst st) = m \<and> lc_allow_overshoot (fst st) = over)"

lemma lru_simI:
  "lru_rel size_of held es s \<Longrightarrow> same_limits s0 s \<Longrightarrow> owned s = mset gs \<Longrightarrow> xs = map content_pair es \<Longrightarrow> hs = map snd held \<Longrightarrow>
   rs = map fst held \<Longrightarrow> lru_sim size_of (lc_max_size s0) (lc_allow_overshoot s0) (s, rs) (xs, hs, gs)"
  by (auto simp: lru_sim_def same_limits_def)

lemma ref_get_held:
  "lru_rel size_of held es s \<Longrightarrow> (r, v) \<in> set held \<Longrightarrow> ref_get r s = Some v"
  by (rule ref_get_ok [OF lru_rel_heap]) auto

definition call_ok ::
    "('k \<Rightarrow> 'v \<Rightarrow> int) \<Rightarrow> ('k \<Rightarrow> 'v option) \<Rightarrow> ('k, 'v) lru_op \<Rightarrow> ('k, 'v) lru \<Rightarrow> (nat \<times> 'v) list \<Rightarrow> ('k, 'v) entry list \<Rightarrow>
     'v list \<Rightarrow> bool" where
  "call_ok size_of create op s held es gs \<longleftrightarrow>
     (\<exists>x st ab. spec_call size_of create (lc_max_size s) (lc_allow_overshoot s) op (map content_pair es, map snd held, gs) = (x, ab) \<and>
        lru_call size_of create op (s, map fst held) = Some (x, st) \<and>
        lru_sim size_of (lc_max_size s) (lc_allow_overshoot s) st ab)"

lemma call_okI:
  assumes "spec_call size_of create (lc_max_size s) (lc_allow_overshoot s) op (map content_pair es, map snd held, gs) =
      (x, map content_pair es', map snd held', gs')"
    and "lru_call size_of create op (s, map fst held) = Some (x, s', map fst held')"
    and "lru_rel size_of held' es' s'" and "owned s' = mset gs'" and "same_limits s s'"
  shows "call_ok size_of create op s held es gs"
  unfolding call_ok_def using assms by (blast intro: lru_simI)

lemma prev_value:
  assumes "lru_rel size_of (pv @ held) es s" and "map fst pv = (case p of None \<Rightarrow> [] | Some q \<Rightarrow> [q])"
    and "map snd pv = opt_list y"
  shows "Option.bind p (\<lambda>q. ref_get q s) = y"
proof (cases p)
  case None
  then show ?thesis using assms by (auto simp: opt_list_def split: option.splits)
next
  case (Some q)
  then obtain v where pv: "pv = [(q, v)]" using assms(2) by auto
  with assms(3) have "y = Some v" by (auto simp: opt_list_def split: option.splits)
  moreover have "ref_get q s = Some v" using ref_get_held [OF assms(1), of q v] pv by simp
  ultimately show ?thesis using Some by simp
qed

context lru_policy
begin

lemma call_get:
  assumes r: "lru_rel size_of held es s" and g: "owned s = mset gs"
  shows "call_ok size_of create (OpGet k) s held es gs"
proof (cases rule: entry_cases [of k es])
  case absent
  from lru_Get_miss [OF r absent, of create] obtain s' es' pv where
    g': "lru_Get size_of create k s = Some (case pv of [] \<Rightarrow> None | x # _ \<Rightarrow> Some (fst x), s')"
    "map snd pv = (case create k of None \<Rightarrow> [] | Some v \<Rightarrow> [v])" "lru_rel size_of (pv @ held) es' s'"
    "owned s' = owned s + mset (map snd pv)" "same_limits s s'"
    and c: "map content_pair es' =
      (case create k of
         None \<Rightarrow> fit size_of (lc_max_size s) (lc_allow_overshoot s) (map content_pair es)
       | Some v \<Rightarrow> fit size_of (lc_max_size s) (\<not> lc_allow_overshoot s)
           ((k, v) # fit size_of (lc_max_size s) (lc_allow_overshoot s) (map content_pair es)))" .
  let ?ys = "fit size_of (lc_max_size s) (lc_allow_overshoot s) (map content_pair es)"
  have m: "map_of (map content_pair es) k = None" using absent by (rule content_lookup)
  show ?thesis
  proof (cases "create k")
    case None
    with g' c g m show ?thesis
      by (intro call_okI [where held' = held and es' = es' and s' = s' and x = "OutValue None" and gs' = gs]) simp_all
  next
    case (Some v)
    then obtain q where pv: "pv = [(q, v)]" using g'(2) by (auto simp: map_eq_Cons_conv)
    have "filter (\<lambda>x. fst x \<noteq> k) ?ys = ?ys"
      using absent by (auto simp: filter_id_conv fit_def dest!: set_mp [OF set_keep])
    then have "spec_call size_of create (lc_max_size s) (lc_allow_overshoot s) (OpGet k) (map content_pair es, map snd held, gs) =
        (OutValue (Some v), map content_pair es', map snd (pv @ held), v # gs)"
      using m Some c pv by (simp add: insert_front_def Let_def del: pair_defs)
    then show ?thesis using g' g pv Some ref_get_held [OF g'(3), of q v]
      by (intro call_okI [where held' = "pv @ held" and es' = es' and s' = s' and x = "OutValue (Some v)" and gs' = "v # gs"]) simp_all
  qed
next
  case (present q n v)
  have d: "distinct (map fst es)" using r by (simp add: lru_rel_def)
  from lru_Get_hit [OF r present, of create] obtain s' where g': "lru_Get size_of create k s = Some (Some q, s')"
    "lru_rel size_of ((q, v) # held) ((k, q, lc_next s, v) # filter (\<lambda>e. fst e \<noteq> k) es) s'"
    "owned s' = owned s" "same_limits s s'" .
  have c: "map content_pair ((k, q, lc_next s, v) # filter (\<lambda>e. fst e \<noteq> k) es) = (k, v) # filter (\<lambda>x. fst x \<noteq> k) (map content_pair es)"
    unfolding content_filter by simp
  have "spec_call size_of create (lc_max_size s) (lc_allow_overshoot s) (OpGet k) (map content_pair es, map snd held, gs) =
      (OutValue (Some v), map content_pair ((k, q, lc_next s, v) # filter (\<lambda>e. fst e \<noteq> k) es), map snd ((q, v) # held), gs)"
    unfolding c by (simp add: content_lookup(1) [OF d present] del: pair_defs)
  then show ?thesis
    by (rule call_okI) (use g' g ref_get_held [OF g'(2), of q v] in simp_all)
qed

lemma call_put:
  assumes r: "lru_rel size_of held es s" and g: "owned s = mset gs"
  shows "call_ok size_of create (OpPut k v) s held es gs"
proof -
  from lru_Put_rel [OF r, of k v] obtain s' es' where
    "lru_Put size_of k v s =
      Some (map_of (fit size_of (lc_max_size s) (lc_allow_overshoot s) (map content_pair es)) k \<noteq> None, s')"
    "lru_rel size_of held es' s'" "owned s' = add_mset v (owned s)" "same_limits s s'"
    "map content_pair es' = fit size_of (lc_max_size s) (\<not> lc_allow_overshoot s)
      ((k, v) # filter (\<lambda>x. fst x \<noteq> k) (fit size_of (lc_max_size s) (lc_allow_overshoot s) (map content_pair es)))" .
  with g show ?thesis
    by (intro call_okI [where held' = held and es' = es' and s' = s' and gs' = "v # gs"])
      (simp_all add: insert_front_def Let_def)
qed

lemma call_put_refs:
  assumes r: "lru_rel size_of held es s" and g: "owned s = mset gs"
  shows "call_ok size_of create (OpPutRefs k v want) s held es gs"
proof -
  from lru_Put2_rel [OF r, of k v want] obtain s' r p es' pv where
    p: "lru_Put2 size_of k v want s = Some (p, r, s')" "map fst pv = (case p of None \<Rightarrow> [] | Some q \<Rightarrow> [q])"
      "lru_rel size_of (pv @ (if want then [(r, v)] else []) @ held) es' s'" "owned s' = add_mset v (owned s)" "same_limits s s'"
      "map snd pv = (case map_of (fit size_of (lc_max_size s) (lc_allow_overshoot s) (map content_pair es)) k of
         None \<Rightarrow> [] | Some w \<Rightarrow> [w])"
      "map content_pair es' = fit size_of (lc_max_size s) (\<not> lc_allow_overshoot s)
      ((k, v) # filter (\<lambda>x. fst x \<noteq> k) (fit size_of (lc_max_size s) (lc_allow_overshoot s) (map content_pair es)))" .
  note p6 = p(6) [folded opt_list_def]
  have "Option.bind p (\<lambda>q. ref_get q s') = map_of (fit size_of (lc_max_size s) (lc_allow_overshoot s) (map content_pair es)) k"
    by (rule prev_value [OF p(3,2) p6])
  with p p6 g show ?thesis
    by (intro call_okI [where held' = "pv @ (if want then [(r, v)] else []) @ held" and es' = es' and s' = s' and gs' = "v # gs"])
      (simp_all add: insert_front_def Let_def)
qed

lemma call_take:
  assumes r: "lru_rel size_of held es s" and g: "owned s = mset gs"
  shows "call_ok size_of create (OpTake k) s held es gs"
proof -
  have d: "distinct (map fst es)" using r by (simp add: lru_rel_def)
  from lru_Remove2_rel [OF r, of k] obtain s' p where p: "lru_Remove2 size_of k s = Some (p, s')"
    "map fst (refs_of k es) = (case p of None \<Rightarrow> [] | Some q \<Rightarrow> [q])"
    "lru_rel size_of (refs_of k es @ held) (filter (\<lambda>e. fst e \<noteq> k) es) s'" "owned s' = owned s" "same_limits s s'" by metis
  note v = refs_of_values [OF d, of k, folded opt_list_def]
  have "Option.bind p (\<lambda>q. ref_get q s') = map_of (map content_pair es) k" by (rule prev_value [OF p(3,2) v])
  with p v g show ?thesis
    by (intro call_okI [where held' = "refs_of k es @ held" and es' = "filter (\<lambda>e. fst e \<noteq> k) es" and s' = s' and gs' = gs])
      (simp_all add: content_filter)
qed

lemma call_remove:
  assumes r: "lru_rel size_of held es s" and g: "owned s = mset gs"
  shows "call_ok size_of create (OpRemove k) s held es gs"
proof -
  from lru_Remove_rel [OF r, of k] obtain s' where "lru_Remove size_of k s = Some (map_of (map content_pair es) k \<noteq> None, s')"
    "lru_rel size_of held (filter (\<lambda>e. fst e \<noteq> k) es) s'" "owned s' = owned s" "same_limits s s'" .
  with g show ?thesis
    by (intro call_okI [where held' = held and es' = "filter (\<lambda>e. fst e \<noteq> k) es" and s' = s' and gs' = gs])
      (simp_all add: content_filter)
qed

lemma call_has_key:
  assumes r: "lru_rel size_of held es s" and g: "owned s = mset gs"
  shows "call_ok size_of create (OpHasKey k) s held es gs"
proof -
  have "map_of (lc_map s) k = None \<longleftrightarrow> map_of (map content_pair es) k = None"
    unfolding lru_rel_map_of(1) [OF r] map_of_eq_None_iff by force
  with r g show ?thesis
    by (intro call_okI [where held' = held and es' = es and s' = s and gs' = gs]) (simp_all add: lru_HasKey_def)
qed

lemma call_evict_all:
  assumes r: "lru_rel size_of held es s" and g: "owned s = mset gs"
  shows "call_ok size_of create OpEvictAll s held es gs"
proof -
  from EvictAll_rel [OF r] obtain s' where "EvictAll size_of s = Some s'" "lru_rel size_of held [] s'" "owned s' = owned s"
    "same_limits s s'" .
  with g show ?thesis
    by (intro call_okI [where held' = held and es' = "[]" and s' = s' and gs' = gs]) simp_all
qed

lemma call_release:
  assumes r: "lru_rel size_of held es s" and g: "owned s = mset gs"
  shows "call_ok size_of create (OpRelease i) s held es gs"
proof (cases "i < length held")
  case True
  let ?h = "take i held @ drop (Suc i) held"
  have "mset held = mset (held ! i # ?h)" using True by (metis id_take_nth_drop mset_append mset.simps(2) union_mset_add_mset_right)
  then have "lru_rel size_of (held ! i # ?h) es s" using r lru_rel_held by metis
  then have "lru_rel size_of ((fst (held ! i), snd (held ! i)) # ?h) es s" by simp
  from DecRef_rel [OF this] obtain s' where "DecRef (fst (held ! i)) s = Some s'" "lru_rel size_of ?h es s'"
    "owned s' = owned s" "same_limits s s'" by metis
  with True g show ?thesis
    by (intro call_okI [where held' = ?h and es' = es and s' = s' and gs' = gs]) (simp_all add: take_map drop_map)
next
  case False
  with r g show ?thesis by (intro call_okI [where held' = held and es' = es and s' = s and gs' = gs]) simp_all
qed

lemmas call_rules = call_get call_put call_put_refs call_take call_remove call_has_key call_evict_all call_release

lemma lru_call_sim:
  assumes "lru_sim size_of m over st ab"
  obtains x st' ab' where "lru_call size_of create op st = Some (x, st')" and "spec_call size_of create m over op ab = (x, ab')"
    and "lru_sim size_of m over st' ab'"
proof -
  obtain s rs xs hs gs where st: "st = (s, rs)" "ab = (xs, hs, gs)" by (metis prod_cases3 surj_pair)
  from assms [unfolded st] obtain held es where r: "lru_rel size_of held es s" "owned s = mset gs"
    and e: "rs = map fst held" "xs = map content_pair es" "hs = map snd held" "lc_max_size s = m" "lc_allow_overshoot s = over"
    unfolding lru_sim_def fst_conv snd_conv by blast
  have "call_ok size_of create op s held es gs" by (cases op) (simp_all add: call_rules [OF r])
  then obtain x st' ab' where "spec_call size_of create (lc_max_size s) (lc_allow_overshoot s) op (map content_pair es, map snd held, gs) = (x, ab')"
    "lru_call size_of create op (s, map fst held) = Some (x, st')" "lru_sim size_of (lc_max_size s) (lc_allow_overshoot s) st' ab'"
    unfolding call_ok_def by blast
  then show ?thesis unfolding e(4,5) st e(1-3) [symmetric] by (intro that [of x st' ab']) (simp_all add: st)
qed

lemma lru_calls_sim:
  assumes "lru_sim size_of m over st ab"
  obtains xs st' ab' where "lru_calls size_of create ops st = Some (xs, st')" and "spec_calls size_of create m over ops ab = (xs, ab')"
    and "lru_sim size_of m over st' ab'"
proof -
  have "\<exists>xs st' ab'. lru_calls size_of create ops st = Some (xs, st') \<and> spec_calls size_of create m over ops ab = (xs, ab') \<and>
      lru_sim size_of m over st' ab'"
    using assms
  proof (induction ops arbitrary: st ab)
    case (Cons op ops)
    from lru_call_sim [OF Cons.prems, of create op] obtain x st1 ab1 where
      "lru_call size_of create op st = Some (x, st1)" "spec_call size_of create m over op ab = (x, ab1)" "lru_sim size_of m over st1 ab1" .
    with Cons.IH [of st1 ab1] show ?case by auto
  qed simp
  then show ?thesis using that by blast
qed

lemma lru_new_sim:
  assumes "0 < m"
  obtains s where "lru_new m over = Some s" and "lru_sim size_of m over (s, []) ([], [], [])"
proof -
  obtain s :: "('k, 'v) lru" where s: "lru_new m over = Some s" using assms by (simp add: lru_new_def)
  then have "lru_rel size_of [] [] s" "owned s = {#}" "lc_max_size s = m" "lc_allow_overshoot s = over"
    by (auto simp: lru_new_def lru_rel_def heap_ok_def owned_def split: if_splits)
  with s show ?thesis by (intro that [of s]) (auto simp: lru_sim_def)
qed

end

lemma lru_sim_contents: "lru_sim size_of m over (s, held) (xs, hs, gs) \<Longrightarrow> contents s = xs"
  by (auto simp: lru_sim_def contents_eq)

lemma lru_sim_held: "lru_sim size_of m over (s, held) (xs, hs, gs) \<Longrightarrow> map (\<lambda>r. ref_get r s) held = map Some hs"
  by (auto simp: lru_sim_def) (blast intro: ref_get_held)+

lemma lru_sim_size: "lru_sim size_of m over (s, held) (xs, hs, gs) \<Longrightarrow> lc_size s = total size_of xs"
  by (auto simp: lru_sim_def lru_rel_def)

lemma lru_sim_owned: "lru_sim size_of m over (s, held) (xs, hs, gs) \<Longrightarrow> owned s = mset gs"
  by (auto simp: lru_sim_def)

lemma lru_run_sim:
  assumes "\<And>k v. 0 \<le> size_of k v" and "0 < m"
  obtains s0 outs s held xs hs gs where "lru_new m over = Some s0"
    and "lru_calls size_of create ops (s0, []) = Some (outs, s, held)"
    and "spec_calls size_of create m over ops ([], [], []) = (outs, xs, hs, gs)"
    and "lru_sim size_of m over (s, held) (xs, hs, gs)"
proof -
  have p: "lru_policy size_of" using assms(1) by unfold_locales
  from lru_policy.lru_new_sim [OF p assms(2)] obtain s0 where s0: "lru_new m over = Some s0" "lru_sim size_of m over (s0, []) ([], [], [])" .
  from lru_policy.lru_calls_sim [OF p s0(2), of create ops] obtain outs s held xs hs gs where
    "lru_calls size_of create ops (s0, []) = Some (outs, s, held)" "spec_calls size_of create m over ops ([], [], []) = (outs, xs, hs, gs)"
    "lru_sim size_of m over (s, held) (xs, hs, gs)" by (metis prod_cases3 surj_pair)
  with s0(1) show ?thesis by (rule that)
qed

text \<open>C14 (refinement): the cache is a list of entries in the order of their last use. For every sequence of
  calls by a client (\<open>Get\<close>, both versions of \<open>Put\<close> and \<open>Remove\<close>, \<open>HasKey\<close>, \<open>EvictAll\<close>, giving
  references back) on a new cache, with any policy whose sizes are not negative, all calls
  return, no \<open>CHECK\<close> fails and no deleted value is used; the results are those of the abstract list; at
  the end the cache holds the entries of the abstract list in its order, and each reference the
  client still holds leads to the value it was given for.\<close>

theorem lru_cache_refines:
  assumes "\<And>k v. 0 \<le> size_of k v" and "0 < m"
  shows "\<exists>s0 outs s held xs hs gs. lru_new m over = Some s0 \<and>
    lru_calls size_of create ops (s0, []) = Some (outs, s, held) \<and>
    spec_calls size_of create m over ops ([], [], []) = (outs, xs, hs, gs) \<and>
    contents s = xs \<and> map (\<lambda>r. ref_get r s) held = map Some hs"
proof -
  from lru_run_sim [OF assms, where over = over and create = create and ops = ops] obtain s0 outs s held xs hs gs where
    "lru_new m over = Some s0" "lru_calls size_of create ops (s0, []) = Some (outs, s, held)"
    "spec_calls size_of create m over ops ([], [], []) = (outs, xs, hs, gs)"
    and sim: "lru_sim size_of m over (s, held) (xs, hs, gs)" .
  with lru_sim_contents [OF sim] lru_sim_held [OF sim] show ?thesis by blast
qed

definition demo_ops :: "(nat, nat) lru_op list" where
  "demo_ops = [OpPut 1 10, OpPut 2 20, OpGet 1, OpPut 3 30, OpGet 2]"

theorem lru_cache_refines_witness:
  "\<exists>s0 outs s held. lru_new 2 False = Some s0 \<and>
     lru_calls simple_SizeOf simple_Create demo_ops (s0, []) = Some (outs, s, held) \<and>
     outs = [OutBool False, OutBool False, OutValue (Some 10), OutBool False, OutValue None] \<and>
     contents s = [(3, 30), (1, 10)] \<and> map (\<lambda>r. ref_get r s) held = [Some 10]"
proof -
  have "spec_calls simple_SizeOf simple_Create 2 False demo_ops ([], [], []) =
      ([OutBool False, OutBool False, OutValue (Some 10), OutBool False, OutValue None], [(3, 30), (1, 10)], [10], [30, 20, 10])"
    by (simp add: demo_ops_def simple_SizeOf_def simple_Create_def fit_def insert_front_def)
  moreover have "\<And>k v. 0 \<le> (simple_SizeOf :: nat \<Rightarrow> nat \<Rightarrow> int) k v" "0 < (2 :: int)" by (simp_all add: simple_SizeOf_def)
  ultimately show ?thesis
    using lru_cache_refines [of simple_SizeOf 2 False simple_Create demo_ops] by auto
qed

section \<open>Size\<close>

definition within :: "('k \<Rightarrow> 'v \<Rightarrow> int) \<Rightarrow> int \<Rightarrow> bool \<Rightarrow> ('k \<times> 'v) list \<Rightarrow> bool" where
  "within size_of m over xs \<longleftrightarrow>
     total size_of xs \<le> m \<or> over \<and> (\<exists>x \<in> set xs. total size_of xs \<le> m + size_of (fst x) (snd x))"

context lru_policy
begin

lemma within_over: "over \<Longrightarrow> x \<in> set xs \<Longrightarrow> total size_of xs \<le> m + size_of (fst x) (snd x) \<Longrightarrow> within size_of m over xs"
  by (auto simp: within_def)

lemma total_filter: "total size_of (filter P xs) \<le> total size_of xs"
  by (induction xs) (auto simp: size_nonneg add_increasing)

lemma total_filter_member: "x \<in> set xs \<Longrightarrow> \<not> P x \<Longrightarrow> total size_of (filter P xs) + size_of (fst x) (snd x) \<le> total size_of xs"
proof (induction xs)
  case (Cons y xs)
  then show ?case using total_filter [of P xs] size_nonneg [of "fst y" "snd y"] by auto
qed simp

lemma within_filter: "within size_of m over xs \<Longrightarrow> within size_of m over (filter P xs)"
proof -
  assume w: "within size_of m over xs"
  have le: "total size_of (filter P xs) \<le> total size_of xs" by (rule total_filter)
  show ?thesis
  proof (cases "total size_of xs \<le> m")
    case True
    with le show ?thesis by (simp add: within_def)
  next
    case False
    with w obtain x where x: over "x \<in> set xs" "total size_of xs \<le> m + size_of (fst x) (snd x)" by (auto simp: within_def)
    show ?thesis
    proof (cases "P x")
      case True
      then show ?thesis using x le by (intro within_over [of over x]) simp_all
    next
      case False
      then show ?thesis using x total_filter_member [of x xs P] by (simp add: within_def)
    qed
  qed
qed

lemma within_front:
  assumes "within size_of m over xs" and "(k, v) \<in> set xs"
  shows "within size_of m over ((k, v) # filter (\<lambda>x. fst x \<noteq> k) xs)"
proof -
  let ?f = "filter (\<lambda>x. fst x \<noteq> k) xs"
  have t: "total size_of ((k, v) # ?f) \<le> total size_of xs"
    using total_filter_member [OF assms(2), of "\<lambda>x. fst x \<noteq> k"] by simp
  show ?thesis
  proof (cases "total size_of xs \<le> m")
    case True
    with t show ?thesis by (simp add: within_def)
  next
    case False
    with assms(1) obtain x where x: over "x \<in> set xs" "total size_of xs \<le> m + size_of (fst x) (snd x)" by (auto simp: within_def)
    show ?thesis
    proof (cases "fst x = k")
      case True
      then show ?thesis using x total_filter_member [of x xs "\<lambda>x. fst x \<noteq> k"] by (simp add: within_def)
    next
      case False
      then show ?thesis using x t by (intro within_over [of over x]) simp_all
    qed
  qed
qed

lemma within_fit: "0 \<le> m \<Longrightarrow> within size_of m over xs \<Longrightarrow> within size_of m over (fit size_of m over xs)"
  using keep_fits [of m xs] by (auto simp: fit_def within_def)

lemma within_insert: "0 \<le> m \<Longrightarrow> within size_of m over (insert_front size_of m over k v (fit size_of m over xs))"
  using keep_fits [of m xs] keep_fits [of m "(k, v) # filter (\<lambda>x. fst x \<noteq> k) xs"] total_filter [of "\<lambda>x. fst x \<noteq> k" "keep size_of m xs"]
  by (cases over) (simp_all add: insert_front_def fit_def within_def split: if_splits)

lemma spec_call_within:
  assumes "0 \<le> m" and "within size_of m over (fst ab)" and "spec_call size_of create m over op ab = (x, ab')"
  shows "within size_of m over (fst ab')"
proof -
  obtain xs hs gs where ab: "ab = (xs, hs, gs)" by (cases ab) auto
  have "within size_of m over []" using assms(1) by (simp add: within_def)
  then show ?thesis using assms ab within_filter [of m over xs] within_insert [OF assms(1), of over _ _ xs] within_fit [OF assms(1), of over xs]
      within_front [of m over xs]
    by (cases op) (auto simp: Let_def split: option.splits dest: map_of_SomeD)
qed

lemma spec_calls_within:
  "0 \<le> m \<Longrightarrow> within size_of m over (fst ab) \<Longrightarrow> spec_calls size_of create m over ops ab = (xs, ab') \<Longrightarrow> within size_of m over (fst ab')"
proof (induction ops arbitrary: ab xs)
  case (Cons op ops)
  obtain x ab1 where "spec_call size_of create m over op ab = (x, ab1)" by (metis surj_pair)
  moreover from spec_call_within [OF Cons.prems(1,2) this] have "within size_of m over (fst ab1)" .
  ultimately show ?case using Cons.IH [OF Cons.prems(1), of ab1] Cons.prems(3) by (auto split: prod.splits)
qed simp

end



section \<open>Ownership\<close>

lemma spec_release_all:
  "spec_calls size_of create m over (replicate (length hs) (OpRelease 0)) (xs, hs, gs) =
     (replicate (length hs) OutDone, xs, [], gs)"
  by (induction hs) simp_all

lemma lru_sim_empty:
  assumes "lru_sim size_of m over (s, held) ([], [], gs)"
  shows "held = [] \<and> lc_list s = [] \<and> lc_map s = [] \<and> lc_heap s = [] \<and> lc_size s = 0 \<and> mset (lc_deleted s) = mset gs"
proof -
  from assms have r: "lru_rel size_of [] [] s" "held = []" "owned s = mset gs" by (auto simp: lru_sim_def)
  then have h: "heap_ok {#} s" by (simp add: lru_rel_def)
  then have "map_of (lc_heap s) = Map.empty" by (intro ext) (simp add: heap_ok_def)
  then have "lc_heap s = []" by (simp only: map_of_eq_empty_iff)
  with r h show ?thesis using owned_eq [OF h] by (simp add: lru_rel_def)
qed

text \<open>C15 (safety): no value is lost and none is deleted twice. Take any sequence of calls on a new cache, then
  \<open>EvictAll\<close>, as the destructor does, while the client gives back the references it still
  holds. All of it returns, no object is left, and the values deleted are exactly the values
  given to the cache by \<open>Put\<close> or made for it by \<open>Create\<close>, each as often as it was given.\<close>

theorem lru_deletes_once:
  assumes "\<And>k v. 0 \<le> size_of k v" and "0 < m"
  shows "\<exists>s0 outs s held xs hs gs outs' s'. lru_new m over = Some s0 \<and>
    lru_calls size_of create ops (s0, []) = Some (outs, s, held) \<and>
    spec_calls size_of create m over ops ([], [], []) = (outs, xs, hs, gs) \<and>
    lru_calls size_of create (OpEvictAll # replicate (length held) (OpRelease 0)) (s, held) = Some (outs', s', []) \<and>
    lc_heap s' = [] \<and> lc_map s' = [] \<and> lc_list s' = [] \<and> mset (lc_deleted s') = mset gs"
proof -
  have p: "lru_policy size_of" using assms(1) by unfold_locales
  from lru_run_sim [OF assms, where over = over and create = create and ops = ops] obtain s0 outs s held xs hs gs where
    run: "lru_new m over = Some s0" "lru_calls size_of create ops (s0, []) = Some (outs, s, held)"
      "spec_calls size_of create m over ops ([], [], []) = (outs, xs, hs, gs)"
    and sim: "lru_sim size_of m over (s, held) (xs, hs, gs)" .
  let ?ops = "OpEvictAll # replicate (length held) (OpRelease 0)"
  have "length held = length hs" using arg_cong [OF lru_sim_held [OF sim], of length] by simp
  then have spec: "spec_calls size_of create m over ?ops (xs, hs, gs) = (OutDone # replicate (length hs) OutDone, [], [], gs)"
    by (simp add: spec_release_all)
  from lru_policy.lru_calls_sim [OF p sim, of create ?ops] obtain outs' s' held' ab' where
    "lru_calls size_of create ?ops (s, held) = Some (outs', s', held')" "spec_calls size_of create m over ?ops (xs, hs, gs) = (outs', ab')"
    "lru_sim size_of m over (s', held') ab'" by (metis surj_pair)
  with spec lru_sim_empty [of size_of m over s' held' gs] run show ?thesis by (auto simp del: lru_calls.simps spec_calls.simps)
qed

theorem lru_deletes_once_witness:
  "\<exists>s0 outs s held outs' s'. lru_new 2 False = Some s0 \<and>
    lru_calls simple_SizeOf simple_Create demo_ops (s0, []) = Some (outs, s, held) \<and>
    lru_calls simple_SizeOf simple_Create (OpEvictAll # replicate (length held) (OpRelease 0)) (s, held) = Some (outs', s', []) \<and>
    lc_heap s' = [] \<and> mset (lc_deleted s') = {#10, 20, 30#}"
proof -
  have spec: "spec_calls simple_SizeOf simple_Create 2 False demo_ops ([], [], []) =
      ([OutBool False, OutBool False, OutValue (Some 10), OutBool False, OutValue None], [(3, 30), (1, 10)], [10], [30, 20, 10])"
    by (simp add: demo_ops_def simple_SizeOf_def simple_Create_def fit_def insert_front_def)
  have "\<And>k v. 0 \<le> (simple_SizeOf :: nat \<Rightarrow> nat \<Rightarrow> int) k v" "0 < (2 :: int)" by (simp_all add: simple_SizeOf_def)
  from lru_deletes_once [where size_of = simple_SizeOf, OF this, where over = False and create = simple_Create and ops = demo_ops] show ?thesis
    unfolding spec by (auto simp del: lru_calls.simps simp: add_mset_commute)
qed

section \<open>Two threads in \<open>TrimToSize\<close>\<close>

text \<open>
  Each thread is before the test of the size, before the eviction, or has left the loop. A
  critical section can be entered only while the lock is free.
\<close>

datatype trim_pc = AtCheck | AtEvict | Finished

inductive trim_step ::
    "('k \<Rightarrow> 'v \<Rightarrow> int) \<Rightarrow> int \<Rightarrow> trim_pc list \<times> ('k, 'v) lru \<Rightarrow> trim_pc list \<times> ('k, 'v) lru \<Rightarrow> bool"
  for size_of :: "'k \<Rightarrow> 'v \<Rightarrow> int" and m :: int where
  check: "i < length pcs \<Longrightarrow> pcs ! i = AtCheck \<Longrightarrow> \<not> lc_locked s \<Longrightarrow> trim_check m s = Some go \<Longrightarrow>
    trim_step size_of m (pcs, s) (pcs[i := if go then AtEvict else Finished], s)"
| evict: "i < length pcs \<Longrightarrow> pcs ! i = AtEvict \<Longrightarrow> \<not> lc_locked s \<Longrightarrow> trim_evict size_of s = Some s' \<Longrightarrow>
    trim_step size_of m (pcs, s) (pcs[i := if lc_locked s' then Finished else AtCheck], s')"

inductive_cases trim_stepE: "trim_step size_of m (pcs, s) c"

lemma locked_stuck: "lc_locked s \<Longrightarrow> \<not> trim_step size_of m (pcs, s) c"
  by (auto elim: trim_stepE)

text \<open>C26 (error): two threads can lock the cache for ever. When the cache has one entry and is over the size, two
  threads in \<open>TrimToSize\<close> can both pass the test before the first one evicts; the second one
  then finds the list empty and leaves the loop without unlocking. From then on no thread
  can enter a critical section: the first one never leaves its loop.\<close>

theorem trim_race_deadlocks:
  assumes "\<And>k v. 0 \<le> size_of k v" and "lru_sim size_of m0 over (s, held) ([(k, v)], hs, gs)" and "m < size_of k v"
  shows "\<exists>s'. (trim_step size_of m)\<^sup>*\<^sup>* ([AtCheck, AtCheck], s) ([AtCheck, Finished], s') \<and> lc_locked s' \<and> contents s' = [] \<and>
    (\<forall>c. \<not> trim_step size_of m ([AtCheck, Finished], s') c)"
proof -
  have p: "lru_policy size_of" using assms(1) by unfold_locales
  from assms(2) obtain rs es where r: "lru_rel size_of rs es s" and es: "map content_pair es = [(k, v)]"
    by (auto simp: lru_sim_def)
  then obtain q n where e: "es = [] @ [(k, q, n, v)]" by (auto simp: map_eq_Cons_conv)
  have c: "trim_check m s = Some True"
    using lru_policy.trim_check_rel [OF p r, of m] assms(3) es by (simp add: e)
  from lru_policy.trim_evict_rel [OF p r [unfolded e]] obtain s1 where
    s1: "trim_evict size_of s = Some s1" "lru_rel size_of rs [] s1" by metis
  let ?s2 = "s1\<lparr>lc_locked := True\<rparr>"
  have u: "\<not> lc_locked s" "\<not> lc_locked s1" "lc_list s1 = []" using r s1(2) by (simp_all add: lru_rel_def)
  have "trim_step size_of m ([AtCheck, AtCheck], s) ([AtEvict, AtCheck], s)"
    using check [of 0 "[AtCheck, AtCheck]" s m True size_of] c u by simp
  moreover have "trim_step size_of m ([AtEvict, AtCheck], s) ([AtEvict, AtEvict], s)"
    using check [of 1 "[AtEvict, AtCheck]" s m True size_of] c u by simp
  moreover have "trim_step size_of m ([AtEvict, AtEvict], s) ([AtCheck, AtEvict], s1)"
    using evict [of 0 "[AtEvict, AtEvict]" s size_of s1 m] s1 u by simp
  moreover have "trim_step size_of m ([AtCheck, AtEvict], s1) ([AtCheck, Finished], ?s2)"
    using evict [of 1 "[AtCheck, AtEvict]" s1 size_of ?s2 m] u by (simp add: trim_evict_def)
  ultimately have "(trim_step size_of m)\<^sup>*\<^sup>* ([AtCheck, AtCheck], s) ([AtCheck, Finished], ?s2)"
    by (meson converse_rtranclp_into_rtranclp rtranclp.rtrancl_refl)
  moreover have "contents ?s2 = []" using u by (simp add: contents_def)
  moreover have "lc_locked ?s2" by simp
  ultimately show ?thesis using locked_stuck by blast
qed

theorem trim_race_deadlocks_witness:
  "\<exists>s0 outs s held s'. lru_new 2 False = Some s0 \<and>
    lru_calls simple_SizeOf simple_Create [OpPut (1 :: nat) (10 :: nat)] (s0, []) = Some (outs, s, held) \<and>
    (trim_step simple_SizeOf (-1))\<^sup>*\<^sup>* ([AtCheck, AtCheck], s) ([AtCheck, Finished], s') \<and> lc_locked s'"
proof -
  have n: "\<And>k v. 0 \<le> (simple_SizeOf :: nat \<Rightarrow> nat \<Rightarrow> int) k v" "0 < (2 :: int)" by (simp_all add: simple_SizeOf_def)
  from lru_run_sim [where size_of = "simple_SizeOf :: nat \<Rightarrow> nat \<Rightarrow> int", OF n, where over = False and create = simple_Create and ops = "[OpPut 1 10]"]
  obtain s0 outs s held xs hs gs where
    run: "lru_new 2 False = Some s0" "lru_calls simple_SizeOf simple_Create [OpPut (1 :: nat) (10 :: nat)] (s0, []) = Some (outs, s, held)"
      "spec_calls simple_SizeOf simple_Create 2 False [OpPut (1 :: nat) (10 :: nat)] ([], [], []) = (outs, xs, hs, gs)"
    and sim: "lru_sim simple_SizeOf 2 False (s, held) (xs, hs, gs)" .
  have "xs = [(1, 10)]" using run(3) by (simp add: simple_SizeOf_def fit_def insert_front_def)
  with trim_race_deadlocks [where size_of = simple_SizeOf and m = "-1", OF n(1), of 2 False s held 1 10 hs gs] sim run(1,2) show ?thesis
    by (auto simp: simple_SizeOf_def)
qed

section \<open>Termination of \<open>TrimToSize\<close>\<close>

text \<open>C24 (termination): \<open>TrimToSize\<close> ends. In a cache that represents a list of entries the loop ends for every bound,
  also a negative one; what is left is the longest prefix of the list, from the most recently used
  entry on, that fits the bound, the eviction counter grows by the number of entries
  evicted, and the references of the client stay valid.\<close>

theorem TrimToSize_terminates:
  assumes "\<And>k v. 0 \<le> size_of k v" and "lru_sim size_of m0 over (s, held) (xs, hs, gs)"
  shows "\<exists>s'. TrimToSize size_of m s = Some s' \<and> contents s' = keep size_of m xs \<and> \<not> lc_locked s' \<and>
    lc_eviction_count s' = lc_eviction_count s + int (length xs - length (keep size_of m xs)) \<and>
    map (\<lambda>r. ref_get r s') held = map Some hs"
proof -
  have p: "lru_policy size_of" using assms(1) by unfold_locales
  from assms(2) obtain rs es where r: "lru_rel size_of rs es s"
    and e: "held = map fst rs" "xs = map content_pair es" "hs = map snd rs" by (auto simp: lru_sim_def)
  from lru_policy.TrimToSize_rel [OF p r, of m] obtain s' j where
    s': "TrimToSize size_of m s = Some s'" "lru_rel size_of rs (take j es) s'"
      "map content_pair (take j es) = keep size_of m (map content_pair es)" "j \<le> length es"
      "lc_eviction_count s' = lc_eviction_count s + int (length es - j)" by metis
  have "length (keep size_of m xs) = j" using arg_cong [OF s'(3), of length] s'(4) e(2) by simp
  moreover have "map (\<lambda>r. ref_get r s') held = map Some hs" unfolding e using ref_get_held [OF s'(2)] by auto
  moreover have "\<not> lc_locked s'" using s'(2) by (simp add: lru_rel_def)
  ultimately show ?thesis using s' contents_eq [OF s'(2)] e by simp
qed

theorem TrimToSize_terminates_witness:
  "\<exists>s0 outs s held s'. lru_new 2 False = Some s0 \<and>
    lru_calls simple_SizeOf simple_Create demo_ops (s0, []) = Some (outs, s, held) \<and>
    TrimToSize simple_SizeOf 1 s = Some s' \<and> contents s' = [(3, 30)]"
proof -
  have n: "\<And>k v. 0 \<le> (simple_SizeOf :: nat \<Rightarrow> nat \<Rightarrow> int) k v" "0 < (2 :: int)" by (simp_all add: simple_SizeOf_def)
  from lru_run_sim [where size_of = "simple_SizeOf :: nat \<Rightarrow> nat \<Rightarrow> int", OF n, where over = False and create = simple_Create and ops = demo_ops]
  obtain s0 outs s held xs hs gs where
    run: "lru_new 2 False = Some s0" "lru_calls simple_SizeOf simple_Create demo_ops (s0, []) = Some (outs, s, held)"
      "spec_calls simple_SizeOf simple_Create 2 False demo_ops ([], [], []) = (outs, xs, hs, gs)"
    and sim: "lru_sim simple_SizeOf 2 False (s, held) (xs, hs, gs)" .
  have "xs = [(3, 30), (1, 10)]"
    using run(3) by (simp add: demo_ops_def simple_SizeOf_def simple_Create_def fit_def insert_front_def)
  then have "keep simple_SizeOf 1 xs = [(3, 30)]" by (simp add: simple_SizeOf_def)
  with TrimToSize_terminates [where size_of = simple_SizeOf and m = 1, OF n(1) sim] run(1,2) show ?thesis by auto
qed

end
