(* ===== verification/Cache.thy ===== *)
theory Cache
  imports Prelude
begin

text \<open>
  Model of \<open>src/whisperlib/base/cache.h\<close>: a cache of bounded size whose values expire. The items are objects
  on the heap, and three indexes hold pointers to them: by key, by last use and by age. A
  pointer is a number; the use of a deleted item is \<open>None\<close>. The clock (\<open>timer::TicksMsec\<close>) is an argument, and
  so is the choice of the item that a hash map happens to iterate first. The map by use is a list ordered by
  the use count, a 64-bit number that wraps around. The values that were handed to the destructor are
  recorded. Locking is left out: each operation holds the lock of the cache while it works.
\<close>

section \<open>State\<close>

datatype Algorithm = LRU | MRU | RANDOM

record ('k, 'v) Item =
  it_key :: 'k
  it_value :: 'v
  it_use :: "64 word"
  it_expiration_ts :: int

record ('k, 'v) Cache =
  ca_algorithm :: Algorithm
  ca_max_size :: nat
  ca_default_expiration_ms :: int
  ca_destructor :: bool
  ca_null_value :: 'v
  ca_items :: "('k \<times> nat) list"
  ca_items_by_use :: "(64 word \<times> nat) list"
  ca_items_by_exp :: "nat list"
  ca_next_use :: "64 word"
  ca_heap :: "nat \<Rightarrow> ('k, 'v) Item option"
  ca_fresh :: nat
  ca_destroyed :: "'v list"

definition Cache_new :: "Algorithm \<Rightarrow> nat \<Rightarrow> int \<Rightarrow> bool \<Rightarrow> 'v \<Rightarrow> ('k, 'v) Cache" where
  "Cache_new algorithm max_size expiration_ms destructor null_value =
     \<lparr>ca_algorithm = algorithm, ca_max_size = max_size, ca_default_expiration_ms = expiration_ms, ca_destructor = destructor,
      ca_null_value = null_value, ca_items = [], ca_items_by_use = [], ca_items_by_exp = [], ca_next_use = 0,
      ca_heap = (\<lambda>_. None), ca_fresh = 0, ca_destroyed = []\<rparr>"

section \<open>Helpers\<close>

definition NextUse :: "('k, 'v) Cache \<Rightarrow> 64 word \<times> ('k, 'v) Cache" where
  "NextUse c = (ca_next_use c, c\<lparr>ca_next_use := ca_next_use c + 1\<rparr>)"

definition FindLocked :: "'k \<Rightarrow> ('k, 'v) Cache \<Rightarrow> nat option" where
  "FindLocked key c = map_of (ca_items c) key"

definition destroy :: "'v \<Rightarrow> ('k, 'v) Cache \<Rightarrow> ('k, 'v) Cache" where
  "destroy v c = (if ca_destructor c then c\<lparr>ca_destroyed := ca_destroyed c @ [v]\<rparr> else c)"

definition DelItemLocked :: "nat \<Rightarrow> ('k, 'v) Cache \<Rightarrow> ('k, 'v) Cache option" where
  "DelItemLocked i c =
     (case ca_heap c i of
        None \<Rightarrow> None
      | Some it \<Rightarrow>
          Some (destroy (it_value it)
            (c\<lparr>ca_items := filter (\<lambda>x. fst x \<noteq> it_key it) (ca_items c),
               ca_items_by_use := filter (\<lambda>x. fst x \<noteq> it_use it) (ca_items_by_use c),
               ca_items_by_exp := filter (\<lambda>j. j \<noteq> i) (ca_items_by_exp c),
               ca_heap := (ca_heap c)(i := None)\<rparr>)))"

definition DelByAlgorithmLocked :: "nat \<Rightarrow> ('k, 'v) Cache \<Rightarrow> ('k, 'v) Cache option" where
  "DelByAlgorithmLocked pick c =
     (if ca_items_by_use c = [] then Some c
      else DelItemLocked
        (case ca_algorithm c of
           LRU \<Rightarrow> snd (hd (ca_items_by_use c))
         | MRU \<Rightarrow> snd (last (ca_items_by_use c))
         | RANDOM \<Rightarrow> snd (ca_items c ! (pick mod length (ca_items c)))) c)"

text \<open>The items at the front of the list by age, up to the first that expires in the future, and their removal.\<close>

fun expired :: "int \<Rightarrow> ('k, 'v) Cache \<Rightarrow> nat list \<Rightarrow> nat list option" where
  "expired now c [] = Some []"
| "expired now c (i # is) =
     (case ca_heap c i of
        None \<Rightarrow> None
      | Some it \<Rightarrow> if it_expiration_ts it > now then Some [] else map_option (Cons i) (expired now c is))"

fun del_items :: "nat list \<Rightarrow> ('k, 'v) Cache \<Rightarrow> ('k, 'v) Cache option" where
  "del_items [] c = Some c"
| "del_items (i # is) c = Option.bind (DelItemLocked i c) (del_items is)"

definition ExpireSomeCache :: "int \<Rightarrow> ('k, 'v) Cache \<Rightarrow> ('k, 'v) Cache option" where
  "ExpireSomeCache now c = Option.bind (expired now c (ca_items_by_exp c)) (\<lambda>to_del. del_items to_del c)"

text \<open>\<open>items_by_use_[use] = item\<close>, in the order of the keys.\<close>

fun use_put :: "64 word \<Rightarrow> nat \<Rightarrow> (64 word \<times> nat) list \<Rightarrow> (64 word \<times> nat) list" where
  "use_put u i [] = [(u, i)]"
| "use_put u i ((w, j) # xs) =
     (if u < w then (u, i) # (w, j) # xs else if u = w then (u, i) # xs else (w, j) # use_put u i xs)"

section \<open>Operations\<close>

definition cache_Size :: "('k, 'v) Cache \<Rightarrow> nat" where
  "cache_Size c = length (ca_items c)"

definition cache_Has :: "'k \<Rightarrow> ('k, 'v) Cache \<Rightarrow> bool" where
  "cache_Has key c \<longleftrightarrow> FindLocked key c \<noteq> None"

definition cache_Del :: "'k \<Rightarrow> ('k, 'v) Cache \<Rightarrow> ('k, 'v) Cache option" where
  "cache_Del key c = (case FindLocked key c of None \<Rightarrow> Some c | Some i \<Rightarrow> DelItemLocked i c)"

text \<open>The clock is read once for what has expired and again for the new item.\<close>

definition insert_item :: "'k \<Rightarrow> 'v \<Rightarrow> int \<Rightarrow> ('k, 'v) Cache \<Rightarrow> ('k, 'v) Cache" where
  "insert_item key v expiration_ts c =
     (let (use, c1) = NextUse c; i = ca_fresh c1 in
      c1\<lparr>ca_heap := (ca_heap c1)(i \<mapsto> \<lparr>it_key = key, it_value = v, it_use = use, it_expiration_ts = expiration_ts\<rparr>),
         ca_fresh := i + 1,
         ca_items := (if map_of (ca_items c1) key = None then ca_items c1 @ [(key, i)] else ca_items c1),
         ca_items_by_exp := ca_items_by_exp c1 @ [i],
         ca_items_by_use := use_put use i (ca_items_by_use c1)\<rparr>)"

definition cache_Add :: "'k \<Rightarrow> 'v \<Rightarrow> int \<Rightarrow> int \<Rightarrow> int \<Rightarrow> nat \<Rightarrow> ('k, 'v) Cache \<Rightarrow> ('k, 'v) Cache option" where
  "cache_Add key v expiration_ms now later pick c =
     Option.bind (ExpireSomeCache now c) (\<lambda>c1.
     Option.bind (if FindLocked key c1 \<noteq> None then cache_Del key c1 else Some c1) (\<lambda>c2.
     Option.bind (if length (ca_items c2) \<ge> ca_max_size c2 then DelByAlgorithmLocked pick c2 else Some c2) (\<lambda>c3.
       Some (if length (ca_items c3) \<ge> ca_max_size c3 then destroy v c3
             else insert_item key v (later + (if expiration_ms = -1 then ca_default_expiration_ms c3 else expiration_ms)) c3))))"

definition touch_item :: "nat \<Rightarrow> ('k, 'v) Item \<Rightarrow> ('k, 'v) Cache \<Rightarrow> ('k, 'v) Cache" where
  "touch_item i it c =
     (let c1 = c\<lparr>ca_items_by_use := filter (\<lambda>x. fst x \<noteq> it_use it) (ca_items_by_use c)\<rparr>; (use, c2) = NextUse c1 in
      c2\<lparr>ca_heap := (ca_heap c2)(i \<mapsto> it\<lparr>it_use := use\<rparr>), ca_items_by_use := use_put use i (ca_items_by_use c2)\<rparr>)"

definition cache_Get :: "'k \<Rightarrow> int \<Rightarrow> ('k, 'v) Cache \<Rightarrow> ('v \<times> ('k, 'v) Cache) option" where
  "cache_Get key now c =
     Option.bind (ExpireSomeCache now c) (\<lambda>c1.
       case FindLocked key c1 of
         None \<Rightarrow> Some (ca_null_value c1, c1)
       | Some i \<Rightarrow> (case ca_heap c1 i of None \<Rightarrow> None | Some it \<Rightarrow> Some (it_value it, touch_item i it c1)))"

definition cache_GetAll :: "int \<Rightarrow> ('k, 'v) Cache \<Rightarrow> (('k \<times> 'v) list \<times> ('k, 'v) Cache) option" where
  "cache_GetAll now c =
     Option.bind (ExpireSomeCache now c) (\<lambda>c1.
       map_option (\<lambda>out. (out, c1)) (those (map (\<lambda>(k, i). map_option (\<lambda>it. (k, it_value it)) (ca_heap c1 i)) (ca_items c1))))"

text \<open>\<open>Clear\<close> deletes the items and empties two of the three indexes.\<close>

fun delete_all :: "nat list \<Rightarrow> ('k, 'v) Cache \<Rightarrow> ('k, 'v) Cache option" where
  "delete_all [] c = Some c"
| "delete_all (i # is) c =
     (case ca_heap c i of
        None \<Rightarrow> None
      | Some it \<Rightarrow> delete_all is (destroy (it_value it) (c\<lparr>ca_heap := (ca_heap c)(i := None)\<rparr>)))"

definition cache_Clear :: "('k, 'v) Cache \<Rightarrow> ('k, 'v) Cache option" where
  "cache_Clear c =
     map_option (\<lambda>c1. c1\<lparr>ca_items := [], ca_items_by_use := []\<rparr>) (delete_all (map snd (ca_items c)) c)"

section \<open>Sequences of calls\<close>

datatype ('k, 'v) CacheOp =
    OpAdd 'k 'v int int int nat
  | OpGet 'k int
  | OpGetAll int
  | OpHas 'k
  | OpSize
  | OpDel 'k
  | OpDelOne nat

datatype ('k, 'v) CacheResult = Done | Value 'v | Values "('k \<times> 'v) list" | Yes bool | Number nat

fun cache_op :: "('k, 'v) CacheOp \<Rightarrow> ('k, 'v) Cache \<Rightarrow> (('k, 'v) CacheResult \<times> ('k, 'v) Cache) option" where
  "cache_op (OpAdd key v ms now later pick) c = map_option (Pair Done) (cache_Add key v ms now later pick c)"
| "cache_op (OpGet key now) c = map_option (apfst Value) (cache_Get key now c)"
| "cache_op (OpGetAll now) c = map_option (apfst Values) (cache_GetAll now c)"
| "cache_op (OpHas key) c = Some (Yes (cache_Has key c), c)"
| "cache_op OpSize c = Some (Number (cache_Size c), c)"
| "cache_op (OpDel key) c = map_option (Pair Done) (cache_Del key c)"
| "cache_op (OpDelOne pick) c = map_option (Pair Done) (DelByAlgorithmLocked pick c)"

fun cache_run :: "('k, 'v) CacheOp list \<Rightarrow> ('k, 'v) Cache \<Rightarrow> (('k, 'v) CacheResult list \<times> ('k, 'v) Cache) option" where
  "cache_run [] c = Some ([], c)"
| "cache_run (x # xs) c =
     Option.bind (cache_op x c) (\<lambda>(r, c1). map_option (apfst (Cons r)) (cache_run xs c1))"

end
