(* ===== verification/CacheProps.thy ===== *)
theory CacheProps
  imports Cache "HOL-Library.Multiset"
begin

text \<open>
  The expiring cache refines a list of entries ordered by age and a list of keys ordered by last use:
  the three indexes hold the same items, every pointer in them is valid, and every value that is handed to
  the cache is destroyed once or is still in it. After \<open>Clear\<close> one of the indexes dangles.
\<close>

section \<open>The specification\<close>

text \<open>Keys, values and times of expiration, the oldest first; and the keys, the least recently used first.\<close>

type_synonym ('k, 'v) cache_spec = "('k \<times> 'v \<times> int) list \<times> 'k list"

definition spec_remove :: "'k set \<Rightarrow> ('k, 'v) cache_spec \<Rightarrow> ('k, 'v) cache_spec" where
  "spec_remove ks s = (filter (\<lambda>e. fst e \<notin> ks) (fst s), filter (\<lambda>k. k \<notin> ks) (snd s))"

definition spec_expire :: "int \<Rightarrow> ('k, 'v) cache_spec \<Rightarrow> ('k, 'v) cache_spec" where
  "spec_expire now s = spec_remove (fst ` set (takeWhile (\<lambda>e. snd (snd e) \<le> now) (fst s))) s"

definition spec_evict :: "Algorithm \<Rightarrow> nat \<Rightarrow> ('k, 'v) cache_spec \<Rightarrow> ('k, 'v) cache_spec" where
  "spec_evict alg pick s =
     (if snd s = [] then s
      else spec_remove {case alg of LRU \<Rightarrow> hd (snd s) | MRU \<Rightarrow> last (snd s) | RANDOM \<Rightarrow> fst (fst s ! (pick mod length (fst s)))} s)"

definition spec_add :: "Algorithm \<Rightarrow> nat \<Rightarrow> 'k \<Rightarrow> 'v \<Rightarrow> int \<Rightarrow> nat \<Rightarrow> ('k, 'v) cache_spec \<Rightarrow> ('k, 'v) cache_spec" where
  "spec_add alg mx k v ts pick s =
     (let s1 = spec_remove {k} s; s2 = (if length (fst s1) \<ge> mx then spec_evict alg pick s1 else s1) in
      if length (fst s2) \<ge> mx then s2 else (fst s2 @ [(k, v, ts)], snd s2 @ [k]))"

fun spec_op :: "Algorithm \<Rightarrow> nat \<Rightarrow> int \<Rightarrow> 'v \<Rightarrow> ('k, 'v) CacheOp \<Rightarrow> ('k, 'v) cache_spec \<Rightarrow> ('k, 'v) CacheResult \<times> ('k, 'v) cache_spec" where
  "spec_op alg mx dflt null (OpAdd k v ms now later pick) s =
     (Done, spec_add alg mx k v (later + (if ms = -1 then dflt else ms)) pick (spec_expire now s))"
| "spec_op alg mx dflt null (OpGet k now) s =
     (let s1 = spec_expire now s in
      case map_of (fst s1) k of
        None \<Rightarrow> (Value null, s1)
      | Some x \<Rightarrow> (Value (fst x), fst s1, filter (\<lambda>l. l \<noteq> k) (snd s1) @ [k]))"
| "spec_op alg mx dflt null (OpGetAll now) s =
     (Values (map (\<lambda>e. (fst e, fst (snd e))) (fst (spec_expire now s))), spec_expire now s)"
| "spec_op alg mx dflt null (OpHas k) s = (Yes (k \<in> fst ` set (fst s)), s)"
| "spec_op alg mx dflt null OpSize s = (Number (length (fst s)), s)"
| "spec_op alg mx dflt null (OpDel k) s = (Done, spec_remove {k} s)"
| "spec_op alg mx dflt null (OpDelOne pick) s = (Done, spec_evict alg pick s)"

fun spec_run :: "Algorithm \<Rightarrow> nat \<Rightarrow> int \<Rightarrow> 'v \<Rightarrow> ('k, 'v) CacheOp list \<Rightarrow> ('k, 'v) cache_spec \<Rightarrow> ('k, 'v) CacheResult list \<times> ('k, 'v) cache_spec" where
  "spec_run alg mx dflt null [] s = ([], s)"
| "spec_run alg mx dflt null (x # xs) s =
     (case spec_op alg mx dflt null x s of (r, s1) \<Rightarrow> apfst (Cons r) (spec_run alg mx dflt null xs s1))"

section \<open>What represents it\<close>

abbreviation item :: "('k, 'v) Cache \<Rightarrow> nat \<Rightarrow> ('k, 'v) Item" where
  "item c i \<equiv> the (ca_heap c i)"

definition entry :: "('k, 'v) Item \<Rightarrow> 'k \<times> 'v \<times> int" where
  "entry it = (it_key it, it_value it, it_expiration_ts it)"

definition cache_rep :: "nat \<Rightarrow> nat list \<Rightarrow> ('k, 'v) Cache \<Rightarrow> bool" where
  "cache_rep n js c \<longleftrightarrow>
     (\<forall>i \<in> set (ca_items_by_exp c). ca_heap c i \<noteq> None \<and> i < ca_fresh c \<and> unat (it_use (item c i)) < n) \<and>
     distinct (ca_items_by_exp c) \<and> inj_on (\<lambda>i. it_key (item c i)) (set (ca_items_by_exp c)) \<and>
     ca_items c = map (\<lambda>i. (it_key (item c i), i)) (ca_items_by_exp c) \<and>
     ca_items_by_use c = map (\<lambda>i. (it_use (item c i), i)) js \<and>
     sorted_wrt (<) (map (\<lambda>i. it_use (item c i)) js) \<and> set js = set (ca_items_by_exp c) \<and> unat (ca_next_use c) = n"

definition cache_abs :: "nat list \<Rightarrow> ('k, 'v) Cache \<Rightarrow> ('k, 'v) cache_spec" where
  "cache_abs js c = (map (\<lambda>i. entry (item c i)) (ca_items_by_exp c), map (\<lambda>i. it_key (item c i)) js)"

definition rep :: "nat \<Rightarrow> ('k, 'v) Cache \<Rightarrow> ('k, 'v) cache_spec \<Rightarrow> bool" where
  "rep n c s \<longleftrightarrow> (\<exists>js. cache_rep n js c \<and> s = cache_abs js c)"

definition config :: "('k, 'v) Cache \<Rightarrow> Algorithm \<times> nat \<times> int \<times> bool \<times> 'v" where
  "config c = (ca_algorithm c, ca_max_size c, ca_default_expiration_ms c, ca_destructor c, ca_null_value c)"

text \<open>The values that were destroyed and those that are in the cache.\<close>

definition ledger :: "('k, 'v) Cache \<Rightarrow> 'v multiset" where
  "ledger c = mset (ca_destroyed c) + mset (map (\<lambda>i. it_value (item c i)) (ca_items_by_exp c))"

definition step_ok :: "nat \<Rightarrow> 'v multiset \<Rightarrow> ('k, 'v) Cache \<Rightarrow> ('k, 'v) Cache \<Rightarrow> ('k, 'v) cache_spec \<Rightarrow> bool" where
  "step_ok n m c c' s \<longleftrightarrow> rep n c' s \<and> config c' = config c \<and> (ca_destructor c \<longrightarrow> ledger c' = ledger c + m)"

lemma step_ok_trans: "step_ok n m c c1 s1 \<Longrightarrow> step_ok n' m' c1 c2 s2 \<Longrightarrow> step_ok n' (m + m') c c2 s2"
  by (auto simp: step_ok_def config_def ac_simps)

lemma step_ok_refl: "rep n c s \<Longrightarrow> step_ok n {#} c c s"
  by (simp add: step_ok_def)

lemma step_okD: "step_ok n m c c' s \<Longrightarrow> rep n c' s \<and> config c' = config c"
  by (simp add: step_ok_def)

section \<open>Deleting\<close>

lemma filter_inj: "inj_on f A \<Longrightarrow> set xs \<subseteq> A \<Longrightarrow> i \<in> A \<Longrightarrow> filter (\<lambda>j. f j \<noteq> f i) xs = filter (\<lambda>j. j \<noteq> i) xs"
  by (intro filter_cong) (auto dest: inj_onD)

lemma map_filter_upd: "map (\<lambda>j. F (the ((h(i := y)) j)) j) (filter (\<lambda>j. j \<noteq> i) xs) = map (\<lambda>j. F (the (h j)) j) (filter (\<lambda>j. j \<noteq> i) xs)"
  by auto

lemma sorted_wrt_use_inj: "sorted_wrt (<) (map f js) \<Longrightarrow> inj_on f (set js)" for f :: "nat \<Rightarrow> 64 word"
  by (simp add: strict_sorted_iff distinct_map)

lemma mset_filter_one: "distinct xs \<Longrightarrow> i \<in> set xs \<Longrightarrow> mset (map f xs) = {#f i#} + mset (map f (filter (\<lambda>j. j \<noteq> i) xs))"
proof (induction xs)
  case (Cons a xs)
  show ?case
  proof (cases "a = i")
    case True
    then have "filter (\<lambda>j. j \<noteq> i) xs = xs" using Cons.prems by (auto simp: filter_id_conv)
    then show ?thesis using True by simp
  qed (use Cons in simp)
qed simp

lemma destroy_sel [simp]:
  "ca_items (destroy v c) = ca_items c" "ca_items_by_use (destroy v c) = ca_items_by_use c" "ca_items_by_exp (destroy v c) = ca_items_by_exp c"
  "ca_heap (destroy v c) = ca_heap c" "ca_next_use (destroy v c) = ca_next_use c" "ca_fresh (destroy v c) = ca_fresh c" "config (destroy v c) = config c"
  by (simp_all add: destroy_def config_def)

lemma destroy_ledger: "ca_destructor c \<Longrightarrow> ledger (destroy v c) = ledger c + {#v#}"
  by (simp add: destroy_def ledger_def)

lemma DelItem_step:
  assumes "cache_rep n js c" and "i \<in> set (ca_items_by_exp c)"
  shows "\<exists>c'. DelItemLocked i c = Some c' \<and> cache_rep n (filter (\<lambda>j. j \<noteq> i) js) c' \<and>
    cache_abs (filter (\<lambda>j. j \<noteq> i) js) c' = spec_remove {it_key (item c i)} (cache_abs js c) \<and>
    config c' = config c \<and> (ca_destructor c \<longrightarrow> ledger c' = ledger c) \<and>
    ca_items_by_exp c' = filter (\<lambda>j. j \<noteq> i) (ca_items_by_exp c) \<and> (\<forall>j. j \<noteq> i \<longrightarrow> ca_heap c' j = ca_heap c j)"
proof -
  let ?ids = "ca_items_by_exp c" and ?f = "filter (\<lambda>j. j \<noteq> i)"
  obtain it where it: "ca_heap c i = Some it" using assms by (auto simp: cache_rep_def)
  define b where "b = c\<lparr>ca_items := filter (\<lambda>x. fst x \<noteq> it_key it) (ca_items c),
               ca_items_by_use := filter (\<lambda>x. fst x \<noteq> it_use it) (ca_items_by_use c),
               ca_items_by_exp := ?f ?ids, ca_heap := (ca_heap c)(i := None)\<rparr>"
  have d: "DelItemLocked i c = Some (destroy (it_value it) b)" using it by (simp add: DelItemLocked_def b_def)
  have r: "inj_on (\<lambda>j. it_key (item c j)) (set ?ids)" "inj_on (\<lambda>j. it_use (item c j)) (set js)" "set js = set ?ids" "distinct ?ids"
    using assms(1) sorted_wrt_use_inj [of "\<lambda>j. it_use (item c j)" js] by (simp_all add: cache_rep_def)
  have k: "filter (\<lambda>j. it_key (item c j) \<noteq> it_key it) xs = ?f xs" if "set xs \<subseteq> set ?ids" for xs
    using filter_inj [OF r(1) that assms(2)] it by simp
  have u: "filter (\<lambda>j. it_use (item c j) \<noteq> it_use it) js = ?f js"
    using filter_inj [OF r(2) _ , of js i] assms(2) r(3) it by simp
  have b: "ca_items_by_exp b = ?f ?ids" "ca_heap b = (ca_heap c)(i := None)" "ca_next_use b = ca_next_use c" "ca_fresh b = ca_fresh c" "config b = config c"
    "ca_items b = map (\<lambda>j. (it_key (item c j), j)) (?f ?ids)" "ca_items_by_use b = map (\<lambda>j. (it_use (item c j), j)) (?f js)"
    using assms(1) k [of ?ids] u by (simp_all add: b_def config_def cache_rep_def filter_map comp_def)
  have so: "sorted_wrt (<) (map (\<lambda>j. it_use (the (((ca_heap c)(i := None)) j))) (?f js))"
    using assms(1) unfolding map_filter_upd [where F = "\<lambda>it j. it_use it"] by (simp add: cache_rep_def sorted_wrt_map sorted_wrt_filter)
  have "cache_rep n (?f js) b" using assms(1) so unfolding cache_rep_def b by (auto simp: inj_on_def)
  then have rep: "cache_rep n (?f js) (destroy (it_value it) b)" by (simp add: cache_rep_def)
  have "cache_abs (?f js) b = spec_remove {it_key it} (cache_abs js c)"
    using k [of ?ids] k [of js] r(3) by (simp add: cache_abs_def spec_remove_def filter_map comp_def b entry_def)
  then have abs: "cache_abs (?f js) (destroy (it_value it) b) = spec_remove {it_key it} (cache_abs js c)" by (simp add: cache_abs_def)
  have dc: "ca_destructor b = ca_destructor c" using b(5) by (simp add: config_def)
  have "ledger b + {#it_value it#} = ledger c"
    using mset_filter_one [OF r(4) assms(2), of "\<lambda>j. it_value (item c j)"] it
    unfolding ledger_def b map_filter_upd [where F = "\<lambda>it j. it_value it"] by (simp add: b_def)
  then have "ca_destructor c \<longrightarrow> ledger (destroy (it_value it) b) = ledger c" using destroy_ledger [of b] dc by simp
  with d rep abs b it show ?thesis by simp
qed

lemma spec_remove_twice: "spec_remove A (spec_remove B s) = spec_remove (A \<union> B) s"
  by (auto simp: spec_remove_def intro!: filter_cong)

lemma spec_remove_none: "A \<inter> fst ` set (fst s) = {} \<Longrightarrow> A \<inter> set (snd s) = {} \<Longrightarrow> spec_remove A s = s"
  by (cases s) (auto simp: spec_remove_def filter_id_conv)

lemma abs_keys: "cache_rep n js c \<Longrightarrow> set (snd (cache_abs js c)) = fst ` set (fst (cache_abs js c))"
  by (simp add: cache_rep_def cache_abs_def entry_def image_image)

lemma del_items_step:
  assumes "cache_rep n js c" and "distinct is" and "set is \<subseteq> set (ca_items_by_exp c)"
  shows "\<exists>c' js'. del_items is c = Some c' \<and> cache_rep n js' c' \<and>
    cache_abs js' c' = spec_remove ((\<lambda>i. it_key (item c i)) ` set is) (cache_abs js c) \<and>
    config c' = config c \<and> (ca_destructor c \<longrightarrow> ledger c' = ledger c)"
  using assms
proof (induction "is" arbitrary: c js)
  case Nil
  then show ?case by (auto simp: spec_remove_def)
next
  case (Cons i "is")
  then obtain c1 where c1: "DelItemLocked i c = Some c1" "cache_rep n (filter (\<lambda>j. j \<noteq> i) js) c1"
    "cache_abs (filter (\<lambda>j. j \<noteq> i) js) c1 = spec_remove {it_key (item c i)} (cache_abs js c)"
    "config c1 = config c" "ca_destructor c \<longrightarrow> ledger c1 = ledger c" "ca_items_by_exp c1 = filter (\<lambda>j. j \<noteq> i) (ca_items_by_exp c)"
    "\<forall>j. j \<noteq> i \<longrightarrow> ca_heap c1 j = ca_heap c j" using DelItem_step [OF Cons.prems(1), of i] by auto
  have "distinct is" "set is \<subseteq> set (ca_items_by_exp c1)" using Cons.prems(2,3) c1(6) by auto
  from Cons.IH [OF c1(2) this] obtain c' js' where c': "del_items is c1 = Some c'" "cache_rep n js' c'"
    "cache_abs js' c' = spec_remove ((\<lambda>j. it_key (item c1 j)) ` set is) (spec_remove {it_key (item c i)} (cache_abs js c))"
    "config c' = config c1" "ca_destructor c1 \<longrightarrow> ledger c' = ledger c1" unfolding c1(3) by blast
  have "(\<lambda>j. it_key (item c1 j)) ` set is = (\<lambda>j. it_key (item c j)) ` set is"
    using Cons.prems(2) c1(7) by (intro image_cong) auto
  then have "cache_abs js' c' = spec_remove ((\<lambda>j. it_key (item c j)) ` set (i # is)) (cache_abs js c)"
    using c'(3) by (simp add: spec_remove_twice)
  moreover have "ca_destructor c \<longrightarrow> ledger c' = ledger c" using c'(5) c1(4,5) by (simp add: config_def)
  ultimately show ?case using c1(1,4) c'(1,2,4) by auto
qed

lemma expired_eq:
  "\<forall>i \<in> set is. ca_heap c i \<noteq> None \<Longrightarrow> expired now c is = Some (takeWhile (\<lambda>i. it_expiration_ts (item c i) \<le> now) is)"
  by (induction "is") (auto split: option.split)

lemma expire_step:
  assumes "rep n c s"
  shows "\<exists>c'. ExpireSomeCache now c = Some c' \<and> step_ok n {#} c c' (spec_expire now s)"
proof -
  obtain js where js: "cache_rep n js c" "s = cache_abs js c" using assms by (auto simp: rep_def)
  let ?old = "takeWhile (\<lambda>i. it_expiration_ts (item c i) \<le> now) (ca_items_by_exp c)"
  have e: "expired now c (ca_items_by_exp c) = Some ?old" using js(1) by (intro expired_eq) (simp add: cache_rep_def)
  have "distinct ?old" "set ?old \<subseteq> set (ca_items_by_exp c)" using js(1) by (auto simp: cache_rep_def distinct_takeWhile dest: set_takeWhileD)
  from del_items_step [OF js(1) this] obtain c' js' where c': "del_items ?old c = Some c'" "cache_rep n js' c'"
    "cache_abs js' c' = spec_remove ((\<lambda>i. it_key (item c i)) ` set ?old) s" "config c' = config c" "ca_destructor c \<longrightarrow> ledger c' = ledger c"
    unfolding js(2) by blast
  have "(\<lambda>i. it_key (item c i)) ` set ?old = fst ` set (takeWhile (\<lambda>e. snd (snd e) \<le> now) (fst s))"
    by (simp add: js(2) cache_abs_def takeWhile_map comp_def entry_def image_image)
  then have "step_ok n {#} c c' (spec_expire now s)" using c' by (auto simp: step_ok_def rep_def spec_expire_def)
  then show ?thesis using e c'(1) by (simp add: ExpireSomeCache_def)
qed

lemma DelItem_rep:
  assumes "cache_rep n js c" and "i \<in> set (ca_items_by_exp c)"
  shows "\<exists>c'. DelItemLocked i c = Some c' \<and> step_ok n {#} c c' (spec_remove {it_key (item c i)} (cache_abs js c))"
  using DelItem_step [OF assms] by (fastforce simp: step_ok_def rep_def)

lemma FindLocked_Some:
  assumes "cache_rep n js c" and "FindLocked k c = Some i"
  shows "i \<in> set (ca_items_by_exp c)" and "it_key (item c i) = k"
  using map_of_SomeD [OF assms(2) [unfolded FindLocked_def]] assms(1) by (auto simp: cache_rep_def)

lemma FindLocked_None:
  assumes "cache_rep n js c"
  shows "FindLocked k c = None \<longleftrightarrow> k \<notin> fst ` set (fst (cache_abs js c))"
  using assms by (simp add: cache_rep_def FindLocked_def map_of_eq_None_iff cache_abs_def entry_def image_image)

lemma del_step:
  assumes "rep n c s"
  shows "\<exists>c'. cache_Del k c = Some c' \<and> step_ok n {#} c c' (spec_remove {k} s)"
proof -
  obtain js where js: "cache_rep n js c" "s = cache_abs js c" using assms by (auto simp: rep_def)
  show ?thesis
  proof (cases "FindLocked k c")
    case None
    then have "spec_remove {k} s = s" using FindLocked_None [OF js(1), of k] abs_keys [OF js(1)] js(2) by (intro spec_remove_none) auto
    then show ?thesis using None step_ok_refl [OF assms] by (simp add: cache_Del_def)
  next
    case (Some i)
    note f = FindLocked_Some [OF js(1) Some]
    show ?thesis using DelItem_rep [OF js(1) f(1)] f(2) js(2) Some by (simp add: cache_Del_def)
  qed
qed

lemma evict_step:
  assumes "rep n c s"
  shows "\<exists>c'. DelByAlgorithmLocked pick c = Some c' \<and> step_ok n {#} c c' (spec_evict (ca_algorithm c) pick s)"
proof -
  obtain js where js: "cache_rep n js c" "s = cache_abs js c" using assms by (auto simp: rep_def)
  have r: "ca_items_by_use c = map (\<lambda>i. (it_use (item c i), i)) js" "set js = set (ca_items_by_exp c)"
    "ca_items c = map (\<lambda>i. (it_key (item c i), i)) (ca_items_by_exp c)" using js(1) by (simp_all add: cache_rep_def)
  show ?thesis
  proof (cases "js = []")
    case True
    then show ?thesis using r(1) js(2) step_ok_refl [OF assms] by (simp add: DelByAlgorithmLocked_def spec_evict_def cache_abs_def)
  next
    case False
    then have ne: "ca_items_by_exp c \<noteq> []" using r(2) by auto
    define m where "m = pick mod length (ca_items_by_exp c)"
    have m: "m < length (ca_items_by_exp c)" using ne by (simp add: m_def)
    let ?i = "case ca_algorithm c of LRU \<Rightarrow> hd js | MRU \<Rightarrow> last js | RANDOM \<Rightarrow> ca_items_by_exp c ! m"
    have i: "?i \<in> set (ca_items_by_exp c)" using False m hd_in_set [of js] last_in_set [of js] nth_mem [OF m] unfolding r(2)
      by (cases "ca_algorithm c") simp_all
    have "DelByAlgorithmLocked pick c = DelItemLocked ?i c"
      using False m unfolding DelByAlgorithmLocked_def r(1,3) length_map m_def [symmetric]
      by (cases "ca_algorithm c") (simp_all add: hd_map last_map)
    moreover have "spec_evict (ca_algorithm c) pick s = spec_remove {it_key (item c ?i)} s"
      using False m unfolding spec_evict_def js(2) cache_abs_def fst_conv snd_conv length_map m_def [symmetric]
      by (cases "ca_algorithm c") (simp_all add: hd_map last_map entry_def)
    ultimately show ?thesis using DelItem_rep [OF js(1) i] js(2) by simp
  qed
qed

section \<open>Adding and touching\<close>

lemma use_put_last: "\<forall>x \<in> set xs. fst x < u \<Longrightarrow> use_put u i xs = xs @ [(u, i)]"
  by (induction xs) (auto simp: less_not_sym)

lemma next_use:
  assumes "unat (w :: 64 word) = n" and "Suc n < 2 ^ 64"
  shows "unat (w + 1) = Suc n"
  using assms by (simp add: unat_word_ariths)

lemma insert_step:
  assumes "rep n c s" and "k \<notin> fst ` set (fst s)" and "Suc n < 2 ^ 64"
  shows "step_ok (Suc n) {#v#} c (insert_item k v ts c) (fst s @ [(k, v, ts)], snd s @ [k])"
proof -
  obtain js where js: "cache_rep n js c" "s = cache_abs js c" using assms(1) by (auto simp: rep_def)
  let ?ids = "ca_items_by_exp c" and ?i = "ca_fresh c" and ?b = "insert_item k v ts c"
  let ?it = "\<lparr>it_key = k, it_value = v, it_use = ca_next_use c, it_expiration_ts = ts\<rparr>"
  have r: "\<forall>j \<in> set ?ids. ca_heap c j \<noteq> None \<and> j < ?i \<and> unat (it_use (item c j)) < n" "distinct ?ids" "set js = set ?ids" "unat (ca_next_use c) = n"
    "inj_on (\<lambda>j. it_key (item c j)) (set ?ids)" "sorted_wrt (<) (map (\<lambda>j. it_use (item c j)) js)"
    "ca_items c = map (\<lambda>j. (it_key (item c j), j)) ?ids" "ca_items_by_use c = map (\<lambda>j. (it_use (item c j), j)) js"
    using js(1) by (simp_all add: cache_rep_def)
  have lt: "\<forall>j \<in> set js. it_use (item c j) < ca_next_use c" using r(1,3,4) by (simp add: word_less_nat_alt)
  have nk: "\<forall>j \<in> set ?ids. it_key (item c j) \<noteq> k" using assms(2) unfolding js(2) by (simp add: cache_abs_def entry_def image_image) blast
  have ni: "j \<noteq> ?i" if "j \<in> set ?ids" for j using r(1) that by blast
  have b: "ca_heap ?b = (ca_heap c)(?i \<mapsto> ?it)" "ca_fresh ?b = Suc ?i" "ca_items ?b = ca_items c @ [(k, ?i)]" "ca_items_by_exp ?b = ?ids @ [?i]"
    "ca_items_by_use ?b = ca_items_by_use c @ [(ca_next_use c, ?i)]" "ca_next_use ?b = ca_next_use c + 1" "config ?b = config c" "ca_destroyed ?b = ca_destroyed c"
    using use_put_last [of "ca_items_by_use c" "ca_next_use c" ?i] lt r(8) nk FindLocked_None [OF js(1), of k] assms(2) js(2)
    by (simp_all add: insert_item_def NextUse_def config_def FindLocked_def Let_def)
  have m: "map (\<lambda>j. F (item ?b j)) xs = map (\<lambda>j. F (item c j)) xs" "map (\<lambda>j. (G (item ?b j), j)) xs = map (\<lambda>j. (G (item c j), j)) xs" if "set xs \<subseteq> set ?ids" for F G xs
    using that ni by (auto simp: b(1))
  have im: "item ?b ?i = ?it" "item ?b j = item c j" if "j \<in> set ?ids" for j using ni that by (auto simp: b(1))
  have "inj_on (\<lambda>j. it_key (item ?b j)) (set (?ids @ [?i]))" using r(5) nk ni by (auto simp: inj_on_def b(1))
  moreover have "sorted_wrt (<) (map (\<lambda>j. it_use (item ?b j)) (js @ [?i]))" 
    using r(6) lt r(3) unfolding map_append m(1) [of js it_use, OF equalityD1 [OF r(3)]] by (simp add: sorted_wrt_append b(1))
  moreover have "\<forall>j \<in> set (?ids @ [?i]). ca_heap ?b j \<noteq> None \<and> j < Suc ?i \<and> unat (it_use (item ?b j)) < Suc n" using r(1,4) by (auto simp: b(1) less_SucI)
  moreover have "ca_items ?b = map (\<lambda>j. (it_key (item ?b j), j)) (?ids @ [?i])"
    unfolding b(3) r(7) map_append m(2) [of ?ids it_key, OF subset_refl] by (simp add: b(1))
  moreover have "ca_items_by_use ?b = map (\<lambda>j. (it_use (item ?b j), j)) (js @ [?i])"
    unfolding b(5) r(8) map_append m(2) [of js it_use, OF equalityD1 [OF r(3)]] by (simp add: b(1))
  moreover have "?i \<notin> set ?ids" using ni by blast
  ultimately have "cache_rep (Suc n) (js @ [?i]) ?b"
    using r(2,3) next_use [OF r(4) assms(3)] unfolding cache_rep_def b(2,4,6) by simp
  moreover have "cache_abs (js @ [?i]) ?b = (fst s @ [(k, v, ts)], snd s @ [k])"
    using m(1) [of ?ids entry] m(1) [of js it_key] r(3) by (simp add: cache_abs_def js(2) b(4)) (simp add: b(1) entry_def)
  moreover have "ledger ?b = ledger c + {#v#}" unfolding ledger_def b(4,8) map_append m(1) [of ?ids it_value, OF subset_refl] by (simp add: b(1))
  ultimately show ?thesis using b(7) by (auto simp: step_ok_def rep_def)
qed

lemma touch_step:
  assumes "cache_rep n js c" and "i \<in> set (ca_items_by_exp c)" and "Suc n < 2 ^ 64"
  shows "step_ok (Suc n) {#} c (touch_item i (item c i) c)
    (fst (cache_abs js c), filter (\<lambda>l. l \<noteq> it_key (item c i)) (snd (cache_abs js c)) @ [it_key (item c i)])"
proof -
  let ?ids = "ca_items_by_exp c" and ?b = "touch_item i (item c i) c" and ?it = "(item c i)\<lparr>it_use := ca_next_use c\<rparr>"
  let ?js = "filter (\<lambda>j. j \<noteq> i) js"
  have r: "\<forall>j \<in> set ?ids. ca_heap c j \<noteq> None \<and> j < ca_fresh c \<and> unat (it_use (item c j)) < n" "distinct ?ids" "set js = set ?ids" "unat (ca_next_use c) = n"
    "inj_on (\<lambda>j. it_key (item c j)) (set ?ids)" "sorted_wrt (<) (map (\<lambda>j. it_use (item c j)) js)"
    "ca_items c = map (\<lambda>j. (it_key (item c j), j)) ?ids" "ca_items_by_use c = map (\<lambda>j. (it_use (item c j), j)) js"
    using assms(1) by (simp_all add: cache_rep_def)
  have lt: "\<forall>j \<in> set js. it_use (item c j) < ca_next_use c" using r(1,3,4) by (simp add: word_less_nat_alt)
  have "filter (\<lambda>j. it_use (item c j) \<noteq> it_use (item c i)) js = ?js"
    using filter_inj [OF sorted_wrt_use_inj [OF r(6)], of js i] assms(2) r(3) by simp
  then have f: "filter (\<lambda>x. fst x \<noteq> it_use (item c i)) (ca_items_by_use c) = map (\<lambda>j. (it_use (item c j), j)) ?js"
    by (simp add: r(8) filter_map comp_def)
  have b: "ca_heap ?b = (ca_heap c)(i \<mapsto> ?it)" "ca_fresh ?b = ca_fresh c" "ca_items ?b = ca_items c" "ca_items_by_exp ?b = ?ids"
    "ca_items_by_use ?b = map (\<lambda>j. (it_use (item c j), j)) ?js @ [(ca_next_use c, i)]" "ca_next_use ?b = ca_next_use c + 1" "config ?b = config c" "ca_destroyed ?b = ca_destroyed c"
    using use_put_last [of "map (\<lambda>j. (it_use (item c j), j)) ?js" "ca_next_use c" i] lt f
    by (simp_all add: touch_item_def NextUse_def config_def Let_def)
  have same: "it_key (item ?b j) = it_key (item c j)" "entry (item ?b j) = entry (item c j)" "it_value (item ?b j) = it_value (item c j)" for j
    by (simp_all add: b(1) entry_def)
  have so: "sorted_wrt (<) (map (\<lambda>j. it_use (item ?b j)) (?js @ [i]))"
  proof -
    have "map (\<lambda>j. it_use (item ?b j)) ?js = map (\<lambda>j. it_use (item c j)) ?js" by (simp add: b(1))
    moreover have "sorted_wrt (<) (map (\<lambda>j. it_use (item c j)) ?js)" using r(6) by (simp add: sorted_wrt_map sorted_wrt_filter)
    ultimately show ?thesis using lt unfolding map_append by (simp only: sorted_wrt_append) (simp add: b(1))
  qed
  have "\<forall>j \<in> set ?ids. ca_heap ?b j \<noteq> None \<and> j < ca_fresh c \<and> unat (it_use (item ?b j)) < Suc n" using r(1,4) by (auto simp: b(1) less_SucI)
  moreover have "ca_items_by_use ?b = map (\<lambda>j. (it_use (item ?b j), j)) (?js @ [i])" unfolding b(5) by (simp add: b(1))
  ultimately have "cache_rep (Suc n) (?js @ [i]) ?b"
    using r(2,3,5,7) so assms(2) next_use [OF r(4) assms(3)] unfolding cache_rep_def b(2,3,4,6) same by auto
  moreover have "filter (\<lambda>j. it_key (item c j) \<noteq> it_key (item c i)) js = ?js" using filter_inj [OF r(5) _ assms(2), of js] r(3) by simp
  then have "cache_abs (?js @ [i]) ?b = (fst (cache_abs js c), filter (\<lambda>l. l \<noteq> it_key (item c i)) (snd (cache_abs js c)) @ [it_key (item c i)])"
    unfolding cache_abs_def b(4) same by (simp add: filter_map comp_def)
  moreover have "ledger ?b = ledger c" unfolding ledger_def b(4,8) same ..
  ultimately show ?thesis using b(7) unfolding step_ok_def rep_def by auto
qed

section \<open>Sequences of calls\<close>

lemma find_entry:
  assumes "cache_rep n js c"
  shows "map_of (fst (cache_abs js c)) k = map_option (\<lambda>i. (it_value (item c i), it_expiration_ts (item c i))) (FindLocked k c)"
proof -
  have "map_of (map (\<lambda>i. entry (item c i)) xs) k =
      map_option (\<lambda>i. (it_value (item c i), it_expiration_ts (item c i))) (map_of (map (\<lambda>i. (it_key (item c i), i)) xs) k)" for xs
    by (induction xs) (auto simp: entry_def)
  then show ?thesis using assms by (simp add: cache_abs_def FindLocked_def cache_rep_def)
qed

lemma rep_length: "rep n c s \<Longrightarrow> length (ca_items c) = length (fst s)"
  by (auto simp: rep_def cache_rep_def cache_abs_def)

lemma rep_find: "rep n c s \<Longrightarrow> FindLocked k c = None \<longleftrightarrow> k \<notin> fst ` set (fst s)"
  using FindLocked_None by (force simp: rep_def)

definition added :: "('k, 'v) CacheOp \<Rightarrow> 'v multiset" where
  "added x = (case x of OpAdd k v ms now later pick \<Rightarrow> {#v#} | _ \<Rightarrow> {#})"

lemma remove_not_in: "spec_remove {k} s = s1 \<Longrightarrow> k \<notin> fst ` set (fst s1)"
  by (auto simp: spec_remove_def)

lemma evict_not_in: "k \<notin> fst ` set (fst s) \<Longrightarrow> k \<notin> fst ` set (fst (spec_evict alg pick s))"
  by (auto simp: spec_evict_def spec_remove_def)

lemma add_step:
  assumes "rep n c s" and "Suc n < 2 ^ 64"
  shows "\<exists>c' m. cache_Add k v ms now later pick c = Some c' \<and> m \<le> Suc n \<and> step_ok m {#v#} c c'
    (spec_add (ca_algorithm c) (ca_max_size c) k v (later + (if ms = -1 then ca_default_expiration_ms c else ms)) pick (spec_expire now s))"
proof -
  let ?s0 = "spec_expire now s"
  let ?s1 = "spec_remove {k} ?s0"
  let ?s2 = "if ca_max_size c \<le> length (fst ?s1) then spec_evict (ca_algorithm c) pick ?s1 else ?s1"
  let ?ts = "later + (if ms = -1 then ca_default_expiration_ms c else ms)"
  obtain c0 where c0: "ExpireSomeCache now c = Some c0" "step_ok n {#} c c0 ?s0" using expire_step [OF assms(1)] by blast
  have "\<exists>c1. (if FindLocked k c0 \<noteq> None then cache_Del k c0 else Some c0) = Some c1 \<and> step_ok n {#} c0 c1 ?s1"
    using del_step [of n c0 ?s0 k] step_okD [OF c0(2)] by (auto simp: cache_Del_def)
  then obtain c1 where c1: "(if FindLocked k c0 \<noteq> None then cache_Del k c0 else Some c0) = Some c1" "step_ok n {#} c c1 ?s1"
    using step_ok_trans [OF c0(2)] by fastforce
  have f1: "ca_max_size c1 = ca_max_size c" "ca_algorithm c1 = ca_algorithm c" "rep n c1 ?s1" using step_okD [OF c1(2)] by (simp_all add: config_def)
  have "\<exists>c2. (if length (ca_items c1) \<ge> ca_max_size c1 then DelByAlgorithmLocked pick c1 else Some c1) = Some c2 \<and> step_ok n {#} c1 c2 ?s2"
    using evict_step [OF f1(3), of pick] step_ok_refl [OF f1(3)] f1 rep_length [OF f1(3)] by simp
  then obtain c2 where c2: "(if length (ca_items c1) \<ge> ca_max_size c1 then DelByAlgorithmLocked pick c1 else Some c1) = Some c2" "step_ok n {#} c c2 ?s2"
    using step_ok_trans [OF c1(2)] by fastforce
  have f2: "ca_max_size c2 = ca_max_size c" "ca_default_expiration_ms c2 = ca_default_expiration_ms c" "ca_destructor c2 = ca_destructor c" "rep n c2 ?s2"
    using step_okD [OF c2(2)] by (simp_all add: config_def)
  let ?c3 = "if length (ca_items c2) \<ge> ca_max_size c2 then destroy v c2 else insert_item k v ?ts c2"
  have add: "cache_Add k v ms now later pick c = Some ?c3" using c0(1) c1(1) c2(1) f2(2) by (simp add: cache_Add_def)
  show ?thesis
  proof (cases "length (fst ?s2) \<ge> ca_max_size c")
    case True
    have "rep n (destroy v c2) ?s2" using f2(4) by (simp add: rep_def cache_rep_def cache_abs_def)
    then have "step_ok n {#v#} c2 (destroy v c2) ?s2" using destroy_ledger [of c2 v] by (simp add: step_ok_def)
    from step_ok_trans [OF c2(2) this] show ?thesis using add True rep_length [OF f2(4)] f2(1) by (intro exI [of _ "destroy v c2"] exI [of _ n]) (simp add: spec_add_def Let_def)
  next
    case False
    have "k \<notin> fst ` set (fst ?s2)" using remove_not_in [OF refl, of k ?s0] evict_not_in [OF remove_not_in [OF refl, of k ?s0]] by simp
    from step_ok_trans [OF c2(2) insert_step [OF f2(4) this assms(2)]] show ?thesis
      using add False rep_length [OF f2(4)] f2(1) by (intro exI [of _ "insert_item k v ?ts c2"] exI [of _ "Suc n"]) (simp add: spec_add_def Let_def)
  qed
qed

lemma get_step:
  assumes "rep n c s" and "Suc n < 2 ^ 64"
  shows "\<exists>r s' c' m. spec_op alg mx dflt (ca_null_value c) (OpGet k now) s = (r, s') \<and> cache_op (OpGet k now) c = Some (r, c') \<and>
    m \<le> Suc n \<and> step_ok m {#} c c' s'"
proof -
  obtain c1 where c1: "ExpireSomeCache now c = Some c1" "step_ok n {#} c c1 (spec_expire now s)" using expire_step [OF assms(1)] by blast
  obtain js where js: "cache_rep n js c1" "spec_expire now s = cache_abs js c1" using step_okD [OF c1(2)] by (auto simp: rep_def)
  have null: "ca_null_value c1 = ca_null_value c" using step_okD [OF c1(2)] by (simp add: config_def)
  show ?thesis
  proof (cases "FindLocked k c1")
    case None
    then have "cache_op (OpGet k now) c = Some (Value (ca_null_value c), c1)" using c1(1) null by (simp add: cache_Get_def)
    moreover have "spec_op alg mx dflt (ca_null_value c) (OpGet k now) s = (Value (ca_null_value c), spec_expire now s)"
      using None find_entry [OF js(1), of k] js(2) by simp
    ultimately show ?thesis using c1(2) le_SucI [OF order_refl, of n] by blast
  next
    case (Some i)
    note i = FindLocked_Some [OF js(1) Some]
    obtain it where "ca_heap c1 i = Some it" using i(1) js(1) by (auto simp: cache_rep_def)
    then have "cache_op (OpGet k now) c = Some (Value (it_value (item c1 i)), touch_item i (item c1 i) c1)"
      using Some c1(1) by (simp add: cache_Get_def)
    moreover have "spec_op alg mx dflt (ca_null_value c) (OpGet k now) s =
        (Value (it_value (item c1 i)), fst (cache_abs js c1), filter (\<lambda>l. l \<noteq> it_key (item c1 i)) (snd (cache_abs js c1)) @ [it_key (item c1 i)])"
      using Some find_entry [OF js(1), of k] js(2) i(2) by (simp add: Let_def)
    moreover note step_ok_trans [OF c1(2) touch_step [OF js(1) i(1) assms(2)], unfolded add_0]
    ultimately show ?thesis using order_refl [of "Suc n"] by blast
  qed
qed

lemma those_Some: "\<forall>x \<in> set xs. f x = Some (g x) \<Longrightarrow> those (map f xs) = Some (map g xs)"
  by (induction xs) auto

lemma getall_step:
  assumes "rep n c s"
  shows "\<exists>r s' c'. spec_op alg mx dflt null (OpGetAll now) s = (r, s') \<and> cache_op (OpGetAll now) c = Some (r, c') \<and> step_ok n {#} c c' s'"
proof -
  obtain c1 where c1: "ExpireSomeCache now c = Some c1" "step_ok n {#} c c1 (spec_expire now s)" using expire_step [OF assms] by blast
  obtain js where js: "cache_rep n js c1" "spec_expire now s = cache_abs js c1" using step_okD [OF c1(2)] by (auto simp: rep_def)
  have "those (map (\<lambda>(k, i). map_option (\<lambda>it. (k, it_value it)) (ca_heap c1 i)) (ca_items c1)) = Some (map (\<lambda>(k, i). (k, it_value (item c1 i))) (ca_items c1))"
    using js(1) by (intro those_Some) (auto simp: cache_rep_def)
  also have "map (\<lambda>(k, i). (k, it_value (item c1 i))) (ca_items c1) = map (\<lambda>e. (fst e, fst (snd e))) (fst (spec_expire now s))"
    using js(1) by (simp add: js(2) cache_rep_def cache_abs_def entry_def)
  finally show ?thesis using c1 by (simp add: cache_GetAll_def)
qed

lemma op_step:
  assumes "rep n c s" and "Suc n < 2 ^ 64"
  shows "\<exists>r s' c' m. spec_op (ca_algorithm c) (ca_max_size c) (ca_default_expiration_ms c) (ca_null_value c) x s = (r, s') \<and>
    cache_op x c = Some (r, c') \<and> m \<le> Suc n \<and> step_ok m (added x) c c' s'"
proof (cases x)
  case (OpAdd k v ms now later pick)
  then show ?thesis using add_step [OF assms, of k v ms now later pick] by (fastforce simp: added_def)
next
  case (OpGet k now)
  then show ?thesis using get_step [OF assms] by (simp add: added_def)
next
  case (OpGetAll now)
  obtain r s' c' where "spec_op (ca_algorithm c) (ca_max_size c) (ca_default_expiration_ms c) (ca_null_value c) x s = (r, s')"
    "cache_op x c = Some (r, c')" "step_ok n {#} c c' s'" using getall_step [OF assms(1)] OpGetAll by metis
  then show ?thesis using OpGetAll by (intro exI [of _ r] exI [of _ s'] exI [of _ c'] exI [of _ n]) (auto simp: added_def)
next
  case (OpHas k)
  then show ?thesis using step_ok_refl [OF assms(1)] rep_find [OF assms(1), of k] by (auto simp: added_def cache_Has_def intro!: exI [of _ n])
next
  case OpSize
  then show ?thesis using step_ok_refl [OF assms(1)] rep_length [OF assms(1)] by (auto simp: added_def cache_Size_def intro!: exI [of _ n])
next
  case (OpDel k)
  then show ?thesis using del_step [OF assms(1), of k] by (auto simp: added_def intro!: exI [of _ n])
next
  case (OpDelOne pick)
  then show ?thesis using evict_step [OF assms(1), of pick] by (auto simp: added_def intro!: exI [of _ n])
qed

lemma run_step:
  assumes "rep n c s" and "n + length xs < 2 ^ 64"
  shows "\<exists>rs s' c' m. spec_run (ca_algorithm c) (ca_max_size c) (ca_default_expiration_ms c) (ca_null_value c) xs s = (rs, s') \<and>
    cache_run xs c = Some (rs, c') \<and> step_ok m (sum_list (map added xs)) c c' s'"
  using assms
proof (induction xs arbitrary: n c s)
  case Nil
  then show ?case using step_ok_refl [OF Nil(1)] by auto
next
  case (Cons x xs)
  then have "Suc n < 2 ^ 64" by simp
  from op_step [OF Cons.prems(1) this, of x] obtain r s1 c1 m where
    o: "spec_op (ca_algorithm c) (ca_max_size c) (ca_default_expiration_ms c) (ca_null_value c) x s = (r, s1)"
      "cache_op x c = Some (r, c1)" "m \<le> Suc n" "step_ok m (added x) c c1 s1" by blast
  have same: "ca_algorithm c1 = ca_algorithm c" "ca_max_size c1 = ca_max_size c" "ca_default_expiration_ms c1 = ca_default_expiration_ms c"
    "ca_null_value c1 = ca_null_value c" "rep m c1 s1" using step_okD [OF o(4)] by (simp_all add: config_def)
  from Cons.IH [OF same(5)] Cons.prems(2) o(3) obtain rs s' c' m' where
    i: "spec_run (ca_algorithm c) (ca_max_size c) (ca_default_expiration_ms c) (ca_null_value c) xs s1 = (rs, s')"
      "cache_run xs c1 = Some (rs, c')" "step_ok m' (sum_list (map added xs)) c1 c' s'" unfolding same(1-4) by auto
  show ?case using o(1,2) i(1,2) step_ok_trans [OF o(4) i(3)] by auto
qed

lemma rep_new: "rep 0 (Cache_new alg mx ms dest null) ([], [])"
  by (simp add: rep_def cache_rep_def cache_abs_def Cache_new_def)

lemma ledger_new [simp]: "ledger (Cache_new alg mx ms dest null) = {#}"
  by (simp add: ledger_def Cache_new_def)

lemma new_run:
  assumes "length xs < 2 ^ 64"
  shows "\<exists>rs s' c' m. spec_run alg mx ms null xs ([], []) = (rs, s') \<and> cache_run xs (Cache_new alg mx ms dest null) = Some (rs, c') \<and>
    step_ok m (sum_list (map added xs)) (Cache_new alg mx ms dest null) c' s'"
  using run_step [OF rep_new, of xs alg mx ms dest null] assms by (simp add: Cache_new_def)

lemma remove_size: "length (fst (spec_remove ks s)) \<le> length (fst s)"
  by (simp add: spec_remove_def)

lemma evict_size: "length (fst (spec_evict alg pick s)) \<le> length (fst s)"
  by (simp add: spec_evict_def remove_size)

lemma expire_size: "length (fst (spec_expire now s)) \<le> length (fst s)"
  by (simp add: spec_expire_def remove_size)

lemma spec_op_size:
  assumes "length (fst s) \<le> mx"
  shows "length (fst (snd (spec_op alg mx dflt null x s))) \<le> mx"
proof (cases x)
  case (OpAdd k v ms now later pick)
  let ?s1 = "spec_remove {k} (spec_expire now s)"
  have "length (fst ?s1) \<le> mx" using assms remove_size expire_size le_trans by blast
  then have "length (fst (spec_evict alg pick ?s1)) \<le> mx" using evict_size le_trans by blast
  then show ?thesis using OpAdd \<open>length (fst ?s1) \<le> mx\<close> by (simp add: spec_add_def Let_def)
next
  case (OpGet k now)
  have "length (fst (spec_expire now s)) \<le> mx" using assms expire_size le_trans by blast
  then show ?thesis using OpGet by (simp add: Let_def split: option.split)
next
  case (OpGetAll now)
  then show ?thesis using le_trans [OF expire_size assms] by simp
next
  case (OpDel k)
  then show ?thesis using le_trans [OF remove_size assms] by simp
next
  case (OpDelOne pick)
  then show ?thesis using le_trans [OF evict_size assms] by simp
qed (use assms in simp_all)

lemma spec_run_size: "length (fst s) \<le> mx \<Longrightarrow> length (fst (snd (spec_run alg mx dflt null xs s))) \<le> mx"
proof (induction xs arbitrary: s)
  case (Cons x xs)
  then show ?case using spec_op_size [of s mx alg dflt null x] by (auto split: prod.splits)
qed simp




lemmas cache_simps = cache_Add_def Cache_new_def ExpireSomeCache_def FindLocked_def insert_item_def NextUse_def Let_def cache_Clear_def destroy_def
  cache_Size_def cache_Get_def cache_GetAll_def cache_Del_def DelItemLocked_def DelByAlgorithmLocked_def touch_item_def




text \<open>\<open>Clear\<close> leaves the list by age with pointers to deleted items. After one value was added and the
  cache was cleared, every later \<open>Get\<close>, \<open>Add\<close> or \<open>GetAll\<close>, at any time, uses a deleted item.\<close>

theorem clear_dangles:
  assumes "0 < mx"
  shows "\<exists>c c'. cache_Add k v t now later pick (Cache_new alg mx ms dest null) = Some c \<and> cache_Clear c = Some c' \<and>
    cache_Size c' = 0 \<and> cache_Get k' now' c' = None \<and> cache_Add k' v' t' now' later' pick' c' = None \<and> cache_GetAll now' c' = None"
  using assms
  by (simp add: cache_simps)

theorem clear_dangles_witness:
  "\<exists>c c'. cache_Add (1 :: nat) ''a'' (-1) 0 0 0 (Cache_new LRU 1 10 True []) = Some c \<and> cache_Clear c = Some c' \<and> cache_Get 1 0 c' = None"
  using clear_dangles [where mx = 1 and k = "1 :: nat" and v = "''a''" and t = "-1" and now = 0 and later = 0 and pick = 0 and alg = LRU and ms = 10
      and dest = True and null = "[]" and k' = 1 and now' = 0 and v' = "[]" and t' = 0 and later' = 0 and pick' = 0] by auto

end
