(* ===== verification/LockFreeQueue.thy ===== *)
theory LockFreeQueue
  imports Prelude
begin

unbundle bit_operations_syntax

text \<open>
  Model of \<open>src/whisperlib/sync/lock_free_producer_consumer_queue.h\<close> (the x86-64 variant): a ring of slots that
  several producers and consumers share without a lock. Every access to shared memory is one step
  of the thread that makes it, and the steps of the threads interleave in any order; memory is
  sequentially consistent. What a thread is about to do, with its registers, is its program counter. A \<open>size_t\<close> is a natural
  number with the wrap-around written out. Two fields record the history: the values in the order of
  their tickets, and what each ticket of a consumer returned.
\<close>

section \<open>State\<close>

datatype 'a ProducerPc =
    PIdle
  | PLoaded 'a nat
  | PStored 'a
  | PTicket 'a nat
  | PCheck 'a
  | PTail 'a
  | PScan 'a nat nat
  | PPublish 'a nat
  | PRecheck 'a
  | PWrite 'a
  | PClear

datatype 'a ConsumerPc =
    CIdle
  | CLoaded nat
  | CStored
  | CTicket nat
  | CCheck
  | CHead
  | CScan nat nat
  | CPublish nat
  | CRecheck
  | CRead
  | CClear "'a option"

record 'a Queue =
  q_num_producers :: nat
  q_num_consumers :: nat
  q_size :: nat
  q_head :: nat
  q_tail :: nat
  q_last_head :: nat
  q_last_tail :: nat
  q_client_head :: "nat \<Rightarrow> nat"
  q_client_tail :: "nat \<Rightarrow> nat"
  q_data :: "nat \<Rightarrow> 'a option"
  q_ppc :: "nat \<Rightarrow> 'a ProducerPc"
  q_cpc :: "nat \<Rightarrow> 'a ConsumerPc"
  q_puts :: "'a list"
  q_got :: "(nat \<times> 'a option) list"

definition ULONG_MAX :: nat where
  "ULONG_MAX = 2 ^ 64 - 1"

definition size_add :: "nat \<Rightarrow> nat \<Rightarrow> nat" where
  "size_add x y = (x + y) mod 2 ^ 64"

text \<open>The least power of two that is not less; beyond \<open>2 ^ 63\<close> the shifted bit is lost and the loop does not end.\<close>

function next_pow2 :: "nat \<Rightarrow> nat \<Rightarrow> nat" where
  "next_pow2 sz ret = (if 0 < ret \<and> ret < sz then next_pow2 sz (2 * ret) else ret)"
  by pat_completeness auto
termination
  by (relation "measure (\<lambda>(sz, ret). sz - ret)") auto

declare next_pow2.simps [simp del]

definition NextPow2 :: "nat \<Rightarrow> nat option" where
  "NextPow2 sz = (if sz > 2 ^ 63 then None else Some (next_pow2 sz 1))"

definition Queue_new :: "nat \<Rightarrow> nat \<Rightarrow> nat \<Rightarrow> 'a Queue option" where
  "Queue_new sz num_producers num_consumers =
     map_option (\<lambda>n.
       \<lparr>q_num_producers = num_producers, q_num_consumers = num_consumers, q_size = n, q_head = 0, q_tail = 0,
        q_last_head = 0, q_last_tail = 0, q_client_head = (\<lambda>_. ULONG_MAX), q_client_tail = (\<lambda>_. ULONG_MAX),
        q_data = (\<lambda>_. None), q_ppc = (\<lambda>_. PIdle), q_cpc = (\<lambda>_. CIdle), q_puts = [], q_got = []\<rparr>) (NextPow2 sz)"

definition slot :: "'a Queue \<Rightarrow> nat \<Rightarrow> nat" where
  "slot q pos = pos AND (q_size q - 1)"

section \<open>Steps\<close>

definition go_p :: "nat \<Rightarrow> 'a ProducerPc \<Rightarrow> 'a Queue \<Rightarrow> 'a Queue" where
  "go_p p pc q = q\<lparr>q_ppc := (q_ppc q)(p := pc)\<rparr>"

definition go_c :: "nat \<Rightarrow> 'a ConsumerPc \<Rightarrow> 'a Queue \<Rightarrow> 'a Queue" where
  "go_c c pc q = q\<lparr>q_cpc := (q_cpc q)(c := pc)\<rparr>"

text \<open>\<open>Put\<close>: the value is the argument of the call that an idle producer starts.\<close>

definition Put_step :: "nat \<Rightarrow> 'a \<Rightarrow> 'a Queue \<Rightarrow> 'a Queue" where
  "Put_step p data q =
     (case q_ppc q p of
        PIdle \<Rightarrow> go_p p (PLoaded data (q_head q)) q
      | PLoaded v r \<Rightarrow> go_p p (PStored v) (q\<lparr>q_client_head := (q_client_head q)(p := r)\<rparr>)
      | PStored v \<Rightarrow> go_p p (PTicket v (q_head q)) (q\<lparr>q_head := size_add (q_head q) 1, q_puts := q_puts q @ [v]\<rparr>)
      | PTicket v r \<Rightarrow> go_p p (PCheck v) (q\<lparr>q_client_head := (q_client_head q)(p := r)\<rparr>)
      | PCheck v \<Rightarrow> go_p p (if q_client_head q p \<ge> size_add (q_last_tail q) (q_size q) then PTail v else PWrite v) q
      | PTail v \<Rightarrow> go_p p (PScan v 0 (q_tail q)) q
      | PScan v i m \<Rightarrow>
          go_p p (if i < q_num_consumers q then PScan v (i + 1) (min m (q_client_tail q i)) else PPublish v m) q
      | PPublish v m \<Rightarrow> go_p p (PRecheck v) (q\<lparr>q_last_tail := m\<rparr>)
      | PRecheck v \<Rightarrow> go_p p (if q_client_head q p < size_add (q_last_tail q) (q_size q) then PWrite v else PCheck v) q
      | PWrite v \<Rightarrow> go_p p PClear (q\<lparr>q_data := (q_data q)(slot q (q_client_head q p) := Some v)\<rparr>)
      | PClear \<Rightarrow> go_p p PIdle (q\<lparr>q_client_head := (q_client_head q)(p := ULONG_MAX)\<rparr>))"

text \<open>\<open>Get\<close>: the last step returns.\<close>

definition Get_step :: "nat \<Rightarrow> 'a Queue \<Rightarrow> 'a Queue" where
  "Get_step c q =
     (case q_cpc q c of
        CIdle \<Rightarrow> go_c c (CLoaded (q_tail q)) q
      | CLoaded r \<Rightarrow> go_c c CStored (q\<lparr>q_client_tail := (q_client_tail q)(c := r)\<rparr>)
      | CStored \<Rightarrow> go_c c (CTicket (q_tail q)) (q\<lparr>q_tail := size_add (q_tail q) 1\<rparr>)
      | CTicket r \<Rightarrow> go_c c CCheck (q\<lparr>q_client_tail := (q_client_tail q)(c := r)\<rparr>)
      | CCheck \<Rightarrow> go_c c (if q_client_tail q c \<ge> q_last_head q then CHead else CRead) q
      | CHead \<Rightarrow> go_c c (CScan 0 (q_head q)) q
      | CScan i m \<Rightarrow> go_c c (if i < q_num_producers q then CScan (i + 1) (min m (q_client_head q i)) else CPublish m) q
      | CPublish m \<Rightarrow> go_c c CRecheck (q\<lparr>q_last_head := m\<rparr>)
      | CRecheck \<Rightarrow> go_c c (if q_client_tail q c < q_last_head q then CRead else CCheck) q
      | CRead \<Rightarrow> go_c c (CClear (q_data q (slot q (q_client_tail q c)))) q
      | CClear x \<Rightarrow>
          go_c c CIdle (q\<lparr>q_client_tail := (q_client_tail q)(c := ULONG_MAX), q_got := q_got q @ [(q_client_tail q c, x)]\<rparr>))"

datatype 'a QEvent = Producer nat 'a | Consumer nat

fun queue_step :: "'a QEvent \<Rightarrow> 'a Queue \<Rightarrow> 'a Queue" where
  "queue_step (Producer p v) q = (if p < q_num_producers q then Put_step p v q else q)"
| "queue_step (Consumer c) q = (if c < q_num_consumers q then Get_step c q else q)"

definition queue_run :: "'a QEvent list \<Rightarrow> 'a Queue \<Rightarrow> 'a Queue" where
  "queue_run es q = fold queue_step es q"

end
