(* ===== verification/LockFreeQueueProps.thy ===== *)
theory LockFreeQueueProps
  imports LockFreeQueue "HOL-Library.Multiset"
begin

text \<open>
  The lock-free queue is a FIFO queue under every interleaving of its producers and consumers: the value that
  a consumer returns is the one whose ticket it drew. The proof is an invariant of the steps: a
  position that was published as passed is passed, and a slot is written only
  when its last reader is done and read only when its writer is.
\<close>

section \<open>Tickets\<close>

text \<open>The ticket that a thread holds, from drawing it to the end of its call.\<close>

fun pticket :: "'a ProducerPc \<Rightarrow> nat \<Rightarrow> nat option" where
  "pticket PIdle h = None"
| "pticket (PLoaded v r) h = None"
| "pticket (PStored v) h = None"
| "pticket (PTicket v r) h = Some r"
| "pticket _ h = Some h"

fun cticket :: "'a ConsumerPc \<Rightarrow> nat \<Rightarrow> nat option" where
  "cticket CIdle h = None"
| "cticket (CLoaded r) h = None"
| "cticket CStored h = None"
| "cticket (CTicket r) h = Some r"
| "cticket _ h = Some h"

definition pt :: "'a Queue \<Rightarrow> nat \<Rightarrow> nat option" where
  "pt q p = pticket (q_ppc q p) (q_client_head q p)"

definition ct :: "'a Queue \<Rightarrow> nat \<Rightarrow> nat option" where
  "ct q c = cticket (q_cpc q c) (q_client_tail q c)"

definition pdone :: "'a Queue \<Rightarrow> nat \<Rightarrow> bool" where
  "pdone q t \<longleftrightarrow> t < q_head q \<and> (\<forall>p. pt q p \<noteq> Some t)"

definition cdone :: "'a Queue \<Rightarrow> nat \<Rightarrow> bool" where
  "cdone q t \<longleftrightarrow> t < q_tail q \<and> (\<forall>c. ct q c \<noteq> Some t)"

text \<open>The slot of a ticket was written: its producer is done or about to return.\<close>

definition written :: "'a Queue \<Rightarrow> nat \<Rightarrow> bool" where
  "written q t \<longleftrightarrow> t < q_head q \<and> (\<forall>p. pt q p = Some t \<longrightarrow> q_ppc q p = PClear)"

definition tickets_ok :: "'a Queue \<Rightarrow> bool" where
  "tickets_ok q \<longleftrightarrow>
     (\<forall>p t. pt q p = Some t \<longrightarrow> p < q_num_producers q \<and> t < q_head q \<and> q_client_head q p \<le> t) \<and>
     (\<forall>c t. ct q c = Some t \<longrightarrow> c < q_num_consumers q \<and> t < q_tail q \<and> q_client_tail q c \<le> t) \<and>
     (\<forall>p p' t. pt q p = Some t \<longrightarrow> pt q p' = Some t \<longrightarrow> p = p') \<and>
     (\<forall>c c' t. ct q c = Some t \<longrightarrow> ct q c' = Some t \<longrightarrow> c = c') \<and>
     q_head q = length (q_puts q)"

definition passed_ok :: "'a Queue \<Rightarrow> bool" where
  "passed_ok q \<longleftrightarrow> (\<forall>t < q_last_tail q. cdone q t) \<and> (\<forall>t < q_last_head q. pdone q t) \<and> (\<forall>t. cdone q t \<longrightarrow> pdone q t)"

definition slots_ok :: "'a Queue \<Rightarrow> bool" where
  "slots_ok q \<longleftrightarrow> (\<forall>t. written q t \<longrightarrow>
     (\<forall>t'. t' + q_size q \<le> t \<longrightarrow> cdone q t') \<and> (\<not> cdone q t \<longrightarrow> q_data q (slot q t) = Some (q_puts q ! t)))"

definition got_ok :: "'a Queue \<Rightarrow> bool" where
  "got_ok q \<longleftrightarrow> distinct (map fst (q_got q)) \<and> set (map fst (q_got q)) = {t. cdone q t} \<and>
     (\<forall>(t, x) \<in> set (q_got q). x = Some (q_puts q ! t))"

text \<open>What a thread knows at each point.\<close>

definition scan_tail :: "'a Queue \<Rightarrow> nat \<Rightarrow> nat \<Rightarrow> bool" where
  "scan_tail q i m \<longleftrightarrow> m \<le> q_tail q \<and> (\<forall>t < m. cdone q t \<or> (\<exists>c \<ge> i. ct q c = Some t))"

definition scan_head :: "'a Queue \<Rightarrow> nat \<Rightarrow> nat \<Rightarrow> bool" where
  "scan_head q i m \<longleftrightarrow> m \<le> q_head q \<and> (\<forall>t < m. pdone q t \<or> (\<exists>p \<ge> i. pt q p = Some t))"

fun pvalue :: "'a ProducerPc \<Rightarrow> 'a option" where
  "pvalue PIdle = None"
| "pvalue (PLoaded v r) = None"
| "pvalue (PStored v) = None"
| "pvalue (PTicket v r) = Some v"
| "pvalue (PCheck v) = Some v"
| "pvalue (PTail v) = Some v"
| "pvalue (PScan v i m) = Some v"
| "pvalue (PPublish v m) = Some v"
| "pvalue (PRecheck v) = Some v"
| "pvalue (PWrite v) = Some v"
| "pvalue PClear = None"

definition p_ok :: "'a Queue \<Rightarrow> nat \<Rightarrow> bool" where
  "p_ok q p \<longleftrightarrow> (\<forall>v t. pvalue (q_ppc q p) = Some v \<longrightarrow> pt q p = Some t \<longrightarrow> v = q_puts q ! t) \<and>
     (case q_ppc q p of
        PLoaded v r \<Rightarrow> r \<le> q_head q
      | PStored v \<Rightarrow> q_client_head q p \<le> q_head q
      | PScan v i m \<Rightarrow> scan_tail q i m
      | PPublish v m \<Rightarrow> \<forall>t < m. cdone q t
      | PWrite v \<Rightarrow> \<forall>t. t + q_size q \<le> q_client_head q p \<longrightarrow> cdone q t
      | _ \<Rightarrow> True)"

definition c_ok :: "'a Queue \<Rightarrow> nat \<Rightarrow> bool" where
  "c_ok q c \<longleftrightarrow>
     (case q_cpc q c of
        CLoaded r \<Rightarrow> r \<le> q_tail q
      | CStored \<Rightarrow> q_client_tail q c \<le> q_tail q
      | CScan i m \<Rightarrow> scan_head q i m
      | CPublish m \<Rightarrow> \<forall>t < m. pdone q t
      | CRead \<Rightarrow> pdone q (q_client_tail q c)
      | CClear x \<Rightarrow> pdone q (q_client_tail q c) \<and> x = Some (q_puts q ! q_client_tail q c)
      | _ \<Rightarrow> True)"

definition shape :: "'a Queue \<Rightarrow> nat \<times> nat \<times> nat" where
  "shape q = (q_num_producers q, q_num_consumers q, q_size q)"

definition queue_inv :: "'a Queue \<Rightarrow> bool" where
  "queue_inv q \<longleftrightarrow> (\<exists>k. q_size q = 2 ^ k) \<and> tickets_ok q \<and> passed_ok q \<and> slots_ok q \<and> got_ok q \<and> (\<forall>p. p_ok q p) \<and> (\<forall>c. c_ok q c)"

lemma inv_p: "queue_inv q \<Longrightarrow> p_ok q p" and inv_c: "queue_inv q \<Longrightarrow> c_ok q c"
  by (simp_all add: queue_inv_def)

section \<open>What a step leaves to the other threads\<close>

text \<open>Tickets are done for good, a ticket stays where it is until it is done, values stay where they are.\<close>

definition later :: "'a Queue \<Rightarrow> 'a Queue \<Rightarrow> bool" where
  "later q q' \<longleftrightarrow> shape q' = shape q \<and> q_head q \<le> q_head q' \<and> q_tail q \<le> q_tail q' \<and>
     (\<forall>t. pdone q t \<longrightarrow> pdone q' t) \<and> (\<forall>t. cdone q t \<longrightarrow> cdone q' t) \<and>
     (\<forall>p t. pt q p = Some t \<longrightarrow> pt q' p = Some t \<or> pdone q' t) \<and> (\<forall>c t. ct q c = Some t \<longrightarrow> ct q' c = Some t \<or> cdone q' t) \<and>
     (\<forall>t < q_head q. q_puts q' ! t = q_puts q ! t)"

lemma scan_tail_later: "later q q' \<Longrightarrow> scan_tail q i m \<Longrightarrow> scan_tail q' i m"
  unfolding later_def scan_tail_def by (meson le_trans)

lemma scan_head_later: "later q q' \<Longrightarrow> scan_head q i m \<Longrightarrow> scan_head q' i m"
  unfolding later_def scan_head_def by (meson le_trans)

lemma p_ok_later:
  assumes "later q q'" and "tickets_ok q" and "p_ok q p" and "q_ppc q' p = q_ppc q p" and "q_client_head q' p = q_client_head q p"
  shows "p_ok q' p"
proof -
  have pt: "pt q' p = pt q p" using assms(4,5) by (simp add: pt_def)
  have "v = q_puts q' ! t" if "pvalue (q_ppc q' p) = Some v" "pt q' p = Some t" for v t
  proof -
    have "t < q_head q" using that(2) assms(2) unfolding pt tickets_ok_def by blast
    then show ?thesis using that assms(1,3) unfolding pt assms(4) p_ok_def later_def by simp
  qed
  moreover have "q_size q' = q_size q" using assms(1) by (simp add: later_def shape_def)
  ultimately show ?thesis using assms(1,3) scan_tail_later [OF assms(1)] unfolding p_ok_def assms(4,5) pt
    by (auto simp: later_def split: ProducerPc.split)
qed

lemma c_ok_later:
  assumes "later q q'" and "c_ok q c" and "q_cpc q' c = q_cpc q c" and "q_client_tail q' c = q_client_tail q c"
  shows "c_ok q' c"
proof -
  have "pdone q t \<Longrightarrow> q_puts q' ! t = q_puts q ! t" for t using assms(1) by (simp add: later_def pdone_def)
  then show ?thesis using assms(1,2) scan_head_later [OF assms(1)] unfolding c_ok_def assms(3,4)
    by (auto simp: later_def split: ConsumerPc.split)
qed


lemma all_p:
  assumes "later q q'" and "queue_inv q" and "\<And>j. j \<noteq> p \<Longrightarrow> q_ppc q' j = q_ppc q j \<and> q_client_head q' j = q_client_head q j" and "p_ok q' p"
  shows "p_ok q' j"
  using p_ok_later [OF assms(1), of j] assms(2-4) by (cases "j = p") (simp_all add: queue_inv_def)

lemma all_c:
  assumes "later q q'" and "queue_inv q" and "\<And>j. j \<noteq> c \<Longrightarrow> q_cpc q' j = q_cpc q j \<and> q_client_tail q' j = q_client_tail q j" and "c_ok q' c"
  shows "c_ok q' j"
  using c_ok_later [OF assms(1), of j] assms(2-4) by (cases "j = c") (simp_all add: queue_inv_def)

lemma view_simps [simp]:
  "ct (q\<lparr>q_ppc := x\<rparr>) = ct q" "ct (q\<lparr>q_client_head := y\<rparr>) = ct q" "ct (q\<lparr>q_last_tail := n\<rparr>) = ct q" "ct (q\<lparr>q_last_head := n\<rparr>) = ct q"
  "ct (q\<lparr>q_data := d\<rparr>) = ct q" "ct (q\<lparr>q_head := n\<rparr>) = ct q" "ct (q\<lparr>q_puts := l\<rparr>) = ct q" "ct (q\<lparr>q_got := g\<rparr>) = ct q" "ct (q\<lparr>q_tail := n\<rparr>) = ct q"
  "pt (q\<lparr>q_cpc := z\<rparr>) = pt q" "pt (q\<lparr>q_client_tail := y\<rparr>) = pt q" "pt (q\<lparr>q_last_tail := n\<rparr>) = pt q" "pt (q\<lparr>q_last_head := n\<rparr>) = pt q"
  "pt (q\<lparr>q_data := d\<rparr>) = pt q" "pt (q\<lparr>q_tail := n\<rparr>) = pt q" "pt (q\<lparr>q_got := g\<rparr>) = pt q" "pt (q\<lparr>q_head := n\<rparr>) = pt q" "pt (q\<lparr>q_puts := l\<rparr>) = pt q"
  by (simp_all add: ct_def pt_def fun_eq_iff)

text \<open>A queue with the same tickets and values, apart from what one producer or consumer knows.\<close>

lemma same_tickets:
  assumes "pt q' = pt q" and "ct q' = ct q" and "q_head q' = q_head q" and "q_tail q' = q_tail q"
  shows "pdone q' = pdone q" and "cdone q' = cdone q"
  using assms by (simp_all add: pdone_def cdone_def fun_eq_iff)

lemma same_later:
  assumes "pt q' = pt q" and "ct q' = ct q" and "q_head q' = q_head q" and "q_tail q' = q_tail q" and "shape q' = shape q" and "q_puts q' = q_puts q"
  shows "later q q'"
  using same_tickets [OF assms(1-4)] assms by (simp add: later_def)

lemma p_frame:
  assumes "queue_inv q" and "q' = q\<lparr>q_ppc := (q_ppc q)(p := pc), q_client_head := (q_client_head q)(p := h), q_last_tail := lt\<rparr>"
    and "pt q' p = pt q p" and "q_ppc q p = PClear \<longleftrightarrow> pc = PClear" and "\<And>t. pt q p = Some t \<Longrightarrow> h \<le> t"
    and "\<And>t. t < lt \<Longrightarrow> cdone q t" and "p_ok q' p"
  shows "queue_inv q'"
proof -
  note i = assms(1) [unfolded queue_inv_def]
  have pt: "pt q' = pt q"
  proof
    fix j
    show "pt q' j = pt q j" using assms(3) by (cases "j = p") (simp_all add: assms(2) pt_def)
  qed
  have ct: "ct q' = ct q" by (simp add: assms(2))
  have f: "q_head q' = q_head q" "q_tail q' = q_tail q" "shape q' = shape q" "q_puts q' = q_puts q" "q_size q' = q_size q" "q_data q' = q_data q"
    "q_got q' = q_got q" "slot q' = slot q" "q_last_head q' = q_last_head q" "q_last_tail q' = lt" "q_client_tail q' = q_client_tail q" "q_cpc q' = q_cpc q"
    "q_num_producers q' = q_num_producers q" "q_num_consumers q' = q_num_consumers q"
    by (simp_all add: assms(2) shape_def slot_def fun_eq_iff)
  note d = same_tickets [OF pt ct f(1,2)] and l = same_later [OF pt ct f(1,2,3,4)]
  have cl: "q_ppc q' j = PClear \<longleftrightarrow> q_ppc q j = PClear" for j using assms(4) by (cases "j = p") (simp_all add: assms(2))
  have w: "written q' = written q" by (simp add: written_def fun_eq_iff pt f cl)
  have "tickets_ok q'" using i assms(5) by (auto simp: tickets_ok_def pt ct f) (auto simp: assms(2))
  moreover have "passed_ok q'" using i assms(6) by (simp add: passed_ok_def d f)
  moreover have "slots_ok q'" "got_ok q'" using i by (simp_all add: slots_ok_def got_ok_def w d f)
  moreover have "p_ok q' j" for j
    using p_ok_later [OF l, of j] i assms(7) by (cases "j = p") (simp_all add: assms(2))
  moreover have "c_ok q' c" for c using c_ok_later [OF l, of c] i by (simp add: f)
  ultimately show ?thesis using i by (simp add: queue_inv_def f)
qed

lemma c_frame:
  assumes "queue_inv q" and "q' = q\<lparr>q_cpc := (q_cpc q)(c := pc), q_client_tail := (q_client_tail q)(c := h), q_last_head := lh\<rparr>"
    and "ct q' c = ct q c" and "\<And>t. ct q c = Some t \<Longrightarrow> h \<le> t" and "\<And>t. t < lh \<Longrightarrow> pdone q t" and "c_ok q' c"
  shows "queue_inv q'"
proof -
  note i = assms(1) [unfolded queue_inv_def]
  have ct: "ct q' = ct q"
  proof
    fix j
    show "ct q' j = ct q j" using assms(3) by (cases "j = c") (simp_all add: assms(2) ct_def)
  qed
  have pt: "pt q' = pt q" by (simp add: assms(2))
  have f: "q_head q' = q_head q" "q_tail q' = q_tail q" "shape q' = shape q" "q_puts q' = q_puts q" "q_size q' = q_size q" "q_data q' = q_data q"
    "q_got q' = q_got q" "slot q' = slot q" "q_last_tail q' = q_last_tail q" "q_last_head q' = lh" "q_client_head q' = q_client_head q" "q_ppc q' = q_ppc q"
    "q_num_producers q' = q_num_producers q" "q_num_consumers q' = q_num_consumers q"
    by (simp_all add: assms(2) shape_def slot_def fun_eq_iff)
  note d = same_tickets [OF pt ct f(1,2)] and l = same_later [OF pt ct f(1,2,3,4)]
  have w: "written q' = written q" by (simp add: written_def fun_eq_iff pt f)
  have "tickets_ok q'" using i assms(4) by (auto simp: tickets_ok_def pt ct f) (auto simp: assms(2))
  moreover have "passed_ok q'" using i assms(5) by (simp add: passed_ok_def d f)
  moreover have "slots_ok q'" "got_ok q'" using i by (simp_all add: slots_ok_def got_ok_def w d f)
  moreover have "c_ok q' j" for j
    using c_ok_later [OF l, of j] i assms(6) by (cases "j = c") (simp_all add: assms(2))
  moreover have "p_ok q' j" for j using p_ok_later [OF l, of j] i by (simp add: f)
  ultimately show ?thesis using i by (simp add: queue_inv_def f)
qed

section \<open>Drawing a ticket\<close>

lemma draw_done:
  assumes "f p = None"
  shows "(t < Suc n \<and> (\<forall>j. (if j = p then Some n else f j) \<noteq> Some t)) = (t < n \<and> (\<forall>j. f j \<noteq> Some t))" (is "?l = ?r")
proof
  assume ?l
  then have "t \<noteq> n" and "\<forall>j. j \<noteq> p \<longrightarrow> f j \<noteq> Some t" by metis+
  moreover have "f p \<noteq> Some t" using assms by simp
  ultimately have "\<forall>j. f j \<noteq> Some t" by metis
  with \<open>?l\<close> \<open>t \<noteq> n\<close> show ?r by simp
next
  assume ?r
  then show ?l by auto
qed

lemma finish_done:
  assumes "f p = Some h" and "h < n" and "\<And>j. f j = Some h \<Longrightarrow> j = p"
  shows "(t < n \<and> (\<forall>j. (if j = p then None else f j) \<noteq> Some t)) = (t < n \<and> (\<forall>j. f j \<noteq> Some t) \<or> t = h)" (is "?l = ?r")
proof
  assume ?l
  then have "\<forall>j. j \<noteq> p \<longrightarrow> f j \<noteq> Some t" by metis
  moreover have "t \<noteq> h \<longrightarrow> f p \<noteq> Some t" using assms(1) by simp
  ultimately have "t \<noteq> h \<longrightarrow> (\<forall>j. f j \<noteq> Some t)" by metis
  with \<open>?l\<close> show ?r by blast
next
  assume r: ?r
  show ?l
  proof (cases "t = h")
    case True
    have "(if j = p then None else f j) \<noteq> Some h" for j using assms(3) [of j] by (cases "j = p") auto
    then show ?thesis using True assms(2) by blast
  next
    case False
    then have "t < n" "\<And>j. f j \<noteq> Some t" using r by blast+
    then show ?thesis by simp
  qed
qed

lemma draw_p:
  assumes "queue_inv q" and "q_ppc q p = PStored v" and "p < q_num_producers q" and "q_head q + 1 < 2 ^ 64"
  shows "queue_inv (Put_step p u q)"
proof -
  note i = assms(1) [unfolded queue_inv_def]
  let ?q' = "q\<lparr>q_head := Suc (q_head q), q_puts := q_puts q @ [v], q_ppc := (q_ppc q)(p := PTicket v (q_head q))\<rparr>"
  have q': "Put_step p u q = ?q'" using assms(2,4) by (simp add: Put_step_def go_p_def size_add_def)
  have h: "length (q_puts q) = q_head q" "q_client_head q p \<le> q_head q" using i inv_p [OF assms(1), of p] assms(2) by (simp_all add: tickets_ok_def p_ok_def)
  have lt: "pt q j = Some t \<Longrightarrow> t < q_head q \<and> j < q_num_producers q \<and> q_client_head q j \<le> t" for j t using i unfolding tickets_ok_def by blast
  have pt: "pt ?q' j = (if j = p then Some (q_head q) else pt q j)" for j by (simp add: pt_def)
  have pp: "pt q p = None" using assms(2) by (simp add: pt_def)
  have ct: "ct ?q' = ct q" by simp
  have cd: "cdone ?q' = cdone q" by (simp add: cdone_def fun_eq_iff)
  have pd: "pdone ?q' t \<longleftrightarrow> pdone q t" for t unfolding pdone_def pt using draw_done [of "pt q" p t "q_head q", OF pp] by simp
  have w: "written ?q' t \<longleftrightarrow> written q t" for t using pp lt by (auto simp: written_def pt less_Suc_eq)
  have n: "t < q_head q \<Longrightarrow> (q_puts q @ [v]) ! t = q_puts q ! t" for t using h(1) by (simp add: nth_append)
  have l: "later q ?q'" using pp n by (auto simp: later_def shape_def cd pd pt ct)
  have "tickets_ok ?q'" using i lt h assms(3) unfolding tickets_ok_def pt ct by (auto simp: less_SucI)
  moreover have "passed_ok ?q'" using i by (simp add: passed_ok_def cd pd)
  moreover have "slots_ok ?q'"
  proof -
    have "written q t \<Longrightarrow> t < q_head q" for t by (simp add: written_def)
    moreover have "slots_ok q" using i by blast
    ultimately show ?thesis using n unfolding slots_ok_def w cd by (simp add: slot_def)
  qed
  moreover have "got_ok ?q'"
  proof -
    have "t < q_head q" if "(t, x) \<in> set (q_got q)" for t x
    proof -
      have "t \<in> set (map fst (q_got q))" using that by force
      then have "cdone q t" using i by (simp add: got_ok_def)
      then show ?thesis using i by (simp add: passed_ok_def pdone_def)
    qed
    then show ?thesis using i n by (auto simp: got_ok_def cd)
  qed
  moreover have "p_ok ?q' j" for j
    by (rule all_p [OF l assms(1), of p]) (use h(1) in \<open>simp_all add: p_ok_def pt nth_append\<close>)
  moreover have "c_ok ?q' c" for c using c_ok_later [OF l, of c] i by simp
  ultimately show ?thesis using i unfolding q' by (simp add: queue_inv_def)
qed

lemma draw_c:
  assumes "queue_inv q" and "q_cpc q c = CStored" and "c < q_num_consumers q" and "q_tail q + 1 < 2 ^ 64"
  shows "queue_inv (Get_step c q)"
proof -
  note i = assms(1) [unfolded queue_inv_def]
  let ?q' = "q\<lparr>q_tail := Suc (q_tail q), q_cpc := (q_cpc q)(c := CTicket (q_tail q))\<rparr>"
  have q': "Get_step c q = ?q'" using assms(2,4) by (simp add: Get_step_def go_c_def size_add_def)
  have h: "q_client_tail q c \<le> q_tail q" using inv_c [OF assms(1), of c] assms(2) by (simp add: c_ok_def)
  have lt: "ct q j = Some t \<Longrightarrow> t < q_tail q \<and> j < q_num_consumers q \<and> q_client_tail q j \<le> t" for j t using i unfolding tickets_ok_def by blast
  have ct: "ct ?q' j = (if j = c then Some (q_tail q) else ct q j)" for j by (simp add: ct_def)
  have cc: "ct q c = None" using assms(2) by (simp add: ct_def)
  have pt: "pt ?q' = pt q" by simp
  have pd: "pdone ?q' = pdone q" by (simp add: pdone_def fun_eq_iff)
  have cd: "cdone ?q' t \<longleftrightarrow> cdone q t" for t unfolding cdone_def ct using draw_done [of "ct q" c t "q_tail q", OF cc] by simp
  have w: "written ?q' = written q" by (simp add: written_def fun_eq_iff)
  have l: "later q ?q'" using cc by (auto simp: later_def shape_def cd pd ct pt)
  have "tickets_ok ?q'" using i lt h assms(3) unfolding tickets_ok_def ct pt by (auto simp: less_SucI)
  moreover have "passed_ok ?q'" using i by (simp add: passed_ok_def cd pd)
  moreover have "slots_ok ?q'" using i by (auto simp: slots_ok_def w cd slot_def)
  moreover have "got_ok ?q'" using i by (simp add: got_ok_def cd)
  moreover have "c_ok ?q' j" for j
    by (rule all_c [OF l assms(1), of c]) (simp_all add: c_ok_def)
  moreover have "p_ok ?q' p" for p using p_ok_later [OF l, of p] i by simp
  ultimately show ?thesis using i unfolding q' by (simp add: queue_inv_def)
qed

section \<open>Writing and finishing\<close>

lemma slot_mod: "q_size q = 2 ^ k \<Longrightarrow> slot q t = t mod q_size q"
  using take_bit_eq_mask [of k t] by (simp add: slot_def take_bit_eq_mod mask_eq_exp_minus_1)

lemma slot_apart:
  assumes "q_size q = 2 ^ k" and "slot q t = slot q h" and "t < h"
  shows "t + q_size q \<le> h"
proof -
  have "(h - t) mod q_size q = 0" using assms mod_eq_dvd_iff_nat [of t h "q_size q"] by (simp add: slot_mod [OF assms(1)])
  then have "q_size q \<le> h - t" using assms(3) by (intro dvd_imp_le) (auto simp: dvd_eq_mod_eq_0)
  then show ?thesis using assms(3) by simp
qed

lemma write_p:
  assumes "queue_inv q" and "q_ppc q p = PWrite v"
  shows "queue_inv (Put_step p u q)"
proof -
  note i = assms(1) [unfolded queue_inv_def]
  define h where "h = q_client_head q p"
  let ?q' = "q\<lparr>q_data := (q_data q)(slot q h := Some v), q_ppc := (q_ppc q)(p := PClear)\<rparr>"
  have q': "Put_step p u q = ?q'" using assms(2) by (simp add: Put_step_def go_p_def h_def)
  obtain k where k: "q_size q = 2 ^ k" using i by blast
  have pp: "pt q p = Some h" using assms(2) by (simp add: pt_def h_def)
  have tk: "tickets_ok q" "slots_ok q" "passed_ok q" using i by blast+
  have hh: "h < q_head q" using tk(1) pp by (auto simp: tickets_ok_def)
  have hold: "pt q j = Some h \<Longrightarrow> j = p" for j using tk(1) pp by (auto simp: tickets_ok_def)
  have know: "v = q_puts q ! h" "\<And>t. t + q_size q \<le> h \<Longrightarrow> cdone q t" using inv_p [OF assms(1), of p] assms(2) pp by (simp_all add: p_ok_def h_def)
  have pt: "pt ?q' = pt q" using assms(2) by (auto simp: pt_def fun_eq_iff)
  have ct: "ct ?q' = ct q" by simp
  note d = same_tickets [OF pt ct, simplified] and l = same_later [OF pt ct, simplified shape_def, simplified]
  have w: "written ?q' t \<longleftrightarrow> written q t \<or> t = h" for t
  proof (cases "t = h")
    case True
    then show ?thesis using hh hold by (auto simp: written_def pt)
  next
    case False
    then have "pt q p \<noteq> Some t" using pp by simp
    then show ?thesis using False by (auto simp: written_def pt)
  qed
  have "\<not> pdone q h" using pp by (auto simp: pdone_def)
  then have nh: "\<not> cdone q h" using tk(3) by (auto simp: passed_ok_def)
  have apart: "slot q t \<noteq> slot q h" if "written q t" "\<not> cdone q t" "t \<noteq> h" for t
  proof
    assume e: "slot q t = slot q h"
    show False
    proof (cases "t < h")
      case True
      then show ?thesis using slot_apart [OF k e] know(2) that(2) by blast
    next
      case False
      then have "h + q_size q \<le> t" using slot_apart [OF k e [symmetric]] that(3) by simp
      then show ?thesis using tk(2) that(1) nh by (auto simp: slots_ok_def)
    qed
  qed
  have "slots_ok ?q'" using tk(2) know apart unfolding slots_ok_def w d by (auto simp: slot_def)
  moreover have "tickets_ok ?q'" using tk(1) unfolding tickets_ok_def pt ct by auto
  moreover have "passed_ok ?q'" using tk(3) by (simp add: passed_ok_def d)
  moreover have "got_ok ?q'" using i by (simp add: got_ok_def d)
  moreover have "p_ok ?q' j" for j
    by (rule all_p [OF l assms(1), of p]) (simp_all add: p_ok_def)
  moreover have "c_ok ?q' c" for c using c_ok_later [OF l inv_c [OF assms(1)], of c] by simp
  ultimately show ?thesis using i unfolding q' by (simp add: queue_inv_def)
qed

lemma finish_p:
  assumes "queue_inv q" and "q_ppc q p = PClear"
  shows "queue_inv (Put_step p u q)"
proof -
  note i = assms(1) [unfolded queue_inv_def]
  let ?h = "q_client_head q p" and ?q' = "q\<lparr>q_client_head := (q_client_head q)(p := ULONG_MAX), q_ppc := (q_ppc q)(p := PIdle)\<rparr>"
  have q': "Put_step p u q = ?q'" using assms(2) by (simp add: Put_step_def go_p_def)
  have pp: "pt q p = Some ?h" using assms(2) by (simp add: pt_def)
  have tk: "tickets_ok q" "slots_ok q" "passed_ok q" using i by blast+
  have hh: "?h < q_head q" and hold: "\<And>j. pt q j = Some ?h \<Longrightarrow> j = p" using tk(1) pp unfolding tickets_ok_def by blast+
  have pt: "pt ?q' j = (if j = p then None else pt q j)" for j by (simp add: pt_def)
  have ct: "ct ?q' = ct q" by simp
  have cd: "cdone ?q' = cdone q" by (simp add: cdone_def fun_eq_iff)
  have pd: "pdone ?q' t \<longleftrightarrow> pdone q t \<or> t = ?h" for t unfolding pdone_def pt using finish_done [of "pt q" p ?h "q_head q" t, OF pp hh hold] by simp
  have w: "written ?q' t \<longleftrightarrow> written q t" for t using assms(2) by (auto simp: written_def pt)
  have l: "later q ?q'" using pp by (auto simp: later_def shape_def cd pd pt ct)
  have "tickets_ok ?q'" using tk(1) unfolding tickets_ok_def pt ct by auto
  moreover have "passed_ok ?q'" using tk(3) by (auto simp: passed_ok_def cd pd)
  moreover have "slots_ok ?q'" using tk(2) by (simp add: slots_ok_def w cd slot_def)
  moreover have "got_ok ?q'" using i by (simp add: got_ok_def cd)
  moreover have "p_ok ?q' j" for j
    by (rule all_p [OF l assms(1), of p]) (simp_all add: p_ok_def)
  moreover have "c_ok ?q' c" for c using c_ok_later [OF l inv_c [OF assms(1)], of c] by simp
  ultimately show ?thesis using i unfolding q' by (simp add: queue_inv_def)
qed

lemma finish_c:
  assumes "queue_inv q" and "q_cpc q c = CClear x"
  shows "queue_inv (Get_step c q)"
proof -
  note i = assms(1) [unfolded queue_inv_def]
  define h where "h = q_client_tail q c"
  let ?q' = "q\<lparr>q_client_tail := (q_client_tail q)(c := ULONG_MAX), q_got := q_got q @ [(h, x)], q_cpc := (q_cpc q)(c := CIdle)\<rparr>"
  have q': "Get_step c q = ?q'" using assms(2) by (simp add: Get_step_def go_c_def h_def)
  have cc: "ct q c = Some h" using assms(2) by (simp add: ct_def h_def)
  have tk: "tickets_ok q" "slots_ok q" "passed_ok q" "got_ok q" using i by blast+
  have hh: "h < q_tail q" and hold: "\<And>j. ct q j = Some h \<Longrightarrow> j = c" using tk(1) cc unfolding tickets_ok_def by blast+
  have know: "pdone q h" "x = Some (q_puts q ! h)" using inv_c [OF assms(1), of c] assms(2) by (simp_all add: c_ok_def h_def)
  have nh: "\<not> cdone q h" using cc by (auto simp: cdone_def)
  have ct: "ct ?q' j = (if j = c then None else ct q j)" for j by (simp add: ct_def)
  have pt: "pt ?q' = pt q" by simp
  have pd: "pdone ?q' = pdone q" by (simp add: pdone_def fun_eq_iff)
  have cd: "cdone ?q' t \<longleftrightarrow> cdone q t \<or> t = h" for t unfolding cdone_def ct using finish_done [of "ct q" c h "q_tail q" t, OF cc hh hold] by simp
  have w: "written ?q' = written q" by (simp add: written_def fun_eq_iff)
  have l: "later q ?q'" using cc by (auto simp: later_def shape_def cd pd pt ct)
  have "tickets_ok ?q'" using tk(1) unfolding tickets_ok_def pt ct by auto
  moreover have "passed_ok ?q'" using tk(3) know(1) by (auto simp: passed_ok_def cd pd)
  moreover have "slots_ok ?q'" using tk(2) by (auto simp: slots_ok_def w cd slot_def)
  moreover have "got_ok ?q'" using tk(4) know(2) nh unfolding got_ok_def cd by auto
  moreover have "c_ok ?q' j" for j
    by (rule all_c [OF l assms(1), of c]) (simp_all add: c_ok_def)
  moreover have "p_ok ?q' p" for p using p_ok_later [OF l tk(1) inv_p [OF assms(1)], of p] by simp
  ultimately show ?thesis using i unfolding q' by (simp add: queue_inv_def)
qed

section \<open>All steps\<close>

lemma scan_tail_start: "scan_tail q 0 (q_tail q)"
  by (auto simp: scan_tail_def cdone_def)

lemma scan_tail_next:
  assumes "scan_tail q i m" and "tickets_ok q"
  shows "scan_tail q (Suc i) (min m (q_client_tail q i))"
proof -
  have "cdone q t \<or> (\<exists>c \<ge> Suc i. ct q c = Some t)" if t: "t < min m (q_client_tail q i)" for t
  proof -
    have "cdone q t \<or> (\<exists>c \<ge> i. ct q c = Some t)" using assms(1) t by (simp add: scan_tail_def)
    moreover have "ct q i \<noteq> Some t" using assms(2) t unfolding tickets_ok_def by (metis min_less_iff_conj not_le)
    ultimately show ?thesis by (metis Suc_leI le_neq_implies_less)
  qed
  then show ?thesis using assms(1) by (auto simp: scan_tail_def)
qed

lemma scan_tail_end: "scan_tail q i m \<Longrightarrow> tickets_ok q \<Longrightarrow> \<not> i < q_num_consumers q \<Longrightarrow> t < m \<Longrightarrow> cdone q t"
  unfolding scan_tail_def tickets_ok_def by (meson le_less_trans)

lemma scan_head_start: "scan_head q 0 (q_head q)"
  by (auto simp: scan_head_def pdone_def)

lemma scan_head_next:
  assumes "scan_head q i m" and "tickets_ok q"
  shows "scan_head q (Suc i) (min m (q_client_head q i))"
proof -
  have "pdone q t \<or> (\<exists>p \<ge> Suc i. pt q p = Some t)" if t: "t < min m (q_client_head q i)" for t
  proof -
    have "pdone q t \<or> (\<exists>p \<ge> i. pt q p = Some t)" using assms(1) t by (simp add: scan_head_def)
    moreover have "pt q i \<noteq> Some t" using assms(2) t unfolding tickets_ok_def by (metis min_less_iff_conj not_le)
    ultimately show ?thesis by (metis Suc_leI le_neq_implies_less)
  qed
  then show ?thesis using assms(1) by (auto simp: scan_head_def)
qed

lemma scan_head_end: "scan_head q i m \<Longrightarrow> tickets_ok q \<Longrightarrow> \<not> i < q_num_producers q \<Longrightarrow> t < m \<Longrightarrow> pdone q t"
  unfolding scan_head_def tickets_ok_def by (meson le_less_trans)

lemma done_simps [simp]:
  "cdone (q\<lparr>q_ppc := x, q_client_head := y, q_last_tail := n\<rparr>) = cdone q" "pdone (q\<lparr>q_cpc := z, q_client_tail := y, q_last_head := n\<rparr>) = pdone q"
  "scan_tail (q\<lparr>q_ppc := x, q_client_head := y, q_last_tail := n\<rparr>) i m = scan_tail q i m"
  "scan_head (q\<lparr>q_cpc := z, q_client_tail := y, q_last_head := n\<rparr>) i m = scan_head q i m"
  by (simp_all add: cdone_def pdone_def scan_tail_def scan_head_def fun_eq_iff)

text \<open>The steps of a producer that draw, write or give back nothing.\<close>

lemma move_p:
  assumes "queue_inv q" and "Put_step p u q = q\<lparr>q_ppc := (q_ppc q)(p := pc), q_client_head := (q_client_head q)(p := h), q_last_tail := lt\<rparr>"
    and "pticket pc h = pt q p" and "q_ppc q p = PClear \<longleftrightarrow> pc = PClear" and "\<And>t. pt q p = Some t \<Longrightarrow> h \<le> t" and "\<And>t. t < lt \<Longrightarrow> cdone q t"
    and "pvalue pc = None \<or> pvalue pc = pvalue (q_ppc q p)"
    and "case pc of PLoaded v r \<Rightarrow> r \<le> q_head q | PStored v \<Rightarrow> h \<le> q_head q | PScan v i m \<Rightarrow> scan_tail q i m | PPublish v m \<Rightarrow> \<forall>t < m. cdone q t
      | PWrite v \<Rightarrow> \<forall>t. t + q_size q \<le> h \<longrightarrow> cdone q t | _ \<Rightarrow> True"
  shows "queue_inv (Put_step p u q)"
proof (rule p_frame [OF assms(1,2)])
  let ?q' = "q\<lparr>q_ppc := (q_ppc q)(p := pc), q_client_head := (q_client_head q)(p := h), q_last_tail := lt\<rparr>"
  show pt: "pt (Put_step p u q) p = pt q p" unfolding assms(2) using assms(3) by (simp add: pt_def)
  show "p_ok (Put_step p u q) p" unfolding assms(2)
    using inv_p [OF assms(1), of p] assms(7,8) pt [unfolded assms(2)] by (cases pc) (auto simp: p_ok_def)
qed (use assms in auto)

lemma passed_write:
  assumes "queue_inv q" and "h < size_add (q_last_tail q) (q_size q)" and "q_tail q + q_size q < 2 ^ 64" and "t + q_size q \<le> h"
  shows "cdone q t"
proof -
  have c: "\<forall>t < q_last_tail q. cdone q t" using assms(1) by (simp add: queue_inv_def passed_ok_def)
  have "q_last_tail q \<le> q_tail q" using c by (metis cdone_def leI less_irrefl)
  then have "h < q_last_tail q + q_size q" using assms(2,3) by (simp add: size_add_def)
  then show ?thesis using c assms(4) by simp
qed

lemma check_p:
  assumes "queue_inv q" and "q_tail q + q_size q < 2 ^ 64" and "q_ppc q p = PCheck v \<or> q_ppc q p = PRecheck v"
  shows "queue_inv (Put_step p u q)"
proof -
  have lt: "\<And>t. t < q_last_tail q \<Longrightarrow> cdone q t" using assms(1) by (simp add: queue_inv_def passed_ok_def)
  note same = move_p [OF assms(1), where h = "q_client_head q p" and lt = "q_last_tail q"] and step = Put_step_def go_p_def
  show ?thesis
  proof (cases "q_client_head q p < size_add (q_last_tail q) (q_size q)")
    case True
    from passed_write [OF assms(1) True assms(2)] show ?thesis
      by - (rule same [where pc = "PWrite v"], use assms(3) True lt in \<open>auto simp: step pt_def\<close>)
  next
    case False
    show ?thesis
      by (rule same [where pc = "if q_ppc q p = PCheck v then PTail v else PCheck v"]) (use assms(3) False lt in \<open>auto simp: step pt_def\<close>)
  qed
qed

lemma scan_p:
  assumes "queue_inv q" and "q_ppc q p = PScan v i m"
  shows "queue_inv (Put_step p u q)"
proof -
  have tk: "tickets_ok q" and lt: "\<And>t. t < q_last_tail q \<Longrightarrow> cdone q t" using assms(1) by (simp_all add: queue_inv_def passed_ok_def)
  have sc: "scan_tail q i m" using inv_p [OF assms(1), of p] assms(2) by (simp add: p_ok_def)
  note same = move_p [OF assms(1), where h = "q_client_head q p" and lt = "q_last_tail q"] and step = Put_step_def go_p_def
  show ?thesis
  proof (cases "i < q_num_consumers q")
    case True
    show ?thesis by (rule same [where pc = "PScan v (Suc i) (min m (q_client_tail q i))"]) (use assms(2) True lt scan_tail_next [OF sc tk] in \<open>simp_all add: step pt_def\<close>)
  next
    case False
    show ?thesis by (rule same [where pc = "PPublish v m"]) (use assms(2) False lt scan_tail_end [OF sc tk False] in \<open>simp_all add: step pt_def\<close>)
  qed
qed

lemma Put_inv:
  assumes "queue_inv q" and "p < q_num_producers q" and "q_head q + 1 < 2 ^ 64" and "q_tail q + q_size q < 2 ^ 64"
  shows "queue_inv (Put_step p u q)"
proof -
  have lt: "\<And>t. t < q_last_tail q \<Longrightarrow> cdone q t" using assms(1) by (simp add: queue_inv_def passed_ok_def)
  note ok = inv_p [OF assms(1), of p, unfolded p_ok_def] and step = Put_step_def go_p_def
  note same = move_p [OF assms(1), where h = "q_client_head q p" and lt = "q_last_tail q"]
  show ?thesis
  proof (cases "q_ppc q p")
    case PIdle
    show ?thesis by (rule same [where pc = "PLoaded u (q_head q)"]) (use PIdle lt in \<open>simp_all add: step pt_def\<close>)
  next
    case (PLoaded v r)
    show ?thesis by (rule move_p [OF assms(1), where pc = "PStored v" and h = r and lt = "q_last_tail q"]) (use PLoaded lt ok in \<open>simp_all add: step pt_def\<close>)
  next
    case (PStored v)
    then show ?thesis using draw_p [OF assms(1) _ assms(2,3)] by blast
  next
    case (PTicket v r)
    show ?thesis by (rule move_p [OF assms(1), where pc = "PCheck v" and h = r and lt = "q_last_tail q"]) (use PTicket lt in \<open>simp_all add: step pt_def\<close>)
  next
    case (PCheck v)
    then show ?thesis using check_p [OF assms(1,4)] by blast
  next
    case (PTail v)
    show ?thesis by (rule same [where pc = "PScan v 0 (q_tail q)"]) (use PTail lt scan_tail_start in \<open>simp_all add: step pt_def\<close>)
  next
    case (PScan v i m)
    then show ?thesis using scan_p [OF assms(1)] by blast
  next
    case (PPublish v m)
    show ?thesis by (rule move_p [OF assms(1), where pc = "PRecheck v" and h = "q_client_head q p" and lt = m]) (use PPublish ok in \<open>simp_all add: step pt_def\<close>)
  next
    case (PRecheck v)
    then show ?thesis using check_p [OF assms(1,4)] by blast
  next
    case (PWrite v)
    then show ?thesis using write_p [OF assms(1)] by blast
  next
    case PClear
    then show ?thesis using finish_p [OF assms(1)] by blast
  qed
qed

lemma move_c:
  assumes "queue_inv q" and "Get_step c q = q\<lparr>q_cpc := (q_cpc q)(c := pc), q_client_tail := (q_client_tail q)(c := h), q_last_head := lh\<rparr>"
    and "cticket pc h = ct q c" and "\<And>t. ct q c = Some t \<Longrightarrow> h \<le> t" and "\<And>t. t < lh \<Longrightarrow> pdone q t"
    and "case pc of CLoaded r \<Rightarrow> r \<le> q_tail q | CStored \<Rightarrow> h \<le> q_tail q | CScan i m \<Rightarrow> scan_head q i m | CPublish m \<Rightarrow> \<forall>t < m. pdone q t
      | CRead \<Rightarrow> pdone q h | CClear x \<Rightarrow> pdone q h \<and> x = Some (q_puts q ! h) | _ \<Rightarrow> True"
  shows "queue_inv (Get_step c q)"
proof (rule c_frame [OF assms(1,2)])
  show "ct (Get_step c q) c = ct q c" unfolding assms(2) using assms(3) by (simp add: ct_def)
  show "c_ok (Get_step c q) c" unfolding assms(2) using assms(6) by (cases pc) (auto simp: c_ok_def)
qed (use assms in auto)

lemma scan_c:
  assumes "queue_inv q" and "q_cpc q c = CScan i m"
  shows "queue_inv (Get_step c q)"
proof -
  have tk: "tickets_ok q" and lh: "\<And>t. t < q_last_head q \<Longrightarrow> pdone q t" using assms(1) by (simp_all add: queue_inv_def passed_ok_def)
  have sc: "scan_head q i m" using inv_c [OF assms(1), of c] assms(2) by (simp add: c_ok_def)
  note same = move_c [OF assms(1), where h = "q_client_tail q c" and lh = "q_last_head q"] and step = Get_step_def go_c_def
  show ?thesis
  proof (cases "i < q_num_producers q")
    case True
    show ?thesis by (rule same [where pc = "CScan (Suc i) (min m (q_client_head q i))"]) (use assms(2) True lh scan_head_next [OF sc tk] in \<open>simp_all add: step ct_def\<close>)
  next
    case False
    show ?thesis by (rule same [where pc = "CPublish m"]) (use assms(2) False lh scan_head_end [OF sc tk False] in \<open>simp_all add: step ct_def\<close>)
  qed
qed

lemma read_c:
  assumes "queue_inv q" and "q_cpc q c = CRead"
  shows "queue_inv (Get_step c q)"
proof -
  let ?t = "q_client_tail q c"
  have sl: "slots_ok q" and lh: "\<And>t. t < q_last_head q \<Longrightarrow> pdone q t" using assms(1) by (simp_all add: queue_inv_def passed_ok_def)
  have p: "pdone q ?t" using inv_c [OF assms(1), of c] assms(2) by (simp add: c_ok_def)
  then have "written q ?t" by (auto simp: pdone_def written_def)
  moreover have "\<not> cdone q ?t" using assms(2) by (auto simp: cdone_def ct_def intro: exI [of _ c])
  ultimately have "q_data q (slot q ?t) = Some (q_puts q ! ?t)" using sl by (simp add: slots_ok_def)
  then show ?thesis
    by - (rule move_c [OF assms(1), where h = ?t and lh = "q_last_head q" and pc = "CClear (q_data q (slot q ?t))"],
        use assms(2) lh p in \<open>simp_all add: Get_step_def go_c_def ct_def\<close>)
qed

lemma Get_inv:
  assumes "queue_inv q" and "c < q_num_consumers q" and "q_tail q + 1 < 2 ^ 64"
  shows "queue_inv (Get_step c q)"
proof -
  have lh: "\<And>t. t < q_last_head q \<Longrightarrow> pdone q t" using assms(1) by (simp_all add: queue_inv_def passed_ok_def)
  note ok = inv_c [OF assms(1), of c, unfolded c_ok_def] and step = Get_step_def go_c_def
  note same = move_c [OF assms(1), where h = "q_client_tail q c" and lh = "q_last_head q"]
  show ?thesis
  proof (cases "q_cpc q c")
    case CIdle
    show ?thesis by (rule same [where pc = "CLoaded (q_tail q)"]) (use CIdle lh in \<open>simp_all add: step ct_def\<close>)
  next
    case (CLoaded r)
    show ?thesis by (rule move_c [OF assms(1), where pc = CStored and h = r and lh = "q_last_head q"]) (use CLoaded lh ok in \<open>simp_all add: step ct_def\<close>)
  next
    case CStored
    then show ?thesis using draw_c [OF assms(1) _ assms(2,3)] by blast
  next
    case (CTicket r)
    show ?thesis by (rule move_c [OF assms(1), where pc = CCheck and h = r and lh = "q_last_head q"]) (use CTicket lh in \<open>simp_all add: step ct_def\<close>)
  next
    case CCheck
    show ?thesis
      by (rule same [where pc = "if q_client_tail q c \<ge> q_last_head q then CHead else CRead"]) (use CCheck lh in \<open>simp_all add: step ct_def\<close>)
  next
    case CHead
    show ?thesis by (rule same [where pc = "CScan 0 (q_head q)"]) (use CHead lh scan_head_start in \<open>simp_all add: step ct_def\<close>)
  next
    case (CScan i m)
    then show ?thesis using scan_c [OF assms(1)] by blast
  next
    case (CPublish m)
    show ?thesis by (rule move_c [OF assms(1), where pc = CRecheck and h = "q_client_tail q c" and lh = m]) (use CPublish ok in \<open>simp_all add: step ct_def\<close>)
  next
    case CRecheck
    show ?thesis
      by (rule same [where pc = "if q_client_tail q c < q_last_head q then CRead else CCheck"]) (use CRecheck lh in \<open>simp_all add: step ct_def\<close>)
  next
    case CRead
    then show ?thesis using read_c [OF assms(1)] by blast
  next
    case (CClear x)
    then show ?thesis using finish_c [OF assms(1)] by blast
  qed
qed

text \<open>Each step draws at most one ticket.\<close>

lemma step_bounds:
  "q_head (queue_step e q) \<le> q_head q + 1" "q_tail (queue_step e q) \<le> q_tail q + 1" "shape (queue_step e q) = shape q"
proof -
  have s: "size_add x 1 \<le> Suc x" for x using mod_less_eq_dividend [of "x + 1"] by (simp add: size_add_def)
  have "q_head (Put_step p u q) \<le> q_head q + 1 \<and> q_tail (Put_step p u q) \<le> q_tail q + 1 \<and> shape (Put_step p u q) = shape q" for p u
    using s by (cases "q_ppc q p") (simp_all add: Put_step_def go_p_def shape_def)
  moreover have "q_head (Get_step c q) \<le> q_head q + 1 \<and> q_tail (Get_step c q) \<le> q_tail q + 1 \<and> shape (Get_step c q) = shape q" for c
    using s by (cases "q_cpc q c") (simp_all add: Get_step_def go_c_def shape_def)
  ultimately show "q_head (queue_step e q) \<le> q_head q + 1" "q_tail (queue_step e q) \<le> q_tail q + 1" "shape (queue_step e q) = shape q"
    by (cases e; simp)+
qed

lemma queue_run_inv:
  assumes "queue_inv q" and "q_head q \<le> n" and "q_tail q \<le> n" and "n + length es + q_size q < 2 ^ 64"
  shows "queue_inv (queue_run es q)"
  using assms
proof (induction es arbitrary: q n)
  case (Cons e es)
  have n1: "q_head q + 1 < 2 ^ 64" "q_tail q + 1 < 2 ^ 64" "q_tail q + q_size q < 2 ^ 64"
  proof -
    have "0 < q_size q" using Cons.prems(1) by (auto simp: queue_inv_def)
    then show "q_head q + 1 < 2 ^ 64" "q_tail q + 1 < 2 ^ 64" "q_tail q + q_size q < 2 ^ 64" using Cons.prems(2-4) by simp_all
  qed
  have i: "queue_inv (queue_step e q)"
    using Put_inv [OF Cons.prems(1) _ n1(1,3)] Get_inv [OF Cons.prems(1) _ n1(2)] Cons.prems(1) by (cases e) simp_all
  note b = step_bounds [of e q]
  have "n + 1 + length es + q_size (queue_step e q) < 2 ^ 64" using Cons.prems(4) b(3) by (simp add: shape_def)
  then have "queue_inv (queue_run es (queue_step e q))" using Cons.IH [OF i, of "n + 1"] b(1,2) Cons.prems(2,3) by simp
  then show ?case by (simp add: queue_run_def)
qed (simp add: queue_run_def)

lemma next_pow2_power: "\<exists>j. next_pow2 sz (2 ^ k) = 2 ^ j"
proof (induction "sz - 2 ^ k" arbitrary: k rule: less_induct)
  case less
  show ?case
  proof (cases "2 ^ k < sz")
    case True
    then have "sz - 2 ^ Suc k < sz - 2 ^ k" by (intro diff_less_mono2) simp_all
    from less [OF this] show ?thesis using True next_pow2.simps [of sz "2 ^ k"] by simp
  next
    case False
    then show ?thesis using next_pow2.simps [of sz "2 ^ k"] by auto
  qed
qed

lemma Queue_new_inv:
  assumes "Queue_new sz np nc = Some q"
  shows "queue_inv q \<and> q_head q = 0 \<and> q_tail q = 0"
proof -
  obtain k where "next_pow2 sz 1 = 2 ^ k" using next_pow2_power [of sz 0] by auto
  then show ?thesis using assms
    by (auto simp: Queue_new_def NextPow2_def queue_inv_def tickets_ok_def passed_ok_def slots_ok_def got_ok_def p_ok_def c_ok_def pt_def ct_def pdone_def cdone_def
        written_def split: if_splits)
qed

lemma got_all:
  assumes "queue_inv q" and "q_tail q = q_head q" and "\<forall>c. q_cpc q c = CIdle"
  shows "mset (map snd (q_got q)) = mset (map Some (q_puts q))"
proof -
  have g: "got_ok q" "q_head q = length (q_puts q)" using assms(1) by (simp_all add: queue_inv_def tickets_ok_def)
  have "{t. cdone q t} = {..<length (q_puts q)}" using assms(2,3) g(2) by (auto simp: cdone_def ct_def)
  then have "set (map fst (q_got q)) = set [0..<length (q_puts q)]" "distinct (map fst (q_got q))" using g(1) by (auto simp: got_ok_def)
  then have m: "mset (map fst (q_got q)) = mset [0..<length (q_puts q)]" by (simp only: set_eq_iff_mset_eq_distinct distinct_upt)
  have "map snd (q_got q) = map (\<lambda>t. Some (q_puts q ! t)) (map fst (q_got q))" using g(1) by (auto simp: got_ok_def)
  then have "mset (map snd (q_got q)) = image_mset (\<lambda>t. Some (q_puts q ! t)) (mset [0..<length (q_puts q)])" by (metis m mset_map)
  also have "\<dots> = mset (map Some (map ((!) (q_puts q)) [0..<length (q_puts q)]))" by (simp only: mset_map image_mset.compositionality comp_def)
  finally show ?thesis by (simp only: map_nth)
qed

text \<open>C5 (safety): the queue is first in, first out under every interleaving. Whatever the threads do, with any number
  of producers and consumers, a call of \<open>Get\<close> that draws the ticket \<open>t\<close> returns the value of the \<open>Put\<close> that drew the ticket
  \<open>t\<close>: it is never empty, torn or overwritten, and no value is returned twice. When as many \<open>Get\<close> as \<open>Put\<close> were called and all
  consumers are done, all values were returned. The hypothesis says that the counters of the queue do not wrap around.\<close>

theorem lock_free_queue_fifo:
  assumes "Queue_new sz np nc = Some q" and "length es + q_size q < 2 ^ 64" and "q' = queue_run es q"
  shows "distinct (map fst (q_got q')) \<and> (\<forall>(t, x) \<in> set (q_got q'). t < length (q_puts q') \<and> x = Some (q_puts q' ! t)) \<and>
    (q_tail q' = q_head q' \<and> (\<forall>c. q_cpc q' c = CIdle) \<longrightarrow> mset (map snd (q_got q')) = mset (map Some (q_puts q')))"
proof -
  have i: "queue_inv q'" using queue_run_inv [of q 0 es] Queue_new_inv [OF assms(1)] assms(2,3) by simp
  then have g: "got_ok q'" "passed_ok q'" "q_head q' = length (q_puts q')" by (simp_all add: queue_inv_def tickets_ok_def)
  have "t < length (q_puts q')" if "(t, x) \<in> set (q_got q')" for t x
  proof -
    have "t \<in> set (map fst (q_got q'))" using that by force
    then have "cdone q' t" using g(1) by (simp add: got_ok_def)
    then show ?thesis using g(2,3) by (simp add: passed_ok_def pdone_def)
  qed
  then show ?thesis using g(1) got_all [OF i] by (auto simp: got_ok_def)
qed

text \<open>A ring of one slot: a value is put, a second \<open>Put\<close> waits for the reader, a \<open>Get\<close> returns the first value.\<close>

definition sample_run :: "nat QEvent list" where
  "sample_run =
     (let a = Producer 0 5; b = Producer 1 6; c = Consumer 0 in
      [a, a, a, a, a, a, a, b, b, b, b, b, b, c, c, c, c, c, c, c, c, c, c, c, c, c])"

theorem lock_free_queue_fifo_witness:
  "\<exists>q q'. Queue_new 1 2 1 = Some q \<and> q' = queue_run sample_run q \<and>
     q_puts q' = [5, 6] \<and> q_ppc q' 1 = PScan 6 0 0 \<and> map snd (q_got q') = [Some 5] \<and> distinct (map fst (q_got q'))"
proof -
  have n: "next_pow2 (Suc 0) (Suc 0) = Suc 0" by (simp add: next_pow2.simps)
  obtain q where q: "Queue_new 1 2 1 = Some (q :: nat Queue)" "q = \<lparr>q_num_producers = 2, q_num_consumers = 1, q_size = 1, q_head = 0, q_tail = 0,
      q_last_head = 0, q_last_tail = 0, q_client_head = (\<lambda>_. ULONG_MAX), q_client_tail = (\<lambda>_. ULONG_MAX),
      q_data = (\<lambda>_. None), q_ppc = (\<lambda>_. PIdle), q_cpc = (\<lambda>_. CIdle), q_puts = [], q_got = []\<rparr>"
    by (simp add: Queue_new_def NextPow2_def n)
  have "q_puts (queue_run sample_run q) = [5, 6] \<and> q_ppc (queue_run sample_run q) 1 = PScan 6 0 0 \<and> map snd (q_got (queue_run sample_run q)) = [Some 5]"
    by (simp add: q(2) queue_run_def sample_run_def Let_def Put_step_def Get_step_def go_p_def go_c_def size_add_def slot_def ULONG_MAX_def)
  moreover have len: "length sample_run + q_size q < 2 ^ 64" by (simp add: q(2) sample_run_def Let_def)
  ultimately show ?thesis
    using q(1) conjunct1 [OF lock_free_queue_fifo [OF q(1) len refl]] by (intro exI [of _ q] exI [of _ "queue_run sample_run q"]) simp
qed

end
