(* ===== verification/Base64.thy ===== *)
theory Base64
  imports Prelude
begin

unbundle bit_operations_syntax

text \<open>
  Model of \<open>src/whisperlib/io/util/base64.h\<close> and \<open>base64.cc\<close>: the incremental encoder and
  decoder with their states, writing to caller-supplied buffers. A buffer is a list of
  bytes; a write behind its end is the result \<open>None\<close>. A \<open>char\<close> is a signed byte, an
  \<open>8 word\<close> read with \<open>sint\<close>; the bit operations of the code stay below 256, so that the
  promotion to \<open>int\<close> does not show. The counter of groups is an unbounded integer.
\<close>

section \<open>Encoder\<close>

datatype EncodeStep = ENC_STEP_A | ENC_STEP_B | ENC_STEP_C

record EncodeState =
  es_step :: EncodeStep
  es_result :: byte
  es_stepcount :: int

definition InitEncodeState :: EncodeState where
  "InitEncodeState = \<lparr>es_step = ENC_STEP_A, es_result = 0, es_stepcount = 0\<rparr>"

text \<open>The string literal with its terminating zero, which \<open>sizeof\<close> counts.\<close>

definition kEncoding :: bytes where
  "kEncoding = map of_nat ([65..<91] @ [97..<123] @ [48..<58] @ [43, 47, 0])"

definition EncodeValue :: "byte \<Rightarrow> byte" where
  "EncodeValue value_in =
     (if sint value_in < 0 \<or> sint value_in \<ge> int (length kEncoding) then 61 else kEncoding ! unat value_in)"

definition kCharsPerLine :: int where
  "kCharsPerLine = 72"

text \<open>\<open>*codechar++ = c\<close> with the buffer and the index of \<open>codechar\<close>.\<close>

definition put_char :: "bytes \<Rightarrow> nat \<Rightarrow> byte \<Rightarrow> bytes option" where
  "put_char buf i c = (if i < length buf then Some (buf[i := c]) else None)"

definition newline :: byte where
  "newline = 10"

text \<open>
  The loop of \<open>EncodeBlock\<close>: the \<open>switch\<close> enters it at the step of the state and falls through
  from one step to the next.
\<close>

fun encode_loop ::
    "int \<Rightarrow> EncodeStep \<Rightarrow> byte \<Rightarrow> int \<Rightarrow> bytes \<Rightarrow> bytes \<Rightarrow> nat \<Rightarrow> (nat \<times> bytes \<times> EncodeState) option" where
  "encode_loop chars_per_line step result stepcount [] buf i =
     Some (i, buf, \<lparr>es_step = step, es_result = result, es_stepcount = stepcount\<rparr>)"
| "encode_loop chars_per_line ENC_STEP_A result stepcount (fragment # plain) buf i =
     Option.bind (put_char buf i (EncodeValue (drop_bit 2 (fragment AND 0xfc)))) (\<lambda>buf1.
       encode_loop chars_per_line ENC_STEP_B (push_bit 4 (fragment AND 0x03)) stepcount plain buf1 (i + 1))"
| "encode_loop chars_per_line ENC_STEP_B result stepcount (fragment # plain) buf i =
     Option.bind (put_char buf i (EncodeValue (result OR drop_bit 4 (fragment AND 0xf0)))) (\<lambda>buf1.
       encode_loop chars_per_line ENC_STEP_C (push_bit 2 (fragment AND 0x0f)) stepcount plain buf1 (i + 1))"
| "encode_loop chars_per_line ENC_STEP_C result stepcount (fragment # plain) buf i =
     Option.bind (put_char buf i (EncodeValue (result OR drop_bit 6 (fragment AND 0xc0)))) (\<lambda>buf1.
     Option.bind (put_char buf1 (i + 1) (EncodeValue (fragment AND 0x3f))) (\<lambda>buf2.
       if chars_per_line > 0 \<and> stepcount + 1 = chars_per_line div 4
       then Option.bind (put_char buf2 (i + 2) newline) (\<lambda>buf3.
              encode_loop chars_per_line ENC_STEP_A (fragment AND 0x3f) 0 plain buf3 (i + 3))
       else encode_loop chars_per_line ENC_STEP_A (fragment AND 0x3f) (stepcount + 1) plain buf2 (i + 2)))"

text \<open>The number of characters written, the buffer and the state; the buffer starts at \<open>code_out\<close>.\<close>

definition EncodeBlock ::
    "bytes \<Rightarrow> bytes \<Rightarrow> EncodeState \<Rightarrow> int \<Rightarrow> (nat \<times> bytes \<times> EncodeState) option" where
  "EncodeBlock plaintext_in code_out state_in chars_per_line =
     encode_loop chars_per_line (es_step state_in) (es_result state_in) (es_stepcount state_in) plaintext_in code_out 0"

definition EncodeBlockEnd :: "bytes \<Rightarrow> EncodeState \<Rightarrow> (nat \<times> bytes) option" where
  "EncodeBlockEnd code_out state_in =
     (case es_step state_in of
        ENC_STEP_B \<Rightarrow>
          Option.bind (put_char code_out 0 (EncodeValue (es_result state_in))) (\<lambda>b1.
          Option.bind (put_char b1 1 61) (\<lambda>b2.
          Option.bind (put_char b2 2 61) (\<lambda>b3. Some (3, b3))))
      | ENC_STEP_C \<Rightarrow>
          Option.bind (put_char code_out 0 (EncodeValue (es_result state_in))) (\<lambda>b1.
          Option.bind (put_char b1 1 61) (\<lambda>b2. Some (2, b2)))
      | ENC_STEP_A \<Rightarrow> Some (0, code_out))"

text \<open>
  \<open>EncodeString\<close> (\<open>EncodeVector\<close> is the same): a fresh buffer of unspecified content \<open>junk\<close>, whose length
  is computed as an \<open>int32\<close> and passed on as the number of characters per line.
\<close>

definition EncodeString :: "(nat \<Rightarrow> bytes) \<Rightarrow> bytes \<Rightarrow> bytes option" where
  "EncodeString junk s =
     (let buflen = sint (2 * word_of_nat (length s) + 4 :: 32 word) in
      if buflen < 0 then None
      else
        Option.bind (EncodeBlock s (junk (nat buflen)) InitEncodeState buflen) (\<lambda>(len, buf, st).
        Option.bind (EncodeBlockEnd (drop len buf) st) (\<lambda>(len2, tl).
        Option.bind (put_char (take len buf @ tl) (len + len2) 0) (\<lambda>buf2.
          Some (take (len + len2) buf2)))))"

section \<open>Decoder\<close>

datatype DecodeStep = DEC_STEP_A | DEC_STEP_B | DEC_STEP_C | DEC_STEP_D

record DecodeState =
  ds_step :: DecodeStep
  ds_decchar :: byte

definition InitDecodeState :: DecodeState where
  "InitDecodeState = \<lparr>ds_step = DEC_STEP_A, ds_decchar = 0\<rparr>"

definition kDecoding :: "int list" where
  "kDecoding = [62, -1, -1, -1, 63] @ [52..61] @ [-1, -1, -1, -2, -1, -1, -1] @ [0..25] @
     [-1, -1, -1, -1, -1, -1] @ [26..51]"

definition DecodeValue :: "byte \<Rightarrow> int" where
  "DecodeValue value_in =
     (let v = value_in - 43 in
      if sint v < 0 \<or> sint v \<ge> int (length kDecoding) then -1 else kDecoding ! unat v)"

text \<open>
  \<open>DecodeBlock\<close> keeps the partly decoded byte in the buffer itself: \<open>decchar\<close> is an index, each
  \<open>|=\<close> reads and writes the byte there, and after a byte is complete the next one in the
  buffer is touched even when no input is left.
\<close>

definition get_char :: "bytes \<Rightarrow> nat \<Rightarrow> byte option" where
  "get_char buf i = (if i < length buf then Some (buf ! i) else None)"

definition or_char :: "bytes \<Rightarrow> nat \<Rightarrow> byte \<Rightarrow> bytes option" where
  "or_char buf i c = Option.bind (get_char buf i) (\<lambda>x. put_char buf i (x OR c))"

fun decode_loop :: "DecodeStep \<Rightarrow> bytes \<Rightarrow> bytes \<Rightarrow> nat \<Rightarrow> (nat \<times> bytes \<times> DecodeState) option" where
  "decode_loop step [] buf i =
     map_option (\<lambda>x. (i, buf, \<lparr>ds_step = step, ds_decchar = x\<rparr>)) (get_char buf i)"
| "decode_loop step (c # code) buf i =
     (let fragment = word_of_int (DecodeValue c) :: byte in
      if sint fragment < 0 then decode_loop step code buf i
      else
        (case step of
           DEC_STEP_A \<Rightarrow>
             Option.bind (put_char buf i (push_bit 2 (fragment AND 0x3f))) (\<lambda>buf1. decode_loop DEC_STEP_B code buf1 i)
         | DEC_STEP_B \<Rightarrow>
             Option.bind (or_char buf i (drop_bit 4 (fragment AND 0x30))) (\<lambda>buf1.
             Option.bind (put_char buf1 (i + 1) (push_bit 4 (fragment AND 0x0f))) (\<lambda>buf2. decode_loop DEC_STEP_C code buf2 (i + 1)))
         | DEC_STEP_C \<Rightarrow>
             Option.bind (or_char buf i (drop_bit 2 (fragment AND 0x3c))) (\<lambda>buf1.
             Option.bind (put_char buf1 (i + 1) (push_bit 6 (fragment AND 0x03))) (\<lambda>buf2. decode_loop DEC_STEP_D code buf2 (i + 1)))
         | DEC_STEP_D \<Rightarrow>
             Option.bind (or_char buf i (fragment AND 0x3f)) (\<lambda>buf1. decode_loop DEC_STEP_A code buf1 (i + 1))))"

definition DecodeBlock :: "bytes \<Rightarrow> bytes \<Rightarrow> DecodeState \<Rightarrow> (nat \<times> bytes \<times> DecodeState) option" where
  "DecodeBlock code_in decoded_out state_in =
     Option.bind (put_char decoded_out 0 (ds_decchar state_in)) (\<lambda>buf. decode_loop (ds_step state_in) code_in buf 0)"

end
