(* ===== verification/Base64Props.thy ===== *)
theory Base64Props
  imports Base64
begin

unbundle bit_operations_syntax

text \<open>
  Properties of the Base64 codec: the encoder computes the standard encoding (a reference
  definition by arithmetic on groups of three bytes) inside its buffer, and the decoder gives
  the plain text back whatever the two texts are cut into and whatever the line length is.
\<close>

section \<open>Digits\<close>

lemma sint_small: "c < 128 \<Longrightarrow> sint (word_of_nat c :: byte) = int c"
  by (simp add: sint_uint signed_take_bit_int_eq_self unsigned_of_nat take_bit_nat_eq_self)

lemma unat_small: "c < 256 \<Longrightarrow> unat (word_of_nat c :: byte) = c"
  by (simp add: unat_of_nat)

lemma length_kEncoding [simp]: "length kEncoding = 65"
  by (simp add: kEncoding_def del: upt_rec_numeral)

lemma length_kDecoding [simp]: "length kDecoding = 80"
  by (simp add: kDecoding_def del: upto_rec_numeral)

lemma kEncoding_nth:
  "v < 64 \<Longrightarrow> kEncoding ! v =
     word_of_nat (if v < 26 then 65 + v else if v < 52 then 71 + v else if v < 62 then v - 4 else if v = 62 then 43 else 47)"
  by (auto simp: kEncoding_def nth_append nth_Cons' simp del: upt_rec_numeral)

lemma kDecoding_nth:
  "i < 80 \<Longrightarrow> kDecoding ! i =
     (if i = 0 then 62 else if i < 4 then -1 else if i = 4 then 63 else if i < 15 then 47 + int i
      else if i = 18 then -2 else if i < 22 then -1 else if i < 48 then int i - 22 else if i < 54 then -1 else int i - 28)"
  by (auto simp: kDecoding_def nth_append nth_Cons' simp del: upto_rec_numeral)

lemma EncodeValue_eq: "v < 64 \<Longrightarrow> EncodeValue (word_of_nat v) = kEncoding ! v"
  by (simp add: EncodeValue_def sint_small unat_small)

lemma DecodeValue_eq: "43 \<le> c \<Longrightarrow> c < 123 \<Longrightarrow> DecodeValue (word_of_nat c) = kDecoding ! (c - 43)"
proof -
  assume c: "43 \<le> c" "c < 123"
  have "word_of_nat c - 43 = (word_of_nat (c - 43) :: byte)" using c by (simp add: of_nat_diff)
  then show ?thesis using c sint_small [of "c - 43"] unat_small [of "c - 43"] by (simp only: DecodeValue_def Let_def) simp
qed

lemma Decode_Encode: "v < 64 \<Longrightarrow> DecodeValue (EncodeValue (word_of_nat v)) = int v"
proof -
  assume v: "v < 64"
  define c where "c = (if v < 26 then 65 + v else if v < 52 then 71 + v else if v < 62 then v - 4 else if v = 62 then 43 else 47)"
  have "43 \<le> c" "c < 123" using v by (auto simp add: c_def)
  moreover have "EncodeValue (word_of_nat v) = word_of_nat c" using v by (simp only: EncodeValue_eq kEncoding_nth c_def)
  ultimately show ?thesis using v by (simp add: DecodeValue_eq kDecoding_nth) (auto simp add: c_def)
qed

lemma fragment_digit: "unat (x :: byte) < 64 \<Longrightarrow> word_of_int (DecodeValue (EncodeValue x)) = x \<and> 0 \<le> sint x"
  using sint_small [of "unat x"] Decode_Encode [of "unat x"] by simp

text \<open>The padding and the line break are no digits.\<close>

lemma no_digit [simp]: "sint (word_of_int (DecodeValue 61) :: byte) < 0" "sint (word_of_int (DecodeValue newline) :: byte) < 0"
proof -
  show "sint (word_of_int (DecodeValue 61) :: byte) < 0"
    using DecodeValue_eq [of 61] by (simp add: kDecoding_nth)
  show "sint (word_of_int (DecodeValue newline) :: byte) < 0"
    by (simp add: newline_def DecodeValue_def)
qed

text \<open>The digits of the encoder are below 64.\<close>

lemma unat_64: "(x :: byte) AND 0x3f = x \<Longrightarrow> unat x < 64"
proof -
  assume "x AND 0x3f = x"
  then have "x \<le> 0x3f" by (metis word_and_le1)
  then show ?thesis by (simp add: word_le_nat_alt)
qed

lemma digit_less:
  "unat (drop_bit 2 (a AND 0xfc) :: byte) < 64"
  "unat (push_bit 4 (a AND 0x03) OR drop_bit 4 (b AND 0xf0) :: byte) < 64"
  "unat (push_bit 2 (b AND 0x0f) OR drop_bit 6 (c AND 0xc0) :: byte) < 64"
  "unat (c AND 0x3f :: byte) < 64"
  "unat (push_bit 4 (a AND 0x03) :: byte) < 64"
  "unat (push_bit 2 (b AND 0x0f) :: byte) < 64"
  by (rule unat_64, rule byte_eqI; simp add: bit_simps)+

text \<open>What the decoder makes of them.\<close>

lemma digit_bits:
  "push_bit 2 (drop_bit 2 (a AND 0xfc) AND 0x3f) = (a AND 0xfc :: byte)"
  "(a AND 0xfc) OR drop_bit 4 ((push_bit 4 (a AND 0x03) OR drop_bit 4 (b AND 0xf0)) AND 0x30) = (a :: byte)"
  "push_bit 4 ((push_bit 4 (a AND 0x03) OR drop_bit 4 (b AND 0xf0)) AND 0x0f) = (b AND 0xf0 :: byte)"
  "(b AND 0xf0) OR drop_bit 2 ((push_bit 2 (b AND 0x0f) OR drop_bit 6 (c AND 0xc0)) AND 0x3c) = (b :: byte)"
  "push_bit 6 ((push_bit 2 (b AND 0x0f) OR drop_bit 6 (c AND 0xc0)) AND 0x03) = (c AND 0xc0 :: byte)"
  "(c AND 0xc0) OR ((c AND 0x3f) AND 0x3f) = (c :: byte)"
  "(a AND 0xfc) OR drop_bit 4 (push_bit 4 (a AND 0x03) AND 0x30) = (a :: byte)"
  "(b AND 0xf0) OR drop_bit 2 (push_bit 2 (b AND 0x0f) AND 0x3c) = (b :: byte)"
  by (rule byte_eqI; simp add: bit_simps)+

section \<open>Writing to the buffers\<close>

text \<open>The text the encoder writes, without the buffer.\<close>

fun enc :: "int \<Rightarrow> EncodeStep \<Rightarrow> byte \<Rightarrow> int \<Rightarrow> bytes \<Rightarrow> bytes \<times> EncodeState" where
  "enc m step r n [] = ([], \<lparr>es_step = step, es_result = r, es_stepcount = n\<rparr>)"
| "enc m ENC_STEP_A r n (f # p) =
     apfst (Cons (EncodeValue (drop_bit 2 (f AND 0xfc)))) (enc m ENC_STEP_B (push_bit 4 (f AND 0x03)) n p)"
| "enc m ENC_STEP_B r n (f # p) =
     apfst (Cons (EncodeValue (r OR drop_bit 4 (f AND 0xf0)))) (enc m ENC_STEP_C (push_bit 2 (f AND 0x0f)) n p)"
| "enc m ENC_STEP_C r n (f # p) =
     (let brk = (m > 0 \<and> n + 1 = m div 4) in
      apfst (append ([EncodeValue (r OR drop_bit 6 (f AND 0xc0)), EncodeValue (f AND 0x3f)] @ (if brk then [newline] else [])))
        (enc m ENC_STEP_A (f AND 0x3f) (if brk then 0 else n + 1) p))"

definition overwrite :: "bytes \<Rightarrow> nat \<Rightarrow> bytes \<Rightarrow> bytes option" where
  "overwrite buf i out =
     (if i + length out \<le> length buf then Some (take i buf @ out @ drop (i + length out) buf) else None)"

lemma overwrite_Nil [simp]: "i \<le> length buf \<Longrightarrow> overwrite buf i [] = Some buf"
  by (simp add: overwrite_def)

lemma overwrite_Cons [simp]: "overwrite buf i (c # out) = Option.bind (put_char buf i c) (\<lambda>b. overwrite b (i + 1) out)"
  by (auto simp: overwrite_def put_char_def take_Suc_conv_app_nth list_update_append)

lemma put_char_length: "put_char buf i c = Some b \<Longrightarrow> length b = length buf \<and> i < length buf"
  by (auto simp: put_char_def split: if_splits)

lemma encode_loop_enc:
  "i \<le> length buf \<Longrightarrow> encode_loop m step r n p buf i =
     map_option (\<lambda>b. (i + length (fst (enc m step r n p)), b, snd (enc m step r n p))) (overwrite buf i (fst (enc m step r n p)))"
proof (induction m step r n p buf i rule: encode_loop.induct)
  case (4 m r n f p buf i)
  then show ?case
    by (cases "m > 0 \<and> n + 1 = m div 4") (auto simp: put_char_def Let_def numeral_3_eq_3)
qed (auto simp: put_char_def)

lemma EncodeBlock_enc:
  "EncodeBlock p buf st m =
     (case enc m (es_step st) (es_result st) (es_stepcount st) p of (out, st') \<Rightarrow>
        if length out \<le> length buf then Some (length out, out @ drop (length out) buf, st') else None)"
  by (simp add: EncodeBlock_def encode_loop_enc overwrite_def split: prod.splits)

definition end_text :: "EncodeState \<Rightarrow> bytes" where
  "end_text st =
     (case es_step st of ENC_STEP_A \<Rightarrow> [] | ENC_STEP_B \<Rightarrow> [EncodeValue (es_result st), 61, 61]
      | ENC_STEP_C \<Rightarrow> [EncodeValue (es_result st), 61])"

lemma EncodeBlockEnd_text:
  "EncodeBlockEnd buf st =
     (if length (end_text st) \<le> length buf then Some (length (end_text st), end_text st @ drop (length (end_text st)) buf) else None)"
proof -
  have "EncodeBlockEnd buf st = map_option (Pair (length (end_text st))) (overwrite buf 0 (end_text st))"
    by (simp add: EncodeBlockEnd_def end_text_def numeral_2_eq_2 split: EncodeStep.splits bind_splits)
      (auto split: bind_splits simp: put_char_length dest!: put_char_length)
  then show ?thesis by (simp add: overwrite_def)
qed

lemma length_enc: "length (fst (enc m step r n p)) \<le> 2 * length p + (if step = ENC_STEP_C then 1 else 0)"
  by (induction m step r n p rule: enc.induct) (auto simp: Let_def)

lemma enc_append:
  "enc m step r n (p @ q) =
     (case enc m step r n p of (out, st) \<Rightarrow> apfst (append out) (enc m (es_step st) (es_result st) (es_stepcount st) q))"
  by (induction m step r n p rule: enc.induct) (auto simp: Let_def apfst_def map_prod_def split: prod.splits)

text \<open>The bytes the decoder completes, without the buffer; the partly decoded byte is its state.\<close>

fun dec :: "DecodeStep \<Rightarrow> byte \<Rightarrow> bytes \<Rightarrow> bytes \<times> DecodeStep \<times> byte" where
  "dec step cur [] = ([], step, cur)"
| "dec step cur (c # code) =
     (let f = word_of_int (DecodeValue c) :: byte in
      if sint f < 0 then dec step cur code
      else
        (case step of
           DEC_STEP_A \<Rightarrow> dec DEC_STEP_B (push_bit 2 (f AND 0x3f)) code
         | DEC_STEP_B \<Rightarrow> apfst (Cons (cur OR drop_bit 4 (f AND 0x30))) (dec DEC_STEP_C (push_bit 4 (f AND 0x0f)) code)
         | DEC_STEP_C \<Rightarrow> apfst (Cons (cur OR drop_bit 2 (f AND 0x3c))) (dec DEC_STEP_D (push_bit 6 (f AND 0x03)) code)
         | DEC_STEP_D \<Rightarrow> apfst (Cons (cur OR (f AND 0x3f))) (dec DEC_STEP_A 0 code)))"

lemma dec_append:
  "dec step cur (p @ q) = (case dec step cur p of (out, step', cur') \<Rightarrow> apfst (append out) (dec step' cur' q))"
  by (induction step cur p rule: dec.induct) (auto simp: Let_def apfst_def map_prod_def split: DecodeStep.splits prod.splits)

lemma dec_start: "fst (dec DEC_STEP_A x code) = fst (dec DEC_STEP_A y code) \<and>
    fst (snd (dec DEC_STEP_A x code)) = fst (snd (dec DEC_STEP_A y code)) \<and>
    (fst (snd (dec DEC_STEP_A x code)) \<noteq> DEC_STEP_A \<longrightarrow> snd (snd (dec DEC_STEP_A x code)) = snd (snd (dec DEC_STEP_A y code)))"
  by (induction code) (auto simp: Let_def)

lemma length_dec: "length (fst (dec step cur code)) \<le> length code"
  by (induction step cur code rule: dec.induct) (auto simp: Let_def split: DecodeStep.splits)

text \<open>The decoder with its buffer completes the same bytes; at the start of a group its partial byte is arbitrary.\<close>

lemma decode_loop_dec:
  assumes "i + length (fst (dec step cur code)) < length buf" and "step = DEC_STEP_A \<or> buf ! i = cur"
  shows "\<exists>b x. decode_loop step code buf i =
      Some (i + length (fst (dec step cur code)), b, \<lparr>ds_step = fst (snd (dec step cur code)), ds_decchar = x\<rparr>) \<and>
    take (i + length (fst (dec step cur code))) b = take i buf @ fst (dec step cur code) \<and> length b = length buf \<and>
    (fst (snd (dec step cur code)) \<noteq> DEC_STEP_A \<longrightarrow> x = snd (snd (dec step cur code)))"
  using assms
proof (induction code arbitrary: step cur buf i)
  case Nil
  then show ?case by (auto simp: get_char_def)
next
  case (Cons c code)
  define f :: byte where "f = word_of_int (DecodeValue c)"
  show ?case
  proof (cases "sint f < 0")
    case True
    with Cons show ?thesis by (simp add: f_def Let_def)
  next
    case False
    show ?thesis
    proof (cases step)
      case DEC_STEP_A
      let ?x = "push_bit 2 (f AND 0x3f)"
      have "dec step cur (c # code) = dec DEC_STEP_B ?x code" using False DEC_STEP_A by (simp add: f_def Let_def)
      moreover have "decode_loop step (c # code) buf i = decode_loop DEC_STEP_B code (buf[i := ?x]) i"
        using False DEC_STEP_A Cons.prems(1) by (simp add: f_def Let_def put_char_def)
      ultimately show ?thesis using Cons.IH [of i DEC_STEP_B ?x "buf[i := ?x]"] Cons.prems(1) by simp
    next
      case DEC_STEP_B
      let ?x = "cur OR drop_bit 4 (f AND 0x30)" and ?y = "push_bit 4 (f AND 0x0f)"
      have d: "dec step cur (c # code) = apfst (Cons ?x) (dec DEC_STEP_C ?y code)" using False DEC_STEP_B by (simp add: f_def Let_def)
      then have l: "Suc i < length buf" using Cons.prems(1) by simp
      have "decode_loop step (c # code) buf i = decode_loop DEC_STEP_C code (buf[i := ?x, i + 1 := ?y]) (i + 1)"
        using False DEC_STEP_B Cons.prems l by (simp add: f_def Let_def put_char_def or_char_def get_char_def)
      then show ?thesis using Cons.IH [of "i + 1" DEC_STEP_C ?y "buf[i := ?x, i + 1 := ?y]"] Cons.prems(1) l
        unfolding d by (simp add: take_Suc_conv_app_nth)
    next
      case DEC_STEP_C
      let ?x = "cur OR drop_bit 2 (f AND 0x3c)" and ?y = "push_bit 6 (f AND 0x03)"
      have d: "dec step cur (c # code) = apfst (Cons ?x) (dec DEC_STEP_D ?y code)" using False DEC_STEP_C by (simp add: f_def Let_def)
      then have l: "Suc i < length buf" using Cons.prems(1) by simp
      have "decode_loop step (c # code) buf i = decode_loop DEC_STEP_D code (buf[i := ?x, i + 1 := ?y]) (i + 1)"
        using False DEC_STEP_C Cons.prems l by (simp add: f_def Let_def put_char_def or_char_def get_char_def)
      then show ?thesis using Cons.IH [of "i + 1" DEC_STEP_D ?y "buf[i := ?x, i + 1 := ?y]"] Cons.prems(1) l
        unfolding d by (simp add: take_Suc_conv_app_nth)
    next
      case DEC_STEP_D
      let ?x = "cur OR (f AND 0x3f)"
      have d: "dec step cur (c # code) = apfst (Cons ?x) (dec DEC_STEP_A 0 code)" using False DEC_STEP_D by (simp add: f_def Let_def)
      then have l: "Suc i < length buf" using Cons.prems(1) by simp
      have "decode_loop step (c # code) buf i = decode_loop DEC_STEP_A code (buf[i := ?x]) (i + 1)"
        using False DEC_STEP_D Cons.prems l by (simp add: f_def Let_def put_char_def or_char_def get_char_def)
      then show ?thesis using Cons.IH [of "i + 1" DEC_STEP_A 0 "buf[i := ?x]"] Cons.prems(1) l
        unfolding d by (simp add: take_Suc_conv_app_nth)
    qed
  qed
qed

section \<open>Decoding an encoded text\<close>

lemma dec_digit:
  assumes "unat x < 64"
  shows "dec DEC_STEP_A cur (EncodeValue x # code) = dec DEC_STEP_B (push_bit 2 (x AND 0x3f)) code"
    and "dec DEC_STEP_B cur (EncodeValue x # code) = apfst (Cons (cur OR drop_bit 4 (x AND 0x30))) (dec DEC_STEP_C (push_bit 4 (x AND 0x0f)) code)"
    and "dec DEC_STEP_C cur (EncodeValue x # code) = apfst (Cons (cur OR drop_bit 2 (x AND 0x3c))) (dec DEC_STEP_D (push_bit 6 (x AND 0x03)) code)"
    and "dec DEC_STEP_D cur (EncodeValue x # code) = apfst (Cons (cur OR (x AND 0x3f))) (dec DEC_STEP_A 0 code)"
  using fragment_digit [OF assms] by (simp_all only: dec.simps Let_def not_less [symmetric] if_False DecodeStep.case)

lemma dec_skip: "dec step cur (61 # code) = dec step cur code" "dec step cur (newline # code) = dec step cur code"
  by (simp_all add: Let_def)

lemma dec_enc:
  "fst (dec DEC_STEP_A x (fst (enc m ENC_STEP_A r n p) @ end_text (snd (enc m ENC_STEP_A r n p)))) = p"
  "fst (dec DEC_STEP_B (a AND 0xfc) (fst (enc m ENC_STEP_B (push_bit 4 (a AND 0x03)) n p) @
      end_text (snd (enc m ENC_STEP_B (push_bit 4 (a AND 0x03)) n p)))) = a # p"
  "fst (dec DEC_STEP_C (b AND 0xf0) (fst (enc m ENC_STEP_C (push_bit 2 (b AND 0x0f)) n p) @
      end_text (snd (enc m ENC_STEP_C (push_bit 2 (b AND 0x0f)) n p)))) = b # p"
proof (induction p arbitrary: x r n a b)
  case Nil
  {
    case 1
    show ?case by (simp add: end_text_def)
  next
    case 2
    show ?case by (simp only: enc.simps fst_conv snd_conv end_text_def EncodeState.simps EncodeStep.case append_Nil
          dec_digit(2) [OF digit_less(5)] digit_bits fst_apfst dec_skip dec.simps(1))
  next
    case 3
    show ?case by (simp only: enc.simps fst_conv snd_conv end_text_def EncodeState.simps EncodeStep.case append_Nil
          dec_digit(3) [OF digit_less(6)] digit_bits fst_apfst dec_skip dec.simps(1))
  }
next
  case (Cons f p)
  {
    case 1
    show ?case by (simp only: enc.simps fst_apfst snd_apfst append_Cons dec_digit(1) [OF digit_less(1)] digit_bits Cons.IH(2))
  next
    case 2
    show ?case by (simp only: enc.simps fst_apfst snd_apfst append_Cons dec_digit(2) [OF digit_less(2)] digit_bits Cons.IH(3))
  next
    case 3
    have "dec DEC_STEP_A 0 ((if b then [newline] else []) @ q) = dec DEC_STEP_A 0 q" for b q
      by (simp add: dec_skip(2) del: dec.simps)
    then show ?case by (simp only: enc.simps Let_def fst_apfst snd_apfst append_Cons append_Nil append_assoc
          dec_digit(3) [OF digit_less(3)] dec_digit(4) [OF digit_less(4)] digit_bits Cons.IH(1))
  }
qed

section \<open>Encoding and decoding in pieces\<close>

text \<open>
  A client that encodes a text piece by piece, each into a fresh buffer with room for one character more
  than twice the piece, and ends the text; and one that decodes a text piece by piece,
  with room for one byte more than the piece. Fresh buffers have the unspecified content \<open>junk\<close>.
\<close>

fun encode_pieces :: "(nat \<Rightarrow> bytes) \<Rightarrow> int \<Rightarrow> EncodeState \<Rightarrow> bytes list \<Rightarrow> bytes option" where
  "encode_pieces junk m st [] = map_option (\<lambda>(n, buf). take n buf) (EncodeBlockEnd (junk 3) st)"
| "encode_pieces junk m st (p # ps) =
     Option.bind (EncodeBlock p (junk (2 * length p + 1)) st m) (\<lambda>(n, buf, st').
       map_option (append (take n buf)) (encode_pieces junk m st' ps))"

fun decode_pieces :: "(nat \<Rightarrow> bytes) \<Rightarrow> DecodeState \<Rightarrow> bytes list \<Rightarrow> bytes option" where
  "decode_pieces junk st [] = Some []"
| "decode_pieces junk st (c # cs) =
     Option.bind (DecodeBlock c (junk (length c + 1)) st) (\<lambda>(n, buf, st').
       map_option (append (take n buf)) (decode_pieces junk st' cs))"

lemma encode_pieces_enc:
  assumes "\<And>n. length (junk n) = n"
  shows "encode_pieces junk m st ps =
    (case enc m (es_step st) (es_result st) (es_stepcount st) (concat ps) of (out, st') \<Rightarrow> Some (out @ end_text st'))"
proof (induction ps arbitrary: st)
  case Nil
  have "length (end_text st) \<le> 3" by (simp add: end_text_def split: EncodeStep.splits)
  then show ?case using assms by (simp add: EncodeBlockEnd_text end_text_def split: EncodeStep.splits)
next
  case (Cons p ps)
  obtain out st' where e: "enc m (es_step st) (es_result st) (es_stepcount st) p = (out, st')" by fastforce
  have "length out \<le> 2 * length p + 1"
    using length_enc [of m "es_step st" "es_result st" "es_stepcount st" p] e by (simp split: if_splits)
  then show ?case using assms by (simp add: EncodeBlock_enc e enc_append Cons.IH split: prod.splits)
qed

lemma DecodeBlock_dec:
  assumes "length code < length buf" and "dec (ds_step st) (ds_decchar st) code = (out, step', cur')"
  obtains b x where "DecodeBlock code buf st = Some (length out, b, \<lparr>ds_step = step', ds_decchar = x\<rparr>)"
    and "take (length out) b = out" and "step' \<noteq> DEC_STEP_A \<longrightarrow> x = cur'"
proof -
  let ?buf = "buf[0 := ds_decchar st]"
  have l: "length out \<le> length code" using length_dec [of "ds_step st" "ds_decchar st" code] assms(2) by simp
  have "0 < length buf" using assms(1) by linarith
  then have "DecodeBlock code buf st = decode_loop (ds_step st) code ?buf 0" "?buf ! 0 = ds_decchar st"
    by (simp_all add: DecodeBlock_def put_char_def)
  with decode_loop_dec [of 0 "ds_step st" "ds_decchar st" code ?buf] assms l that show ?thesis by auto
qed

lemma decode_pieces_dec:
  assumes "\<And>n. length (junk n) = n" and "ds_step st = DEC_STEP_A \<or> ds_decchar st = cur"
  shows "decode_pieces junk st cs = Some (fst (dec (ds_step st) cur (concat cs)))"
  using assms(2)
proof (induction cs arbitrary: st cur)
  case (Cons c cs)
  obtain out step' cur' where d: "dec (ds_step st) (ds_decchar st) c = (out, step', cur')" by (metis prod_cases3)
  have "length c < length (junk (length c + 1))" using assms(1) by simp
  from DecodeBlock_dec [OF this d] obtain b x where
    b: "DecodeBlock c (junk (length c + 1)) st = Some (length out, b, \<lparr>ds_step = step', ds_decchar = x\<rparr>)"
      "take (length out) b = out" "step' \<noteq> DEC_STEP_A \<longrightarrow> x = cur'" .
  have "fst (dec (ds_step st) cur (c @ concat cs)) = fst (dec (ds_step st) (ds_decchar st) (c @ concat cs))"
    using Cons.prems dec_start by metis
  moreover have "decode_pieces junk \<lparr>ds_step = step', ds_decchar = x\<rparr> cs = Some (fst (dec step' cur' (concat cs)))"
    using Cons.IH [of "\<lparr>ds_step = step', ds_decchar = x\<rparr>" cur'] b(3) by auto
  ultimately show ?case using b(1,2) by (simp add: dec_append d)
qed simp

text \<open>C22 (roundtrip): Base64 loses nothing. A text is cut into pieces, each encoded by its own call with any number of
  characters per line, and ended; the code is cut into pieces in any other way and decoded by one call
  for each. No call writes behind its buffer, and the bytes decoded are the text: line
  breaks and padding leave no trace, and what is carried over between the calls in the two
  states is right at every cut.\<close>

theorem base64_roundtrip:
  assumes "\<And>n. length (junk n) = n"
  shows "\<exists>code. encode_pieces junk m InitEncodeState ps = Some code \<and>
    (\<forall>cs. concat cs = code \<longrightarrow> decode_pieces junk InitDecodeState cs = Some (concat ps))"
proof -
  obtain out st where e: "enc m ENC_STEP_A 0 0 (concat ps) = (out, st)" by fastforce
  have "fst (dec DEC_STEP_A 0 (out @ end_text st)) = concat ps"
    using dec_enc(1) [of 0 m 0 0 "concat ps"] e by simp
  moreover have "encode_pieces junk m InitEncodeState ps = Some (out @ end_text st)"
    using encode_pieces_enc [OF assms, of m InitEncodeState ps] e by (simp add: InitEncodeState_def)
  moreover have "decode_pieces junk InitDecodeState cs = Some (fst (dec DEC_STEP_A 0 (concat cs)))" for cs
    using decode_pieces_dec [OF assms, of InitDecodeState 0 cs] by (simp add: InitDecodeState_def)
  ultimately show ?thesis by auto
qed

theorem base64_roundtrip_witness:
  "\<exists>code. encode_pieces (\<lambda>n. replicate n 0) 4 InitEncodeState [[77, 97], [110, 1]] = Some code \<and>
    decode_pieces (\<lambda>n. replicate n 0) InitDecodeState [take 3 code, drop 3 code] = Some [77, 97, 110, 1]"
proof -
  from base64_roundtrip [of "\<lambda>n. replicate n 0" 4 "[[77, 97], [110, 1]]"] obtain code where
    "encode_pieces (\<lambda>n. replicate n 0) 4 InitEncodeState [[77, 97], [110, 1]] = Some code"
    "\<forall>cs. concat cs = code \<longrightarrow> decode_pieces (\<lambda>n. replicate n 0) InitDecodeState cs = Some (concat [[77, 97], [110, 1]])"
    by auto
  moreover from this(2) have "decode_pieces (\<lambda>n. replicate n 0) InitDecodeState [take 3 code, drop 3 code] = Some (concat [[77, 97], [110, 1]])"
    by (simp del: decode_pieces.simps)
  ultimately show ?thesis by (simp del: decode_pieces.simps encode_pieces.simps)
qed

section \<open>The standard encoding\<close>

text \<open>The encoding of RFC 4648: three bytes are a number of 24 bits, written with four digits of base 64.\<close>

fun base64 :: "bytes \<Rightarrow> bytes" where
  "base64 [] = []"
| "base64 [a] = (let n = unat a * 16 in [kEncoding ! (n div 64), kEncoding ! (n mod 64), 61, 61])"
| "base64 [a, b] = (let n = (unat a * 256 + unat b) * 4 in
     [kEncoding ! (n div 4096), kEncoding ! (n div 64 mod 64), kEncoding ! (n mod 64), 61])"
| "base64 (a # b # c # p) = (let n = (unat a * 256 + unat b) * 256 + unat c in
     [kEncoding ! (n div 262144), kEncoding ! (n div 4096 mod 64), kEncoding ! (n div 64 mod 64), kEncoding ! (n mod 64)] @ base64 p)"

lemma unat_mask: "unat (a AND 0x03 :: byte) = unat a mod 4" "unat (a AND 0x0f :: byte) = unat a mod 16" "unat (a AND 0x3f :: byte) = unat a mod 64"
proof -
  have m: "unat (a AND mask n :: byte) = unat a mod 2 ^ n" for n
    by (simp add: take_bit_eq_mask [symmetric] unsigned_take_bit_eq take_bit_eq_mod [where 'a = nat])
  have "mask 2 = (0x03 :: byte)" "mask 4 = (0x0f :: byte)" "mask 6 = (0x3f :: byte)" by (simp_all add: mask_eq_exp_minus_1)
  with m [of 2] m [of 4] m [of 6] show "unat (a AND 0x03) = unat a mod 4" "unat (a AND 0x0f) = unat a mod 16" "unat (a AND 0x3f) = unat a mod 64"
    by simp_all
qed

lemma unat_shift_down: "unat (drop_bit 2 (a AND 0xfc) :: byte) = unat a div 4" "unat (drop_bit 4 (a AND 0xf0) :: byte) = unat a div 16"
    "unat (drop_bit 6 (a AND 0xc0) :: byte) = unat a div 64"
proof -
  have "drop_bit 2 (a AND 0xfc) = drop_bit 2 a" "drop_bit 4 (a AND 0xf0) = drop_bit 4 a" "drop_bit 6 (a AND 0xc0) = drop_bit 6 a"
    by (rule byte_eqI; simp add: bit_simps)+
  then show "unat (drop_bit 2 (a AND 0xfc)) = unat a div 4" "unat (drop_bit 4 (a AND 0xf0)) = unat a div 16"
    "unat (drop_bit 6 (a AND 0xc0)) = unat a div 64"
    by (simp_all add: unat_drop_bit_eq drop_bit_eq_div [where 'a = nat])
qed

lemma unat_shift_up: "unat (push_bit 4 (a AND 0x03) :: byte) = unat a mod 4 * 16" "unat (push_bit 2 (a AND 0x0f) :: byte) = unat a mod 16 * 4"
proof -
  have s: "unat (push_bit n x :: byte) = unat x * 2 ^ n" if "unat x * 2 ^ n < 256" for n x
    using that by (simp add: unsigned_push_bit_eq push_bit_eq_mult [where 'a = nat] take_bit_nat_eq_self)
  have "unat a mod 4 * 16 < 256" "unat a mod 16 * 4 < 256" by simp_all
  then show "unat (push_bit 4 (a AND 0x03)) = unat a mod 4 * 16" "unat (push_bit 2 (a AND 0x0f)) = unat a mod 16 * 4"
    using s [of "a AND 0x03" 4] s [of "a AND 0x0f" 2] by (simp_all only: unat_mask) simp_all
qed

lemma unat_or:
  fixes x y :: byte
  assumes "x AND y = 0" and "unat x + unat y < 256"
  shows "unat (x OR y) = unat x + unat y"
proof -
  have "x OR y = x + y" using assms(1) by (simp add: disjunctive_add_eq_or)
  then show ?thesis using assms(2) by (simp add: unat_word_ariths)
qed

lemma digit_unat:
  "unat (push_bit 4 (a AND 0x03) OR drop_bit 4 (b AND 0xf0) :: byte) = unat a mod 4 * 16 + unat b div 16"
  "unat (push_bit 2 (b AND 0x0f) OR drop_bit 6 (c AND 0xc0) :: byte) = unat b mod 16 * 4 + unat c div 64"
proof -
  have "push_bit 4 (a AND 0x03) AND drop_bit 4 (b AND 0xf0) = 0" "push_bit 2 (b AND 0x0f) AND drop_bit 6 (c AND 0xc0) = 0"
    by (rule byte_eqI; simp add: bit_simps)+
  moreover have "unat a mod 4 * 16 + unat b div 16 < 256" "unat b mod 16 * 4 + unat c div 64 < 256"
    using div_le_mono [OF less_imp_le_nat [OF unat_byte_less [of b]], of 16] div_le_mono [OF less_imp_le_nat [OF unat_byte_less [of c]], of 64]
      mod_less_divisor [of 4 "unat a"] mod_less_divisor [of 16 "unat b"] by linarith+
  ultimately show "unat (push_bit 4 (a AND 0x03) OR drop_bit 4 (b AND 0xf0)) = unat a mod 4 * 16 + unat b div 16"
    "unat (push_bit 2 (b AND 0x0f) OR drop_bit 6 (c AND 0xc0)) = unat b mod 16 * 4 + unat c div 64"
    using unat_or [of "push_bit 4 (a AND 0x03)" "drop_bit 4 (b AND 0xf0)"] unat_or [of "push_bit 2 (b AND 0x0f)" "drop_bit 6 (c AND 0xc0)"]
    unfolding unat_shift_up unat_shift_down by metis+
qed

lemma mod_split: "(y :: nat) < k \<Longrightarrow> (x * k + y) mod (k * j) = x mod j * k + y"
  by (simp add: mod_mult2_eq)

lemma mod_16: "(a * 256 + b) mod 16 = b mod (16 :: nat)"
  using mod_mult_self3 [of "a * 16" 16 b] by (simp add: algebra_simps)

lemma div_16: "b < 256 \<Longrightarrow> (a * 256 + b) div 16 mod 64 = a mod 4 * 16 + b div (16 :: nat)"
proof -
  assume "b < 256"
  then have "b div 16 < 16" by linarith
  from mod_split [OF this, of a 4] have "(a * 16 + b div 16) mod 64 = a mod 4 * 16 + b div 16" by simp
  moreover have "(a * 256 + b) div 16 = a * 16 + b div 16" using div_mult_self3 [of 16 "a * 16" b] by (simp add: algebra_simps)
  ultimately show ?thesis by simp
qed

lemma group_digits:
  fixes a b c :: nat
  assumes "b < 256" and "c < 256"
  shows "((a * 256 + b) * 256 + c) div 262144 = a div 4"
    and "((a * 256 + b) * 256 + c) div 4096 mod 64 = a mod 4 * 16 + b div 16"
    and "((a * 256 + b) * 256 + c) div 64 mod 64 = b mod 16 * 4 + c div 64"
    and "((a * 256 + b) * 256 + c) mod 64 = c mod 64"
proof -
  let ?x = "a * 256 + b" and ?n = "(a * 256 + b) * 256 + c"
  have "?n div 262144 = ?n div 256 div 256 div 4" by (simp add: div_mult2_eq [symmetric])
  then show "?n div 262144 = a div 4" using assms by simp
  have "?n div 4096 = ?n div 256 div 16" by (simp add: div_mult2_eq [symmetric])
  then have "?n div 4096 = ?x div 16" using assms by simp
  then show "?n div 4096 mod 64 = a mod 4 * 16 + b div 16" using div_16 [OF assms(1)] by simp
  have "?n div 64 = ?x * 4 + c div 64" using div_mult_self3 [of 64 "?x * 4" c] by (simp add: algebra_simps)
  moreover have "c div 64 < 4" using assms by linarith
  from mod_split [OF this, of ?x 16] have "(?x * 4 + c div 64) mod 64 = ?x mod 16 * 4 + c div 64" by simp
  ultimately show "?n div 64 mod 64 = b mod 16 * 4 + c div 64" by (simp add: mod_16)
  show "?n mod 64 = c mod 64" using mod_mult_self3 [of "?x * 4" 64 c] by (simp add: algebra_simps)
qed

lemma tail_digits:
  fixes a b :: nat
  assumes "b < 256"
  shows "a * 16 div 64 = a div 4" and "a * 16 mod 64 = a mod 4 * 16"
    and "(a * 256 + b) * 4 div 4096 = a div 4" and "(a * 256 + b) * 4 div 64 mod 64 = a mod 4 * 16 + b div 16"
    and "(a * 256 + b) * 4 mod 64 = b mod 16 * 4"
proof -
  let ?x = "a * 256 + b"
  show "a * 16 div 64 = a div 4" using div_mult_mult2 [of 16 a 4] by simp
  show "a * 16 mod 64 = a mod 4 * 16" using mod_split [of 0 16 a 4] by simp
  have "?x * 4 div 4096 = ?x div 1024" using div_mult_mult2 [of 4 ?x 1024] by simp
  also have "\<dots> = ?x div 256 div 4" by (simp add: div_mult2_eq [symmetric])
  finally show "?x * 4 div 4096 = a div 4" using assms by simp
  have "?x * 4 div 64 = ?x div 16" using div_mult_mult2 [of 4 ?x 16] by simp
  then show "?x * 4 div 64 mod 64 = a mod 4 * 16 + b div 16" using div_16 [OF assms] by simp
  show "?x * 4 mod 64 = b mod 16 * 4" using mod_split [of 0 4 ?x 16] by (simp add: mod_16)
qed

lemma EncodeValue_nth: "unat x < 64 \<Longrightarrow> EncodeValue x = kEncoding ! unat x"
  using EncodeValue_eq [of "unat x"] by simp

lemmas encoded_digits = digit_less [THEN EncodeValue_nth, unfolded digit_unat unat_shift_up unat_shift_down unat_mask]

lemma enc_base64:
  "m \<le> 0 \<or> n + int (length p div 3) < m div 4 \<Longrightarrow>
     fst (enc m ENC_STEP_A r n p) @ end_text (snd (enc m ENC_STEP_A r n p)) = base64 p"
proof (induction p arbitrary: r n rule: base64.induct)
  case 1
  then show ?case by (simp add: end_text_def)
next
  case (2 a)
  show ?case by (simp only: enc.simps fst_apfst snd_apfst fst_conv snd_conv end_text_def EncodeState.simps EncodeStep.case
        append.simps encoded_digits base64.simps Let_def tail_digits(1,2) [of 0])
next
  case (3 a b)
  show ?case by (simp only: enc.simps fst_apfst snd_apfst fst_conv snd_conv end_text_def EncodeState.simps EncodeStep.case
        append.simps encoded_digits base64.simps Let_def tail_digits(3-5) [OF unat_byte_less])
next
  case (4 a b c p)
  from "4.prems" have brk: "(m > 0 \<and> n + 1 = m div 4) = False" by auto
  have "m \<le> 0 \<or> (n + 1) + int (length p div 3) < m div 4" using "4.prems" by auto
  note IH = "4.IH" [OF refl this]
  show ?case by (simp only: enc.simps brk Let_def if_False fst_apfst snd_apfst append.simps append_Nil2 append_assoc
        encoded_digits base64.simps group_digits [OF unat_byte_less unat_byte_less] IH)
qed

lemma length_base64: "length (base64 p) = 4 * ((length p + 2) div 3)"
proof (induction p rule: base64.induct)
  case (4 a b c p)
  have "(length (a # b # c # p) + 2) div 3 = (length p + 2) div 3 + 1" by simp
  with "4.IH" [OF refl] show ?case by (simp add: Let_def)
qed (simp_all add: Let_def)

lemma buflen_eq:
  assumes "n < 2 ^ 30 - 2"
  shows "sint (2 * word_of_nat n + 4 :: 32 word) = 2 * int n + 4"
proof -
  have "(2 * word_of_nat n + 4 :: 32 word) = word_of_int (2 * int n + 4)" by simp
  also have "sint \<dots> = 2 * int n + 4" using assms by (simp only: signed_of_int) (simp add: signed_take_bit_int_eq_self)
  finally show ?thesis .
qed

text \<open>C23 (equivalence): \<open>EncodeString\<close> computes the standard Base64 encoding of any string shorter than \<open>2^30 - 2\<close>
  bytes: the buffer it allocates is always large enough, also for the terminating zero, and
  although it passes the buffer length as the number of characters per line no line break
  gets into the result.\<close>

theorem EncodeString_base64:
  assumes "length s < 2 ^ 30 - 2" and "\<And>n. length (junk n) = n"
  shows "EncodeString junk s = Some (base64 s)"
proof -
  let ?m = "2 * int (length s) + 4"
  obtain out st where e: "enc ?m ENC_STEP_A 0 0 s = (out, st)" by fastforce
  have "int (length s div 3) < ?m div 4" by linarith
  then have b: "out @ end_text st = base64 s" using enc_base64 [of ?m 0 s 0] e by simp
  have l: "length out + length (end_text st) < 2 * length s + 4"
    using arg_cong [OF b, of length] unfolding length_append length_base64 by linarith
  have j: "length (junk (nat ?m)) = 2 * length s + 4" using assms(2) by simp
  have eb: "EncodeBlock s (junk (nat ?m)) InitEncodeState ?m = Some (length out, out @ drop (length out) (junk (nat ?m)), st)"
    using l j e by (simp add: EncodeBlock_enc InitEncodeState_def)
  have ee: "EncodeBlockEnd (drop (length out) (junk (nat ?m))) st =
      Some (length (end_text st), end_text st @ drop (length (end_text st)) (drop (length out) (junk (nat ?m))))"
    using l j by (simp add: EncodeBlockEnd_text)
  show ?thesis
    using l j by (simp add: EncodeString_def Let_def buflen_eq [OF assms(1)] eb ee put_char_def b [symmetric])
qed

theorem EncodeString_base64_witness:
  "EncodeString (\<lambda>n. replicate n 7) [77, 97, 110, 33] = Some [84, 87, 70, 117, 73, 81, 61, 61]"
proof -
  have "EncodeString (\<lambda>n. replicate n 7) [77, 97, 110, 33] = Some (base64 [77, 97, 110, 33])"
    by (rule EncodeString_base64) simp_all
  also have "base64 [77, 97, 110, 33] = [84, 87, 70, 117, 73, 81, 61, 61]"
    by (simp add: Let_def kEncoding_nth)
  finally show ?thesis .
qed

text \<open>The comment on \<open>Encode\<close> asks for a buffer of twice the input. One byte that completes a group at the
  end of a line needs three characters: with the buffer the comment asks for, the line
  break is written behind it. One character more is always enough.\<close>

theorem encode_room:
  "EncodeBlock [c] [x, y] \<lparr>es_step = ENC_STEP_C, es_result = r, es_stepcount = 0\<rparr> 4 = None \<and>
   (length buf = 2 * length p + 1 \<longrightarrow> EncodeBlock p buf st m \<noteq> None)"
proof
  show "EncodeBlock [c] [x, y] \<lparr>es_step = ENC_STEP_C, es_result = r, es_stepcount = 0\<rparr> 4 = None"
    by (simp add: EncodeBlock_def put_char_def)
  show "length buf = 2 * length p + 1 \<longrightarrow> EncodeBlock p buf st m \<noteq> None"
    using length_enc [of m "es_step st" "es_result st" "es_stepcount st" p]
    by (auto simp: EncodeBlock_enc split: prod.splits if_splits)
qed

theorem encode_room_witness: "EncodeBlock [1, 2] [0, 0, 0, 0, 0] InitEncodeState 4 \<noteq> None"
  using encode_room [of 0 0 0 0 "[0, 0, 0, 0, 0]" "[1, 2]" InitEncodeState 4] by simp

end
