(* ===== verification/HttpConsts.thy ===== *)
theory HttpConsts
  imports Prelude "HOL-Library.List_Lexorder"
begin

text \<open>
  Model of \<open>src/whisperlib/http/http_consts.h\<close> and \<open>http_consts.cc\<close>: methods, versions, the
  classes of characters; of \<open>src/whisperlib/base/strutil.cc\<close> the functions the HTTP code
  calls; and of the C library \<open>strtol\<close> (64-bit \<open>long\<close>), \<open>strcasecmp\<close> and the character
  classes of the C locale. Strings are byte sequences.
\<close>

section \<open>Characters and strings\<close>

definition ascii :: "string \<Rightarrow> bytes" where
  "ascii s = map of_char s"

definition crlf :: bytes where
  "crlf = [13, 10]"

definition toupper :: "byte \<Rightarrow> byte" where
  "toupper c = (if 97 \<le> c \<and> c \<le> 122 then c - 32 else c)"

definition tolower :: "byte \<Rightarrow> byte" where
  "tolower c = (if 65 \<le> c \<and> c \<le> 90 then c + 32 else c)"

definition isalpha :: "byte \<Rightarrow> bool" where
  "isalpha c \<longleftrightarrow> 65 \<le> c \<and> c \<le> 90 \<or> 97 \<le> c \<and> c \<le> 122"

definition isspace :: "byte \<Rightarrow> bool" where
  "isspace c \<longleftrightarrow> c = 32 \<or> 9 \<le> c \<and> c \<le> 13"

text \<open>What \<open>c_str()\<close> shows of a string.\<close>

definition c_str :: "bytes \<Rightarrow> bytes" where
  "c_str s = takeWhile (\<lambda>c. c \<noteq> 0) s"

definition strcasecmp_eq :: "bytes \<Rightarrow> bytes \<Rightarrow> bool" where
  "strcasecmp_eq s t \<longleftrightarrow> map toupper s = map toupper t"

definition StrTrim :: "bytes \<Rightarrow> bytes" where
  "StrTrim s = rev (dropWhile isspace (rev (dropWhile isspace s)))"

text \<open>Both strings end at a zero byte.\<close>

fun StrCasePrefix :: "bytes \<Rightarrow> bytes \<Rightarrow> bool" where
  "StrCasePrefix (c # s) (p # prefix) = (toupper c = toupper p \<and> StrCasePrefix s prefix)"
| "StrCasePrefix s prefix = (prefix = [])"

section \<open>Numbers in strings\<close>

definition digit_value :: "byte \<Rightarrow> nat option" where
  "digit_value c =
     (if 48 \<le> c \<and> c \<le> 57 then Some (unat c - 48)
      else if 97 \<le> c \<and> c \<le> 122 then Some (unat c - 87)
      else if 65 \<le> c \<and> c \<le> 90 then Some (unat c - 55)
      else None)"

definition is_digit :: "nat \<Rightarrow> byte \<Rightarrow> bool" where
  "is_digit base c = (case digit_value c of None \<Rightarrow> False | Some d \<Rightarrow> d < base)"

definition digits_value :: "nat \<Rightarrow> bytes \<Rightarrow> nat" where
  "digits_value base ds = fold (\<lambda>c v. v * base + the (digit_value c)) ds 0"

text \<open>\<open>strtol\<close> with \<open>errno\<close> cleared before: \<open>None\<close> when it reports a range error.\<close>

definition strtol :: "nat \<Rightarrow> bytes \<Rightarrow> int option" where
  "strtol base s =
     (let s1 = dropWhile isspace s;
          neg = (s1 \<noteq> [] \<and> hd s1 = 45);
          s2 = (if s1 \<noteq> [] \<and> (hd s1 = 45 \<or> hd s1 = 43) then tl s1 else s1);
          s3 = (if base = 16 \<and> length s2 > 2 \<and> s2 ! 0 = 48 \<and> toupper (s2 ! 1) = 88 \<and> is_digit 16 (s2 ! 2)
                then drop 2 s2 else s2);
          v = int (digits_value base (takeWhile (is_digit base) s3));
          r = (if neg then - v else v)
      in if - (2 ^ 63) \<le> r \<and> r < 2 ^ 63 then Some r else None)"

text \<open>\<open>StringPrintf("%d")\<close> of a number and \<open>"%x"\<close> of an unsigned one.\<close>

definition digit_char :: "nat \<Rightarrow> byte" where
  "digit_char d = (if d < 10 then word_of_nat (48 + d) else word_of_nat (87 + d))"

lemma unat_digit_char: "n < 16 \<Longrightarrow> unat (digit_char n) = (if n < 10 then 48 + n else 87 + n)"
  by (simp add: digit_char_def unat_of_nat del: of_nat_add)

fun print_nat :: "nat \<Rightarrow> nat \<Rightarrow> bytes" where
  "print_nat base n =
     (if base < 2 \<or> n < base then [digit_char n] else print_nat base (n div base) @ [digit_char (n mod base)])"

declare print_nat.simps [simp del]

definition IntToString :: "int \<Rightarrow> bytes" where
  "IntToString i = (if i < 0 then 45 # print_nat 10 (nat (- i)) else print_nat 10 (nat i))"

section \<open>Methods and versions\<close>

datatype HttpMethod = METHOD_UNKNOWN | METHOD_OPTIONS | METHOD_GET | METHOD_HEAD | METHOD_POST | METHOD_PUT
  | METHOD_DELETE | METHOD_TRACE | METHOD_CONNECT

datatype HttpVersion = VERSION_UNKNOWN | VERSION_0_9 | VERSION_1_0 | VERSION_1_1

text \<open>The numbers of the enumeration, which the code compares.\<close>

fun version_num :: "HttpVersion \<Rightarrow> nat" where
  "version_num VERSION_UNKNOWN = 0"
| "version_num VERSION_0_9 = 1"
| "version_num VERSION_1_0 = 2"
| "version_num VERSION_1_1 = 3"

fun GetHttpMethodName :: "HttpMethod \<Rightarrow> bytes" where
  "GetHttpMethodName METHOD_UNKNOWN = ascii ''UNKNOWN''"
| "GetHttpMethodName METHOD_OPTIONS = ascii ''OPTIONS''"
| "GetHttpMethodName METHOD_GET = ascii ''GET''"
| "GetHttpMethodName METHOD_HEAD = ascii ''HEAD''"
| "GetHttpMethodName METHOD_POST = ascii ''POST''"
| "GetHttpMethodName METHOD_PUT = ascii ''PUT''"
| "GetHttpMethodName METHOD_DELETE = ascii ''DELETE''"
| "GetHttpMethodName METHOD_TRACE = ascii ''TRACE''"
| "GetHttpMethodName METHOD_CONNECT = ascii ''CONNECT''"

text \<open>The argument is a C string; the first character selects the names it is compared with.\<close>

definition GetHttpMethod :: "bytes \<Rightarrow> HttpMethod" where
  "GetHttpMethod s =
     (if s = [] then METHOD_UNKNOWN
      else
        let c = toupper (hd s); r = tl s in
        if c = 79 then (if strcasecmp_eq r (ascii ''PTIONS'') then METHOD_OPTIONS else METHOD_UNKNOWN)
        else if c = 71 then (if strcasecmp_eq r (ascii ''ET'') then METHOD_GET else METHOD_UNKNOWN)
        else if c = 72 then (if strcasecmp_eq r (ascii ''EAD'') then METHOD_HEAD else METHOD_UNKNOWN)
        else if c = 80 then
          (if strcasecmp_eq r (ascii ''OST'') then METHOD_POST
           else if strcasecmp_eq r (ascii ''UT'') then METHOD_PUT else METHOD_UNKNOWN)
        else if c = 68 then (if strcasecmp_eq r (ascii ''ELETE'') then METHOD_DELETE else METHOD_UNKNOWN)
        else if c = 84 then (if strcasecmp_eq r (ascii ''RACE'') then METHOD_TRACE else METHOD_UNKNOWN)
        else if c = 67 then (if strcasecmp_eq r (ascii ''ONNECT'') then METHOD_CONNECT else METHOD_UNKNOWN)
        else METHOD_UNKNOWN)"

definition GetHttpVersion :: "bytes \<Rightarrow> HttpVersion" where
  "GetHttpVersion s =
     (if strcasecmp_eq s (ascii ''HTTP/1.1'') then VERSION_1_1
      else if strcasecmp_eq s (ascii ''HTTP/1.0'') then VERSION_1_0
      else if strcasecmp_eq s (ascii ''HTTP/0.9'') then VERSION_0_9
      else VERSION_UNKNOWN)"

fun GetHttpVersionName :: "HttpVersion \<Rightarrow> bytes" where
  "GetHttpVersionName VERSION_0_9 = ascii ''HTTP/0.9''"
| "GetHttpVersionName VERSION_1_0 = ascii ''HTTP/1.0''"
| "GetHttpVersionName VERSION_1_1 = ascii ''HTTP/1.1''"
| "GetHttpVersionName VERSION_UNKNOWN = ascii ''HTTP/unknown''"

definition GetHttpCodeDescription :: "int \<Rightarrow> bytes" where
  "GetHttpCodeDescription code =
     (case map_of
        [(100, ''Continue''), (101, ''Switching Protocols''), (200, ''OK''), (201, ''Created''), (202, ''Accepted''),
         (203, ''Non-Authoritative Information''), (204, ''No Content''), (205, ''Reset Content''),
         (206, ''Partial Content''), (300, ''Multiple Choices''), (301, ''Moved Permanently''), (302, ''Found''),
         (303, ''See Other''), (304, ''Not Modified''), (305, ''Use Proxy''), (307, ''Temporary Redirect''),
         (400, ''Bad Request''), (401, ''Unauthorized''), (402, ''Payment Required''), (403, ''Forbidden''),
         (404, ''Not Found''), (405, ''Method Not Allowed''), (406, ''Not Acceptable''),
         (407, ''Proxy Authentication Required''), (408, ''Request Time-out''), (409, ''Conflict''), (410, ''Gone''),
         (411, ''Length Required''), (412, ''Precondition Failed''), (413, ''Request Entity Too Large''),
         (414, ''Request-URI Too Large''), (415, ''Unsupported Media Type''),
         (416, ''Requested range not satisfiable''), (417, ''Expectation Failed''), (500, ''Internal Server Error''),
         (501, ''Not Implemented''), (502, ''Bad Gateway''), (503, ''Service Unavailable''), (504, ''Gateway Time-out''),
         (505, ''HTTP Version not supported'')] code of
        Some s \<Rightarrow> ascii s
      | None \<Rightarrow> ascii ''Unknown'')"

section \<open>Classes of characters\<close>

definition IsCtlChar :: "byte \<Rightarrow> bool" where
  "IsCtlChar c \<longleftrightarrow> c \<le> 31 \<or> c = 127"

definition IsAsciiChar :: "byte \<Rightarrow> bool" where
  "IsAsciiChar c \<longleftrightarrow> c \<le> 127"

definition IsWhiteSpace :: "byte \<Rightarrow> bool" where
  "IsWhiteSpace c \<longleftrightarrow> c = 32 \<or> c = 9"

text \<open>The entries of \<open>kSharedCharTypeTable\<close> with the bits \<open>CHAR_LWF\<close> and \<open>CHAR_SEPARATOR\<close>.\<close>

definition IsLwfChar :: "byte \<Rightarrow> bool" where
  "IsLwfChar c \<longleftrightarrow> c \<in> {9, 10, 13, 32}"

definition IsSeparatorChar :: "byte \<Rightarrow> bool" where
  "IsSeparatorChar c \<longleftrightarrow>
     c \<in> {9, 32, 34, 40, 41, 44, 47, 58, 59, 60, 61, 62, 63, 64, 91, 92, 93, 123, 124}"

definition IsTokenChar :: "byte \<Rightarrow> bool" where
  "IsTokenChar c \<longleftrightarrow> IsAsciiChar c \<and> \<not> IsCtlChar c \<and> \<not> IsSeparatorChar c"

section \<open>Names of header fields\<close>

definition kHeaderTransferEncoding :: bytes where
  "kHeaderTransferEncoding = ascii ''Transfer-Encoding''"

definition kHeaderContentEncoding :: bytes where
  "kHeaderContentEncoding = ascii ''Content-Encoding''"

definition kHeaderContentLength :: bytes where
  "kHeaderContentLength = ascii ''Content-Length''"

definition kHeaderConnection :: bytes where
  "kHeaderConnection = ascii ''Connection''"

definition kHeaderAuthorization :: bytes where
  "kHeaderAuthorization = ascii ''Authorization''"

definition kHeaderContentType :: bytes where
  "kHeaderContentType = ascii ''Content-Type''"

end
