(* ===== verification/HttpHeader.thy ===== *)
theory HttpHeader
  imports HttpConsts StreamProps Base64
begin

text \<open>
  Model of \<open>http::Header\<close> (\<open>src/whisperlib/http/http_header.h\<close> and \<open>http_header.cc\<close>). The
  stream a header is read from is its unread bytes, which is what \<open>MemoryStream\<close> refines;
  \<open>ReadCRLFLine\<close> is \<open>spec_line 13\<close>. \<open>fields_\<close> is a \<open>std::map\<close>: an association list in the
  order of its keys. A failed \<open>CHECK\<close>, or a string of more than the possible length, is the
  result \<open>None\<close>. The date fields and the acceptance of encodings (\<open>strptime\<close>, \<open>strtof\<close>) are
  left out.
\<close>

section \<open>State\<close>

datatype ParseError = HREAD_INIT | HREAD_OK | HREAD_NO_DATA | HREAD_BAD_FIELD_SPEC | HREAD_NO_FIELD | HREAD_NO_STATUS_REASON
  | HREAD_NO_REQUEST_VERSION | HREAD_INVALID_STATUS_CODE | HREAD_NO_STATUS_CODE | HREAD_NO_REQUEST_URI

fun error_num :: "ParseError \<Rightarrow> nat" where
  "error_num HREAD_INIT = 0"
| "error_num HREAD_OK = 1"
| "error_num HREAD_NO_DATA = 2"
| "error_num HREAD_BAD_FIELD_SPEC = 3"
| "error_num HREAD_NO_FIELD = 4"
| "error_num HREAD_NO_STATUS_REASON = 5"
| "error_num HREAD_NO_REQUEST_VERSION = 6"
| "error_num HREAD_INVALID_STATUS_CODE = 7"
| "error_num HREAD_NO_STATUS_CODE = 8"
| "error_num HREAD_NO_REQUEST_URI = 9"

datatype FirstLineType = UNKNOWN_LINE | REQUEST_LINE | STATUS_LINE | ERROR_LINE

record Header =
  h_is_strict :: bool
  h_bytes_parsed :: nat
  h_parse_error :: ParseError
  h_last_parse_error :: ParseError
  h_crt_name :: bytes
  h_crt_content :: bytes
  h_version :: HttpVersion
  h_method :: HttpMethod
  h_uri :: bytes
  h_status_code :: int
  h_reason :: bytes
  h_first_line :: FirstLineType
  h_fields :: "(bytes \<times> bytes) list"
  h_verbatim :: bytes

definition Header_new :: "bool \<Rightarrow> Header" where
  "Header_new strict =
     \<lparr>h_is_strict = strict, h_bytes_parsed = 0, h_parse_error = HREAD_INIT, h_last_parse_error = HREAD_INIT,
      h_crt_name = [], h_crt_content = [], h_version = VERSION_UNKNOWN, h_method = METHOD_UNKNOWN, h_uri = [],
      h_status_code = 0, h_reason = [], h_first_line = UNKNOWN_LINE, h_fields = [], h_verbatim = []\<rparr>"

definition Header_Clear :: "Header \<Rightarrow> Header" where
  "Header_Clear h = Header_new (h_is_strict h)"

definition set_parse_error :: "ParseError \<Rightarrow> Header \<Rightarrow> Header" where
  "set_parse_error e h =
     h\<lparr>h_last_parse_error := e, h_parse_error := (if error_num e < error_num (h_parse_error h) then h_parse_error h else e)\<rparr>"

definition PrepareStatusLine :: "int \<Rightarrow> HttpVersion \<Rightarrow> Header \<Rightarrow> Header" where
  "PrepareStatusLine code v h =
     h\<lparr>h_first_line := STATUS_LINE, h_status_code := code, h_reason := GetHttpCodeDescription code, h_version := v\<rparr>"

definition PrepareRequestLine :: "bytes \<Rightarrow> HttpMethod \<Rightarrow> HttpVersion \<Rightarrow> Header \<Rightarrow> Header" where
  "PrepareRequestLine uri m v h = h\<lparr>h_first_line := REQUEST_LINE, h_uri := uri, h_method := m, h_version := v\<rparr>"

section \<open>Fields\<close>

text \<open>The capital letters of a name: the first letter after each character that is no letter.\<close>

fun normalize_chars :: "bool \<Rightarrow> bytes \<Rightarrow> bytes" where
  "normalize_chars up [] = []"
| "normalize_chars up (c # s) =
     (if c = 0 then c # s
      else if isalpha c then (if up then toupper c else tolower c) # normalize_chars False s
      else (if IsWhiteSpace c then 45 else c) # normalize_chars True s)"

text \<open>
  \<open>NormalizeFieldName\<close> trims white space at both ends; on a name of white space only the two
  loops overlap and the length wraps around.
\<close>

definition NormalizeFieldName :: "bytes \<Rightarrow> bytes option" where
  "NormalizeFieldName s =
     (if s \<noteq> [] \<and> list_all IsLwfChar s then None
      else Some (normalize_chars True (rev (dropWhile IsLwfChar (rev (dropWhile IsLwfChar s))))))"

text \<open>White space is accepted inside a name, not at its start.\<close>

definition IsValidFieldName :: "bytes \<Rightarrow> bool" where
  "IsValidFieldName s \<longleftrightarrow>
     s \<noteq> [] \<and> IsTokenChar (hd s) \<and> list_all (\<lambda>c. IsTokenChar c \<or> IsWhiteSpace c) (tl s)"

definition IsValidFieldContent :: "bytes \<Rightarrow> bool" where
  "IsValidFieldContent s \<longleftrightarrow> list_all (\<lambda>c. \<not> IsCtlChar c \<or> IsLwfChar c) s"

definition FindField :: "bytes \<Rightarrow> Header \<Rightarrow> bytes option" where
  "FindField name h = map_of (h_fields h) name"

text \<open>Insertion into the ordered map, or a new value for a key that is there.\<close>

fun fields_put :: "bytes \<Rightarrow> bytes \<Rightarrow> (bytes \<times> bytes) list \<Rightarrow> (bytes \<times> bytes) list" where
  "fields_put k v [] = [(k, v)]"
| "fields_put k v ((k', v') # fs) =
     (if k < k' then (k, v) # (k', v') # fs else if k = k' then (k, v) # fs else (k', v') # fields_put k v fs)"

definition comma :: bytes where
  "comma = [44, 32]"

text \<open>
  \<open>AddField\<close>. The flag \<open>as_is\<close> selects the normalization of the name, as the code has it. The
  content is a string whose length is the length passed along with it.
\<close>

definition AddField :: "bytes \<Rightarrow> bytes \<Rightarrow> bool \<Rightarrow> bool \<Rightarrow> Header \<Rightarrow> (bool \<times> Header) option" where
  "AddField name content replace as_is h =
     (if \<not> IsValidFieldName name \<or> \<not> IsValidFieldContent content then Some (False, h)
      else
        Option.bind (if as_is then NormalizeFieldName name else Some name) (\<lambda>n.
          Some (True, h\<lparr>h_fields := fields_put n
            (case FindField n h of
               None \<Rightarrow> c_str content
             | Some old \<Rightarrow> if replace \<or> old = [] then c_str content else old @ comma @ c_str content) (h_fields h)\<rparr>)))"

definition ClearField :: "bytes \<Rightarrow> bool \<Rightarrow> Header \<Rightarrow> (bool \<times> Header) option" where
  "ClearField name as_is h =
     Option.bind (if as_is then NormalizeFieldName name else Some name) (\<lambda>n.
       Some (FindField n h \<noteq> None, h\<lparr>h_fields := filter (\<lambda>x. fst x \<noteq> n) (h_fields h)\<rparr>))"

fun copy_fields :: "(bytes \<times> bytes) list \<Rightarrow> bool \<Rightarrow> Header \<Rightarrow> (nat \<times> Header) option" where
  "copy_fields [] replace h = Some (0, h)"
| "copy_fields ((k, v) # fs) replace h =
     Option.bind (AddField k v replace False h) (\<lambda>(ok, h1).
       map_option (\<lambda>(n, h2). ((if ok then 1 else 0) + n, h2)) (copy_fields fs replace h1))"

definition CopyHeaderFields :: "Header \<Rightarrow> bool \<Rightarrow> Header \<Rightarrow> (nat \<times> Header) option" where
  "CopyHeaderFields src replace h = copy_fields (h_fields src) replace h"

definition CopyHeaders :: "Header \<Rightarrow> bool \<Rightarrow> Header \<Rightarrow> (nat \<times> Header) option" where
  "CopyHeaders src replace h =
     map_option (\<lambda>(n, h1). (n, h1\<lparr>h_version := h_version src, h_method := h_method src, h_status_code := h_status_code src,
         h_uri := h_uri src, h_reason := h_reason src, h_first_line := h_first_line src\<rparr>))
       (CopyHeaderFields src replace h)"

section \<open>Writing\<close>

definition line_type_num :: "FirstLineType \<Rightarrow> nat" where
  "line_type_num t = (case t of UNKNOWN_LINE \<Rightarrow> 0 | REQUEST_LINE \<Rightarrow> 1 | STATUS_LINE \<Rightarrow> 2 | ERROR_LINE \<Rightarrow> 3)"

definition ComposeFirstLine :: "Header \<Rightarrow> bytes" where
  "ComposeFirstLine h =
     (if h_first_line h = REQUEST_LINE
      then GetHttpMethodName (h_method h) @ [32] @ h_uri h @ [32] @ GetHttpVersionName (h_version h) @ crlf
      else if h_first_line h = STATUS_LINE
      then GetHttpVersionName (h_version h) @ [32] @ IntToString (h_status_code h) @ [32] @ h_reason h @ crlf
      else ascii ''--- '' @ IntToString (int (line_type_num (h_first_line h))) @ ascii '' UNKNOWN'' @ crlf)"

definition field_line :: "bytes \<times> bytes \<Rightarrow> bytes" where
  "field_line f = fst f @ [58, 32] @ snd f @ crlf"

definition AppendToStream :: "Header \<Rightarrow> bytes \<Rightarrow> bytes" where
  "AppendToStream h io = io @ ComposeFirstLine h @ concat (map field_line (h_fields h)) @ h_verbatim h @ crlf"

section \<open>Reading\<close>

definition ParseStatusCode :: "bytes \<Rightarrow> Header \<Rightarrow> Header" where
  "ParseStatusCode s h =
     (case strtol 10 (c_str s) of
        None \<Rightarrow> (set_parse_error HREAD_INVALID_STATUS_CODE h)\<lparr>h_status_code := 0\<rparr>
      | Some v \<Rightarrow> h\<lparr>h_status_code := sint (word_of_int v :: 32 word)\<rparr>)"

text \<open>The second and third token, after the first one and the spaces behind it.\<close>

definition read_second_token :: "FirstLineType \<Rightarrow> bytes \<Rightarrow> Header \<Rightarrow> Header" where
  "read_second_token expected r h =
     (let tok = takeWhile (\<lambda>c. c \<noteq> 32) r; rest = dropWhile (\<lambda>c. c \<noteq> 32) r in
      if rest = [] then
        if expected = REQUEST_LINE
        then (set_parse_error HREAD_NO_REQUEST_VERSION (h\<lparr>h_first_line := ERROR_LINE\<rparr>))\<lparr>h_uri := r\<rparr>
        else ParseStatusCode r
               (if version_num (h_version h) \<le> version_num VERSION_1_0 then h\<lparr>h_first_line := expected\<rparr>
                else set_parse_error HREAD_NO_STATUS_REASON (h\<lparr>h_first_line := ERROR_LINE\<rparr>))
      else
        let third = dropWhile (\<lambda>c. c = 32) rest in
        if expected = REQUEST_LINE
        then h\<lparr>h_uri := tok, h_version := GetHttpVersion (c_str third), h_first_line := expected\<rparr>
        else (ParseStatusCode tok h)\<lparr>h_reason := third, h_first_line := expected\<rparr>)"

definition read_first_tokens :: "FirstLineType \<Rightarrow> bytes \<Rightarrow> Header \<Rightarrow> Header" where
  "read_first_tokens expected line h =
     (let tok = takeWhile (\<lambda>c. c \<noteq> 32) line; rest = dropWhile (\<lambda>c. c \<noteq> 32) line in
      if rest = [] then
        if expected = REQUEST_LINE
        then (set_parse_error HREAD_NO_REQUEST_URI (h\<lparr>h_first_line := ERROR_LINE\<rparr>))\<lparr>h_method := GetHttpMethod (c_str line)\<rparr>
        else (set_parse_error HREAD_NO_STATUS_CODE (h\<lparr>h_first_line := ERROR_LINE\<rparr>))\<lparr>h_version := GetHttpVersion (c_str line)\<rparr>
      else
        read_second_token expected (dropWhile (\<lambda>c. c = 32) rest)
          (if expected = REQUEST_LINE then h\<lparr>h_method := GetHttpMethod (c_str tok)\<rparr>
           else h\<lparr>h_version := GetHttpVersion (c_str tok)\<rparr>))"

definition cut_crlf :: "bytes \<Rightarrow> bytes" where
  "cut_crlf line = take (length line - 2) line"

definition ReadFirstLine :: "FirstLineType \<Rightarrow> bytes \<Rightarrow> Header \<Rightarrow> bool \<times> bytes \<times> Header" where
  "ReadFirstLine expected io h =
     (case spec_line 13 io of
        (None, io') \<Rightarrow> (False, io', set_parse_error HREAD_NO_DATA h)
      | (Some line, io') \<Rightarrow>
          (True, io', read_first_tokens expected (cut_crlf line) (h\<lparr>h_bytes_parsed := h_bytes_parsed h + length line\<rparr>)))"

definition AddCrtParsingData :: "Header \<Rightarrow> (bool \<times> Header) option" where
  "AddCrtParsingData h =
     (if h_crt_name h = [] then Some (True, h\<lparr>h_crt_name := [], h_crt_content := []\<rparr>)
      else
        let ok = (IsValidFieldName (h_crt_name h) \<and> IsValidFieldContent (h_crt_content h));
            h1 = (if ok then h else set_parse_error HREAD_BAD_FIELD_SPEC h)
        in if h_is_strict h \<and> \<not> ok then Some (ok, h1\<lparr>h_crt_name := [], h_crt_content := []\<rparr>)
           else Option.bind (NormalizeFieldName (h_crt_name h)) (\<lambda>n.
                  Some (ok, h1\<lparr>h_fields := fields_put n
                      (case FindField n h of None \<Rightarrow> h_crt_content h | Some old \<Rightarrow> old @ comma @ h_crt_content h) (h_fields h),
                    h_crt_name := [], h_crt_content := []\<rparr>)))"

text \<open>One line of the fields that is not empty.\<close>

definition read_field_line :: "bytes \<Rightarrow> Header \<Rightarrow> Header option" where
  "read_field_line line h =
     (if IsLwfChar (hd line) then
        if h_crt_name h = [] then Some (set_parse_error HREAD_NO_FIELD h)
        else Some (h\<lparr>h_crt_content := h_crt_content h @ [32] @ dropWhile IsLwfChar line\<rparr>)
      else
        Option.bind (AddCrtParsingData h) (\<lambda>(_, h1).
          let name = takeWhile (\<lambda>c. c \<noteq> 58) line; rest = dropWhile (\<lambda>c. c \<noteq> 58) line in
          Some (if rest = [] then set_parse_error HREAD_NO_FIELD h1
                else h1\<lparr>h_crt_name := name, h_crt_content := dropWhile IsLwfChar (tl rest)\<rparr>)))"

lemma spec_line_less: "spec_line prev io = (Some line, io') \<Longrightarrow> length io' < length io"
  by (auto simp: spec_line_def split: option.splits dest!: line_len_le)

function ReadHeaderFields :: "bytes \<Rightarrow> Header \<Rightarrow> (bool \<times> bytes \<times> Header) option" where
  "ReadHeaderFields io h =
     (case spec_line 13 io of
        (None, io') \<Rightarrow> Some (False, io', set_parse_error HREAD_NO_DATA h)
      | (Some line, io') \<Rightarrow>
          let h1 = h\<lparr>h_bytes_parsed := h_bytes_parsed h + length line\<rparr>; l = cut_crlf line in
          if l = [] then
            Option.bind (AddCrtParsingData h1) (\<lambda>(ok, h2). Some (True, io', if ok then set_parse_error HREAD_OK h2 else h2))
          else Option.bind (read_field_line l h1) (\<lambda>h2. ReadHeaderFields io' h2))"
  by pat_completeness auto
termination
  by (relation "measure (\<lambda>(io, h). length io)") (auto dest!: sym [of "(Some _, _)"] intro: spec_line_less)

declare ReadHeaderFields.simps [simp del]

definition ParseHeader :: "FirstLineType \<Rightarrow> bytes \<Rightarrow> Header \<Rightarrow> (bool \<times> bytes \<times> Header) option" where
  "ParseHeader expected io h =
     (if h_last_parse_error h = HREAD_OK then None
      else if h_bytes_parsed h = 0 then
        if h_parse_error h \<noteq> HREAD_INIT \<and> h_parse_error h \<noteq> HREAD_NO_DATA then None
        else (case ReadFirstLine expected io h of
                (False, io', h1) \<Rightarrow> Some (False, io', h1)
              | (True, io', h1) \<Rightarrow> ReadHeaderFields io' h1)
      else if h_parse_error h = HREAD_INIT then None
      else ReadHeaderFields io h)"

section \<open>What the fields say\<close>

definition field_or_empty :: "bytes \<Rightarrow> Header \<Rightarrow> bytes" where
  "field_or_empty name h = (case FindField name h of None \<Rightarrow> [] | Some v \<Rightarrow> v)"

definition IsChunkedTransfer :: "Header \<Rightarrow> bool" where
  "IsChunkedTransfer h \<longleftrightarrow> StrCasePrefix (c_str (StrTrim (field_or_empty kHeaderTransferEncoding h))) (ascii ''chunked'')"

definition SetChunkedTransfer :: "bool \<Rightarrow> Header \<Rightarrow> Header option" where
  "SetChunkedTransfer is_chunked h =
     map_option snd
       (if is_chunked then AddField kHeaderTransferEncoding (ascii ''chunked'') True False h
        else ClearField kHeaderTransferEncoding False h)"

definition IsGzipContentEncoding :: "Header \<Rightarrow> bool" where
  "IsGzipContentEncoding h \<longleftrightarrow> StrCasePrefix (c_str (StrTrim (field_or_empty kHeaderContentEncoding h))) (ascii ''gzip'')"

definition IsDeflateContentEncoding :: "Header \<Rightarrow> bool" where
  "IsDeflateContentEncoding h \<longleftrightarrow> StrCasePrefix (c_str (StrTrim (field_or_empty kHeaderContentEncoding h))) (ascii ''deflate'')"

definition IsKeepAliveConnection :: "Header \<Rightarrow> bool" where
  "IsKeepAliveConnection h \<longleftrightarrow> StrCasePrefix (c_str (StrTrim (field_or_empty kHeaderConnection h))) (ascii ''keep-alive'')"

definition SetContentEncoding :: "bytes option \<Rightarrow> Header \<Rightarrow> Header option" where
  "SetContentEncoding enc h =
     map_option snd
       (case enc of Some e \<Rightarrow> AddField kHeaderContentEncoding e True False h | None \<Rightarrow> ClearField kHeaderContentEncoding False h)"

definition IsZippableContentType :: "Header \<Rightarrow> bool" where
  "IsZippableContentType h =
     (case FindField kHeaderContentType h of
        None \<Rightarrow> False
      | Some s \<Rightarrow> StrCasePrefix (c_str s) (ascii ''text/'') \<or> StrCasePrefix (c_str s) (ascii ''application/''))"

definition kMaxInt64 :: int where
  "kMaxInt64 = 2 ^ 63 - 1"

definition DefaultBodyLen :: "Header \<Rightarrow> int" where
  "DefaultBodyLen h =
     (if h_first_line h = REQUEST_LINE \<and> (h_method h = METHOD_PUT \<or> h_method h = METHOD_POST) then kMaxInt64
      else if h_first_line h = STATUS_LINE then kMaxInt64
      else 0)"

text \<open>
  \<open>SetAuthorizationField\<close> and \<open>GetAuthorizationField\<close>. The reader looks for a space in the
  field and decodes from there on; without a space it follows a null pointer (\<open>None\<close>). The
  decoded text is cut at its first zero byte, like any C string.
\<close>

definition SetAuthorizationField :: "(nat \<Rightarrow> bytes) \<Rightarrow> bytes \<Rightarrow> bytes \<Rightarrow> Header \<Rightarrow> (bool \<times> Header) option" where
  "SetAuthorizationField junk user passwd h =
     (if 58 \<in> set user then Some (False, h)
      else
        let to_encode = user @ [58] @ passwd; buflen = 2 * length to_encode + 4 in
        Option.bind (EncodeBlock to_encode (junk buflen) InitEncodeState (sint (word_of_nat buflen :: 32 word))) (\<lambda>(len, buf, st).
        Option.bind (EncodeBlockEnd (drop len buf) st) (\<lambda>(len2, tl).
        Option.bind (put_char (take len buf @ tl) (len + len2) 0) (\<lambda>buf2.
          AddField kHeaderAuthorization (ascii ''Basic '' @ c_str buf2) True False h))))"

definition GetAuthorizationField :: "(nat \<Rightarrow> bytes) \<Rightarrow> Header \<Rightarrow> (bytes \<times> bytes) option option" where
  "GetAuthorizationField junk h =
     (case FindField kHeaderAuthorization h of
        None \<Rightarrow> Some None
      | Some s \<Rightarrow>
          if s = [] then Some None
          else
            let t = dropWhile isspace s; p = dropWhile (\<lambda>c. c \<noteq> 32) (c_str t) in
            if p = [] then None
            else
              let len = length (dropWhile (\<lambda>c. c \<noteq> 32) t) in
              Option.bind (DecodeBlock (dropWhile (\<lambda>c. c \<noteq> 32) t) (junk len) InitDecodeState) (\<lambda>(n, buf, _).
                if n = 0 then Some None
                else
                  Option.bind (put_char buf n 0) (\<lambda>buf2.
                    let d = take n buf2; c = c_str d in
                    if 58 \<notin> set c then Some None
                    else
                      let u = takeWhile (\<lambda>c. c \<noteq> 58) d
                      in Some (Some (u, drop (length u + 1) d)))))"

end
