(* ===== verification/HttpRequest.thy ===== *)
theory HttpRequest
  imports HttpHeader
begin

text \<open>
  Model of \<open>http::Request\<close> (\<open>src/whisperlib/http/http_request.h\<close> and the first part of
  \<open>http_request.cc\<close>): a request with its header and body on the client's and the server's side,
  and the functions that put it on the wire. Streams are byte sequences. The compressors of
  \<open>io/zlib\<close> are the record \<open>encoder\<close>, the acceptance of an encoding by a header (floating point
  preferences) is the argument \<open>accepts\<close>. A failed \<open>CHECK\<close> is \<open>None\<close>. The URL of the request is
  left out.
\<close>

section \<open>State\<close>

datatype CompressOption = COMPRESS_NONE | COMPRESS_GZIP | COMPRESS_DEFLATE

record RequestStats =
  st_client_size :: int
  st_server_size :: int
  st_client_raw_size :: int
  st_server_raw_size :: int

text \<open>
  The compressors: what \<open>BeginEncoding\<close>, \<open>ContinueEncoding\<close> (which reads all of its input) and
  \<open>EndEncoding\<close> append to the output; \<open>DeflateSize\<close> with the input left, the output and the size
  left.
\<close>

record ('e, 'd) encoder =
  ge_new :: 'e
  ge_BeginEncoding :: "'e \<Rightarrow> bytes \<times> 'e"
  ge_ContinueEncoding :: "'e \<Rightarrow> bytes \<Rightarrow> bytes \<times> 'e"
  ge_EndEncoding :: "'e \<Rightarrow> bytes \<times> 'e"
  de_new :: 'd
  de_DeflateSize :: "'d \<Rightarrow> bytes \<Rightarrow> nat \<Rightarrow> bytes \<times> bytes \<times> nat \<times> 'd"

record ('e, 'd) Request =
  r_client_data :: bytes
  r_client_header :: Header
  r_server_data :: bytes
  r_server_header :: Header
  r_in_chunk_encoding :: bool
  r_deflate_zwrapper :: "'d option"
  r_gzip_state_begin :: bool
  r_gzip_zwrapper :: "'e option"
  r_server_use_gzip_encoding :: bool
  r_server_gzip_drain_buffer :: bool
  r_compress_option :: CompressOption
  r_stats :: RequestStats

definition Request_new :: "bool \<Rightarrow> ('e, 'd) Request" where
  "Request_new strict_headers =
     \<lparr>r_client_data = [], r_client_header = Header_new strict_headers, r_server_data = [],
      r_server_header = Header_new strict_headers, r_in_chunk_encoding = False, r_deflate_zwrapper = None,
      r_gzip_state_begin = True, r_gzip_zwrapper = None, r_server_use_gzip_encoding = True,
      r_server_gzip_drain_buffer = True, r_compress_option = COMPRESS_NONE,
      r_stats = \<lparr>st_client_size = 0, st_server_size = 0, st_client_raw_size = 0, st_server_raw_size = 0\<rparr>\<rparr>"

definition NoServerBodyTransmitted :: "('e, 'd) Request \<Rightarrow> bool" where
  "NoServerBodyTransmitted r \<longleftrightarrow>
     (let code = h_status_code (r_server_header r) in
      h_method (r_client_header r) = METHOD_HEAD \<or> 100 \<le> code \<and> code < 200 \<or> code = 204 \<or> code = 304)"

section \<open>Chunks\<close>

definition kMaxInt32 :: int where
  "kMaxInt32 = 2 ^ 31 - 1"

text \<open>The head of a chunk; the size goes through an \<open>int\<close>, which \<open>%x\<close> prints as an unsigned one.\<close>

definition chunk_head :: "nat \<Rightarrow> bytes" where
  "chunk_head n = [48] @ print_nat 16 (unat (word_of_nat n :: 32 word)) @ crlf"

definition BufferAppendChunk :: "bytes \<Rightarrow> bytes \<Rightarrow> bool \<Rightarrow> nat \<Rightarrow> bytes \<times> bytes" where
  "BufferAppendChunk inp out add_decorations max_size =
     (let n = min max_size (length inp) in
      (drop n inp,
       out @ (if add_decorations then chunk_head n else []) @ take n inp @ (if add_decorations then crlf else [])))"

text \<open>\<open>while (!in->IsEmpty()) BufferAppendChunk(...)\<close>, which does not end for the size zero.\<close>

function append_chunks :: "bytes \<Rightarrow> bytes \<Rightarrow> bool \<Rightarrow> nat \<Rightarrow> bytes option" where
  "append_chunks inp out add_decorations max_size =
     (if inp = [] then Some out
      else if max_size = 0 then None
      else case BufferAppendChunk inp out add_decorations max_size of
             (inp', out') \<Rightarrow> append_chunks inp' out' add_decorations max_size)"
  by pat_completeness auto
termination
  by (relation "measure (\<lambda>(inp, _). length inp)") (auto simp: BufferAppendChunk_def Let_def)

declare append_chunks.simps [simp del]

definition last_chunk :: bytes where
  "last_chunk = ascii ''0'' @ crlf @ crlf"

text \<open>The number of bytes that \<open>max_chunk_size\<close> stands for.\<close>

definition chunk_limit :: "int \<Rightarrow> nat" where
  "chunk_limit max_chunk_size = nat (if max_chunk_size \<le> 0 then kMaxInt32 else max_chunk_size)"

text \<open>What the compressor makes of the data, and the data left.\<close>

definition compress_chunk ::
    "('e, 'd) encoder \<Rightarrow> bytes \<Rightarrow> ('e, 'd) Request \<Rightarrow> (bytes \<times> bytes \<times> ('e, 'd) Request) option" where
  "compress_chunk z src_data r =
     (if r_compress_option r = COMPRESS_GZIP then
        (case r_gzip_zwrapper r of
           None \<Rightarrow> None
         | Some g \<Rightarrow>
             let (t1, g1) = (if r_gzip_state_begin r then ge_BeginEncoding z g else ([], g));
                 (t2, g2) = ge_ContinueEncoding z g1 src_data;
                 fin = (src_data = [] \<or> r_server_gzip_drain_buffer r);
                 (t3, g3) = (if fin then ge_EndEncoding z g2 else ([], g2))
             in Some (t1 @ t2 @ t3, [], r\<lparr>r_gzip_zwrapper := Some g3, r_gzip_state_begin := fin\<rparr>))
      else
        (case r_deflate_zwrapper r of
           None \<Rightarrow> None
         | Some d \<Rightarrow>
             (case de_DeflateSize z d src_data (length src_data + (if src_data = [] then 0 else 1)) of
                (left, out, n, d') \<Rightarrow>
                  if n = 1 \<or> n = 0 \<and> src_data = []
                  then Some (out, left, r\<lparr>r_deflate_zwrapper := Some d'\<rparr>) else None)))"

text \<open>
  \<open>AppendChunkHelper\<close>: the answer (the last chunk was written), the data left, the output. Without
  \<open>BeginEncoding\<close> the gzip state stays as it is.
\<close>

definition AppendChunkHelper ::
    "('e, 'd) encoder \<Rightarrow> bytes \<Rightarrow> bytes \<Rightarrow> bool \<Rightarrow> int \<Rightarrow> ('e, 'd) Request \<Rightarrow>
       (bool \<times> bytes \<times> bytes \<times> ('e, 'd) Request) option" where
  "AppendChunkHelper z src_data out add_decorations max_chunk_size r =
     (let is_empty = (src_data = []);
          fin = (\<lambda>out' left r'. (True, left, out' @ (if add_decorations then last_chunk else []), r'\<lparr>r_in_chunk_encoding := False\<rparr>))
      in
      if r_compress_option r \<noteq> COMPRESS_NONE then
        Option.bind (compress_chunk z src_data r) (\<lambda>(tmp, left, r1).
          if tmp = [] then
            (if is_empty then Some (fin out left r1) else Some (False, left, out, r1))
          else
            Option.bind (append_chunks tmp out add_decorations (chunk_limit max_chunk_size)) (\<lambda>out1.
              if is_empty then Some (fin out1 left r1) else Some (False, left, out1, r1)))
      else if is_empty then Some (fin out src_data r)
      else map_option (\<lambda>out1. (False, [], out1, r)) (append_chunks src_data out add_decorations (chunk_limit max_chunk_size)))"

definition AppendClientChunk ::
    "('e, 'd) encoder \<Rightarrow> bytes \<Rightarrow> int \<Rightarrow> ('e, 'd) Request \<Rightarrow> (bool \<times> bytes \<times> ('e, 'd) Request) option" where
  "AppendClientChunk z out max_chunk_size r =
     map_option (\<lambda>(last, left, out', r'). (last, out', r'\<lparr>r_client_data := left\<rparr>))
       (AppendChunkHelper z (r_client_data r) out
          (version_num (h_version (r_client_header r)) \<ge> version_num VERSION_1_1) max_chunk_size r)"

definition AppendServerChunk ::
    "('e, 'd) encoder \<Rightarrow> bytes \<Rightarrow> bool \<Rightarrow> int \<Rightarrow> ('e, 'd) Request \<Rightarrow> (bool \<times> bytes \<times> ('e, 'd) Request) option" where
  "AppendServerChunk z out do_chunks max_chunk_size r =
     (if NoServerBodyTransmitted r then None
      else
        map_option (\<lambda>(last, left, out', r'). (last, out', r'\<lparr>r_server_data := left\<rparr>))
          (AppendChunkHelper z (r_server_data r) out
             (do_chunks \<and> version_num (h_version (r_client_header r)) \<ge> version_num VERSION_1_1) max_chunk_size r))"

text \<open>The loops that write chunks until the data is gone.\<close>

partial_function (option) client_chunk_loop ::
    "('e, 'd) encoder \<Rightarrow> bytes \<Rightarrow> int \<Rightarrow> ('e, 'd) Request \<Rightarrow> (bytes \<times> ('e, 'd) Request) option" where
  "client_chunk_loop z out max_chunk_size r =
     (if r_client_data r = [] then Some (out, r)
      else Option.bind (AppendClientChunk z out max_chunk_size r) (\<lambda>(_, out', r').
             client_chunk_loop z out' max_chunk_size r'))"

partial_function (option) server_chunk_loop ::
    "('e, 'd) encoder \<Rightarrow> bytes \<Rightarrow> bool \<Rightarrow> int \<Rightarrow> ('e, 'd) Request \<Rightarrow> (bytes \<times> ('e, 'd) Request) option" where
  "server_chunk_loop z out do_chunks max_chunk_size r =
     (if r_server_data r = [] then Some (out, r)
      else Option.bind (AppendServerChunk z out do_chunks max_chunk_size r) (\<lambda>(_, out', r').
             server_chunk_loop z out' do_chunks max_chunk_size r'))"

section \<open>Requests and replies\<close>

definition kHeaderAcceptEncoding :: bytes where
  "kHeaderAcceptEncoding = ascii ''Accept-Encoding''"

text \<open>The body in one piece: compressed, and what is left of the data behind it.\<close>

definition compress_body ::
    "('e, 'd) encoder \<Rightarrow> bytes \<Rightarrow> ('e, 'd) Request \<Rightarrow> (bytes \<times> bytes \<times> ('e, 'd) Request) option" where
  "compress_body z data r =
     (case r_compress_option r of
        COMPRESS_GZIP \<Rightarrow>
          (case r_gzip_zwrapper r of
             None \<Rightarrow> None
           | Some g \<Rightarrow>
               let (t1, g1) = ge_BeginEncoding z g; (t2, g2) = ge_ContinueEncoding z g1 data; (t3, g3) = ge_EndEncoding z g2
               in Some (t1 @ t2 @ t3, [], r\<lparr>r_gzip_zwrapper := Some g3\<rparr>))
      | COMPRESS_DEFLATE \<Rightarrow>
          (case r_deflate_zwrapper r of
             None \<Rightarrow> None
           | Some d \<Rightarrow> (case de_DeflateSize z d data (length data) of (left, out, n, d') \<Rightarrow>
                          Some (out, left, r\<lparr>r_deflate_zwrapper := Some d'\<rparr>)))
      | COMPRESS_NONE \<Rightarrow> Some (data, [], r))"

definition update_client :: "(Header \<Rightarrow> Header option) \<Rightarrow> ('e, 'd) Request \<Rightarrow> ('e, 'd) Request option" where
  "update_client f r = map_option (\<lambda>h. r\<lparr>r_client_header := h\<rparr>) (f (r_client_header r))"

definition update_server :: "(Header \<Rightarrow> Header option) \<Rightarrow> ('e, 'd) Request \<Rightarrow> ('e, 'd) Request option" where
  "update_server f r = map_option (\<lambda>h. r\<lparr>r_server_header := h\<rparr>) (f (r_server_header r))"

definition set_field :: "bytes \<Rightarrow> bytes \<Rightarrow> Header \<Rightarrow> Header option" where
  "set_field name content h = map_option snd (AddField name content True False h)"

definition clear_field :: "bytes \<Rightarrow> Header \<Rightarrow> Header option" where
  "clear_field name h = map_option snd (ClearField name False h)"

text \<open>The choice of the compression of a client's request.\<close>

definition prepare_client_encoding :: "('e, 'd) encoder \<Rightarrow> ('e, 'd) Request \<Rightarrow> ('e, 'd) Request option" where
  "prepare_client_encoding z r =
     (let h = r_client_header r; zippable_content = IsZippableContentType h; old = version_num (h_version h) < version_num VERSION_1_0 in
      if IsGzipContentEncoding h \<and> zippable_content then
        (if old then None
         else update_client (SetContentEncoding (Some (ascii ''gzip'')))
                (r\<lparr>r_gzip_state_begin := True, r_gzip_zwrapper := Some (ge_new z), r_compress_option := COMPRESS_GZIP\<rparr>))
      else if IsDeflateContentEncoding h \<and> zippable_content then
        (if old then None
         else update_client (SetContentEncoding (Some (ascii ''deflate'')))
                (r\<lparr>r_deflate_zwrapper := Some (de_new z), r_compress_option := COMPRESS_DEFLATE\<rparr>))
      else update_client (SetContentEncoding None) (r\<lparr>r_compress_option := COMPRESS_NONE\<rparr>))"

definition AppendClientRequest ::
    "('e, 'd) encoder \<Rightarrow> bytes \<Rightarrow> int \<Rightarrow> ('e, 'd) Request \<Rightarrow> (bytes \<times> ('e, 'd) Request) option" where
  "AppendClientRequest z out max_chunk_size r =
     (if r_in_chunk_encoding r \<or> h_first_line (r_client_header r) \<noteq> REQUEST_LINE then None
      else
        Option.bind (prepare_client_encoding z r) (\<lambda>r1.
        Option.bind (update_client
            (if r_server_use_gzip_encoding r1 then set_field kHeaderAcceptEncoding (ascii ''gzip, deflate'')
             else clear_field kHeaderAcceptEncoding) r1) (\<lambda>r2.
        map_option (\<lambda>(out', r').
            (out', r'\<lparr>r_stats := (r_stats r')
               \<lparr>st_client_raw_size := st_client_raw_size (r_stats r') + int (length out') - int (length out),
                st_client_size := st_client_size (r_stats r') + int (length (r_client_data r)) - int (length (r_client_data r'))\<rparr>\<rparr>))
          (if IsChunkedTransfer (r_client_header r2) then
             if version_num (h_version (r_client_header r2)) < version_num VERSION_1_1 then None
             else client_chunk_loop z (AppendToStream (r_client_header r2) out) max_chunk_size (r2\<lparr>r_in_chunk_encoding := True\<rparr>)
           else
             Option.bind (update_client (SetChunkedTransfer False) r2) (\<lambda>r3.
             Option.bind (compress_body z (r_client_data r3) r3) (\<lambda>(source, left, r4).
             let data = (if r_compress_option r4 = COMPRESS_NONE then source else left) in
             Option.bind (if data \<noteq> [] \<or> h_method (r_client_header r4) = METHOD_POST \<or> h_method (r_client_header r4) = METHOD_PUT
                          then update_client (set_field kHeaderContentLength (IntToString (int (length source)))) r4
                          else Some r4) (\<lambda>r5.
               Some (AppendToStream (r_client_header r5) out @ source, r5\<lparr>r_client_data := left\<rparr>))))))))"

text \<open>\<open>IsGzipAcceptableEncoding\<close> and \<open>IsDeflateAcceptableEncoding\<close> of the client's header.\<close>

definition acceptable :: "(Header \<Rightarrow> bytes \<Rightarrow> bool) \<Rightarrow> Header \<Rightarrow> bytes \<Rightarrow> bool" where
  "acceptable accepts h enc \<longleftrightarrow> version_num (h_version h) \<ge> version_num VERSION_1_0 \<and> accepts h enc"

text \<open>
  The choice of the compression of a reply. When the client accepts neither encoding, the field is
  cleared and the compression option keeps its value.
\<close>

definition prepare_server_encoding ::
    "(Header \<Rightarrow> bytes \<Rightarrow> bool) \<Rightarrow> ('e, 'd) encoder \<Rightarrow> ('e, 'd) Request \<Rightarrow> ('e, 'd) Request option" where
  "prepare_server_encoding accepts z r =
     (if r_server_use_gzip_encoding r \<and> IsZippableContentType (r_server_header r) then
        if acceptable accepts (r_client_header r) (ascii ''gzip'') then
          update_server (SetContentEncoding (Some (ascii ''gzip'')))
            (r\<lparr>r_gzip_zwrapper := Some (ge_new z), r_compress_option := COMPRESS_GZIP\<rparr>)
        else if acceptable accepts (r_client_header r) (ascii ''deflate'') then
          update_server (SetContentEncoding (Some (ascii ''deflate'')))
            (r\<lparr>r_deflate_zwrapper := Some (de_new z), r_compress_option := COMPRESS_DEFLATE\<rparr>)
        else update_server (SetContentEncoding None) r
      else update_server (SetContentEncoding None) (r\<lparr>r_compress_option := COMPRESS_NONE\<rparr>))"

definition set_server_version :: "('e, 'd) Request \<Rightarrow> ('e, 'd) Request" where
  "set_server_version r =
     (let h = r_server_header r;
          h1 = (if h_version h = VERSION_UNKNOWN then h\<lparr>h_version := VERSION_1_1\<rparr> else h);
          h2 = (if version_num (h_version h1) > version_num (h_version (r_client_header r)) then h1\<lparr>h_version := VERSION_1_0\<rparr> else h1)
      in r\<lparr>r_server_header := h2\<rparr>)"

definition AppendServerReply ::
    "(Header \<Rightarrow> bytes \<Rightarrow> bool) \<Rightarrow> ('e, 'd) encoder \<Rightarrow> bytes \<Rightarrow> bool \<Rightarrow> bool \<Rightarrow> int \<Rightarrow> ('e, 'd) Request \<Rightarrow>
       (bytes \<times> ('e, 'd) Request) option" where
  "AppendServerReply accepts z out streaming do_chunks max_chunk_size r =
     (if r_in_chunk_encoding r \<or> h_first_line (r_server_header r) \<noteq> STATUS_LINE then None
      else
        Option.bind (prepare_server_encoding accepts z (set_server_version r)) (\<lambda>r2.
        map_option (\<lambda>(out', r').
            (out', r'\<lparr>r_stats := (r_stats r')
               \<lparr>st_server_raw_size := st_server_raw_size (r_stats r') + int (length out') - int (length out),
                st_server_size := st_server_size (r_stats r') + int (length (r_server_data r)) - int (length (r_server_data r'))\<rparr>\<rparr>))
          (if streaming then
             Option.bind (update_server (SetChunkedTransfer
                 (do_chunks \<and> version_num (h_version (r_client_header r2)) \<ge> version_num VERSION_1_1)) r2) (\<lambda>r3.
             let out1 = AppendToStream (r_server_header r3) out in
             if NoServerBodyTransmitted r3 then Some (out1, r3)
             else server_chunk_loop z out1 do_chunks max_chunk_size (r3\<lparr>r_in_chunk_encoding := True\<rparr>))
           else
             Option.bind (update_server (SetChunkedTransfer False) r2) (\<lambda>r3.
             Option.bind (compress_body z (r_server_data r3) r3) (\<lambda>(source, left, r4).
             let code = h_status_code (r_server_header r4) in
             Option.bind (if (code < 100 \<or> 200 \<le> code) \<and> code \<noteq> 204 \<and> code \<noteq> 304 \<and> h_method (r_client_header r4) \<noteq> METHOD_HEAD
                          then update_server (set_field kHeaderContentLength (IntToString (int (length source)))) r4
                          else Some r4) (\<lambda>r5.
               Some (AppendToStream (r_server_header r5) out @ source, r5\<lparr>r_server_data := left\<rparr>)))))))"

end
