(* ===== verification/HttpParser.thy ===== *)
theory HttpParser
  imports HttpRequest
begin

unbundle bit_operations_syntax

text \<open>
  Model of \<open>http::RequestParser\<close> (\<open>src/whisperlib/http/http_request.h\<close> and the second part of
  \<open>http_request.cc\<close>), the incremental parser of requests and replies. \<open>body_size_to_read_\<close> and
  \<open>chunk_size_to_read_\<close> are set from numbers that are not negative and are decreased by at most
  themselves: natural numbers. The decompressors of \<open>io/zlib\<close> are the record \<open>decoder\<close>: the
  zlib result, how many bytes of the input were read, the output, the next state. A failed
  \<open>CHECK\<close> or a \<open>LOG_FATAL\<close> is \<open>None\<close>.
\<close>

section \<open>State\<close>

datatype ParseState = STATE_INITIALIZED | STATE_HEADER_READING | STATE_END_OF_HEADER | STATE_END_OF_HEADER_FINAL
  | STATE_BODY_READING | STATE_BODY_END | STATE_CHUNK_HEAD_READING | STATE_CHUNK_READING | STATE_END_OF_CHUNK
  | STATE_LAST_CHUNK_READ | STATE_END_OF_TRAIL_HEADER
  | ERROR_HEADER_BAD | ERROR_HEADER_BAD_CONTENT_LEN | ERROR_HEADER_TOO_LONG | ERROR_HEADER_LINE
  | ERROR_CONTENT_TOO_LONG | ERROR_TRANSFER_ENCODING_UNKNOWN | ERROR_CONTENT_ENCODING_UNKNOWN
  | ERROR_CONTENT_GZIP_TOO_LONG | ERROR_CONTENT_GZIP_ERROR | ERROR_CONTENT_GZIP_UNFINISHED
  | ERROR_CHUNK_HEADER_TOO_LONG | ERROR_CHUNK_TOO_LONG | ERROR_CHUNK_TOO_MANY | ERROR_CHUNK_TRAIL_HEADER
  | ERROR_CHUNK_BAD_CHUNK_LENGTH | ERROR_CHUNK_BAD_CHUNK_TERMINATION | ERROR_CHUNK_BIGGER_THEN_DECLARED
  | ERROR_CHUNK_UNFINISHED_GZIP_CONTENT | ERROR_CHUNK_CONTINUED_FINISHED_GZIP_CONTENT
  | ERROR_CHUNK_CONTENT_GZIP_TOO_LONG | ERROR_CHUNK_CONTENT_GZIP_ERROR | ERROR_CHUNK_TRAILER_TOO_LONG

fun state_num :: "ParseState \<Rightarrow> nat" where
  "state_num STATE_INITIALIZED = 0"
| "state_num STATE_HEADER_READING = 1"
| "state_num STATE_END_OF_HEADER = 2"
| "state_num STATE_END_OF_HEADER_FINAL = 100"
| "state_num STATE_BODY_READING = 10"
| "state_num STATE_BODY_END = 110"
| "state_num STATE_CHUNK_HEAD_READING = 21"
| "state_num STATE_CHUNK_READING = 22"
| "state_num STATE_END_OF_CHUNK = 23"
| "state_num STATE_LAST_CHUNK_READ = 24"
| "state_num STATE_END_OF_TRAIL_HEADER = 120"
| "state_num ERROR_HEADER_BAD = 200"
| "state_num ERROR_HEADER_BAD_CONTENT_LEN = 201"
| "state_num ERROR_HEADER_TOO_LONG = 202"
| "state_num ERROR_HEADER_LINE = 203"
| "state_num ERROR_CONTENT_TOO_LONG = 210"
| "state_num ERROR_TRANSFER_ENCODING_UNKNOWN = 211"
| "state_num ERROR_CONTENT_ENCODING_UNKNOWN = 212"
| "state_num ERROR_CONTENT_GZIP_TOO_LONG = 213"
| "state_num ERROR_CONTENT_GZIP_ERROR = 214"
| "state_num ERROR_CONTENT_GZIP_UNFINISHED = 215"
| "state_num ERROR_CHUNK_HEADER_TOO_LONG = 220"
| "state_num ERROR_CHUNK_TOO_LONG = 221"
| "state_num ERROR_CHUNK_TOO_MANY = 222"
| "state_num ERROR_CHUNK_TRAIL_HEADER = 223"
| "state_num ERROR_CHUNK_BAD_CHUNK_LENGTH = 224"
| "state_num ERROR_CHUNK_BAD_CHUNK_TERMINATION = 225"
| "state_num ERROR_CHUNK_BIGGER_THEN_DECLARED = 226"
| "state_num ERROR_CHUNK_UNFINISHED_GZIP_CONTENT = 227"
| "state_num ERROR_CHUNK_CONTINUED_FINISHED_GZIP_CONTENT = 228"
| "state_num ERROR_CHUNK_CONTENT_GZIP_TOO_LONG = 229"
| "state_num ERROR_CHUNK_CONTENT_GZIP_ERROR = 230"
| "state_num ERROR_CHUNK_TRAILER_TOO_LONG = 231"

text \<open>The answers of the parser are sets of bits.\<close>

definition HEADER_READ :: int where "HEADER_READ = 1"
definition BODY_READING :: int where "BODY_READING = 2"
definition CHUNKED_BODY_READING :: int where "CHUNKED_BODY_READING = 4"
definition CHUNKED_TRAILER_READING :: int where "CHUNKED_TRAILER_READING = 8"
definition BODY_FINISHED :: int where "BODY_FINISHED = 16"
definition CHUNKS_FINISHED :: int where "CHUNKS_FINISHED = 32"
definition REQUEST_FINISHED :: int where "REQUEST_FINISHED = 64"
definition CONTINUE :: int where "CONTINUE = 128"

lemmas read_state_defs = HEADER_READ_def BODY_READING_def CHUNKED_BODY_READING_def CHUNKED_TRAILER_READING_def
  BODY_FINISHED_def CHUNKS_FINISHED_def REQUEST_FINISHED_def CONTINUE_def

datatype NextChunkExpectation = EXPECT_CHUNK_NONE | EXPECT_CHUNK_EMPTY | EXPECT_CHUNK_NON_EMPTY

record ('g, 'i) decoder =
  gz_new :: 'g
  gz_Decode :: "'g \<Rightarrow> bytes \<Rightarrow> int \<times> nat \<times> bytes \<times> 'g"
  inf_new :: 'i
  inf_InflateSize :: "'i \<Rightarrow> bytes \<Rightarrow> int \<times> nat \<times> bytes \<times> 'i"

definition Z_OK :: int where "Z_OK = 0"
definition Z_STREAM_END :: int where "Z_STREAM_END = 1"

record ('g, 'i) RequestParser =
  p_max_header_size :: nat
  p_max_body_size :: int
  p_max_chunk_size :: int
  p_max_num_chunks :: int
  p_accept_wrong_method :: bool
  p_accept_wrong_version :: bool
  p_accept_no_content_length :: bool
  p_worst_accepted_header_error :: ParseError
  p_parse_state :: ParseState
  p_body_size_to_read :: nat
  p_chunk_size_to_read :: nat
  p_num_chunks_read :: int
  p_next_chunk_expectation :: NextChunkExpectation
  p_partial_data :: bytes
  p_trail_header :: Header
  p_inflate_zwrapper :: "'i option"
  p_gzip_zwrapper :: "'g option"

definition InFinalState :: "('g, 'i) RequestParser \<Rightarrow> bool" where
  "InFinalState p \<longleftrightarrow> state_num (p_parse_state p) \<ge> 100"

definition InErrorState :: "('g, 'i) RequestParser \<Rightarrow> bool" where
  "InErrorState p \<longleftrightarrow> state_num (p_parse_state p) \<ge> 200"

definition set_parse_state :: "ParseState \<Rightarrow> ('g, 'i) RequestParser \<Rightarrow> ('g, 'i) RequestParser" where
  "set_parse_state s p = p\<lparr>p_parse_state := s\<rparr>"

definition Parser_Clear :: "('g, 'i) RequestParser \<Rightarrow> ('g, 'i) RequestParser" where
  "Parser_Clear p =
     p\<lparr>p_parse_state := STATE_INITIALIZED, p_body_size_to_read := 0, p_chunk_size_to_read := 0, p_num_chunks_read := 0,
       p_next_chunk_expectation := EXPECT_CHUNK_NONE, p_partial_data := [], p_trail_header := Header_Clear (p_trail_header p),
       p_inflate_zwrapper := None, p_gzip_zwrapper := None\<rparr>"

definition RequestParser_new ::
    "nat \<Rightarrow> int \<Rightarrow> int \<Rightarrow> int \<Rightarrow> bool \<Rightarrow> bool \<Rightarrow> bool \<Rightarrow> ParseError \<Rightarrow> ('g, 'i) RequestParser" where
  "RequestParser_new max_header_size max_body_size max_chunk_size max_num_chunks wrong_method wrong_version no_length worst =
     \<lparr>p_max_header_size = max_header_size, p_max_body_size = max_body_size, p_max_chunk_size = max_chunk_size,
      p_max_num_chunks = max_num_chunks, p_accept_wrong_method = wrong_method, p_accept_wrong_version = wrong_version,
      p_accept_no_content_length = no_length, p_worst_accepted_header_error = worst,
      p_parse_state = STATE_INITIALIZED, p_body_size_to_read = 0, p_chunk_size_to_read = 0, p_num_chunks_read = 0,
      p_next_chunk_expectation = EXPECT_CHUNK_NONE, p_partial_data = [], p_trail_header = Header_new True,
      p_inflate_zwrapper = None, p_gzip_zwrapper = None\<rparr>"

section \<open>Encodings\<close>

definition IsKnownContentEncoding :: "Header \<Rightarrow> bool" where
  "IsKnownContentEncoding h =
     (case FindField kHeaderContentEncoding h of
        None \<Rightarrow> True
      | Some s \<Rightarrow> let t = StrTrim s in
          t = [] \<or> StrCasePrefix (c_str t) (ascii ''gzip'') \<or> StrCasePrefix (c_str t) (ascii ''deflate'') \<or>
          StrCasePrefix (c_str t) (ascii ''identity''))"

definition IsKnownTransferEncoding :: "Header \<Rightarrow> bool" where
  "IsKnownTransferEncoding h =
     (case FindField kHeaderTransferEncoding h of
        None \<Rightarrow> True
      | Some s \<Rightarrow> let t = StrTrim s in
          t = [] \<or> StrCasePrefix (c_str t) (ascii ''chunked'') \<or> StrCasePrefix (c_str t) (ascii ''identity''))"

text \<open>Whether the content is to be unzipped, or inflated: a parser that once fell back stays with the latter.\<close>

definition reads_gzip :: "Header \<Rightarrow> ('g, 'i) RequestParser \<Rightarrow> bool" where
  "reads_gzip h p \<longleftrightarrow> IsGzipContentEncoding h \<and> p_inflate_zwrapper p = None"

definition reads_deflate :: "Header \<Rightarrow> ('g, 'i) RequestParser \<Rightarrow> bool" where
  "reads_deflate h p \<longleftrightarrow> IsDeflateContentEncoding h \<or> p_inflate_zwrapper p \<noteq> None \<and> IsGzipContentEncoding h"

section \<open>The body of a known length\<close>

datatype gzip_outcome = GzMore | GzEnd | GzError | GzDeflate | GzUnfinished

text \<open>
  The loop over the gzip members in \<open>partial_data_\<close>; \<open>left\<close> is the rest of the body that has not
  arrived. An error on the first use of the decoder is the fall back to deflate, which reads the
  data of this round again.
\<close>

function gzip_body_loop ::
    "('g, 'i) decoder \<Rightarrow> bool \<Rightarrow> nat \<Rightarrow> 'g \<Rightarrow> bytes \<Rightarrow> bytes \<Rightarrow> gzip_outcome \<times> 'g \<times> bytes \<times> bytes" where
  "gzip_body_loop z maybe_try_deflate left g data out =
     (case gz_Decode z g data of
        (zerr, n, tmp, g') \<Rightarrow>
          let rest = drop n data; consumed = length data - length rest in
          if zerr = Z_STREAM_END then
            if left = 0 \<and> rest = [] then (GzEnd, g', rest, out @ tmp)
            else if consumed > 0 \<and> rest \<noteq> [] then gzip_body_loop z maybe_try_deflate left g' rest (out @ tmp)
            else (GzMore, g', rest, out @ tmp)
          else if zerr \<noteq> Z_OK then
            if \<not> maybe_try_deflate then (GzError, g', rest, out) else (GzDeflate, g', data, out)
          else if left = 0 then (GzUnfinished, g', rest, out @ tmp)
          else if consumed > 0 \<and> rest \<noteq> [] then gzip_body_loop z maybe_try_deflate left g' rest (out @ tmp)
          else (GzMore, g', rest, out @ tmp))"
  by pat_completeness auto
termination
  by (relation "measure (\<lambda>(_, _, _, _, data, _). length data)") auto

declare gzip_body_loop.simps [simp del]

definition inflate_body ::
    "('g, 'i) decoder \<Rightarrow> bytes \<Rightarrow> ('g, 'i) RequestParser \<Rightarrow> int \<times> bytes \<times> ('g, 'i) RequestParser" where
  "inflate_body z out p =
     (case inf_InflateSize z (case p_inflate_zwrapper p of None \<Rightarrow> inf_new z | Some i \<Rightarrow> i) (p_partial_data p) of
        (zerr, n, tmp, i') \<Rightarrow> (zerr, out @ tmp, p\<lparr>p_inflate_zwrapper := Some i', p_partial_data := drop n (p_partial_data p)\<rparr>))"

definition deflate_body_end ::
    "('g, 'i) decoder \<Rightarrow> bytes \<Rightarrow> ('g, 'i) RequestParser \<Rightarrow> int \<times> bytes \<times> ('g, 'i) RequestParser" where
  "deflate_body_end z out p =
     (case inflate_body z out p of
        (zerr, out', p') \<Rightarrow>
          if zerr = Z_STREAM_END then
            if p_body_size_to_read p' > 0
            then (HEADER_READ OR BODY_READING OR REQUEST_FINISHED, out', set_parse_state ERROR_CONTENT_GZIP_TOO_LONG p')
            else (HEADER_READ OR BODY_FINISHED OR REQUEST_FINISHED, out', set_parse_state STATE_BODY_END p')
          else if zerr \<noteq> Z_OK
          then (HEADER_READ OR BODY_READING OR REQUEST_FINISHED, out', set_parse_state ERROR_CONTENT_GZIP_ERROR p')
          else (HEADER_READ OR BODY_READING, out', p'))"

definition ParseBodyInternal ::
    "('g, 'i) decoder \<Rightarrow> bytes \<Rightarrow> Header \<Rightarrow> bytes \<Rightarrow> ('g, 'i) RequestParser \<Rightarrow>
       (int \<times> bytes \<times> bytes \<times> ('g, 'i) RequestParser) option" where
  "ParseBodyInternal z inp header out p =
     (if p_parse_state p \<noteq> STATE_BODY_READING then None
      else if p_max_body_size p \<ge> 0 \<and> int (p_body_size_to_read p) > p_max_body_size p
      then Some (HEADER_READ OR REQUEST_FINISHED, inp, out, set_parse_state ERROR_CONTENT_TOO_LONG p)
      else
        let to_read = min (p_body_size_to_read p) (length inp);
            inp' = drop to_read inp;
            p1 = p\<lparr>p_partial_data := p_partial_data p @ take to_read inp, p_body_size_to_read := p_body_size_to_read p - to_read\<rparr>
        in
        if reads_gzip header p then
          if IsDeflateContentEncoding header then None
          else
            (case gzip_body_loop z (p_gzip_zwrapper p = None) (p_body_size_to_read p1)
                    (case p_gzip_zwrapper p of None \<Rightarrow> gz_new z | Some g \<Rightarrow> g) (p_partial_data p1) out of
               (r, g', data, out') \<Rightarrow>
                 let p2 = p1\<lparr>p_gzip_zwrapper := Some g', p_partial_data := data\<rparr> in
                 (case r of
                    GzEnd \<Rightarrow> Some (HEADER_READ OR BODY_FINISHED OR REQUEST_FINISHED, inp', out', set_parse_state STATE_BODY_END p2)
                  | GzError \<Rightarrow> Some (HEADER_READ OR BODY_READING OR REQUEST_FINISHED, inp', out', p2)
                  | GzUnfinished \<Rightarrow>
                      Some (HEADER_READ OR BODY_FINISHED OR REQUEST_FINISHED, inp', out', set_parse_state ERROR_CONTENT_GZIP_UNFINISHED p2)
                  | GzDeflate \<Rightarrow> (case deflate_body_end z out' p2 of (rs, o2, p3) \<Rightarrow> Some (rs, inp', o2, p3))
                  | GzMore \<Rightarrow> Some (HEADER_READ OR BODY_READING, inp', out', p2)))
        else if reads_deflate header p
        then (case deflate_body_end z out p1 of (rs, o2, p3) \<Rightarrow> Some (rs, inp', o2, p3))
        else
          let out' = out @ p_partial_data p1; p2 = p1\<lparr>p_partial_data := []\<rparr> in
          if p_body_size_to_read p2 = 0
          then Some (HEADER_READ OR BODY_FINISHED OR REQUEST_FINISHED, inp', out', set_parse_state STATE_BODY_END p2)
          else Some (HEADER_READ OR BODY_READING, inp', out', p2))"

section \<open>Chunks\<close>

text \<open>
  The states of \<open>ParseChunksInternal\<close>. Each returns what the function returns, or nothing when its
  loop goes on.
\<close>

definition chunk_error ::
    "ParseState \<Rightarrow> bytes \<Rightarrow> ('g, 'i) RequestParser \<Rightarrow> int option \<times> bytes \<times> ('g, 'i) RequestParser" where
  "chunk_error s inp p = (Some (HEADER_READ OR CHUNKED_BODY_READING OR REQUEST_FINISHED), inp, set_parse_state s p)"

definition ReadChunkHead ::
    "bytes \<Rightarrow> ('g, 'i) RequestParser \<Rightarrow> int option \<times> bytes \<times> ('g, 'i) RequestParser" where
  "ReadChunkHead inp p =
     (case spec_line 13 inp of
        (None, inp') \<Rightarrow>
          if length inp' > p_max_header_size p then chunk_error ERROR_CHUNK_HEADER_TOO_LONG inp' p
          else (Some (HEADER_READ OR CHUNKED_BODY_READING), inp', p)
      | (Some line, inp') \<Rightarrow>
          (case strtol 16 (c_str (cut_crlf line)) of
             None \<Rightarrow> chunk_error ERROR_CHUNK_BAD_CHUNK_LENGTH inp' p
           | Some chunk_length \<Rightarrow>
               if chunk_length < 0 then chunk_error ERROR_CHUNK_BAD_CHUNK_LENGTH inp' p
               else if chunk_length = 0 then
                 if p_next_chunk_expectation p = EXPECT_CHUNK_NON_EMPTY
                 then chunk_error ERROR_CHUNK_UNFINISHED_GZIP_CONTENT inp' p
                 else (None, inp', set_parse_state STATE_LAST_CHUNK_READ (p\<lparr>p_next_chunk_expectation := EXPECT_CHUNK_NONE\<rparr>))
               else if p_next_chunk_expectation p = EXPECT_CHUNK_EMPTY
               then chunk_error ERROR_CHUNK_CONTINUED_FINISHED_GZIP_CONTENT inp' p
               else if chunk_length > p_max_chunk_size p then chunk_error ERROR_CHUNK_TOO_LONG inp' p
               else
                 let p1 = p\<lparr>p_next_chunk_expectation := EXPECT_CHUNK_NONE, p_num_chunks_read := p_num_chunks_read p + 1\<rparr> in
                 if p_max_num_chunks p1 \<ge> 0 \<and> p_num_chunks_read p1 > p_max_num_chunks p1
                 then chunk_error ERROR_CHUNK_TOO_MANY inp' p1
                 else (None, inp', set_parse_state STATE_CHUNK_READING (p1\<lparr>p_chunk_size_to_read := nat chunk_length\<rparr>))))"

definition ReadChunkEnd ::
    "bytes \<Rightarrow> ('g, 'i) RequestParser \<Rightarrow> int option \<times> bytes \<times> ('g, 'i) RequestParser" where
  "ReadChunkEnd inp p =
     (case spec_line 13 inp of
        (None, inp') \<Rightarrow>
          if length inp' > 2 then chunk_error ERROR_CHUNK_BAD_CHUNK_TERMINATION inp' p
          else (Some (HEADER_READ OR CHUNKED_BODY_READING), inp', p)
      | (Some line, inp') \<Rightarrow>
          if cut_crlf line \<noteq> [] then chunk_error ERROR_CHUNK_BIGGER_THEN_DECLARED inp' p
          else (None, inp', set_parse_state STATE_CHUNK_HEAD_READING p))"

definition kMinGzipDataSize :: nat where
  "kMinGzipDataSize = 18"

text \<open>The loop over the gzip members of a chunk: the outcome, the decoder, the data left, the output, the expectation.\<close>

function gzip_chunk_loop ::
    "('g, 'i) decoder \<Rightarrow> bool \<Rightarrow> nat \<Rightarrow> 'g \<Rightarrow> bytes \<Rightarrow> bytes \<Rightarrow> NextChunkExpectation \<Rightarrow>
       gzip_outcome \<times> 'g \<times> bytes \<times> bytes \<times> NextChunkExpectation" where
  "gzip_chunk_loop z maybe_try_deflate left g data out expect =
     (case gz_Decode z g data of
        (zerr, n, tmp, g') \<Rightarrow>
          let rest = drop n data; consumed = length data - length rest in
          if zerr \<noteq> Z_STREAM_END \<and> zerr \<noteq> Z_OK then
            if \<not> maybe_try_deflate then (GzError, g', rest, out, expect) else (GzDeflate, g', data, out, expect)
          else
            let expect' = (if zerr = Z_OK \<and> left = 0 then EXPECT_CHUNK_NON_EMPTY else expect) in
            if consumed > 0 \<and> rest \<noteq> [] then gzip_chunk_loop z maybe_try_deflate left g' rest (out @ tmp) expect'
            else (GzMore, g', rest, out @ tmp, expect'))"
  by pat_completeness auto
termination
  by (relation "measure (\<lambda>(_, _, _, _, data, _, _). length data)") auto

declare gzip_chunk_loop.simps [simp del]

definition deflate_chunk_end ::
    "('g, 'i) decoder \<Rightarrow> bytes \<Rightarrow> bytes \<Rightarrow> ('g, 'i) RequestParser \<Rightarrow> int option \<times> bytes \<times> bytes \<times> ('g, 'i) RequestParser" where
  "deflate_chunk_end z inp out p =
     (case inflate_body z out p of
        (zerr, out', p') \<Rightarrow>
          if zerr = Z_STREAM_END then
            if p_chunk_size_to_read p' > 0
            then (Some (HEADER_READ OR CHUNKED_BODY_READING OR REQUEST_FINISHED), inp, out',
                  set_parse_state ERROR_CHUNK_CONTENT_GZIP_TOO_LONG p')
            else (None, inp, out', p'\<lparr>p_next_chunk_expectation := EXPECT_CHUNK_EMPTY\<rparr>)
          else if zerr \<noteq> Z_OK
          then (Some (HEADER_READ OR CHUNKED_BODY_READING OR REQUEST_FINISHED), inp, out',
                set_parse_state ERROR_CHUNK_CONTENT_GZIP_ERROR p')
          else (None, inp, out',
                if p_chunk_size_to_read p' = 0 then p'\<lparr>p_next_chunk_expectation := EXPECT_CHUNK_NON_EMPTY\<rparr> else p'))"

definition ReadChunkData ::
    "('g, 'i) decoder \<Rightarrow> bytes \<Rightarrow> Header \<Rightarrow> bytes \<Rightarrow> ('g, 'i) RequestParser \<Rightarrow>
       int option \<times> bytes \<times> bytes \<times> ('g, 'i) RequestParser" where
  "ReadChunkData z inp header out p =
     (if inp = [] then (Some (HEADER_READ OR CHUNKED_BODY_READING), inp, out, p)
      else
        let to_read = min (p_chunk_size_to_read p) (length inp);
            inp' = drop to_read inp;
            left = p_chunk_size_to_read p - to_read;
            p1 = p\<lparr>p_partial_data := p_partial_data p @ take to_read inp, p_chunk_size_to_read := left,
                   p_parse_state := (if left = 0 then STATE_END_OF_CHUNK else p_parse_state p)\<rparr>
        in
        if reads_gzip header p then
          if length (p_partial_data p1) < kMinGzipDataSize then
            (if length inp' > kMinGzipDataSize then None else Some (HEADER_READ OR BODY_READING), inp', out, p1)
          else
            (case gzip_chunk_loop z (p_gzip_zwrapper p = None) left
                    (case p_gzip_zwrapper p of None \<Rightarrow> gz_new z | Some g \<Rightarrow> g) (p_partial_data p1) out (p_next_chunk_expectation p1) of
               (r, g', data, out', expect) \<Rightarrow>
                 let p2 = p1\<lparr>p_gzip_zwrapper := Some g', p_partial_data := data, p_next_chunk_expectation := expect\<rparr> in
                 (case r of
                    GzError \<Rightarrow> (Some (HEADER_READ OR CHUNKED_BODY_READING OR REQUEST_FINISHED), inp', out',
                                 set_parse_state ERROR_CHUNK_CONTENT_GZIP_ERROR p2)
                  | GzDeflate \<Rightarrow> deflate_chunk_end z inp' out' p2
                  | _ \<Rightarrow> (None, inp', out', p2)))
        else if reads_deflate header p then deflate_chunk_end z inp' out p1
        else (None, inp', out @ p_partial_data p1, p1\<lparr>p_partial_data := []\<rparr>))"

definition ParseTrailHeader ::
    "bytes \<Rightarrow> Header \<Rightarrow> ('g, 'i) RequestParser \<Rightarrow> (int \<times> bytes \<times> Header \<times> ('g, 'i) RequestParser) option" where
  "ParseTrailHeader inp header p =
     (if p_parse_state p \<noteq> STATE_LAST_CHUNK_READ then None
      else
        Option.bind (ReadHeaderFields inp (p_trail_header p)) (\<lambda>(ok, inp', t).
          let p1 = p\<lparr>p_trail_header := t\<rparr> in
          if \<not> ok then
            if h_bytes_parsed t + length inp' > p_max_header_size p1
            then Some (HEADER_READ OR CHUNKED_TRAILER_READING OR REQUEST_FINISHED, inp', header, set_parse_state ERROR_CHUNK_TRAILER_TOO_LONG p1)
            else Some (HEADER_READ OR CHUNKED_TRAILER_READING, inp', header, p1)
          else if error_num (h_parse_error t) > error_num (p_worst_accepted_header_error p1)
          then Some (HEADER_READ OR CHUNKED_TRAILER_READING OR REQUEST_FINISHED, inp', header, set_parse_state ERROR_CHUNK_TRAIL_HEADER p1)
          else
            Option.bind (CopyHeaderFields t False header) (\<lambda>(_, header').
              Some (HEADER_READ OR CHUNKS_FINISHED OR REQUEST_FINISHED, inp', header', set_parse_state STATE_END_OF_TRAIL_HEADER p1))))"

text \<open>
  The loop of \<open>ParseChunksInternal\<close> always ends: it reads input, or goes from the data of a chunk
  to its end.
\<close>

definition chunk_measure :: "bytes \<Rightarrow> ('g, 'i) RequestParser \<Rightarrow> nat" where
  "chunk_measure inp p = 2 * length inp + (if p_parse_state p = STATE_CHUNK_READING then 1 else 0)"

lemma ReadChunkHead_less:
  "ReadChunkHead inp p = (None, inp', p') \<Longrightarrow> chunk_measure inp' p' < chunk_measure inp p"
  by (auto simp: ReadChunkHead_def chunk_error_def chunk_measure_def Let_def
      split: prod.splits option.splits if_splits dest!: spec_line_less)

lemma ReadChunkEnd_less:
  "ReadChunkEnd inp p = (None, inp', p') \<Longrightarrow> chunk_measure inp' p' < chunk_measure inp p"
  by (auto simp: ReadChunkEnd_def chunk_error_def chunk_measure_def set_parse_state_def
      split: prod.splits option.splits if_splits dest!: spec_line_less)

lemma deflate_chunk_end_None:
  "deflate_chunk_end z inp out p = (None, inp', out', p') \<Longrightarrow> inp' = inp \<and> p_parse_state p' = p_parse_state p"
  by (auto simp: deflate_chunk_end_def inflate_body_def split: prod.splits if_splits)

lemma ReadChunkData_None:
  assumes "ReadChunkData z inp header out p = (None, inp', out', p')"
  shows "inp \<noteq> []" and "inp' = drop (p_chunk_size_to_read p) inp"
    and "p_parse_state p' = (if p_chunk_size_to_read p \<le> length inp then STATE_END_OF_CHUNK else p_parse_state p)"
proof -
  show "inp \<noteq> []" using assms by (auto simp: ReadChunkData_def)
  show "inp' = drop (p_chunk_size_to_read p) inp"
    using assms by (auto simp: ReadChunkData_def Let_def drop_min_length
        split: if_splits prod.splits gzip_outcome.splits dest!: deflate_chunk_end_None)
  show "p_parse_state p' = (if p_chunk_size_to_read p \<le> length inp then STATE_END_OF_CHUNK else p_parse_state p)"
    using assms by (auto simp: ReadChunkData_def Let_def
        split: if_splits prod.splits gzip_outcome.splits dest!: deflate_chunk_end_None)
qed

lemma ReadChunkData_less:
  assumes "ReadChunkData z inp header out p = (None, inp', out', p')" and "p_parse_state p = STATE_CHUNK_READING"
  shows "chunk_measure inp' p' < chunk_measure inp p"
  using ReadChunkData_None [OF assms(1)] assms(2) by (cases "p_chunk_size_to_read p") (auto simp: chunk_measure_def)

function ParseChunksInternal ::
    "('g, 'i) decoder \<Rightarrow> bytes \<Rightarrow> Header \<Rightarrow> bytes \<Rightarrow> ('g, 'i) RequestParser \<Rightarrow>
       (int \<times> bytes \<times> Header \<times> bytes \<times> ('g, 'i) RequestParser) option" where
  "ParseChunksInternal z inp header out p =
     (if p_parse_state p = STATE_CHUNK_HEAD_READING then
        (case ReadChunkHead inp p of
           (Some r, inp', p') \<Rightarrow> Some (r, inp', header, out, p')
         | (None, inp', p') \<Rightarrow> ParseChunksInternal z inp' header out p')
      else if p_parse_state p = STATE_END_OF_CHUNK then
        (case ReadChunkEnd inp p of
           (Some r, inp', p') \<Rightarrow> Some (r, inp', header, out, p')
         | (None, inp', p') \<Rightarrow> ParseChunksInternal z inp' header out p')
      else if p_parse_state p = STATE_CHUNK_READING then
        (case ReadChunkData z inp header out p of
           (Some r, inp', out', p') \<Rightarrow> Some (r, inp', header, out', p')
         | (None, inp', out', p') \<Rightarrow> ParseChunksInternal z inp' header out' p')
      else if p_parse_state p = STATE_LAST_CHUNK_READ then
        map_option (\<lambda>(r, inp', header', p'). (r, inp', header', out, p')) (ParseTrailHeader inp header p)
      else None)"
  by pat_completeness auto
termination
  by (relation "measure (\<lambda>(_, inp, _, _, p). chunk_measure inp p)")
    (auto dest!: sym [of "(None, _)"] intro: ReadChunkHead_less ReadChunkEnd_less ReadChunkData_less)

declare ParseChunksInternal.simps [simp del]

section \<open>Requests and replies\<close>

text \<open>How the body will be read; a result is the end of the parsing.\<close>

definition BeginPayload :: "Header \<Rightarrow> ('g, 'i) RequestParser \<Rightarrow> int option \<times> ('g, 'i) RequestParser" where
  "BeginPayload header p =
     (if \<not> IsKnownContentEncoding header
      then (Some (HEADER_READ OR REQUEST_FINISHED), set_parse_state ERROR_CONTENT_ENCODING_UNKNOWN p)
      else if \<not> IsKnownTransferEncoding header
      then (Some (HEADER_READ OR REQUEST_FINISHED), set_parse_state ERROR_TRANSFER_ENCODING_UNKNOWN p)
      else if IsChunkedTransfer header then (None, set_parse_state STATE_CHUNK_HEAD_READING p)
      else
        (case FindField kHeaderContentLength header of
           None \<Rightarrow>
             let body_size = nat (DefaultBodyLen header) in
             if \<not> p_accept_no_content_length p \<and> body_size > 0
             then (Some (HEADER_READ OR REQUEST_FINISHED), set_parse_state STATE_END_OF_HEADER_FINAL (p\<lparr>p_body_size_to_read := body_size\<rparr>))
             else (None, set_parse_state STATE_BODY_READING
                     (p\<lparr>p_body_size_to_read :=
                          (if p_max_body_size p \<ge> 0 \<and> int body_size > p_max_body_size p then nat (p_max_body_size p) else body_size)\<rparr>))
         | Some s \<Rightarrow>
             (case strtol 10 (c_str s) of
                None \<Rightarrow> (Some (HEADER_READ OR REQUEST_FINISHED), set_parse_state ERROR_HEADER_BAD_CONTENT_LEN p)
              | Some content_length \<Rightarrow>
                  if content_length < 0
                  then (Some (HEADER_READ OR REQUEST_FINISHED), set_parse_state ERROR_HEADER_BAD_CONTENT_LEN p)
                  else (None, set_parse_state STATE_BODY_READING (p\<lparr>p_body_size_to_read := nat content_length\<rparr>)))))"

definition ParsePayloadInternal ::
    "('g, 'i) decoder \<Rightarrow> bytes \<Rightarrow> Header \<Rightarrow> bytes \<Rightarrow> ('g, 'i) RequestParser \<Rightarrow>
       (int \<times> bytes \<times> Header \<times> bytes \<times> ('g, 'i) RequestParser) option" where
  "ParsePayloadInternal z inp header out p =
     (if state_num (p_parse_state p) < state_num STATE_END_OF_HEADER then None
      else
        (case (if p_parse_state p = STATE_END_OF_HEADER then BeginPayload header p else (None, p)) of
           (Some r, p1) \<Rightarrow> Some (r, inp, header, out, p1)
         | (None, p1) \<Rightarrow>
             if p_parse_state p1 = STATE_BODY_READING
             then map_option (\<lambda>(r, inp', out', p2). (r, inp', header, out', p2)) (ParseBodyInternal z inp header out p1)
             else if state_num (p_parse_state p1) < state_num STATE_CHUNK_HEAD_READING then None
             else ParseChunksInternal z inp header out p1))"

text \<open>
  \<open>ParseClientRequest\<close> clears the first line error of the server's header, not of the client's
  header it reads.
\<close>

definition ParseClientRequest ::
    "('g, 'i) decoder \<Rightarrow> bytes \<Rightarrow> ('e, 'd) Request \<Rightarrow> ('g, 'i) RequestParser \<Rightarrow>
       (int \<times> bytes \<times> ('e, 'd) Request \<times> ('g, 'i) RequestParser) option" where
  "ParseClientRequest z inp req p =
     (if InFinalState p then None
      else
        let init = (p_parse_state p = STATE_INITIALIZED);
            req1 = (if init then req\<lparr>r_client_data := [], r_client_header := Header_Clear (r_client_header req)\<rparr> else req);
            p1 = (if init then set_parse_state STATE_HEADER_READING p else p)
        in
        if p_parse_state p1 = STATE_HEADER_READING then
          Option.bind (ParseHeader REQUEST_LINE inp (r_client_header req1)) (\<lambda>(ok, inp', h).
            let req2 = req1\<lparr>r_client_header := h\<rparr> in
            if \<not> ok then
              if length inp' + h_bytes_parsed h > p_max_header_size p1
              then Some (REQUEST_FINISHED, inp', req2, set_parse_state ERROR_HEADER_TOO_LONG p1)
              else Some (0, inp', req2\<lparr>r_server_header := (r_server_header req2)\<lparr>h_first_line := REQUEST_LINE\<rparr>\<rparr>, p1)
            else if h_bytes_parsed h > p_max_header_size p1
            then Some (REQUEST_FINISHED, inp', req2, set_parse_state ERROR_HEADER_TOO_LONG p1)
            else if h_version h = VERSION_UNKNOWN \<and> \<not> p_accept_wrong_version p1 \<or>
                    h_method h = METHOD_UNKNOWN \<and> \<not> p_accept_wrong_method p1
            then Some (HEADER_READ OR REQUEST_FINISHED, inp', req2, set_parse_state ERROR_HEADER_LINE p1)
            else if error_num (h_parse_error h) > error_num (p_worst_accepted_header_error p1)
            then Some (HEADER_READ OR REQUEST_FINISHED, inp', req2, set_parse_state ERROR_HEADER_BAD p1)
            else Some (HEADER_READ OR CONTINUE, inp', req2, set_parse_state STATE_END_OF_HEADER p1))
        else
          map_option (\<lambda>(r, inp', h, out', p2). (r, inp', req1\<lparr>r_client_header := h, r_client_data := out'\<rparr>, p2))
            (ParsePayloadInternal z inp (r_client_header req1) (r_client_data req1) p1))"

definition ParseServerReply ::
    "('g, 'i) decoder \<Rightarrow> bytes \<Rightarrow> ('e, 'd) Request \<Rightarrow> ('g, 'i) RequestParser \<Rightarrow>
       (int \<times> bytes \<times> ('e, 'd) Request \<times> ('g, 'i) RequestParser) option" where
  "ParseServerReply z inp req p =
     (if InFinalState p then None
      else
        let init = (p_parse_state p = STATE_INITIALIZED);
            req1 = (if init then req\<lparr>r_server_data := [], r_server_header := Header_Clear (r_server_header req)\<rparr> else req);
            p1 = (if init then set_parse_state STATE_HEADER_READING p else p)
        in
        if p_parse_state p1 = STATE_HEADER_READING then
          Option.bind (ParseHeader STATUS_LINE inp (r_server_header req1)) (\<lambda>(ok, inp', h).
            let req2 = req1\<lparr>r_server_header := h\<rparr> in
            if \<not> ok then
              if length inp' + h_bytes_parsed h > p_max_header_size p1
              then Some (REQUEST_FINISHED, inp', req2, set_parse_state ERROR_HEADER_TOO_LONG p1)
              else Some (0, inp', req2\<lparr>r_server_header := h\<lparr>h_first_line := STATUS_LINE\<rparr>\<rparr>, p1)
            else if h_bytes_parsed h > p_max_header_size p1
            then Some (REQUEST_FINISHED, inp', req2, set_parse_state ERROR_HEADER_TOO_LONG p1)
            else if error_num (h_parse_error h) > error_num (p_worst_accepted_header_error p1)
            then Some (HEADER_READ OR REQUEST_FINISHED, inp', req2, set_parse_state ERROR_HEADER_BAD p1)
            else if NoServerBodyTransmitted req2
            then Some (HEADER_READ OR REQUEST_FINISHED, inp', req2, set_parse_state STATE_END_OF_HEADER_FINAL p1)
            else Some (HEADER_READ OR CONTINUE, inp', req2, set_parse_state STATE_END_OF_HEADER p1))
        else
          map_option (\<lambda>(r, inp', h, out', p2). (r, inp', req1\<lparr>r_server_header := h, r_server_data := out'\<rparr>, p2))
            (ParsePayloadInternal z inp (r_server_header req1) (r_server_data req1) p1))"

end
