(* ===== verification/Incremental.thy ===== *)
theory Incremental
  imports Prelude
begin

text \<open>
  Parsers that are called again with more data. A call gets the bytes that have arrived and have
  not been consumed; it answers whether it is done and returns the bytes it leaves and its next
  state, or it fails (\<open>None\<close>). The locale states what makes such a parser independent of how the
  data is cut into pieces; the readers of the HTTP code are its instances.
\<close>

type_synonym 's call = "'s \<Rightarrow> bytes \<Rightarrow> (bool \<times> bytes \<times> 's) option"

text \<open>The owner of the parser: it calls it on what is there, and again with each piece that arrives.\<close>

fun feed :: "'s call \<Rightarrow> 's \<Rightarrow> bytes \<Rightarrow> bytes list \<Rightarrow> (bool \<times> bytes \<times> 's) option" where
  "feed call s io [] = call s io"
| "feed call s io (p # ps) =
     (case call s io of
        None \<Rightarrow> None
      | Some (fin, io', s') \<Rightarrow>
          if fin then Some (True, io' @ concat (p # ps), s') else feed call s' (io' @ p) ps)"

definition observe :: "('s \<Rightarrow> 'o) \<Rightarrow> (bool \<times> bytes \<times> 's) option \<Rightarrow> (bool \<times> bytes \<times> 'o) option" where
  "observe obs = map_option (map_prod id (map_prod id obs))"

lemma observe_simps [simp]:
  "observe obs None = None" "observe obs (Some (b, io, s)) = Some (b, io, obs s)"
  "observe obs x = None \<longleftrightarrow> x = None"
  by (simp_all add: observe_def)

lemma observe_SomeD: "observe obs x = Some (b, io, h) \<Longrightarrow> \<exists>s. x = Some (b, io, s) \<and> obs s = h"
  by (auto simp: observe_def)

locale incremental_parser =
  fixes call :: "'s call" and inv :: "'s \<Rightarrow> bool" and obs :: "'s \<Rightarrow> 'o"
  assumes waits: "inv s \<Longrightarrow> call s a = Some (False, a', s') \<Longrightarrow>
        inv s' \<and> observe obs (call s' (a' @ b)) = observe obs (call s (a @ b))"
    and finishes: "inv s \<Longrightarrow> call s a = Some (True, a', s') \<Longrightarrow> call s (a @ b) = Some (True, a' @ b, s')"
begin

text \<open>
  As long as no prefix of the data makes the parser fail, the pieces do not show: the outcome is
  the one of a single call on all the data.
\<close>

lemma feed_whole:
  assumes "inv s" and "\<And>a b. a @ b = io @ concat ps \<Longrightarrow> length io \<le> length a \<Longrightarrow> call s a \<noteq> None"
  shows "observe obs (feed call s io ps) = observe obs (call s (io @ concat ps))"
  using assms
proof (induction ps arbitrary: s io)
  case (Cons p ps)
  from Cons.prems(2) [of io "concat (p # ps)"] obtain fin io' s' where c: "call s io = Some (fin, io', s')" by auto
  show ?case
  proof (cases fin)
    case True
    with c finishes [OF Cons.prems(1), of io io' s' "concat (p # ps)"] show ?thesis by simp
  next
    case False
    with c have c': "call s io = Some (False, io', s')" by simp
    note w = waits [OF Cons.prems(1) c']
    have "call s' a \<noteq> None" if "a @ b = (io' @ p) @ concat ps" "length (io' @ p) \<le> length a" for a b
    proof -
      have "take (length (io' @ p)) (a @ b) = io' @ p" unfolding that(1) by simp
      with that(2) have "take (length (io' @ p)) a = io' @ p" by simp
      then obtain a2 where a2: "a = io' @ p @ a2" using append_take_drop_id [of "length (io' @ p)" a] by (metis append.assoc)
      with that(1) have "(io @ p @ a2) @ b = io @ concat (p # ps)" by simp
      from Cons.prems(2) [OF this] have "observe obs (call s (io @ p @ a2)) \<noteq> None" by simp
      then have "observe obs (call s' (io' @ p @ a2)) \<noteq> None" using w [of "p @ a2"] by simp
      then show ?thesis using a2 by simp
    qed
    from Cons.IH [of s' "io' @ p"] w [of "[]"] this
    have "observe obs (feed call s' (io' @ p) ps) = observe obs (call s' ((io' @ p) @ concat ps))" by blast
    with c False w [of "p @ concat ps"] show ?thesis by simp
  qed
qed simp

end

end
