(* ===== verification/HttpHeaderProps.thy ===== *)
theory HttpHeaderProps
  imports HttpHeader Base64Props Incremental
begin

text \<open>
  Properties of the HTTP header: reading it in pieces gives the header that reading it at once
  gives, a written header is read back, the reader never fails a \<open>CHECK\<close> on a fresh header.
\<close>

section \<open>Lines of a stream\<close>

lemma line_len_append: "line_len fin prev lastc a = Some n \<Longrightarrow> line_len fin prev lastc (a @ b) = Some n"
  by (induction fin prev lastc a arbitrary: n rule: line_len.induct) (auto split: if_splits)

lemma spec_line_append:
  assumes "spec_line p a = (Some line, a')"
  shows "spec_line p (a @ b) = (Some line, a' @ b)"
  using assms line_len_append [of 10 p 0 a _ b] by (auto simp: spec_line_def split: option.splits dest: line_len_le)

lemma spec_line_none: "spec_line p a = (None, a') \<Longrightarrow> a' = a"
  by (auto simp: spec_line_def split: option.splits)

lemma line_len_no_lf: "10 \<notin> set l \<Longrightarrow> line_len 10 13 c (l @ 13 # 10 # rest) = Some (length l + 2)"
  by (induction l arbitrary: c) auto

lemma spec_line_crlf: "10 \<notin> set l \<Longrightarrow> spec_line 13 (l @ crlf @ rest) = (Some (l @ crlf), rest)"
  by (simp add: spec_line_def line_len_no_lf crlf_def)

lemma cut_crlf_line [simp]: "cut_crlf (l @ crlf) = l"
  by (simp add: cut_crlf_def crlf_def)

section \<open>Reading in pieces\<close>

text \<open>
  A reader that ran out of data leaves \<open>READ_NO_DATA\<close> as the worst error seen so far, and as
  the last one. Up to that the operations of the reader do not depend on the errors.
\<close>

definition settled :: "Header \<Rightarrow> Header" where
  "settled h = h\<lparr>h_parse_error := (if error_num HREAD_NO_DATA < error_num (h_parse_error h) then h_parse_error h else HREAD_NO_DATA),
     h_last_parse_error := HREAD_NO_DATA\<rparr>"

lemma error_num_inject [simp]: "error_num a = error_num b \<longleftrightarrow> a = b"
  by (cases a; cases b) simp_all

lemma error_num_le_antisym: "\<lbrakk>\<not> error_num a < error_num b; \<not> error_num b < error_num a\<rbrakk> \<Longrightarrow> a = b"
  by (simp flip: error_num_inject)

lemma settled_set_parse_error [simp]: "settled (set_parse_error e (settled h)) = settled (set_parse_error e h)"
proof -
  have "error_num e < 2 \<or> error_num e = error_num HREAD_NO_DATA \<or> 2 < error_num e" by auto
  then show ?thesis unfolding error_num_inject
    by (auto simp: set_parse_error_def settled_def intro: error_num_le_antisym)
qed

lemma settled_idem [simp]: "settled (settled h) = settled h"
  by (simp add: settled_def)

lemma settled_sel [simp]:
  "h_crt_name (settled h) = h_crt_name h" "h_crt_content (settled h) = h_crt_content h"
  "h_bytes_parsed (settled h) = h_bytes_parsed h" "h_is_strict (settled h) = h_is_strict h"
  "h_fields (settled h) = h_fields h" "FindField n (settled h) = FindField n h"
  "h_method (settled h) = h_method h" "h_version (settled h) = h_version h" "h_uri (settled h) = h_uri h"
  "h_first_line (settled h) = h_first_line h" "h_status_code (settled h) = h_status_code h"
  "h_reason (settled h) = h_reason h" "h_verbatim (settled h) = h_verbatim h"
  by (simp_all add: settled_def FindField_def)

lemma settled_eqD:
  assumes "settled g = settled h"
  shows "h_bytes_parsed g = h_bytes_parsed h" "h_fields g = h_fields h" "h_method g = h_method h"
    "h_version g = h_version h" "h_uri g = h_uri h" "h_first_line g = h_first_line h"
    "h_status_code g = h_status_code h" "h_reason g = h_reason h"
  using arg_cong [OF assms, of h_bytes_parsed] arg_cong [OF assms, of h_fields] arg_cong [OF assms, of h_method]
    arg_cong [OF assms, of h_version] arg_cong [OF assms, of h_uri] arg_cong [OF assms, of h_first_line]
    arg_cong [OF assms, of h_status_code] arg_cong [OF assms, of h_reason]
  by simp_all

lemma settled_update [simp]:
  "settled (h\<lparr>h_crt_name := n\<rparr>) = (settled h)\<lparr>h_crt_name := n\<rparr>"
  "settled (h\<lparr>h_crt_content := c\<rparr>) = (settled h)\<lparr>h_crt_content := c\<rparr>"
  "settled (h\<lparr>h_bytes_parsed := b\<rparr>) = (settled h)\<lparr>h_bytes_parsed := b\<rparr>"
  "settled (h\<lparr>h_fields := f\<rparr>) = (settled h)\<lparr>h_fields := f\<rparr>"
  by (simp_all add: settled_def)

lemma settled_no_data [simp]: "settled (set_parse_error HREAD_NO_DATA h) = settled h"
  by (auto simp: settled_def set_parse_error_def intro: error_num_le_antisym)

lemma set_parse_error_sel [simp]:
  "h_last_parse_error (set_parse_error e h) = e" "h_bytes_parsed (set_parse_error e h) = h_bytes_parsed h"
  "h_crt_name (set_parse_error e h) = h_crt_name h" "h_crt_content (set_parse_error e h) = h_crt_content h"
  "h_fields (set_parse_error e h) = h_fields h" "h_is_strict (set_parse_error e h) = h_is_strict h"
  "h_parse_error (set_parse_error HREAD_NO_DATA h) \<noteq> HREAD_INIT"
  by (auto simp: set_parse_error_def)

lemma AddCrtParsingData_settled:
  "map_option (map_prod id settled) (AddCrtParsingData (settled h)) = map_option (map_prod id settled) (AddCrtParsingData h)"
  by (auto simp: AddCrtParsingData_def Let_def split: bind_splits option.splits)

lemma AddCrtParsingData_cong:
  assumes "settled g = settled h"
  shows "map_option (map_prod id settled) (AddCrtParsingData g) = map_option (map_prod id settled) (AddCrtParsingData h)"
  using AddCrtParsingData_settled [of g] AddCrtParsingData_settled [of h] assms by simp

lemma map_option_eqE:
  assumes "map_option f x = map_option g y"
  obtains "x = None" "y = None" | a b where "x = Some a" "y = Some b" "f a = g b"
  using assms by (cases x; cases y) auto

lemma read_field_line_settled:
  "map_option settled (read_field_line l (settled h)) = map_option settled (read_field_line l h)"
proof (cases "IsLwfChar (hd l)")
  case True
  then show ?thesis by (simp add: read_field_line_def)
next
  case False
  from AddCrtParsingData_settled [of h] show ?thesis
  proof (cases rule: map_option_eqE)
    case (2 a b)
    then have "settled (snd a) = settled (snd b)" by (simp add: prod_eq_iff)
    then have "settled (set_parse_error e (snd a)) = settled (set_parse_error e (snd b))" for e
      by (metis settled_set_parse_error)
    with 2 False show ?thesis by (auto simp: read_field_line_def Let_def split: prod.splits)
  qed (simp add: read_field_line_def False)
qed

lemma read_field_line_cong:
  assumes "settled g = settled h"
  shows "map_option settled (read_field_line l g) = map_option settled (read_field_line l h)"
  using read_field_line_settled [of l g] read_field_line_settled [of l h] assms by simp

text \<open>The outcome of a call: the answer, what is left of the stream, the header up to the errors.\<close>

abbreviation outcome :: "(bool \<times> bytes \<times> Header) option \<Rightarrow> (bool \<times> bytes \<times> Header) option" where
  "outcome \<equiv> observe settled"

lemma ReadHeaderFields_cong: "settled g = settled h \<Longrightarrow> outcome (ReadHeaderFields io g) = outcome (ReadHeaderFields io h)"
proof (induction "length io" arbitrary: io g h rule: less_induct)
  case less
  note b = settled_eqD(1) [OF less.prems]
  show ?case
  proof (cases "spec_line 13 io")
    case (Pair l io')
    show ?thesis
    proof (cases l)
      case None
      with Pair less.prems show ?thesis by (simp add: ReadHeaderFields.simps [of io])
    next
      case (Some line)
      define b where "b = h_bytes_parsed h + length line"
      have s: "settled (g\<lparr>h_bytes_parsed := b\<rparr>) = settled (h\<lparr>h_bytes_parsed := b\<rparr>)" using less.prems by simp
      have l: "length io' < length io" using spec_line_less Pair Some by simp
      show ?thesis
      proof (cases "cut_crlf line = []")
        case True
        from AddCrtParsingData_cong [OF s] show ?thesis
        proof (cases rule: map_option_eqE)
          case (2 p q)
          then have "fst p = fst q" "settled (snd p) = settled (snd q)" by (simp_all add: prod_eq_iff)
          moreover have "settled (set_parse_error e (snd p)) = settled (set_parse_error e (snd q))" for e
            using calculation(2) by (metis settled_set_parse_error)
          ultimately show ?thesis using 2 Pair Some True b
            by (cases p; cases q) (simp add: ReadHeaderFields.simps [of io] b_def)
        qed (simp add: ReadHeaderFields.simps [of io] Pair Some True b flip: b_def)
      next
        case False
        from read_field_line_cong [OF s, of "cut_crlf line"] show ?thesis
        proof (cases rule: map_option_eqE)
          case (2 p q)
          with less.hyps [OF l, of p q] Pair Some False b show ?thesis
            by (simp add: ReadHeaderFields.simps [of io] b_def)
        qed (simp add: ReadHeaderFields.simps [of io] Pair Some False b flip: b_def)
      qed
    qed
  qed
qed

lemma ReadHeaderFields_step:
  "spec_line 13 a = (None, a') \<Longrightarrow> ReadHeaderFields a h = Some (False, a, set_parse_error HREAD_NO_DATA h)"
  "spec_line 13 a = (Some line, io) \<Longrightarrow> cut_crlf line = [] \<Longrightarrow>
     ReadHeaderFields a h =
       map_option (\<lambda>(ok, h2). (True, io, if ok then set_parse_error HREAD_OK h2 else h2))
         (AddCrtParsingData (h\<lparr>h_bytes_parsed := h_bytes_parsed h + length line\<rparr>))"
  "spec_line 13 a = (Some line, io) \<Longrightarrow> cut_crlf line \<noteq> [] \<Longrightarrow>
     ReadHeaderFields a h =
       Option.bind (read_field_line (cut_crlf line) (h\<lparr>h_bytes_parsed := h_bytes_parsed h + length line\<rparr>)) (ReadHeaderFields io)"
  using spec_line_none [of 13 a a']
  by (auto simp: ReadHeaderFields.simps [of a] Let_def split: bind_splits)

text \<open>Induction on a run of \<open>ReadHeaderFields\<close> that ends.\<close>

lemma ReadHeaderFields_run [consumes 1, case_names wait last more]:
  assumes "ReadHeaderFields a h = Some (d, a', h')"
    and "\<And>a h. spec_line 13 a = (None, a) \<Longrightarrow> P a h False a (set_parse_error HREAD_NO_DATA h)"
    and "\<And>a h line io ok h2. \<lbrakk>spec_line 13 a = (Some line, io); cut_crlf line = [];
           AddCrtParsingData (h\<lparr>h_bytes_parsed := h_bytes_parsed h + length line\<rparr>) = Some (ok, h2)\<rbrakk>
           \<Longrightarrow> P a h True io (if ok then set_parse_error HREAD_OK h2 else h2)"
    and "\<And>a h line io h2 d a' h'. \<lbrakk>spec_line 13 a = (Some line, io); cut_crlf line \<noteq> [];
           read_field_line (cut_crlf line) (h\<lparr>h_bytes_parsed := h_bytes_parsed h + length line\<rparr>) = Some h2;
           ReadHeaderFields io h2 = Some (d, a', h'); P io h2 d a' h'\<rbrakk> \<Longrightarrow> P a h d a' h'"
  shows "P a h d a' h'"
  using assms(1)
proof (induction "length a" arbitrary: a h rule: less_induct)
  case less
  obtain l io where l: "spec_line 13 a = (l, io)" by fastforce
  show ?case
  proof (cases l)
    case None
    with l less.prems assms(2) [of a h] spec_line_none [of 13 a io] show ?thesis by (auto simp: ReadHeaderFields_step(1))
  next
    case (Some line)
    show ?thesis
    proof (cases "cut_crlf line = []")
      case True
      with l Some less.prems assms(3) [of a line io h] show ?thesis by (auto simp: ReadHeaderFields_step(2))
    next
      case False
      with l Some less.prems obtain h2 where
        "read_field_line (cut_crlf line) (h\<lparr>h_bytes_parsed := h_bytes_parsed h + length line\<rparr>) = Some h2"
        "ReadHeaderFields io h2 = Some (d, a', h')"
        by (auto simp: ReadHeaderFields_step(3) bind_eq_Some_conv)
      with less.hyps [of io h2] spec_line_less [of 13 a line io] l Some False assms(4) [of a line io h h2 d a' h']
      show ?thesis by simp
    qed
  qed
qed

lemma ReadHeaderFields_more:
  "ReadHeaderFields a h = Some (False, a', h') \<Longrightarrow>
     outcome (ReadHeaderFields (a' @ b) h') = outcome (ReadHeaderFields (a @ b) h)"
proof (induction a h "False" a' h' rule: ReadHeaderFields_run)
  case (wait a h)
  then show ?case by (intro ReadHeaderFields_cong) simp
next
  case (more a h line io h2 a' h')
  then show ?case by (simp add: ReadHeaderFields_step(3) [OF spec_line_append])
qed simp

lemma ReadHeaderFields_append:
  "ReadHeaderFields a h = Some (True, a', h') \<Longrightarrow> ReadHeaderFields (a @ b) h = Some (True, a' @ b, h')"
proof (induction a h "True" a' h' rule: ReadHeaderFields_run)
  case (last a h line io ok h2)
  then show ?case by (simp add: ReadHeaderFields_step(2) [OF spec_line_append])
next
  case (more a h line io h2 a' h')
  then show ?case by (simp add: ReadHeaderFields_step(3) [OF spec_line_append])
qed simp

lemma AddCrtParsingData_bytes: "AddCrtParsingData h = Some (ok, h') \<Longrightarrow> h_bytes_parsed h' = h_bytes_parsed h"
  by (auto simp: AddCrtParsingData_def Let_def bind_eq_Some_conv split: if_splits)

lemma read_field_line_bytes: "read_field_line l h = Some h' \<Longrightarrow> h_bytes_parsed h' = h_bytes_parsed h"
  by (auto simp: read_field_line_def Let_def bind_eq_Some_conv dest!: AddCrtParsingData_bytes split: if_splits)

lemma cut_crlf_longer: "cut_crlf line \<noteq> [] \<Longrightarrow> line \<noteq> []"
  by (auto simp: cut_crlf_def)

text \<open>What a call consumed is what it counted.\<close>

lemma ReadHeaderFields_consumes:
  "ReadHeaderFields a h = Some (d, a', h') \<Longrightarrow> h_bytes_parsed h' + length a' = h_bytes_parsed h + length a"
proof (induction rule: ReadHeaderFields_run)
  case (last a h line io ok h2)
  then show ?case by (auto simp: spec_line_def dest!: AddCrtParsingData_bytes line_len_le split: option.splits)
next
  case (more a h line io h2 d a' h')
  then show ?case by (auto simp: spec_line_def dest!: read_field_line_bytes line_len_le split: option.splits)
qed simp

lemma ReadHeaderFields_waits:
  "ReadHeaderFields a h = Some (False, a', h') \<Longrightarrow>
     h_last_parse_error h' = HREAD_NO_DATA \<and> h_parse_error h' \<noteq> HREAD_INIT \<and> h_bytes_parsed h \<le> h_bytes_parsed h' \<and>
     (h_bytes_parsed h' = h_bytes_parsed h \<longrightarrow> h' = set_parse_error HREAD_NO_DATA h)"
proof (induction a h "False" a' h' rule: ReadHeaderFields_run)
  case (more a h line io h2 a' h')
  then show ?case using read_field_line_bytes [OF more(3)] cut_crlf_longer [of line] by (auto simp flip: length_greater_0_conv)
qed auto

text \<open>The name of the field being read does not start with white space, so it can be normalized.\<close>

definition crt_ok :: "Header \<Rightarrow> bool" where
  "crt_ok h \<longleftrightarrow> h_crt_name h = [] \<or> \<not> IsLwfChar (hd (h_crt_name h))"

lemma crt_ok_simps [simp]: "crt_ok (h\<lparr>h_bytes_parsed := n\<rparr>) = crt_ok h" "crt_ok (set_parse_error e h) = crt_ok h"
  by (simp_all add: crt_ok_def)

lemma NormalizeFieldName_total: "n = [] \<or> \<not> IsLwfChar (hd n) \<Longrightarrow> NormalizeFieldName n \<noteq> None"
  by (cases n) (auto simp: NormalizeFieldName_def)

lemma AddCrtParsingData_total:
  assumes "crt_ok h"
  shows "\<exists>ok h'. AddCrtParsingData h = Some (ok, h') \<and> h_crt_name h' = []"
  using assms NormalizeFieldName_total [of "h_crt_name h"] by (auto simp: AddCrtParsingData_def Let_def crt_ok_def)

lemma read_field_line_total:
  assumes "crt_ok h" and "l \<noteq> []"
  shows "\<exists>h'. read_field_line l h = Some h' \<and> crt_ok h'"
  using AddCrtParsingData_total [OF assms(1)] assms
  by (cases l) (auto simp: read_field_line_def Let_def crt_ok_def)

lemma ReadHeaderFields_total:
  "crt_ok h \<Longrightarrow> \<exists>d io' h'. ReadHeaderFields io h = Some (d, io', h') \<and> crt_ok h'"
proof (induction "length io" arbitrary: io h rule: less_induct)
  case less
  obtain l io' where l: "spec_line 13 io = (l, io')" by fastforce
  show ?case
  proof (cases l)
    case None
    with l less.prems show ?thesis by (intro exI [of _ False]) (simp add: ReadHeaderFields_step(1))
  next
    case (Some line)
    show ?thesis
    proof (cases "cut_crlf line = []")
      case True
      obtain ok h' where "AddCrtParsingData (h\<lparr>h_bytes_parsed := h_bytes_parsed h + length line\<rparr>) = Some (ok, h')" "h_crt_name h' = []"
        using AddCrtParsingData_total [of "h\<lparr>h_bytes_parsed := h_bytes_parsed h + length line\<rparr>"] less.prems by auto
      with l Some True show ?thesis by (intro exI [of _ True]) (simp add: ReadHeaderFields_step(2) crt_ok_def)
    next
      case False
      then obtain h2 where "read_field_line (cut_crlf line) (h\<lparr>h_bytes_parsed := h_bytes_parsed h + length line\<rparr>) = Some h2" "crt_ok h2"
        using read_field_line_total [OF _ False, of "h\<lparr>h_bytes_parsed := h_bytes_parsed h + length line\<rparr>"] less.prems by auto
      with less.hyps [OF _ this(2), of io'] spec_line_less [of 13 io line io'] l Some False show ?thesis
        by (simp add: ReadHeaderFields_step(3))
    qed
  qed
qed

text \<open>A header that \<open>ParseHeader\<close> can go on with.\<close>

definition parsing :: "Header \<Rightarrow> bool" where
  "parsing h \<longleftrightarrow> crt_ok h \<and> h_last_parse_error h \<noteq> HREAD_OK \<and>
     (if h_bytes_parsed h = 0 then h_parse_error h = HREAD_INIT \<or> h_parse_error h = HREAD_NO_DATA
      else h_parse_error h \<noteq> HREAD_INIT)"

text \<open>One call of \<open>ParseHeader\<close> that lacks data, and the next one.\<close>

lemma ReadFirstLine_cases:
  obtains "spec_line 13 io = (None, io)" "ReadFirstLine e io h = (False, io, set_parse_error HREAD_NO_DATA h)"
  | line io' where "spec_line 13 io = (Some line, io')" "line \<noteq> []"
      "ReadFirstLine e io h =
         (True, io', read_first_tokens e (cut_crlf line) (h\<lparr>h_bytes_parsed := h_bytes_parsed h + length line\<rparr>))"
proof (cases "spec_line 13 io")
  case (Pair l io')
  show ?thesis
  proof (cases l)
    case None
    with Pair that(1) spec_line_none [of 13 io io'] show ?thesis by (simp add: ReadFirstLine_def)
  next
    case (Some line)
    then have "line \<noteq> []" using Pair by (auto simp: spec_line_def dest!: line_len_le split: option.splits)
    with Pair Some that(2) [of line io'] show ?thesis by (simp add: ReadFirstLine_def)
  qed
qed

lemma ParseStatusCode_bytes [simp]: "h_bytes_parsed (ParseStatusCode c h) = h_bytes_parsed h"
  by (simp add: ParseStatusCode_def split: option.split)

lemma read_second_token_bytes [simp]: "h_bytes_parsed (read_second_token e l h) = h_bytes_parsed h"
  by (simp add: read_second_token_def Let_def)

lemma read_first_tokens_bytes [simp]: "h_bytes_parsed (read_first_tokens e l h) = h_bytes_parsed h"
  by (simp add: read_first_tokens_def Let_def)

lemma settled_update_first [simp]:
  "settled (h\<lparr>h_status_code := a\<rparr>) = (settled h)\<lparr>h_status_code := a\<rparr>"
  "settled (h\<lparr>h_reason := b\<rparr>) = (settled h)\<lparr>h_reason := b\<rparr>"
  "settled (h\<lparr>h_first_line := c\<rparr>) = (settled h)\<lparr>h_first_line := c\<rparr>"
  "settled (h\<lparr>h_uri := d\<rparr>) = (settled h)\<lparr>h_uri := d\<rparr>"
  "settled (h\<lparr>h_version := v\<rparr>) = (settled h)\<lparr>h_version := v\<rparr>"
  "settled (h\<lparr>h_method := m\<rparr>) = (settled h)\<lparr>h_method := m\<rparr>"
  by (simp_all add: settled_def)

lemma set_parse_error_update [simp]:
  "set_parse_error e (h\<lparr>h_first_line := c\<rparr>) = (set_parse_error e h)\<lparr>h_first_line := c\<rparr>"
  by (simp add: set_parse_error_def)

lemma set_parse_error_cong: "settled g = settled h \<Longrightarrow> settled (set_parse_error e g) = settled (set_parse_error e h)"
  by (metis settled_set_parse_error)

lemma ParseStatusCode_cong:
  assumes "settled g = settled h"
  shows "settled (ParseStatusCode c g) = settled (ParseStatusCode c h)"
  using assms set_parse_error_cong [OF assms] by (cases "strtol 10 (c_str c)") (simp_all add: ParseStatusCode_def)

lemma read_second_token_cong:
  assumes "settled g = settled h"
  shows "settled (read_second_token e l g) = settled (read_second_token e l h)"
proof -
  let ?f = "\<lambda>h. if version_num (h_version h) \<le> version_num VERSION_1_0 then h\<lparr>h_first_line := e\<rparr>
                else set_parse_error HREAD_NO_STATUS_REASON (h\<lparr>h_first_line := ERROR_LINE\<rparr>)"
  have "settled (?f g) = settled (?f h)"
    using assms settled_eqD(4) [OF assms] set_parse_error_cong [OF assms] by simp
  from ParseStatusCode_cong [OF this] ParseStatusCode_cong [OF assms] assms set_parse_error_cong [OF assms]
  show ?thesis unfolding read_second_token_def Let_def
    by (cases "dropWhile (\<lambda>c. c \<noteq> 32) l = []"; cases "e = REQUEST_LINE") (simp_all del: dropWhile_eq_Nil_conv)
qed

lemma read_first_tokens_cong:
  assumes "settled g = settled h"
  shows "settled (read_first_tokens e l g) = settled (read_first_tokens e l h)"
proof -
  have "settled (read_second_token e r (g\<lparr>h_method := m\<rparr>)) = settled (read_second_token e r (h\<lparr>h_method := m\<rparr>))"
    "settled (read_second_token e r (g\<lparr>h_version := v\<rparr>)) = settled (read_second_token e r (h\<lparr>h_version := v\<rparr>))" for r m v
    using assms by (simp_all add: read_second_token_cong)
  with assms set_parse_error_cong [OF assms] show ?thesis unfolding read_first_tokens_def Let_def
    by (cases "dropWhile (\<lambda>c. c \<noteq> 32) l = []"; cases "e = REQUEST_LINE") (simp_all del: dropWhile_eq_Nil_conv)
qed

lemma ParseHeader_parsing:
  assumes "parsing h"
  shows "ParseHeader e io h =
     (if h_bytes_parsed h = 0 then
        case spec_line 13 io of
          (None, _) \<Rightarrow> Some (False, io, set_parse_error HREAD_NO_DATA h)
        | (Some line, io') \<Rightarrow>
            ReadHeaderFields io' (read_first_tokens e (cut_crlf line) (h\<lparr>h_bytes_parsed := length line\<rparr>))
      else ReadHeaderFields io h)"
  using assms spec_line_none [of 13 io]
  by (auto simp: ParseHeader_def ReadFirstLine_def parsing_def split: prod.split option.split if_splits)

lemma ParseStatusCode_crt [simp]: "h_crt_name (ParseStatusCode c h) = h_crt_name h"
  by (simp add: ParseStatusCode_def split: option.split)

lemma read_second_token_crt [simp]: "h_crt_name (read_second_token e l h) = h_crt_name h"
  by (simp add: read_second_token_def Let_def)

lemma read_first_tokens_crt [simp]: "h_crt_name (read_first_tokens e l h) = h_crt_name h"
  by (simp add: read_first_tokens_def Let_def)

lemma ParseHeader_total:
  assumes "parsing h"
  shows "\<exists>d io' h'. ParseHeader e io h = Some (d, io', h') \<and> crt_ok h'"
proof -
  have "crt_ok (read_first_tokens e l (h\<lparr>h_bytes_parsed := n\<rparr>))" for l n
    using assms by (simp add: parsing_def crt_ok_def)
  with assms show ?thesis using ReadHeaderFields_total
    by (auto simp: ParseHeader_parsing parsing_def split: prod.split option.split)
qed

lemma ParseHeader_waits:
  assumes "parsing h" and "ParseHeader e a h = Some (False, a', h')"
  shows "parsing h' \<and> outcome (ParseHeader e (a' @ b) h') = outcome (ParseHeader e (a @ b) h)"
proof (cases "h_bytes_parsed h = 0")
  case False
  have c: "crt_ok h'" using ParseHeader_total [OF assms(1), of e a] assms(2) by auto
  from False assms have r: "ReadHeaderFields a h = Some (False, a', h')" by (simp add: ParseHeader_parsing)
  then have "parsing h'" "h_bytes_parsed h' \<noteq> 0" using ReadHeaderFields_waits [OF r] False c by (auto simp: parsing_def)
  with assms(1) False ReadHeaderFields_more [OF r, of b] show ?thesis by (simp add: ParseHeader_parsing)
next
  case True
  have c: "crt_ok h'" using ParseHeader_total [OF assms(1), of e a] assms(2) by auto
  obtain l io where l: "spec_line 13 a = (l, io)" by fastforce
  show ?thesis
  proof (cases l)
    case None
    with l True assms have h': "a' = a" "h' = set_parse_error HREAD_NO_DATA h" by (simp_all add: ParseHeader_parsing)
    then have p: "parsing h'" using assms(1) True c by (auto simp: parsing_def set_parse_error_def)
    have s: "settled (h'\<lparr>h_bytes_parsed := n\<rparr>) = settled (h\<lparr>h_bytes_parsed := n\<rparr>)" for n using h' by simp
    show ?thesis using p h' True assms(1) ReadHeaderFields_cong [OF read_first_tokens_cong [OF s]]
      by (simp add: ParseHeader_parsing split: prod.split option.split)
  next
    case (Some line)
    define g where "g = read_first_tokens e (cut_crlf line) (h\<lparr>h_bytes_parsed := length line\<rparr>)"
    from l Some assms True have r: "ReadHeaderFields io g = Some (False, a', h')" by (simp add: ParseHeader_parsing g_def)
    have "line \<noteq> []" using l Some by (auto simp: spec_line_def dest!: line_len_le split: option.splits)
    then have "parsing h'" "h_bytes_parsed h' \<noteq> 0" using ReadHeaderFields_waits [OF r] c by (auto simp: parsing_def g_def)
    with assms(1) True ReadHeaderFields_more [OF r, of b] spec_line_append [of 13 a line io b] l Some show ?thesis
      by (simp add: ParseHeader_parsing g_def)
  qed
qed

lemma ParseHeader_append:
  assumes "parsing h" and "ParseHeader e a h = Some (True, a', h')"
  shows "ParseHeader e (a @ b) h = Some (True, a' @ b, h')"
  using assms spec_line_append [of 13 a _ _ b] ReadHeaderFields_append [of _ _ a' h' b]
  by (auto simp: ParseHeader_parsing split: if_splits prod.splits option.splits)

text \<open>The reader of a header, as a parser that is called again with more data.\<close>

definition header_call :: "FirstLineType \<Rightarrow> Header \<Rightarrow> bytes \<Rightarrow> (bool \<times> bytes \<times> Header) option" where
  "header_call expected h io = ParseHeader expected io h"

interpretation header: incremental_parser "header_call expected" parsing settled for expected
  by unfold_locales (simp_all add: header_call_def ParseHeader_waits ParseHeader_append)

lemma feed_header_outcome:
  assumes "parsing h"
  shows "outcome (feed (header_call e) h [] ps) = outcome (ParseHeader e (concat ps) h)"
  using header.feed_whole [OF assms, of "[]" ps e] ParseHeader_total [OF assms, of e] by (force simp: header_call_def)

lemma parsing_new [simp]: "parsing (Header_new s)"
  by (simp add: parsing_def Header_new_def crt_ok_def)

text \<open>An HTTP header is read the same way in whatever pieces it arrives. Feeding a
  fresh header the pieces one after the other, each with what is left of the ones before, ends with
  the same answer and the same unread bytes as one call on the whole data, and with the same header:
  first line, fields and errors, except that the worst error may read \<open>READ_NO_DATA\<close> where it would
  be \<open>READ_OK\<close>. In no case does a \<open>CHECK\<close> fail.\<close>

theorem header_fragmentation:
  "\<exists>d io h g. ParseHeader e (concat ps) (Header_new s) = Some (d, io, h) \<and>
     feed (header_call e) (Header_new s) [] ps = Some (d, io, g) \<and> settled g = settled h"
proof -
  obtain d io h where h: "ParseHeader e (concat ps) (Header_new s) = Some (d, io, h)"
    using ParseHeader_total [OF parsing_new] by blast
  with feed_header_outcome [OF parsing_new [of s], of e ps] show ?thesis
    by (auto dest: observe_SomeD)
qed

section \<open>Numbers in strings\<close>

lemma digit_value_char: "d < 16 \<Longrightarrow> digit_value (digit_char d) = Some d"
  by (simp add: digit_value_def word_le_nat_alt unat_digit_char)

lemma digits_value_append: "digits_value b (xs @ [c]) = digits_value b xs * b + the (digit_value c)"
  by (simp add: digits_value_def)

lemma print_nat_digits:
  assumes "2 \<le> b" and "b \<le> 16"
  shows "(\<forall>c \<in> set (print_nat b n). is_digit b c) \<and> digits_value b (print_nat b n) = n \<and> print_nat b n \<noteq> []"
  using assms
proof (induction b n rule: print_nat.induct)
  case (1 b n)
  have one: "is_digit b (digit_char d) \<and> the (digit_value (digit_char d)) = d" if "d < b" for d
    using that 1(3) digit_value_char [of d] by (simp add: is_digit_def)
  show ?case
  proof (cases "n < b")
    case True
    with one show ?thesis by (simp add: print_nat.simps [of b n] digits_value_def)
  next
    case False
    with 1 one [of "n mod b"] show ?thesis
      by (simp add: print_nat.simps [of b n] digits_value_append)
  qed
qed

lemma is_digit_not:
  assumes "is_digit b c" and "b \<le> 16"
  shows "\<not> isspace c" "c \<noteq> 45" "c \<noteq> 43" "toupper c \<noteq> 88" "c \<noteq> 0" "c \<noteq> 32" "c \<noteq> 10" 
proof -
  have "isspace c \<Longrightarrow> digit_value c = None"
    by (auto simp: isspace_def digit_value_def word_le_nat_alt)
  moreover have "toupper c = 88 \<Longrightarrow> c = 88 \<or> c = 120" by (auto simp: toupper_def diff_eq_eq split: if_splits)
  moreover have "c \<noteq> 88" "c \<noteq> 120" "c \<noteq> 45" "c \<noteq> 43" "c \<noteq> 0" "c \<noteq> 32" "c \<noteq> 10"
    using assms by (auto simp: is_digit_def digit_value_def)
  ultimately show "\<not> isspace c" "c \<noteq> 45" "c \<noteq> 43" "toupper c \<noteq> 88" "c \<noteq> 0" "c \<noteq> 32" "c \<noteq> 10"
    using assms(1) by (auto simp: is_digit_def)
qed

lemma print_nat_chars:
  assumes "2 \<le> b" and "b \<le> 16"
  shows "0 \<notin> set (print_nat b n)" "32 \<notin> set (print_nat b n)" "10 \<notin> set (print_nat b n)"
proof -
  have "\<not> is_digit b 0" "\<not> is_digit b 32" "\<not> is_digit b 10" using is_digit_not(5-7) [OF _ assms(2)] by blast+
  with print_nat_digits [OF assms, of n]
  show "0 \<notin> set (print_nat b n)" "32 \<notin> set (print_nat b n)" "10 \<notin> set (print_nat b n)" by auto
qed

lemma takeWhile_all: "\<forall>x \<in> set xs. P x \<Longrightarrow> takeWhile P xs = xs"
  by simp

text \<open>A number that was printed is read back, in base 10 and, behind a zero, in base 16.\<close>

lemma strtol_print:
  assumes "n < 2 ^ 63"
  shows "strtol 10 (print_nat 10 n) = Some (int n)" and "strtol 16 (48 # print_nat 16 n) = Some (int n)"
proof -
  let ?p = "print_nat 10 n"
  note d = print_nat_digits [of 10 n]
  then have "is_digit 10 (hd ?p)" "?p \<noteq> []" by (auto simp del: print_nat.simps)
  note h = is_digit_not [OF this(1)] this(2)
  have "dropWhile isspace ?p = ?p" using h by (cases ?p) simp_all
  then show "strtol 10 ?p = Some (int n)" using h d assms
    by (simp add: strtol_def Let_def takeWhile_all)
  let ?q = "print_nat 16 n"
  note q = print_nat_digits [of 16 n]
  then have "is_digit 16 (hd ?q)" "?q \<noteq> []" by (auto simp del: print_nat.simps)
  note k = is_digit_not [OF this(1)] this(2)
  have z: "is_digit 16 48" "\<not> isspace 48" "the (digit_value 48) = 0" by (simp_all add: is_digit_def digit_value_def isspace_def)
  have "digits_value 16 (48 # ?q) = n" using q z(3) by (simp add: digits_value_def)
  then show "strtol 16 (48 # ?q) = Some (int n)" using k q z assms
    by (simp add: strtol_def Let_def takeWhile_all nth_Cons' hd_conv_nth)
qed

section \<open>Writing and reading back\<close>

lemma method_roundtrip:
  "m \<noteq> METHOD_UNKNOWN \<Longrightarrow> GetHttpMethod (c_str (GetHttpMethodName m)) = m \<and> GetHttpMethodName m \<noteq> [] \<and>
     32 \<notin> set (GetHttpMethodName m) \<and> 10 \<notin> set (GetHttpMethodName m)"
  by (cases m) (simp_all add: GetHttpMethod_def c_str_def ascii_def strcasecmp_eq_def toupper_def)

lemma version_roundtrip:
  "v \<noteq> VERSION_UNKNOWN \<Longrightarrow> GetHttpVersion (c_str (GetHttpVersionName v)) = v \<and> GetHttpVersionName v \<noteq> [] \<and>
     32 \<notin> set (GetHttpVersionName v) \<and> 10 \<notin> set (GetHttpVersionName v)"
  by (cases v) (simp_all add: GetHttpVersion_def c_str_def ascii_def strcasecmp_eq_def toupper_def)

text \<open>
  A field that can be transmitted: a valid name in the normal form, and valid content on one
  line, without white space in front. The fields stand in the order of their names.
\<close>

definition field_ok :: "bytes \<Rightarrow> bytes \<Rightarrow> bool" where
  "field_ok n c \<longleftrightarrow> IsValidFieldName n \<and> NormalizeFieldName n = Some n \<and> IsValidFieldContent c \<and>
     10 \<notin> set c \<and> (c = [] \<or> \<not> IsLwfChar (hd c))"

definition fields_ok :: "(bytes \<times> bytes) list \<Rightarrow> bool" where
  "fields_ok fs \<longleftrightarrow> list_all (\<lambda>(n, c). field_ok n c) fs \<and> sorted_wrt (<) (map fst fs)"

definition first_line_ok :: "Header \<Rightarrow> bool" where
  "first_line_ok h \<longleftrightarrow> h_version h \<noteq> VERSION_UNKNOWN \<and>
     (h_first_line h = REQUEST_LINE \<and> h_method h \<noteq> METHOD_UNKNOWN \<and> h_uri h \<noteq> [] \<and> 32 \<notin> set (h_uri h) \<and> 10 \<notin> set (h_uri h) \<or>
      h_first_line h = STATUS_LINE \<and> 0 \<le> h_status_code h \<and> h_status_code h < 2 ^ 31 \<and>
        10 \<notin> set (h_reason h) \<and> (h_reason h = [] \<or> hd (h_reason h) \<noteq> 32))"

lemma token_char: "IsTokenChar c \<Longrightarrow> \<not> IsLwfChar c \<and> c \<noteq> 58 \<and> c \<noteq> 10"
  by (auto simp: IsTokenChar_def IsLwfChar_def IsSeparatorChar_def IsCtlChar_def)

lemma valid_name:
  assumes "IsValidFieldName n"
  shows "n \<noteq> []" "\<not> IsLwfChar (hd n)" "58 \<notin> set n" "10 \<notin> set n"
  using assms by (cases n; auto simp: IsValidFieldName_def list_all_iff IsWhiteSpace_def dest: token_char)+

lemma fields_put_last: "\<forall>f \<in> set fs. fst f < n \<Longrightarrow> fields_put n c fs = fs @ [(n, c)]"
  by (induction fs) (auto simp: less_imp_not_less dest: less_not_sym)

lemma AddCrtParsingData_pending:
  assumes "field_ok (h_crt_name h) (h_crt_content h)" and "\<forall>f \<in> set (h_fields h). fst f < h_crt_name h"
  shows "AddCrtParsingData h =
     Some (True, h\<lparr>h_fields := h_fields h @ [(h_crt_name h, h_crt_content h)], h_crt_name := [], h_crt_content := []\<rparr>)"
proof -
  have "FindField (h_crt_name h) h = None"
    using assms(2) by (auto simp: FindField_def map_of_eq_None_iff)
  with assms valid_name(1) [of "h_crt_name h"] show ?thesis
    by (simp add: AddCrtParsingData_def field_ok_def fields_put_last)
qed

lemma read_field_line_next:
  assumes "field_ok n c"
  shows "read_field_line (n @ [58, 32] @ c) h =
     map_option (\<lambda>(_, h1). h1\<lparr>h_crt_name := n, h_crt_content := c\<rparr>) (AddCrtParsingData h)"
proof -
  note v = valid_name [of n]
  have n: "takeWhile (\<lambda>c. c \<noteq> 58) (n @ [58, 32] @ c) = n" "dropWhile (\<lambda>c. c \<noteq> 58) (n @ [58, 32] @ c) = [58, 32] @ c"
    using assms v by (auto simp: field_ok_def takeWhile_append dropWhile_append)
  have c: "dropWhile IsLwfChar (32 # c) = c" using assms by (cases c) (auto simp: field_ok_def IsLwfChar_def)
  have "\<not> IsLwfChar (hd (n @ [58, 32] @ c))" using assms v by (simp add: field_ok_def)
  with n c show ?thesis unfolding read_field_line_def Let_def
    by (cases "AddCrtParsingData h") (auto split: prod.split)
qed

definition pend :: "Header \<Rightarrow> (bytes \<times> bytes) list" where
  "pend h = (if h_crt_name h = [] then [] else [(h_crt_name h, h_crt_content h)])"

definition pending_ok :: "Header \<Rightarrow> bool" where
  "pending_ok h \<longleftrightarrow> h_crt_name h = [] \<or>
     field_ok (h_crt_name h) (h_crt_content h) \<and> (\<forall>f \<in> set (h_fields h). fst f < h_crt_name h)"

lemma pending_simps [simp]:
  "pend (h\<lparr>h_bytes_parsed := b\<rparr>) = pend h" "pending_ok (h\<lparr>h_bytes_parsed := b\<rparr>) = pending_ok h"
  by (simp_all add: pend_def pending_ok_def)

lemma AddCrtParsingData_pend:
  "pending_ok h \<Longrightarrow>
     AddCrtParsingData h = Some (True, h\<lparr>h_fields := h_fields h @ pend h, h_crt_name := [], h_crt_content := []\<rparr>)"
proof (cases "h_crt_name h = []")
  case True
  then have "AddCrtParsingData h = Some (True, h\<lparr>h_crt_name := [], h_crt_content := []\<rparr>)" by (simp add: AddCrtParsingData_def)
  also have "h\<lparr>h_crt_name := [], h_crt_content := []\<rparr> = h\<lparr>h_fields := h_fields h @ [], h_crt_name := [], h_crt_content := []\<rparr>"
    by (cases h) simp
  finally show ?thesis by (simp only: pend_def True if_True refl)
qed (simp add: AddCrtParsingData_pending pending_ok_def pend_def)

lemma field_line_no_lf: "field_ok n c \<Longrightarrow> 10 \<notin> set (n @ [58, 32] @ c)"
  using valid_name(4) [of n] by (simp add: field_ok_def)

lemma ReadHeaderFields_written:
  assumes "pending_ok h" and "fields_ok fs" and "\<forall>g \<in> set (h_fields h @ pend h). \<forall>f \<in> set fs. fst g < fst f"
  shows "ReadHeaderFields (concat (map field_line fs) @ crlf @ rest) h =
     Some (True, rest, set_parse_error HREAD_OK
       (h\<lparr>h_bytes_parsed := h_bytes_parsed h + length (concat (map field_line fs)) + 2,
          h_fields := h_fields h @ pend h @ fs, h_crt_name := [], h_crt_content := []\<rparr>))"
  using assms
proof (induction fs arbitrary: h)
  case Nil
  have l: "spec_line 13 (crlf @ rest) = (Some crlf, rest)" using spec_line_crlf [of "[]" rest] by simp
  have "cut_crlf crlf = []" using cut_crlf_line [of "[]"] by simp
  with Nil l show ?case by (simp add: ReadHeaderFields_step(2) AddCrtParsingData_pend crlf_def)
next
  case (Cons f fs)
  obtain n c where f: "f = (n, c)" by (cases f)
  then have ok: "field_ok n c" using Cons.prems(2) by (simp add: fields_ok_def)
  let ?l = "n @ [58, 32] @ c" and ?io = "concat (map field_line fs) @ crlf @ rest"
  define h2 where "h2 = h\<lparr>h_bytes_parsed := h_bytes_parsed h + length (?l @ crlf), h_fields := h_fields h @ pend h,
     h_crt_name := n, h_crt_content := c\<rparr>"
  have "concat (map field_line (f # fs)) @ crlf @ rest = ?l @ crlf @ ?io" by (simp add: f field_line_def)
  moreover have "spec_line 13 (?l @ crlf @ ?io) = (Some (?l @ crlf), ?io)"
    by (rule spec_line_crlf [OF field_line_no_lf [OF ok]])
  moreover have "read_field_line ?l (h\<lparr>h_bytes_parsed := h_bytes_parsed h + length (?l @ crlf)\<rparr>) = Some h2"
    using AddCrtParsingData_pend [of "h\<lparr>h_bytes_parsed := h_bytes_parsed h + length (?l @ crlf)\<rparr>"] Cons.prems(1)
    by (simp add: read_field_line_next [OF ok] h2_def del: append.simps append_assoc)
  ultimately have r: "ReadHeaderFields (concat (map field_line (f # fs)) @ crlf @ rest) h = ReadHeaderFields ?io h2"
    using ReadHeaderFields_step(3) [of "?l @ crlf @ ?io" "?l @ crlf" ?io h] by (simp add: cut_crlf_line [of ?l, simplified] f)
  have n: "n \<noteq> []" using valid_name(1) [of n] ok by (simp add: field_ok_def)
  have "pending_ok h2" "pend h2 = [(n, c)]" using Cons.prems(3) ok n f by (auto simp: h2_def pending_ok_def pend_def)
  moreover have "fields_ok fs" "\<forall>g \<in> set (h_fields h2 @ [(n, c)]). \<forall>f \<in> set fs. fst g < fst f"
    using Cons.prems(2,3) f by (auto simp: fields_ok_def h2_def)
  ultimately show ?case unfolding r using Cons.IH [of h2] f
    by (simp add: h2_def field_line_def [of "(n, c)"] crlf_def add.assoc)
qed

text \<open>The first line.\<close>

lemma takeWhile_space: "32 \<notin> set (a :: bytes) \<Longrightarrow>
  takeWhile (\<lambda>c. c \<noteq> 32) (a @ 32 # b) = a \<and> dropWhile (\<lambda>c. c \<noteq> 32) (a @ 32 # b) = 32 # b"
  by (induction a) auto

lemma dropWhile_space: "b = [] \<or> hd b \<noteq> 32 \<Longrightarrow> dropWhile (\<lambda>c. c = 32) (32 # b) = (b :: bytes)"
  by (cases b) auto

lemma read_second_token_request:
  assumes "32 \<notin> set u" and "v \<noteq> [] \<and> hd v \<noteq> 32"
  shows "read_second_token REQUEST_LINE (u @ 32 # v) h =
     h\<lparr>h_uri := u, h_version := GetHttpVersion (c_str v), h_first_line := REQUEST_LINE\<rparr>"
  using takeWhile_space [OF assms(1), of v] dropWhile_space [of v] assms(2)
  by (simp add: read_second_token_def del: dropWhile.simps dropWhile_eq_Nil_conv)

lemma read_second_token_status:
  assumes "32 \<notin> set u" and "v = [] \<or> hd v \<noteq> 32" and "e \<noteq> REQUEST_LINE"
  shows "read_second_token e (u @ 32 # v) h = (ParseStatusCode u h)\<lparr>h_reason := v, h_first_line := e\<rparr>"
  using takeWhile_space [OF assms(1), of v] dropWhile_space [OF assms(2)] assms(3)
  by (simp add: read_second_token_def del: dropWhile.simps dropWhile_eq_Nil_conv)

lemma read_first_tokens_written:
  assumes "32 \<notin> set t" and "r \<noteq> [] \<and> hd r \<noteq> 32"
  shows "read_first_tokens e (t @ 32 # r) h =
     read_second_token e r (if e = REQUEST_LINE then h\<lparr>h_method := GetHttpMethod (c_str t)\<rparr> else h\<lparr>h_version := GetHttpVersion (c_str t)\<rparr>)"
  using takeWhile_space [OF assms(1), of r] dropWhile_space [of r] assms(2)
  by (simp add: read_first_tokens_def del: dropWhile.simps dropWhile_eq_Nil_conv)

lemma hd_not_space: "a \<noteq> [] \<Longrightarrow> 32 \<notin> set a \<Longrightarrow> a @ b \<noteq> [] \<and> hd (a @ b) \<noteq> (32 :: byte)"
  by (cases a) auto

lemma print_code:
  assumes "0 \<le> c" and "c < 2 ^ 31"
  shows "ParseStatusCode (IntToString c) h = h\<lparr>h_status_code := c\<rparr>"
    and "IntToString c \<noteq> []" "32 \<notin> set (IntToString c)" "10 \<notin> set (IntToString c)"
proof -
  let ?p = "print_nat 10 (nat c)"
  note d = print_nat_digits [of 10 "nat c"]
  have z: "0 \<notin> set ?p" "32 \<notin> set ?p" "10 \<notin> set ?p" by (simp_all add: print_nat_chars)
  have "c_str ?p = ?p" unfolding c_str_def using z(1) by (intro takeWhile_all) auto
  moreover have "strtol 10 ?p = Some c" using strtol_print(1) [of "nat c"] assms by simp
  moreover have "sint (word_of_int c :: 32 word) = c"
    using assms by (simp add: sint_sbintrunc' signed_take_bit_int_eq_self)
  ultimately show "ParseStatusCode (IntToString c) h = h\<lparr>h_status_code := c\<rparr>"
    using assms by (simp add: ParseStatusCode_def IntToString_def)
  show "IntToString c \<noteq> []" "32 \<notin> set (IntToString c)" "10 \<notin> set (IntToString c)"
    using assms d z by (simp_all add: IntToString_def)
qed

text \<open>The message that a header stands for, without the state of the reader.\<close>

definition same_message :: "Header \<Rightarrow> Header \<Rightarrow> bool" where
  "same_message g h \<longleftrightarrow> h_first_line g = h_first_line h \<and> h_version g = h_version h \<and> h_fields g = h_fields h \<and>
     (h_first_line h = REQUEST_LINE \<longrightarrow> h_method g = h_method h \<and> h_uri g = h_uri h) \<and>
     (h_first_line h = STATUS_LINE \<longrightarrow> h_status_code g = h_status_code h \<and> h_reason g = h_reason h)"

lemma first_line_written:
  assumes "first_line_ok h"
  obtains l g where "ComposeFirstLine h = l @ crlf" and "10 \<notin> set l"
    and "read_first_tokens (h_first_line h) l h0 = g"
    and "h_first_line g = h_first_line h" "h_version g = h_version h"
    and "h_first_line h = REQUEST_LINE \<longrightarrow> h_method g = h_method h \<and> h_uri g = h_uri h"
    and "h_first_line h = STATUS_LINE \<longrightarrow> h_status_code g = h_status_code h \<and> h_reason g = h_reason h"
    and "h_fields g = h_fields h0" "h_crt_name g = h_crt_name h0" "h_parse_error g = h_parse_error h0" "h_bytes_parsed g = h_bytes_parsed h0"
proof -
  note v = version_roundtrip [of "h_version h"]
  consider (req) "h_first_line h = REQUEST_LINE" | (st) "h_first_line h = STATUS_LINE" using assms by (auto simp: first_line_ok_def)
  then show thesis
  proof cases
    case req
    note m = method_roundtrip [of "h_method h"]
    have ok: "h_method h \<noteq> METHOD_UNKNOWN" "h_version h \<noteq> VERSION_UNKNOWN" "h_uri h \<noteq> []" "32 \<notin> set (h_uri h)" "10 \<notin> set (h_uri h)"
      using assms req by (simp_all add: first_line_ok_def)
    let ?l = "GetHttpMethodName (h_method h) @ 32 # h_uri h @ 32 # GetHttpVersionName (h_version h)"
    have "read_first_tokens REQUEST_LINE ?l h0 =
        h0\<lparr>h_method := h_method h, h_uri := h_uri h, h_version := h_version h, h_first_line := REQUEST_LINE\<rparr>"
      using m v ok hd_not_space [of "h_uri h"] hd_not_space [of "GetHttpVersionName (h_version h)" "[]"]
      by (simp add: read_first_tokens_written read_second_token_request)
    with that [of ?l] req m v ok show thesis by (simp add: ComposeFirstLine_def)
  next
    case st
    have ok: "h_version h \<noteq> VERSION_UNKNOWN" "0 \<le> h_status_code h" "h_status_code h < 2 ^ 31"
        "10 \<notin> set (h_reason h)" "h_reason h = [] \<or> hd (h_reason h) \<noteq> 32"
      using assms st by (auto simp: first_line_ok_def)
    note p = print_code [OF ok(2,3)]
    let ?l = "GetHttpVersionName (h_version h) @ 32 # IntToString (h_status_code h) @ 32 # h_reason h"
    have "read_first_tokens STATUS_LINE ?l h0 =
        h0\<lparr>h_version := h_version h, h_status_code := h_status_code h, h_reason := h_reason h, h_first_line := STATUS_LINE\<rparr>"
      using v ok hd_not_space [OF p(2,3)] p
      by (simp add: read_first_tokens_written read_second_token_status)
    with that [of ?l] st v ok p show thesis by (simp add: ComposeFirstLine_def)
  qed
qed

lemma ParseHeader_written:
  assumes "first_line_ok h" and "fields_ok (h_fields h)" and "h_verbatim h = []"
  obtains g where "ParseHeader (h_first_line h) (AppendToStream h [] @ rest) (Header_new s) = Some (True, rest, g)"
    and "same_message g h" and "h_parse_error g = HREAD_OK" and "h_bytes_parsed g = length (AppendToStream h [])"
proof -
  obtain n where n: "n = length (ComposeFirstLine h)" by simp
  let ?h0 = "(Header_new s)\<lparr>h_bytes_parsed := n\<rparr>"
  obtain l g where l: "ComposeFirstLine h = l @ crlf" "10 \<notin> set l" "read_first_tokens (h_first_line h) l ?h0 = g"
    and g: "h_first_line g = h_first_line h" "h_version g = h_version h"
      "h_first_line h = REQUEST_LINE \<longrightarrow> h_method g = h_method h \<and> h_uri g = h_uri h"
      "h_first_line h = STATUS_LINE \<longrightarrow> h_status_code g = h_status_code h \<and> h_reason g = h_reason h"
    and e: "h_fields g = []" "h_crt_name g = []" "h_parse_error g = HREAD_INIT" "h_bytes_parsed g = n"
    by (rule first_line_written [OF assms(1), of ?h0]) (auto simp: Header_new_def)
  let ?fs = "concat (map field_line (h_fields h))"
  have io: "AppendToStream h [] @ rest = l @ crlf @ ?fs @ crlf @ rest" using l(1) assms(3) by (simp add: AppendToStream_def)
  have b: "h_bytes_parsed (Header_new s) = 0" by (simp add: Header_new_def)
  have p: "ParseHeader (h_first_line h) (AppendToStream h [] @ rest) (Header_new s) = ReadHeaderFields (?fs @ crlf @ rest) g"
    unfolding io using ParseHeader_parsing [OF parsing_new] spec_line_crlf [OF l(2)] l n b by simp
  have f: "pending_ok g" "pend g = []" using e by (simp_all add: pending_ok_def pend_def)
  note r = ReadHeaderFields_written [OF f(1) assms(2), of rest]
  let ?g = "set_parse_error HREAD_OK (g\<lparr>h_bytes_parsed := h_bytes_parsed g + length ?fs + 2,
          h_fields := h_fields g @ pend g @ h_fields h, h_crt_name := [], h_crt_content := []\<rparr>)"
  have "same_message ?g h" "h_parse_error ?g = HREAD_OK" "h_bytes_parsed ?g = length (AppendToStream h [])"
    using g e f assms(3) n by (simp_all add: same_message_def set_parse_error_def AppendToStream_def crlf_def)
  with p r e f that show thesis by simp
qed

text \<open>C10 (roundtrip): the header that \<open>AppendToStream\<close> writes for a request or a reply is the one the
  parser reads, in whatever pieces it arrives and whatever bytes follow: the same first line and the
  same fields, no error worse than the wait for data, and exactly the bytes of the header consumed.
  The first line has known names, an URI without spaces or a reason that does not start with one; the
  fields have valid normalized names in increasing order and valid content on one line.\<close>

theorem header_roundtrip:
  assumes "first_line_ok h" and "fields_ok (h_fields h)" and "h_verbatim h = []"
    and "concat ps = AppendToStream h [] @ rest"
  shows "\<exists>g. feed (header_call (h_first_line h)) (Header_new s) [] ps = Some (True, rest, g) \<and> same_message g h \<and>
     error_num (h_parse_error g) \<le> error_num HREAD_NO_DATA \<and> h_bytes_parsed g = length (AppendToStream h [])"
proof -
  obtain g where g: "ParseHeader (h_first_line h) (concat ps) (Header_new s) = Some (True, rest, g)"
    "same_message g h" "h_parse_error g = HREAD_OK" "h_bytes_parsed g = length (AppendToStream h [])"
    using ParseHeader_written [OF assms(1-3), of rest s] unfolding assms(4) by blast
  then obtain f where f: "feed (header_call (h_first_line h)) (Header_new s) [] ps = Some (True, rest, f)" "settled f = settled g"
    using feed_header_outcome [OF parsing_new [of s], of "h_first_line h" ps] by (auto dest: observe_SomeD)
  have "h_parse_error (settled f) = HREAD_NO_DATA" using g(3) by (simp add: f(2)) (simp add: settled_def)
  then have "error_num (h_parse_error f) \<le> error_num HREAD_NO_DATA" by (auto simp: settled_def split: if_splits)
  with f g settled_eqD [OF f(2)] show ?thesis by (auto simp: same_message_def)
qed

definition sample_header :: Header where
  "sample_header = (PrepareRequestLine (ascii ''/x'') METHOD_POST VERSION_1_1 (Header_new True))
     \<lparr>h_fields := [(kHeaderContentLength, ascii ''2''), (kHeaderContentType, ascii ''text/plain'')]\<rparr>"

lemma sample_header_ok: "first_line_ok sample_header" "fields_ok (h_fields sample_header)" "h_verbatim sample_header = []"
  by (simp_all add: sample_header_def PrepareRequestLine_def Header_new_def first_line_ok_def fields_ok_def field_ok_def ascii_def
    kHeaderContentLength_def kHeaderContentType_def NormalizeFieldName_def IsValidFieldName_def IsValidFieldContent_def
    IsTokenChar_def IsAsciiChar_def IsCtlChar_def IsSeparatorChar_def IsLwfChar_def IsWhiteSpace_def isalpha_def toupper_def
    tolower_def List_Lexorder.list_less_def)

theorem header_roundtrip_witness:
  "\<exists>g. feed (header_call REQUEST_LINE) (Header_new True) []
      [take 20 (AppendToStream sample_header []), drop 20 (AppendToStream sample_header []) @ [1, 2]] = Some (True, [1, 2], g) \<and> h_uri g = ascii ''/x''"
  using header_roundtrip [OF sample_header_ok, of "[take 20 (AppendToStream sample_header []), drop 20 (AppendToStream sample_header []) @ [1, 2]]"
      "[1, 2]" True]
  by (auto simp: same_message_def sample_header_def PrepareRequestLine_def simp flip: append_assoc)

end
