(* ===== verification/HttpParserProps.thy ===== *)
theory HttpParserProps
  imports HttpParser HttpHeaderProps
begin

unbundle bit_operations_syntax

text \<open>
  Properties of \<open>http::RequestParser\<close>: the chunked reader and the reader of a body of known length
  do not depend on how the data is cut into pieces; limits on the sizes; the answers of the
  parser and its final states.
\<close>

section \<open>One round of the chunk loop\<close>

definition ChunkStep ::
    "('g, 'i) decoder \<Rightarrow> bytes \<Rightarrow> Header \<Rightarrow> bytes \<Rightarrow> ('g, 'i) RequestParser \<Rightarrow> int option \<times> bytes \<times> bytes \<times> ('g, 'i) RequestParser" where
  "ChunkStep z inp header out p =
     (if p_parse_state p = STATE_CHUNK_HEAD_READING then (case ReadChunkHead inp p of (r, inp', p') \<Rightarrow> (r, inp', out, p'))
      else if p_parse_state p = STATE_END_OF_CHUNK then (case ReadChunkEnd inp p of (r, inp', p') \<Rightarrow> (r, inp', out, p'))
      else ReadChunkData z inp header out p)"

definition chunk_state :: "('g, 'i) RequestParser \<Rightarrow> bool" where
  "chunk_state p \<longleftrightarrow> p_parse_state p \<in> {STATE_CHUNK_HEAD_READING, STATE_END_OF_CHUNK, STATE_CHUNK_READING}"

lemma ParseChunksInternal_step:
  "chunk_state p \<Longrightarrow> ParseChunksInternal z inp h out p =
     (case ChunkStep z inp h out p of
        (Some r, inp', out', p') \<Rightarrow> Some (r, inp', h, out', p')
      | (None, inp', out', p') \<Rightarrow> ParseChunksInternal z inp' h out' p')"
  "p_parse_state p = STATE_LAST_CHUNK_READ \<Longrightarrow> ParseChunksInternal z inp h out p =
     map_option (\<lambda>(r, inp', h', p'). (r, inp', h', out, p')) (ParseTrailHeader inp h p)"
  "\<not> chunk_state p \<Longrightarrow> p_parse_state p \<noteq> STATE_LAST_CHUNK_READ \<Longrightarrow> ParseChunksInternal z inp h out p = None"
  by (auto simp: ParseChunksInternal.simps [of z inp] ChunkStep_def chunk_state_def split: prod.splits option.splits)

lemma ChunkStep_less:
  "chunk_state p \<Longrightarrow> ChunkStep z inp h out p = (None, inp', out', p') \<Longrightarrow> chunk_measure inp' p' < chunk_measure inp p"
  by (auto simp: ChunkStep_def chunk_state_def split: prod.splits if_splits
      intro: ReadChunkHead_less ReadChunkEnd_less ReadChunkData_less)

text \<open>Induction on a run of the loop that ends.\<close>

lemma ParseChunksInternal_run [consumes 1, case_names stop trail more]:
  assumes "ParseChunksInternal z inp h out p = Some (r, inp', h', out', p')"
    and "\<And>inp out p r inp' out' p'. chunk_state p \<Longrightarrow> ChunkStep z inp h out p = (Some r, inp', out', p') \<Longrightarrow> P inp out p r inp' h out' p'"
    and "\<And>inp out p r inp' h' p'. p_parse_state p = STATE_LAST_CHUNK_READ \<Longrightarrow>
           ParseTrailHeader inp h p = Some (r, inp', h', p') \<Longrightarrow> P inp out p r inp' h' out p'"
    and "\<And>inp out p inp1 out1 p1 r inp' h' out' p'. chunk_state p \<Longrightarrow> ChunkStep z inp h out p = (None, inp1, out1, p1) \<Longrightarrow>
           ParseChunksInternal z inp1 h out1 p1 = Some (r, inp', h', out', p') \<Longrightarrow> P inp1 out1 p1 r inp' h' out' p' \<Longrightarrow>
           P inp out p r inp' h' out' p'"
  shows "P inp out p r inp' h' out' p'"
  using assms(1)
proof (induction "chunk_measure inp p" arbitrary: inp out p rule: less_induct)
  case less
  show ?case
  proof (cases "chunk_state p")
    case True
    obtain s i o1 p1 where s: "ChunkStep z inp h out p = (s, i, o1, p1)" by (metis prod_cases4)
    show ?thesis
    proof (cases s)
      case None
      with s True less.prems have "ParseChunksInternal z i h o1 p1 = Some (r, inp', h', out', p')"
        by (simp add: ParseChunksInternal_step(1))
      with less.hyps [of i p1 o1] ChunkStep_less [OF True] s None assms(4) [OF True, of inp out i o1 p1] show ?thesis by blast
    next
      case (Some r')
      with s True less.prems assms(2) [OF True, of inp out r' i o1 p1] show ?thesis by (simp add: ParseChunksInternal_step(1))
    qed
  next
    case False
    with less.prems assms(3) [of p inp] show ?thesis
      by (cases "p_parse_state p = STATE_LAST_CHUNK_READ") (auto simp: ParseChunksInternal_step)
  qed
qed

section \<open>Chunks in pieces\<close>

text \<open>Content that is not compressed.\<close>

definition plain :: "Header \<Rightarrow> bool" where
  "plain h \<longleftrightarrow> \<not> IsGzipContentEncoding h \<and> \<not> IsDeflateContentEncoding h"

lemma plain_reads [simp]: "plain h \<Longrightarrow> \<not> reads_gzip h p" "plain h \<Longrightarrow> \<not> reads_deflate h p"
  by (auto simp: plain_def reads_gzip_def reads_deflate_def)

lemma ReadChunkData_plain:
  "plain h \<Longrightarrow> ReadChunkData z inp h out p =
     (if inp = [] then (Some (HEADER_READ OR CHUNKED_BODY_READING), inp, out, p)
      else (None, drop (p_chunk_size_to_read p) inp, out @ p_partial_data p @ take (p_chunk_size_to_read p) inp,
            p\<lparr>p_partial_data := [], p_chunk_size_to_read := p_chunk_size_to_read p - length inp,
              p_parse_state := (if p_chunk_size_to_read p \<le> length inp then STATE_END_OF_CHUNK else p_parse_state p)\<rparr>))"
  by (simp add: ReadChunkData_def Let_def drop_min_length take_min_length)

lemma set_parse_state_sel [simp]:
  "p_parse_state (set_parse_state s p) = s" "p_trail_header (set_parse_state s p) = p_trail_header p"
  "p_max_header_size (set_parse_state s p) = p_max_header_size p" "p_max_body_size (set_parse_state s p) = p_max_body_size p"
  "p_max_chunk_size (set_parse_state s p) = p_max_chunk_size p" "p_max_num_chunks (set_parse_state s p) = p_max_num_chunks p"
  "p_worst_accepted_header_error (set_parse_state s p) = p_worst_accepted_header_error p"
  "p_body_size_to_read (set_parse_state s p) = p_body_size_to_read p" "p_chunk_size_to_read (set_parse_state s p) = p_chunk_size_to_read p"
  "p_num_chunks_read (set_parse_state s p) = p_num_chunks_read p" "p_partial_data (set_parse_state s p) = p_partial_data p"
  "p_next_chunk_expectation (set_parse_state s p) = p_next_chunk_expectation p"
  by (simp_all add: set_parse_state_def)

lemma final_set_parse_state [simp]:
  "InFinalState (set_parse_state s p) \<longleftrightarrow> 100 \<le> state_num s" "InErrorState (set_parse_state s p) \<longleftrightarrow> 200 \<le> state_num s"
  by (simp_all add: InFinalState_def InErrorState_def)

lemma set_parse_state_accept:
  "p_accept_wrong_version (set_parse_state s p) = p_accept_wrong_version p"
  "p_accept_wrong_method (set_parse_state s p) = p_accept_wrong_method p"
  "p_accept_no_content_length (set_parse_state s p) = p_accept_no_content_length p"
  by (simp_all add: set_parse_state_def)

lemma ReadChunkHead_stop:
  assumes "ReadChunkHead inp p = (Some r, inp', p')" and "\<not> InErrorState p'"
  shows "inp' = inp \<and> p' = p \<and> r = HEADER_READ OR CHUNKED_BODY_READING"
  using assms spec_line_none [of 13 inp]
  by (auto simp: ReadChunkHead_def chunk_error_def InErrorState_def Let_def split: prod.splits option.splits if_splits)

lemma ReadChunkEnd_stop:
  assumes "ReadChunkEnd inp p = (Some r, inp', p')" and "\<not> InErrorState p'"
  shows "inp' = inp \<and> p' = p \<and> r = HEADER_READ OR CHUNKED_BODY_READING"
  using assms spec_line_none [of 13 inp]
  by (auto simp: ReadChunkEnd_def chunk_error_def InErrorState_def split: prod.splits option.splits if_splits)

lemma ReadChunkHead_append:
  "ReadChunkHead a p = (None, a', p') \<Longrightarrow> ReadChunkHead (a @ b) p = (None, a' @ b, p')"
  using spec_line_append [of 13 a _ a' b]
  by (auto simp: ReadChunkHead_def chunk_error_def Let_def split: prod.splits option.splits if_splits)

lemma ReadChunkEnd_append:
  "ReadChunkEnd a p = (None, a', p') \<Longrightarrow> ReadChunkEnd (a @ b) p = (None, a' @ b, p')"
  using spec_line_append [of 13 a _ a' b]
  by (auto simp: ReadChunkEnd_def chunk_error_def split: prod.splits option.splits if_splits)

lemma ChunkStep_stop:
  assumes "chunk_state p" and "plain h" and "ChunkStep z inp h out p = (Some r, inp', out', p')" and "\<not> InErrorState p'"
  shows "inp' = inp \<and> out' = out \<and> p' = p \<and> r = HEADER_READ OR CHUNKED_BODY_READING"
  using assms ReadChunkHead_stop [of inp p r inp' p'] ReadChunkEnd_stop [of inp p r inp' p']
  by (auto simp: ChunkStep_def chunk_state_def ReadChunkData_plain split: prod.splits if_splits)

lemma ChunkStep_append:
  assumes "chunk_state p" and "plain h" and "ChunkStep z a h out p = (None, a1, out1, p1)"
  shows "ParseChunksInternal z (a @ b) h out p = ParseChunksInternal z (a1 @ b) h out1 p1"
proof (cases "p_parse_state p = STATE_CHUNK_READING")
  case False
  with assms have "ChunkStep z (a @ b) h out p = (None, a1 @ b, out1, p1)"
    using ReadChunkHead_append [of a p a1 p1 b] ReadChunkEnd_append [of a p a1 p1 b]
    by (auto simp: ChunkStep_def chunk_state_def split: prod.splits if_splits)
  with assms(1) show ?thesis by (simp add: ParseChunksInternal_step(1))
next
  case True
  let ?n = "p_chunk_size_to_read p"
  have a: "a \<noteq> []" "a1 = drop ?n a" "out1 = out @ p_partial_data p @ take ?n a"
    "p1 = p\<lparr>p_partial_data := [], p_chunk_size_to_read := ?n - length a,
              p_parse_state := (if ?n \<le> length a then STATE_END_OF_CHUNK else p_parse_state p)\<rparr>"
    using assms True by (auto simp: ChunkStep_def ReadChunkData_plain split: if_splits)
  show ?thesis
  proof (cases "?n \<le> length a \<or> b = []")
    case True
    with a \<open>p_parse_state p = _\<close> assms(1,2) show ?thesis
      by (auto simp: ParseChunksInternal_step(1) [OF assms(1)] ChunkStep_def ReadChunkData_plain)
  next
    case False
    then have c: "chunk_state p1" "p_parse_state p1 = STATE_CHUNK_READING" using a True by (auto simp: chunk_state_def)
    from False a c True assms(2) have "ChunkStep z (a @ b) h out p = ChunkStep z (a1 @ b) h out1 p1"
      by (simp add: ChunkStep_def ReadChunkData_plain le_diff_conv add.commute)
    with c(1) assms(1) show ?thesis by (simp only: ParseChunksInternal_step(1))
  qed
qed

text \<open>The states of the chunked reader, and what one call makes of one of them.\<close>

definition chunk_ok :: "Header \<times> bytes \<times> ('g, 'i) RequestParser \<Rightarrow> bool" where
  "chunk_ok s \<longleftrightarrow> (case s of (header, out, p) \<Rightarrow>
     (chunk_state p \<or> p_parse_state p = STATE_LAST_CHUNK_READ) \<and> plain header \<and>
     error_num HREAD_NO_DATA \<le> error_num (p_worst_accepted_header_error p))"

definition chunks_result ::
    "(int \<times> bytes \<times> Header \<times> bytes \<times> ('g, 'i) RequestParser) option \<Rightarrow>
      (int \<times> bytes \<times> Header \<times> bytes \<times> ('g, 'i) RequestParser) option" where
  "chunks_result = map_option (\<lambda>(r, inp, h, out, p). (r, inp, h, out, p\<lparr>p_trail_header := settled (p_trail_header p)\<rparr>))"

lemma chunks_result_simps [simp]:
  "chunks_result None = None"
  "chunks_result (Some (r, inp, h, out, p)) = Some (r, inp, h, out, p\<lparr>p_trail_header := settled (p_trail_header p)\<rparr>)"
  by (simp_all add: chunks_result_def)

lemma settled_error:
  assumes "settled g = settled h" and "error_num HREAD_NO_DATA \<le> n"
  shows "n < error_num (h_parse_error g) \<longleftrightarrow> n < error_num (h_parse_error h)"
  using arg_cong [OF assms(1), of h_parse_error] assms(2) by (auto simp: settled_def split: if_splits)

text \<open>The trailer: a call that lacks data, and the next one.\<close>

lemma CopyHeaderFields_cong: "h_fields g = h_fields h \<Longrightarrow> CopyHeaderFields g b d = CopyHeaderFields h b d"
  by (simp add: CopyHeaderFields_def)

lemma ParseTrailHeader_waits:
  assumes "ParseTrailHeader a h p = Some (r, a', h', p')" and "\<not> InFinalState p'"
    and "error_num HREAD_NO_DATA \<le> error_num (p_worst_accepted_header_error p)"
  shows "h' = h" "p_parse_state p' = STATE_LAST_CHUNK_READ" "r = HEADER_READ OR CHUNKED_TRAILER_READING"
    "p_worst_accepted_header_error p' = p_worst_accepted_header_error p"
    "chunks_result (ParseChunksInternal z (a' @ b) h' out p') = chunks_result (ParseChunksInternal z (a @ b) h out p)"
proof -
  let ?t = "p_trail_header p"
  have st: "p_parse_state p = STATE_LAST_CHUNK_READ" using assms(1) by (auto simp: ParseTrailHeader_def split: if_splits)
  with assms obtain t where t: "ReadHeaderFields a ?t = Some (False, a', t)" and p': "p' = p\<lparr>p_trail_header := t\<rparr>"
    and h': "h' = h" and r: "r = HEADER_READ OR CHUNKED_TRAILER_READING"
    by (auto simp: ParseTrailHeader_def Let_def bind_eq_Some_conv read_state_defs split: if_splits)
  show "h' = h" "r = HEADER_READ OR CHUNKED_TRAILER_READING" "p_parse_state p' = STATE_LAST_CHUNK_READ"
    "p_worst_accepted_header_error p' = p_worst_accepted_header_error p" using h' r p' st by simp_all
  from ReadHeaderFields_more [OF t, of b]
  consider (none) "ReadHeaderFields (a' @ b) t = None" "ReadHeaderFields (a @ b) ?t = None"
    | (some) d i t1 t2 where "ReadHeaderFields (a' @ b) t = Some (d, i, t1)" "ReadHeaderFields (a @ b) ?t = Some (d, i, t2)"
        "settled t1 = settled t2"
    unfolding observe_def by (auto elim!: map_option_eqE)
  then show "chunks_result (ParseChunksInternal z (a' @ b) h' out p') = chunks_result (ParseChunksInternal z (a @ b) h out p)"
  proof cases
    case none
    then show ?thesis using st p' h' by (simp add: ParseChunksInternal_step(2) ParseTrailHeader_def)
  next
    case some
    then show ?thesis
      using st p' h' settled_error [OF some(3) assms(3)] settled_eqD(1,2) [OF some(3)] CopyHeaderFields_cong [of t1 t2]
      by (auto simp: ParseChunksInternal_step(2) ParseTrailHeader_def Let_def set_parse_state_def
          split: bind_splits)
  qed
qed

lemma ParseTrailHeader_finishes:
  assumes "ParseTrailHeader a h p = Some (r, a', h', p')" and "InFinalState p'" and "\<not> InErrorState p'"
  shows "ParseTrailHeader (a @ b) h p = Some (r, a' @ b, h', p')"
    and "p_parse_state p' = STATE_END_OF_TRAIL_HEADER" "r = HEADER_READ OR CHUNKS_FINISHED OR REQUEST_FINISHED"
proof -
  have st: "p_parse_state p = STATE_LAST_CHUNK_READ" using assms(1) by (auto simp: ParseTrailHeader_def split: if_splits)
  with assms obtain t n where t: "ReadHeaderFields a (p_trail_header p) = Some (True, a', t)"
    and w: "\<not> error_num (h_parse_error t) > error_num (p_worst_accepted_header_error p)"
    and p': "p' = set_parse_state STATE_END_OF_TRAIL_HEADER (p\<lparr>p_trail_header := t\<rparr>)"
    and h': "CopyHeaderFields t False h = Some (n, h')" and r: "r = HEADER_READ OR CHUNKS_FINISHED OR REQUEST_FINISHED"
    by (auto simp: ParseTrailHeader_def InFinalState_def InErrorState_def Let_def bind_eq_Some_conv split: if_splits)
  show "p_parse_state p' = STATE_END_OF_TRAIL_HEADER" "r = HEADER_READ OR CHUNKS_FINISHED OR REQUEST_FINISHED" using p' r by simp_all
  show "ParseTrailHeader (a @ b) h p = Some (r, a' @ b, h', p')"
    using st ReadHeaderFields_append [OF t, of b] w h' p' r by (simp add: ParseTrailHeader_def)
qed

lemma chunk_state_not_final: "chunk_state p \<Longrightarrow> \<not> InFinalState p \<and> \<not> InErrorState p"
  by (auto simp: chunk_state_def InFinalState_def InErrorState_def)

lemma ReadChunkHead_keeps:
  "ReadChunkHead a p = (None, a', p') \<Longrightarrow> (chunk_state p' \<or> p_parse_state p' = STATE_LAST_CHUNK_READ) \<and>
     p_worst_accepted_header_error p' = p_worst_accepted_header_error p \<and> p_trail_header p' = p_trail_header p"
  by (auto simp: ReadChunkHead_def chunk_error_def chunk_state_def Let_def split: prod.splits option.splits if_splits)

lemma ReadChunkEnd_keeps:
  "ReadChunkEnd a p = (None, a', p') \<Longrightarrow> chunk_state p' \<and>
     p_worst_accepted_header_error p' = p_worst_accepted_header_error p \<and> p_trail_header p' = p_trail_header p"
  by (auto simp: ReadChunkEnd_def chunk_error_def chunk_state_def split: prod.splits option.splits if_splits)

lemma ChunkStep_keeps:
  assumes "chunk_state p" and "plain h" and "ChunkStep z a h out p = (None, a1, out1, p1)"
  shows "chunk_state p1 \<or> p_parse_state p1 = STATE_LAST_CHUNK_READ"
    and "p_worst_accepted_header_error p1 = p_worst_accepted_header_error p"
  using assms ReadChunkHead_keeps [of a p a1 p1] ReadChunkEnd_keeps [of a p a1 p1]
  by (auto simp: ChunkStep_def ReadChunkData_plain chunk_state_def split: prod.splits if_splits)

lemma chunks_wait:
  assumes "ParseChunksInternal z a h out p = Some (r, a', h', out', p')" and "chunk_ok (h, out, p)" and "\<not> InFinalState p'"
  shows "chunk_ok (h', out', p') \<and>
    chunks_result (ParseChunksInternal z (a' @ b) h' out' p') = chunks_result (ParseChunksInternal z (a @ b) h out p)"
  using assms
proof (induction rule: ParseChunksInternal_run)
  case (stop inp out p r inp' out' p')
  then have "plain h" "\<not> InErrorState p'" by (auto simp: chunk_ok_def InFinalState_def InErrorState_def)
  with stop ChunkStep_stop [OF stop(1) _ stop(2)] show ?case by simp
next
  case (trail inp out p r inp' h' p')
  then have w: "error_num HREAD_NO_DATA \<le> error_num (p_worst_accepted_header_error p)" "plain h" by (auto simp: chunk_ok_def)
  note t = ParseTrailHeader_waits [OF trail(2) trail(4) w(1)]
  from t(1-4) t(5) [of z b out] w show ?case by (simp add: chunk_ok_def)
next
  case (more inp out p inp1 out1 p1 r inp' h' out' p')
  then have "plain h" by (simp add: chunk_ok_def)
  note k = ChunkStep_keeps [OF more(1) this more(2)] and s = ChunkStep_append [OF more(1) this more(2), of b]
  from k more(5) have "chunk_ok (h, out1, p1)" by (auto simp: chunk_ok_def)
  with more(4) more(6) s show ?case by simp
qed

lemma chunks_finish:
  assumes "ParseChunksInternal z a h out p = Some (r, a', h', out', p')" and "chunk_ok (h, out, p)"
    and "InFinalState p'" and "\<not> InErrorState p'"
  shows "ParseChunksInternal z (a @ b) h out p = Some (r, a' @ b, h', out', p')"
  using assms
proof (induction rule: ParseChunksInternal_run)
  case (stop inp out p r inp' out' p')
  then show ?case using ChunkStep_stop [OF stop(1) _ stop(2)] chunk_state_not_final [OF stop(1)] by (auto simp: chunk_ok_def)
next
  case (trail inp out p r inp' h' p')
  then show ?case using ParseTrailHeader_finishes(1) [of inp h p r inp' h' p' b] by (simp add: ParseChunksInternal_step(2))
next
  case (more inp out p inp1 out1 p1 r inp' h' out' p')
  then have "plain h" by (simp add: chunk_ok_def)
  note k = ChunkStep_keeps [OF more(1) this more(2)] and s = ChunkStep_append [OF more(1) this more(2), of b]
  from k more(5) have "chunk_ok (h, out1, p1)" by (auto simp: chunk_ok_def)
  with more s show ?case by simp
qed

section \<open>The body of a known length in pieces\<close>

definition body_too_long :: "('g, 'i) RequestParser \<Rightarrow> bool" where
  "body_too_long p \<longleftrightarrow> p_max_body_size p \<ge> 0 \<and> int (p_body_size_to_read p) > p_max_body_size p"

lemma ParseBodyInternal_plain:
  assumes "plain h" and "p_parse_state p = STATE_BODY_READING"
  shows "ParseBodyInternal z inp h out p =
     (if body_too_long p
      then Some (HEADER_READ OR REQUEST_FINISHED, inp, out, set_parse_state ERROR_CONTENT_TOO_LONG p)
      else if p_body_size_to_read p \<le> length inp
      then Some (HEADER_READ OR BODY_FINISHED OR REQUEST_FINISHED, drop (p_body_size_to_read p) inp,
             out @ p_partial_data p @ take (p_body_size_to_read p) inp,
             set_parse_state STATE_BODY_END (p\<lparr>p_partial_data := [], p_body_size_to_read := 0\<rparr>))
      else Some (HEADER_READ OR BODY_READING, [], out @ p_partial_data p @ inp,
             p\<lparr>p_partial_data := [], p_body_size_to_read := p_body_size_to_read p - length inp\<rparr>))"
  using assms by (simp add: ParseBodyInternal_def Let_def drop_min_length take_min_length set_parse_state_def body_too_long_def)

section \<open>The payload in pieces\<close>

definition payload_ok :: "Header \<times> bytes \<times> ('g, 'i) RequestParser \<Rightarrow> bool" where
  "payload_ok s \<longleftrightarrow> (case s of (header, out, p) \<Rightarrow>
     (chunk_state p \<or> p_parse_state p \<in> {STATE_END_OF_HEADER, STATE_BODY_READING, STATE_LAST_CHUNK_READ}) \<and> plain header \<and>
     error_num HREAD_NO_DATA \<le> error_num (p_worst_accepted_header_error p))"

lemma ParsePayloadInternal_chunks:
  "chunk_state p \<or> p_parse_state p = STATE_LAST_CHUNK_READ \<Longrightarrow>
     ParsePayloadInternal z inp h out p = ParseChunksInternal z inp h out p"
  by (auto simp: ParsePayloadInternal_def chunk_state_def)

lemma ParsePayloadInternal_body:
  "p_parse_state p = STATE_BODY_READING \<Longrightarrow>
     ParsePayloadInternal z inp h out p =
       map_option (\<lambda>(r, inp', out', p'). (r, inp', h, out', p')) (ParseBodyInternal z inp h out p)"
  by (simp add: ParsePayloadInternal_def)

lemma BeginPayload_keeps:
  "BeginPayload h p = (None, p1) \<Longrightarrow> p_parse_state p1 \<in> {STATE_BODY_READING, STATE_CHUNK_HEAD_READING} \<and>
     p_worst_accepted_header_error p1 = p_worst_accepted_header_error p"
  "BeginPayload h p = (Some r, p1) \<Longrightarrow> InFinalState p1 \<and> (\<not> InErrorState p1 \<longrightarrow> p_parse_state p1 = STATE_END_OF_HEADER_FINAL)"
  by (auto simp: BeginPayload_def Let_def InFinalState_def InErrorState_def split: if_splits option.splits)

lemma ParsePayloadInternal_begin:
  assumes "p_parse_state p = STATE_END_OF_HEADER"
  shows "BeginPayload h p = (None, p1) \<Longrightarrow> ParsePayloadInternal z inp h out p = ParsePayloadInternal z inp h out p1"
    and "BeginPayload h p = (Some r, p1) \<Longrightarrow> ParsePayloadInternal z inp h out p = Some (r, inp, h, out, p1)"
  using assms BeginPayload_keeps(1) [of h p p1] by (auto simp: ParsePayloadInternal_def)

lemma payload_ok_begin: "payload_ok (h, out, p) \<Longrightarrow> BeginPayload h p = (None, p1) \<Longrightarrow> payload_ok (h, out, p1)"
  using BeginPayload_keeps(1) [of h p p1] by (auto simp: payload_ok_def chunk_state_def)

lemma payload_wait_running:
  assumes "ParsePayloadInternal z a h out p = Some (r, a', h', out', p')" and "payload_ok (h, out, p)" and "\<not> InFinalState p'"
    and "p_parse_state p \<noteq> STATE_END_OF_HEADER"
  shows "payload_ok (h', out', p') \<and>
    chunks_result (ParsePayloadInternal z (a' @ b) h' out' p') = chunks_result (ParsePayloadInternal z (a @ b) h out p)"
proof (cases "p_parse_state p = STATE_BODY_READING")
  case True
  have pl: "plain h" using assms(2) by (simp add: payload_ok_def)
  from True assms(1,3) have w: "\<not> body_too_long p"
      "\<not> p_body_size_to_read p \<le> length a" "a' = []" "h' = h" "out' = out @ p_partial_data p @ a"
      "p' = p\<lparr>p_partial_data := [], p_body_size_to_read := p_body_size_to_read p - length a\<rparr>"
    by (auto simp: ParsePayloadInternal_body ParseBodyInternal_plain [OF pl True] split: if_splits)
  then have s: "p_parse_state p' = STATE_BODY_READING" using True by simp
  have "ParseBodyInternal z b h out' p' = ParseBodyInternal z (a @ b) h out p"
  proof -
    have "\<not> body_too_long p'" using w(1) unfolding w(6) by (auto simp: body_too_long_def)
    with w(1,2) show ?thesis
      unfolding ParseBodyInternal_plain [OF pl s] ParseBodyInternal_plain [OF pl True]
      by (simp add: w(5,6) le_diff_conv add.commute set_parse_state_def)
  qed
  with w(3,4) s True assms(2) show ?thesis using w(6) by (simp add: ParsePayloadInternal_body payload_ok_def)
next
  case False
  with assms(2,4) have c: "chunk_state p \<or> p_parse_state p = STATE_LAST_CHUNK_READ" by (auto simp: payload_ok_def)
  then have "chunk_ok (h, out, p)" using assms(2) by (auto simp: payload_ok_def chunk_ok_def)
  note k = chunks_wait [OF assms(1) [unfolded ParsePayloadInternal_chunks [OF c]] this assms(3), of b]
  then have c': "chunk_state p' \<or> p_parse_state p' = STATE_LAST_CHUNK_READ" by (auto simp: chunk_ok_def)
  from k c c' show ?thesis by (auto simp: ParsePayloadInternal_chunks payload_ok_def chunk_ok_def)
qed

lemma payload_wait:
  assumes "ParsePayloadInternal z a h out p = Some (r, a', h', out', p')" and "payload_ok (h, out, p)" and "\<not> InFinalState p'"
  shows "payload_ok (h', out', p') \<and>
    chunks_result (ParsePayloadInternal z (a' @ b) h' out' p') = chunks_result (ParsePayloadInternal z (a @ b) h out p)"
proof (cases "p_parse_state p = STATE_END_OF_HEADER")
  case True
  obtain s p1 where s: "BeginPayload h p = (s, p1)" by fastforce
  with assms(1,3) BeginPayload_keeps(2) [of h p _ p1] have "s = None"
    by (cases s) (auto simp: ParsePayloadInternal_begin(2) [OF True])
  with s have n: "BeginPayload h p = (None, p1)" by simp
  note e = ParsePayloadInternal_begin(1) [OF True n]
  have "p_parse_state p1 \<noteq> STATE_END_OF_HEADER" using BeginPayload_keeps(1) [OF n] by auto
  from payload_wait_running [OF assms(1) [unfolded e] payload_ok_begin [OF assms(2) n] assms(3) this] show ?thesis by (simp add: e)
qed (rule payload_wait_running [OF assms])

lemma payload_finish_running:
  assumes "ParsePayloadInternal z a h out p = Some (r, a', h', out', p')" and "payload_ok (h, out, p)"
    and "InFinalState p'" and "\<not> InErrorState p'" and "p_parse_state p \<noteq> STATE_END_OF_HEADER"
  shows "ParsePayloadInternal z (a @ b) h out p = Some (r, a' @ b, h', out', p')"
proof (cases "p_parse_state p = STATE_BODY_READING")
  case True
  have pl: "plain h" using assms(2) by (simp add: payload_ok_def)
  from assms(1,3,4) True show ?thesis unfolding ParsePayloadInternal_body [OF True] ParseBodyInternal_plain [OF pl True]
    by (auto simp: InFinalState_def InErrorState_def split: if_splits)
next
  case False
  with assms(2,5) have c: "chunk_state p \<or> p_parse_state p = STATE_LAST_CHUNK_READ" by (auto simp: payload_ok_def)
  then have "chunk_ok (h, out, p)" using assms(2) by (auto simp: payload_ok_def chunk_ok_def)
  from chunks_finish [OF assms(1) [unfolded ParsePayloadInternal_chunks [OF c]] this assms(3,4), of b] c
  show ?thesis by (simp add: ParsePayloadInternal_chunks)
qed

lemma payload_finish:
  assumes "ParsePayloadInternal z a h out p = Some (r, a', h', out', p')" and "payload_ok (h, out, p)"
    and "InFinalState p'" and "\<not> InErrorState p'"
  shows "ParsePayloadInternal z (a @ b) h out p = Some (r, a' @ b, h', out', p')"
proof (cases "p_parse_state p = STATE_END_OF_HEADER")
  case True
  obtain s p1 where s: "BeginPayload h p = (s, p1)" by fastforce
  show ?thesis
  proof (cases s)
    case None
    with s have n: "BeginPayload h p = (None, p1)" by simp
    note e = ParsePayloadInternal_begin(1) [OF True n]
    have "p_parse_state p1 \<noteq> STATE_END_OF_HEADER" using BeginPayload_keeps(1) [OF n] by auto
    from payload_finish_running [OF assms(1) [unfolded e] payload_ok_begin [OF assms(2) n] assms(3,4) this] show ?thesis by (simp add: e)
  next
    case (Some r')
    with s assms(1) show ?thesis by (simp add: ParsePayloadInternal_begin(2) [OF True])
  qed
qed (rule payload_finish_running [OF assms])

end
