(* ===== verification/HttpProps.thy ===== *)
theory HttpProps
  imports HttpParserProps
begin

unbundle bit_operations_syntax

text \<open>
  Requests from end to end: what \<open>http::Request\<close> puts on the wire is what \<open>http::RequestParser\<close>
  delivers, in whatever pieces it arrives. The parser is an instance of the incremental parsers,
  up to the errors that waiting for data leaves in a header.
\<close>

section \<open>The payload depends on the fields of the header only\<close>

definition payload_result ::
    "(int \<times> bytes \<times> Header \<times> bytes \<times> ('g, 'i) RequestParser) option \<Rightarrow>
      (int \<times> bytes \<times> Header \<times> bytes \<times> ('g, 'i) RequestParser) option" where
  "payload_result = map_option (\<lambda>(r, inp, h, out, p). (r, inp, settled h, out, p\<lparr>p_trail_header := settled (p_trail_header p)\<rparr>))"

lemma payload_result_simps [simp]:
  "payload_result None = None"
  "payload_result (Some (r, inp, h, out, p)) = Some (r, inp, settled h, out, p\<lparr>p_trail_header := settled (p_trail_header p)\<rparr>)"
  by (simp_all add: payload_result_def)

lemma payload_result_chunks: "chunks_result x = chunks_result y \<Longrightarrow> payload_result x = payload_result y"
  by (cases x; cases y) (auto simp: payload_result_def)

lemma AddField_settled:
  "map_option (map_prod id settled) (AddField n c replace as_is (settled h)) = map_option (map_prod id settled) (AddField n c replace as_is h)"
  by (auto simp: AddField_def split: bind_splits option.splits)

lemma AddField_cong:
  "settled g = settled h \<Longrightarrow>
    map_option (map_prod id settled) (AddField n c replace as_is g) = map_option (map_prod id settled) (AddField n c replace as_is h)"
  using AddField_settled [of n c replace as_is g] AddField_settled [of n c replace as_is h] by simp

lemma copy_fields_cong:
  "settled g = settled h \<Longrightarrow>
    map_option (map_prod id settled) (copy_fields fs replace g) = map_option (map_prod id settled) (copy_fields fs replace h)"
proof (induction fs arbitrary: g h)
  case (Cons f fs)
  obtain k v where f: "f = (k, v)" by (cases f)
  from AddField_cong [OF Cons.prems, of k v replace False] show ?case
  proof (cases rule: map_option_eqE)
    case (2 a b)
    obtain ok g1 where a: "a = (ok, g1)" by (cases a)
    with 2(3) obtain h1 where b: "b = (ok, h1)" "settled g1 = settled h1" by (cases b) auto
    from Cons.IH [OF b(2)] show ?thesis
      by (cases rule: map_option_eqE) (use 2(1,2) a b(1) f in auto)
  qed (simp add: f)
qed simp

lemma field_or_empty_cong: "settled g = settled h \<Longrightarrow> field_or_empty n g = field_or_empty n h"
  using settled_eqD(2) [of g h] by (simp add: field_or_empty_def FindField_def)

lemma encoding_cong:
  assumes "settled g = settled h"
  shows "IsGzipContentEncoding g = IsGzipContentEncoding h" "IsDeflateContentEncoding g = IsDeflateContentEncoding h"
    "IsChunkedTransfer g = IsChunkedTransfer h" "IsKnownContentEncoding g = IsKnownContentEncoding h"
    "IsKnownTransferEncoding g = IsKnownTransferEncoding h" "DefaultBodyLen g = DefaultBodyLen h" "plain g = plain h"
    "FindField n g = FindField n h"
  using field_or_empty_cong [OF assms] settled_eqD [OF assms]
  by (auto simp: IsGzipContentEncoding_def IsDeflateContentEncoding_def IsChunkedTransfer_def IsKnownContentEncoding_def
      IsKnownTransferEncoding_def DefaultBodyLen_def plain_def FindField_def)

lemma reads_cong:
  assumes "settled g = settled h"
  shows "reads_gzip g p = reads_gzip h p" "reads_deflate g p = reads_deflate h p"
  using encoding_cong(1,2) [OF assms] by (simp_all add: reads_gzip_def reads_deflate_def)

lemma ReadChunkData_cong:
  assumes "settled g = settled h"
  shows "ReadChunkData z inp g out p = ReadChunkData z inp h out p"
  unfolding ReadChunkData_def reads_cong [OF assms] by simp

lemma ChunkStep_cong:
  assumes "settled g = settled h"
  shows "ChunkStep z inp g out p = ChunkStep z inp h out p"
  unfolding ChunkStep_def ReadChunkData_cong [OF assms] by simp

lemma CopyHeaderFields_target:
  assumes "settled g = settled h"
  obtains "CopyHeaderFields t b g = None" "CopyHeaderFields t b h = None"
  | n k l where "CopyHeaderFields t b g = Some (n, k)" "CopyHeaderFields t b h = Some (n, l)" "settled k = settled l"
  using copy_fields_cong [OF assms, of "h_fields t" b] unfolding CopyHeaderFields_def by (auto elim!: map_option_eqE)

lemma ParseTrailHeader_cong:
  assumes "settled g = settled h"
  shows "map_option (\<lambda>(r, inp, h, p). (r, inp, settled h, p)) (ParseTrailHeader inp g p) =
     map_option (\<lambda>(r, inp, h, p). (r, inp, settled h, p)) (ParseTrailHeader inp h p)"
proof (cases "ReadHeaderFields inp (p_trail_header p)")
  case (Some x)
  obtain d i t where x: "x = (d, i, t)" by (cases x)
  show ?thesis
    by (rule CopyHeaderFields_target [OF assms, of t False]) (use Some x assms in \<open>auto simp: ParseTrailHeader_def Let_def\<close>)
qed (simp add: ParseTrailHeader_def)

lemma ParseChunksInternal_cong:
  assumes "settled g = settled h"
  shows "payload_result (ParseChunksInternal z inp g out p) = payload_result (ParseChunksInternal z inp h out p)"
proof (induction "chunk_measure inp p" arbitrary: inp out p rule: less_induct)
  case less
  show ?case
  proof (cases "chunk_state p")
    case True
    obtain s i o1 p1 where s: "ChunkStep z inp h out p = (s, i, o1, p1)" by (metis prod_cases4)
    with less [of i p1 o1] ChunkStep_less [OF True, of z inp h out i o1 p1] assms show ?thesis
      by (cases s) (simp_all add: ParseChunksInternal_step(1) [OF True] ChunkStep_cong [OF assms])
  next
    case False
    show ?thesis
    proof (cases "p_parse_state p = STATE_LAST_CHUNK_READ")
      case True
      from ParseTrailHeader_cong [OF assms, of inp p] show ?thesis
        by (cases rule: map_option_eqE) (auto simp: ParseChunksInternal_step(2) [OF True])
    qed (simp add: ParseChunksInternal_step(3) [OF False])
  qed
qed

lemma ParseBodyInternal_cong:
  assumes "settled g = settled h"
  shows "ParseBodyInternal z inp g out p = ParseBodyInternal z inp h out p"
  unfolding ParseBodyInternal_def reads_cong [OF assms] encoding_cong(2) [OF assms] by simp

lemma BeginPayload_cong:
  assumes "settled g = settled h"
  shows "BeginPayload g p = BeginPayload h p"
  unfolding BeginPayload_def encoding_cong [OF assms] by simp

lemma ParsePayloadInternal_cong:
  assumes "settled g = settled h"
  shows "payload_result (ParsePayloadInternal z inp g out p) = payload_result (ParsePayloadInternal z inp h out p)"
  unfolding ParsePayloadInternal_def BeginPayload_cong [OF assms] ParseBodyInternal_cong [OF assms]
  using ParseChunksInternal_cong [OF assms] assms
  by (auto simp: payload_result_def option.map_comp comp_def case_prod_beta split: prod.split option.split)

section \<open>Requests in pieces\<close>

text \<open>
  What the owner of a connection does with the bytes that have arrived: it calls
  \<open>ParseClientRequest\<close>, and again when the answer has the bit \<open>CONTINUE\<close>. An error of the parser
  is a failure here, and so is compressed content.
\<close>

definition client_call :: "('g, 'i) decoder \<Rightarrow> (('e, 'd) Request \<times> ('g, 'i) RequestParser) call" where
  "client_call z s inp =
     Option.bind (ParseClientRequest z inp (fst s) (snd s)) (\<lambda>(r, inp1, req1, p1).
       if InErrorState p1 then None
       else if r AND CONTINUE \<noteq> 0 then
         if \<not> plain (r_client_header req1) then None
         else Option.bind (ParseClientRequest z inp1 req1 p1) (\<lambda>(r2, inp2, req2, p2).
                if InErrorState p2 then None else Some (InFinalState p2, inp2, (req2, p2)))
       else Some (InFinalState p1, inp1, (req1, p1)))"

text \<open>The reading of the header and the reading of the payload.\<close>

definition reads_header :: "('g, 'i) RequestParser \<Rightarrow> bool" where
  "reads_header p \<longleftrightarrow> p_parse_state p \<in> {STATE_INITIALIZED, STATE_HEADER_READING}"

definition start_header :: "('e, 'd) Request \<Rightarrow> ('g, 'i) RequestParser \<Rightarrow> ('e, 'd) Request" where
  "start_header req p =
     (if p_parse_state p = STATE_INITIALIZED
      then req\<lparr>r_client_data := [], r_client_header := Header_Clear (r_client_header req)\<rparr> else req)"

definition acceptable_header :: "Header \<Rightarrow> ('g, 'i) RequestParser \<Rightarrow> bool" where
  "acceptable_header h p \<longleftrightarrow> h_bytes_parsed h \<le> p_max_header_size p \<and>
     (h_version h = VERSION_UNKNOWN \<longrightarrow> p_accept_wrong_version p) \<and> (h_method h = METHOD_UNKNOWN \<longrightarrow> p_accept_wrong_method p) \<and>
     error_num (h_parse_error h) \<le> error_num (p_worst_accepted_header_error p)"

definition payload_call ::
    "('g, 'i) decoder \<Rightarrow> ('e, 'd) Request \<Rightarrow> bytes \<Rightarrow> Header \<Rightarrow> bytes \<Rightarrow> ('g, 'i) RequestParser \<Rightarrow>
      (bool \<times> bytes \<times> (('e, 'd) Request \<times> ('g, 'i) RequestParser)) option" where
  "payload_call z req inp h out p =
     Option.bind (ParsePayloadInternal z inp h out p) (\<lambda>(r, inp', h', out', p').
       if InErrorState p' then None
       else Some (InFinalState p', inp', (req\<lparr>r_client_header := h', r_client_data := out'\<rparr>, p')))"

text \<open>The payload never answers \<open>CONTINUE\<close>.\<close>

lemma body_no_continue:
  assumes "ParseBodyInternal z inp h out p = Some (r, inp', out', p')"
  shows "r AND CONTINUE = 0"
  using assms by (auto simp: ParseBodyInternal_def deflate_body_end_def Let_def read_state_defs
      split: if_splits prod.splits gzip_outcome.splits)

lemma ChunkStep_no_continue:
  assumes "ChunkStep z inp h out p = (Some r, inp', out', p')"
  shows "r AND CONTINUE = 0"
  using assms
  by (auto simp: ChunkStep_def ReadChunkHead_def ReadChunkEnd_def ReadChunkData_def deflate_chunk_end_def chunk_error_def Let_def
      read_state_defs split: if_splits prod.splits option.splits gzip_outcome.splits)

lemma ParseTrailHeader_no_continue:
  "ParseTrailHeader inp h p = Some (r, inp', h', p') \<Longrightarrow> r AND CONTINUE = 0"
  by (auto simp: ParseTrailHeader_def Let_def read_state_defs bind_eq_Some_conv split: if_splits)

lemma chunks_no_continue:
  "ParseChunksInternal z inp h out p = Some (r, inp', h', out', p') \<Longrightarrow> r AND CONTINUE = 0"
  by (induction rule: ParseChunksInternal_run) (auto dest: ChunkStep_no_continue ParseTrailHeader_no_continue)

lemma BeginPayload_answer: "BeginPayload h p = (Some r, p1) \<Longrightarrow> r = HEADER_READ OR REQUEST_FINISHED"
  by (auto simp: BeginPayload_def Let_def split: if_splits option.splits)

lemma payload_no_continue:
  assumes "ParsePayloadInternal z inp h out p = Some (r, inp', h', out', p')"
  shows "r AND CONTINUE = 0"
proof -
  have c: "(HEADER_READ OR REQUEST_FINISHED) AND CONTINUE = 0" by (simp add: read_state_defs)
  from assms show ?thesis
    by (auto simp: ParsePayloadInternal_def c split: if_splits prod.splits option.splits
        dest!: BeginPayload_answer body_no_continue chunks_no_continue)
qed

lemma client_call_payload:
  assumes "\<not> InFinalState p" and "\<not> reads_header p"
  shows "client_call z (req, p) inp = payload_call z req inp (r_client_header req) (r_client_data req) p"
  using assms
  by (auto simp: client_call_def ParseClientRequest_def payload_call_def reads_header_def dest!: payload_no_continue split: option.splits bind_splits)

lemma ParseClientRequest_header:
  assumes "reads_header p"
  shows "ParseClientRequest z inp req p =
    Option.bind (ParseHeader REQUEST_LINE inp (r_client_header (start_header req p))) (\<lambda>(ok, inp', h).
      let req2 = (start_header req p)\<lparr>r_client_header := h\<rparr> in
      if \<not> ok then
        if length inp' + h_bytes_parsed h > p_max_header_size p
        then Some (REQUEST_FINISHED, inp', req2, set_parse_state ERROR_HEADER_TOO_LONG p)
        else Some (0, inp', req2\<lparr>r_server_header := (r_server_header req)\<lparr>h_first_line := REQUEST_LINE\<rparr>\<rparr>,
               set_parse_state STATE_HEADER_READING p)
      else if acceptable_header h p then Some (HEADER_READ OR CONTINUE, inp', req2, set_parse_state STATE_END_OF_HEADER p)
      else if h_bytes_parsed h > p_max_header_size p
      then Some (REQUEST_FINISHED, inp', req2, set_parse_state ERROR_HEADER_TOO_LONG p)
      else Some (HEADER_READ OR REQUEST_FINISHED, inp', req2,
             set_parse_state (if h_version h = VERSION_UNKNOWN \<and> \<not> p_accept_wrong_version p \<or>
                h_method h = METHOD_UNKNOWN \<and> \<not> p_accept_wrong_method p then ERROR_HEADER_LINE else ERROR_HEADER_BAD) p))"
proof -
  let ?p = "set_parse_state STATE_HEADER_READING p"
  have nf: "\<not> InFinalState p" using assms by (auto simp: reads_header_def InFinalState_def)
  have q: "set_parse_state s ?p = set_parse_state s p" for s by (simp add: set_parse_state_def)
  have e: "(if p_parse_state p = STATE_INITIALIZED then ?p else p) = ?p" using assms by (auto simp: reads_header_def set_parse_state_def)
  have s: "r_server_header (start_header req p) = r_server_header req" by (simp add: start_header_def)
  show ?thesis
  proof (cases "ParseHeader REQUEST_LINE inp (r_client_header (start_header req p))")
    case None
    then show ?thesis using nf by (simp add: ParseClientRequest_def e start_header_def [symmetric])
  next
    case (Some x)
    obtain ok i h where x: "x = (ok, i, h)" by (cases x)
    show ?thesis using Some x nf s
      by (simp add: ParseClientRequest_def e start_header_def [symmetric] q acceptable_header_def set_parse_state_accept Let_def)
  qed
qed

lemma client_call_header:
  assumes "reads_header p"
  shows "client_call z (req, p) inp =
    Option.bind (ParseHeader REQUEST_LINE inp (r_client_header (start_header req p))) (\<lambda>(ok, inp', h).
      if \<not> ok then
        if length inp' + h_bytes_parsed h > p_max_header_size p then None
        else Some (False, inp', ((start_header req p)\<lparr>r_client_header := h,
               r_server_header := (r_server_header req)\<lparr>h_first_line := REQUEST_LINE\<rparr>\<rparr>, set_parse_state STATE_HEADER_READING p))
      else if \<not> acceptable_header h p \<or> \<not> plain h then None
      else payload_call z ((start_header req p)\<lparr>r_client_header := h\<rparr>) inp' h (r_client_data (start_header req p))
             (set_parse_state STATE_END_OF_HEADER p))"
proof -
  let ?p = "set_parse_state STATE_HEADER_READING p" and ?q = "set_parse_state STATE_END_OF_HEADER p"
  have c: "(HEADER_READ OR CONTINUE) AND CONTINUE \<noteq> 0" by (simp add: read_state_defs)
  have f: "\<not> InFinalState ?q" "\<not> InErrorState ?q" "\<not> reads_header ?q" "\<not> InErrorState ?p" "\<not> InFinalState ?p" "InErrorState (set_parse_state ERROR_HEADER_TOO_LONG p)"
    "InErrorState (set_parse_state ERROR_HEADER_LINE p)" "InErrorState (set_parse_state ERROR_HEADER_BAD p)"
    by (simp_all add: InFinalState_def InErrorState_def reads_header_def)
  have pc: "Option.bind (ParseClientRequest z i r ?q) (\<lambda>(r2, inp2, req2, p2). if InErrorState p2 then None else Some (InFinalState p2, inp2, (req2, p2)))
      = payload_call z r i (r_client_header r) (r_client_data r) ?q" for i r
    using f by (auto simp: ParseClientRequest_def payload_call_def split: option.splits bind_splits)
  show ?thesis
  proof (cases "ParseHeader REQUEST_LINE inp (r_client_header (start_header req p))")
    case None
    then show ?thesis by (simp add: client_call_def ParseClientRequest_header [OF assms])
  next
    case (Some x)
    obtain ok i h where x: "x = (ok, i, h)" by (cases x)
    show ?thesis unfolding client_call_def fst_conv snd_conv ParseClientRequest_header [OF assms] Some x
      using f c pc [of i "(start_header req p)\<lparr>r_client_header := h\<rparr>"]
      by (cases ok; cases "acceptable_header h p"; cases "plain h") (simp_all add: Let_def)
  qed
qed

definition client_ok :: "('e, 'd) Request \<times> ('g, 'i) RequestParser \<Rightarrow> bool" where
  "client_ok s \<longleftrightarrow> (case s of (req, p) \<Rightarrow>
     error_num HREAD_NO_DATA \<le> error_num (p_worst_accepted_header_error p) \<and>
     (if reads_header p then parsing (r_client_header (start_header req p))
      else payload_ok (r_client_header req, r_client_data req, p)))"

text \<open>What is seen of a request and its parser: the client's header up to its errors, the body, the parser.\<close>

definition client_obs :: "('e, 'd) Request \<times> ('g, 'i) RequestParser \<Rightarrow> Header \<times> bytes \<times> ('g, 'i) RequestParser" where
  "client_obs s = (case s of (req, p) \<Rightarrow>
     (settled (r_client_header req), r_client_data req, p\<lparr>p_trail_header := settled (p_trail_header p)\<rparr>))"

lemma final_trail [simp]:
  "InErrorState (p\<lparr>p_trail_header := t\<rparr>) = InErrorState p" "InFinalState (p\<lparr>p_trail_header := t\<rparr>) = InFinalState p"
  by (simp_all add: InErrorState_def InFinalState_def)

lemma observe_payload_call:
  "observe client_obs (payload_call z req inp h out p) =
     Option.bind (payload_result (ParsePayloadInternal z inp h out p)) (\<lambda>(r, inp', h', out', p').
       if InErrorState p' then None else Some (InFinalState p', inp', (h', out', p')))"
  by (cases "ParsePayloadInternal z inp h out p") (auto simp: payload_call_def client_obs_def)

lemma payload_call_SomeD:
  "payload_call z req inp h out p = Some (d, inp', s') \<Longrightarrow>
     \<exists>r h' out' p'. ParsePayloadInternal z inp h out p = Some (r, inp', h', out', p') \<and> \<not> InErrorState p' \<and> d = InFinalState p' \<and>
       s' = (req\<lparr>r_client_header := h', r_client_data := out'\<rparr>, p')"
  by (auto simp: payload_call_def bind_eq_Some_conv split: if_splits)

lemma payload_ok_client:
  assumes "payload_ok (r_client_header req, r_client_data req, p)"
  shows "client_ok (req, p)" and "client_call z (req, p) inp = payload_call z req inp (r_client_header req) (r_client_data req) p"
proof -
  have "\<not> reads_header p" "\<not> InFinalState p"
    using assms by (auto simp: payload_ok_def chunk_state_def reads_header_def InFinalState_def)
  then show "client_ok (req, p)" "client_call z (req, p) inp = payload_call z req inp (r_client_header req) (r_client_data req) p"
    using assms client_call_payload [of p z req inp] by (simp_all add: client_ok_def payload_ok_def)
qed

lemma payload_call_waits:
  assumes "payload_ok (h, out, p)" and "payload_call z req a h out p = Some (False, a', s')"
  shows "client_ok s' \<and> observe client_obs (client_call z s' (a' @ b)) = observe client_obs (payload_call z req (a @ b) h out p)"
proof -
  obtain r h' out' p' where r: "ParsePayloadInternal z a h out p = Some (r, a', h', out', p')" "\<not> InFinalState p'"
    and s': "s' = (req\<lparr>r_client_header := h', r_client_data := out'\<rparr>, p')"
    using payload_call_SomeD [OF assms(2)] by auto
  note w = payload_wait [OF r(1) assms(1) r(2), of b]
  then have k: "payload_ok (r_client_header (fst s'), r_client_data (fst s'), p')" by (simp add: s')
  from w have "payload_result (ParsePayloadInternal z (a' @ b) h' out' p') = payload_result (ParsePayloadInternal z (a @ b) h out p)"
    by (intro payload_result_chunks) simp
  with payload_ok_client(1) [OF k] payload_ok_client(2) [OF k, of z "a' @ b"] show ?thesis by (simp add: s' observe_payload_call)
qed

lemma payload_call_finishes:
  assumes "payload_ok (h, out, p)" and "payload_call z req a h out p = Some (True, a', s')"
  shows "payload_call z req (a @ b) h out p = Some (True, a' @ b, s')"
  using payload_call_SomeD [OF assms(2)] payload_finish [OF _ assms(1), of z a _ a' _ _ _ b] by (auto simp: payload_call_def)

lemma acceptable_header_cong:
  assumes "settled g = settled h" and "error_num HREAD_NO_DATA \<le> error_num (p_worst_accepted_header_error p)"
  shows "acceptable_header g p = acceptable_header h p"
  using settled_eqD [OF assms(1)] settled_error [OF assms] by (simp add: acceptable_header_def flip: not_less)

lemma payload_ok_start:
  "\<lbrakk>client_ok (req, p); plain h\<rbrakk> \<Longrightarrow> payload_ok (h, out, set_parse_state STATE_END_OF_HEADER p)"
  by (simp add: client_ok_def payload_ok_def)

text \<open>The header: a call that lacks data, and the next one.\<close>

lemma client_header_waits:
  assumes ok: "client_ok (req, p)" and rh: "reads_header p"
    and ph: "ParseHeader REQUEST_LINE a (r_client_header (start_header req p)) = Some (False, a', h)"
    and s': "s' = ((start_header req p)\<lparr>r_client_header := h,
       r_server_header := (r_server_header req)\<lparr>h_first_line := REQUEST_LINE\<rparr>\<rparr>, set_parse_state STATE_HEADER_READING p)"
  shows "client_ok s' \<and> observe client_obs (client_call z s' (a' @ b)) = observe client_obs (client_call z (req, p) (a @ b))"
proof -
  let ?h0 = "r_client_header (start_header req p)" and ?p = "set_parse_state STATE_HEADER_READING p"
  have w: "error_num HREAD_NO_DATA \<le> error_num (p_worst_accepted_header_error p)" and pr: "parsing ?h0"
    using ok rh by (simp_all add: client_ok_def)
  note hw = ParseHeader_waits [OF pr ph, of b]
  have rp: "reads_header ?p" by (simp add: reads_header_def)
  have sh: "start_header req' ?p = req'" for req' :: "('a, 'b) Request" by (simp add: start_header_def)
  have q: "set_parse_state s ?p = set_parse_state s p" for s by (simp add: set_parse_state_def)
  have "client_ok s'" using hw w rp by (simp add: s' client_ok_def sh)
  moreover obtain d i h2 where e2: "ParseHeader REQUEST_LINE (a @ b) ?h0 = Some (d, i, h2)"
    using ParseHeader_total [OF pr, of REQUEST_LINE "a @ b"] by blast
  then have "outcome (ParseHeader REQUEST_LINE (a' @ b) h) = Some (d, i, settled h2)" using hw by simp
  from observe_SomeD [OF this] obtain h1 where e1: "ParseHeader REQUEST_LINE (a' @ b) h = Some (d, i, h1)" "settled h1 = settled h2"
    by auto
  note e = e1(1) e2 e1(2)
  have m: "p_max_header_size ?p = p_max_header_size p" "acceptable_header h1 ?p = acceptable_header h1 p"
    by (simp_all add: acceptable_header_def set_parse_state_accept)
  have "observe client_obs (client_call z s' (a' @ b)) = observe client_obs (client_call z (req, p) (a @ b))"
    unfolding s' client_call_header [OF rp] client_call_header [OF rh]
    using e acceptable_header_cong [OF e(3) w] encoding_cong(7) [OF e(3)] settled_eqD(1) [OF e(3)]
    by (cases d) (simp_all add: sh q m client_obs_def observe_payload_call ParsePayloadInternal_cong [OF e(3)])
  ultimately show ?thesis by simp
qed

interpretation client: incremental_parser "client_call z" client_ok client_obs for z
proof
  fix s s' :: "('c, 'd) Request \<times> ('a, 'b) RequestParser" and a a' b
  obtain req p where s: "s = (req, p)" by (cases s)
  let ?h0 = "r_client_header (start_header req p)" and ?q = "set_parse_state STATE_END_OF_HEADER p"
  assume ok: "client_ok s"
  show "client_ok s' \<and> observe client_obs (client_call z s' (a' @ b)) = observe client_obs (client_call z s (a @ b))"
    if c: "client_call z s a = Some (False, a', s')"
  proof (cases "reads_header p")
    case False
    with ok s have "payload_ok (r_client_header req, r_client_data req, p)" by (simp add: client_ok_def)
    with payload_call_waits [OF this, of z req a a' s' b] c s show ?thesis by (simp add: payload_ok_client)
  next
    case True
    then have pr: "parsing ?h0" using ok s by (simp add: client_ok_def)
    obtain d i h where ph: "ParseHeader REQUEST_LINE a ?h0 = Some (d, i, h)" using ParseHeader_total [OF pr] by blast
    show ?thesis
    proof (cases d)
      case False
      with c ph True s client_header_waits [OF ok [unfolded s] True, of a a' h s' z b] show ?thesis
        by (auto simp: client_call_header split: if_splits)
    next
      case d: True
      with c ph True s have a: "acceptable_header h p" "plain h"
        "payload_call z ((start_header req p)\<lparr>r_client_header := h\<rparr>) i h (r_client_data (start_header req p)) ?q = Some (False, a', s')"
        by (auto simp: client_call_header split: if_splits)
      have "client_call z s (a @ b) = payload_call z ((start_header req p)\<lparr>r_client_header := h\<rparr>) (i @ b) h (r_client_data (start_header req p)) ?q"
        using ParseHeader_append [OF pr, of REQUEST_LINE a i h b] ph d a(1,2) True s by (simp add: client_call_header)
      with payload_call_waits [OF payload_ok_start [OF ok [unfolded s] a(2)] a(3), of b] show ?thesis by simp
    qed
  qed
  show "client_call z s (a @ b) = Some (True, a' @ b, s')" if c: "client_call z s a = Some (True, a', s')"
  proof (cases "reads_header p")
    case False
    with ok s have "payload_ok (r_client_header req, r_client_data req, p)" by (simp add: client_ok_def)
    with payload_call_finishes [OF this, of z req a a' s' b] c s show ?thesis by (simp add: payload_ok_client)
  next
    case True
    then have pr: "parsing ?h0" using ok s by (simp add: client_ok_def)
    obtain d i h where ph: "ParseHeader REQUEST_LINE a ?h0 = Some (d, i, h)" using ParseHeader_total [OF pr] by blast
    with c True s have a: d "acceptable_header h p" "plain h"
      "payload_call z ((start_header req p)\<lparr>r_client_header := h\<rparr>) i h (r_client_data (start_header req p)) ?q = Some (True, a', s')"
      by (auto simp: client_call_header split: if_splits)
    with payload_call_finishes [OF payload_ok_start [OF ok [unfolded s] a(3)] a(4), of b]
      ParseHeader_append [OF pr, of REQUEST_LINE a i h b] ph True s show ?thesis by (simp add: client_call_header)
  qed
qed

lemma client_ok_new:
  "p_parse_state p = STATE_INITIALIZED \<Longrightarrow> error_num HREAD_NO_DATA \<le> error_num (p_worst_accepted_header_error p) \<Longrightarrow>
     client_ok (req, p)"
  by (simp add: client_ok_def reads_header_def start_header_def Header_Clear_def)


end
