(* ===== verification/HttpRoundtrip.thy ===== *)
theory HttpRoundtrip
  imports HttpProps
begin

unbundle bit_operations_syntax

text \<open>
  What a client writes is what a server reads: requests with a body of known length and requests
  in chunks, through \<open>AppendClientRequest\<close> and \<open>AppendClientChunk\<close> on one side and
  \<open>ParseClientRequest\<close> on the other.
\<close>

section \<open>The form of chunks\<close>

definition chunk :: "bytes \<Rightarrow> bytes" where
  "chunk d = chunk_head (length d) @ d @ crlf"

definition chunks :: "bytes list \<Rightarrow> bytes" where
  "chunks ds = concat (map chunk ds)"

lemma chunks_simps [simp]: "chunks [] = []" "chunks (d # ds) = chunk d @ chunks ds" "chunks (ds @ es) = chunks ds @ chunks es"
  by (simp_all add: chunks_def)

text \<open>The pieces that \<open>append_chunks\<close> makes: none is empty or longer than the limit.\<close>

lemma append_chunks_pieces:
  assumes "0 < m"
  shows "\<exists>ds. append_chunks inp out True m = Some (out @ chunks ds) \<and> concat ds = inp \<and>
    (\<forall>d \<in> set ds. d \<noteq> [] \<and> length d \<le> m) \<and> length ds = (length inp + m - 1) div m"
proof (induction "length inp" arbitrary: inp out rule: less_induct)
  case less
  show ?case
  proof (cases "inp = []")
    case True
    then show ?thesis using assms by (intro exI [of _ "[]"]) (simp add: append_chunks.simps)
  next
    case False
    let ?d = "take m inp"
    have "length (drop m inp) < length inp" using False assms by simp
    from less [OF this, of "out @ chunk ?d"] obtain ds where ds:
      "append_chunks (drop m inp) (out @ chunk ?d) True m = Some (out @ chunk ?d @ chunks ds)" "concat ds = drop m inp"
      "\<forall>d \<in> set ds. d \<noteq> [] \<and> length d \<le> m" "length ds = (length (drop m inp) + m - 1) div m" by auto
    have "append_chunks inp out True m = append_chunks (drop m inp) (out @ chunk ?d) True m"
      using False assms by (simp add: append_chunks.simps [of inp] BufferAppendChunk_def chunk_def Let_def
          min.commute drop_min_length take_min_length)
    moreover have "Suc (length ds) = (length inp + m - 1) div m"
    proof (cases "m \<le> length inp")
      case True
      then have "length inp + m - 1 = (length (drop m inp) + m - 1) + m" using assms by simp
      then show ?thesis using ds(4) assms by (simp only: div_add_self2)
    next
      case l: False
      then have "(length inp + m - 1) div m = 1" using False assms by (cases inp) (auto intro!: div_nat_eqI)
      then show ?thesis using ds(4) l assms by simp
    qed
    ultimately show ?thesis using ds False assms by - (rule exI [of _ "?d # ds"], simp)
  qed
qed

lemma print_nat_length: "n < 16 ^ k \<Longrightarrow> 0 < k \<Longrightarrow> length (print_nat 16 n) \<le> k"
proof (induction k arbitrary: n)
  case (Suc k)
  show ?case
  proof (cases "n < 16")
    case False
    then have "0 < k" using Suc.prems(1) by (cases k) simp_all
    moreover have "n div 16 < 16 ^ k" using Suc.prems(1) by (simp add: less_mult_imp_div_less mult.commute)
    ultimately show ?thesis using Suc.IH [of "n div 16"] False by (simp add: print_nat.simps [of 16 n])
  qed (simp add: print_nat.simps [of 16 n])
qed simp

lemma chunk_head_line:
  assumes "n < 2 ^ 31"
  obtains l where "chunk_head n = l @ crlf" and "10 \<notin> set l" and "length l \<le> 9" and "strtol 16 (c_str l) = Some (int n)"
proof -
  have u: "unat (word_of_nat n :: 32 word) = n" using assms by (simp add: unat_of_nat)
  let ?l = "48 # print_nat 16 n"
  have z: "c_str ?l = ?l" unfolding c_str_def using print_nat_chars(1) [of 16 n] by (intro takeWhile_all) auto
  have "length (print_nat 16 n) \<le> 8" using assms by (intro print_nat_length) simp_all
  moreover have "n < 2 ^ 63" using assms by simp
  ultimately show thesis using that [of ?l] print_nat_chars(3) [of 16 n] strtol_print(2) [of n] z u
    by (simp add: chunk_head_def)
qed

section \<open>Beginnings of a message\<close>

lemma line_len_none: "10 \<notin> set a \<Longrightarrow> line_len 10 13 c a = None"
  by (induction a arbitrary: c) auto

lemma prefix_line:
  assumes "a @ b = l @ crlf @ t" and "10 \<notin> set l"
  shows "length a < length l + 2 \<Longrightarrow> spec_line 13 a = (None, a)"
    and "length l + 2 \<le> length a \<Longrightarrow> \<exists>a2. a = l @ crlf @ a2 \<and> a2 @ b = t \<and> spec_line 13 a = (Some (l @ crlf), a2)"
proof -
  have p: "take (length a) (l @ crlf @ t) = a" using assms(1) by (metis append_eq_conv_conj)
  show "spec_line 13 a = (None, a)" if "length a < length l + 2"
  proof -
    have "length a \<le> length (l @ [13])" using that by simp
    moreover have "take (length a) ((l @ [13]) @ 10 # t) = a" using p by (simp add: crlf_def)
    ultimately have "take (length a) (l @ [13]) = a" by (metis append_Nil2 diff_is_0_eq take_append take_0)
    then have "set a \<subseteq> set (l @ [13])" by (metis set_take_subset)
    then have "10 \<notin> set a" using assms(2) by auto
    then show ?thesis by (simp add: spec_line_def line_len_none)
  qed
  show "\<exists>a2. a = l @ crlf @ a2 \<and> a2 @ b = t \<and> spec_line 13 a = (Some (l @ crlf), a2)" if "length l + 2 \<le> length a"
  proof -
    have "take (length a) ((l @ crlf) @ t) = (l @ crlf) @ take (length a - (length l + 2)) t"
      using that by (simp add: crlf_def take_Cons')
    with p obtain a2 where a: "a = l @ crlf @ a2" by simp
    with assms(1) have "a2 @ b = t" by simp
    with a spec_line_crlf [OF assms(2), of a2] show ?thesis by blast
  qed
qed

section \<open>Chunks read back\<close>

text \<open>A parser before a chunk, with limits that the chunks keep.\<close>

definition before_chunk :: "('g, 'i) RequestParser \<Rightarrow> bool" where
  "before_chunk p \<longleftrightarrow> p_parse_state p = STATE_CHUNK_HEAD_READING \<and> p_partial_data p = [] \<and>
     p_next_chunk_expectation p = EXPECT_CHUNK_NONE \<and> p_trail_header p = Header_new True \<and> 11 \<le> p_max_header_size p \<and>
     error_num HREAD_NO_DATA \<le> error_num (p_worst_accepted_header_error p)"

definition chunks_fit :: "bytes list \<Rightarrow> ('g, 'i) RequestParser \<Rightarrow> bool" where
  "chunks_fit ds p \<longleftrightarrow>
     (\<forall>d \<in> set ds. d \<noteq> [] \<and> length d < 2 ^ 31 \<and> int (length d) \<le> p_max_chunk_size p) \<and>
     (p_max_num_chunks p < 0 \<or> p_num_chunks_read p + int (length ds) \<le> p_max_num_chunks p)"

text \<open>The state of the parser within a chunk, and behind it.\<close>

definition in_chunk :: "nat \<Rightarrow> ('g, 'i) RequestParser \<Rightarrow> ('g, 'i) RequestParser" where
  "in_chunk n p = p\<lparr>p_next_chunk_expectation := EXPECT_CHUNK_NONE,
     p_num_chunks_read := p_num_chunks_read p + 1, p_chunk_size_to_read := n, p_parse_state := STATE_CHUNK_READING\<rparr>"

definition after_chunk :: "('g, 'i) RequestParser \<Rightarrow> ('g, 'i) RequestParser" where
  "after_chunk p = (in_chunk 0 p)\<lparr>p_parse_state := STATE_CHUNK_HEAD_READING\<rparr>"

lemma chunk_sizes:
  assumes "chunks_fit (d # ds) p"
  shows "d \<noteq> []" "length d < 2 ^ 31" "int (length d) \<le> p_max_chunk_size p" "chunks_fit ds (after_chunk p)"
    "p_max_num_chunks p < 0 \<or> p_num_chunks_read p + 1 \<le> p_max_num_chunks p"
  using assms by (auto simp: chunks_fit_def after_chunk_def in_chunk_def)

lemma before_after_chunk: "before_chunk p \<Longrightarrow> before_chunk (after_chunk p)"
  by (simp add: before_chunk_def after_chunk_def in_chunk_def)

lemma chunk_state_simps [simp]: "before_chunk p \<Longrightarrow> chunk_state p" "chunk_state (in_chunk n p)"
  by (simp_all add: before_chunk_def in_chunk_def chunk_state_def)

lemma not_final_chunk: "chunk_state p \<Longrightarrow> \<not> InErrorState p" "chunk_state p \<Longrightarrow> \<not> InFinalState p"
  using chunk_state_not_final by blast+

text \<open>The head of a chunk: part of it, or all of it.\<close>

lemma read_head_wait:
  assumes "before_chunk p" and "spec_line 13 a = (None, a)" and "length a \<le> 11"
  shows "ParseChunksInternal z a h out p = Some (HEADER_READ OR CHUNKED_BODY_READING, a, h, out, p)"
  using assms by (simp add: ParseChunksInternal_step(1) ChunkStep_def ReadChunkHead_def before_chunk_def chunk_state_def)

lemma read_head:
  assumes "before_chunk p" and "spec_line 13 a = (Some (l @ crlf), a2)" and "strtol 16 (c_str l) = Some (int n)" and "0 < n"
    and "int n \<le> p_max_chunk_size p" and "p_max_num_chunks p < 0 \<or> p_num_chunks_read p + 1 \<le> p_max_num_chunks p"
  shows "ParseChunksInternal z a h out p = ParseChunksInternal z a2 h out (in_chunk n p)"
  using assms by (auto simp: ParseChunksInternal_step(1) [of p] ChunkStep_def ReadChunkHead_def before_chunk_def Let_def in_chunk_def
      set_parse_state_def)

text \<open>The data of a chunk.\<close>

lemma read_data_part:
  assumes "plain h" and "length a < n" and "p_partial_data p = []"
  shows "\<exists>p'. ParseChunksInternal z a h out (in_chunk n p) = Some (HEADER_READ OR CHUNKED_BODY_READING, [], h, out @ a, p') \<and> chunk_state p'"
proof (cases "a = []")
  case True
  then show ?thesis using assms(1)
    by (intro exI [of _ "in_chunk n p"]) (simp add: ParseChunksInternal_step(1) ChunkStep_def in_chunk_def ReadChunkData_plain chunk_state_def)
next
  case False
  let ?p = "(in_chunk n p)\<lparr>p_partial_data := [], p_chunk_size_to_read := n - length a\<rparr>"
  have "ChunkStep z a h out (in_chunk n p) = (None, [], out @ a, ?p)"
    using assms False by (simp add: ChunkStep_def ReadChunkData_plain in_chunk_def)
  moreover have "ChunkStep z [] h (out @ a) ?p = (Some (HEADER_READ OR CHUNKED_BODY_READING), [], out @ a, ?p)"
    using assms(1) by (simp add: ChunkStep_def ReadChunkData_plain in_chunk_def)
  moreover have "chunk_state ?p" by (simp add: in_chunk_def chunk_state_def)
  ultimately show ?thesis by (intro exI [of _ ?p]) (simp add: ParseChunksInternal_step(1))
qed

lemma read_data:
  assumes "plain h" and "d \<noteq> []" and "p_partial_data p = []"
  shows "ParseChunksInternal z (d @ a) h out (in_chunk (length d) p) =
     ParseChunksInternal z a h (out @ d) ((in_chunk 0 p)\<lparr>p_parse_state := STATE_END_OF_CHUNK\<rparr>)"
proof -
  have "p\<lparr>p_partial_data := []\<rparr> = p" using assms(3) by (cases p) simp
  then have "(in_chunk n p)\<lparr>p_partial_data := [], p_chunk_size_to_read := 0, p_parse_state := STATE_END_OF_CHUNK\<rparr> =
      (in_chunk 0 p)\<lparr>p_parse_state := STATE_END_OF_CHUNK\<rparr>" for n
    by (cases p) (simp add: in_chunk_def)
  then have "ChunkStep z (d @ a) h out (in_chunk (length d) p) = (None, a, out @ d, (in_chunk 0 p)\<lparr>p_parse_state := STATE_END_OF_CHUNK\<rparr>)"
    using assms by (simp add: ChunkStep_def ReadChunkData_plain in_chunk_def)
  then show ?thesis by (simp add: ParseChunksInternal_step(1))
qed

text \<open>The end of a chunk.\<close>

lemma read_end_wait:
  assumes "p_parse_state q = STATE_END_OF_CHUNK" and "spec_line 13 a = (None, a)" and "length a < 2"
  shows "ParseChunksInternal z a h out q = Some (HEADER_READ OR CHUNKED_BODY_READING, a, h, out, q)"
  using assms by (simp add: ParseChunksInternal_step(1) ChunkStep_def ReadChunkEnd_def chunk_state_def)

lemma read_end:
  assumes "p_parse_state q = STATE_END_OF_CHUNK" and "spec_line 13 a = (Some crlf, a2)"
  shows "ParseChunksInternal z a h out q = ParseChunksInternal z a2 h out (set_parse_state STATE_CHUNK_HEAD_READING q)"
  using assms cut_crlf_line [of "[]"] by (simp add: ParseChunksInternal_step(1) [of q] ChunkStep_def ReadChunkEnd_def chunk_state_def)

text \<open>The last chunk and the empty trailer.\<close>

definition end_state :: "Header \<Rightarrow> ('g, 'i) RequestParser \<Rightarrow> ('g, 'i) RequestParser" where
  "end_state t p = set_parse_state STATE_END_OF_TRAIL_HEADER (set_parse_state STATE_LAST_CHUNK_READ p\<lparr>p_trail_header := t\<rparr>)"

lemma read_last_head:
  assumes "before_chunk p" and "spec_line 13 a = (Some (ascii ''0'' @ crlf), a2)"
  shows "ParseChunksInternal z a h out p = ParseChunksInternal z a2 h out (set_parse_state STATE_LAST_CHUNK_READ p)"
proof -
  have "strtol 16 (c_str (ascii ''0'')) = Some 0"
    by (simp add: strtol_def c_str_def ascii_def Let_def isspace_def is_digit_def digit_value_def digits_value_def)
  then have "ChunkStep z a h out p = (None, a2, out, set_parse_state STATE_LAST_CHUNK_READ (p\<lparr>p_next_chunk_expectation := EXPECT_CHUNK_NONE\<rparr>))"
    using assms by (simp add: ChunkStep_def ReadChunkHead_def before_chunk_def)
  also have "p\<lparr>p_next_chunk_expectation := EXPECT_CHUNK_NONE\<rparr> = p" using assms(1) by (cases p) (simp add: before_chunk_def)
  finally show ?thesis using assms(1) by (simp add: ParseChunksInternal_step(1) [of p])
qed

lemma read_trailer_wait:
  assumes "before_chunk p" and "spec_line 13 a = (None, a)" and "length a < 2"
  shows "\<exists>p'. ParseChunksInternal z a h out (set_parse_state STATE_LAST_CHUNK_READ p) =
     Some (HEADER_READ OR CHUNKED_TRAILER_READING, a, h, out, p') \<and> p_parse_state p' = STATE_LAST_CHUNK_READ"
  using assms by (simp add: ParseChunksInternal_step(2) ParseTrailHeader_def before_chunk_def ReadHeaderFields_step(1) Let_def Header_new_def)

lemma read_trailer:
  assumes "before_chunk p" and "spec_line 13 a = (Some crlf, a2)"
  shows "\<exists>t. ParseChunksInternal z a h out (set_parse_state STATE_LAST_CHUNK_READ p) =
     Some (HEADER_READ OR CHUNKS_FINISHED OR REQUEST_FINISHED, a2, h, out, end_state t p)"
proof -
  let ?t = "(Header_new True)\<lparr>h_bytes_parsed := length crlf, h_crt_name := [], h_crt_content := []\<rparr>"
  have c: "cut_crlf crlf = []" using cut_crlf_line [of "[]"] by simp
  have r: "ReadHeaderFields a (Header_new True) = Some (True, a2, set_parse_error HREAD_OK ?t)"
    using assms(2) c by (simp add: ReadHeaderFields_step(2) AddCrtParsingData_def Header_new_def)
  have e: "error_num (h_parse_error (set_parse_error HREAD_OK ?t)) = 1" "h_fields (set_parse_error HREAD_OK ?t) = []"
    by (simp_all add: set_parse_error_def Header_new_def)
  show ?thesis using assms(1) r e
    by (intro exI [of _ "set_parse_error HREAD_OK ?t"])
      (simp add: ParseChunksInternal_step(2) ParseTrailHeader_def before_chunk_def CopyHeaderFields_def end_state_def)
qed

section \<open>A chunked message, or a beginning of it\<close>

definition chunks_done ::
    "bytes list \<Rightarrow> bytes \<Rightarrow> Header \<Rightarrow> bytes \<Rightarrow> (int \<times> bytes \<times> Header \<times> bytes \<times> ('g, 'i) RequestParser) option \<Rightarrow> bool" where
  "chunks_done ds a h out x \<longleftrightarrow>
     (\<exists>r i h' out' p'. x = Some (r, i, h', out', p') \<and> \<not> InErrorState p' \<and>
        (if length (chunks ds @ last_chunk) \<le> length a
         then p_parse_state p' = STATE_END_OF_TRAIL_HEADER \<and> i = drop (length (chunks ds @ last_chunk)) a \<and> out' = out @ concat ds \<and> h' = h
         else \<not> InFinalState p'))"

lemma chunks_done_wait:
  "\<not> InErrorState p' \<Longrightarrow> \<not> InFinalState p' \<Longrightarrow> length a < length (chunks ds @ last_chunk) \<Longrightarrow>
     chunks_done ds a h out (Some (r, i, h', out', p'))"
  by (simp add: chunks_done_def)

lemma last_chunk_line: "last_chunk = ascii ''0'' @ crlf @ crlf" "10 \<notin> set (ascii ''0'')" "length (ascii ''0'') = 1"
  by (simp_all add: last_chunk_def ascii_def)

lemma last_chunk_prefix:
  assumes "before_chunk p" and "a @ b = last_chunk @ rest"
  shows "chunks_done [] a h out (ParseChunksInternal z a h out p)"
proof -
  have m: "a @ b = ascii ''0'' @ crlf @ (crlf @ rest)" using assms(2) by (simp add: last_chunk_def)
  note l = prefix_line [OF m last_chunk_line(2), unfolded last_chunk_line(3)]
  have len: "length last_chunk = 5" by (simp add: last_chunk_def ascii_def crlf_def)
  show ?thesis
  proof (cases "length a < 3")
    case True
    with l(1) read_head_wait [OF assms(1), of a] not_final_chunk [of p] assms(1) show ?thesis
      by (auto simp: len intro!: chunks_done_wait)
  next
    case False
    with l(2) obtain a2 where a2: "a = ascii ''0'' @ crlf @ a2" "a2 @ b = crlf @ rest" "spec_line 13 a = (Some (ascii ''0'' @ crlf), a2)" by auto
    note r = read_last_head [OF assms(1) a2(3)]
    have al: "length a = length a2 + 3" using a2(1) by (simp add: ascii_def crlf_def)
    have m2: "a2 @ b = [] @ crlf @ rest" using a2(2) by simp
    show ?thesis
    proof (cases "length a2 < 2")
      case True
      with prefix_line(1) [OF m2] have "spec_line 13 a2 = (None, a2)" by simp
      from read_trailer_wait [OF assms(1) this True, of z h out] obtain p' where
        "ParseChunksInternal z a h out p = Some (HEADER_READ OR CHUNKED_TRAILER_READING, a2, h, out, p')" "p_parse_state p' = STATE_LAST_CHUNK_READ"
        unfolding r by blast
      then show ?thesis using True al by (auto simp: len InFinalState_def InErrorState_def intro!: chunks_done_wait)
    next
      case False
      with prefix_line(2) [OF m2] obtain a3 where a3: "a2 = crlf @ a3" "spec_line 13 a2 = (Some crlf, a3)" by auto
      from read_trailer [OF assms(1) a3(2), of z h out] r obtain t where
        "ParseChunksInternal z a h out p = Some (HEADER_READ OR CHUNKS_FINISHED OR REQUEST_FINISHED, a3, h, out, end_state t p)" by auto
      then show ?thesis using a2(1) a3(1) by (simp add: chunks_done_def end_state_def last_chunk_def)
    qed
  qed
qed

lemma chunks_prefix:
  assumes "before_chunk p" and "chunks_fit ds p" and "plain h" and "a @ b = chunks ds @ last_chunk @ rest"
  shows "chunks_done ds a h out (ParseChunksInternal z a h out p)"
  using assms(1,2,4)
proof (induction ds arbitrary: a out p)
  case Nil
  then show ?case using last_chunk_prefix [of p a b rest] by simp
next
  case (Cons d ds)
  note f = chunk_sizes [OF Cons.prems(2)]
  let ?t = "chunks ds @ last_chunk @ rest" and ?n = "length d"
  have pd: "p_partial_data p = []" using Cons.prems(1) by (simp add: before_chunk_def)
  obtain l where l: "chunk_head ?n = l @ crlf" "10 \<notin> set l" "length l \<le> 9" "strtol 16 (c_str l) = Some (int ?n)"
    by (rule chunk_head_line [OF f(2)])
  have m: "a @ b = l @ crlf @ (d @ crlf @ ?t)" using Cons.prems(3) l(1) by (simp add: chunk_def)
  have len: "length (chunks (d # ds) @ last_chunk) = length l + 2 + ?n + 2 + length (chunks ds @ last_chunk)"
    using l(1) by (simp add: chunk_def crlf_def)
  have n: "0 < ?n" using f(1) by simp
  show ?case
  proof (cases "length a < length l + 2")
    case True
    with prefix_line(1) [OF m l(2)] read_head_wait [OF Cons.prems(1), of a] l(3) not_final_chunk [of p] Cons.prems(1) len show ?thesis
      by (auto intro!: chunks_done_wait)
  next
    case False
    with prefix_line(2) [OF m l(2)] obtain a2 where a2: "a = l @ crlf @ a2" "a2 @ b = d @ crlf @ ?t" "spec_line 13 a = (Some (l @ crlf), a2)"
      by auto
    note r = read_head [OF Cons.prems(1) a2(3) l(4) n f(3,5), of z h out]
    have al: "length a = length l + 2 + length a2" using a2(1) by (simp add: crlf_def)
    show ?thesis
    proof (cases "length a2 < ?n")
      case True
      from read_data_part [OF assms(3) True pd, of z out] obtain p' where
        "ParseChunksInternal z a h out p = Some (HEADER_READ OR CHUNKED_BODY_READING, [], h, out @ a2, p')" "chunk_state p'"
        unfolding r by blast
      with not_final_chunk [of p'] al len True show ?thesis by (simp add: chunks_done_def)
    next
      case False
      then have "take ?n (a2 @ b) = take ?n a2" by simp
      with a2(2) have "take ?n a2 = d" by simp
      then obtain a3 where a3: "a2 = d @ a3" using append_take_drop_id [of ?n a2] by metis
      with a2(2) have m3: "a3 @ b = [] @ crlf @ ?t" by simp
      let ?q = "(in_chunk 0 p)\<lparr>p_parse_state := STATE_END_OF_CHUNK\<rparr>"
      note r3 = r [unfolded a3 read_data [OF assms(3) f(1) pd]]
      have q: "p_parse_state ?q = STATE_END_OF_CHUNK" "chunk_state ?q" by (simp_all add: chunk_state_def)
      have al3: "length a = length l + 2 + ?n + length a3" using al a3 by simp
      show ?thesis
      proof (cases "length a3 < 2")
        case True
        with prefix_line(1) [OF m3] have "spec_line 13 a3 = (None, a3)" by simp
        note r4 = r3 [unfolded read_end_wait [OF q(1) this True]]
        show ?thesis unfolding r4 using True al3 len not_final_chunk [OF q(2)] by (intro chunks_done_wait) simp_all
      next
        case False
        with prefix_line(2) [OF m3] obtain a4 where a4: "a3 = crlf @ a4" "a4 @ b = ?t" "spec_line 13 a3 = (Some crlf, a4)" by auto
        have s: "set_parse_state STATE_CHUNK_HEAD_READING ?q = after_chunk p" by (simp add: set_parse_state_def after_chunk_def)
        note r4 = r3 [unfolded read_end [OF q(1) a4(3)] s]
        from Cons.IH [OF before_after_chunk [OF Cons.prems(1)] f(4) a4(2), of "out @ d"] al3 len a2(1) a3 a4(1) l(1)
        show ?thesis unfolding r4 chunks_done_def by (fastforce simp: chunk_def)
      qed
    qed
  qed
qed

end
