(* ===== verification/HttpEndToEnd.thy ===== *)
theory HttpEndToEnd
  imports HttpRoundtrip
begin

unbundle bit_operations_syntax

text \<open>
  A request from the client that writes it to the server that reads it: \<open>AppendClientRequest\<close>,
  \<open>AppendClientChunk\<close>, then \<open>ParseClientRequest\<close> on the pieces that arrive.
\<close>

section \<open>Fields of the header\<close>

definition request_ok :: "Header \<Rightarrow> bool" where
  "request_ok h \<longleftrightarrow> first_line_ok h \<and> h_first_line h = REQUEST_LINE \<and> fields_ok (h_fields h) \<and> h_verbatim h = []"

lemma request_ok_fields: "request_ok h \<Longrightarrow> fields_ok fs \<Longrightarrow> request_ok (h\<lparr>h_fields := fs\<rparr>)"
  by (auto simp: request_ok_def first_line_ok_def)

lemma fields_put_sorted:
  "sorted_wrt (<) (map fst fs) \<Longrightarrow>
     sorted_wrt (<) (map fst (fields_put k v fs)) \<and> set (map fst (fields_put k v fs)) = insert k (set (map fst fs)) \<and>
     map_of (fields_put k v fs) = (map_of fs)(k \<mapsto> v)"
proof (induction fs)
  case (Cons f fs)
  obtain k' v' where f: "f = (k', v')" by (cases f)
  have lt: "\<forall>x \<in> set (map fst fs). k' < x" and IH: "sorted_wrt (<) (map fst (fields_put k v fs))"
      "set (map fst (fields_put k v fs)) = insert k (set (map fst fs))" "map_of (fields_put k v fs) = (map_of fs)(k \<mapsto> v)"
    using Cons f by auto
  consider "k < k'" | "k = k'" | "k' < k" by (rule linorder_cases)
  then show ?case
  proof cases
    case 1
    then show ?thesis using Cons.prems lt f by (auto intro: less_trans)
  next
    case 2
    then show ?thesis using Cons.prems f by auto
  next
    case 3
    have "\<forall>x \<in> set (map fst (fields_put k v fs)). k' < x" unfolding IH(2) using lt 3 by auto
    with IH 3 f show ?thesis by (auto simp: fun_eq_iff)
  qed
qed simp

lemma fields_put_all: "list_all P fs \<Longrightarrow> P (k, v) \<Longrightarrow> list_all P (fields_put k v fs)"
  by (induction fs) auto

lemma fields_ok_put: "fields_ok fs \<Longrightarrow> field_ok k v \<Longrightarrow> fields_ok (fields_put k v fs)"
  using fields_put_sorted [of fs k v] by (simp add: fields_ok_def fields_put_all)

lemma fields_ok_filter: "fields_ok fs \<Longrightarrow> fields_ok (filter P fs)"
  by (auto simp: fields_ok_def list_all_iff sorted_wrt_map sorted_wrt_filter)

lemma map_of_filter_key: "map_of (filter (\<lambda>x. fst x \<noteq> k) fs) = (map_of fs)(k := None)"
  by (induction fs) (auto simp: fun_eq_iff)

lemma set_field_ok:
  assumes "request_ok h" and "field_ok n c" and "0 \<notin> set c"
  shows "\<exists>h'. set_field n c h = Some h' \<and> request_ok h' \<and> map_of (h_fields h') = (map_of (h_fields h))(n \<mapsto> c) \<and>
     h_method h' = h_method h \<and> h_version h' = h_version h"
proof -
  have "c_str c = c" unfolding c_str_def using assms(3) by (intro takeWhile_all) auto
  then have "set_field n c h = Some (h\<lparr>h_fields := fields_put n c (h_fields h)\<rparr>)"
    using assms(2) by (simp add: set_field_def AddField_def field_ok_def split: option.split)
  moreover have "fields_ok (h_fields h)" "sorted_wrt (<) (map fst (h_fields h))" using assms(1) by (auto simp: request_ok_def fields_ok_def)
  ultimately show ?thesis using fields_put_sorted [of "h_fields h" n c] fields_ok_put [OF _ assms(2)] request_ok_fields [OF assms(1)]
    by simp
qed

lemma clear_field_ok:
  assumes "request_ok h"
  shows "\<exists>h'. clear_field n h = Some h' \<and> request_ok h' \<and> map_of (h_fields h') = (map_of (h_fields h))(n := None) \<and>
     h_method h' = h_method h \<and> h_version h' = h_version h"
  using request_ok_fields [OF assms fields_ok_filter] assms map_of_filter_key [of n "h_fields h"]
  by (simp add: clear_field_def ClearField_def request_ok_def)

lemmas field_defs = field_ok_def ascii_def NormalizeFieldName_def IsValidFieldName_def IsValidFieldContent_def
    IsTokenChar_def IsAsciiChar_def IsCtlChar_def IsSeparatorChar_def IsLwfChar_def IsWhiteSpace_def isalpha_def toupper_def tolower_def

lemma field_ok_accept: "field_ok kHeaderAcceptEncoding (ascii ''gzip, deflate'')" "0 \<notin> set (ascii ''gzip, deflate'')"
  by (simp_all add: field_defs kHeaderAcceptEncoding_def)

lemma field_ok_length:
  "field_ok kHeaderContentLength (IntToString (int n))" "0 \<notin> set (IntToString (int n))" "c_str (IntToString (int n)) = IntToString (int n)"
proof -
  let ?p = "print_nat 10 n"
  have d: "\<forall>c \<in> set ?p. is_digit 10 c" "?p \<noteq> []" using print_nat_digits [of 10 n] by simp_all
  have v: "\<not> IsCtlChar c \<and> \<not> IsLwfChar c" if "is_digit 10 c" for c
    using that by (auto simp: is_digit_def digit_value_def IsCtlChar_def IsLwfChar_def word_le_nat_alt split: if_splits)
  have "field_ok kHeaderContentLength []" by (simp add: field_defs kHeaderContentLength_def)
  moreover have "IsValidFieldContent ?p" using d(1) v by (auto simp: IsValidFieldContent_def list_all_iff)
  moreover have "\<not> IsLwfChar (hd ?p)" using d v by simp
  moreover have "10 \<notin> set ?p" by (rule print_nat_chars) simp_all
  ultimately show "field_ok kHeaderContentLength (IntToString (int n))" by (simp add: field_ok_def IntToString_def)
  show z: "0 \<notin> set (IntToString (int n))" using print_nat_chars(1) [of 10 n] by (simp add: IntToString_def)
  show "c_str (IntToString (int n)) = IntToString (int n)" unfolding c_str_def using z by (intro takeWhile_all) auto
qed

lemma no_field:
  assumes "map_of (h_fields h) n = None"
  shows "FindField n h = None" "field_or_empty n h = []"
  using assms by (simp_all add: FindField_def field_or_empty_def)

lemma plain_no_encoding: "map_of (h_fields h) kHeaderContentEncoding = None \<Longrightarrow> plain h \<and> IsKnownContentEncoding h"
  by (simp add: plain_def IsGzipContentEncoding_def IsDeflateContentEncoding_def IsKnownContentEncoding_def no_field StrTrim_def
      c_str_def ascii_def)

section \<open>Writing a request\<close>

text \<open>A request that can be sent as it is: its content is not to be compressed.\<close>

definition sendable :: "('e, 'd) Request \<Rightarrow> bool" where
  "sendable r \<longleftrightarrow> request_ok (r_client_header r) \<and> \<not> r_in_chunk_encoding r \<and>
     map_of (h_fields (r_client_header r)) kHeaderContentEncoding = None"

text \<open>What the first part of \<open>AppendClientRequest\<close> does to the request.\<close>

lemma prepare_client:
  assumes "sendable r"
  obtains r2 where "Option.bind (prepare_client_encoding z r) (\<lambda>r1. update_client
       (if r_server_use_gzip_encoding r1 then set_field kHeaderAcceptEncoding (ascii ''gzip, deflate'')
        else clear_field kHeaderAcceptEncoding) r1) = Some r2"
    and "sendable r2" and "r_compress_option r2 = COMPRESS_NONE" and "r_client_data r2 = r_client_data r"
    and "h_method (r_client_header r2) = h_method (r_client_header r)" and "h_version (r_client_header r2) = h_version (r_client_header r)"
    and "\<And>n. n \<noteq> kHeaderAcceptEncoding \<Longrightarrow> map_of (h_fields (r_client_header r2)) n = map_of (h_fields (r_client_header r)) n"
proof -
  let ?h = "r_client_header r"
  have ok: "request_ok ?h" "map_of (h_fields ?h) kHeaderContentEncoding = None" using assms by (simp_all add: sendable_def)
  note pl = plain_no_encoding [OF ok(2)]
  obtain h1 where h1: "clear_field kHeaderContentEncoding ?h = Some h1" "request_ok h1"
      "map_of (h_fields h1) = (map_of (h_fields ?h))(kHeaderContentEncoding := None)" "h_method h1 = h_method ?h" "h_version h1 = h_version ?h"
    using clear_field_ok [OF ok(1)] by blast
  let ?r1 = "r\<lparr>r_compress_option := COMPRESS_NONE, r_client_header := h1\<rparr>"
  have p: "prepare_client_encoding z r = Some ?r1"
    using pl h1(1) by (auto simp: prepare_client_encoding_def plain_def update_client_def SetContentEncoding_def clear_field_def)
  obtain h2 where h2: "(if r_server_use_gzip_encoding ?r1 then set_field kHeaderAcceptEncoding (ascii ''gzip, deflate'')
        else clear_field kHeaderAcceptEncoding) h1 = Some h2" "request_ok h2" "h_method h2 = h_method h1" "h_version h2 = h_version h1"
      "\<And>n. n \<noteq> kHeaderAcceptEncoding \<Longrightarrow> map_of (h_fields h2) n = map_of (h_fields h1) n"
    using set_field_ok [OF h1(2) field_ok_accept] clear_field_ok [OF h1(2), of kHeaderAcceptEncoding]
    by (cases "r_server_use_gzip_encoding ?r1") auto
  have ne: "kHeaderContentEncoding \<noteq> kHeaderAcceptEncoding" by (simp add: kHeaderContentEncoding_def kHeaderAcceptEncoding_def ascii_def)
  have m: "map_of (h_fields h2) n = map_of (h_fields ?h) n" if "n \<noteq> kHeaderAcceptEncoding" for n
    using h2(5) [OF that] h1(3) ok(2) by simp
  show thesis
    by (rule that [of "?r1\<lparr>r_client_header := h2\<rparr>"])
      (use p h2 h1 m [OF ne] m ok assms in \<open>simp_all add: update_client_def sendable_def\<close>)
qed

lemma header_names [simp]:
  "kHeaderTransferEncoding \<noteq> kHeaderAcceptEncoding" "kHeaderContentLength \<noteq> kHeaderAcceptEncoding"
  "kHeaderContentEncoding \<noteq> kHeaderAcceptEncoding" "kHeaderContentLength \<noteq> kHeaderTransferEncoding"
  "kHeaderContentEncoding \<noteq> kHeaderTransferEncoding" "kHeaderTransferEncoding \<noteq> kHeaderContentLength"
  "kHeaderContentEncoding \<noteq> kHeaderContentLength"
  by (simp_all add: kHeaderContentEncoding_def kHeaderAcceptEncoding_def kHeaderContentLength_def kHeaderTransferEncoding_def ascii_def)

text \<open>Whether a request announces the length of its body.\<close>

definition has_length :: "('e, 'd) Request \<Rightarrow> bool" where
  "has_length r \<longleftrightarrow> r_client_data r \<noteq> [] \<or> h_method (r_client_header r) = METHOD_POST \<or> h_method (r_client_header r) = METHOD_PUT"

lemma AppendClientRequest_plain:
  assumes "sendable r" and "\<not> IsChunkedTransfer (r_client_header r)"
  obtains h r' where "AppendClientRequest z out m r = Some (AppendToStream h out @ r_client_data r, r')"
    and "request_ok h" and "h_method h = h_method (r_client_header r)"
    and "map_of (h_fields h) kHeaderContentEncoding = None" and "map_of (h_fields h) kHeaderTransferEncoding = None"
    and "map_of (h_fields h) kHeaderContentLength =
       (if has_length r then Some (IntToString (int (length (r_client_data r)))) else map_of (h_fields (r_client_header r)) kHeaderContentLength)"
    and "r_client_data r' = []" "r_client_header r' = h" "r_in_chunk_encoding r' = False"
proof -
  obtain r2 where r2: "Option.bind (prepare_client_encoding z r) (\<lambda>r1. update_client
       (if r_server_use_gzip_encoding r1 then set_field kHeaderAcceptEncoding (ascii ''gzip, deflate'')
        else clear_field kHeaderAcceptEncoding) r1) = Some r2"
    and s2: "sendable r2" "r_compress_option r2 = COMPRESS_NONE" "r_client_data r2 = r_client_data r"
      "h_method (r_client_header r2) = h_method (r_client_header r)" "h_version (r_client_header r2) = h_version (r_client_header r)"
    and f2: "\<And>n. n \<noteq> kHeaderAcceptEncoding \<Longrightarrow> map_of (h_fields (r_client_header r2)) n = map_of (h_fields (r_client_header r)) n"
    by (rule prepare_client [OF assms(1), of z]) blast
  let ?h2 = "r_client_header r2" and ?d = "r_client_data r"
  have nc: "\<not> IsChunkedTransfer ?h2"
    using assms(2) f2 [of kHeaderTransferEncoding] by (simp add: IsChunkedTransfer_def field_or_empty_def FindField_def)
  obtain h3 where h3: "clear_field kHeaderTransferEncoding ?h2 = Some h3" "request_ok h3"
      "map_of (h_fields h3) = (map_of (h_fields ?h2))(kHeaderTransferEncoding := None)" "h_method h3 = h_method ?h2"
    using clear_field_ok [of ?h2] s2(1) by (auto simp: sendable_def)
  let ?r3 = "r2\<lparr>r_client_header := h3\<rparr>"
  have c3: "update_client (SetChunkedTransfer False) r2 = Some ?r3"
    using h3(1) by (auto simp: update_client_def SetChunkedTransfer_def clear_field_def)
  obtain h where h: "(if has_length r then set_field kHeaderContentLength (IntToString (int (length ?d))) h3 else Some h3) = Some h"
      "request_ok h" "h_method h = h_method h3"
      "map_of (h_fields h) = (if has_length r then (map_of (h_fields h3))(kHeaderContentLength \<mapsto> IntToString (int (length ?d))) else map_of (h_fields h3))"
    using set_field_ok [OF h3(2) field_ok_length(1,2), of "length ?d"] h3(2) by (cases "has_length r") auto
  let ?r' = "?r3\<lparr>r_client_header := h, r_client_data := []\<rparr>"
  have hl: "(?d \<noteq> [] \<or> h_method h3 = METHOD_POST \<or> h_method h3 = METHOD_PUT) = has_length r"
    using h3(4) s2(4) by (simp add: has_length_def)
  have "Option.bind (if has_length r then update_client (set_field kHeaderContentLength (IntToString (int (length ?d)))) ?r3 else Some ?r3)
      (\<lambda>r5. Some (AppendToStream (r_client_header r5) out @ ?d, r5\<lparr>r_client_data := []\<rparr>)) = Some (AppendToStream h out @ ?d, ?r')"
    using h(1) by (cases "has_length r") (auto simp: update_client_def)
  then have body: "Option.bind (update_client (SetChunkedTransfer False) r2) (\<lambda>r3.
             Option.bind (compress_body z (r_client_data r3) r3) (\<lambda>(source, left, r4).
             let data = (if r_compress_option r4 = COMPRESS_NONE then source else left) in
             Option.bind (if data \<noteq> [] \<or> h_method (r_client_header r4) = METHOD_POST \<or> h_method (r_client_header r4) = METHOD_PUT
                          then update_client (set_field kHeaderContentLength (IntToString (int (length source)))) r4
                          else Some r4) (\<lambda>r5.
               Some (AppendToStream (r_client_header r5) out @ source, r5\<lparr>r_client_data := left\<rparr>)))) = Some (AppendToStream h out @ ?d, ?r')"
    using s2(2,3) hl by (simp add: c3 compress_body_def)
  have fl: "h_first_line (r_client_header r) = REQUEST_LINE" "\<not> r_in_chunk_encoding r" "\<not> r_in_chunk_encoding r2"
    using assms(1) s2(1) by (simp_all add: sendable_def request_ok_def)
  from r2 obtain r1 where r1: "prepare_client_encoding z r = Some r1" "update_client
       (if r_server_use_gzip_encoding r1 then set_field kHeaderAcceptEncoding (ascii ''gzip, deflate'')
        else clear_field kHeaderAcceptEncoding) r1 = Some r2" by (auto simp: bind_eq_Some_conv)
  have ce: "map_of (h_fields ?h2) kHeaderContentEncoding = None" using s2(1) by (simp add: sendable_def)
  obtain st where "AppendClientRequest z out m r = Some (AppendToStream h out @ ?d, ?r'\<lparr>r_stats := st\<rparr>)"
    unfolding AppendClientRequest_def using fl nc body r1 by simp
  with h h3 f2 [of kHeaderContentLength] ce s2(4) fl show thesis
    by (intro that [of h "?r'\<lparr>r_stats := st\<rparr>"]) auto
qed

section \<open>Reading a request\<close>

definition fresh_parser :: "('g, 'i) RequestParser \<Rightarrow> bool" where
  "fresh_parser p \<longleftrightarrow> p_parse_state p = STATE_INITIALIZED \<and> p_partial_data p = [] \<and>
     p_next_chunk_expectation p = EXPECT_CHUNK_NONE \<and> p_trail_header p = Header_new True \<and> p_num_chunks_read p = 0 \<and>
     error_num HREAD_NO_DATA \<le> error_num (p_worst_accepted_header_error p)"

lemma ParseHeader_consumes:
  assumes "parsing h" and "ParseHeader e a h = Some (d, a', h')" and "h_bytes_parsed h = 0"
  shows "h_bytes_parsed h' + length a' = length a"
proof -
  have "length line + length io = length a" if "spec_line 13 a = (Some line, io)" for line io
    using that by (auto simp: spec_line_def dest!: line_len_le split: option.splits)
  with assms show ?thesis
    by (auto simp: ParseHeader_parsing dest!: ReadHeaderFields_consumes split: prod.splits option.splits)
qed

text \<open>A beginning of a written request: within the header the parser waits, behind it the payload is read.\<close>

lemma header_prefix:
  assumes "request_ok h" and "plain h" and "fresh_parser p" and "length (AppendToStream h []) \<le> p_max_header_size p"
    and "a @ b = AppendToStream h [] @ body"
  shows "length a < length (AppendToStream h []) \<Longrightarrow> \<exists>i s. client_call z (req, p) a = Some (False, i, s)"
    and "length (AppendToStream h []) \<le> length a \<Longrightarrow>
      \<exists>a2 g. a2 @ b = body \<and> a = AppendToStream h [] @ a2 \<and> same_message g h \<and>
        client_call z (req, p) a =
          payload_call z ((start_header req p)\<lparr>r_client_header := g\<rparr>) a2 g [] (set_parse_state STATE_END_OF_HEADER p)"
proof -
  let ?h0 = "Header_new (h_is_strict (r_client_header req))" and ?w = "AppendToStream h []"
  have ok: "first_line_ok h" "fields_ok (h_fields h)" "h_verbatim h = []" "h_first_line h = REQUEST_LINE"
    using assms(1) by (simp_all add: request_ok_def)
  have rh: "reads_header p" and h0: "r_client_header (start_header req p) = ?h0" and d0: "r_client_data (start_header req p) = []"
    using assms(3) by (simp_all add: fresh_parser_def reads_header_def start_header_def Header_Clear_def)
  have b0: "h_bytes_parsed ?h0 = 0" by (simp add: Header_new_def)
  show "\<exists>i s. client_call z (req, p) a = Some (False, i, s)" if l: "length a < length ?w"
  proof -
    obtain d i g where g: "ParseHeader REQUEST_LINE a ?h0 = Some (d, i, g)" using ParseHeader_total [OF parsing_new] by blast
    have "\<not> d"
    proof
      assume d
      with g have "ParseHeader REQUEST_LINE (a @ b) ?h0 = Some (True, i @ b, g)" by (simp add: ParseHeader_append [OF parsing_new])
      moreover obtain g' where "ParseHeader REQUEST_LINE (?w @ body) ?h0 = Some (True, body, g')"
        using ParseHeader_written [OF ok(1-3), of body] ok(4) by metis
      ultimately have "i @ b = body" using assms(5) by simp
      then have "length b \<le> length body" by auto
      moreover have "length a + length b = length ?w + length body" using arg_cong [OF assms(5), of length] by simp
      ultimately show False using l by simp
    qed
    with g ParseHeader_consumes [OF parsing_new g b0] l assms(4) show ?thesis
      by (simp add: client_call_header [OF rh] h0)
  qed
  show "\<exists>a2 g. a2 @ b = body \<and> a = ?w @ a2 \<and> same_message g h \<and> client_call z (req, p) a =
      payload_call z ((start_header req p)\<lparr>r_client_header := g\<rparr>) a2 g [] (set_parse_state STATE_END_OF_HEADER p)"
    if l: "length ?w \<le> length a"
  proof -
    have "take (length ?w) (a @ b) = take (length ?w) a" using l by simp
    then have "take (length ?w) a = ?w" using assms(5) by simp
    then obtain a2 where a2: "a = ?w @ a2" using append_take_drop_id [of "length ?w" a] by metis
    obtain g where g: "ParseHeader REQUEST_LINE a ?h0 = Some (True, a2, g)" "same_message g h" "h_parse_error g = HREAD_OK"
        "h_bytes_parsed g = length ?w"
      using ParseHeader_written [OF ok(1-3), of a2] ok(4) unfolding a2 by metis
    have f: "h_fields g = h_fields h" "h_version g \<noteq> VERSION_UNKNOWN" "h_method g \<noteq> METHOD_UNKNOWN"
      using g(2) ok(1,4) by (auto simp: same_message_def first_line_ok_def)
    have "plain g" using assms(2) f(1) by (simp add: plain_def IsGzipContentEncoding_def IsDeflateContentEncoding_def field_or_empty_def FindField_def)
    moreover have "acceptable_header g p" using f g(3,4) assms(3,4) by (simp add: acceptable_header_def fresh_parser_def)
    ultimately have "client_call z (req, p) a =
        payload_call z ((start_header req p)\<lparr>r_client_header := g\<rparr>) a2 g [] (set_parse_state STATE_END_OF_HEADER p)"
      using g(1) by (simp add: client_call_header [OF rh] h0 d0)
    moreover have "a2 @ b = body" using assms(5) a2 by simp
    ultimately show ?thesis using a2 g(2) by blast
  qed
qed

text \<open>A body of known length, or a beginning of it.\<close>

lemma body_prefix:
  assumes "BeginPayload g p = (None, q)" and "p_parse_state p = STATE_END_OF_HEADER" and "p_parse_state q = STATE_BODY_READING"
    and "p_body_size_to_read q = length d" and "p_partial_data q = []" and "\<not> body_too_long q" and "plain g" and "a @ b = d @ rest"
  shows "length a < length d \<Longrightarrow> \<exists>i s. payload_call z req a g out p = Some (False, i, s)"
    and "length d \<le> length a \<Longrightarrow> \<exists>p'. payload_call z req a g out p =
      Some (True, drop (length d) a, (req\<lparr>r_client_header := g, r_client_data := out @ d\<rparr>, p')) \<and> p_parse_state p' = STATE_BODY_END"
proof -
  note e = ParsePayloadInternal_begin(1) [OF assms(2,1)] ParsePayloadInternal_body [OF assms(3)] ParseBodyInternal_plain [OF assms(7,3)]
  have f: "\<not> InErrorState q" "\<not> InFinalState q" "InErrorState (q\<lparr>p_partial_data := x, p_body_size_to_read := n\<rparr>) = InErrorState q"
      "InFinalState (q\<lparr>p_partial_data := x, p_body_size_to_read := n\<rparr>) = InFinalState q" for n x
    using assms(3) by (simp_all add: InErrorState_def InFinalState_def)
  show "\<exists>i s. payload_call z req a g out p = Some (False, i, s)" if "length a < length d"
    using that assms(4,6) f by (simp add: payload_call_def e)
  show "\<exists>p'. payload_call z req a g out p =
      Some (True, drop (length d) a, (req\<lparr>r_client_header := g, r_client_data := out @ d\<rparr>, p')) \<and> p_parse_state p' = STATE_BODY_END"
    if l: "length d \<le> length a"
  proof -
    have "take (length d) (a @ b) = take (length d) a" using l by simp
    then have "take (length d) a = d" using assms(8) by simp
    then show ?thesis using l assms(4,5,6) by (simp add: payload_call_def e)
  qed
qed

lemma BeginPayload_length:
  assumes "map_of (h_fields g) kHeaderContentEncoding = None" and "map_of (h_fields g) kHeaderTransferEncoding = None"
    and "map_of (h_fields g) kHeaderContentLength = Some (IntToString (int n)) \<and> n < 2 ^ 63 \<or>
      map_of (h_fields g) kHeaderContentLength = None \<and> DefaultBodyLen g = 0 \<and> n = 0"
  shows "BeginPayload g p = (None, set_parse_state STATE_BODY_READING (p\<lparr>p_body_size_to_read := n\<rparr>))"
proof -
  have k: "IsKnownContentEncoding g" "IsKnownTransferEncoding g" "\<not> IsChunkedTransfer g"
    using plain_no_encoding [OF assms(1)] no_field [OF assms(2)]
    by (simp_all add: IsKnownTransferEncoding_def IsChunkedTransfer_def StrTrim_def c_str_def ascii_def)
  from assms(3) show ?thesis
  proof
    assume "map_of (h_fields g) kHeaderContentLength = Some (IntToString (int n)) \<and> n < 2 ^ 63"
    then show ?thesis using k strtol_print(1) [of n] field_ok_length(3) [of n]
      by (simp add: BeginPayload_def FindField_def IntToString_def)
  next
    assume "map_of (h_fields g) kHeaderContentLength = None \<and> DefaultBodyLen g = 0 \<and> n = 0"
    then show ?thesis using k by (simp add: BeginPayload_def FindField_def)
  qed
qed

lemma DefaultBodyLen_message:
  "same_message g h \<Longrightarrow> h_first_line h = REQUEST_LINE \<Longrightarrow> h_method h \<noteq> METHOD_POST \<Longrightarrow> h_method h \<noteq> METHOD_PUT \<Longrightarrow> DefaultBodyLen g = 0"
  by (simp add: same_message_def DefaultBodyLen_def)

lemma same_message_fields: "same_message g h \<Longrightarrow> h_fields g = h_fields h"
  by (simp add: same_message_def)

text \<open>The outcome of feeding a message, from the outcomes of its beginnings.\<close>

lemma feed_client:
  assumes "fresh_parser p" and "concat ps = w @ rest"
    and "\<And>a b. a @ b = w @ rest \<Longrightarrow> length a < length w \<Longrightarrow> \<exists>i s. client_call z (req, p) a = Some (False, i, s)"
    and "\<And>a b. a @ b = w @ rest \<Longrightarrow> length w \<le> length a \<Longrightarrow>
       \<exists>r' p'. client_call z (req, p) a = Some (True, drop (length w) a, (r', p')) \<and> p_parse_state p' = st \<and>
         r_client_data r' = d \<and> same_message (r_client_header r') h"
  shows "\<exists>r' p'. feed (client_call z) (req, p) [] ps = Some (True, rest, (r', p')) \<and> p_parse_state p' = st \<and>
         r_client_data r' = d \<and> same_message (r_client_header r') h"
proof -
  have ok: "client_ok (req, p)" using assms(1) by (intro client_ok_new) (simp_all add: fresh_parser_def)
  have "client_call z (req, p) a \<noteq> None" if "a @ b = [] @ concat ps" for a b
    using assms(3,4) [of a b] that assms(2) by (cases "length a < length w") auto
  then have e: "observe client_obs (feed (client_call z) (req, p) [] ps) = observe client_obs (client_call z (req, p) (w @ rest))"
    using client.feed_whole [OF ok, of "[]" ps z] assms(2) by simp
  from assms(4) [of "w @ rest" "[]"] obtain r1 p1 where c: "client_call z (req, p) (w @ rest) = Some (True, rest, (r1, p1))"
      "p_parse_state p1 = st" "r_client_data r1 = d" "same_message (r_client_header r1) h" by auto
  with e obtain s where s: "feed (client_call z) (req, p) [] ps = Some (True, rest, s)" "client_obs s = client_obs (r1, p1)"
    by (auto dest!: observe_SomeD)
  obtain r' p' where s': "s = (r', p')" by (cases s)
  with s(2) have o: "settled (r_client_header r') = settled (r_client_header r1)" "r_client_data r' = r_client_data r1"
      "p'\<lparr>p_trail_header := settled (p_trail_header p')\<rparr> = p1\<lparr>p_trail_header := settled (p_trail_header p1)\<rparr>"
    by (simp_all add: client_obs_def)
  from arg_cong [OF o(3), of p_parse_state] have "p_parse_state p' = p_parse_state p1" by simp
  moreover have "same_message (r_client_header r') h" using c(4) settled_eqD [OF o(1)] by (simp add: same_message_def)
  ultimately show ?thesis using s(1) s' o(2) c by auto
qed

text \<open>A written header followed by a payload \<open>m\<close>, from what the parser makes of the beginnings of the payload.\<close>

definition payload_read ::
    "('g, 'i) decoder \<Rightarrow> ('c, 'd) Request \<Rightarrow> Header \<Rightarrow> bytes \<Rightarrow> bytes \<Rightarrow> bytes \<Rightarrow> ParseState \<Rightarrow> ('g, 'i) RequestParser \<Rightarrow> bool" where
  "payload_read z req h m rest d st p \<longleftrightarrow> (\<forall>g a b rq. same_message g h \<longrightarrow> a @ b = m @ rest \<longrightarrow>
     (let call = payload_call z (rq :: ('c, 'd) Request) a g [] (set_parse_state STATE_END_OF_HEADER p) in
      if length a < length m then \<exists>i s. call = Some (False, i, s)
      else \<exists>p'. call = Some (True, drop (length m) a, (rq\<lparr>r_client_header := g, r_client_data := d\<rparr>, p')) \<and> p_parse_state p' = st))"

lemma message_prefix:
  assumes "request_ok h" and "plain h" and "fresh_parser p" and "length (AppendToStream h []) \<le> p_max_header_size p"
    and "payload_read z req h m rest d st p" and ab: "a @ b = (AppendToStream h [] @ m) @ rest"
  shows "length a < length (AppendToStream h [] @ m) \<Longrightarrow> \<exists>i s. client_call z (req, p) a = Some (False, i, s)"
    and "length (AppendToStream h [] @ m) \<le> length a \<Longrightarrow>
       \<exists>r' p'. client_call z (req, p) a = Some (True, drop (length (AppendToStream h [] @ m)) a, (r', p')) \<and> p_parse_state p' = st \<and>
         r_client_data r' = d \<and> same_message (r_client_header r') h"
proof -
  let ?w = "AppendToStream h []" and ?p = "set_parse_state STATE_END_OF_HEADER p"
  from ab have "a @ b = ?w @ (m @ rest)" by simp
  note hp = header_prefix [OF assms(1-4) this, where z = z and req = req]
  have body: "\<exists>a2 g. a = ?w @ a2 \<and> same_message g h \<and> (let call = client_call z (req, p) a in
      if length a2 < length m then \<exists>i s. call = Some (False, i, s)
      else \<exists>p'. call = Some (True, drop (length m) a2, ((start_header req p)\<lparr>r_client_header := g, r_client_data := d\<rparr>, p')) \<and>
        p_parse_state p' = st)" if "length ?w \<le> length a"
  proof -
    from hp(2) that obtain a2 g where a2: "a2 @ b = m @ rest" "a = ?w @ a2" "same_message g h" "client_call z (req, p) a =
        payload_call z ((start_header req p)\<lparr>r_client_header := g\<rparr>) a2 g [] ?p" by auto
    with assms(5) [unfolded payload_read_def, rule_format, OF a2(3,1), of "(start_header req p)\<lparr>r_client_header := g\<rparr>"]
    show ?thesis by (intro exI [of _ a2] exI [of _ g]) (auto simp: Let_def split: if_splits)
  qed
  show "\<exists>i s. client_call z (req, p) a = Some (False, i, s)" if "length a < length (?w @ m)"
    using that hp(1) body by (cases "length a < length ?w") (auto simp: Let_def)
  show "\<exists>r' p'. client_call z (req, p) a = Some (True, drop (length (?w @ m)) a, (r', p')) \<and> p_parse_state p' = st \<and>
         r_client_data r' = d \<and> same_message (r_client_header r') h" if "length (?w @ m) \<le> length a"
    using that body by (auto simp: Let_def)
qed

lemma feed_message:
  assumes "request_ok h" and "plain h" and "fresh_parser p" and "length (AppendToStream h []) \<le> p_max_header_size p"
    and "payload_read z req h m rest d st p" and "concat ps = (AppendToStream h [] @ m) @ rest"
  shows "\<exists>r' p'. feed (client_call z) (req, p) [] ps = Some (True, rest, (r', p')) \<and> p_parse_state p' = st \<and>
         r_client_data r' = d \<and> same_message (r_client_header r') h"
  by (rule feed_client [OF assms(3,6)]) (fact message_prefix [OF assms(1-5)])+

text \<open>A request with a body of known length on the wire.\<close>

lemma request_wire:
  fixes req :: "('c, 'f) Request"
  assumes "sendable r" and "\<not> IsChunkedTransfer (r_client_header r)"
    and "has_length r \<or> FindField kHeaderContentLength (r_client_header r) = None"
    and "length (r_client_data r) < 2 ^ 63" and "p_max_body_size p < 0 \<or> int (length (r_client_data r)) \<le> p_max_body_size p"
    and "fresh_parser p" and "AppendClientRequest e [] m r = Some (wire, r1)"
  obtains "wire = AppendToStream (r_client_header r1) [] @ r_client_data r" and "request_ok (r_client_header r1)" and "plain (r_client_header r1)"
    and "payload_read z req (r_client_header r1) (r_client_data r) rest (r_client_data r) STATE_BODY_END p"
proof -
  let ?d = "r_client_data r" and ?p = "set_parse_state STATE_END_OF_HEADER p"
  obtain h where w: "wire = AppendToStream h [] @ ?d" and h: "request_ok h" "h_method h = h_method (r_client_header r)"
      "map_of (h_fields h) kHeaderContentEncoding = None" "map_of (h_fields h) kHeaderTransferEncoding = None"
      "map_of (h_fields h) kHeaderContentLength =
         (if has_length r then Some (IntToString (int (length ?d))) else map_of (h_fields (r_client_header r)) kHeaderContentLength)"
    and r1: "r_client_header r1 = h"
    by (rule AppendClientRequest_plain [OF assms(1,2), of e "[]" m]) (auto simp: assms(7))
  let ?q = "set_parse_state STATE_BODY_READING (?p\<lparr>p_body_size_to_read := length ?d\<rparr>)"
  have bp: "BeginPayload g ?p = (None, ?q)" "plain g" if "same_message g h" for g
  proof -
    have l: "map_of (h_fields g) kHeaderContentLength = Some (IntToString (int (length ?d))) \<and> length ?d < 2 ^ 63 \<or>
        map_of (h_fields g) kHeaderContentLength = None \<and> DefaultBodyLen g = 0 \<and> length ?d = 0"
      using h(1,2,5) assms(3,4) same_message_fields [OF that] DefaultBodyLen_message [OF that]
      by (cases "has_length r") (auto simp: has_length_def FindField_def request_ok_def)
    with h(3,4) same_message_fields [OF that] BeginPayload_length [of g "length ?d" ?p] plain_no_encoding [of g]
    show "BeginPayload g ?p = (None, ?q)" "plain g" by simp_all
  qed
  have q: "p_parse_state ?p = STATE_END_OF_HEADER" "p_parse_state ?q = STATE_BODY_READING" "p_body_size_to_read ?q = length ?d"
    "p_partial_data ?q = []" "\<not> body_too_long ?q"
    using assms(5,6) by (auto simp: fresh_parser_def body_too_long_def)
  have "payload_read z req h ?d rest ?d STATE_BODY_END p"
    using body_prefix [OF bp(1) q bp(2), where out = "[]"] by (auto simp: payload_read_def Let_def not_less)
  with w h(1) plain_no_encoding [OF h(3)] r1 that show thesis by simp
qed

subsection \<open>A sample\<close>

text \<open>A client without compression and a server with its usual limits.\<close>

definition sample_request :: "bytes \<Rightarrow> bytes \<Rightarrow> bytes \<Rightarrow> (unit, unit) Request" where
  "sample_request name content body = (Request_new True)
     \<lparr>r_client_header := (PrepareRequestLine (ascii ''/x'') METHOD_POST VERSION_1_1 (Header_new True))\<lparr>h_fields := [(name, content)]\<rparr>,
      r_client_data := body\<rparr>"

definition no_encoder :: "(unit, unit) encoder" where
  "no_encoder = \<lparr>ge_new = (), ge_BeginEncoding = \<lambda>_. ([], ()), ge_ContinueEncoding = \<lambda>_ d. (d, ()),
     ge_EndEncoding = \<lambda>_. ([], ()), de_new = (), de_DeflateSize = \<lambda>_ d n. ([], d, n - length d, ())\<rparr>"

definition no_decoder :: "(unit, unit) decoder" where
  "no_decoder = \<lparr>gz_new = (), gz_Decode = \<lambda>_ d. (Z_STREAM_END, length d, d, ()), inf_new = (),
     inf_InflateSize = \<lambda>_ d. (Z_STREAM_END, length d, d, ())\<rparr>"

definition sample_parser :: "(unit, unit) RequestParser" where
  "sample_parser = RequestParser_new 16384 4194304 4194304 (-1) False False False HREAD_NO_STATUS_REASON"

lemmas sample_defs = sample_request_def Request_new_def PrepareRequestLine_def Header_new_def

lemmas evaluation = sample_defs ascii_def
    kHeaderContentLength_def kHeaderContentType_def kHeaderTransferEncoding_def kHeaderContentEncoding_def kHeaderAcceptEncoding_def
    NormalizeFieldName_def IsValidFieldName_def IsValidFieldContent_def
    IsTokenChar_def IsAsciiChar_def IsCtlChar_def IsSeparatorChar_def IsLwfChar_def IsWhiteSpace_def isalpha_def toupper_def
    tolower_def List_Lexorder.list_less_def

lemma sample_parser_fresh: "fresh_parser sample_parser"
  by (simp add: sample_parser_def RequestParser_new_def fresh_parser_def)

lemma sample_plain:
  "sendable (sample_request kHeaderContentType (ascii ''text/plain'') d)"
  "\<not> IsChunkedTransfer (r_client_header (sample_request kHeaderContentType (ascii ''text/plain'') d))"
  by (simp_all add: evaluation sendable_def request_ok_def first_line_ok_def fields_ok_def field_ok_def IsChunkedTransfer_def field_or_empty_def FindField_def StrTrim_def isspace_def c_str_def StrCasePrefix.simps)

lemmas writing = AppendClientRequest_def prepare_client_encoding_def IsGzipContentEncoding_def IsDeflateContentEncoding_def
   field_or_empty_def FindField_def StrTrim_def isspace_def c_str_def StrCasePrefix.simps update_client_def SetContentEncoding_def ClearField_def
   set_field_def AddField_def IsChunkedTransfer_def SetChunkedTransfer_def compress_body_def AppendToStream_def ComposeFirstLine_def
   field_line_def crlf_def IntToString_def print_nat.simps digit_char_def

definition lines :: "string list \<Rightarrow> bytes" where
  "lines ls = concat (map (\<lambda>l. ascii l @ crlf) ls)"

lemma sample_plain_wire:
  "\<exists>r1. AppendClientRequest no_encoder [] 0 (sample_request kHeaderContentType (ascii ''text/plain'') (ascii ''hi'')) =
     Some (lines [''POST /x HTTP/1.1'', ''Accept-Encoding: gzip, deflate'', ''Content-Length: 2'', ''Content-Type: text/plain'', []] @ ascii ''hi'', r1) \<and>
     length (AppendToStream (r_client_header r1) []) \<le> p_max_header_size sample_parser"
  by (simp add: evaluation writing lines_def sample_parser_def RequestParser_new_def)

lemma sample_body:
  "has_length (sample_request kHeaderContentType (ascii ''text/plain'') (ascii ''hi''))"
  "length (r_client_data (sample_request kHeaderContentType (ascii ''text/plain'') (ascii ''hi''))) < 2 ^ 63"
  "int (length (r_client_data (sample_request kHeaderContentType (ascii ''text/plain'') (ascii ''hi'')))) \<le> p_max_body_size sample_parser"
  "r_client_data (sample_request kHeaderContentType (ascii ''text/plain'') (ascii ''hi'')) = ascii ''hi''"
  by (simp_all add: sample_defs has_length_def ascii_def sample_parser_def RequestParser_new_def)


text \<open>The beginnings of the sample request are all accepted.\<close>

lemma sample_prefix:
  assumes "AppendClientRequest no_encoder [] 0 (sample_request kHeaderContentType (ascii ''text/plain'') (ascii ''hi'')) = Some (wire, r1)"
    and "length (AppendToStream (r_client_header r1) []) \<le> p_max_header_size sample_parser" and "a @ b = wire"
  shows "client_call no_decoder (Request_new True :: (unit, unit) Request, sample_parser) a \<noteq> None"
proof -
  let ?r = "sample_request kHeaderContentType (ascii ''text/plain'') (ascii ''hi'')"
  obtain w: "wire = AppendToStream (r_client_header r1) [] @ r_client_data ?r" "request_ok (r_client_header r1)" "plain (r_client_header r1)"
    "payload_read no_decoder (Request_new True :: (unit, unit) Request) (r_client_header r1) (r_client_data ?r) [] (r_client_data ?r) STATE_BODY_END sample_parser"
    by (rule request_wire [OF sample_plain disjI1 [OF sample_body(1)] sample_body(2) disjI2 [OF sample_body(3)] sample_parser_fresh assms(1)])
  from message_prefix [OF w(2,3) sample_parser_fresh assms(2) w(4)] assms(3) w(1) show ?thesis
    by (cases "length a < length wire") (fastforce simp: not_less)+
qed

text \<open>C8 (roundtrip): a request with a body of known length, from end to end. What \<open>AppendClientRequest\<close>
  writes for a request whose content is not compressed or chunked is parsed by \<open>ParseClientRequest\<close>, in
  whatever pieces it arrives and whatever follows it: the parser ends in \<open>STATE_BODY_END\<close>, the body
  is the body that was sent, the header is the header that was sent, and exactly the bytes of the
  request are consumed. The request has a well-formed header within the parser's limit, a body
  within the limit, and either announces its length or carries no length field of its own.\<close>

theorem request_roundtrip:
  assumes "sendable r" and "\<not> IsChunkedTransfer (r_client_header r)"
    and "has_length r \<or> FindField kHeaderContentLength (r_client_header r) = None"
    and "length (r_client_data r) < 2 ^ 63" and "p_max_body_size p < 0 \<or> int (length (r_client_data r)) \<le> p_max_body_size p"
    and "fresh_parser p" and "AppendClientRequest e [] m r = Some (wire, r1)"
    and "length (AppendToStream (r_client_header r1) []) \<le> p_max_header_size p" and "concat ps = wire @ rest"
  shows "\<exists>r' p'. feed (client_call z) (req, p) [] ps = Some (True, rest, (r', p')) \<and> p_parse_state p' = STATE_BODY_END \<and>
    r_client_data r' = r_client_data r \<and> same_message (r_client_header r') (r_client_header r1)"
proof -
  obtain w: "wire = AppendToStream (r_client_header r1) [] @ r_client_data r" "request_ok (r_client_header r1)" "plain (r_client_header r1)"
    "payload_read z req (r_client_header r1) (r_client_data r) rest (r_client_data r) STATE_BODY_END p"
    by (rule request_wire [OF assms(1-7)])
  from feed_message [OF w(2,3) assms(6,8) w(4), of ps] w(1) assms(9) show ?thesis by simp
qed

theorem request_roundtrip_witness:
  "\<exists>r' p'. feed (client_call no_decoder) (Request_new True :: (unit, unit) Request, sample_parser) []
      [lines [''POST /x HTTP/1.1'', ''Accept-Encoding: gzip, deflate''] @ ascii ''Con'',
       ascii ''tent-Length: 2'' @ crlf @ lines [''Content-Type: text/plain'', []] @ ascii ''hiGET''] = Some (True, ascii ''GET'', (r', p')) \<and>
     r_client_data r' = ascii ''hi''"
proof -
  let ?r = "sample_request kHeaderContentType (ascii ''text/plain'') (ascii ''hi'')"
  obtain wire r1 where w: "AppendClientRequest no_encoder [] 0 ?r = Some (wire, r1)"
    "wire = lines [''POST /x HTTP/1.1'', ''Accept-Encoding: gzip, deflate'', ''Content-Length: 2'', ''Content-Type: text/plain'', []] @ ascii ''hi''"
    "length (AppendToStream (r_client_header r1) []) \<le> p_max_header_size sample_parser"
    using sample_plain_wire by blast
  have c: "concat [lines [''POST /x HTTP/1.1'', ''Accept-Encoding: gzip, deflate''] @ ascii ''Con'',
       ascii ''tent-Length: 2'' @ crlf @ lines [''Content-Type: text/plain'', []] @ ascii ''hiGET''] = wire @ ascii ''GET''" by (simp add: w(2) lines_def ascii_def crlf_def)
  show ?thesis
    using request_roundtrip [OF sample_plain disjI1 [OF sample_body(1)] sample_body(2) disjI2 [OF sample_body(3)] sample_parser_fresh w(1,3) c, where z = no_decoder and req = "Request_new True"] sample_body(4) by (auto simp: ascii_def)
qed


section \<open>A request in chunks\<close>

text \<open>The number of chunks that a piece of data becomes.\<close>

definition n_chunks :: "int \<Rightarrow> bytes \<Rightarrow> nat" where
  "n_chunks m d = (length d + chunk_limit m - 1) div chunk_limit m"

lemma chunk_limit_pos: "0 < chunk_limit m"
  by (simp add: chunk_limit_def kMaxInt32_def)

definition pieces_of :: "int \<Rightarrow> bytes \<Rightarrow> bytes list \<Rightarrow> bool" where
  "pieces_of m d cs \<longleftrightarrow> concat cs = d \<and> (\<forall>c \<in> set cs. c \<noteq> [] \<and> length c \<le> min (chunk_limit m) (length d)) \<and> length cs = n_chunks m d"

lemma append_chunks_pieces_of: "\<exists>cs. append_chunks d out True (chunk_limit m) = Some (out @ chunks cs) \<and> pieces_of m d cs"
proof -
  obtain cs where cs: "append_chunks d out True (chunk_limit m) = Some (out @ chunks cs)" "concat cs = d"
      "\<forall>c \<in> set cs. c \<noteq> [] \<and> length c \<le> chunk_limit m" "length cs = (length d + chunk_limit m - 1) div chunk_limit m"
    using append_chunks_pieces [OF chunk_limit_pos] by blast
  have "length c \<le> length d" if "c \<in> set cs" for c
  proof -
    from that obtain xs ys where "cs = xs @ c # ys" by (auto dest: split_list)
    then have "d = concat xs @ c @ concat ys" using cs(2) by auto
    then show ?thesis by simp
  qed
  with cs show ?thesis by (auto simp: pieces_of_def n_chunks_def)
qed

definition chunking :: "('e, 'd) Request \<Rightarrow> bool" where
  "chunking r \<longleftrightarrow> r_compress_option r = COMPRESS_NONE \<and> h_version (r_client_header r) = VERSION_1_1"

lemma AppendClientChunk_plain:
  assumes "chunking r"
  shows "r_client_data r = d \<Longrightarrow> d \<noteq> [] \<Longrightarrow>
      \<exists>cs. AppendClientChunk z out m r = Some (False, out @ chunks cs, r\<lparr>r_client_data := []\<rparr>) \<and> pieces_of m d cs"
    and "r_client_data r = [] \<Longrightarrow>
      \<exists>r'. AppendClientChunk z out m r = Some (True, out @ last_chunk, r') \<and> r_client_header r' = r_client_header r"
  using assms append_chunks_pieces_of [of d out m]
  by (auto simp: AppendClientChunk_def AppendChunkHelper_def chunking_def Let_def)

text \<open>The rest of a body, written piece by piece, and the end of it.\<close>

fun send_stream :: "('e, 'd) encoder \<Rightarrow> bytes \<Rightarrow> int \<Rightarrow> ('e, 'd) Request \<Rightarrow> bytes list \<Rightarrow> (bytes \<times> ('e, 'd) Request) option" where
  "send_stream z out m r [] = map_option snd (AppendClientChunk z out m (r\<lparr>r_client_data := []\<rparr>))"
| "send_stream z out m r (d # ds) =
     Option.bind (AppendClientChunk z out m (r\<lparr>r_client_data := d\<rparr>)) (\<lambda>(_, out', r'). send_stream z out' m r' ds)"

definition limits :: "int \<Rightarrow> bytes list \<Rightarrow> bytes list \<Rightarrow> bool" where
  "limits m ds cs \<longleftrightarrow> (\<forall>c \<in> set cs. c \<noteq> [] \<and> (\<exists>d \<in> set ds. length c \<le> min (chunk_limit m) (length d))) \<and>
     length cs = sum_list (map (n_chunks m) ds)"

lemma limits_Cons: "pieces_of m d cs \<Longrightarrow> limits m ds cs' \<Longrightarrow> limits m (d # ds) (cs @ cs')"
  by (auto simp: limits_def pieces_of_def)

lemma send_stream_plain:
  assumes "chunking r" and "\<forall>d \<in> set ds. d \<noteq> []"
  shows "\<exists>cs r'. send_stream z out m r ds = Some (out @ chunks cs @ last_chunk, r') \<and> concat cs = concat ds \<and> limits m ds cs"
  using assms
proof (induction ds arbitrary: out r)
  case Nil
  have "chunking (r\<lparr>r_client_data := []\<rparr>)" using Nil by (simp add: chunking_def)
  from AppendClientChunk_plain(2) [OF this, of z out m] show ?case by (auto simp: limits_def intro!: exI [of _ "[]"])
next
  case (Cons d ds)
  let ?r = "r\<lparr>r_client_data := d\<rparr>"
  have c: "chunking ?r" "chunking (?r\<lparr>r_client_data := []\<rparr>)" using Cons.prems by (simp_all add: chunking_def)
  from AppendClientChunk_plain(1) [OF c(1), of d z out m] Cons.prems(2) obtain cs where
    cs: "AppendClientChunk z out m ?r = Some (False, out @ chunks cs, ?r\<lparr>r_client_data := []\<rparr>)" "pieces_of m d cs" by auto
  from Cons.IH [OF c(2), of "out @ chunks cs"] Cons.prems(2) obtain cs' r' where
    "send_stream z (out @ chunks cs) m (?r\<lparr>r_client_data := []\<rparr>) ds = Some (out @ chunks cs @ chunks cs' @ last_chunk, r')"
    "concat cs' = concat ds" "limits m ds cs'" by auto
  with cs limits_Cons [OF cs(2)] show ?case by (intro exI [of _ "cs @ cs'"] exI [of _ r']) (simp add: pieces_of_def)
qed

lemma client_chunk_loop_plain:
  assumes "chunking r"
  shows "\<exists>cs. client_chunk_loop z out m r = Some (out @ chunks cs, r\<lparr>r_client_data := []\<rparr>) \<and> pieces_of m (r_client_data r) cs"
proof (cases "r_client_data r = []")
  case True
  moreover have "r\<lparr>r_client_data := []\<rparr> = r" using True by (cases r) simp
  moreover have "n_chunks m [] = 0" using chunk_limit_pos [of m] by (simp add: n_chunks_def)
  ultimately show ?thesis by (intro exI [of _ "[]"]) (simp add: client_chunk_loop.simps pieces_of_def)
next
  case False
  from AppendClientChunk_plain(1) [OF assms refl False, of z out m] obtain cs where
    "AppendClientChunk z out m r = Some (False, out @ chunks cs, r\<lparr>r_client_data := []\<rparr>)" "pieces_of m (r_client_data r) cs" by blast
  with False show ?thesis
    by (intro exI [of _ cs]) (simp add: client_chunk_loop.simps [of z out m r] client_chunk_loop.simps [of z "out @ chunks cs"])
qed

lemma AppendClientRequest_chunked:
  assumes "sendable r" and "IsChunkedTransfer (r_client_header r)" and "h_version (r_client_header r) = VERSION_1_1"
  obtains h cs r' where "AppendClientRequest z out m r = Some (AppendToStream h out @ chunks cs, r')"
    and "pieces_of m (r_client_data r) cs" and "request_ok h" and "IsChunkedTransfer h"
    and "map_of (h_fields h) kHeaderContentEncoding = None" and "chunking r'" and "r_client_header r' = h"
proof -
  obtain r2 where r2: "Option.bind (prepare_client_encoding z r) (\<lambda>r1. update_client
       (if r_server_use_gzip_encoding r1 then set_field kHeaderAcceptEncoding (ascii ''gzip, deflate'')
        else clear_field kHeaderAcceptEncoding) r1) = Some r2"
    and s2: "sendable r2" "r_compress_option r2 = COMPRESS_NONE" "r_client_data r2 = r_client_data r"
      "h_version (r_client_header r2) = h_version (r_client_header r)"
    and f2: "\<And>n. n \<noteq> kHeaderAcceptEncoding \<Longrightarrow> map_of (h_fields (r_client_header r2)) n = map_of (h_fields (r_client_header r)) n"
    by (rule prepare_client [OF assms(1), of z]) blast
  let ?h2 = "r_client_header r2" and ?r2 = "r2\<lparr>r_in_chunk_encoding := True\<rparr>"
  have c: "IsChunkedTransfer ?h2"
    using assms(2) f2 [of kHeaderTransferEncoding] by (simp add: IsChunkedTransfer_def field_or_empty_def FindField_def)
  have ch: "chunking ?r2" using s2 assms(3) by (simp add: chunking_def)
  from client_chunk_loop_plain [OF ch, of z "AppendToStream ?h2 out" m] s2(3) obtain cs where
    cs: "client_chunk_loop z (AppendToStream ?h2 out) m ?r2 = Some (AppendToStream ?h2 out @ chunks cs, ?r2\<lparr>r_client_data := []\<rparr>)"
      "pieces_of m (r_client_data r) cs" by auto
  from r2 obtain r1 where r1: "prepare_client_encoding z r = Some r1" "update_client
       (if r_server_use_gzip_encoding r1 then set_field kHeaderAcceptEncoding (ascii ''gzip, deflate'')
        else clear_field kHeaderAcceptEncoding) r1 = Some r2" by (auto simp: bind_eq_Some_conv)
  have fl: "h_first_line (r_client_header r) = REQUEST_LINE" "\<not> r_in_chunk_encoding r"
    using assms(1) by (simp_all add: sendable_def request_ok_def)
  obtain st where "AppendClientRequest z out m r = Some (AppendToStream ?h2 out @ chunks cs, ?r2\<lparr>r_client_data := [], r_stats := st\<rparr>)"
    unfolding AppendClientRequest_def using fl r1 c cs(1) s2(4) assms(3) by simp
  with cs(2) c s2(1,2,4) assms(3) show thesis
    by (intro that [of ?h2 cs "?r2\<lparr>r_client_data := [], r_stats := st\<rparr>"]) (simp_all add: sendable_def chunking_def)
qed

lemma BeginPayload_chunked:
  assumes "map_of (h_fields g) kHeaderContentEncoding = None" and "IsChunkedTransfer g"
  shows "BeginPayload g p = (None, set_parse_state STATE_CHUNK_HEAD_READING p)"
proof -
  have "IsKnownTransferEncoding g"
    using assms(2) by (auto simp: IsKnownTransferEncoding_def IsChunkedTransfer_def field_or_empty_def Let_def split: option.split)
  with assms plain_no_encoding [OF assms(1)] show ?thesis by (simp add: BeginPayload_def)
qed

lemma chunked_payload:
  assumes "BeginPayload g p = (None, q)" and "p_parse_state p = STATE_END_OF_HEADER" and "before_chunk q" and "chunks_fit cs q"
    and "plain g" and "a @ b = (chunks cs @ last_chunk) @ rest"
  shows "length a < length (chunks cs @ last_chunk) \<Longrightarrow> \<exists>i s. payload_call z req a g out p = Some (False, i, s)"
    and "length (chunks cs @ last_chunk) \<le> length a \<Longrightarrow> \<exists>p'. payload_call z req a g out p =
      Some (True, drop (length (chunks cs @ last_chunk)) a, (req\<lparr>r_client_header := g, r_client_data := out @ concat cs\<rparr>, p')) \<and>
      p_parse_state p' = STATE_END_OF_TRAIL_HEADER"
proof -
  have m: "a @ b = chunks cs @ last_chunk @ rest" using assms(6) by simp
  have e: "ParsePayloadInternal z a g out p = ParseChunksInternal z a g out q"
    using ParsePayloadInternal_begin(1) [OF assms(2,1)] ParsePayloadInternal_chunks [of q] assms(3) by simp
  from chunks_prefix [OF assms(3-5) m, of out z]
  obtain r i h' out' p' where x: "ParseChunksInternal z a g out q = Some (r, i, h', out', p')" "\<not> InErrorState p'"
    "if length (chunks cs @ last_chunk) \<le> length a
     then p_parse_state p' = STATE_END_OF_TRAIL_HEADER \<and> i = drop (length (chunks cs @ last_chunk)) a \<and> out' = out @ concat cs \<and> h' = g
     else \<not> InFinalState p'"
    unfolding chunks_done_def by blast
  show "\<exists>i s. payload_call z req a g out p = Some (False, i, s)" if "length a < length (chunks cs @ last_chunk)"
    using x that by (simp add: payload_call_def e del: length_append)
  show "\<exists>p'. payload_call z req a g out p =
      Some (True, drop (length (chunks cs @ last_chunk)) a, (req\<lparr>r_client_header := g, r_client_data := out @ concat cs\<rparr>, p')) \<and>
      p_parse_state p' = STATE_END_OF_TRAIL_HEADER" if "length (chunks cs @ last_chunk) \<le> length a"
  proof -
    from x that have "p_parse_state p' = STATE_END_OF_TRAIL_HEADER" "i = drop (length (chunks cs @ last_chunk)) a" "out' = out @ concat cs" "h' = g"
      by simp_all
    moreover from this(1) have "InFinalState p'" by (simp add: InFinalState_def)
    ultimately show ?thesis using x(1,2) by (simp add: payload_call_def e del: length_append)
  qed
qed

lemma request_text_long: "request_ok h \<Longrightarrow> 11 \<le> length (AppendToStream h [])"
  by (cases "h_version h") (auto simp: request_ok_def first_line_ok_def AppendToStream_def ComposeFirstLine_def crlf_def ascii_def)

lemma limits_fit:
  assumes "limits m ds cs" and "\<forall>d \<in> set ds. min (chunk_limit m) (length d) < 2 ^ 31 \<and> int (min (chunk_limit m) (length d)) \<le> p_max_chunk_size p"
    and "p_max_num_chunks p < 0 \<or> int (sum_list (map (n_chunks m) ds)) \<le> p_max_num_chunks p" and "p_num_chunks_read p = 0"
  shows "chunks_fit cs p"
proof -
  have "c \<noteq> [] \<and> length c < 2 ^ 31 \<and> int (length c) \<le> p_max_chunk_size p" if c: "c \<in> set cs" for c
  proof -
    from assms(1) c obtain d where "d \<in> set ds" "length c \<le> min (chunk_limit m) (length d)" "c \<noteq> []" by (auto simp: limits_def)
    with assms(2) show ?thesis by fastforce
  qed
  then show ?thesis using assms(1,3,4) by (auto simp: chunks_fit_def limits_def)
qed

lemma sample_chunked:
  "sendable (sample_request kHeaderTransferEncoding (ascii ''chunked'') d)"
  "IsChunkedTransfer (r_client_header (sample_request kHeaderTransferEncoding (ascii ''chunked'') d))"
  "h_version (r_client_header (sample_request kHeaderTransferEncoding (ascii ''chunked'') d)) = VERSION_1_1"
  by (simp_all add: evaluation sendable_def request_ok_def first_line_ok_def fields_ok_def field_ok_def IsChunkedTransfer_def field_or_empty_def FindField_def StrTrim_def isspace_def c_str_def StrCasePrefix.simps)

lemma sample_chunked_wire:
  "\<exists>w r1 r2. AppendClientRequest no_encoder [] 3 (sample_request kHeaderTransferEncoding (ascii ''chunked'') (ascii ''hello'')) = Some (w, r1) \<and>
     send_stream no_encoder w 3 r1 [ascii ''!''] = Some (lines [''POST /x HTTP/1.1'', ''Accept-Encoding: gzip, deflate'', ''Transfer-Encoding: chunked'', [],
       ''03'', ''hel'', ''02'', ''lo'', ''01'', ''!'', ''0'', []], r2) \<and>
     length (AppendToStream (r_client_header r1) []) \<le> p_max_header_size sample_parser"
  by (simp add: evaluation writing lines_def sample_parser_def RequestParser_new_def client_chunk_loop.simps AppendClientChunk_def
    AppendChunkHelper_def append_chunks.simps BufferAppendChunk_def chunk_head_def chunk_limit_def last_chunk_def)


end
