(* ===== verification/Utf8.thy ===== *)
theory Utf8
  imports Prelude
begin

unbundle bit_operations_syntax

text \<open>
  Model of the UTF-8 part of \<open>src/whisperlib/base/strutil.cc\<close> (\<open>strutil::i18n\<close>). A code point
  (\<open>wint_t\<close>, \<open>wchar_t\<close>) is a \<open>32 word\<close>. A pointer into a string is the rest of the string from
  there; behind the last byte the code reads the terminating zero of \<open>c_str\<close>, which the empty
  rest stands for. The case tables and the table of spaces, built from the C library, are
  arguments.
\<close>

section \<open>Code points\<close>

type_synonym codepoint = "32 word"

definition WEOF :: codepoint where
  "WEOF = 0xffffffff"

definition Utf8CharLen :: "byte \<Rightarrow> nat \<times> byte" where
  "Utf8CharLen p =
     (if p \<le> 0x7f then (1, p AND 0x7f)
      else if p AND 0xe0 = 0xc0 then (2, p AND 0x1f)
      else if p AND 0xf0 = 0xe0 then (3, p AND 0x0f)
      else if p AND 0xf8 = 0xf0 then (4, p AND 0x07)
      else if p AND 0xfc = 0xf8 then (5, p AND 0x03)
      else if p AND 0xfe = 0xfc then (6, p AND 0x01)
      else (0, 0))"

text \<open>The bytes behind the first one: how many are missing, the value so far, the rest of the string.\<close>

fun utf8_tail :: "nat \<Rightarrow> codepoint \<Rightarrow> bytes \<Rightarrow> codepoint \<times> bytes" where
  "utf8_tail 0 cp s = (cp, s)"
| "utf8_tail (Suc n) cp [] = (WEOF, [])"
| "utf8_tail (Suc n) cp (c # s) =
     (if c AND 0xc0 \<noteq> 0x80 then (WEOF, c # s)
      else utf8_tail n (push_bit 6 cp OR ucast (c AND 0x3f)) s)"

text \<open>The code point at the start of a string that is not empty, and the rest.\<close>

fun Utf8ToCodePoint :: "bytes \<Rightarrow> codepoint \<times> bytes" where
  "Utf8ToCodePoint [] = (0, [])"
| "Utf8ToCodePoint (c # s) =
     (case Utf8CharLen c of (0, _) \<Rightarrow> (WEOF, s) | (Suc n, v) \<Rightarrow> utf8_tail n (ucast v) s)"

definition CodePointToUtf8 :: "codepoint \<Rightarrow> bytes" where
  "CodePointToUtf8 c =
     (if c \<le> 0x7f then [ucast c]
      else if c \<le> 0x7ff then
        [ucast (0xc0 OR (drop_bit 6 c AND 0x1f)), ucast (0x80 OR (c AND 0x3f))]
      else if c \<le> 0xffff then
        [ucast (0xe0 OR (drop_bit 12 c AND 0x0f)), ucast (0x80 OR (drop_bit 6 c AND 0x3f)), ucast (0x80 OR (c AND 0x3f))]
      else if c \<le> 0x1fffff then
        [ucast (0xf0 OR (drop_bit 18 c AND 0x07)), ucast (0x80 OR (drop_bit 12 c AND 0x3f)),
         ucast (0x80 OR (drop_bit 6 c AND 0x3f)), ucast (0x80 OR (c AND 0x3f))]
      else if c \<le> 0x3ffffff then
        [ucast (0xf8 OR (drop_bit 24 c AND 0x03)), ucast (0x80 OR (drop_bit 18 c AND 0x3f)),
         ucast (0x80 OR (drop_bit 12 c AND 0x3f)), ucast (0x80 OR (drop_bit 6 c AND 0x3f)), ucast (0x80 OR (c AND 0x3f))]
      else if c \<le> 0x7fffffff then
        [ucast (0xfc OR (drop_bit 30 c AND 0x01)), ucast (0x80 OR (drop_bit 24 c AND 0x3f)),
         ucast (0x80 OR (drop_bit 18 c AND 0x3f)), ucast (0x80 OR (drop_bit 12 c AND 0x3f)),
         ucast (0x80 OR (drop_bit 6 c AND 0x3f)), ucast (0x80 OR (c AND 0x3f))]
      else [])"

lemma utf8_tail_le: "length (snd (utf8_tail n cp s)) \<le> length s"
  by (induction n cp s rule: utf8_tail.induct) auto

lemma Utf8ToCodePoint_less: "s \<noteq> [] \<Longrightarrow> length (snd (Utf8ToCodePoint s)) < length s"
  using utf8_tail_le by (cases s) (auto split: prod.split nat.split simp: le_imp_less_Suc)

section \<open>Strings\<close>

text \<open>The code points of a string, with \<open>WEOF\<close> where the string is not valid.\<close>

function utf8_scan :: "bytes \<Rightarrow> codepoint list" where
  "utf8_scan s = (if s = [] then [] else case Utf8ToCodePoint s of (cp, s') \<Rightarrow> cp # utf8_scan s')"
  by pat_completeness auto
termination
  by (relation "measure length") (auto dest!: sym [of "(_, _)"] dest: Utf8ToCodePoint_less)

declare utf8_scan.simps [simp del]

lemma utf8_scan_Nil [simp]: "utf8_scan [] = []"
  by (simp add: utf8_scan.simps)

text \<open>\<open>Utf8ToWcharWithLen\<close> leaves out what is not valid.\<close>

definition Utf8ToWcharWithLen :: "bytes \<Rightarrow> codepoint list" where
  "Utf8ToWcharWithLen s = filter (\<lambda>c. c \<noteq> WEOF) (utf8_scan s)"

text \<open>The wide string that a \<open>wchar_t*\<close> without a length stands for ends at its first zero.\<close>

definition Utf8ToWchar :: "bytes \<Rightarrow> codepoint list" where
  "Utf8ToWchar s = takeWhile (\<lambda>c. c \<noteq> 0) (Utf8ToWcharWithLen s)"

definition WcharToUtf8StringWithLen :: "codepoint list \<Rightarrow> nat \<Rightarrow> bytes" where
  "WcharToUtf8StringWithLen s len = concat (map CodePointToUtf8 (takeWhile (\<lambda>c. c \<noteq> 0) (take len s)))"

definition WcharToUtf8String :: "codepoint list \<Rightarrow> bytes" where
  "WcharToUtf8String s = concat (map CodePointToUtf8 (takeWhile (\<lambda>c. c \<noteq> 0) s))"

definition IsUtf8Valid :: "bytes \<Rightarrow> bool" where
  "IsUtf8Valid s \<longleftrightarrow> WEOF \<notin> set (utf8_scan s)"

definition ToUpperStr :: "(codepoint \<Rightarrow> codepoint) \<Rightarrow> bytes \<Rightarrow> bytes" where
  "ToUpperStr to_upper s = concat (map (\<lambda>c. CodePointToUtf8 (to_upper c)) (filter (\<lambda>c. c \<noteq> WEOF) (utf8_scan s)))"

definition ToLowerStr :: "(codepoint \<Rightarrow> codepoint) \<Rightarrow> bytes \<Rightarrow> bytes" where
  "ToLowerStr to_lower s = concat (map (\<lambda>c. CodePointToUtf8 (to_lower c)) (filter (\<lambda>c. c \<noteq> WEOF) (utf8_scan s)))"

definition Iso8859_1ToUtf8 :: "bytes \<Rightarrow> bytes" where
  "Iso8859_1ToUtf8 s =
     concat (map (\<lambda>c. if c < 0x80 then [c] else if c < 0xc0 then [0xc2, 0x80 + (c AND 0x3f)] else [0xc3, 0x80 + (c AND 0x3f)]) s)"

text \<open>
  \<open>Utf8Strlen\<close> counts the characters of a C string and returns zero for one that is not valid;
  the inner loop skips the bytes behind the first one.
\<close>

fun skip_tail :: "nat \<Rightarrow> bytes \<Rightarrow> bytes option" where
  "skip_tail 0 s = Some s"
| "skip_tail (Suc n) [] = None"
| "skip_tail (Suc n) (c # s) = (if c AND 0xc0 \<noteq> 0x80 then None else skip_tail n s)"

lemma skip_tail_le: "skip_tail n s = Some s' \<Longrightarrow> length s' \<le> length s"
  by (induction n s rule: skip_tail.induct) (auto split: if_splits)

function utf8_strlen_loop :: "bytes \<Rightarrow> nat \<Rightarrow> nat" where
  "utf8_strlen_loop [] len = len"
| "utf8_strlen_loop (c # s) len =
     (case fst (Utf8CharLen c) of
        0 \<Rightarrow> 0
      | Suc n \<Rightarrow> (case skip_tail n s of None \<Rightarrow> 0 | Some s' \<Rightarrow> utf8_strlen_loop s' (len + 1)))"
  by pat_completeness auto
termination
  by (relation "measure (\<lambda>(s, _). length s)") (auto dest: skip_tail_le)

definition Utf8Strlen :: "bytes \<Rightarrow> nat" where
  "Utf8Strlen s = utf8_strlen_loop (takeWhile (\<lambda>c. c \<noteq> 0) s) 0"

text \<open>How far \<open>Utf8StrPrefix\<close> moves: the offset may pass the end of the string.\<close>

fun utf8_prefix_loop :: "bytes \<Rightarrow> nat \<Rightarrow> nat \<Rightarrow> nat option" where
  "utf8_prefix_loop s p 0 = Some p"
| "utf8_prefix_loop s p (Suc n) =
     (if p < length s
      then case fst (Utf8CharLen (s ! p)) of 0 \<Rightarrow> None | Suc k \<Rightarrow> utf8_prefix_loop s (p + Suc k) n
      else Some p)"

definition Utf8StrPrefix :: "bytes \<Rightarrow> nat \<Rightarrow> bytes" where
  "Utf8StrPrefix s prefix_size =
     (case utf8_prefix_loop s 0 prefix_size of
        None \<Rightarrow> []
      | Some p \<Rightarrow> if p > length s then [] else take p s)"

text \<open>
  \<open>Utf8SplitPairs\<close>, and the splitting into terms: \<open>term\<close> is the text since \<open>starter\<close>, \<open>None\<close>
  when \<open>starter\<close> is not set. A character that is not valid drops the term it is in.
\<close>

function split_pairs_loop :: "codepoint \<Rightarrow> bytes \<Rightarrow> bytes \<Rightarrow> (bytes \<times> bytes) option" where
  "split_pairs_loop split before s =
     (if s = [] then None
      else case Utf8ToCodePoint s of (cp, s') \<Rightarrow>
        if cp = split then Some (before, s')
        else split_pairs_loop split (before @ take (length s - length s') s) s')"
  by pat_completeness auto
termination
  by (relation "measure (\<lambda>(_, _, s). length s)") (auto dest!: sym [of "(_, _)"] dest: Utf8ToCodePoint_less)

declare split_pairs_loop.simps [simp del]

definition Utf8SplitPairs :: "bytes \<Rightarrow> codepoint \<Rightarrow> bytes \<times> bytes" where
  "Utf8SplitPairs s split = (case split_pairs_loop split [] s of None \<Rightarrow> (s, []) | Some r \<Rightarrow> r)"

function split_terms :: "(codepoint \<Rightarrow> bool) \<Rightarrow> bytes option \<Rightarrow> bytes \<Rightarrow> bytes list" where
  "split_terms is_split term s =
     (if s = [] then (case term of None \<Rightarrow> [] | Some t \<Rightarrow> [t])
      else case Utf8ToCodePoint s of (cp, s') \<Rightarrow>
        let c = take (length s - length s') s in
        if cp = WEOF then split_terms is_split None s'
        else if is_split cp
        then (case term of None \<Rightarrow> split_terms is_split None s' | Some t \<Rightarrow> t # split_terms is_split None s')
        else split_terms is_split (Some (case term of None \<Rightarrow> c | Some t \<Rightarrow> t @ c)) s')"
  by pat_completeness auto
termination
  by (relation "measure (\<lambda>(_, _, s). length s)") (auto dest!: sym [of "(_, _)"] dest: Utf8ToCodePoint_less)

declare split_terms.simps [simp del]

definition Utf8SplitOnWChars :: "bytes \<Rightarrow> codepoint list \<Rightarrow> bytes list" where
  "Utf8SplitOnWChars s splits = split_terms (\<lambda>c. c \<in> set (takeWhile (\<lambda>c. c \<noteq> 0) splits)) None s"

definition Utf8SplitOnWhitespace :: "(codepoint \<Rightarrow> bool) \<Rightarrow> bytes \<Rightarrow> bytes list" where
  "Utf8SplitOnWhitespace is_space s = split_terms is_space None s"

end
