(* ===== verification/Utf8Props.thy ===== *)
theory Utf8Props
  imports Utf8
begin

text \<open>
  Properties of the UTF-8 functions: every code point of 31 bits is read back from what is
  written for it, and so are the strings, their validity, their length and their terms.
\<close>

section \<open>One code point\<close>

lemma low_bits:
  "(0x3f :: codepoint) = mask 6" "(0x1f :: codepoint) = mask 5" "(0x0f :: codepoint) = mask 4" "(0x07 :: codepoint) = mask 3"
  "(0x03 :: codepoint) = mask 2" "(0x7f :: codepoint) = mask 7"
  by (simp_all add: mask_eq_exp_minus_1)

lemma no_high_bit:
  assumes "c < 2 ^ k" and "bit (c :: codepoint) n"
  shows "n < k"
proof (cases "k < 32")
  case True
  have "(2 :: nat) ^ k < 2 ^ 32" by (rule power_strict_increasing) (simp_all add: True)
  then have "unat (word_of_nat (2 ^ k) :: codepoint) = 2 ^ k" 
    by (simp only: unsigned_of_nat) (simp add: take_bit_nat_eq_self True)
  with assms(1) have "unat c < 2 ^ k" by (simp add: word_less_nat_alt)
  then have "take_bit k c = c" by (simp add: word_unat_eq_iff unsigned_take_bit_eq take_bit_nat_eq_self)
  with assms(2) show ?thesis using bit_take_bit_iff [of k c n] by simp
next
  case False
  then show ?thesis using bit_imp_le_length [OF assms(2)] by simp
qed

lemma byte_eq_iff: "(a :: byte) = b \<longleftrightarrow> bit a 0 = bit b 0 \<and> bit a 1 = bit b 1 \<and> bit a 2 = bit b 2 \<and> bit a 3 = bit b 3 \<and>
    bit a 4 = bit b 4 \<and> bit a 5 = bit b 5 \<and> bit a 6 = bit b 6 \<and> bit a 7 = bit b 7"
  using byte_eqI [of a b] by blast

lemma ascii_byte: "(p :: byte) \<le> 0x7f \<longleftrightarrow> \<not> bit p 7"
proof -
  have "unat p div 128 < 2" by (rule less_mult_imp_div_less) simp
  moreover have "0 < unat p div 128 \<longleftrightarrow> 128 \<le> unat p" by (simp add: div_greater_zero_iff)
  ultimately have "unat p div 128 = (if 128 \<le> unat p then 1 else 0)" by auto
  then have "bit (unat p) 7 \<longleftrightarrow> 128 \<le> unat p" by (simp add: bit_iff_odd)
  then show ?thesis by (auto simp: bit_simps word_le_nat_alt)
qed

text \<open>A byte behind the first one carries six bits.\<close>

definition tail_byte :: "codepoint \<Rightarrow> byte" where
  "tail_byte x = ucast (0x80 OR (x AND 0x3f))"

lemma tail_byte [simp]: "tail_byte x AND 0xc0 = 0x80" "ucast (tail_byte x AND 0x3f) = x AND 0x3f"
proof -
  show "tail_byte x AND 0xc0 = 0x80"
    by (rule byte_eqI; simp add: bit_simps tail_byte_def)
  have "tail_byte x AND 0x3f = ucast (x AND 0x3f)"
    by (rule byte_eqI; simp add: bit_simps tail_byte_def)
  moreover have "ucast (ucast (x AND mask 6) :: byte) = x AND mask 6"
    by (rule bit_word_eqI) (auto simp: bit_simps)
  ultimately show "ucast (tail_byte x AND 0x3f) = x AND 0x3f"
    by (simp add: low_bits)
qed

lemma utf8_tail_byte [simp]:
  "utf8_tail (Suc n) cp (tail_byte x # s) = utf8_tail n (push_bit 6 cp OR (x AND 0x3f)) s"
  "utf8_tail (numeral k) cp (tail_byte x # s) = utf8_tail (pred_numeral k) (push_bit 6 cp OR (x AND 0x3f)) s"
  by (simp_all add: numeral_eq_Suc)

lemma lead_byte:
  "Utf8CharLen (ucast (0xc0 OR (x AND 0x1f) :: codepoint)) = (2, ucast (x AND 0x1f))"
  "Utf8CharLen (ucast (0xe0 OR (x AND 0x0f) :: codepoint)) = (3, ucast (x AND 0x0f))"
  "Utf8CharLen (ucast (0xf0 OR (x AND 0x07) :: codepoint)) = (4, ucast (x AND 0x07))"
  "Utf8CharLen (ucast (0xf8 OR (x AND 0x03) :: codepoint)) = (5, ucast (x AND 0x03))"
  "Utf8CharLen (ucast (0xfc OR (x AND 0x01) :: codepoint)) = (6, ucast (x AND 0x01))"
  by (simp_all add: Utf8CharLen_def ascii_byte byte_eq_iff bit_simps)


lemma lead_value [simp]:
  "ucast (ucast (x AND 0x1f :: codepoint) :: byte) = x AND 0x1f" "ucast (ucast (x AND 0x0f :: codepoint) :: byte) = x AND 0x0f"
  "ucast (ucast (x AND 0x07 :: codepoint) :: byte) = x AND 0x07" "ucast (ucast (x AND 0x03 :: codepoint) :: byte) = x AND 0x03"
  "ucast (ucast (x AND 0x01 :: codepoint) :: byte) = x AND 0x01"
  unfolding low_bits by (rule bit_word_eqI, auto simp: bit_simps)+

text \<open>The value is put together from the top, six bits at a time.\<close>

lemma top_bits:
  assumes "c < 2 ^ (k + m)"
  shows "drop_bit k (c :: codepoint) AND mask m = drop_bit k c"
  by (rule bit_word_eqI) (auto simp: bit_simps dest: no_high_bit [OF assms])

lemma join_bits: "push_bit 6 (drop_bit (k + 6) c) OR (drop_bit k c AND 0x3f) = drop_bit k (c :: codepoint)"
  unfolding low_bits
proof (rule bit_word_eqI)
  fix n assume "n < LENGTH(32)"
  moreover have "\<not> n < 6 \<Longrightarrow> k + 6 + (n - 6) = k + n" by simp
  ultimately show "bit (push_bit 6 (drop_bit (k + 6) c) OR (drop_bit k c AND mask 6)) n = bit (drop_bit k c) n"
    by (cases "n < 6") (simp_all add: bit_simps)
qed

lemmas join_steps = join_bits [of 24, simplified] join_bits [of 18, simplified] join_bits [of 12, simplified]
  join_bits [of 6, simplified] join_bits [of 0, simplified]

lemmas top_steps = top_bits [of _ 30 1] top_bits [of _ 24 2] top_bits [of _ 18 3] top_bits [of _ 12 4] top_bits [of _ 6 5]

lemma le_pow: "c \<le> 0x7fffffff \<Longrightarrow> c < 2 ^ 31" "c \<le> 0x3ffffff \<Longrightarrow> c < 2 ^ 26" "c \<le> 0x1fffff \<Longrightarrow> c < 2 ^ 21"
  "c \<le> 0xffff \<Longrightarrow> c < 2 ^ 16" "c \<le> 0x7ff \<Longrightarrow> c < 2 ^ 11" "c \<le> 0x7f \<Longrightarrow> c < 2 ^ 7" for c :: codepoint
  by (simp_all add: word_le_nat_alt word_less_nat_alt)

lemma CodePointToUtf8_tail: "CodePointToUtf8 c =
     (if c \<le> 0x7f then [ucast c]
      else if c \<le> 0x7ff then [ucast (0xc0 OR (drop_bit 6 c AND 0x1f)), tail_byte c]
      else if c \<le> 0xffff then [ucast (0xe0 OR (drop_bit 12 c AND 0x0f)), tail_byte (drop_bit 6 c), tail_byte c]
      else if c \<le> 0x1fffff then
        [ucast (0xf0 OR (drop_bit 18 c AND 0x07)), tail_byte (drop_bit 12 c), tail_byte (drop_bit 6 c), tail_byte c]
      else if c \<le> 0x3ffffff then
        [ucast (0xf8 OR (drop_bit 24 c AND 0x03)), tail_byte (drop_bit 18 c), tail_byte (drop_bit 12 c), tail_byte (drop_bit 6 c), tail_byte c]
      else if c \<le> 0x7fffffff then
        [ucast (0xfc OR (drop_bit 30 c AND 0x01)), tail_byte (drop_bit 24 c), tail_byte (drop_bit 18 c), tail_byte (drop_bit 12 c),
         tail_byte (drop_bit 6 c), tail_byte c]
      else [])"
  by (simp only: CodePointToUtf8_def tail_byte_def)

lemma ascii_point:
  assumes "c < 2 ^ 7"
  shows "Utf8CharLen (ucast c) = (1, ucast c)" and "ucast (ucast c :: byte) = (c :: codepoint)"
proof -
  have b: "\<not> bit c n" if "7 \<le> n" for n using no_high_bit [OF assms, of n] that by auto
  show "Utf8CharLen (ucast c) = (1, ucast c)"
    using b [of 7] by (simp add: Utf8CharLen_def ascii_byte byte_eq_iff bit_simps)
  show "ucast (ucast c :: byte) = c" by (rule bit_word_eqI) (auto simp: bit_simps dest: no_high_bit [OF assms])
qed

lemma Utf8ToCodePoint_CodePointToUtf8:
  assumes "c \<le> 0x7fffffff"
  shows "Utf8ToCodePoint (CodePointToUtf8 c @ s) = (c, s)"
proof -
  consider "c \<le> 0x7f" | "\<not> c \<le> 0x7f" "c \<le> 0x7ff" | "\<not> c \<le> 0x7ff" "c \<le> 0xffff" | "\<not> c \<le> 0xffff" "c \<le> 0x1fffff"
    | "\<not> c \<le> 0x1fffff" "c \<le> 0x3ffffff" | "\<not> c \<le> 0x3ffffff" "c \<le> 0x7fffffff"
    using assms by blast
  then show ?thesis
  proof cases
    case 1
    then show ?thesis using ascii_point [OF le_pow(6)] by (simp add: CodePointToUtf8_tail)
  next
    case 2
    then show ?thesis using top_bits [of c 6 5] join_steps [of c] le_pow(5)
      by (simp add: CodePointToUtf8_tail lead_byte del: push_bit_and push_bit_or) (simp add: low_bits del: push_bit_and push_bit_or)
  next
    case 3
    then have "\<not> c \<le> 0x7f" by (auto simp: word_le_nat_alt)
    with 3 show ?thesis using top_bits [of c 12 4] join_steps [of c] le_pow(4)
      by (simp add: CodePointToUtf8_tail lead_byte del: push_bit_and push_bit_or) (simp add: low_bits del: push_bit_and push_bit_or)
  next
    case 4
    then have "\<not> c \<le> 0x7f" "\<not> c \<le> 0x7ff" by (auto simp: word_le_nat_alt)
    with 4 show ?thesis using top_bits [of c 18 3] join_steps [of c] le_pow(3)
      by (simp add: CodePointToUtf8_tail lead_byte del: push_bit_and push_bit_or) (simp add: low_bits del: push_bit_and push_bit_or)
  next
    case 5
    then have "\<not> c \<le> 0x7f" "\<not> c \<le> 0x7ff" "\<not> c \<le> 0xffff" by (auto simp: word_le_nat_alt)
    with 5 show ?thesis using top_bits [of c 24 2] join_steps [of c] le_pow(2)
      by (simp add: CodePointToUtf8_tail lead_byte del: push_bit_and push_bit_or) (simp add: low_bits del: push_bit_and push_bit_or)
  next
    case 6
    then have "\<not> c \<le> 0x7f" "\<not> c \<le> 0x7ff" "\<not> c \<le> 0xffff" "\<not> c \<le> 0x1fffff" by (auto simp: word_le_nat_alt)
    moreover have "drop_bit 30 c AND 1 = drop_bit 30 c" using top_bits [of c 30 1] le_pow(1) [OF 6(2)] by simp
    ultimately show ?thesis using 6 join_steps [of c] lead_byte(5) [of "drop_bit 30 c"] lead_value(5) [of "drop_bit 30 c"]
      by (simp add: CodePointToUtf8_tail del: push_bit_and push_bit_or)
  qed
qed


section \<open>Strings\<close>

definition encode :: "codepoint list \<Rightarrow> bytes" where
  "encode cs = concat (map CodePointToUtf8 cs)"

definition points_ok :: "codepoint list \<Rightarrow> bool" where
  "points_ok cs \<longleftrightarrow> (\<forall>c \<in> set cs. c \<noteq> 0 \<and> c \<le> 0x7fffffff)"

lemma encode_simps [simp]: "encode [] = []" "encode (c # cs) = CodePointToUtf8 c @ encode cs" "encode (cs @ ds) = encode cs @ encode ds"
  by (simp_all add: encode_def)

lemma CodePointToUtf8_not_Nil: "c \<le> 0x7fffffff \<Longrightarrow> CodePointToUtf8 c \<noteq> []"
  by (simp add: CodePointToUtf8_tail)

lemma utf8_scan_encode: "\<forall>c \<in> set cs. c \<le> 0x7fffffff \<Longrightarrow> utf8_scan (encode cs) = cs"
  by (induction cs) (simp_all add: utf8_scan.simps [of "CodePointToUtf8 _ @ _"] CodePointToUtf8_not_Nil Utf8ToCodePoint_CodePointToUtf8)

lemma WEOF_big: "\<not> WEOF \<le> 0x7fffffff"
  by (simp add: WEOF_def)

text \<open>Validity, length and the absence of zeros.\<close>

lemma skip_tail_utf8: "utf8_tail n cp s = (c, s') \<Longrightarrow> c \<noteq> WEOF \<Longrightarrow> skip_tail n s = Some s'"
  by (induction n cp s rule: utf8_tail.induct) (auto split: if_splits)

lemma strlen_step:
  assumes "Utf8ToCodePoint s = (c, s')" and "c \<noteq> WEOF" and "s \<noteq> []"
  shows "utf8_strlen_loop s n = utf8_strlen_loop s' (n + 1)"
proof -
  obtain b t where s: "s = b # t" using assms(3) by (cases s) auto
  obtain k v where k: "Utf8CharLen b = (Suc k, v)" "utf8_tail k (ucast v) t = (c, s')"
    using assms(1,2) s by (auto split: prod.splits nat.splits)
  show ?thesis using skip_tail_utf8 [OF k(2) assms(2)] k(1) s by simp
qed

lemma utf8_strlen_encode: "\<forall>c \<in> set cs. c \<le> 0x7fffffff \<Longrightarrow> utf8_strlen_loop (encode cs) n = n + length cs"
proof (induction cs arbitrary: n)
  case (Cons c cs)
  then have "c \<le> 0x7fffffff" "c \<noteq> WEOF" using WEOF_big by auto
  with Cons strlen_step [OF Utf8ToCodePoint_CodePointToUtf8, of c "encode cs" n] CodePointToUtf8_not_Nil [of c] show ?case by simp
qed simp

lemma lead_not_0: "Utf8CharLen b = (n, v) \<Longrightarrow> n \<noteq> 1 \<Longrightarrow> b \<noteq> 0"
  by (auto simp: Utf8CharLen_def)

lemma tail_byte_not_0: "tail_byte x \<noteq> 0"
proof
  assume "tail_byte x = 0"
  with tail_byte(1) [of x] show False by simp
qed

lemma no_zero_byte: "c \<noteq> 0 \<Longrightarrow> c \<le> 0x7fffffff \<Longrightarrow> 0 \<notin> set (CodePointToUtf8 c)"
  using ascii_point(2) [OF le_pow(6), of c] lead_byte [THEN lead_not_0] tail_byte_not_0
  by (auto simp: CodePointToUtf8_tail)

lemma encode_no_zero: "points_ok cs \<Longrightarrow> 0 \<notin> set (encode cs)"
  by (induction cs) (auto simp: points_ok_def dest: no_zero_byte)

lemma WcharToUtf8String_encode: "points_ok cs \<Longrightarrow> WcharToUtf8String cs = encode cs"
  by (simp add: WcharToUtf8String_def encode_def points_ok_def takeWhile_eq_all_conv [THEN iffD2])

text \<open>C33 (roundtrip): wide strings and UTF-8. A wide string of code points up to \<open>0x7fffffff\<close>, none of
  them zero, is written by \<open>WcharToUtf8String\<close> as a valid UTF-8 string with \<open>Utf8Strlen\<close> characters, and
  \<open>Utf8ToWchar\<close> reads it back unchanged.\<close>

theorem utf8_roundtrip:
  assumes "\<forall>c \<in> set cs. c \<noteq> 0 \<and> c \<le> 0x7fffffff"
  shows "Utf8ToWchar (WcharToUtf8String cs) = cs \<and> IsUtf8Valid (WcharToUtf8String cs) \<and> Utf8Strlen (WcharToUtf8String cs) = length cs"
proof -
  have ok: "points_ok cs" using assms by (simp add: points_ok_def)
  have scan: "utf8_scan (encode cs) = cs" using assms utf8_scan_encode by blast
  have nz: "WEOF \<notin> set cs" "0 \<notin> set cs" using assms WEOF_big by auto
  have "filter (\<lambda>c. c \<noteq> WEOF) cs = cs" "takeWhile (\<lambda>c. c \<noteq> 0) cs = cs" using nz by (auto simp: filter_id_conv takeWhile_eq_all_conv)
  then have "Utf8ToWchar (encode cs) = cs" unfolding Utf8ToWchar_def Utf8ToWcharWithLen_def scan by simp
  moreover have "takeWhile (\<lambda>c. c \<noteq> 0) (encode cs) = encode cs" using encode_no_zero [OF ok] by (auto simp: takeWhile_eq_all_conv)
  then have "Utf8Strlen (encode cs) = length cs" unfolding Utf8Strlen_def using utf8_strlen_encode [of cs 0] assms by (simp only:) simp
  ultimately show ?thesis using nz(1) scan by (simp add: IsUtf8Valid_def WcharToUtf8String_encode [OF ok])
qed

theorem utf8_roundtrip_witness:
  "Utf8ToWchar (WcharToUtf8String [0x41, 0xe9, 0x20ac, 0x1f600]) = [0x41, 0xe9, 0x20ac, 0x1f600]"
  using utf8_roundtrip [of "[0x41, 0xe9, 0x20ac, 0x1f600]"] by simp

end
