(* ===== verification/StrUtil.thy ===== *)
theory StrUtil
  imports HttpConsts Utf8 "HOL-Library.Sublist"
begin

text \<open>
  Model of the string functions of \<open>src/whisperlib/base/strutil.h\<close> and \<open>strutil.cc\<close>: searching,
  splitting and joining, paths, escapes, JSON strings. A \<open>std::string\<close> is a byte sequence; a C
  string is one without zeros. \<open>std::string::find\<close> and \<open>rfind\<close> are \<open>find_sub\<close> and \<open>rfind_sub\<close>.
\<close>

section \<open>Searching\<close>

fun find_sub :: "'a list \<Rightarrow> 'a list \<Rightarrow> nat option" where
  "find_sub pat [] = (if pat = [] then Some 0 else None)"
| "find_sub pat (c # s) = (if prefix pat (c # s) then Some 0 else map_option Suc (find_sub pat s))"

definition find_from :: "'a list \<Rightarrow> 'a list \<Rightarrow> nat \<Rightarrow> nat option" where
  "find_from pat s pos = (if pos > length s then None else map_option (\<lambda>i. pos + i) (find_sub pat (drop pos s)))"

definition rfind_sub :: "'a list \<Rightarrow> 'a list \<Rightarrow> nat option" where
  "rfind_sub pat s = map_option (\<lambda>i. length s - i - length pat) (find_sub (rev pat) (rev s))"

text \<open>The string compared with a C string that may end early.\<close>

definition StrPrefix :: "bytes \<Rightarrow> bytes \<Rightarrow> bool" where
  "StrPrefix str pre \<longleftrightarrow> prefix pre str"

definition StrSuffix :: "bytes \<Rightarrow> bytes \<Rightarrow> bool" where
  "StrSuffix str suff \<longleftrightarrow> length suff \<le> length str \<and> drop (length str - length suff) str = suff"

definition StrTrimChars :: "bytes \<Rightarrow> bytes \<Rightarrow> bytes" where
  "StrTrimChars str chars =
     (let t = (\<lambda>c. c = 0 \<or> c \<in> set chars) in rev (dropWhile t (rev (dropWhile t str))))"

definition StrTrimCompress :: "bytes \<Rightarrow> bytes" where
  "StrTrimCompress str = filter (\<lambda>c. \<not> isspace c) str"

definition StrTrimCRLF :: "bytes \<Rightarrow> bytes" where
  "StrTrimCRLF s = rev (dropWhile (\<lambda>c. c = 10 \<or> c = 13) (rev s))"

definition StrTrimComment :: "bytes \<Rightarrow> byte \<Rightarrow> bytes" where
  "StrTrimComment str comment_char = takeWhile (\<lambda>c. c \<noteq> comment_char) str"

text \<open>\<open>StrReplaceAll\<close>: for an empty \<open>find_what\<close> the loop finds it again and again.\<close>

function replace_loop :: "bytes \<Rightarrow> bytes \<Rightarrow> bytes \<Rightarrow> bytes" where
  "replace_loop find_what replace_with s =
     (if find_what = [] then s
      else case find_sub find_what s of
             None \<Rightarrow> s
           | Some i \<Rightarrow> take i s @ replace_with @ replace_loop find_what replace_with (drop (i + length find_what) s))"
  by pat_completeness auto

lemma find_sub_Some: "find_sub pat s = Some i \<Longrightarrow> s = take i s @ pat @ drop (i + length pat) s \<and> i + length pat \<le> length s"
proof (induction pat s arbitrary: i rule: find_sub.induct)
  case (2 pat c s)
  show ?case
  proof (cases "prefix pat (c # s)")
    case True
    with 2 obtain t where "c # s = pat @ t" "i = 0" by (auto simp: prefix_def)
    then show ?thesis by (metis append_Nil append_eq_conv_conj length_append le_add1 take0 add_0)
  next
    case False
    with 2 obtain j where "find_sub pat s = Some j" "i = Suc j" by auto
    with 2(1) [OF False, of j] show ?thesis by simp
  qed
qed (auto split: if_splits)

lemma find_sub_less: "find_sub pat s = Some i \<Longrightarrow> pat \<noteq> [] \<Longrightarrow> i < length s"
  by (drule find_sub_Some) (cases pat, auto)

lemma find_sub_drop: "find_sub pat s = Some i \<Longrightarrow> pat \<noteq> [] \<Longrightarrow> length s - (i + length pat) < length s"
  using find_sub_less [of pat s i] by (cases pat) (auto simp: diff_less)

termination replace_loop
  by (relation "measure (\<lambda>(_, _, s). length s)") (auto dest: find_sub_drop)

declare replace_loop.simps [simp del]

definition StrReplaceAll :: "bytes \<Rightarrow> bytes \<Rightarrow> bytes \<Rightarrow> bytes option" where
  "StrReplaceAll str find_what replace_with =
     (if find_what = [] then None else Some (replace_loop find_what replace_with str))"

section \<open>Splitting and joining\<close>

fun JoinStrings :: "bytes list \<Rightarrow> bytes \<Rightarrow> bytes" where
  "JoinStrings [] glue = []"
| "JoinStrings [p] glue = p"
| "JoinStrings (p # q # ps) glue = p @ glue @ JoinStrings (q # ps) glue"

function split_loop :: "bytes \<Rightarrow> bytes \<Rightarrow> bytes list" where
  "split_loop separator s =
     (if separator = [] then [s]
      else case find_sub separator s of
             None \<Rightarrow> [s]
           | Some i \<Rightarrow> take i s # split_loop separator (drop (i + length separator) s))"
  by pat_completeness auto
termination
  by (relation "measure (\<lambda>(_, s). length s)") (auto dest: find_sub_drop)

declare split_loop.simps [simp del]

definition SplitString :: "bytes \<Rightarrow> bytes \<Rightarrow> bytes list" where
  "SplitString s separator =
     (if s = [] then []
      else if separator = [] then map (\<lambda>c. [c]) s
      else split_loop separator s)"

text \<open>The second part starts one byte behind the start of the separator.\<close>

definition SplitFirst :: "bytes \<Rightarrow> bytes \<Rightarrow> bytes \<times> bytes" where
  "SplitFirst s separator =
     (case find_sub separator s of None \<Rightarrow> (s, []) | Some i \<Rightarrow> (take i s, drop (i + 1) s))"

definition SplitLast :: "bytes \<Rightarrow> bytes \<Rightarrow> bytes \<times> bytes" where
  "SplitLast s separator =
     (case rfind_sub separator s of None \<Rightarrow> (s, []) | Some i \<Rightarrow> (take i s, drop (i + 1) s))"

definition SplitPairs :: "bytes \<Rightarrow> bytes \<Rightarrow> bytes \<Rightarrow> (bytes \<times> bytes) list" where
  "SplitPairs s elements_separator pair_separator = map (\<lambda>e. SplitFirst e pair_separator) (SplitString s elements_separator)"

text \<open>\<open>SplitStringOnAny\<close>: the separators, the word so far, the rest of the text.\<close>

fun split_any :: "(byte \<Rightarrow> bool) \<Rightarrow> bool \<Rightarrow> bytes \<Rightarrow> bytes \<Rightarrow> bytes list" where
  "split_any sep skip_empty word [] = (if word = [] then [] else [word])"
| "split_any sep skip_empty word (c # s) =
     (if sep c
      then (if word \<noteq> [] \<or> \<not> skip_empty then [word] else []) @ split_any sep skip_empty [] s
      else split_any sep skip_empty (word @ [c]) s)"

definition SplitStringOnAny :: "bytes \<Rightarrow> bytes \<Rightarrow> bool \<Rightarrow> bytes list" where
  "SplitStringOnAny text separators skip_empty = split_any (\<lambda>c. c \<in> set (c_str separators)) skip_empty [] text"

text \<open>\<open>SplitBracketedString\<close>: the depth, the piece so far, the rest.\<close>

fun split_bracketed :: "byte \<Rightarrow> byte \<Rightarrow> byte \<Rightarrow> int \<Rightarrow> bytes \<Rightarrow> bytes \<Rightarrow> bool \<times> bytes list" where
  "split_bracketed separator open_b close_b depth piece [] =
     (depth = 0, if depth = 0 \<and> piece \<noteq> [] then [piece] else [])"
| "split_bracketed separator open_b close_b depth piece (c # s) =
     (if c = open_b then split_bracketed separator open_b close_b (depth + 1) (piece @ [c]) s
      else if c = close_b then
        (if depth - 1 < 0 then (False, []) else split_bracketed separator open_b close_b (depth - 1) (piece @ [c]) s)
      else if c = separator \<and> depth = 0 then
        apsnd (Cons piece) (split_bracketed separator open_b close_b depth [] s)
      else split_bracketed separator open_b close_b depth (piece @ [c]) s)"

definition SplitBracketedString :: "bytes \<Rightarrow> byte \<Rightarrow> byte \<Rightarrow> byte \<Rightarrow> bool \<times> bytes list" where
  "SplitBracketedString s separator open_b close_b = split_bracketed separator open_b close_b 0 [] (c_str s)"

definition RemoveOutermostBrackets :: "bytes \<Rightarrow> byte \<Rightarrow> byte \<Rightarrow> bytes" where
  "RemoveOutermostBrackets s open_b close_b =
     (if length s > 2 \<and> hd s = open_b \<and> last s = close_b then take (length s - 2) (drop 1 s) else s)"


section \<open>Paths\<close>

text \<open>Cutting a piece of length \<open>n\<close> at the first occurrence of a pattern, as long as there is one.\<close>

function cut_loop :: "bytes \<Rightarrow> nat \<Rightarrow> nat \<Rightarrow> bytes \<Rightarrow> bytes" where
  "cut_loop pat from n s =
     (case find_from pat s from of
        None \<Rightarrow> s
      | Some i \<Rightarrow> if n = 0 \<or> length pat < n then s else cut_loop pat from n (take i s @ drop (i + n) s))"
  by pat_completeness auto

lemma find_from_Some: "find_from pat s k = Some i \<Longrightarrow> s = take i s @ pat @ drop (i + length pat) s \<and> k \<le> i \<and> i + length pat \<le> length s"
proof -
  assume "find_from pat s k = Some i"
  then obtain j where j: "k \<le> length s" "find_sub pat (drop k s) = Some j" "i = k + j"
    by (auto simp: find_from_def split: if_splits)
  note p = find_sub_Some [OF j(2)]
  have "s = take k s @ drop k s" by simp
  also have "\<dots> = take k s @ take j (drop k s) @ pat @ drop (j + length pat) (drop k s)" using p by simp
  also have "\<dots> = take i s @ pat @ drop (i + length pat) s" using j(3) take_add [of k j s] by (simp add: add.commute add.left_commute)
  finally show ?thesis using p j by auto
qed

termination cut_loop
  by (relation "measure (\<lambda>(_, _, _, s). length s)") (auto dest!: find_from_Some)

declare cut_loop.simps [simp del]

text \<open>\<open>find_last_of\<close> one character in the part up to and with position \<open>k\<close>.\<close>

definition find_last_of :: "byte \<Rightarrow> bytes \<Rightarrow> nat \<Rightarrow> nat option" where
  "find_last_of c s k = rfind_sub [c] (take (k + 1) s)"

text \<open>The removal of a directory and the \<open>/../\<close> behind it; \<open>None\<close> when only the root is left.\<close>

function dotdot_loop :: "byte \<Rightarrow> bytes \<Rightarrow> bytes option" where
  "dotdot_loop sep s =
     (case find_sub [sep, 46, 46, sep] s of
        None \<Rightarrow> Some s
      | Some i \<Rightarrow>
          if i = 0 then None
          else (case find_last_of sep s (i - 1) of
                  None \<Rightarrow> None
                | Some j \<Rightarrow> dotdot_loop sep (take j s @ drop (i + 3) s)))"
  by pat_completeness auto

lemma rfind_le: "rfind_sub pat s = Some i \<Longrightarrow> i + length pat \<le> length s"
  using find_sub_Some [of "rev pat" "rev s"] by (auto simp: rfind_sub_def)

termination dotdot_loop
  by (relation "measure (\<lambda>(_, s). length s)") (auto dest!: find_sub_Some rfind_le simp: find_last_of_def)

declare dotdot_loop.simps [simp del]

text \<open>The end of \<open>NormalizePath\<close>: a last \<open>/.\<close> or \<open>/..\<close>.\<close>

definition ends_at :: "bytes \<Rightarrow> bytes \<Rightarrow> bool" where
  "ends_at pat s = (case rfind_sub pat s of None \<Rightarrow> False | Some i \<Rightarrow> i + length pat = length s)"

definition normalize_end :: "byte \<Rightarrow> bytes \<Rightarrow> bytes option" where
  "normalize_end sep s =
     (let s1 = (if ends_at [sep, 46] s then take (length s - 2) s else s) in
      if ends_at [sep, 46, 46] s1 then
        let i = length s1 - 3 in
        if i = 0 then None
        else map_option (\<lambda>j. take j s1) (find_last_of sep s1 (i - 1))
      else Some s1)"

definition NormalizePath :: "bytes \<Rightarrow> byte \<Rightarrow> bytes" where
  "NormalizePath path sep =
     (let s0 = map (\<lambda>c. if c = 92 then sep else c) path;
          slash_added = (s0 = [] \<or> hd s0 \<noteq> sep);
          s1 = (if slash_added then sep # s0 else s0);
          s2 = cut_loop [sep, sep, sep] 0 2 s1;
          s3 = cut_loop [sep, sep] 1 1 s2;
          s4 = cut_loop [sep, 46, sep] 0 2 s3
      in case Option.bind (dotdot_loop sep s4) (normalize_end sep) of
           None \<Rightarrow> if slash_added then [] else [sep]
         | Some s5 \<Rightarrow>
             let s6 = (if \<not> slash_added \<and> s5 = [] then [sep] else s5) in
             if \<not> slash_added \<or> s6 = [] then s6 else tl s6)"

definition NormalizeUrlPath :: "bytes \<Rightarrow> bytes" where
  "NormalizeUrlPath path =
     (if path = [] then [47]
      else
        let ret = NormalizePath path 47; i = length (takeWhile (\<lambda>c. c = 47) ret) in
        if i \<ge> length ret then [47] else if i = 0 then ret else drop (i - 1) ret)"

definition JoinPaths :: "bytes \<Rightarrow> bytes \<Rightarrow> byte \<Rightarrow> bytes" where
  "JoinPaths path1 path2 sep =
     (if path1 = [] then path2
      else if path2 = [] then path1
      else if path1 = [sep] then path1 @ path2
      else if last path1 = sep \<or> hd path2 = sep then path1 @ path2
      else path1 @ [sep] @ path2)"

definition Basename :: "bytes \<Rightarrow> bytes" where
  "Basename filename = (case rfind_sub [47] (c_str filename) of None \<Rightarrow> c_str filename | Some i \<Rightarrow> drop (i + 1) (c_str filename))"

definition Dirname :: "bytes \<Rightarrow> bytes" where
  "Dirname filename = (case rfind_sub [47] filename of None \<Rightarrow> [] | Some i \<Rightarrow> take i filename)"

definition CutExtension :: "bytes \<Rightarrow> bytes" where
  "CutExtension filename = (case rfind_sub [46] filename of None \<Rightarrow> filename | Some i \<Rightarrow> take i filename)"

definition Extension :: "bytes \<Rightarrow> bytes" where
  "Extension filename = (case rfind_sub [46] filename of None \<Rightarrow> [] | Some i \<Rightarrow> drop (i + 1) filename)"


section \<open>Order\<close>

function GetNextInLexicographicOrder :: "bytes \<Rightarrow> bytes" where
  "GetNextInLexicographicOrder p =
     (if p = [] then []
      else if last p = 0xff then GetNextInLexicographicOrder (butlast p)
      else butlast p @ [last p + 1])"
  by pat_completeness auto
termination
  by (relation "measure length") auto

declare GetNextInLexicographicOrder.simps [simp del]

section \<open>Escapes\<close>

text \<open>
  Two hexadecimal digits, as \<open>"%02x"\<close> prints a byte, and the value of a digit. A \<open>char\<close> is signed:
  the bytes from 128 on are less than 32.
\<close>

definition hex2 :: "byte \<Rightarrow> bytes" where
  "hex2 b = [digit_char (unat b div 16), digit_char (unat b mod 16)]"

definition hexval :: "byte \<Rightarrow> byte" where
  "hexval c =
     (if 48 \<le> c \<and> c \<le> 57 then c - 48
      else if 97 \<le> c \<and> c \<le> 102 then 10 + c - 97
      else if 65 \<le> c \<and> c \<le> 70 then 10 + c - 65
      else 0)"

definition escaped :: "byte \<Rightarrow> bytes \<Rightarrow> byte \<Rightarrow> bool" where
  "escaped esc chars_to_escape c \<longleftrightarrow> c \<in> set (c_str chars_to_escape) \<or> c = esc \<or> sint c < 32 \<or> sint c > 126"

definition StrNEscape :: "bytes \<Rightarrow> byte \<Rightarrow> bytes \<Rightarrow> bytes" where
  "StrNEscape text esc chars_to_escape =
     concat (map (\<lambda>c. if escaped esc chars_to_escape c then esc # hex2 c else [c]) text)"

text \<open>
  The loop of \<open>StrUnescape\<close>: how many characters behind the escape character were read, the
  character before, the rest. An escape character inside an escape starts a new one.
\<close>

fun unescape_loop :: "byte \<Rightarrow> nat \<Rightarrow> byte \<Rightarrow> bytes \<Rightarrow> bytes" where
  "unescape_loop esc n prev [] = []"
| "unescape_loop esc n prev (c # s) =
     (if c = esc then unescape_loop esc 1 c s
      else if n = 0 then c # unescape_loop esc 0 c s
      else if n = 2 then (hexval c + 16 * hexval prev) # unescape_loop esc 0 c s
      else unescape_loop esc (n + 1) c s)"

definition StrUnescape :: "bytes \<Rightarrow> byte \<Rightarrow> bytes" where
  "StrUnescape text esc = unescape_loop esc 0 0 (c_str text)"

section \<open>JSON strings\<close>

definition kHexChars :: bytes where
  "kHexChars = ascii ''0123456789abcdef''"

definition hex4 :: "codepoint \<Rightarrow> bytes" where
  "hex4 c =
     [kHexChars ! unat (drop_bit 12 c AND 0xf), kHexChars ! unat (drop_bit 8 c AND 0xf),
      kHexChars ! unat (drop_bit 4 c AND 0xf), kHexChars ! unat (c AND 0xf)]"

text \<open>The escape of one wide character, a signed number.\<close>

definition json_escape :: "codepoint \<Rightarrow> bytes" where
  "json_escape c =
     (if 32 \<le> sint c \<and> sint c \<le> 126 \<and> c \<noteq> 92 \<and> c \<noteq> 34 then [ucast c]
      else [92] @
        (if c = 92 \<or> c = 34 then [ucast c]
         else if c = 8 then [98] else if c = 12 then [102] else if c = 10 then [110] else if c = 13 then [114]
         else if c = 9 then [116]
         else if sint c \<ge> 0x10000 then
           let v = c - 0x10000 in
           [117] @ hex4 (0xd800 OR (drop_bit 10 v AND 0x3ff)) @ [92, 117] @ hex4 (0xdc00 OR (v AND 0x3ff))
         else [117] @ hex4 c))"

definition JsonStrEscape :: "bytes \<Rightarrow> bytes" where
  "JsonStrEscape text = concat (map json_escape (Utf8ToWchar text))"

text \<open>
  The value that \<open>JsonStrUnescape\<close> reads from four digits is computed in \<open>int\<close> and kept in 16
  bits, with shifts of 24, 16 and 8. What it writes for a value.
\<close>

definition json_value :: "byte \<Rightarrow> byte \<Rightarrow> byte \<Rightarrow> byte \<Rightarrow> 16 word" where
  "json_value a b c d =
     ucast (ucast (ucast (push_bit 24 (ucast (hexval a) :: 32 word)) :: 16 word) + push_bit 16 (ucast (hexval b)) +
       push_bit 8 (ucast (hexval c)) + (ucast (hexval d) :: 32 word))"

definition json_utf8 :: "16 word \<Rightarrow> bytes" where
  "json_utf8 v =
     (if v < 0x7f then [ucast v]
      else if v < 0x7ff then [ucast (0xc0 + drop_bit 6 v), ucast (v AND 0x3f)]
      else if v < 0xffff then [ucast (0xe0 + drop_bit 12 v), ucast (0x80 + (drop_bit 6 v AND 0x3f)), ucast (0x80 + (v AND 0x3f))]
      else [])"

definition json_unescape1 :: "byte \<Rightarrow> byte" where
  "json_unescape1 c =
     (if c = 98 then 8 else if c = 102 then 12 else if c = 110 then 10 else if c = 114 then 13 else if c = 116 then 9 else c)"

fun json_unescape :: "bytes \<Rightarrow> bytes" where
  "json_unescape [] = []"
| "json_unescape (c # s) =
     (if c \<noteq> 92 then c # json_unescape s
      else case s of
             [] \<Rightarrow> []
           | e # t \<Rightarrow>
               if e \<noteq> 117 then json_unescape1 e # json_unescape t
               else case t of
                      h1 # h2 # h3 # h4 # u \<Rightarrow> json_utf8 (json_value h1 h2 h3 h4) @ json_unescape u
                    | _ \<Rightarrow> json_unescape t)"

definition JsonStrUnescape :: "bytes \<Rightarrow> bytes" where
  "JsonStrUnescape text = json_unescape text"

text \<open>\<open>XmlStrEscape\<close>; what is not valid UTF-8 is left out by \<open>CodePointToUtf8\<close>.\<close>

definition xml_escape :: "codepoint \<Rightarrow> bytes" where
  "xml_escape c =
     (if c = 38 then ascii ''&amp;'' else if c = 34 then ascii ''&quot;'' else if c = 39 then ascii ''&apos;''
      else if c = 60 then ascii ''&lt;'' else if c = 62 then ascii ''&gt;'' else CodePointToUtf8 c)"

definition XmlStrEscape :: "bytes \<Rightarrow> bytes" where
  "XmlStrEscape original = concat (map xml_escape (utf8_scan original))"

end
