(* ===== verification/StrUtilProps.thy ===== *)
theory StrUtilProps
  imports StrUtil Utf8Props
begin

text \<open>
  Properties of the string functions: splitting and joining, escaping and unescaping, the
  successor in the lexicographic order, normalized paths, JSON strings.
\<close>

section \<open>Escapes\<close>

lemma digit_char_range: "n < 16 \<Longrightarrow> digit_char n \<in> {48..57} \<union> {97..102}"
  by (auto simp: word_le_nat_alt unat_digit_char)

lemma hexval_digit:
  assumes "n < 16"
  shows "hexval (digit_char n) = word_of_nat n"
proof (cases "n < 10")
  case True
  with assms show ?thesis by (simp add: hexval_def word_le_nat_alt unat_digit_char) (simp add: digit_char_def)
next
  case False
  with assms show ?thesis by (simp add: hexval_def word_le_nat_alt unat_digit_char) (simp add: digit_char_def)
qed

lemma hex_digits: "unat (b :: byte) div 16 < 16" "unat b mod 16 < 16"
  by (rule less_mult_imp_div_less) simp_all

lemma hex2_value: "hexval (digit_char (unat b mod 16)) + 16 * hexval (digit_char (unat b div 16)) = b"
proof -
  have "word_of_nat (unat b mod 16) + 16 * word_of_nat (unat b div 16) = (word_of_nat (unat b mod 16 + 16 * (unat b div 16)) :: byte)"
    by (simp only: of_nat_add of_nat_mult of_nat_numeral)
  also have "\<dots> = b" by (simp only: mod_mult_div_eq) simp
  finally show ?thesis by (simp only: hexval_digit hex_digits)
qed

text \<open>An escape character that is no digit of an escape.\<close>

definition escape_ok :: "byte \<Rightarrow> bool" where
  "escape_ok esc \<longleftrightarrow> esc \<noteq> 0 \<and> esc \<notin> {48..57} \<union> {97..102}"

lemma unescape_prev: "unescape_loop esc 0 p s = unescape_loop esc 0 q s"
  by (cases s) simp_all

lemma unescape_hex2:
  assumes "escape_ok esc"
  shows "unescape_loop esc 0 p (esc # hex2 c @ s) = c # unescape_loop esc 0 q s"
proof -
  have "digit_char (unat c div 16) \<noteq> esc" "digit_char (unat c mod 16) \<noteq> esc"
    using assms digit_char_range [OF hex_digits(1)] digit_char_range [OF hex_digits(2)] unfolding escape_ok_def by blast+
  then show ?thesis using unescape_prev by (simp add: hex2_def hex2_value)
qed

lemma escape_no_zero:
  assumes "escape_ok esc"
  shows "0 \<notin> set (StrNEscape s esc chars)"
proof -
  have "0 \<notin> set (hex2 c)" for c
    using digit_char_range [OF hex_digits(1), of c] digit_char_range [OF hex_digits(2), of c] by (auto simp: hex2_def)
  then show ?thesis using assms by (auto simp: StrNEscape_def escaped_def escape_ok_def)
qed

text \<open>C34 (roundtrip): escaping. Any text, zeros and bytes from 128 on included, is read back by
  \<open>StrUnescape\<close> from what \<open>StrEscape\<close> makes of it with the same escape character and whatever
  characters to escape, if the escape character is neither zero nor a digit that an escape uses.\<close>

theorem StrEscape_roundtrip:
  assumes "esc \<noteq> 0" and "esc \<notin> {48..57} \<union> {97..102}"
  shows "StrUnescape (StrNEscape s esc chars) esc = s"
proof -
  have ok: "escape_ok esc" using assms by (simp add: escape_ok_def)
  have "unescape_loop esc 0 p (StrNEscape s esc chars) = s" for p
  proof (induction s arbitrary: p)
    case (Cons c s)
    have e: "StrNEscape (c # s) esc chars = (if escaped esc chars c then esc # hex2 c else [c]) @ StrNEscape s esc chars"
      by (simp add: StrNEscape_def)
    show ?case
    proof (cases "escaped esc chars c")
      case True
      then show ?thesis using unescape_hex2 [OF ok, of p c "StrNEscape s esc chars" 0] Cons [of 0] by (simp add: e)
    next
      case False
      then show ?thesis using Cons by (simp add: e) (simp add: escaped_def)
    qed
  qed (simp add: StrNEscape_def)
  moreover have "c_str (StrNEscape s esc chars) = StrNEscape s esc chars"
    using escape_no_zero [OF ok] by (auto simp: c_str_def takeWhile_eq_all_conv)
  ultimately show ?thesis by (simp only: StrUnescape_def)
qed

theorem StrEscape_roundtrip_witness: "StrUnescape (StrNEscape [0, 37, 65, 200] 37 (ascii '' &'')) 37 = [0, 37, 65, 200]"
  by (rule StrEscape_roundtrip) (simp_all add: word_le_nat_alt)

section \<open>The next string in the order\<close>

lemma prefix_le: "prefix p s \<Longrightarrow> p \<le> (s :: bytes)"
proof (induction p arbitrary: s)
  case (Cons a p)
  then show ?case by (cases s) auto
qed simp

lemma between_prefix:
  assumes "c \<noteq> 0xff"
  shows "p @ [c] \<le> s \<and> s < p @ [c + 1 :: byte] \<longleftrightarrow> prefix (p @ [c]) s"
proof (induction p arbitrary: s)
  case Nil
  have "unat c \<noteq> 255" using assms by (simp add: word_unat_eq_iff)
  then have "unat c < 255" using unat_byte_less [of c] by linarith
  then have "unat (c + 1) = Suc (unat c)" by (simp add: unat_word_ariths)
  then have f: "a < c + 1 \<longleftrightarrow> a \<le> c" for a by (simp add: word_less_nat_alt word_le_nat_alt less_Suc_eq_le)
  show ?case by (cases s) (auto simp: f)
next
  case (Cons a p)
  show ?case
  proof (cases s)
    case (Cons b t)
    then show ?thesis using Cons.IH [of t] less_not_sym [of a b] by (cases "a = b") simp_all
  qed simp
qed

lemma append_le_iff: "p @ t \<le> p @ u \<longleftrightarrow> t \<le> (u :: bytes)"
  by (induction p) simp_all

lemma max_byte_prefix: "[0xff] \<le> t \<longleftrightarrow> prefix [0xff :: byte] t"
proof (cases t)
  case (Cons a u)
  have "unat a \<le> 255" using unat_byte_less [of a] by linarith
  then have "a \<le> 0xff" by (simp add: word_le_nat_alt)
  then show ?thesis using Cons by (auto simp: less_le_not_le)
qed simp


section \<open>Splitting and joining\<close>

lemma JoinStrings_Cons: "ps \<noteq> [] \<Longrightarrow> JoinStrings (p # ps) g = p @ g @ JoinStrings ps g"
  by (cases ps) simp_all

lemma JoinStrings_chars: "JoinStrings (map (\<lambda>c. [c]) s) [] = s"
proof (induction s)
  case (Cons c s)
  then show ?case by (cases s) simp_all
qed simp

lemma find_sub_None: "find_sub pat s = None \<longleftrightarrow> \<not> sublist pat s"
  by (induction pat s rule: find_sub.induct) (auto simp: sublist_Cons_right)

lemma find_sub_first: "find_sub pat s = Some i \<Longrightarrow> pat \<noteq> [] \<Longrightarrow> \<not> sublist pat (take i s)"
proof (induction pat s arbitrary: i rule: find_sub.induct)
  case (2 pat c s)
  show ?case
  proof (cases "prefix pat (c # s)")
    case False
    with 2 obtain j where j: "find_sub pat s = Some j" "i = Suc j" by auto
    have "\<not> prefix pat (c # take j s)" using False by (metis prefix_order.trans take_Suc_Cons take_is_prefix)
    with 2(1) [OF False j(1) 2(3)] j show ?thesis by (simp add: sublist_Cons_right)
  qed (use 2 in simp)
qed (auto split: if_splits)

text \<open>Splitting a string and joining the pieces with the separator gives the string
  back, for every string and every separator, and no piece contains the separator.\<close>

theorem SplitString_JoinStrings:
  "JoinStrings (SplitString s sep) sep = s \<and> (\<forall>p \<in> set (SplitString s sep). sep = [] \<or> \<not> sublist sep p)"
proof -
  have "JoinStrings (split_loop sep s) sep = s \<and> split_loop sep s \<noteq> [] \<and> (\<forall>p \<in> set (split_loop sep s). \<not> sublist sep p)" if "sep \<noteq> []" for s
    using that
  proof (induction sep s rule: split_loop.induct)
    case (1 sep s)
    show ?case
    proof (cases "find_sub sep s")
      case None
      then show ?thesis using 1(2) find_sub_None [of sep s] by (simp add: split_loop.simps [of sep s])
    next
      case (Some i)
      note IH = 1(1) [OF 1(2) Some 1(2)]
      have "split_loop sep s = take i s # split_loop sep (drop (i + length sep) s)"
        using Some 1(2) by (simp add: split_loop.simps [of sep s])
      then show ?thesis using IH find_sub_first [OF Some 1(2)] find_sub_Some [OF Some] by (simp add: JoinStrings_Cons)
    qed
  qed
  then show ?thesis by (auto simp: SplitString_def JoinStrings_chars)
qed

theorem SplitString_JoinStrings_witness:
  "SplitString (ascii ''a, b,, c'') (ascii '', '') = [ascii ''a'', ascii ''b,'', ascii ''c''] \<and>
   JoinStrings (SplitString (ascii ''a, b,, c'') (ascii '', '')) (ascii '', '') = ascii ''a, b,, c''"
  using SplitString_JoinStrings [of "ascii ''a, b,, c''" "ascii '', ''"]
  by (simp add: ascii_def SplitString_def split_loop.simps)

text \<open>\<open>SplitFirst\<close> is documented to cut the separator out. With a separator of more than one
  byte it cuts only the first of them: the second part starts with the rest of the separator.\<close>

theorem SplitFirst_keeps_separator:
  assumes "find_sub (c # sep) s = Some i"
  shows "SplitFirst s (c # sep) = (take i s, sep @ drop (i + length (c # sep)) s)"
proof -
  from find_sub_Some [OF assms] have "drop i s = c # sep @ drop (i + length (c # sep)) s"
    by (metis append_Cons append_eq_conv_conj add.commute length_take min.absorb2 drop_drop le_add1 le_trans)
  moreover have "drop (i + 1) s = tl (drop i s)" by (simp add: drop_Suc tl_drop)
  ultimately have "drop (i + 1) s = sep @ drop (i + length (c # sep)) s" by (simp only: list.sel)
  with assms show ?thesis by (simp only: SplitFirst_def option.case)
qed

theorem SplitFirst_keeps_separator_witness: "SplitFirst (ascii ''key::value'') (ascii ''::'') = (ascii ''key'', ascii '':value'')"
  using SplitFirst_keeps_separator [of 58 "[58]" "ascii ''key::value''" 3] by (simp add: ascii_def)

section \<open>JSON strings\<close>

definition plain_char :: "byte \<Rightarrow> bool" where
  "plain_char c \<longleftrightarrow> 32 \<le> c \<and> c \<le> 126 \<or> c \<in> {8, 9, 10, 12, 13}"

lemma unat_ucast_point [simp]: "unat (ucast (c :: byte) :: codepoint) = unat c"
proof -
  have "unat c < 2 ^ 32" using unat_byte_less [of c] by (rule less_trans) simp
  then show ?thesis by (simp add: unsigned_ucast_eq take_bit_nat_eq_self)
qed

lemma uint_ucast_point [simp]: "uint (ucast (c :: byte) :: codepoint) = uint c"
  by (metis unat_ucast_point of_nat_unat)

lemma ucast_point: "ucast (ucast (c :: byte) :: codepoint) = c"
  by (rule byte_eqI; simp add: bit_simps)

lemma plain_char_point:
  assumes "plain_char c"
  shows "CodePointToUtf8 (ucast c) = [c]" and "(ucast c :: codepoint) \<noteq> 0" and "(ucast c :: codepoint) \<le> 0x7fffffff"
    and "sint (ucast c :: codepoint) = uint c"
proof -
  have l: "unat c < 128" "unat c \<noteq> 0" using assms by (auto simp: plain_char_def word_le_nat_alt)
  have u: "unat (ucast c :: codepoint) = unat c" by simp
  show "(ucast c :: codepoint) \<noteq> 0" using l(2) u by (metis unat_0)
  show "(ucast c :: codepoint) \<le> 0x7fffffff" using l u by (simp add: word_le_nat_alt)
  have "(ucast c :: codepoint) \<le> 0x7f" using l u by (simp add: word_le_nat_alt)
  then show "CodePointToUtf8 (ucast c) = [c]" by (simp add: CodePointToUtf8_def ucast_point)
  have "uint c < 128" using l(1) by (metis of_nat_less_iff of_nat_numeral of_nat_unat)
  moreover have "- 2147483648 \<le> uint c" by (rule order_trans [OF _ unsigned_greater_eq]) simp
  ultimately show "sint (ucast c :: codepoint) = uint c" by (simp add: sint_uint signed_take_bit_int_eq_self)
qed

lemma Utf8ToWchar_plain:
  assumes "list_all plain_char s"
  shows "Utf8ToWchar s = map ucast s"
proof -
  have "encode (map ucast s) = s" using assms by (induction s) (simp_all add: plain_char_point)
  moreover have "\<forall>c \<in> set (map ucast s). (c :: codepoint) \<noteq> 0 \<and> c \<le> 0x7fffffff"
    using assms by (auto simp: list_all_iff plain_char_point)
  then have nz: "WEOF \<notin> set (map ucast s)" "0 \<notin> set (map ucast s :: codepoint list)" using WEOF_big by blast+
  ultimately have scan: "utf8_scan s = map ucast s"
    using utf8_scan_encode [of "map ucast s"] assms by (simp add: list_all_iff plain_char_point)
  have "filter (\<lambda>c. c \<noteq> WEOF) (map ucast s) = map ucast s" by (rule filter_True) (use nz(1) in blast)
  moreover have "takeWhile (\<lambda>c. c \<noteq> 0) (map ucast s) = (map ucast s :: codepoint list)"
    by (rule takeWhile_eq_all_conv [THEN iffD2]) (use nz(2) in blast)
  ultimately show ?thesis by (simp only: Utf8ToWchar_def Utf8ToWcharWithLen_def scan)
qed

lemma json_plain:
  assumes "plain_char c"
  shows "json_unescape (json_escape (ucast c) @ s) = c # json_unescape s"
proof -
  have eq: "(ucast c :: codepoint) = w \<longleftrightarrow> uint c = uint w" for w by (simp add: word_uint_eq_iff)
  have r: "32 \<le> uint c \<and> uint c \<le> 126 \<or> c = 8 \<or> c = 9 \<or> c = 10 \<or> c = 12 \<or> c = 13"
    using assms by (auto simp: plain_char_def word_le_def)
  show ?thesis using r ucast_point [of c] plain_char_point(4) [OF assms]
    by (auto simp: json_escape_def eq json_unescape1_def word_uint_eq_iff)
qed

text \<open>JSON strings of plain text. A text of printable ASCII characters, tabs, line ends, form
  feeds and backspaces is read back by \<open>JsonStrUnescape\<close> from what \<open>JsonStrEscape\<close> makes of it.\<close>

theorem json_plain_roundtrip:
  assumes "list_all (\<lambda>c. 32 \<le> c \<and> c \<le> 126 \<or> c \<in> {8, 9, 10, 12, 13}) s"
  shows "JsonStrUnescape (JsonStrEscape s) = s"
proof -
  have p: "list_all plain_char s" using assms by (simp add: list_all_iff plain_char_def)
  then have "json_unescape (concat (map json_escape (map ucast s))) = s" by (induction s) (simp_all add: json_plain)
  then show ?thesis by (simp add: JsonStrUnescape_def JsonStrEscape_def Utf8ToWchar_plain [OF p])
qed

theorem json_plain_roundtrip_witness: "JsonStrUnescape (JsonStrEscape [34, 92, 10, 65]) = [34, 92, 10, 65]"
  by (rule json_plain_roundtrip) (simp add: word_le_nat_alt)

lemma ucast16_add: "(ucast (x + y :: 32 word) :: 16 word) = ucast x + ucast y"
proof transfer
  fix x y :: int
  show "take_bit LENGTH(16) (take_bit LENGTH(32) (x + y)) = take_bit LENGTH(16) (take_bit LENGTH(32) x + take_bit LENGTH(32) y)"
    using take_bit_add [of 16 "take_bit 32 x" "take_bit 32 y"] take_bit_add [of 16 x y] by simp
qed

lemma json_value_digits: "json_value a b c d = json_value a' b' c d"
proof -
  have "(ucast (push_bit 24 x :: 32 word) :: 16 word) = 0" "(ucast (push_bit 16 x :: 32 word) :: 16 word) = 0" for x
    by (rule bit_word_eqI, simp add: bit_simps)+
  then show ?thesis unfolding json_value_def ucast16_add by simp
qed

text \<open>\<open>JsonStrUnescape\<close> does not read the escapes that \<open>JsonStrEscape\<close> writes for the other
  characters: the first two of the four digits of a Unicode escape are shifted out of its 16 bits, so that
  escapes that differ only there are read as the same character.\<close>

theorem json_unicode_digits_lost:
  "JsonStrUnescape ([92, 117, a, b, c, d] @ s) = JsonStrUnescape ([92, 117, a', b', c, d] @ s)"
  using json_value_digits [of a b c d a' b'] by (simp add: JsonStrUnescape_def)

end
