(* ===== verification/PathProps.thy ===== *)
theory PathProps
  imports StrUtilProps
begin

text \<open>
  Properties of \<open>NormalizePath\<close>. Every step of its loops is a contraction: the text between two
  separators and one of the separators is taken out. What a later loop removes is not brought
  back by a contraction, so that the loops together leave a path in normal form.
\<close>

section \<open>Contractions\<close>

definition contract :: "byte \<Rightarrow> bytes \<Rightarrow> bytes \<Rightarrow> bool" where
  "contract sep s t \<longleftrightarrow> (\<exists>A B Y. s = A @ sep # B @ sep # Y \<and> t = A @ sep # Y)"

text \<open>A pattern between two separators does not reach across a separator.\<close>

lemma sublist_joint:
  assumes "sublist (sep # m @ [sep]) (A @ sep # Y)" and "sep \<notin> set m"
  shows "sublist (sep # m @ [sep]) (A @ [sep]) \<or> sublist (sep # m @ [sep]) (sep # Y)"
proof -
  obtain u v where uv: "A @ sep # Y = u @ (sep # m @ [sep]) @ v" using assms(1) by (auto simp: sublist_def)
  show ?thesis
  proof (cases "length A \<le> length u")
    case True
    then have "sep # Y = drop (length A) u @ (sep # m @ [sep]) @ v"
      using arg_cong [OF uv, of "drop (length A)"] by simp
    then have "sublist (sep # m @ [sep]) (sep # Y)" unfolding sublist_def by blast
    then show ?thesis by simp
  next
    case False
    have "length u + length m + 1 \<le> length A"
    proof (rule ccontr)
      assume n: "\<not> length u + length m + 1 \<le> length A"
      let ?k = "length A - length u - 1"
      have k: "?k < length m" "length u \<le> length A" "length A - length u = Suc ?k" using False n by auto
      have "(A @ sep # Y) ! length A = m ! ?k"
        unfolding uv using k by (simp add: nth_append)
      then have "sep = m ! ?k" by simp
      with assms(2) k(1) show False by (metis nth_mem)
    qed
    then have l: "length (u @ sep # m @ [sep]) \<le> length (A @ [sep])" by simp
    have "prefix (u @ sep # m @ [sep]) (A @ sep # Y)" using uv by simp
    moreover have "prefix (A @ [sep]) (A @ sep # Y)" by simp
    ultimately have "prefix (u @ sep # m @ [sep]) (A @ [sep])" using prefix_length_prefix l by blast
    then obtain w where "A @ [sep] = u @ (sep # m @ [sep]) @ w" by (auto simp: prefix_def)
    then have "sublist (sep # m @ [sep]) (A @ [sep])" unfolding sublist_def by blast
    then show ?thesis by simp
  qed
qed

lemma contract_pattern:
  assumes "contract sep s t" and "\<not> sublist (sep # m @ [sep]) s" and "sep \<notin> set m"
  shows "\<not> sublist (sep # m @ [sep]) t"
proof
  assume t: "sublist (sep # m @ [sep]) t"
  obtain A B Y where st: "s = A @ sep # B @ sep # Y" "t = A @ sep # Y" using assms(1) unfolding contract_def by blast
  have "sublist (sep # m @ [sep]) (A @ [sep]) \<or> sublist (sep # m @ [sep]) (sep # Y)"
    by (rule sublist_joint [OF t [unfolded st(2)] assms(3)])
  moreover have "s = [] @ (A @ [sep]) @ B @ sep # Y" "s = (A @ sep # B) @ (sep # Y) @ []" using st by simp_all
  then have "sublist (A @ [sep]) s" "sublist (sep # Y) s" unfolding sublist_def by blast+
  ultimately have "sublist (sep # m @ [sep]) s"
    using sublist_order.order.trans [of "sep # m @ [sep]" "A @ [sep]" s] sublist_order.order.trans [of "sep # m @ [sep]" "sep # Y" s] by argo
  then show False using assms(2) by simp
qed

lemma contract_tl:
  assumes "contract sep s t" and "\<not> sublist [sep, sep] (tl s)"
  shows "\<not> sublist [sep, sep] (tl t)"
proof -
  obtain A B Y where st: "s = A @ sep # B @ sep # Y" "t = A @ sep # Y" using assms(1) by (auto simp: contract_def)
  show ?thesis
  proof (cases A)
    case Nil
    then have "tl s = (B @ [sep]) @ Y @ []" using st by simp
    then have "sublist Y (tl s)" unfolding sublist_def by blast
    then show ?thesis using assms(2) st Nil sublist_order.order.trans by auto
  next
    case (Cons a A')
    then have "contract sep (tl s) (tl t)" using st by (auto simp: contract_def)
    from contract_pattern [OF this, of "[]"] assms(2) show ?thesis by simp
  qed
qed

lemma contract_start:
  assumes "contract sep s t" and "hd s = sep"
  shows "t \<noteq> [] \<and> hd t = sep"
proof -
  obtain A B Y where "s = A @ sep # B @ sep # Y" "t = A @ sep # Y" using assms(1) by (auto simp: contract_def)
  then show ?thesis using assms(2) by (cases A) simp_all
qed

section \<open>The loops\<close>

lemma find_from_None: "find_from pat s k = None \<longleftrightarrow> k > length s \<or> \<not> sublist pat (drop k s)"
  by (auto simp: find_from_def find_sub_None)

text \<open>An invariant of the steps of a loop holds at its end.\<close>

lemma cut_loop_induct:
  assumes "0 < n" and "n \<le> length pat" and "P s"
    and "\<And>s i. P s \<Longrightarrow> find_from pat s k = Some i \<Longrightarrow> P (take i s @ drop (i + n) s)"
  shows "P (cut_loop pat k n s) \<and> find_from pat (cut_loop pat k n s) k = None"
  using assms
proof (induction pat k n s rule: cut_loop.induct)
  case (1 pat k n s)
  show ?case
  proof (cases "find_from pat s k")
    case (Some i)
    have c: "\<not> (n = 0 \<or> length pat < n)" using 1(2,3) by simp
    have "cut_loop pat k n s = cut_loop pat k n (take i s @ drop (i + n) s)"
      using Some c by (simp add: cut_loop.simps [of pat k n s])
    with 1(1) [OF Some c 1(2,3) 1(5) [OF 1(4) Some] 1(5)] show ?thesis by (simp only:)
  next
    case None
    then have "cut_loop pat k n s = s" by (simp add: cut_loop.simps)
    with None 1(4) show ?thesis by (simp only:)
  qed
qed

lemma cut_contract:
  assumes "find_from (sep # m @ [sep]) s k = Some i"
  shows "contract sep s (take i s @ drop (i + (length m + 1)) s)"
proof -
  from find_from_Some [OF assms] obtain Y where s: "s = take i s @ sep # m @ sep # Y" by auto
  have i: "i \<le> length s" using find_from_Some [OF assms] by simp
  have "drop (i + (length m + 1)) s = drop (length m + 1) (drop i s)" by (simp add: add.commute)
  also have "drop i s = sep # m @ sep # Y" using arg_cong [OF s, of "drop i"] i by simp
  finally have "drop (i + (length m + 1)) s = sep # Y" by simp
  with s show ?thesis unfolding contract_def by metis
qed

text \<open>What the first three loops leave: a path that starts with the separator.\<close>

definition path_ok :: "byte \<Rightarrow> bytes \<Rightarrow> bool" where
  "path_ok sep s \<longleftrightarrow> s \<noteq> [] \<and> hd s = sep \<and> \<not> sublist [sep, sep] (tl s) \<and> \<not> sublist [sep, 46, sep] s"

lemma contract_path_ok: "contract sep s t \<Longrightarrow> sep \<noteq> 46 \<Longrightarrow> path_ok sep s \<Longrightarrow> path_ok sep t"
  using contract_start [of sep s t] contract_tl [of sep s t] contract_pattern [of sep s t "[46]"]
  by (simp add: path_ok_def)

text \<open>No double separator at the start, which holds from the start when the separator was added.\<close>

definition single :: "byte \<Rightarrow> bytes \<Rightarrow> bool" where
  "single sep s \<longleftrightarrow> s \<noteq> [] \<and> hd s = sep \<and> \<not> prefix [sep, sep] s"

lemma single_keep:
  assumes "single sep (A @ sep # X)" and "A \<noteq> []"
  shows "single sep (A @ sep # Y)"
proof (cases A)
  case (Cons a A')
  then show ?thesis using assms(1) by (cases A') (auto simp: single_def)
qed (use assms(2) in simp)

lemma contract_single:
  assumes "single sep s" and "contract sep s t" and "\<not> sublist [sep, sep] (tl s)"
  shows "single sep t"
proof -
  obtain A B Y where st: "s = A @ sep # B @ sep # Y" "t = A @ sep # Y" using assms(2) unfolding contract_def by blast
  show ?thesis
  proof (cases "A = []")
    case True
    then have e: "tl s = B @ sep # Y" using st by simp
    have "\<not> prefix [sep] Y"
    proof
      assume "prefix [sep] Y"
      then obtain v where "tl s = B @ [sep, sep] @ v" using e by (auto simp: prefix_def)
      then have "sublist [sep, sep] (tl s)" unfolding sublist_def by blast
      then show False using assms(3) by simp
    qed
    then show ?thesis using st True by (simp add: single_def)
  next
    case False
    then show ?thesis using single_keep [of sep A "B @ sep # Y" Y] assms(1) st by simp
  qed
qed

lemma cut_single:
  assumes "find_from (sep # m @ [sep]) s k = Some i" and "0 < i" and "single sep s"
  shows "single sep (take i s @ drop (i + (length m + 1)) s)"
proof -
  from find_from_Some [OF assms(1)] obtain Y where s: "s = take i s @ sep # m @ sep # Y" "i \<le> length s" by auto
  have "drop (i + (length m + 1)) s = drop (length m + 1) (drop i s)" by (simp add: add.commute)
  also have "drop i s = sep # m @ sep # Y" using arg_cong [OF s(1), of "drop i"] s(2) by simp
  finally have "drop (i + (length m + 1)) s = sep # Y" by simp
  moreover have "take i s \<noteq> []" using assms(2,3) by (auto simp: single_def)
  ultimately show ?thesis using single_keep [of sep "take i s" "m @ sep # Y" Y] assms(3) s(1) by simp
qed

text \<open>What every contraction keeps is kept by a loop.\<close>

lemma cut_loop_none: "find_from (sep # m @ [sep]) (cut_loop (sep # m @ [sep]) k (length m + 1) s) k = None"
  by (rule cut_loop_induct [where P = "\<lambda>_. True", THEN conjunct2]) simp_all

lemma cut_loop_keeps:
  assumes "P s" and "\<And>s t. P s \<Longrightarrow> contract sep s t \<Longrightarrow> P t"
  shows "P (cut_loop (sep # m @ [sep]) k (length m + 1) s)"
  by (rule cut_loop_induct [where P = P, THEN conjunct1]) (auto simp only: assms(1) intro: assms(2) cut_contract, auto)

lemma cut_loop_single:
  assumes "single sep s" and "\<And>s i. single sep s \<Longrightarrow> find_from (sep # m @ [sep]) s k = Some i \<Longrightarrow> 0 < i"
  shows "single sep (cut_loop (sep # m @ [sep]) k (length m + 1) s)"
  by (rule cut_loop_induct [where P = "single sep", THEN conjunct1]) (auto simp only: assms(1) intro: assms(2) cut_single, auto)

text \<open>The first three loops together.\<close>

definition cut_all :: "byte \<Rightarrow> bytes \<Rightarrow> bytes" where
  "cut_all sep s = cut_loop [sep, 46, sep] 0 2 (cut_loop [sep, sep] 1 1 (cut_loop [sep, sep, sep] 0 2 s))"

lemma sublist_tl_None: "find_from [sep, sep] s 1 = None \<Longrightarrow> \<not> sublist [sep, sep] (tl s)"
  by (cases s) (auto simp: find_from_None)

lemma loops_keep:
  assumes "P s" and "\<And>s t. P s \<Longrightarrow> contract sep s t \<Longrightarrow> P t"
  shows "P (cut_loop [sep, sep, sep] 0 2 s)" and "P (cut_loop [sep, sep] 1 1 s)" and "P (cut_loop [sep, 46, sep] 0 2 s)"
  using cut_loop_keeps [where P = P and s = s and sep = sep and m = "[sep]" and k = 0, OF assms]
    cut_loop_keeps [where P = P and s = s and sep = sep and m = "[]" and k = 1, OF assms]
    cut_loop_keeps [where P = P and s = s and sep = sep and m = "[46]" and k = 0, OF assms]
  by (simp_all add: numeral_2_eq_2)

lemma loops_none:
  "find_from [sep, sep] (cut_loop [sep, sep] 1 1 s) 1 = None" "find_from [sep, 46, sep] (cut_loop [sep, 46, sep] 0 2 s) 0 = None"
  using cut_loop_none [of sep "[]" 1 s] cut_loop_none [of sep "[46]" 0 s] by (simp_all add: numeral_2_eq_2)

lemma loops_single:
  assumes "single sep s"
  shows "single sep (cut_loop [sep, sep, sep] 0 2 s)" and "single sep (cut_loop [sep, sep] 1 1 s)"
proof -
  have "0 < i" if "single sep s" "find_from [sep, sep, sep] s 0 = Some i" for s i
  proof (rule ccontr)
    assume "\<not> 0 < i"
    with find_from_Some [OF that(2)] have "s = [sep, sep, sep] @ drop 3 s" by (simp add: numeral_3_eq_3)
    then have "prefix [sep, sep] s" by (metis append_Cons prefixI append_Nil)
    then show False using that(1) by (simp add: single_def)
  qed
  then show "single sep (cut_loop [sep, sep, sep] 0 2 s)"
    using cut_loop_single [OF assms, of "[sep]" 0] by (simp add: numeral_2_eq_2)
  have "0 < i" if "find_from [sep, sep] s 1 = Some i" for s i using find_from_Some [OF that] by simp
  then show "single sep (cut_loop [sep, sep] 1 1 s)"
    using cut_loop_single [OF assms, of "[]" 1] by simp
qed

lemma cut_all:
  assumes "sep \<noteq> 46" and "s \<noteq> [] \<and> hd s = sep"
  shows "path_ok sep (cut_all sep s)" and "single sep s \<Longrightarrow> single sep (cut_all sep s)"
proof -
  define s2 where "s2 = cut_loop [sep, sep, sep] 0 2 s"
  define s3 where "s3 = cut_loop [sep, sep] 1 1 s2"
  have s4: "cut_all sep s = cut_loop [sep, 46, sep] 0 2 s3" by (simp only: cut_all_def s2_def s3_def)
  have start: "t \<noteq> [] \<and> hd t = sep" if "u \<noteq> [] \<and> hd u = sep" "contract sep u t" for u t using contract_start that by blast
  have "s2 \<noteq> [] \<and> hd s2 = sep" unfolding s2_def by (rule loops_keep(1) [where P = "\<lambda>s. s \<noteq> [] \<and> hd s = sep", OF assms(2) start])
  then have "s3 \<noteq> [] \<and> hd s3 = sep" unfolding s3_def by (rule loops_keep(2) [where P = "\<lambda>s. s \<noteq> [] \<and> hd s = sep", OF _ start])
  then have a: "cut_all sep s \<noteq> [] \<and> hd (cut_all sep s) = sep"
    unfolding s4 by (rule loops_keep(3) [where P = "\<lambda>s. s \<noteq> [] \<and> hd s = sep", OF _ start])
  have t3: "\<not> sublist [sep, sep] (tl s3)" unfolding s3_def by (rule sublist_tl_None) (rule loops_none(1))
  have b: "\<not> sublist [sep, sep] (tl (cut_all sep s))"
    unfolding s4 by (rule loops_keep(3) [where P = "\<lambda>s. \<not> sublist [sep, sep] (tl s)", OF t3 contract_tl [rotated]])
  show "path_ok sep (cut_all sep s)" using a b loops_none(2) [of sep s3] by (simp add: path_ok_def s4 find_from_None)
  show "single sep (cut_all sep s)" if "single sep s"
  proof -
    have "single sep s3 \<and> \<not> sublist [sep, sep] (tl s3)"
      using t3 loops_single that by (simp only: s2_def s3_def) simp
    then have "single sep (cut_all sep s) \<and> \<not> sublist [sep, sep] (tl (cut_all sep s))"
      unfolding s4 by (rule loops_keep(3) [where P = "\<lambda>s. single sep s \<and> \<not> sublist [sep, sep] (tl s)"])
        (use contract_single contract_tl in blast)
    then show ?thesis ..
  qed
qed

section \<open>Dots\<close>

lemma rfind_sep:
  assumes "rfind_sub [sep] s = Some j"
  shows "j < length s" and "s = take j s @ sep # drop (j + 1) s"
proof -
  obtain i where i: "find_sub [sep] (rev s) = Some i" "j = length s - i - 1" using assms by (auto simp: rfind_sub_def)
  have l: "i < length s" using find_sub_less [OF i(1)] by simp
  have "rev s ! i = sep" using arg_cong [OF conjunct1 [OF find_sub_Some [OF i(1)]], of "\<lambda>x. x ! i"] l by (simp add: nth_append)
  then have "s ! j = sep" using i(2) l by (simp add: rev_nth)
  moreover show "j < length s" using i(2) l by simp
  ultimately show "s = take j s @ sep # drop (j + 1) s" using id_take_nth_drop [of j s] by simp
qed

lemma dotdot_contract:
  assumes "find_sub [sep, 46, 46, sep] s = Some i" and "find_last_of sep s (i - 1) = Some j" and "i \<noteq> 0"
  shows "contract sep s (take j s @ drop (i + 3) s)"
proof -
  from find_sub_Some [OF assms(1)] have s: "s = take i s @ [sep, 46, 46, sep] @ drop (i + 4) s" "i + 4 \<le> length s" by (simp_all add: eval_nat_numeral)
  have r: "rfind_sub [sep] (take i s) = Some j" using assms(2,3) by (simp add: find_last_of_def)
  have j: "j < i" "take i s = take j s @ sep # drop (j + 1) (take i s)"
    using rfind_sep [OF r] s(2) by (simp_all add: min_def)
  have "drop i s = [sep, 46, 46, sep] @ drop (i + 4) s" using arg_cong [OF s(1), of "drop i"] s(2) by simp
  then have "drop (i + 3) s = sep # drop (i + 4) s" using drop_drop [of 3 i s] by (simp add: add.commute)
  moreover have "s = take j s @ sep # (drop (j + 1) (take i s) @ [sep, 46, 46]) @ sep # drop (i + 4) s"
    using s(1) j(2) by (metis append.assoc append_Cons append_Nil)
  ultimately show ?thesis unfolding contract_def by metis
qed

lemma dotdot_loop_keeps:
  assumes "P s" and "\<And>s t. P s \<Longrightarrow> contract sep s t \<Longrightarrow> P t" and "dotdot_loop sep s = Some t"
  shows "P t \<and> \<not> sublist [sep, 46, 46, sep] t"
  using assms
proof (induction sep s rule: dotdot_loop.induct)
  case (1 sep s)
  show ?case
  proof (cases "find_sub [sep, 46, 46, sep] s")
    case None
    then have "t = s" using 1(4) by (simp add: dotdot_loop.simps [of sep s])
    then show ?thesis using 1(2) None find_sub_None by auto
  next
    case (Some i)
    with 1(4) have i: "i \<noteq> 0" by (auto simp: dotdot_loop.simps [of sep s] split: if_splits)
    with 1(4) Some obtain j where j: "find_last_of sep s (i - 1) = Some j" "dotdot_loop sep (take j s @ drop (i + 3) s) = Some t"
      by (auto simp: dotdot_loop.simps [of sep s] split: option.splits)
    show ?thesis by (rule 1(1) [OF Some i j(1) 1(3) [OF 1(2) dotdot_contract [OF Some j(1) i]] 1(3) j(2)])
  qed
qed

lemma ends_at_suffix:
  assumes "pat \<noteq> []"
  shows "ends_at pat s \<longleftrightarrow> suffix pat s"
proof (cases "find_sub (rev pat) (rev s)")
  case None
  then show ?thesis using find_sub_None [of "rev pat" "rev s"]
    by (auto simp: ends_at_def rfind_sub_def suffix_to_prefix dest: prefix_imp_sublist)
next
  case (Some i)
  then have "i + length pat \<le> length s" using find_sub_Some [OF Some] by simp
  then have "ends_at pat s \<longleftrightarrow> i = 0" using Some by (auto simp: ends_at_def rfind_sub_def)
  also have "\<dots> \<longleftrightarrow> prefix (rev pat) (rev s)" using Some assms by (cases "rev s") (auto split: if_splits)
  finally show ?thesis by (simp add: suffix_to_prefix)
qed

section \<open>Normal form\<close>

definition normal :: "byte \<Rightarrow> bytes \<Rightarrow> bool" where
  "normal sep s \<longleftrightarrow> path_ok sep s \<and> \<not> sublist [sep, 46, 46, sep] s \<and> \<not> suffix [sep, 46] s \<and> \<not> suffix [sep, 46, 46] s"

lemma suffix_sublist: "suffix pat t \<Longrightarrow> sublist (pat @ [c]) (t @ [c])"
  by (auto simp: suffix_def)

lemma prefix_path_ok:
  assumes "prefix t s" and "t \<noteq> []" and "path_ok sep s"
  shows "path_ok sep t"
proof -
  obtain u where u: "s = t @ u" using assms(1) by (auto simp: prefix_def)
  have "sublist t s" "sublist (tl t) (tl s)" using u assms(2) by simp_all
  then show ?thesis using assms(2,3) u sublist_order.order.trans unfolding path_ok_def by (metis hd_append2)
qed

lemma prefix_normal:
  assumes "prefix (t @ [sep]) s" and "t \<noteq> []" and "path_ok sep s" and "\<not> sublist [sep, 46, 46, sep] s"
  shows "normal sep t"
proof -
  have p: "prefix t s" "sublist (t @ [sep]) s" using assms(1) by (auto dest: append_prefixD)
  then have "\<not> sublist [sep, 46, 46, sep] t" using assms(4) by (meson prefix_imp_sublist sublist_order.order.trans)
  moreover have "\<not> suffix [sep, 46] t"
  proof
    assume "suffix [sep, 46] t"
    from sublist_order.order.trans [OF suffix_sublist [OF this] p(2)] show False using assms(3) by (simp add: path_ok_def)
  qed
  moreover have "\<not> suffix [sep, 46, 46] t"
  proof
    assume "suffix [sep, 46, 46] t"
    from sublist_order.order.trans [OF suffix_sublist [OF this] p(2)] show False using assms(4) by simp
  qed
  ultimately show ?thesis using prefix_path_ok [OF p(1) assms(2,3)] by (simp add: normal_def)
qed

lemma take_suffix: "suffix pat s \<Longrightarrow> s = take (length s - length pat) s @ pat"
  by (auto simp: suffix_def)

lemma normalize_end:
  assumes "path_ok sep s" and "\<not> sublist [sep, 46, 46, sep] s" and "normalize_end sep s = Some t"
  shows "prefix t s" and "t = [] \<or> normal sep t"
proof -
  have "prefix t s \<and> (t = [] \<or> normal sep t)"
  proof (cases "suffix [sep, 46] s")
    case True
    let ?s1 = "take (length s - 2) s"
    have "s = ?s1 @ [sep, 46]" using take_suffix [OF True] by (simp add: numeral_2_eq_2)
    then have p: "prefix (?s1 @ [sep]) s" by (metis append_Cons append_Nil append_assoc prefixI)
    have n: "?s1 = [] \<or> normal sep ?s1" using prefix_normal [OF p _ assms(1,2)] by blast
    then have "\<not> suffix [sep, 46, 46] ?s1" by (auto simp: normal_def)
    then have "t = ?s1" using assms(3) True by (simp add: normalize_end_def ends_at_suffix)
    then show ?thesis using n by (simp add: take_is_prefix)
  next
    case False
    show ?thesis
    proof (cases "suffix [sep, 46, 46] s")
      case True
      then obtain j where j: "find_last_of sep s (length s - 3 - 1) = Some j" "t = take j s" "length s - 3 \<noteq> 0"
        using assms(3) False by (auto simp: normalize_end_def ends_at_suffix Let_def split: if_splits)
      let ?u = "take (length s - 3 - 1 + 1) s"
      have r: "rfind_sub [sep] ?u = Some j" using j(1) by (simp only: find_last_of_def)
      have "prefix (take j ?u @ [sep]) ?u" using rfind_sep(2) [OF r] by (metis append_Cons append_Nil append_assoc prefixI)
      then have "prefix (take j ?u @ [sep]) s" using take_is_prefix prefix_order.trans by blast
      moreover have "take j ?u = take j s" using rfind_sep(1) [OF r] by simp
      ultimately have "prefix (take j s @ [sep]) s" by (simp only:)
      from prefix_normal [OF this _ assms(1,2)] show ?thesis using j(2) by (auto simp: take_is_prefix)
    next
      case no: False
      then have "t = s" using assms(3) False by (simp add: normalize_end_def ends_at_suffix)
      then show ?thesis using assms(1,2) False no by (simp add: normal_def)
    qed
  qed
  then show "prefix t s" "t = [] \<or> normal sep t" by simp_all
qed

section \<open>Normalized paths\<close>

text \<open>Whether the code adds a separator, and the path it works on.\<close>

definition slashes :: "bytes \<Rightarrow> byte \<Rightarrow> bytes" where
  "slashes path sep = map (\<lambda>c. if c = 92 then sep else c) path"

definition slash_added :: "bytes \<Rightarrow> byte \<Rightarrow> bool" where
  "slash_added path sep \<longleftrightarrow> slashes path sep = [] \<or> hd (slashes path sep) \<noteq> sep"

definition start_path :: "bytes \<Rightarrow> byte \<Rightarrow> bytes" where
  "start_path path sep = (if slash_added path sep then sep # slashes path sep else slashes path sep)"

lemma NormalizePath_steps: "NormalizePath path sep =
     (case Option.bind (dotdot_loop sep (cut_all sep (start_path path sep))) (normalize_end sep) of
        None \<Rightarrow> if slash_added path sep then [] else [sep]
      | Some t \<Rightarrow> if slash_added path sep then tl t else if t = [] then [sep] else t)"
  by (auto simp: NormalizePath_def Let_def cut_all_def start_path_def slash_added_def slashes_def split: option.split)

text \<open>What the result is made of.\<close>

definition result_ok :: "bytes \<Rightarrow> byte \<Rightarrow> bytes \<Rightarrow> bool" where
  "result_ok path sep t \<longleftrightarrow> normal sep t \<and> (slash_added path sep \<longrightarrow> single sep t) \<and> set t \<subseteq> insert sep (set (slashes path sep))"

lemma normal_root: "sep \<noteq> 46 \<Longrightarrow> normal sep [sep] \<and> single sep [sep]"
  by (auto simp: normal_def path_ok_def single_def suffix_def Cons_eq_append_conv dest: sublist_length_le)

lemma NormalizePath_result:
  assumes "sep \<noteq> 46"
  obtains t where "result_ok path sep t" and "NormalizePath path sep = (if slash_added path sep then tl t else t)"
proof -
  let ?s = "start_path path sep" and ?S = "insert sep (set (slashes path sep))"
  define P where "P u \<longleftrightarrow> path_ok sep u \<and> (slash_added path sep \<longrightarrow> single sep u) \<and> set u \<subseteq> ?S" for u
  have root: "result_ok path sep [sep]" using normal_root [OF assms] by (simp add: result_ok_def)
  have start: "?s \<noteq> [] \<and> hd ?s = sep" "slash_added path sep \<Longrightarrow> single sep ?s" "set ?s \<subseteq> ?S"
    by (auto simp: start_path_def slash_added_def single_def split: if_splits) (cases "slashes path sep", auto)
  have set_keep: "set u \<subseteq> ?S" if "set s \<subseteq> ?S" "contract sep s u" for s u using that by (auto simp: contract_def)
  have "set (cut_all sep ?s) \<subseteq> ?S"
  proof -
    have "set (cut_loop [sep, sep, sep] 0 2 ?s) \<subseteq> ?S" by (rule loops_keep(1) [where P = "\<lambda>s. set s \<subseteq> ?S", OF start(3) set_keep])
    then have "set (cut_loop [sep, sep] 1 1 (cut_loop [sep, sep, sep] 0 2 ?s)) \<subseteq> ?S"
      by (rule loops_keep(2) [where P = "\<lambda>s. set s \<subseteq> ?S", OF _ set_keep])
    then show ?thesis unfolding cut_all_def by (rule loops_keep(3) [where P = "\<lambda>s. set s \<subseteq> ?S", OF _ set_keep])
  qed
  then have P0: "P (cut_all sep ?s)" using cut_all [OF assms start(1)] start(2) by (simp add: P_def)
  have keep: "P u" if "P s" "contract sep s u" for s u
    using that contract_path_ok [OF that(2) assms] contract_single [OF _ that(2)] set_keep [OF _ that(2)] by (auto simp: P_def path_ok_def)
  show thesis
  proof (cases "Option.bind (dotdot_loop sep (cut_all sep ?s)) (normalize_end sep)")
    case None
    then show thesis using that [OF root] by (simp add: NormalizePath_steps)
  next
    case (Some t)
    then obtain u where u: "dotdot_loop sep (cut_all sep ?s) = Some u" "normalize_end sep u = Some t" by (auto simp: bind_eq_Some_conv)
    have "P u \<and> \<not> sublist [sep, 46, 46, sep] u" by (rule dotdot_loop_keeps [where P = P, OF P0 _ u(1)]) (rule keep)
    then have Pu: "P u" "\<not> sublist [sep, 46, 46, sep] u" by simp_all
    have n: "prefix t u" "t = [] \<or> normal sep t" using normalize_end [OF _ Pu(2) u(2)] Pu(1) by (simp_all add: P_def)
    have "result_ok path sep t" if "t \<noteq> []"
      using n that Pu(1) set_mono_prefix [OF n(1)] prefix_order.trans [of "[sep, sep]" t u]
      by (auto simp: result_ok_def P_def single_def normal_def path_ok_def)
    then show thesis using that [of t] that [OF root] Some by (cases "t = []") (auto simp: NormalizePath_steps)
  qed
qed

text \<open>The pieces between the separators.\<close>

lemma SplitString_piece:
  assumes "x \<in> set (SplitString s [sep])"
  shows "sublist (sep # x @ [sep]) (sep # s @ [sep])"
proof -
  have "sublist (sep # x @ [sep]) (sep # s @ [sep])" if "x \<in> set (split_loop [sep] s)" for s
    using that
  proof (induction "[sep]" s rule: split_loop.induct)
    case (1 s)
    show ?case
    proof (cases "find_sub [sep] s")
      case None
      then show ?thesis using 1(2) by (simp add: split_loop.simps [of "[sep]" s])
    next
      case (Some i)
      let ?r = "drop (i + 1) s"
      have s: "s = take i s @ sep # ?r" using find_sub_Some [OF Some] by simp
      consider "x = take i s" | "x \<in> set (split_loop [sep] ?r)" using 1(2) Some by (auto simp: split_loop.simps [of "[sep]" s])
      then show ?thesis
      proof cases
        case 1
        then have "sep # s @ [sep] = [] @ (sep # x @ [sep]) @ ?r @ [sep]" using s by simp
        then show ?thesis unfolding sublist_def by blast
      next
        case 2
        then have "sublist (sep # x @ [sep]) (sep # ?r @ [sep])" using 1(1) [OF _ Some] by simp
        moreover have "sep # s @ [sep] = (sep # take i s) @ (sep # ?r @ [sep]) @ []" using s by simp
        then have "sublist (sep # ?r @ [sep]) (sep # s @ [sep])" unfolding sublist_def by blast
        ultimately show ?thesis by (rule sublist_order.order.trans)
      qed
    qed
  qed
  then show ?thesis using assms by (auto simp: SplitString_def split: if_splits)
qed

lemma sublist_snoc: "sublist p (t @ [c]) \<Longrightarrow> sublist p t \<or> suffix p (t @ [c])"
  using sublist_Cons_right [of "rev p" c "rev t"] by (auto simp: suffix_to_prefix sublist_rev_left)

lemma normal_no_dots:
  assumes "normal sep t" and "x = [46] \<or> x = [46, 46]"
  shows "\<not> sublist (sep # x @ [sep]) (t @ [sep])"
proof
  assume "sublist (sep # x @ [sep]) (t @ [sep])"
  from sublist_snoc [OF this] have "sublist (sep # x @ [sep]) t \<or> suffix (sep # x) t"
    by (metis append_Cons append_Nil suffix_snoc append_same_eq last_snoc butlast_snoc snoc_suffix_snoc)
  then show False using assms by (auto simp: normal_def path_ok_def)
qed

text \<open>C32 (safety): a normalized path does not climb. Whatever path is given, no component of the result of
  \<open>NormalizePath\<close> is \<open>.\<close> or \<open>..\<close>, so that a name built from it stays below its directory, and two
  separators follow each other only at its start. The function always returns. The separator is
  any character but the dot.\<close>

theorem NormalizePath_no_dots:
  assumes "sep \<noteq> 46"
  shows "[46] \<notin> set (SplitString (NormalizePath path sep) [sep]) \<and> [46, 46] \<notin> set (SplitString (NormalizePath path sep) [sep]) \<and>
    \<not> sublist [sep, sep] (tl (NormalizePath path sep))"
proof -
  obtain t where t: "result_ok path sep t" "NormalizePath path sep = (if slash_added path sep then tl t else t)"
    by (rule NormalizePath_result [OF assms])
  then have n: "normal sep t" "t \<noteq> []" "hd t = sep" "\<not> sublist [sep, sep] (tl t)" by (simp_all add: result_ok_def normal_def path_ok_def)
  then obtain u where u: "t = sep # u" by (cases t) auto
  have no: "\<not> sublist (sep # x @ [sep]) (sep # NormalizePath path sep @ [sep])" if x: "x = [46] \<or> x = [46, 46]" for x
  proof (cases "slash_added path sep")
    case True
    then show ?thesis using normal_no_dots [OF n(1) x] u t(2) by simp
  next
    case False
    then show ?thesis using normal_no_dots [OF n(1) x] u t(2) x assms by (auto simp: sublist_Cons_right)
  qed
  have "\<not> sublist [sep, sep] (tl u)" using n(4) u by (auto dest: sublist_order.order.trans [OF _ sublist_tl])
  then have "\<not> sublist [sep, sep] (tl (NormalizePath path sep))" using t(2) u n(4) by simp
  then show ?thesis using no [of "[46]"] no [of "[46, 46]"] SplitString_piece by blast
qed

theorem NormalizePath_no_dots_witness:
  "NormalizePath (ascii ''/www/../../etc/./passwd'') 47 = ascii ''/'' \<and> [46, 46] \<notin> set (SplitString (NormalizePath (ascii ''/www/../../etc/./passwd'') 47) [47])"
  using NormalizePath_no_dots [of 47 "ascii ''/www/../../etc/./passwd''"]
  by (simp add: ascii_def NormalizePath_def cut_loop.simps find_from_def dotdot_loop.simps find_last_of_def rfind_sub_def)

section \<open>Normalizing twice\<close>

lemma loops_normal:
  assumes "normal sep t"
  shows "cut_all sep t = t" and "dotdot_loop sep t = Some t" and "normalize_end sep t = Some t"
proof -
  have n: "\<not> sublist [sep, sep] (tl t)" "\<not> sublist [sep, 46, sep] t" "\<not> sublist [sep, 46, 46, sep] t" "\<not> suffix [sep, 46] t" "\<not> suffix [sep, 46, 46] t" "t \<noteq> []"
    using assms by (auto simp: normal_def path_ok_def)
  then obtain c u where u: "t = c # u" by (cases t) auto
  have "\<not> sublist [sep, sep, sep] t"
  proof
    assume "sublist [sep, sep, sep] t"
    then obtain p q where "t = p @ [sep, sep, sep] @ q" unfolding sublist_def by blast
    then have "tl t = (if p = [] then [] else tl p @ [sep]) @ [sep, sep] @ q" by (cases p) simp_all
    then have "sublist [sep, sep] (tl t)" unfolding sublist_def by blast
    then show False using n(1) by simp
  qed
  then have "find_from [sep, sep, sep] t 0 = None" "find_from [sep, sep] t 1 = None" "find_from [sep, 46, sep] t 0 = None"
    using n u by (simp_all add: find_from_None)
  then show "cut_all sep t = t" by (simp add: cut_all_def cut_loop.simps)
  show "dotdot_loop sep t = Some t" using n(3) find_sub_None [of "[sep, 46, 46, sep]" t] by (simp add: dotdot_loop.simps)
  show "normalize_end sep t = Some t" using n(4,5) by (simp add: normalize_end_def ends_at_suffix)
qed

text \<open>Normalizing is idempotent. A normalized path is its own normal form, for every
  separator but the dot.\<close>

theorem NormalizePath_idempotent:
  assumes "sep \<noteq> 46"
  shows "NormalizePath (NormalizePath path sep) sep = NormalizePath path sep"
proof -
  obtain t where t: "result_ok path sep t" "NormalizePath path sep = (if slash_added path sep then tl t else t)"
    by (rule NormalizePath_result [OF assms])
  then have n: "normal sep t" "t \<noteq> []" "hd t = sep" by (simp_all add: result_ok_def normal_def path_ok_def)
  then obtain u where u: "t = sep # u" by (cases t) auto
  have c: "(if c = 92 then sep else c) = c" if "c \<in> set t" for c using t(1) that by (auto simp: result_ok_def slashes_def split: if_splits)
  have same: "slashes t sep = t" "slashes u sep = u" unfolding slashes_def by (rule map_idI, rule c, simp add: u)+
  have fixpoint: "NormalizePath r sep = (if slash_added r sep then tl t else t)" if "start_path r sep = t" for r
    using that loops_normal [OF n(1)] n(2) by (simp add: NormalizePath_steps)
  show ?thesis
  proof (cases "slash_added path sep")
    case True
    then have "single sep t" using t(1) by (simp add: result_ok_def)
    then have "slash_added u sep" using u same by (cases u) (auto simp: single_def slash_added_def)
    moreover from this have "start_path u sep = t" using u same by (simp add: start_path_def)
    ultimately show ?thesis using fixpoint [of u] True t(2) u by simp
  next
    case False
    have "\<not> slash_added t sep" using n same by (simp add: slash_added_def)
    moreover from this have "start_path t sep = t" using same by (simp add: start_path_def)
    ultimately show ?thesis using fixpoint [of t] False t(2) by simp
  qed
qed

theorem NormalizePath_idempotent_witness:
  "NormalizePath (NormalizePath (ascii ''a//b/../c/.'') 47) 47 = NormalizePath (ascii ''a//b/../c/.'') 47"
  using NormalizePath_idempotent [of 47] by simp

end
