(* ===== verification/Url.thy ===== *)
theory Url
  imports StrUtil
begin

text \<open>
  Model of \<open>src/whisperlib/url/simple_url.h\<close> and \<open>simple_url.cc\<close>: a URL is parsed into its parts when it is built
  or assigned, put together again by \<open>Reassemble\<close>, and resolved against a path; and the escapes of
  URLs. An assignment parses into the object that is there, whose parts are part of the state.
\<close>

section \<open>Escapes\<close>

text \<open>The value of a hexadecimal digit, 16 for anything else.\<close>

definition url_hexval :: "byte \<Rightarrow> byte" where
  "url_hexval c =
     (if 48 \<le> c \<and> c \<le> 57 then c - 48
      else if 97 \<le> c \<and> c \<le> 102 then 10 + c - 97
      else if 65 \<le> c \<and> c \<le> 70 then 10 + c - 65
      else 16)"

datatype CharacterFlags = PASS | ESCAPE

text \<open>The table: digits, letters and the characters \<open>- . @ _ ~\<close> pass.\<close>

definition kCharLookup :: "byte \<Rightarrow> CharacterFlags" where
  "kCharLookup c =
     (if c = 45 \<or> c = 46 \<or> 48 \<le> c \<and> c \<le> 57 \<or> 64 \<le> c \<and> c \<le> 90 \<or> c = 95 \<or> 97 \<le> c \<and> c \<le> 122 \<or> c = 126
      then PASS else ESCAPE)"

definition UrlEscape :: "bytes \<Rightarrow> bytes" where
  "UrlEscape spec = concat (map (\<lambda>c. if kCharLookup c = ESCAPE then map toupper (37 # hex2 c) else [c]) spec)"

text \<open>
  The loop of \<open>UrlUnescape\<close>: the characters from \<open>esc\<close> on, the value so far, the rest. What
  follows a percent sign and is no digit is copied; a percent sign inside an escape starts a new one.
\<close>

fun url_unescape :: "bytes option \<Rightarrow> byte \<Rightarrow> bytes \<Rightarrow> bytes" where
  "url_unescape esc v [] = []"
| "url_unescape esc v (c # s) =
     (if c = 37 then url_unescape (Some [c]) 0 s
      else case esc of
             Some t \<Rightarrow>
               if url_hexval c > 15 then (t @ [c]) @ url_unescape None v s
               else if length t = 2 then (v * 16 + url_hexval c) # url_unescape None v s
               else url_unescape (Some (t @ [c])) (v * 16 + url_hexval c) s
           | None \<Rightarrow> (if c = 43 then 32 else c) # url_unescape None v s)"

definition UrlUnescape :: "bytes \<Rightarrow> bytes" where
  "UrlUnescape spec = url_unescape None 0 (c_str spec)"

section \<open>Parts of a URL\<close>

record URL =
  u_spec :: bytes
  u_is_valid :: bool
  u_scheme :: bytes
  u_user :: bytes
  u_host :: bytes
  u_port :: bytes
  u_path :: bytes
  u_query :: bytes
  u_ref :: bytes

definition URL_empty :: URL where
  "URL_empty = \<lparr>u_spec = [], u_is_valid = False, u_scheme = [], u_user = [], u_host = [], u_port = [], u_path = [], u_query = [], u_ref = []\<rparr>"

definition Invalidate :: "URL \<Rightarrow> URL" where
  "Invalidate u = URL_empty"

text \<open>An \<open>int\<close> from the \<open>long\<close> that \<open>strtol\<close> returns; out of range that is -1 or 0.\<close>

definition IntPort :: "URL \<Rightarrow> int" where
  "IntPort u =
     (if u_port u = [] then -1
      else case strtol 10 (c_str (u_port u)) of
             None \<Rightarrow> -1
           | Some v \<Rightarrow> let p = sint (word_of_int v :: 32 word) in if p \<le> 0 then -1 else p)"

definition PathForRequest :: "URL \<Rightarrow> bytes" where
  "PathForRequest u =
     (if \<not> u_is_valid u then []
      else if u_query u = [] \<and> u_ref u = [] then u_path u
      else (if u_path u = [] then [47] else u_path u) @ (if u_query u = [] then [] else 63 # u_query u) @ (if u_ref u = [] then [] else 35 # u_ref u))"

definition space2plus :: "bytes \<Rightarrow> bytes" where
  "space2plus s = concat (map (\<lambda>c. if c = 32 then [37, 50, 48] else [c]) s)"

definition Reassemble :: "URL \<Rightarrow> URL" where
  "Reassemble u = u\<lparr>u_spec :=
     u_scheme u @ [58, 47, 47] @ (if u_user u = [] then [] else u_user u @ [64]) @ u_host u @ (if u_port u = [] then [] else 58 # u_port u) @
     u_path u @ (if u_query u = [] then [] else 63 # u_query u) @ (if u_ref u = [] then [] else 35 # u_ref u)\<rparr>"

text \<open>With a user the length of the host is taken as the position of the port.\<close>

definition ParseHostPort :: "bytes \<Rightarrow> URL \<Rightarrow> URL" where
  "ParseHostPort host_port u =
     (let port_pos = rfind_sub [58] host_port;
          upto = (\<lambda>s. case port_pos of None \<Rightarrow> s | Some n \<Rightarrow> take n s);
          u1 = (case find_sub [64] host_port of
                  Some i \<Rightarrow> u\<lparr>u_user := take i host_port, u_host := upto (drop (i + 1) host_port)\<rparr>
                | None \<Rightarrow> u\<lparr>u_host := upto host_port\<rparr>)
      in case port_pos of None \<Rightarrow> u1 | Some n \<Rightarrow> u1\<lparr>u_port := drop (n + 1) host_port\<rparr>)"

text \<open>What follows the host; a part that the text does not have keeps its value.\<close>

definition ParsePath :: "nat \<Rightarrow> URL \<Rightarrow> URL" where
  "ParsePath pos u =
     (case find_from [63] (u_spec u) pos of
        None \<Rightarrow>
          (case find_from [35] (u_spec u) pos of
             None \<Rightarrow> u\<lparr>u_path := drop pos (u_spec u)\<rparr>
           | Some r \<Rightarrow> u\<lparr>u_path := take (r - pos) (drop pos (u_spec u)), u_ref := drop (r + 1) (u_spec u)\<rparr>)
      | Some q \<Rightarrow>
          let u1 = u\<lparr>u_path := take (q - pos) (drop pos (u_spec u))\<rparr> in
          (case find_from [35] (u_spec u) q of
             None \<Rightarrow> u1\<lparr>u_query := space2plus (drop (q + 1) (u_spec u))\<rparr>
           | Some r \<Rightarrow> u1\<lparr>u_query := space2plus (take (r - q - 1) (drop (q + 1) (u_spec u))), u_ref := drop (r + 1) (u_spec u)\<rparr>))"

definition ParseSpec :: "URL \<Rightarrow> URL" where
  "ParseSpec u =
     (case find_sub [58, 47, 47] (u_spec u) of
        None \<Rightarrow> Invalidate u
      | Some scheme_pos \<Rightarrow>
          let next_pos = scheme_pos + 3; u1 = u\<lparr>u_is_valid := True, u_scheme := take scheme_pos (u_spec u)\<rparr> in
          if u_scheme u1 = [] then Invalidate u1
          else case find_from [47] (u_spec u) next_pos of
                 None \<Rightarrow> Invalidate u1
               | Some host_port_pos \<Rightarrow>
                   ParsePath host_port_pos (ParseHostPort (take (host_port_pos - next_pos) (drop next_pos (u_spec u))) u1))"

definition URL_new :: "bytes \<Rightarrow> URL" where
  "URL_new url_string = ParseSpec (URL_empty\<lparr>u_spec := url_string\<rparr>)"

definition URL_assign :: "URL \<Rightarrow> URL \<Rightarrow> URL" where
  "URL_assign u other = ParseSpec (u\<lparr>u_spec := u_spec other\<rparr>)"

definition Resolve :: "bytes \<Rightarrow> URL \<Rightarrow> URL" where
  "Resolve relative_path u =
     URL_new (u_spec (Reassemble ((URL_new (u_spec u))\<lparr>u_path := NormalizeUrlPath (JoinPaths (u_path u) relative_path 47)\<rparr>)))"

definition GetQueryParameters :: "bool \<Rightarrow> URL \<Rightarrow> (bytes \<times> bytes) list" where
  "GetQueryParameters unescape u =
     map (\<lambda>q. SplitFirst (if unescape then UrlUnescape q else q) [61]) (SplitString (u_query u) [38])"

end
