(* ===== verification/UrlProps.thy ===== *)
theory UrlProps
  imports Url StrUtilProps
begin

text \<open>
  Properties of URLs: escaping and unescaping, taking a URL apart and putting it together, the parameters of
  a query; and where the parser goes wrong.
\<close>

section \<open>Searching for a character\<close>

lemma find_char: "c \<notin> set a \<Longrightarrow> find_sub (c # p) (a @ c # p @ b) = Some (length a)"
  by (induction a) auto

lemma find_char1 [simp]: "c \<notin> set a \<Longrightarrow> find_sub [c] (a @ c # b) = Some (length a)"
  using find_char [of c a "[]" b] by simp

lemma find_char_None [simp]: "c \<notin> set s \<Longrightarrow> find_sub [c] s = None"
  by (induction s) auto

lemma rfind_char [simp]: "c \<notin> set b \<Longrightarrow> rfind_sub [c] (a @ c # b) = Some (length a)"
  by (simp add: rfind_sub_def)

lemma rfind_char_None [simp]: "c \<notin> set s \<Longrightarrow> rfind_sub [c] s = None"
  by (simp add: rfind_sub_def)

lemma find_from_append: "n = length a \<Longrightarrow> find_from p (a @ s) n = map_option (\<lambda>i. n + i) (find_sub p s)"
  by (simp add: find_from_def)

lemma split_loop_join:
  assumes "ps \<noteq> []" and "\<forall>p \<in> set ps. c \<notin> set p"
  shows "split_loop [c] (JoinStrings ps [c]) = ps"
  using assms
proof (induction ps rule: list_nonempty_induct)
  case (single p)
  then show ?case by (simp add: split_loop.simps)
next
  case (cons p ps)
  then have "find_sub [c] (JoinStrings (p # ps) [c]) = Some (length p)" by (simp add: JoinStrings_Cons)
  with cons show ?case by (simp add: split_loop.simps [of "[c]" "p @ c # JoinStrings ps [c]"] JoinStrings_Cons)
qed

section \<open>Escapes\<close>

definition url_digit :: "nat \<Rightarrow> byte" where
  "url_digit n = toupper (digit_char n)"

lemma url_digit:
  assumes "n < 16"
  shows "url_digit n \<in> {48..57} \<union> {65..70}" and "url_hexval (url_digit n) = word_of_nat n" and "url_hexval (url_digit n) \<le> 15"
proof -
  have "n \<in> {0, 1, 2, 3, 4, 5, 6, 7, 8, 9, 10, 11, 12, 13, 14, 15}" using assms by (simp, arith)
  then have "url_digit n \<in> {48..57} \<union> {65..70} \<and> url_hexval (url_digit n) = word_of_nat n \<and> url_hexval (url_digit n) \<le> 15"
    by (elim insertE) (simp_all add: url_digit_def digit_char_def toupper_def url_hexval_def)
  then show "url_digit n \<in> {48..57} \<union> {65..70}" and "url_hexval (url_digit n) = word_of_nat n" and "url_hexval (url_digit n) \<le> 15"
    by blast+
qed

lemma url_digit_chars: "n < 16 \<Longrightarrow> url_digit n \<noteq> 37 \<and> url_digit n \<noteq> 0 \<and> url_digit n \<noteq> 38 \<and> url_digit n \<noteq> 61"
  using url_digit(1) [of n] by auto

lemma byte_digits: "word_of_nat (unat b div 16) * 16 + word_of_nat (unat b mod 16) = (b :: byte)"
proof -
  have "word_of_nat (unat b div 16) * 16 + word_of_nat (unat b mod 16) = (word_of_nat (unat b div 16 * 16 + unat b mod 16) :: byte)"
    by (simp only: of_nat_add of_nat_mult of_nat_numeral)
  then show ?thesis by (simp only: div_mult_mod_eq) simp
qed

lemma url_unescape_value: "url_unescape None v s = url_unescape None w s"
  by (induction s arbitrary: v w) auto

lemma UrlEscape_Cons:
  "UrlEscape (c # s) = (if kCharLookup c = ESCAPE then [37, url_digit (unat c div 16), url_digit (unat c mod 16)] else [c]) @ UrlEscape s"
  by (simp add: UrlEscape_def hex2_def url_digit_def toupper_def)

lemma kCharLookup_pass: "kCharLookup c \<noteq> ESCAPE \<Longrightarrow> c \<noteq> 37 \<and> c \<noteq> 43 \<and> c \<noteq> 0 \<and> c \<noteq> 38 \<and> c \<noteq> 61"
  by (auto simp: kCharLookup_def)

lemma url_unescape_escape: "url_unescape None v (UrlEscape s @ t) = s @ url_unescape None v t"
proof (induction s arbitrary: v)
  case Nil
  then show ?case by (simp add: UrlEscape_def)
next
  case (Cons c s)
  show ?case
  proof (cases "kCharLookup c = ESCAPE")
    case True
    note d = url_digit [OF hex_digits(1), of c] url_digit [OF hex_digits(2), of c]
      url_digit_chars [OF hex_digits(1), of c] url_digit_chars [OF hex_digits(2), of c]
    have "\<not> url_hexval (url_digit (unat c div 16)) > 15" "\<not> url_hexval (url_digit (unat c mod 16)) > 15" using d(3,6) by simp_all
    then show ?thesis using True Cons d(2,5,7,8) byte_digits [of c] url_unescape_value by (simp add: UrlEscape_Cons)
  next
    case False
    then show ?thesis using Cons kCharLookup_pass [OF False] by (simp add: UrlEscape_Cons)
  qed
qed

lemma UrlEscape_chars: "0 \<notin> set (UrlEscape s) \<and> 38 \<notin> set (UrlEscape s) \<and> 61 \<notin> set (UrlEscape s)"
proof (induction s)
  case (Cons c s)
  then show ?case using url_digit_chars [OF hex_digits(1), of c] url_digit_chars [OF hex_digits(2), of c] kCharLookup_pass [of c]
    by (auto simp: UrlEscape_Cons)
qed (simp add: UrlEscape_def)

lemma c_str_id: "0 \<notin> set s \<Longrightarrow> c_str s = s"
  unfolding c_str_def by (rule takeWhile_eq_all_conv [THEN iffD2]) auto

text \<open>A parameter of a query with its parts escaped.\<close>

definition query_parameter :: "bytes \<times> bytes \<Rightarrow> bytes" where
  "query_parameter p = UrlEscape (fst p) @ [61] @ UrlEscape (snd p)"

lemma query_parameter_chars: "0 \<notin> set (query_parameter p)" "38 \<notin> set (query_parameter p)" "query_parameter p \<noteq> []"
  using UrlEscape_chars by (simp_all add: query_parameter_def)

lemma query_parameter_split:
  assumes "61 \<notin> set k"
  shows "SplitFirst (UrlUnescape (query_parameter (k, v))) [61] = (k, v)"
proof -
  have "UrlUnescape (query_parameter (k, v)) = k @ 61 # v"
    using url_unescape_escape [of 0 k "61 # UrlEscape v"] url_unescape_escape [of 0 v "[]"] query_parameter_chars(1) [of "(k, v)"]
    by (simp add: UrlUnescape_def c_str_id) (simp add: query_parameter_def)
  then show ?thesis using assms by (simp add: SplitFirst_def)
qed

text \<open>C40 (roundtrip): the parameters of a query. Names and values, of any bytes, that are escaped by \<open>UrlEscape\<close>, joined
  with an equals sign, and put together with ampersands are returned by \<open>GetQueryParameters\<close> in their
  order, if no name contains an equals sign.\<close>

theorem query_parameters_roundtrip:
  assumes "\<forall>p \<in> set ps. 61 \<notin> set (fst p)"
  shows "GetQueryParameters True (u\<lparr>u_query := JoinStrings (map query_parameter ps) [38]\<rparr>) = ps"
proof (cases "ps = []")
  case False
  let ?q = "JoinStrings (map query_parameter ps) [38]"
  have ne: "?q \<noteq> []" using False query_parameter_chars(3) by (cases ps; cases "tl ps") auto
  have "split_loop [38] ?q = map query_parameter ps"
    using False query_parameter_chars(2) by (intro split_loop_join) auto
  then have "SplitString ?q [38] = map query_parameter ps" using ne by (simp add: SplitString_def)
  moreover have "SplitFirst (UrlUnescape (query_parameter p)) [61] = p" if "p \<in> set ps" for p
    using assms that query_parameter_split [of "fst p" "snd p"] by simp
  ultimately show ?thesis by (simp add: GetQueryParameters_def map_idI)
qed (simp add: GetQueryParameters_def SplitString_def)

theorem query_parameters_roundtrip_witness:
  "GetQueryParameters True (URL_empty\<lparr>u_query := JoinStrings (map query_parameter [(ascii ''a b'', ascii ''x=1&y''), ([0], [255])]) [38]\<rparr>) =
     [(ascii ''a b'', ascii ''x=1&y''), ([0], [255])]"
  by (rule query_parameters_roundtrip) (simp add: ascii_def)

section \<open>Taking a URL apart\<close>

lemma space2plus_id: "32 \<notin> set s \<Longrightarrow> space2plus s = s"
  by (induction s) (auto simp: space2plus_def)

text \<open>The text between the scheme and the path, the text from the path on, and a URL whose parts can be told apart.\<close>

definition authority :: "URL \<Rightarrow> bytes" where
  "authority u = (if u_user u = [] then [] else u_user u @ [64]) @ u_host u @ (if u_port u = [] then [] else 58 # u_port u)"

definition path_text :: "URL \<Rightarrow> bytes" where
  "path_text u = u_path u @ (if u_query u = [] then [] else 63 # u_query u) @ (if u_ref u = [] then [] else 35 # u_ref u)"

definition url_ok :: "URL \<Rightarrow> bool" where
  "url_ok u \<longleftrightarrow> u_is_valid u \<and> u_scheme u \<noteq> [] \<and> 58 \<notin> set (u_scheme u) \<and>
     set (u_user u) \<inter> {47, 58, 64} = {} \<and> set (u_host u) \<inter> {47, 58, 64} = {} \<and> set (u_port u) \<inter> {47, 58, 64} = {} \<and>
     u_path u \<noteq> [] \<and> hd (u_path u) = 47 \<and> set (u_path u) \<inter> {35, 63} = {} \<and> set (u_query u) \<inter> {32, 35} = {} \<and>
     (u_query u = [] \<longrightarrow> 63 \<notin> set (u_ref u))"

lemma Reassemble_spec: "u_spec (Reassemble u) = u_scheme u @ [58, 47, 47] @ authority u @ path_text u"
  by (simp add: Reassemble_def authority_def path_text_def)

lemma ParsePath_text:
  assumes "url_ok u" and "u_spec v = a @ path_text u" and "u_query v = []" and "u_ref v = []"
  shows "ParsePath (length a) v = v\<lparr>u_path := u_path u, u_query := u_query u, u_ref := u_ref u\<rparr>"
proof -
  let ?n = "length a" and ?r = "if u_ref u = [] then [] else 35 # u_ref u"
  have n: "35 \<notin> set (u_path u)" "63 \<notin> set (u_path u)" "35 \<notin> set (u_query u)" "32 \<notin> set (u_query u)"
    "u_query u = [] \<Longrightarrow> 63 \<notin> set (u_ref u)" using assms(1) by (auto simp: url_ok_def)
  show ?thesis
  proof (cases "u_query u = []")
    case True
    then have t: "u_spec v = a @ u_path u @ ?r" using assms(2) by (simp add: path_text_def)
    have q: "find_from [63] (u_spec v) ?n = None" using n True by (simp add: t find_from_append)
    have r: "find_from [35] (u_spec v) ?n = (if u_ref u = [] then None else Some (?n + length (u_path u)))"
      using n by (simp add: t find_from_append)
    show ?thesis
    proof (cases "u_ref u = []")
      case True
      then show ?thesis using q r t \<open>u_query u = []\<close> assms(3,4) by (cases v) (simp add: ParsePath_def)
    next
      case False
      then show ?thesis using q r t \<open>u_query u = []\<close> assms(3,4) by (cases v) (simp add: ParsePath_def)
    qed
  next
    case False
    then have t: "u_spec v = a @ u_path u @ 63 # u_query u @ ?r" using assms(2) by (simp add: path_text_def)
    have q: "find_from [63] (u_spec v) ?n = Some (?n + length (u_path u))" using n by (simp add: t find_from_append)
    have "find_from [35] ((a @ u_path u) @ 63 # u_query u @ ?r) (?n + length (u_path u)) =
        (if u_ref u = [] then None else Some (?n + length (u_path u) + (1 + length (u_query u))))"
      using n find_char1 [of 35 "63 # u_query u" "u_ref u"] by (subst find_from_append) simp_all
    then have r: "find_from [35] (u_spec v) (?n + length (u_path u)) =
        (if u_ref u = [] then None else Some (?n + length (u_path u) + (1 + length (u_query u))))" by (simp add: t)
    show ?thesis
    proof (cases "u_ref u = []")
      case True
      then show ?thesis using q r t n(4) assms(4) by (cases v) (simp add: ParsePath_def space2plus_id)
    next
      case False
      then show ?thesis using q r t n(4) by (cases v) (simp add: ParsePath_def space2plus_id)
    qed
  qed
qed

lemma authority_no_slash: "url_ok u \<Longrightarrow> 47 \<notin> set (authority u)"
  by (auto simp: url_ok_def authority_def)

lemma ParseSpec_text:
  assumes "url_ok u"
  shows "URL_new (u_spec (Reassemble u)) = ParsePath (length (u_scheme u @ [58, 47, 47] @ authority u))
    (ParseHostPort (authority u) (URL_empty\<lparr>u_spec := u_spec (Reassemble u), u_is_valid := True, u_scheme := u_scheme u\<rparr>))"
proof -
  let ?s = "u_spec (Reassemble u)"
  have sch: "find_sub [58, 47, 47] ?s = Some (length (u_scheme u))"
    using assms find_char [of 58 "u_scheme u" "[47, 47]"] by (simp add: Reassemble_spec url_ok_def)
  obtain t where t: "path_text u = 47 # t" using assms by (cases "u_path u") (auto simp: url_ok_def path_text_def)
  have "find_from [47] ((u_scheme u @ [58, 47, 47]) @ authority u @ 47 # t) (length (u_scheme u) + 3) =
      Some (length (u_scheme u) + 3 + length (authority u))"
    using authority_no_slash [OF assms] by (subst find_from_append) simp_all
  then have hp: "find_from [47] ?s (length (u_scheme u) + 3) = Some (length (u_scheme u) + 3 + length (authority u))"
    by (simp add: Reassemble_spec t)
  show ?thesis using assms sch hp by (simp add: URL_new_def ParseSpec_def url_ok_def) (simp add: Reassemble_spec eval_nat_numeral add.commute)
qed

lemma ParseHostPort_text:
  assumes "url_ok u"
  shows "ParseHostPort (authority u) v =
    (let v1 = (if u_user u = [] then v else v\<lparr>u_user := u_user u\<rparr>);
         v2 = v1\<lparr>u_host := (if u_user u \<noteq> [] \<and> u_port u \<noteq> [] then u_host u @ take (length (u_user u) + 1) (58 # u_port u) else u_host u)\<rparr>
     in if u_port u = [] then v2 else v2\<lparr>u_port := u_port u\<rparr>)"
proof -
  have n: "58 \<notin> set (u_user u)" "58 \<notin> set (u_host u)" "58 \<notin> set (u_port u)" "64 \<notin> set (u_user u)" "64 \<notin> set (u_host u)" "64 \<notin> set (u_port u)"
    using assms by (auto simp: url_ok_def)
  show ?thesis
  proof (cases "u_port u = []")
    case True
    then have "rfind_sub [58] (authority u) = None" using n by (simp add: authority_def)
    then show ?thesis using True n by (simp add: ParseHostPort_def authority_def Let_def)
  next
    case False
    let ?a = "(if u_user u = [] then [] else u_user u @ [64]) @ u_host u"
    have "rfind_sub [58] (?a @ 58 # u_port u) = Some (length ?a)" using n by (intro rfind_char)
    then have "rfind_sub [58] (authority u) = Some (length ?a)" using False by (simp only: authority_def if_False append_assoc)
    then show ?thesis using False n by (simp add: ParseHostPort_def authority_def Let_def)
  qed
qed


definition sample_url :: URL where
  "sample_url = \<lparr>u_spec = [], u_is_valid = True, u_scheme = ascii ''http'', u_user = [], u_host = ascii ''h'', u_port = ascii ''80'',
     u_path = ascii ''/a'', u_query = ascii ''q=1'', u_ref = ascii ''r?''\<rparr>"

lemma sample_url_ok: "url_ok sample_url"
  by (simp add: url_ok_def sample_url_def ascii_def)


text \<open>A URL with a user and a port. The host that is parsed from it is not the host it was made of: the
  separator and the start of the port are part of it.\<close>

theorem url_user_port_host:
  assumes "url_ok u" and "u_user u \<noteq> []" and "u_port u \<noteq> []"
  shows "u_host (URL_new (u_spec (Reassemble u))) = u_host u @ take (length (u_user u) + 1) (58 # u_port u)"
proof -
  let ?v = "ParseHostPort (authority u) (URL_empty\<lparr>u_spec := u_spec (Reassemble u), u_is_valid := True, u_scheme := u_scheme u\<rparr>)"
  have f: "u_spec ?v = u_spec (Reassemble u)" "u_query ?v = []" "u_ref ?v = []" "u_host ?v = u_host u @ take (length (u_user u) + 1) (58 # u_port u)"
    using assms(2,3) by (simp_all add: ParseHostPort_text [OF assms(1)] Let_def URL_empty_def)
  show ?thesis unfolding ParseSpec_text [OF assms(1)]
    using f by (subst ParsePath_text [OF assms(1)]) (simp_all add: Reassemble_spec)
qed

theorem url_user_port_host_witness: "u_host (URL_new (ascii ''http://u@h:80/a?q=1#r?'')) = ascii ''h:8''"
proof -
  have "url_ok (sample_url\<lparr>u_user := [117]\<rparr>)" using sample_url_ok by (simp add: url_ok_def sample_url_def)
  from url_user_port_host [OF this] show ?thesis by (simp add: sample_url_def Reassemble_def ascii_def)
qed

text \<open>An assignment keeps the parts that the assigned URL does not have.\<close>

lemma URL_assign_keeps_query:
  "u_query (URL_assign (URL_new (ascii ''http://a/?q'')) (URL_new (ascii ''http://b/''))) = ascii ''q'' \<and> u_query (URL_new (ascii ''http://b/'')) = []"
  by (simp add: URL_assign_def URL_new_def ParseSpec_def ParseHostPort_def ParsePath_def find_from_def rfind_sub_def ascii_def URL_empty_def space2plus_def)

end
