(* ===== verification/Spec2Isabelle.thy ===== *)
theory Spec2Isabelle
  imports StreamProps LogFaults RaftProps RaftClientProps LruClient CacheProps LockFreeQueueProps Base64Props HttpEndToEnd
    Utf8Props StrUtilProps PathProps UrlProps
begin

text \<open>
  A verification development for whisperlib, the C++ library under \<open>src/whisperlib\<close>. Paths below are
  relative to that directory.

  \<^bold>\<open>The program and its parts.\<close> The core of the library is a replicated log. Numbers are
  written in a byte order (\<open>io/num_streaming.h\<close>) to a memory stream, a queue of memory blocks
  (\<open>io/buffer\<close>); a record writer cuts records into checksummed blocks on such a stream, a log
  writer puts the blocks into numbered files of a directory and a log reader follows them
  (\<open>io/logio\<close>); a Raft server replicates the log over several machines and a Raft client sends data
  to them (\<open>raft\<close>). Beside it stand the HTTP layer, which reads and writes requests on memory streams
  (\<open>http\<close>), with Base64 (\<open>io/util\<close>) and URLs (\<open>url\<close>); string, path and UTF-8 functions (\<open>base/strutil\<close>);
  two caches (\<open>base/lru_cache.h\<close>, \<open>base/cache.h\<close>); and a lock-free queue for threads
  (\<open>sync/lock_free_producer_consumer_queue.h\<close>).

  \<^bold>\<open>How the code is modelled.\<close> A class is a record of its fields, a method a function on it that
  returns the new record; a method that can fail a \<open>CHECK\<close>, use a deleted object or write
  behind a buffer returns an option, and \<open>None\<close> is that failure. Bytes are \<open>8 word\<close>,
  checksums and code points \<open>32 word\<close>, use counts \<open>64 word\<close>; where the code computes in \<open>size_t\<close> the
  model uses natural numbers and writes the wrap-around out where it shows. Objects that are shared by pointer
  (reference-counted values, items of a cache, requests of a client) live in an explicit
  store. Threads are interleavings of atomic steps. Every loop of the code is a total function: by
  structure, by a measure, or with the proof that its input shrinks; there is no fuel.

  \<^bold>\<open>Theories.\<close>

  \<^item> \<open>Prelude\<close>: types of bytes, little-endian numbers, shared list and word lemmas. \<open>Incremental\<close>:
    the locale \<open>incremental_parser\<close> for parsers that are called again with more data.
  \<^item> \<open>NumStreaming\<close> (\<open>io/num_streaming.h\<close>): the number streamer over any stream, the locale
    \<open>byte_stream\<close> of what it needs. \<open>DataBlock\<close>, \<open>MemoryStream\<close>, \<open>MemoryStreamScan\<close>
    (\<open>io/buffer\<close>): blocks, pointers into them, the stream with its markers. \<open>StreamProps\<close>: over any sequence
    of calls the stream is a byte sequence with a stack of saved ones; numbers are read back.
  \<^item> \<open>RecordIO\<close> (\<open>io/logio/recordio\<close>): record writer and reader; any records are read back across
    blocks, a corrupted block is reported. \<open>LogIO\<close> (\<open>io/logio/logio\<close>): positions, writer, reader and
    directory functions. \<open>LogDir\<close>, \<open>LogWrite\<close>, \<open>LogRead\<close>: what each operation does to the log seen
    as a list of blocks. \<open>LogStore\<close>: the contract of a log as the locale \<open>record_log\<close>, its client lemmas and
    its interpretation: nothing is lost under failing writes, truncation undoes, restart continues,
    followers read the suffix. \<open>LogFaults\<close>: locks and failures that are not handled.
  \<^item> \<open>RaftTypes\<close>, \<open>Raft\<close>, \<open>RaftProps\<close> (\<open>raft/raft_server\<close>): messages, handlers, and what holds along runs of a
    server: one durable vote in a term, majority commits, monotone terms and commit positions, answers to
    waiting clients; and the cases in which the code breaks these rules.
  \<^item> \<open>RaftClient\<close>, \<open>RaftClientProps\<close> (\<open>raft/raft_client\<close>): the client with the queue of the selector that runs
    its closures; no request is lost and none completed twice; what a request suffers that starts between the
    closing and the restart of a connection.
  \<^item> \<open>Base64\<close>, \<open>Base64Props\<close> (\<open>io/util/base64\<close>): the incremental codec, its equivalence with a reference
    encoding and its round trip in any pieces.
  \<^item> \<open>HttpConsts\<close>, \<open>HttpHeader\<close>, \<open>HttpRequest\<close>, \<open>HttpParser\<close> (\<open>http\<close>): headers, requests and the
    incremental parser. \<open>HttpHeaderProps\<close>, \<open>HttpParserProps\<close>, \<open>HttpProps\<close>: parsing does not depend on how the
    data is cut, by interpretations of \<open>incremental_parser\<close>. \<open>HttpRoundtrip\<close>, \<open>HttpEndToEnd\<close>: what a client
    writes is what a server reads, whole or in chunks.
  \<^item> \<open>Utf8\<close>, \<open>StrUtil\<close> (\<open>base/strutil\<close>) and \<open>Url\<close> (\<open>url/simple_url\<close>) with \<open>Utf8Props\<close>, \<open>StrUtilProps\<close>,
    \<open>PathProps\<close>, \<open>UrlProps\<close>: round trips of encodings, escapes, URLs and query parameters, normal
    forms of paths, ranges of prefixes.
  \<^item> \<open>LruCache\<close>, \<open>LruProps\<close>, \<open>LruClient\<close> (\<open>base/lru_cache.h\<close>, \<open>base/ref_counted.h\<close>): the cache represents a list
    ordered by last use, references are counted right, sizes are bounded, trimming ends; two threads that
    trim can lock each other out. The locale \<open>lru_policy\<close> is what a policy provides.
  \<^item> \<open>Cache\<close>, \<open>CacheProps\<close> (\<open>base/cache.h\<close>): the expiring cache refines a list by age and a list by use; its
    three indexes agree; values are destroyed once.
  \<^item> \<open>LockFreeQueue\<close>, \<open>LockFreeQueueProps\<close>: \<open>Put\<close> and \<open>Get\<close> as steps on shared memory, an invariant of all
    steps, and the queue is first in, first out under every interleaving.

  \<^bold>\<open>Parameters.\<close> What is not in the repository is an argument: the checksum, the
  compressors (\<open>encoder\<close>, \<open>decoder\<close>, \<open>deflate\<close>), the encoding of protobuf messages, the outcome of
  file writes, the clock, which calls a closing connection cancels, the case and space tables of the C
  library, the order of a hash map.

  \<^bold>\<open>Bounds.\<close> Counters of 64 bits are assumed not to wrap in \<open>CacheProps\<close> (fewer than \<open>2 ^ 64\<close> calls)
  and \<open>LockFreeQueueProps\<close> (steps and ring together below \<open>2 ^ 64\<close>); the URL and escape theorems state in their
  hypotheses which characters separate parts. The memory of the lock-free queue is sequentially
  consistent.

  \<^bold>\<open>Not modelled.\<close> Sockets, selectors, timers, the DNS and TLS code (\<open>net\<close>), the RPC layer and the
  HTTP protocols that run on them are input and output of the operating system. The wrappers of
  zlib and of checksums call libraries. Callback classes are generated templates. The thread
  primitives (\<open>sync/mutex.h\<close> and others) wrap pthreads. Of the HTTP headers the dates and the
  floating-point preferences, of the strings the formatting of numbers, the debug printing and the tables of
  umlauts, of the streams the debug dumps are left out. \<open>Cache::Pop\<close> does not compile.
\<close>

end
